(* ===== verification/Prelude.thy ===== *)
theory Prelude
  imports "HOL-Library.Word" "HOL-Library.Sublist"
begin

text \<open>
  Shared vocabulary of the development.
  \<^item> the machine integer types of the C++ sources (\<open>u8\<close> .. \<open>u64\<close>) and byte strings;
  \<^item> the memory image of an integer on the little-endian hosts the code runs on
    (\<open>mem16\<close>, \<open>mem32\<close>, \<open>mem64\<close> are what \<open>memcpy(p, &v, n)\<close> stores, \<open>load16\<close> and
    \<open>load32\<close> what \<open>memcpy(&v, p, n)\<close> reads back), and buffer writes \<open>write_at\<close>;
  \<^item> durations of \<open>std::chrono\<close>, counted in nanoseconds of type \<open>int\<close>;
  \<^item> \<open>std::map\<close> as a key-sorted association list (\<open>om_set\<close>, \<open>om_emplace\<close>,
    \<open>om_erase\<close>, lookup by \<open>map_of\<close>), with the locale \<open>ordered_map\<close> that states what
    the components use of it.
  The collections \<open>wire_simps\<close> and \<open>om_simps\<close> carry the component proofs.
\<close>

unbundle bit_operations_syntax

named_theorems wire_simps \<open>layout of integers in memory and on the wire\<close>
named_theorems om_simps \<open>ordered maps\<close>

section \<open>Machine integers and byte strings\<close>

type_synonym u8 = "8 word"
type_synonym u16 = "16 word"
type_synonym u32 = "32 word"
type_synonym u64 = "64 word"
type_synonym bytes = "u8 list"

definition mem16 :: "u16 \<Rightarrow> bytes" where
  "mem16 v = [ucast v, ucast (drop_bit 8 v)]"

definition mem32 :: "u32 \<Rightarrow> bytes" where
  "mem32 v = [ucast v, ucast (drop_bit 8 v), ucast (drop_bit 16 v), ucast (drop_bit 24 v)]"

definition mem64 :: "u64 \<Rightarrow> bytes" where
  "mem64 v = [ucast v, ucast (drop_bit 8 v), ucast (drop_bit 16 v), ucast (drop_bit 24 v),
     ucast (drop_bit 32 v), ucast (drop_bit 40 v), ucast (drop_bit 48 v), ucast (drop_bit 56 v)]"

definition load16 :: "bytes \<Rightarrow> u16" where
  "load16 b = ucast (b ! 0) OR push_bit 8 (ucast (b ! 1))"

definition load32 :: "bytes \<Rightarrow> u32" where
  "load32 b = ucast (b ! 0) OR push_bit 8 (ucast (b ! 1))
     OR push_bit 16 (ucast (b ! 2)) OR push_bit 24 (ucast (b ! 3))"

text \<open>\<open>memcpy(buf + off, src, n)\<close> into a buffer that is large enough.\<close>

definition write_at :: "'a list \<Rightarrow> nat \<Rightarrow> 'a list \<Rightarrow> 'a list" where
  "write_at buf off src = take off buf @ src @ drop (off + length src) buf"

lemma length_mem [simp, wire_simps]:
  "length (mem16 a) = 2" "length (mem32 b) = 4" "length (mem64 c) = 8"
  by (simp_all add: mem16_def mem32_def mem64_def)

lemma load16_mem16 [simp, wire_simps]: "load16 (mem16 v) = v"
  by (rule bit_word_eqI)
    (auto simp: load16_def mem16_def bit_simps)

lemma load32_mem32 [simp, wire_simps]: "load32 (mem32 v) = v"
proof (rule bit_word_eqI)
  fix n
  assume "n < LENGTH(32)"
  then consider "n < 8" | "8 \<le> n" "n < 16" | "16 \<le> n" "n < 24" | "24 \<le> n" "n < 32"
    by fastforce
  then show "bit (load32 (mem32 v)) n = bit v n"
    by cases (auto simp: load32_def mem32_def bit_simps)
qed

lemma mem32_inj: "mem32 v = mem32 w \<longleftrightarrow> v = w"
  by (metis load32_mem32)

lemma mem16_inj: "mem16 v = mem16 w \<longleftrightarrow> v = w"
  by (metis load16_mem16)

lemma mem64_split: "mem64 v = mem32 (ucast v) @ mem32 (ucast (drop_bit 32 v))"
  by (auto simp: mem64_def mem32_def intro!: bit_word_eqI simp: bit_simps)

lemma u8_no_high_bit [simp]: "8 \<le> n \<Longrightarrow> \<not> bit (x :: u8) n"
  using bit_imp_le_length [of x n] by auto

lemma ucast_u8_inj:
  assumes "(ucast (a :: u8) :: u32) = ucast b"
  shows "a = b"
proof (rule bit_word_eqI)
  fix n
  assume "n < LENGTH(8)"
  moreover have "bit (ucast a :: u32) n = bit (ucast b :: u32) n"
    using assms by (rule arg_cong)
  ultimately show "bit a n = bit b n" by (simp add: bit_ucast_iff)
qed

lemma unat_u8_less [simp]: "unat (a :: u8) < 256"
  using unsigned_less [of a, where ?'a = nat] by simp

lemma unat_of_nat_u8: "n < 256 \<Longrightarrow> unat (of_nat n :: u8) = n"
  by (simp add: unat_of_nat)

lemma unat_of_nat_u16: "n < 65536 \<Longrightarrow> unat (of_nat n :: u16) = n"
  by (simp add: unat_of_nat)

lemma unat_of_nat_u32: "n < 4294967296 \<Longrightarrow> unat (of_nat n :: u32) = n"
  by (simp add: unat_of_nat)

lemma unat_ucast_u8 [simp]: "unat (ucast (a :: u8) :: u16) = unat a" "unat (ucast (a :: u8) :: u32) = unat a"
  using unat_u8_less [of a] by (simp_all add: unsigned_ucast_eq take_bit_nat_eq_self_iff del: unat_u8_less)

lemma ucast_ucast_u8 [simp]: "ucast (ucast (a :: u8) :: u16) = a" "ucast (ucast (a :: u8) :: u32) = a"
  by (auto intro!: bit_word_eqI simp: bit_ucast_iff)

lemma length_write_at [simp]:
  "off + length src \<le> length buf \<Longrightarrow> length (write_at buf off src) = length buf"
  by (simp add: write_at_def)

lemma nth_write_at:
  "off + length src \<le> length buf \<Longrightarrow> i < length buf \<Longrightarrow>
   write_at buf off src ! i =
     (if off \<le> i \<and> i < off + length src then src ! (i - off) else buf ! i)"
  by (auto simp: write_at_def nth_append min_def)

lemma write_at_append:
  "length pre = off \<Longrightarrow> length old = length src \<Longrightarrow>
   write_at (pre @ old @ post) off src = pre @ src @ post"
  by (simp add: write_at_def)

section \<open>Durations\<close>

text \<open>Time points and durations are nanoseconds; \<open>duration_cast\<close> truncates towards zero.\<close>

type_synonym timepoint = int
type_synonym duration = int

definition usec :: "int \<Rightarrow> duration" where "usec n = n * 1000"
definition msec :: "int \<Rightarrow> duration" where "msec n = n * 1000000"
definition sec :: "int \<Rightarrow> duration" where "sec n = n * 1000000000"

definition trunc_div :: "int \<Rightarrow> int \<Rightarrow> int" where
  "trunc_div a b = sgn a * sgn b * (\<bar>a\<bar> div \<bar>b\<bar>)"

definition count_us :: "duration \<Rightarrow> int" where "count_us d = trunc_div d 1000"
definition count_ms :: "duration \<Rightarrow> int" where "count_ms d = trunc_div d 1000000"

lemma trunc_div_pos: "0 \<le> a \<Longrightarrow> 0 < b \<Longrightarrow> trunc_div a b = a div b"
  by (cases "a = 0") (auto simp: trunc_div_def)

lemma count_us_nonneg: "0 \<le> d \<Longrightarrow> 0 \<le> count_us d"
  by (simp add: count_us_def trunc_div_pos)

lemma count_us_mono: "0 \<le> d \<Longrightarrow> d \<le> e \<Longrightarrow> count_us d \<le> count_us e"
  by (simp add: count_us_def trunc_div_pos zdiv_mono1)

section \<open>Ordered maps\<close>

type_synonym ('k, 'v) omap = "('k \<times> 'v) list"

fun om_set :: "'k::linorder \<Rightarrow> 'v \<Rightarrow> ('k, 'v) omap \<Rightarrow> ('k, 'v) omap" where
  "om_set k v [] = [(k, v)]"
| "om_set k v ((k', v') # m) =
     (if k < k' then (k, v) # (k', v') # m
      else if k = k' then (k, v) # m
      else (k', v') # om_set k v m)"

definition om_erase :: "'k \<Rightarrow> ('k, 'v) omap \<Rightarrow> ('k, 'v) omap" where
  "om_erase k m = filter (\<lambda>(k', v). k' \<noteq> k) m"

definition om_emplace :: "'k::linorder \<Rightarrow> 'v \<Rightarrow> ('k, 'v) omap \<Rightarrow> ('k, 'v) omap" where
  "om_emplace k v m = (case map_of m k of None \<Rightarrow> om_set k v m | Some _ \<Rightarrow> m)"

definition om_wf :: "('k::linorder, 'v) omap \<Rightarrow> bool" where
  "om_wf m \<longleftrightarrow> sorted_wrt (<) (map fst m)"

lemma om_wf_simps [simp, om_simps]:
  "om_wf []"
  "om_wf ((k, v) # m) \<longleftrightarrow> (\<forall>k' \<in> fst ` set m. k < k') \<and> om_wf m"
  by (auto simp: om_wf_def)

lemma om_wf_distinct: "om_wf m \<Longrightarrow> distinct (map fst m)"
  unfolding om_wf_def using strict_sorted_iff by blast

lemma om_keys_set [simp, om_simps]: "fst ` set (om_set k v m) = insert k (fst ` set m)"
  by (induction k v m rule: om_set.induct) auto

lemma om_wf_set [simp, intro, om_simps]: "om_wf m \<Longrightarrow> om_wf (om_set k v m)"
  by (induction k v m rule: om_set.induct) auto

lemma om_set_map_of [om_simps]: "om_wf m \<Longrightarrow> map_of (om_set k v m) = (map_of m)(k \<mapsto> v)"
proof (induction k v m rule: om_set.induct)
  case (2 k v k' v' m)
  then show ?case by (auto simp: fun_eq_iff)
qed simp

lemma om_map_of_inj:
  assumes "om_wf m" "om_wf m'" "map_of m = map_of m'"
  shows "m = m'"
proof -
  have d: "distinct (map fst m)" "distinct (map fst m')" using assms(1,2) om_wf_distinct by auto
  then have "set m = set m'"
    using assms(3) by (intro set_eqI) (metis map_of_eq_Some_iff surj_pair)
  moreover have "sorted (map fst m)" "sorted (map fst m')" using assms(1,2) by (auto simp: om_wf_def strict_sorted_iff)
  moreover have "inj_on fst (set m \<union> set m')" using d(1) \<open>set m = set m'\<close> by (simp add: distinct_map)
  ultimately show ?thesis using d by (intro map_sorted_distinct_set_unique [of fst m m'])
qed

lemma om_wf_filter [simp, intro, om_simps]: "om_wf m \<Longrightarrow> om_wf (filter P m)"
  unfolding om_wf_def by (simp add: sorted_wrt_map sorted_wrt_filter)

lemma om_wf_erase [simp, intro, om_simps]: "om_wf m \<Longrightarrow> om_wf (om_erase k m)"
  by (simp add: om_erase_def)

lemma om_erase_map_of [om_simps]: "map_of (om_erase k m) = (map_of m)(k := None)"
  by (induction m) (auto simp: om_erase_def fun_eq_iff)

lemma om_wf_emplace [simp, intro, om_simps]: "om_wf m \<Longrightarrow> om_wf (om_emplace k v m)"
  by (simp add: om_emplace_def split: option.split)

lemma om_emplace_map_of [om_simps]:
  "om_wf m \<Longrightarrow>
   map_of (om_emplace k v m) = (case map_of m k of None \<Rightarrow> (map_of m)(k \<mapsto> v) | Some _ \<Rightarrow> map_of m)"
  by (simp add: om_emplace_def om_set_map_of split: option.split)

lemma om_wf_tl [intro]: "om_wf m \<Longrightarrow> om_wf (tl m)"
  by (cases m) auto

lemma om_filter_map_of:
  "om_wf m \<Longrightarrow>
   map_of (filter P m) k = (case map_of m k of None \<Rightarrow> None | Some v \<Rightarrow> if P (k, v) then Some v else None)"
proof (induction m)
  case (Cons a m)
  obtain k' v' where a: "a = (k', v')" by force
  show ?case
  proof (cases "k = k'")
    case True
    with Cons.prems a have "k \<notin> fst ` set m" by auto
    then have "map_of m k = None" by (simp add: map_of_eq_None_iff)
    with Cons.IH Cons.prems a True show ?thesis by auto
  next
    case False
    with Cons.IH Cons.prems a show ?thesis by auto
  qed
qed simp

text \<open>What a component relies on when it keeps its state in a \<open>std::map\<close>.\<close>

locale ordered_map =
  fixes lookup :: "'m \<Rightarrow> 'k \<Rightarrow> 'v option"
    and update :: "'k \<Rightarrow> 'v \<Rightarrow> 'm \<Rightarrow> 'm"
    and erase :: "'k \<Rightarrow> 'm \<Rightarrow> 'm"
    and invar :: "'m \<Rightarrow> bool"
  assumes lookup_update: "invar m \<Longrightarrow> lookup (update k v m) = (lookup m)(k \<mapsto> v)"
    and lookup_erase: "invar m \<Longrightarrow> lookup (erase k m) = (lookup m)(k := None)"
    and invar_update: "invar m \<Longrightarrow> invar (update k v m)"
    and invar_erase: "invar m \<Longrightarrow> invar (erase k m)"
begin

lemma lookup_update_same: "invar m \<Longrightarrow> lookup (update k v m) k = Some v"
  by (simp add: lookup_update)

lemma lookup_update_other: "invar m \<Longrightarrow> k' \<noteq> k \<Longrightarrow> lookup (update k v m) k' = lookup m k'"
  by (simp add: lookup_update)

lemma lookup_erase_update:
  "invar m \<Longrightarrow> lookup (erase k (update k v m)) = (lookup m)(k := None)"
  by (simp add: lookup_erase lookup_update invar_update)

end

interpretation om: ordered_map map_of om_set om_erase om_wf
  by unfold_locales (auto simp: om_simps)

section \<open>Lists\<close>

lemma take_drop_slice: "take n xs @ take m (drop n xs) = take (n + m) xs"
  by (simp add: take_add)

lemma xor_left_cancel [simp]: "a XOR b = a XOR c \<longleftrightarrow> b = (c :: 'a::len word)"
  by (metis xor.assoc xor.left_neutral xor_self_eq)

lemma xor_right_cancel [simp]: "b XOR a = c XOR a \<longleftrightarrow> b = (c :: 'a::len word)"
  by (metis xor.commute xor_left_cancel)

lemma foldr_xor_zero: "fold (XOR) (replicate n (0 :: 'a::len word)) x = x"
  by (induction n arbitrary: x) auto

lemma map2_xor_self: "map2 (XOR) xs (xs :: 'a::len word list) = replicate (length xs) 0"
  by (induction xs) auto

lemma list_all_nth_conv: "list_all P xs \<longleftrightarrow> (\<forall>i < length xs. P (xs ! i))"
  by (simp add: list_all_length)

end
