(* ===== verification/Wire.thy ===== *)
theory Wire
  imports Prelude
begin

text \<open>
  The tight wire format: \<open>tight/src/wire_format.hpp\<close>, \<open>tight/src/crc32.cpp\<close>,
  \<open>tight/src/packet_codec.cpp\<close> and the packet types of \<open>tight/include/tight/types.hpp\<close>.
  A datagram is a 48-byte header followed by the payload; bytes 44 to 47 hold a CRC-32 of
  the datagram computed with those four bytes zero.
  The lemmas show that the table-driven CRC is the bitwise one, that it detects every
  change confined to one byte, and that decoding inverts encoding.
\<close>

section \<open>Byte order (wire_format.hpp)\<close>

definition kMagic :: u32 where "kMagic = 0x54474854"
definition kVersion :: u8 where "kVersion = 1"
definition kHeaderSize :: nat where "kHeaderSize = 48"
definition kFlagEncrypted :: u16 where "kFlagEncrypted = 0x8000"

definition to_be16 :: "u16 \<Rightarrow> u16" where
  "to_be16 v = push_bit 8 (v AND 0x00FF) OR drop_bit 8 (v AND 0xFF00)"

definition to_be32 :: "u32 \<Rightarrow> u32" where
  "to_be32 v = push_bit 24 (v AND 0x000000FF) OR push_bit 8 (v AND 0x0000FF00)
     OR drop_bit 8 (v AND 0x00FF0000) OR drop_bit 24 (v AND 0xFF000000)"

definition to_be64 :: "u64 \<Rightarrow> u64" where
  "to_be64 v = push_bit 32 (ucast (to_be32 (ucast (drop_bit 32 v AND 0xFFFFFFFF))))
     OR ucast (to_be32 (ucast (v AND 0xFFFFFFFF)))"

section \<open>CRC-32 (crc32.cpp)\<close>

text \<open>The inner loop body of \<open>init_crc_table\<close>, its table, and the table-driven update.\<close>

definition crc_bit :: "u32 \<Rightarrow> u32" where
  "crc_bit c = (if c AND 1 \<noteq> 0 then 0xEDB88320 XOR drop_bit 1 c else drop_bit 1 c)"

definition init_crc_table :: "u32 list" where
  "init_crc_table = map (\<lambda>i. (crc_bit ^^ 8) (of_nat i)) [0..<256]"

definition crc32_byte :: "u32 \<Rightarrow> u8 \<Rightarrow> u32" where
  "crc32_byte crc b = init_crc_table ! unat ((crc XOR ucast b) AND 0xFF) XOR drop_bit 8 crc"

fun crc32_update :: "u32 \<Rightarrow> bytes \<Rightarrow> u32" where
  "crc32_update crc [] = crc"
| "crc32_update crc (b # bs) = crc32_update (crc32_byte crc b) bs"

definition crc32_compute :: "bytes \<Rightarrow> u32" where
  "crc32_compute d = crc32_update 0xFFFFFFFF d XOR 0xFFFFFFFF"

section \<open>Packets (types.hpp)\<close>

text \<open>
  \<open>PacketType\<close> is an enumeration over \<open>uint8_t\<close>, so a byte that names no constant is
  also a value of it: \<open>PT_unnamed\<close>.
\<close>

datatype packet_type =
    PT_Handshake | PT_HandshakeAck | PT_Online | PT_Heartbeat | PT_Bye | PT_Data
  | PT_Parity | PT_Ack | PT_Report | PT_Probe | PT_Command | PT_unnamed u8

definition ptype_byte :: "packet_type \<Rightarrow> u8" where
  "ptype_byte t = (case t of PT_Handshake \<Rightarrow> 0 | PT_HandshakeAck \<Rightarrow> 1 | PT_Online \<Rightarrow> 2
     | PT_Heartbeat \<Rightarrow> 3 | PT_Bye \<Rightarrow> 4 | PT_Data \<Rightarrow> 5 | PT_Parity \<Rightarrow> 6 | PT_Ack \<Rightarrow> 7
     | PT_Report \<Rightarrow> 8 | PT_Probe \<Rightarrow> 9 | PT_Command \<Rightarrow> 10 | PT_unnamed b \<Rightarrow> b)"

definition ptype_of_byte :: "u8 \<Rightarrow> packet_type" where
  "ptype_of_byte b = (if b = 0 then PT_Handshake else if b = 1 then PT_HandshakeAck
     else if b = 2 then PT_Online else if b = 3 then PT_Heartbeat else if b = 4 then PT_Bye
     else if b = 5 then PT_Data else if b = 6 then PT_Parity else if b = 7 then PT_Ack
     else if b = 8 then PT_Report else if b = 9 then PT_Probe else if b = 10 then PT_Command
     else PT_unnamed b)"

definition ptype_wf :: "packet_type \<Rightarrow> bool" where
  "ptype_wf t = (case t of PT_unnamed b \<Rightarrow> 10 < b | _ \<Rightarrow> True)"

record packet_header =
  magic :: u32
  version :: u8
  ptype :: packet_type
  flags :: u16
  client_id :: u32
  session_id :: u64
  sequence :: u32
  acknowledgment :: u32
  message_id :: u32
  fragment_index :: u16
  fragment_count :: u16
  payload_size :: u16
  reserved :: u16
  tick :: u32
  checksum :: u32

text \<open>\<open>PacketHeader header{}\<close>.\<close>

definition empty_header :: packet_header where
  "empty_header = \<lparr>magic = 0, version = 0, ptype = PT_Handshake, flags = 0, client_id = 0,
     session_id = 0, sequence = 0, acknowledgment = 0, message_id = 0, fragment_index = 0,
     fragment_count = 0, payload_size = 0, reserved = 0, tick = 0, checksum = 0\<rparr>"

section \<open>The codec (packet_codec.cpp)\<close>

definition put16 :: "nat \<Rightarrow> u16 \<Rightarrow> bytes \<Rightarrow> bytes" where
  "put16 off v p = write_at p off (mem16 (to_be16 v))"

definition put32 :: "nat \<Rightarrow> u32 \<Rightarrow> bytes \<Rightarrow> bytes" where
  "put32 off v p = write_at p off (mem32 (to_be32 v))"

definition put64 :: "nat \<Rightarrow> u64 \<Rightarrow> bytes \<Rightarrow> bytes" where
  "put64 off v p = write_at p off (mem64 (to_be64 v))"

definition put8 :: "nat \<Rightarrow> u8 \<Rightarrow> bytes \<Rightarrow> bytes" where
  "put8 off v p = p[off := v]"

definition encode_header_to :: "packet_header \<Rightarrow> bytes \<Rightarrow> bytes" where
  "encode_header_to h out =
     (let p = put32 0 (magic h) out;
          p = put8 4 (version h) p;
          p = put8 5 (ptype_byte (ptype h)) p;
          p = put16 6 (flags h) p;
          p = put32 8 (client_id h) p;
          p = put64 12 (session_id h) p;
          p = put32 20 (sequence h) p;
          p = put32 24 (acknowledgment h) p;
          p = put32 28 (message_id h) p;
          p = put16 32 (fragment_index h) p;
          p = put16 34 (fragment_count h) p;
          p = put16 36 (payload_size h) p;
          p = put16 38 (reserved h) p;
          p = put32 40 (tick h) p
      in put32 44 0 p)"

definition finalize_crc :: "bytes \<Rightarrow> bytes" where
  "finalize_crc datagram =
     (if length datagram < kHeaderSize then datagram
      else let d = write_at datagram 44 (replicate 4 0);
               crc = crc32_update 0xFFFFFFFF d
           in write_at d 44 (mem32 (to_be32 (crc XOR 0xFFFFFFFF))))"

text \<open>\<open>encode_to\<close> writes into \<open>out\<close>, which the caller makes at least as long as the datagram;
  it returns the buffer and the datagram's length.\<close>

definition encode_to :: "packet_header \<Rightarrow> bytes \<Rightarrow> bytes \<Rightarrow> bytes \<times> nat" where
  "encode_to h payload out =
     (let p = encode_header_to h out;
          p = (if payload \<noteq> [] then write_at p kHeaderSize payload else p);
          total = kHeaderSize + length payload
      in (finalize_crc (take total p) @ drop total p, total))"

definition encode :: "packet_header \<Rightarrow> bytes \<Rightarrow> bytes" where
  "encode h payload = fst (encode_to h payload (replicate (kHeaderSize + length payload) 0))"

definition get16 :: "bytes \<Rightarrow> nat \<Rightarrow> u16" where
  "get16 p off = to_be16 (load16 (take 2 (drop off p)))"

definition get32 :: "bytes \<Rightarrow> nat \<Rightarrow> u32" where
  "get32 p off = to_be32 (load32 (take 4 (drop off p)))"

definition get64 :: "bytes \<Rightarrow> nat \<Rightarrow> u64" where
  "get64 p off = (let lo = get32 p off; hi = get32 p (off + 4)
     in push_bit 32 (ucast hi) OR ucast lo)"

text \<open>\<open>decode\<close>: \<open>None\<close> is the return value false; the outputs are used only on true.\<close>

definition decode :: "bytes \<Rightarrow> (packet_header \<times> bytes) option" where
  "decode p =
     (if length p < kHeaderSize then None
      else if get32 p 0 \<noteq> kMagic then None
      else if p ! 4 \<noteq> kVersion then None
      else
        let h = \<lparr>magic = get32 p 0, version = p ! 4, ptype = ptype_of_byte (p ! 5),
                 flags = get16 p 6, client_id = get32 p 8, session_id = get64 p 12,
                 sequence = get32 p 20, acknowledgment = get32 p 24, message_id = get32 p 28,
                 fragment_index = get16 p 32, fragment_count = get16 p 34,
                 payload_size = get16 p 36, reserved = get16 p 38, tick = get32 p 40,
                 checksum = get32 p 44\<rparr>;
            n = unat (payload_size h)
        in if length p < kHeaderSize + n then None
           else
             let crc = crc32_update 0xFFFFFFFF (take 44 p);
                 crc = crc32_update crc [0, 0, 0, 0];
                 crc = crc32_update crc (take n (drop kHeaderSize p))
             in if crc XOR 0xFFFFFFFF \<noteq> checksum h then None
                else Some (h, take n (drop kHeaderSize p)))"

section \<open>Byte order lemmas\<close>

lemma be_masks:
  "(0x00FF :: u16) = mask 8" "(0xFF00 :: u16) = push_bit 8 (mask 8)"
  "(0x000000FF :: u32) = mask 8" "(0x0000FF00 :: u32) = push_bit 8 (mask 8)"
  "(0x00FF0000 :: u32) = push_bit 16 (mask 8)" "(0xFF000000 :: u32) = push_bit 24 (mask 8)"
  by code_simp+

lemma bit_to_be16: "n < 16 \<Longrightarrow> bit (to_be16 v) n = bit v (if n < 8 then 8 + n else n - 8)"
  unfolding to_be16_def be_masks by (auto simp: bit_simps)

lemma bit_to_be32:
  assumes "n < 32"
  shows "bit (to_be32 v) n =
    bit v (if n < 8 then 24 + n else if n < 16 then 8 + n else if n < 24 then n - 8 else n - 24)"
proof -
  from assms consider "n < 8" | "8 \<le> n" "n < 16" | "16 \<le> n" "n < 24" | "24 \<le> n" "n < 32"
    by fastforce
  then show ?thesis
    unfolding to_be32_def be_masks by cases (auto simp: bit_simps)
qed

lemma to_be16_idem [simp]: "to_be16 (to_be16 v) = v"
  by (rule bit_word_eqI) (auto simp: bit_to_be16)

lemma to_be32_idem [simp]: "to_be32 (to_be32 v) = v"
proof (rule bit_word_eqI)
  fix n
  assume "n < LENGTH(32)"
  then consider "n < 8" | "8 \<le> n" "n < 16" | "16 \<le> n" "n < 24" | "24 \<le> n" "n < 32"
    by fastforce
  then show "bit (to_be32 (to_be32 v)) n = bit v n"
    by cases (auto simp: bit_to_be32)
qed

lemma to_be64_halves:
  "(ucast (to_be64 v) :: u32) = to_be32 (ucast v)"
  "(ucast (drop_bit 32 (to_be64 v)) :: u32) = to_be32 (ucast (drop_bit 32 v))"
proof -
  have m: "(0xFFFFFFFF :: u64) = mask 32" by code_simp
  have u: "(ucast (v AND 0xFFFFFFFF) :: u32) = ucast v" 
    "(ucast (drop_bit 32 v AND 0xFFFFFFFF) :: u32) = ucast (drop_bit 32 v)"
    unfolding m by (auto intro!: bit_word_eqI simp: bit_simps)
  show "(ucast (to_be64 v) :: u32) = to_be32 (ucast v)"
    unfolding to_be64_def u by (rule bit_word_eqI) (auto simp: bit_simps)
  show "(ucast (drop_bit 32 (to_be64 v)) :: u32) = to_be32 (ucast (drop_bit 32 v))"
    unfolding to_be64_def u by (rule bit_word_eqI) (auto simp: bit_simps dest: bit_imp_le_length)
qed

lemma u64_of_halves: "push_bit 32 (ucast (ucast (drop_bit 32 v) :: u32)) OR ucast (ucast v :: u32) = (v :: u64)"
  by (rule bit_word_eqI) (auto simp: bit_simps)

text \<open>\<open>to_be64\<close> swaps the bytes of each half but not the halves, so the eight bytes on the
  wire are the low half and then the high half, each big-endian: \<open>get64\<close> reads them so.\<close>

lemma put64_bytes: "mem64 (to_be64 v) = mem32 (to_be32 (ucast v)) @ mem32 (to_be32 (ucast (drop_bit 32 v)))"
  by (simp add: mem64_split to_be64_halves)

section \<open>The header as a concatenation\<close>

definition header_bytes :: "packet_header \<Rightarrow> bytes" where
  "header_bytes h = mem32 (to_be32 (magic h)) @ [version h, ptype_byte (ptype h)]
     @ mem16 (to_be16 (flags h)) @ mem32 (to_be32 (client_id h)) @ mem64 (to_be64 (session_id h))
     @ mem32 (to_be32 (sequence h)) @ mem32 (to_be32 (acknowledgment h))
     @ mem32 (to_be32 (message_id h)) @ mem16 (to_be16 (fragment_index h))
     @ mem16 (to_be16 (fragment_count h)) @ mem16 (to_be16 (payload_size h))
     @ mem16 (to_be16 (reserved h)) @ mem32 (to_be32 (tick h))"

lemma length_header_bytes [simp]: "length (header_bytes h) = 44"
  by (simp add: header_bytes_def)

text \<open>One buffer write extends the prefix written so far.\<close>

lemma write_prefix:
  "length pre = off \<Longrightarrow> off + length src \<le> length pre + length buf \<Longrightarrow>
   write_at (pre @ buf) off src = (pre @ src) @ drop (length src) buf"
  by (simp add: write_at_def)

lemma put8_prefix:
  "length pre = off \<Longrightarrow> 0 < length buf \<Longrightarrow> put8 off v (pre @ buf) = (pre @ [v]) @ drop 1 buf"
  by (cases buf) (auto simp: put8_def list_update_append)

lemma encode_header_bytes:
  assumes "kHeaderSize \<le> length out"
  shows "encode_header_to h out = header_bytes h @ replicate 4 0 @ drop kHeaderSize out"
proof -
  have z: "mem32 (to_be32 0) = replicate 4 0" by code_simp
  note puts = put32_def put16_def put64_def write_prefix put8_prefix
  from assms have len: "48 \<le> length out" by (simp add: kHeaderSize_def)
  have "put32 0 (magic h) out = mem32 (to_be32 (magic h)) @ drop 4 out"
    using write_prefix [of "[]" 0 "mem32 (to_be32 (magic h))" out] len by (simp add: put32_def)
  then show ?thesis
    unfolding encode_header_to_def Let_def header_bytes_def
    using len by (simp add: puts z kHeaderSize_def del: append_assoc)
qed

section \<open>The CRC\<close>

text \<open>The reference: eight shift steps per byte, no table.\<close>

fun crc32_bitwise :: "u32 \<Rightarrow> bytes \<Rightarrow> u32" where
  "crc32_bitwise crc [] = crc"
| "crc32_bitwise crc (b # bs) = crc32_bitwise ((crc_bit ^^ 8) (crc XOR ucast b)) bs"

lemma crc_bit_if: "crc_bit c = (if bit c 0 then 0xEDB88320 XOR drop_bit 1 c else drop_bit 1 c)"
  by (simp add: crc_bit_def and_one_eq bit_0 odd_iff_mod_2_eq_one)

lemma drop_bit_xor_word: "drop_bit n (a XOR b) = drop_bit n a XOR drop_bit n (b :: 'a::len word)"
  by (rule bit_word_eqI) (auto simp: bit_simps)

lemma crc_bit_xor: "crc_bit (a XOR b) = crc_bit a XOR crc_bit b"
  by (auto simp: crc_bit_if bit_simps drop_bit_xor_word xor.assoc xor.left_commute)

lemma crc_bits_xor: "(crc_bit ^^ n) (a XOR b) = (crc_bit ^^ n) a XOR (crc_bit ^^ n) b"
  by (induction n) (auto simp: crc_bit_xor)

lemma crc_bits_shift:
  "(\<forall>i < n. \<not> bit c i) \<Longrightarrow> (crc_bit ^^ n) c = drop_bit n c"
proof (induction n)
  case (Suc n)
  then have "(crc_bit ^^ n) c = drop_bit n c" by simp
  moreover have "\<not> bit (drop_bit n c) 0" using Suc.prems by (simp add: bit_simps)
  ultimately show ?case by (simp add: crc_bit_if [of "drop_bit n c"] drop_bit_drop_bit)
qed simp

lemma crc_table_entry: "i < 256 \<Longrightarrow> init_crc_table ! i = (crc_bit ^^ 8) (of_nat i)"
  by (simp add: init_crc_table_def)

lemma crc32_byte_bitwise: "crc32_byte crc b = (crc_bit ^^ 8) (crc XOR ucast b)"
proof -
  let ?x = "crc XOR ucast b"
  have m: "(0xFF :: u32) = mask 8" by code_simp
  define lo hi where "lo = ?x AND mask 8" and "hi = ?x AND NOT (mask 8)"
  have split: "?x = lo XOR hi"
    unfolding lo_def hi_def by (rule bit_word_eqI) (auto simp: bit_simps)
  have "unat lo < 256"
    using and_mask_less' [of 8 ?x] unfolding lo_def by (simp add: word_less_nat_alt)
  then have tab: "init_crc_table ! unat lo = (crc_bit ^^ 8) lo"
    by (simp add: crc_table_entry)
  have "(crc_bit ^^ 8) hi = drop_bit 8 hi"
    by (rule crc_bits_shift) (auto simp: hi_def bit_simps)
  also have "\<dots> = drop_bit 8 crc"
    unfolding hi_def by (rule bit_word_eqI) (auto simp: bit_simps dest: bit_imp_le_length)
  finally have hi: "(crc_bit ^^ 8) hi = drop_bit 8 crc" .
  have "crc32_byte crc b = init_crc_table ! unat lo XOR drop_bit 8 crc"
    by (simp add: crc32_byte_def m lo_def)
  also have "\<dots> = (crc_bit ^^ 8) (lo XOR hi)"
    by (simp only: tab hi crc_bits_xor)
  finally show ?thesis by (simp only: split)
qed

text \<open>The table-driven CRC of the code is the bitwise CRC-32.\<close>

theorem crc32_update_eq_bitwise: "crc32_update crc bs = crc32_bitwise crc bs"
  by (induction bs arbitrary: crc) (simp_all add: crc32_byte_bitwise)

lemma crc32_update_append: "crc32_update c (xs @ ys) = crc32_update (crc32_update c xs) ys"
  by (induction xs arbitrary: c) simp_all

lemma crc_bit_inj: "crc_bit a = crc_bit b \<Longrightarrow> a = b"
proof -
  assume eq: "crc_bit a = crc_bit b"
  have top: "bit (crc_bit c) 31 = bit c 0" for c
    by (auto simp: crc_bit_if bit_simps dest: bit_imp_le_length)
  with eq have b0: "bit a 0 = bit b 0" by metis
  have "drop_bit 1 a = drop_bit 1 b"
    using eq b0 unfolding crc_bit_if
    by (auto split: if_splits)
  then have "bit a (Suc n) = bit b (Suc n)" for n
    by (metis add.commute bit_drop_bit_eq comp_apply plus_1_eq_Suc)
  with b0 show "a = b"
    by (intro bit_word_eqI) (metis not0_implies_Suc)
qed

lemma crc_bits_inj: "(crc_bit ^^ n) a = (crc_bit ^^ n) b \<Longrightarrow> a = b"
  by (induction n) (auto dest: crc_bit_inj)

lemma crc32_byte_inj_state: "crc32_byte c b = crc32_byte c' b \<Longrightarrow> c = c'"
  unfolding crc32_byte_bitwise by (drule crc_bits_inj) simp

lemma crc32_byte_inj_data: "crc32_byte c b = crc32_byte c b' \<Longrightarrow> b = b'"
proof -
  assume "crc32_byte c b = crc32_byte c b'"
  then have "c XOR ucast b = c XOR ucast b'"
    unfolding crc32_byte_bitwise by (rule crc_bits_inj)
  then have "(ucast b :: u32) = ucast b'" by (simp only: xor_left_cancel)
  then show ?thesis by (rule ucast_u8_inj)
qed

text \<open>What the codec relies on of its checksum, and the detection of one-byte changes.\<close>

locale byte_checksum =
  fixes upd :: "'s \<Rightarrow> bytes \<Rightarrow> 's"
  assumes upd_append: "upd c (xs @ ys) = upd (upd c xs) ys"
    and upd_inj_state: "upd c xs = upd c' xs \<Longrightarrow> c = c'"
    and upd_inj_byte: "upd c [b] = upd c [b'] \<Longrightarrow> b = b'"
begin

lemma detects_one_byte:
  assumes "i < length xs" and "b \<noteq> xs ! i"
  shows "upd c (xs[i := b]) \<noteq> upd c xs"
proof
  assume eq: "upd c (xs[i := b]) = upd c xs"
  have xs: "xs = take i xs @ [xs ! i] @ drop (Suc i) xs"
    using assms(1) by (simp add: id_take_nth_drop)
  have xs': "xs[i := b] = take i xs @ [b] @ drop (Suc i) xs"
    using assms(1) by (simp add: upd_conv_take_nth_drop)
  have "upd (upd c (take i xs)) [b] = upd (upd c (take i xs)) [xs ! i]"
    using eq by (subst (asm) xs', subst (asm) (2) xs)
      (simp only: upd_append, erule upd_inj_state)
  then show False using assms(2) by (auto dest: upd_inj_byte)
qed

end

lemma crc32_update_inj_state: "crc32_update c xs = crc32_update c' xs \<Longrightarrow> c = c'"
  by (induction xs arbitrary: c c') (auto dest: crc32_byte_inj_state)

interpretation crc: byte_checksum crc32_update
proof
  show "crc32_update c (xs @ ys) = crc32_update (crc32_update c xs) ys" for c xs ys
    by (rule crc32_update_append)
  show "c = c'" if "crc32_update c xs = crc32_update c' xs" for c c' xs
    using that by (rule crc32_update_inj_state)
  show "b = b'" if "crc32_update c [b] = crc32_update c [b']" for c b b'
    using that by (simp add: crc32_byte_inj_data)
qed

section \<open>Encoding and decoding\<close>

lemma ptype_roundtrip [simp]: "ptype_wf t \<Longrightarrow> ptype_of_byte (ptype_byte t) = t"
  by (cases t) (auto simp: ptype_wf_def ptype_byte_def ptype_of_byte_def)

lemma ptype_byte_of_byte [simp]: "ptype_byte (ptype_of_byte b) = b"
  by (simp add: ptype_byte_def ptype_of_byte_def)

definition crc_of :: "packet_header \<Rightarrow> bytes \<Rightarrow> u32" where
  "crc_of h payload = crc32_compute (header_bytes h @ [0, 0, 0, 0] @ payload)"

lemma encode_bytes: "encode h payload = header_bytes h @ mem32 (to_be32 (crc_of h payload)) @ payload"
proof -
  let ?buf = "replicate (kHeaderSize + length payload) (0 :: u8)"
  let ?z = "header_bytes h @ replicate 4 0 @ payload"
  have h: "encode_header_to h ?buf = header_bytes h @ replicate 4 0 @ replicate (length payload) 0"
    by (subst encode_header_bytes) (simp_all add: kHeaderSize_def)
  have w: "(if payload \<noteq> [] then write_at (encode_header_to h ?buf) kHeaderSize payload
      else encode_header_to h ?buf) = ?z"
    unfolding h by (auto simp: kHeaderSize_def write_at_def)
  have f: "finalize_crc ?z = header_bytes h @ mem32 (to_be32 (crc_of h payload)) @ payload"
  proof -
    have "write_at ?z 44 (replicate 4 0) = ?z" by (simp add: write_at_append)
    moreover have "write_at ?z 44 (mem32 v) = header_bytes h @ mem32 v @ payload" for v
      by (simp add: write_at_append)
    ultimately show ?thesis
      by (simp add: finalize_crc_def kHeaderSize_def crc_of_def crc32_compute_def numeral_eq_Suc)
  qed
  show ?thesis
    unfolding encode_def encode_to_def Let_def w
    using f by (simp add: kHeaderSize_def)
qed

lemma length_encode [simp]: "length (encode h payload) = kHeaderSize + length payload"
  by (simp add: encode_bytes kHeaderSize_def)

text \<open>Reading a field back out of a concatenation.\<close>

lemma get32_at: "length pre = off \<Longrightarrow> get32 (pre @ mem32 (to_be32 v) @ post) off = v"
  by (simp add: get32_def)

lemma get16_at: "length pre = off \<Longrightarrow> get16 (pre @ mem16 (to_be16 v) @ post) off = v"
  by (simp add: get16_def)

lemma get64_at: "length pre = off \<Longrightarrow> get64 (pre @ mem64 (to_be64 v) @ post) off = v"
  by (simp add: get64_def get32_def put64_bytes u64_of_halves)

lemma decode_layout:
  assumes "length p = kHeaderSize + n"
    and "h' = \<lparr>magic = get32 p 0, version = p ! 4, ptype = ptype_of_byte (p ! 5),
           flags = get16 p 6, client_id = get32 p 8, session_id = get64 p 12,
           sequence = get32 p 20, acknowledgment = get32 p 24, message_id = get32 p 28,
           fragment_index = get16 p 32, fragment_count = get16 p 34,
           payload_size = get16 p 36, reserved = get16 p 38, tick = get32 p 40,
           checksum = get32 p 44\<rparr>"
  shows "decode p =
    (if magic h' \<noteq> kMagic \<or> version h' \<noteq> kVersion \<or> n < unat (payload_size h')
        \<or> crc32_compute (take 44 p @ [0, 0, 0, 0] @ take (unat (payload_size h')) (drop kHeaderSize p))
           \<noteq> checksum h'
     then None else Some (h', take (unat (payload_size h')) (drop kHeaderSize p)))"
  using assms(1) unfolding decode_def Let_def assms(2)
  by (auto simp: crc32_compute_def crc32_update_append)

lemma header_of_bytes:
  assumes "p = header_bytes h @ mem32 (to_be32 c) @ rest" and "ptype_wf (ptype h)"
  shows "\<lparr>magic = get32 p 0, version = p ! 4, ptype = ptype_of_byte (p ! 5),
           flags = get16 p 6, client_id = get32 p 8, session_id = get64 p 12,
           sequence = get32 p 20, acknowledgment = get32 p 24, message_id = get32 p 28,
           fragment_index = get16 p 32, fragment_count = get16 p 34,
           payload_size = get16 p 36, reserved = get16 p 38, tick = get32 p 40,
           checksum = get32 p 44\<rparr> = h\<lparr>checksum := c\<rparr>"
proof -
  note hb = assms(1) [unfolded header_bytes_def append_assoc]
  have "get32 p 0 = magic h" unfolding hb using get32_at [of "[]"] by simp
  moreover have "p ! 4 = version h" "p ! 5 = ptype_byte (ptype h)"
    unfolding hb by (simp_all add: nth_append)
  moreover have "get16 p 6 = flags h" "get16 p 32 = fragment_index h" "get16 p 34 = fragment_count h"
    "get16 p 36 = payload_size h" "get16 p 38 = reserved h"
    unfolding hb get16_def by simp_all
  moreover have "get32 p 8 = client_id h" "get32 p 20 = sequence h" "get32 p 24 = acknowledgment h"
    "get32 p 28 = message_id h" "get32 p 40 = tick h" "get32 p 44 = c"
    unfolding hb get32_def by simp_all
  moreover have "get64 p 12 = session_id h"
    unfolding hb get64_def get32_def put64_bytes by (simp add: u64_of_halves)
  ultimately show ?thesis using assms(2) by (cases h) simp
qed

lemma decode_encode_gen:
  assumes "magic h = kMagic" "version h = kVersion" "ptype_wf (ptype h)"
    "unat (payload_size h) = length payload"
  shows "decode (encode h payload) = Some (h\<lparr>checksum := crc_of h payload\<rparr>, payload)"
proof -
  note e = encode_bytes [of h payload]
  have l: "length (encode h payload) = kHeaderSize + length payload" by simp
  have t: "take 44 (encode h payload) = header_bytes h" "drop kHeaderSize (encode h payload) = payload"
    by (simp_all add: e kHeaderSize_def)
  show ?thesis
    unfolding decode_layout [OF l refl] header_of_bytes [OF e assms(3)]
    using assms by (simp add: t crc_of_def)
qed

lemma decode_SomeD:
  assumes "decode p = Some (h, q)"
  defines "n \<equiv> unat (get16 p 36)"
  shows "kHeaderSize + n \<le> length p" and "q = take n (drop kHeaderSize p)"
    and "crc32_compute (take 44 p @ [0, 0, 0, 0] @ q) = get32 p 44"
proof -
  have "kHeaderSize \<le> length p" using assms(1) by (auto simp: decode_def split: if_splits)
  then obtain m where l: "length p = kHeaderSize + m" using le_Suc_ex by blast
  show "kHeaderSize + n \<le> length p" "q = take n (drop kHeaderSize p)"
    "crc32_compute (take 44 p @ [0, 0, 0, 0] @ q) = get32 p 44"
    using assms(1) l unfolding decode_layout [OF l refl] n_def by (auto split: if_splits)
qed

lemma mem32_load32: "mem32 (load32 [a, b, c, d]) = [a, b, c, d]"
  by (auto simp: mem32_def load32_def bit_simps intro!: bit_word_eqI)

lemma crc32_compute_detects:
  "i < length xs \<Longrightarrow> b \<noteq> xs ! i \<Longrightarrow> crc32_compute (xs[i := b]) \<noteq> crc32_compute xs"
  unfolding crc32_compute_def by (simp add: crc.detects_one_byte)

lemma get32_changed:
  assumes "off + 4 \<le> length p" "off \<le> i" "i < off + 4" "b \<noteq> p ! i"
  shows "get32 (p[i := b]) off \<noteq> get32 p off"
proof
  have 4: "take 4 (drop off q) = [q ! off, q ! (off+1), q ! (off+2), q ! (off+3)]"
    if "length q = length p" for q :: bytes
    using that assms(1) by (intro nth_equalityI) (auto simp: less_Suc_eq numeral_eq_Suc)
  assume "get32 (p[i := b]) off = get32 p off"
  then have eq: "load32 (take 4 (drop off (p[i := b]))) = load32 (take 4 (drop off p))"
    unfolding get32_def by (metis to_be32_idem)
  have l: "mem32 (load32 (take 4 (drop off q))) = take 4 (drop off q)" if "length q = length p" for q
    unfolding 4 [OF that] by (auto simp: mem32_load32)
  have "take 4 (drop off (p[i := b])) = take 4 (drop off p)"
    using arg_cong [OF eq, of mem32] unfolding l [OF refl] l [of "p[i := b]", OF length_list_update] .
  then have "take 4 (drop off (p[i := b])) ! (i - off) = take 4 (drop off p) ! (i - off)" by simp
  then show False using assms by simp
qed

text \<open>C26. A header that carries the protocol's magic and version and the payload's size survives
  \<open>PacketCodec::encode\<close> followed by \<open>PacketCodec::decode\<close> with every field and the payload
  unchanged; the checksum field is the CRC-32 of the datagram.\<close>

theorem decode_encode:
  assumes "magic h = kMagic" "version h = kVersion" "ptype_wf (ptype h)"
    "unat (payload_size h) = length payload"
  shows "decode (encode h payload) =
    Some (h\<lparr>checksum := crc32_compute (header_bytes h @ [0, 0, 0, 0] @ payload)\<rparr>, payload)"
  using decode_encode_gen [OF assms] by (simp only: crc_of_def)

theorem decode_encode_witness:
  "let h = empty_header\<lparr>magic := kMagic, version := kVersion, ptype := PT_Data, session_id := 7,
             sequence := 65536, payload_size := 3\<rparr>
   in \<exists>c. decode (encode h [1, 2, 3]) = Some (h\<lparr>checksum := c\<rparr>, [1, 2, 3])"
  unfolding Let_def
  by (rule exI, rule decode_encode) (simp_all add: empty_header_def ptype_wf_def)

text \<open>A datagram that \<open>PacketCodec::decode\<close> accepts is refused after any change of any single
  byte of its header or payload other than the two bytes of the payload size field.\<close>

theorem decode_detects_corruption:
  assumes ok: "decode d = Some (h, p)" and i: "i < kHeaderSize + length p" "i \<noteq> 36" "i \<noteq> 37"
    and b: "b \<noteq> d ! i"
  shows "decode (d[i := b]) = None"
proof (rule ccontr)
  assume "decode (d[i := b]) \<noteq> None"
  then obtain h' p' where ok': "decode (d[i := b]) = Some (h', p')" by auto
  note D = decode_SomeD [OF ok] and D' = decode_SomeD [OF ok']
  have g: "get16 (d[i := b]) 36 = get16 d 36"
    using i unfolding get16_def load16_def by (cases "i < 36") (simp_all add: drop_update_swap)
  define n where "n = unat (get16 d 36)"
  have len: "48 + n \<le> length d" and p: "p = take n (drop 48 d)" and p': "p' = take n (drop 48 (d[i := b]))"
    using D D' by (simp_all add: n_def g kHeaderSize_def)
  have crc: "crc32_compute (take 44 d @ [0, 0, 0, 0] @ p) = get32 d 44"
    "crc32_compute (take 44 (d[i := b]) @ [0, 0, 0, 0] @ p') = get32 (d[i := b]) 44"
    using D D' by blast+
  have i48: "i < 48 + n" using i(1) len p by (simp add: kHeaderSize_def)
  consider "i < 44" | "44 \<le> i" "i < 48" | "48 \<le> i" by linarith
  then show False
  proof cases
    case 1
    then have "take 44 (d[i := b]) @ [0, 0, 0, 0] @ p' = (take 44 d @ [0, 0, 0, 0] @ p)[i := b]"
      using len by (simp add: p p' take_update_swap list_update_append)
    moreover have "get32 (d[i := b]) 44 = get32 d 44" using 1 by (simp add: get32_def)
    moreover have "(take 44 d @ [0, 0, 0, 0] @ p) ! i = d ! i" using 1 len by (simp add: nth_append)
    ultimately show False
      using crc crc32_compute_detects [of i "take 44 d @ [0, 0, 0, 0] @ p" b] 1 len b by simp
  next
    case 2
    have "get32 (d[i := b]) 44 \<noteq> get32 d 44"
      using 2 len b by (intro get32_changed) simp_all
    with crc 2 show False by (simp add: p p')
  next
    case 3
    have "p' = p[i - 48 := b]" using 3 by (simp add: p p' drop_update_swap take_update_swap)
    moreover have "((take 44 d @ [0, 0, 0, 0]) @ p)[i := b] = (take 44 d @ [0, 0, 0, 0]) @ p[i - 48 := b]"
      using 3 len unfolding list_update_append by simp
    ultimately have "take 44 (d[i := b]) @ [0, 0, 0, 0] @ p' = (take 44 d @ [0, 0, 0, 0] @ p)[i := b]"
      using 3 by simp
    moreover have "get32 (d[i := b]) 44 = get32 d 44" using 3 by (simp add: get32_def drop_update_swap)
    moreover have "(take 44 d @ [0, 0, 0, 0] @ p) ! i = d ! i"
      using 3 len i48 by (simp add: nth_append p)
    ultimately show False
      using crc crc32_compute_detects [of i "take 44 d @ [0, 0, 0, 0] @ p" b] 3 i48 len b by (simp add: p)
  qed
qed

theorem decode_detects_corruption_witness:
  "let h = empty_header\<lparr>magic := kMagic, version := kVersion, payload_size := 3\<rparr>
   in decode ((encode h [1, 2, 3])[49 := 9]) = None"
proof -
  let ?h = "empty_header\<lparr>magic := kMagic, version := kVersion, payload_size := 3\<rparr>"
  have ok: "decode (encode ?h [1, 2, 3]) = Some (?h\<lparr>checksum := crc_of ?h [1, 2, 3]\<rparr>, [1, 2, 3])"
    by (rule decode_encode_gen) (simp_all add: empty_header_def ptype_wf_def)
  have "encode ?h [1, 2, 3] ! 49 = 2"
    by (simp add: encode_bytes nth_append)
  then show ?thesis
    using decode_detects_corruption [OF ok, of 49 9] by (simp add: kHeaderSize_def)
qed

end
