(* ===== verification/Peer.thy ===== *)
theory Peer
  imports Wire Complex_Main
begin

text \<open>
  Per-peer state shared by the transport components: \<open>tight/src/peer.hpp\<close> and the link types
  of \<open>tight/include/tight/types.hpp\<close>.
  Time points are nanoseconds, \<open>std::map\<close> fields are ordered maps, \<open>std::set\<close> fields sorted
  lists without duplicates; doubles are idealised as real numbers. Every operation of the source
  that takes \<open>peer.m_mu\<close> is one function on this record, so that threads interleave whole
  operations. \<open>UB\<close> is the outcome of code whose behaviour C++ leaves undefined.
\<close>

datatype 'a outcome = UB | Done 'a

datatype link_role = LR_Leaf | LR_Node
datatype link_state = LS_Closed | LS_Handshake | LS_Established | LS_Online

datatype addr_key = AddrKey (ak_addr: u32) (ak_port: u16)

instantiation addr_key :: linorder
begin

definition less_addr_key :: "addr_key \<Rightarrow> addr_key \<Rightarrow> bool" where
  "less_addr_key a b = (if ak_addr a \<noteq> ak_addr b then ak_addr a < ak_addr b else ak_port a < ak_port b)"

definition less_eq_addr_key :: "addr_key \<Rightarrow> addr_key \<Rightarrow> bool" where
  "less_eq_addr_key a b \<longleftrightarrow> a = b \<or> a < b"

instance
proof
  fix a b c :: addr_key
  show "(a < b) = (a \<le> b \<and> \<not> b \<le> a)"
    by (auto simp: less_addr_key_def less_eq_addr_key_def split: if_splits)
  show "a \<le> a" by (simp add: less_eq_addr_key_def)
  show "a \<le> b \<Longrightarrow> b \<le> c \<Longrightarrow> a \<le> c"
    by (auto simp: less_addr_key_def less_eq_addr_key_def split: if_splits)
  show "a \<le> b \<Longrightarrow> b \<le> a \<Longrightarrow> a = b"
    by (auto simp: less_addr_key_def less_eq_addr_key_def split: if_splits)
  show "a \<le> b \<or> b \<le> a"
    by (cases a; cases b) (auto simp: less_addr_key_def less_eq_addr_key_def)
qed

end

record pending_send =
  m_header :: packet_header
  m_payload :: bytes
  m_last_send :: timepoint
  m_bytes :: nat
  m_retries :: nat

record incoming_message =
  m_message_id :: u32
  m_total_count :: u16
  m_data_count :: u16
  m_fragments :: "bytes option list"
  m_sizes :: "u16 list"
  m_first_seen :: timepoint

record peer =
  m_id :: string
  m_addr :: addr_key
  m_addr_set :: bool
  m_role :: link_role
  m_state :: link_state
  m_peer_client_id :: u32
  m_peer_session_id :: u64
  m_last_recv :: timepoint
  m_last_heartbeat_sent :: timepoint
  m_last_handshake_sent :: timepoint
  m_handshake_backoff :: duration
  m_last_report_sent :: timepoint
  m_sequence_out :: u32
  m_msg_id_out :: u32
  m_pending :: "(u32, pending_send) omap"
  m_incoming :: "(u32, incoming_message) omap"
  m_completed :: "(u32, timepoint) omap"
  m_missing_seqs :: "(u32, timepoint) omap"
  m_recv_seqs :: "u32 list"
  m_next_expected_seq :: u32
  m_seq_initialized :: bool
  m_sender_rtt_us :: u32
  m_reconnect :: bool
  m_clock_offset_us :: int
  m_clock_synced :: bool
  m_clock_pending :: bool
  m_hs_tick :: u32
  m_hs_arrival_ms :: u64
  m_transit_samples :: nat
  m_late_samples :: nat
  m_peer_late_ratio :: real
  m_probe_first :: timepoint
  m_probe_last :: timepoint
  m_probe_bytes :: nat
  m_probe_count :: nat
  m_probe_bw_bps :: nat
  m_cmd_seq_out :: u32
  m_cmd_next_expected :: u32
  m_cmd_initialized :: bool
  m_cmd_held :: "(u32, bytes) omap"
  m_cmd_gap_since :: timepoint
  m_crypto_ready :: bool
  m_crypto_key :: bytes
  m_drop_log :: bool
  m_retransmit :: bool
  m_peer_retransmit :: bool
  m_oversize_log_ts :: timepoint

text \<open>The member initialisers: a default-constructed \<open>IncomingMessage\<close>, \<open>PendingSend\<close> and \<open>Peer\<close>.\<close>

definition new_incoming :: incoming_message where
  "new_incoming = \<lparr>m_message_id = 0, m_total_count = 0, m_data_count = 0, m_fragments = [], m_sizes = [],
     m_first_seen = 0\<rparr>"

definition new_pending :: pending_send where
  "new_pending = \<lparr>m_header = empty_header, m_payload = [], m_last_send = 0, m_bytes = 0, m_retries = 0\<rparr>"

definition new_peer :: peer where
  "new_peer = \<lparr>m_id = [], m_addr = AddrKey 0 0, m_addr_set = False, m_role = LR_Leaf, m_state = LS_Closed,
     m_peer_client_id = 0, m_peer_session_id = 0, m_last_recv = 0, m_last_heartbeat_sent = 0,
     m_last_handshake_sent = 0, m_handshake_backoff = msec 500, m_last_report_sent = 0,
     m_sequence_out = 1, m_msg_id_out = 1, m_pending = [], m_incoming = [], m_completed = [],
     m_missing_seqs = [], m_recv_seqs = [], m_next_expected_seq = 0, m_seq_initialized = False,
     m_sender_rtt_us = 0, m_reconnect = False, m_clock_offset_us = 0, m_clock_synced = False,
     m_clock_pending = False, m_hs_tick = 0, m_hs_arrival_ms = 0, m_transit_samples = 0,
     m_late_samples = 0, m_peer_late_ratio = 0, m_probe_first = 0, m_probe_last = 0, m_probe_bytes = 0,
     m_probe_count = 0, m_probe_bw_bps = 0, m_cmd_seq_out = 1, m_cmd_next_expected = 0,
     m_cmd_initialized = False, m_cmd_held = [], m_cmd_gap_since = 0, m_crypto_ready = False,
     m_crypto_key = replicate 32 0, m_drop_log = True, m_retransmit = True, m_peer_retransmit = True,
     m_oversize_log_ts = 0\<rparr>"

definition kProbeTrainGap :: duration where "kProbeTrainGap = msec 20"

definition finalize_probe_train :: "timepoint \<Rightarrow> peer \<Rightarrow> peer" where
  "finalize_probe_train now p =
     (if m_probe_count p = 0 then p
      else if now - m_probe_last p \<le> kProbeTrainGap then p
      else
        let span_us = count_us (m_probe_last p - m_probe_first p);
            p = (if 2 \<le> m_probe_count p \<and> 0 < span_us
                 then p\<lparr>m_probe_bw_bps := nat \<lfloor>real (m_probe_bytes p) * 1000000 / real_of_int span_us\<rfloor>\<rparr>
                 else p)
        in p\<lparr>m_probe_count := 0, m_probe_bytes := 0\<rparr>)"

text \<open>\<open>static_cast<int32_t>\<close> of the 32-bit difference is \<open>sint\<close>; the result is -1 when unsynced.\<close>

definition transit_time_us :: "peer \<Rightarrow> u32 \<Rightarrow> u64 \<Rightarrow> int" where
  "transit_time_us p tk arrival_ms =
     (if \<not> m_clock_synced p \<or> tk = 0 then -1
      else
        let arrival_low = ucast arrival_ms :: u32;
            t = sint (arrival_low - tk) * 1000 + m_clock_offset_us p
        in if 0 \<le> t then t else 0)"

lemma transit_time_range: "transit_time_us p tk a = -1 \<or> 0 \<le> transit_time_us p tk a"
  by (simp add: transit_time_us_def Let_def)

section \<open>Sorted sets of sequence numbers\<close>

text \<open>The loop \<open>while (m_recv_seqs.count(next)) { erase(next); ++next; }\<close> that the reassembler and
  the report builder share.\<close>

function drain_recv :: "u32 list \<Rightarrow> u32 \<Rightarrow> u32 list \<times> u32" where
  "drain_recv recv next =
     (if next \<in> set recv then drain_recv (filter (\<lambda>s. s \<noteq> next) recv) (next + 1) else (recv, next))"
  by auto
termination
  by (relation "measure (\<lambda>(recv, next). length recv)") (auto intro!: length_filter_less)

declare drain_recv.simps [simp del]

definition drain_expected :: "peer \<Rightarrow> peer" where
  "drain_expected p =
     (let (recv, nxt) = drain_recv (m_recv_seqs p) (m_next_expected_seq p)
      in p\<lparr>m_recv_seqs := recv, m_next_expected_seq := nxt\<rparr>)"


end
