(* ===== verification/FEC.thy ===== *)
theory FEC
  imports Prelude
begin

text \<open>
  Forward error correction, \<open>tight/src/fec.cpp\<close>: arithmetic in GF(256) by logarithm tables,
  the Vandermonde encoder and the decoder by Gaussian elimination.
  The lemmas show that the tables implement multiplication of polynomials modulo
  x^8 + x^4 + x^3 + x^2 + 1, that the bytes with these operations are a field (an instance of
  the library's class \<open>field\<close>, so that sums and linear algebra are the library's), that each
  elimination step keeps the solutions of the linear system, and that the decoder restores up to
  three missing fragments.
\<close>

section \<open>Tables and field operations\<close>

text \<open>One iteration of the constructor \<open>GfTables::GfTables\<close>, on \<open>x\<close>, \<open>exp\<close> and \<open>log\<close>.\<close>

definition gf_step :: "nat \<Rightarrow> u16 \<times> bytes \<times> bytes \<Rightarrow> u16 \<times> bytes \<times> bytes" where
  "gf_step i s = (case s of (x, e, l) \<Rightarrow>
     let e' = e[i := ucast x];
         l' = l[unat x := of_nat i];
         x' = push_bit 1 x;
         x'' = (if x' AND 0x100 \<noteq> 0 then x' XOR 0x11D else x')
     in (x'', e', l'))"

definition gf_tables :: "bytes \<times> bytes" where
  "gf_tables =
     (let (x, e, l) = fold gf_step [0..<255] (1, replicate 512 0, replicate 256 0)
      in (fold (\<lambda>i e. e[i := e ! (i - 255)]) [255..<512] e, l))"

definition gf_exp :: bytes where "gf_exp = fst gf_tables"
definition gf_log :: bytes where "gf_log = snd gf_tables"

definition gf_mul :: "u8 \<Rightarrow> u8 \<Rightarrow> u8" where
  "gf_mul a b = (if a = 0 \<or> b = 0 then 0
     else gf_exp ! (unat (gf_log ! unat a) + unat (gf_log ! unat b)))"

definition gf_pow :: "u8 \<Rightarrow> nat \<Rightarrow> u8" where
  "gf_pow a e = (if e = 0 then 1 else if a = 0 then 0
     else gf_exp ! ((unat (gf_log ! unat a) * e) mod 255))"

definition gf_inv :: "u8 \<Rightarrow> u8" where
  "gf_inv a = gf_exp ! (255 - unat (gf_log ! unat a))"

definition coef :: "nat \<Rightarrow> nat \<Rightarrow> u8" where
  "coef parity_index data_index = gf_pow (of_nat (data_index + 1)) parity_index"

text \<open>\<open>gf_mul_add\<close>: \<open>dst ^= c * src\<close> on the first \<open>min(dst.size(), src_len, width)\<close> bytes.\<close>

definition gf_mul_add :: "bytes \<Rightarrow> bytes \<Rightarrow> u8 \<Rightarrow> nat \<Rightarrow> bytes" where
  "gf_mul_add dst src c width =
     (if c = 0 \<or> length src = 0 then dst
      else
        let n = min (length dst) (min (length src) width) in
        if c = 1 then map (\<lambda>i. if i < n then dst ! i XOR src ! i else dst ! i) [0..<length dst]
        else
          let lc = unat (gf_log ! unat c) in
          map (\<lambda>i. if i < n \<and> src ! i \<noteq> 0
                then dst ! i XOR gf_exp ! (lc + unat (gf_log ! unat (src ! i)))
                else dst ! i) [0..<length dst])"

section \<open>Encoding and decoding\<close>

text \<open>\<open>encode_into\<close> reuses the buffers \<open>out\<close> of the caller; only the first \<open>width\<close> bytes of
  each are the parity fragment.\<close>

definition parity_buf :: "bytes list \<Rightarrow> nat \<Rightarrow> bytes \<Rightarrow> nat \<Rightarrow> bytes" where
  "parity_buf fragments width old p =
     (let cleared = (if length old < width then replicate width 0
                     else replicate width 0 @ drop width old)
      in fold (\<lambda>j buf. gf_mul_add buf (fragments ! j) (coef p j) width) [0..<length fragments] cleared)"

definition encode_into :: "bytes list \<Rightarrow> nat \<Rightarrow> nat \<Rightarrow> bytes list \<Rightarrow> bytes list" where
  "encode_into fragments parity_count width out =
     (let out' = (if length out < parity_count then out @ replicate (parity_count - length out) [] else out)
      in map (\<lambda>p. if p < parity_count then parity_buf fragments width (out' ! p) p else out' ! p)
           [0..<length out'])"

definition rs_encode :: "bytes list \<Rightarrow> nat \<Rightarrow> nat \<Rightarrow> bytes list" where
  "rs_encode fragments parity_count width = encode_into fragments parity_count width []"

text \<open>The augmented system the decoder eliminates: the rows of \<open>a\<close> and of \<open>syn\<close>.\<close>

type_synonym linsys = "u8 list list \<times> bytes list"

function find_pivot :: "u8 list list \<Rightarrow> nat \<Rightarrow> nat \<Rightarrow> nat \<Rightarrow> nat" where
  "find_pivot a m col pivot =
     (if pivot < m \<and> a ! pivot ! col = 0 then find_pivot a m col (Suc pivot) else pivot)"
  by auto
termination by (relation "measure (\<lambda>(a, m, col, pivot). m - pivot)") auto

declare find_pivot.simps [simp del]

definition swap_rows :: "nat \<Rightarrow> nat \<Rightarrow> 'a list \<Rightarrow> 'a list" where
  "swap_rows i j xs = xs[i := xs ! j, j := xs ! i]"

definition scale_from :: "nat \<Rightarrow> u8 \<Rightarrow> u8 list \<Rightarrow> u8 list" where
  "scale_from col c row = map (\<lambda>j. if col \<le> j then gf_mul (row ! j) c else row ! j) [0..<length row]"

definition eliminate_from :: "nat \<Rightarrow> u8 \<Rightarrow> u8 list \<Rightarrow> u8 list \<Rightarrow> u8 list" where
  "eliminate_from col f prow row =
     map (\<lambda>j. if col \<le> j then row ! j XOR gf_mul f (prow ! j) else row ! j) [0..<length row]"

definition eliminate_row :: "nat \<Rightarrow> nat \<Rightarrow> nat \<Rightarrow> linsys \<Rightarrow> linsys" where
  "eliminate_row width col r s = (case s of (a, syn) \<Rightarrow>
     if r = col then s
     else let f = a ! r ! col in
       if f = 0 then s
       else (a[r := eliminate_from col f (a ! col) (a ! r)],
             syn[r := gf_mul_add (syn ! r) (syn ! col) f width]))"

definition gauss_col :: "nat \<Rightarrow> nat \<Rightarrow> nat \<Rightarrow> linsys \<Rightarrow> linsys option" where
  "gauss_col m width col s = (case s of (a, syn) \<Rightarrow>
     let pivot = find_pivot a m col col in
     if pivot = m then None
     else
       let (a, syn) = (if pivot \<noteq> col then (swap_rows pivot col a, swap_rows pivot col syn) else (a, syn));
           iv = gf_inv (a ! col ! col);
           a = a[col := scale_from col iv (a ! col)];
           syn = syn[col := map (\<lambda>b. gf_mul b iv) (syn ! col)]
       in Some (fold (eliminate_row width col) [0..<m] (a, syn)))"

fun gauss :: "nat \<Rightarrow> nat \<Rightarrow> nat list \<Rightarrow> linsys \<Rightarrow> linsys option" where
  "gauss m width [] s = Some s"
| "gauss m width (col # cols) s =
     (case gauss_col m width col s of None \<Rightarrow> None | Some s' \<Rightarrow> gauss m width cols s')"

definition missing_indices :: "'a option list \<Rightarrow> nat list" where
  "missing_indices data = filter (\<lambda>i. data ! i = None) [0..<length data]"

definition resize :: "bytes \<Rightarrow> nat \<Rightarrow> bytes" where
  "resize b n = take n (b @ replicate n 0)"

definition syndrome :: "bytes option list \<Rightarrow> nat \<Rightarrow> nat \<times> bytes \<Rightarrow> bytes" where
  "syndrome data width par =
     fold (\<lambda>j s. case data ! j of Some d \<Rightarrow> gf_mul_add s d (coef (fst par) j) width | None \<Rightarrow> s)
       [0..<length data] (resize (snd par) width)"

text \<open>The result is the return value and the vector \<open>data\<close> after the call.\<close>

definition rs_decode :: "bytes option list \<Rightarrow> (nat \<times> bytes) list \<Rightarrow> nat \<Rightarrow> bool \<times> bytes option list" where
  "rs_decode data parity width =
     (let missing = missing_indices data; m = length missing in
      if missing = [] then (True, data)
      else if length parity < m then (False, data)
      else
        let a = map (\<lambda>r. map (\<lambda>c. coef (fst (parity ! r)) (missing ! c)) [0..<m]) [0..<m];
            syn = map (\<lambda>r. syndrome data width (parity ! r)) [0..<m]
        in case gauss m width [0..<m] (a, syn) of
             None \<Rightarrow> (False, data)
           | Some (a', syn') \<Rightarrow> (True, fold (\<lambda>c d. d[missing ! c := Some (syn' ! c)]) [0..<m] data))"

section \<open>The tables\<close>

text \<open>Reference: multiplication by x modulo the primitive polynomial, and powers of x.\<close>

definition xtime :: "u8 \<Rightarrow> u8" where
  "xtime a = (if bit a 7 then push_bit 1 a XOR 0x1D else push_bit 1 a)"

primrec gpow :: "nat \<Rightarrow> u8" where
  "gpow 0 = 1"
| "gpow (Suc n) = xtime (gpow n)"

lemma gpow_numeral: "gpow (numeral v) = xtime (gpow (pred_numeral v))"
  by (simp add: numeral_eq_Suc)

lemma gpow_values: "gpow 255 = 1" "gpow 85 \<noteq> 1" "gpow 51 \<noteq> 1" "gpow 15 \<noteq> 1"
  by (simp_all add: gpow_numeral xtime_def)

lemma push_bit_xor_word: "push_bit n (a XOR b) = push_bit n a XOR push_bit n (b :: 'a::len word)"
  by (rule bit_word_eqI) (auto simp: bit_simps)

lemma xtime_xor: "xtime (a XOR b) = xtime a XOR xtime b"
  by (auto simp: xtime_def bit_simps push_bit_xor_word ac_simps)

lemma xtime_zero [simp]: "xtime 0 = 0"
  by (simp add: xtime_def)

lemma xtimes_xor: "(xtime ^^ n) (a XOR b) = (xtime ^^ n) a XOR (xtime ^^ n) b"
  by (induction n) (simp_all add: xtime_xor)

lemma xtimes_zero [simp]: "(xtime ^^ n) 0 = 0"
  by (induction n) simp_all

lemma gpow_add: "gpow (m + n) = (xtime ^^ m) (gpow n)"
  by (induction m) simp_all

lemma xtime_inj: "xtime a = xtime b \<Longrightarrow> a = b"
proof -
  assume eq: "xtime a = xtime b"
  have low: "bit (xtime c) 0 = bit c 7" for c
    by (simp add: xtime_def bit_0 even_xor_iff)
  have up: "push_bit 1 a = push_bit 1 b"
    using eq low [of a] low [of b] unfolding xtime_def by (auto split: if_splits)
  have "bit a n = bit b n" if "n < 8" for n
  proof (cases "n = 7")
    case True then show ?thesis using eq low by metis
  next
    case False
    with that have "bit (push_bit 1 c) (Suc n) = bit c n" for c :: u8
      unfolding bit_push_bit_iff by simp
    with up show ?thesis by metis
  qed
  then show "a = b" by (intro bit_word_eqI) simp
qed

lemma xtimes_inj: "(xtime ^^ n) a = (xtime ^^ n) b \<Longrightarrow> a = b"
  by (induction n) (auto dest: xtime_inj)

lemma gpow_nonzero: "gpow n \<noteq> 0"
proof (induction n)
  case (Suc n)
  then show ?case using xtime_inj [of "gpow n" 0] by auto
qed simp

lemma gpow_diff: "i \<le> j \<Longrightarrow> gpow i = gpow j \<Longrightarrow> gpow (j - i) = 1"
proof -
  assume "i \<le> j" and eq: "gpow i = gpow j"
  then have "(xtime ^^ i) (gpow (j - i)) = (xtime ^^ i) (gpow 0)"
    unfolding gpow_add [symmetric] by simp
  then show ?thesis by (auto dest: xtimes_inj)
qed

lemma gpow_period_add: "gpow (n + 255 * k) = gpow n"
proof (induction k)
  case (Suc k)
  have "gpow (n + 255 * Suc k) = gpow ((n + 255 * k) + 255)" by (simp add: ac_simps)
  also have "\<dots> = (xtime ^^ (n + 255 * k)) (gpow 0)"
    by (simp only: gpow_add [of "n + 255 * k" 255] gpow_values(1) gpow.simps(1))
  also have "\<dots> = gpow (n + 255 * k + 0)" by (rule gpow_add [symmetric])
  finally show ?case using Suc.IH by (simp only: add_0_right)
qed simp

lemma gpow_mod: "gpow (n mod 255) = gpow n"
  using gpow_period_add [of "n mod 255" "n div 255"] by simp

text \<open>The order of x is 255.\<close>

fun not_one_for :: "nat \<Rightarrow> u8 \<Rightarrow> bool" where
  "not_one_for 0 x = True"
| "not_one_for (Suc n) x = (x \<noteq> 1 \<and> not_one_for n (xtime x))"

lemma not_one_for_numeral:
  "not_one_for (numeral v) x = (x \<noteq> 1 \<and> not_one_for (pred_numeral v) (xtime x))"
  by (simp add: numeral_eq_Suc)

lemma not_one_forD: "not_one_for n (gpow i) \<Longrightarrow> j < n \<Longrightarrow> gpow (i + j) \<noteq> 1"
proof (induction n arbitrary: i j)
  case (Suc n)
  show ?case
  proof (cases j)
    case (Suc k)
    then show ?thesis using Suc.IH [of "Suc i" k] Suc.prems Suc by simp
  qed (use Suc.prems in simp)
qed simp

lemma gpow_order: "0 < d \<Longrightarrow> d < 255 \<Longrightarrow> gpow d \<noteq> 1"
proof -
  have "not_one_for 254 2" by (simp add: not_one_for_numeral xtime_def)
  then have "not_one_for 254 (gpow 1)" by (simp add: xtime_def)
  then show "0 < d \<Longrightarrow> d < 255 \<Longrightarrow> gpow d \<noteq> 1"
    using not_one_forD [of 254 1 "d - 1"] by simp
qed

lemma gpow_inj: "i < 255 \<Longrightarrow> j < 255 \<Longrightarrow> gpow i = gpow j \<Longrightarrow> i = j"
proof (induction i j rule: linorder_wlog)
  case (le i j)
  then show ?case using gpow_diff [of i j] gpow_order [of "j - i"] by (cases "i = j") auto
qed auto

lemma gpow_surj:
  assumes "a \<noteq> 0"
  shows "\<exists>i < 255. gpow i = a"
proof -
  have inj: "inj_on (\<lambda>i. gpow i) {..<255}" using gpow_inj by (auto intro: inj_onI)
  have "card (UNIV - {0 :: u8}) = 255" by (simp add: card_Diff_singleton card_word)
  moreover have "card (gpow ` {..<255}) = 255" using card_image [OF inj] by simp
  moreover have "gpow ` {..<255} \<subseteq> UNIV - {0}" using gpow_nonzero by auto
  ultimately have "gpow ` {..<255} = UNIV - {0}" by (intro card_subset_eq) simp_all
  with assms show ?thesis by (auto simp: set_eq_iff image_iff) (metis lessThan_iff)
qed

section \<open>Correctness of the tables\<close>

lemma xtime16:
  "(let x' = push_bit 1 (ucast a :: u16) in if x' AND 0x100 \<noteq> 0 then x' XOR 0x11D else x') = ucast (xtime a)"
proof -
  have d: "(0x11D :: u16) = push_bit 8 1 XOR ucast (0x1D :: u8)" by simp
  have "(x' AND 0x100 \<noteq> 0) = bit x' 8" for x' :: u16
    using and_exp_eq_0_iff_not_bit [of x' 8] by simp
  moreover have "bit (push_bit 1 (ucast a :: u16)) 8 = bit a 7"
    unfolding bit_push_bit_iff by (simp add: bit_ucast_iff)
  ultimately have t: "(push_bit 1 (ucast a :: u16) AND 0x100 \<noteq> 0) = bit a 7" by simp
  have sh: "bit (push_bit 1 (ucast a :: u16)) n = (if n = 8 then bit a 7 else bit (push_bit 1 a) n)"
    if "n < 16" for n
    using that unfolding bit_push_bit_iff by (cases "n < 8"; cases "n = 8") (auto simp: bit_ucast_iff)
  have n: "\<not> bit a 7 \<Longrightarrow> push_bit 1 (ucast a :: u16) = ucast (push_bit 1 a)"
    by (rule bit_word_eqI) (auto simp: sh bit_ucast_iff simp del: push_bit_Suc One_nat_def)
  have y: "bit a 7 \<Longrightarrow> push_bit 1 (ucast a :: u16) XOR push_bit 8 1 = ucast (push_bit 1 a)"
  proof (rule bit_word_eqI)
    fix n
    assume "n < LENGTH(16)" and "bit a 7"
    then have n: "n < 16" by simp
    have "bit (push_bit 8 (1 :: u16)) n = (n = 8)"
      using n unfolding bit_push_bit_iff bit_1_iff by auto
    then show "bit (push_bit 1 (ucast a :: u16) XOR push_bit 8 1) n = bit (ucast (push_bit 1 a) :: u16) n"
      using n \<open>bit a 7\<close> u8_no_high_bit [of 8 "push_bit 1 a"]
      by (simp only: bit_xor_iff bit_ucast_iff sh) auto
  qed
  have u: "(ucast (b XOR c) :: u16) = ucast b XOR ucast c" for b c :: u8
    by (rule bit_word_eqI) (auto simp: bit_simps)
  show ?thesis
    unfolding Let_def d t xtime_def
    using n y by (auto simp: u xor.assoc [symmetric] simp del: push_bit_of_1)
qed

lemma gf_step_gpow:
  "gf_step i (ucast (gpow i), e, l) = (ucast (gpow (Suc i)), e[i := gpow i], l[unat (gpow i) := of_nat i])"
  using xtime16 [of "gpow i"] by (simp add: gf_step_def Let_def)

lemma gf_fill:
  "n \<le> 255 \<Longrightarrow> fold gf_step [0..<n] (1, replicate 512 0, replicate 256 0) = (x, e, l) \<Longrightarrow>
   x = ucast (gpow n) \<and> length e = 512 \<and> length l = 256 \<and>
   (\<forall>i < n. e ! i = gpow i \<and> l ! unat (gpow i) = of_nat i)"
proof (induction n arbitrary: x e l)
  case (Suc n)
  obtain x0 e0 l0 where f: "fold gf_step [0..<n] (1, replicate 512 0, replicate 256 0) = (x0, e0, l0)"
    by (metis prod_cases3)
  with Suc.IH Suc.prems(1) have IH: "x0 = ucast (gpow n)" "length e0 = 512" "length l0 = 256"
    "\<forall>i < n. e0 ! i = gpow i \<and> l0 ! unat (gpow i) = of_nat i" by simp_all
  have r: "(x, e, l) = (ucast (gpow (Suc n)), e0[n := gpow n], l0[unat (gpow n) := of_nat n])"
    using Suc.prems(2) f gf_step_gpow [of n e0 l0] IH(1) by (simp del: gpow.simps)
  have ne: "unat (gpow n) \<noteq> unat (gpow i)" if "i < n" for i
    using gpow_inj [of n i] that Suc.prems(1) by (auto simp: word_unat_eq_iff)
  show ?case using r IH ne Suc.prems(1) by (auto simp: less_Suc_eq simp del: gpow.simps)
qed simp

lemma extend_exp:
  "255 \<le> n \<Longrightarrow> n \<le> length e \<Longrightarrow> (\<forall>i < 255. e ! i = gpow i) \<Longrightarrow>
   length (fold (\<lambda>i e. e[i := e ! (i - 255)]) [255..<n] e) = length e \<and>
   (\<forall>i < n. fold (\<lambda>i e. e[i := e ! (i - 255)]) [255..<n] e ! i = gpow i)"
proof (induction n rule: dec_induct)
  case (step n)
  let ?f = "fold (\<lambda>i e. e[i := e ! (i - 255)]) [255..<n] e"
  from step have IH: "length ?f = length e" "\<forall>i < n. ?f ! i = gpow i" by simp_all
  have "gpow (n - 255) = gpow n" using gpow_period_add [of "n - 255" 1] step(1) by simp
  then show ?case using step IH by (auto simp: nth_list_update less_Suc_eq)
qed simp

lemma gf_exp_nth: "i < 512 \<Longrightarrow> gf_exp ! i = gpow i"
  and gf_log_gpow: "i < 255 \<Longrightarrow> gf_log ! unat (gpow i) = of_nat i"
proof -
  obtain x e l where f: "fold gf_step [0..<255] (1, replicate 512 0, replicate 256 0) = (x, e, l)"
    by (metis prod_cases3)
  note g = gf_fill [OF order.refl f]
  have t: "gf_tables = (fold (\<lambda>i e. e[i := e ! (i - 255)]) [255..<512] e, l)"
    unfolding gf_tables_def f by (simp only: Let_def prod.case)
  have "\<forall>i < 512. gf_exp ! i = gpow i"
    unfolding gf_exp_def t fst_conv by (rule conjunct2 [OF extend_exp]) (use g in auto)
  then show "i < 512 \<Longrightarrow> gf_exp ! i = gpow i" by blast
  show "i < 255 \<Longrightarrow> gf_log ! unat (gpow i) = of_nat i"
    using g unfolding gf_log_def t by simp
qed

text \<open>Discrete logarithms as numbers.\<close>

definition dlog :: "u8 \<Rightarrow> nat" where "dlog a = unat (gf_log ! unat a)"

lemma dlog_gpow: "i < 255 \<Longrightarrow> dlog (gpow i) = i"
  unfolding dlog_def by (simp add: gf_log_gpow unat_of_nat)

lemma dlog_nonzero: "a \<noteq> 0 \<Longrightarrow> dlog a < 255 \<and> gpow (dlog a) = a"
  using gpow_surj [of a] dlog_gpow by auto

lemma dlog_gpow_mod: "dlog (gpow n) = n mod 255"
  using dlog_gpow [of "n mod 255"] gpow_mod [of n] by simp

lemma gf_mul_dlog: "a \<noteq> 0 \<Longrightarrow> b \<noteq> 0 \<Longrightarrow> gf_mul a b = gpow (dlog a + dlog b)"
  using dlog_nonzero [of a] dlog_nonzero [of b] gf_exp_nth [of "dlog a + dlog b"]
  by (simp add: gf_mul_def dlog_def)

lemma gf_mul_xtime: "a \<noteq> 0 \<Longrightarrow> gf_mul a b = (xtime ^^ dlog a) b"
proof (cases "b = 0")
  case False
  assume "a \<noteq> 0"
  with False show ?thesis using dlog_nonzero [of b] by (simp add: gf_mul_dlog gpow_add)
qed (simp add: gf_mul_def)

lemma gf_mul_zero [simp]: "gf_mul 0 a = 0" "gf_mul a 0 = 0"
  by (simp_all add: gf_mul_def)

lemma gf_mul_gpow: "gf_mul (gpow i) (gpow j) = gpow (i + j)"
proof -
  have "gf_mul (gpow i) (gpow j) = gpow (i mod 255 + j mod 255)"
    by (simp add: gf_mul_dlog gpow_nonzero dlog_gpow_mod)
  also have "\<dots> = gpow (i + j)" by (metis gpow_mod mod_add_eq)
  finally show ?thesis .
qed

lemma gf_mul_comm: "gf_mul a b = gf_mul b a"
  by (simp add: gf_mul_def add.commute)

lemma gf_mul_assoc: "gf_mul (gf_mul a b) c = gf_mul a (gf_mul b c)"
proof (cases "a = 0 \<or> b = 0 \<or> c = 0")
  case False
  then obtain i j k where "a = gpow i" "b = gpow j" "c = gpow k" by (metis gpow_surj)
  then show ?thesis by (simp add: gf_mul_gpow add.assoc)
qed auto

lemma gf_mul_xor_right: "gf_mul a (b XOR c) = gf_mul a b XOR gf_mul a c"
  by (cases "a = 0") (simp_all add: gf_mul_xtime xtimes_xor)

lemma gf_mul_one [simp]: "gf_mul 1 a = a"
proof (cases "a = 0")
  case False
  then obtain i where "a = gpow i" by (metis gpow_surj)
  then show ?thesis using gf_mul_gpow [of 0 i] by simp
qed simp

lemma gf_inv_left: "a \<noteq> 0 \<Longrightarrow> gf_mul (gf_inv a) a = 1"
proof -
  assume "a \<noteq> 0"
  then obtain i where i: "i < 255" "a = gpow i" by (metis gpow_surj)
  then have "gf_inv a = gpow (255 - i)"
    using dlog_gpow [of i] gf_exp_nth [of "255 - i"] by (simp add: gf_inv_def dlog_def)
  then show ?thesis using i gpow_values(1) by (simp add: gf_mul_gpow)
qed

section \<open>The field\<close>

datatype gf = GF (ungf: u8)

instantiation gf :: field
begin

definition zero_gf :: gf where "zero_gf = GF 0"
definition one_gf :: gf where "one_gf = GF 1"
definition plus_gf :: "gf \<Rightarrow> gf \<Rightarrow> gf" where "plus_gf a b = GF (ungf a XOR ungf b)"
definition minus_gf :: "gf \<Rightarrow> gf \<Rightarrow> gf" where "minus_gf a b = GF (ungf a XOR ungf b)"
definition uminus_gf :: "gf \<Rightarrow> gf" where "uminus_gf a = a"
definition times_gf :: "gf \<Rightarrow> gf \<Rightarrow> gf" where "times_gf a b = GF (gf_mul (ungf a) (ungf b))"
definition inverse_gf :: "gf \<Rightarrow> gf" where
  "inverse_gf a = (if a = GF 0 then GF 0 else GF (gf_inv (ungf a)))"
definition divide_gf :: "gf \<Rightarrow> gf \<Rightarrow> gf" where "divide_gf a b = a * inverse b"

instance
proof
  note defs = zero_gf_def one_gf_def plus_gf_def minus_gf_def uminus_gf_def times_gf_def
    inverse_gf_def divide_gf_def
  fix a b c :: gf
  show "a * b * c = a * (b * c)" by (simp add: defs gf_mul_assoc)
  show "a * b = b * a" by (simp add: defs gf_mul_comm)
  show "1 * a = a" by (simp add: defs)
  show "(a + b) * c = a * c + b * c"
    by (simp add: defs gf_mul_xor_right gf_mul_comm [of _ "ungf c"])
  show "a + b + c = a + (b + c)" by (simp add: defs ac_simps)
  show "a + b = b + a" by (simp add: defs ac_simps)
  show "0 + a = a" by (simp add: defs)
  show "- a + a = 0" by (simp add: defs)
  show "a - b = a + - b" by (simp add: defs)
  show "(0 :: gf) \<noteq> 1" by (simp add: defs)
  show "a \<noteq> 0 \<Longrightarrow> inverse a * a = 1" by (cases a) (auto simp: defs gf_inv_left)
  show "a div b = a * inverse b" by (simp add: defs)
  show "inverse (0 :: gf) = 0" by (simp add: defs)
qed

end

lemma GF_simps:
  "GF (a XOR b) = GF a + GF b" "GF (gf_mul a b) = GF a * GF b" "GF 0 = 0" "GF 1 = 1"
  "GF a = GF b \<longleftrightarrow> a = b" "a \<noteq> 0 \<Longrightarrow> GF (gf_inv a) = inverse (GF a)" "ungf 0 = 0"
  by (simp_all add: zero_gf_def one_gf_def plus_gf_def times_gf_def inverse_gf_def)

lemma gf_char2 [simp]: "a + a = (0 :: gf)" "a - b = a + (b :: gf)" "- a = (a :: gf)"
  by (simp_all add: zero_gf_def plus_gf_def minus_gf_def uminus_gf_def)

lemma gf_two [simp]: "(2 :: gf) = 0"
  using gf_char2(1) [of 1] by (simp only: one_add_one)

lemma gf_add_eq_0: "a + b = 0 \<longleftrightarrow> a = (b :: gf)"
  by (metis eq_neg_iff_add_eq_0 gf_char2(3))

lemma gf_pow_power: "GF (gf_pow a e) = GF a ^ e"
proof (cases "e = 0 \<or> a = 0")
  case False
  then obtain i where i: "i < 255" "a = gpow i" by (metis gpow_surj)
  have "gf_pow a e = gpow ((i * e) mod 255)"
    using False i dlog_gpow [of i] gf_exp_nth [of "(i * e) mod 255"]
      mod_less_divisor [of 255 "i * e"]
    by (simp add: gf_pow_def dlog_def)
  also have "\<dots> = gpow (i * e)" by (rule gpow_mod)
  also have "GF \<dots> = GF (gpow i) ^ e"
    by (induction e) (simp_all add: GF_simps(4) gf_mul_gpow [symmetric] GF_simps(2))
  finally show ?thesis using i by simp
qed (auto simp: gf_pow_def GF_simps zero_power)

text \<open>The reference product: shift and reduce one factor, add it where the other has a bit.\<close>

definition gf_mul_ref :: "u8 \<Rightarrow> u8 \<Rightarrow> u8" where
  "gf_mul_ref a b = fold (\<lambda>i acc. if bit b i then acc XOR (xtime ^^ i) a else acc) [0..<8] 0"

lemma gpow_small: "i < 8 \<Longrightarrow> gpow i = push_bit i 1"
proof -
  have "gpow 1 = 2" "gpow 2 = 4" "gpow 3 = 8" "gpow 4 = 16" "gpow 5 = 32" "gpow 6 = 64" "gpow 7 = 128"
    by (simp_all add: gpow_numeral xtime_def)
  moreover assume "i < 8"
  then have "i \<in> {0, 1, 2, 3, 4, 5, 6, 7}" by auto
  ultimately show ?thesis by (auto simp del: gpow.simps(2))
qed

lemma gf_take_bits:
  "n \<le> 8 \<Longrightarrow> GF (take_bit n b) = (\<Sum>i<n. if bit b i then GF (gpow i) else 0)"
proof (induction n)
  case (Suc n)
  have "take_bit (Suc n) b = take_bit n b XOR (if bit b n then push_bit n 1 else 0)"
    by (rule bit_word_eqI) (auto simp: bit_take_bit_iff bit_xor_iff bit_exp_iff less_Suc_eq)
  then have "GF (take_bit (Suc n) b) = GF (take_bit n b) + (if bit b n then GF (gpow n) else 0)"
    using gpow_small [of n] Suc.prems by (simp add: GF_simps)
  with Suc show ?case by simp
qed (simp add: GF_simps)

lemma gf_mul_ref_sum:
  "GF (fold (\<lambda>i acc. if bit b i then acc XOR (xtime ^^ i) a else acc) [0..<n] z)
   = GF z + (\<Sum>i<n. if bit b i then GF ((xtime ^^ i) a) else 0)"
  by (induction n) (simp_all add: GF_simps add.assoc)

lemma xtimes_gpow_mul: "(xtime ^^ i) a = gf_mul (gpow i) a"
proof (cases "a = 0")
  case False
  then obtain j where "a = gpow j" by (metis gpow_surj)
  then show ?thesis by (simp add: gf_mul_gpow gpow_add)
qed simp

text \<open>\<open>gf_mul\<close>, two table lookups and an addition of logarithms, is multiplication of
  polynomials over GF(2) modulo the primitive polynomial 0x11D, for all bytes.\<close>

theorem gf_mul_eq_ref: "gf_mul a b = gf_mul_ref a b"
proof -
  have "take_bit 8 b = b" by (rule bit_word_eqI) (simp add: bit_take_bit_iff)
  then have b: "GF b = (\<Sum>i<8. if bit b i then GF (gpow i) else 0)"
    using gf_take_bits [of 8 b] by simp
  have "GF (gf_mul_ref a b) = (\<Sum>i<8. if bit b i then GF (gpow i) * GF a else 0)"
    unfolding gf_mul_ref_def gf_mul_ref_sum by (simp add: xtimes_gpow_mul GF_simps cong: if_cong)
  also have "\<dots> = GF b * GF a"
    unfolding b sum_distrib_right by (intro sum.cong) auto
  finally show ?thesis by (simp add: GF_simps(2) [symmetric] gf_mul_comm)
qed

section \<open>Adding a multiple of a fragment\<close>

definition nth0 :: "bytes \<Rightarrow> nat \<Rightarrow> gf" where
  "nth0 b i = (if i < length b then GF (b ! i) else 0)"

lemma length_gf_mul_add [simp]: "length (gf_mul_add dst src c width) = length dst"
  by (simp add: gf_mul_add_def Let_def)

lemma nth_gf_mul_add:
  "i < length dst \<Longrightarrow> gf_mul_add dst src c width ! i =
     (if i < length src \<and> i < width then dst ! i XOR gf_mul c (src ! i) else dst ! i)"
  by (cases "c = 1") (simp, simp add: gf_mul_add_def Let_def, auto simp: gf_mul_add_def Let_def gf_mul_def)

lemma nth0_gf_mul_add:
  "i < length dst \<Longrightarrow> i < width \<Longrightarrow> nth0 (gf_mul_add dst src c width) i = nth0 dst i + GF c * nth0 src i"
  by (simp add: nth0_def nth_gf_mul_add GF_simps)

lemma nth0_resize [simp]: "i < width \<Longrightarrow> nth0 (resize b width) i = nth0 b i"
  by (auto simp: nth0_def resize_def nth_append GF_simps)

lemma length_resize [simp]: "length (resize b n) = n"
  by (simp add: resize_def)

lemma bytes_eqI: "length a = length b \<Longrightarrow> (\<And>i. i < length a \<Longrightarrow> nth0 a i = nth0 b i) \<Longrightarrow> a = b"
  by (rule nth_equalityI) (auto simp: nth0_def GF_simps)

lemma fold_gf_mul_add:
  assumes "length z = L" "i < L" "i < width"
  shows "nth0 (fold (\<lambda>j s. gf_mul_add s (D j) (c j) width) [0..<n] z) i
       = nth0 z i + (\<Sum>j<n. GF (c j) * nth0 (D j) i)"
    and "length (fold (\<lambda>j s. gf_mul_add s (D j) (c j) width) [0..<n] z) = L"
proof -
  have l: "length (fold (\<lambda>j s. gf_mul_add s (D j) (c j) width) [0..<n] z) = L" for n
    by (induction n) (simp_all add: assms(1))
  then show "length (fold (\<lambda>j s. gf_mul_add s (D j) (c j) width) [0..<n] z) = L" .
  show "nth0 (fold (\<lambda>j s. gf_mul_add s (D j) (c j) width) [0..<n] z) i
       = nth0 z i + (\<Sum>j<n. GF (c j) * nth0 (D j) i)"
    using assms l by (induction n) (simp_all add: nth0_gf_mul_add add.assoc)
qed

section \<open>Gaussian elimination keeps the solutions\<close>

text \<open>For each byte position \<open>k\<close> the system says \<open>A x = syn(k)\<close>; \<open>None\<close> selects the homogeneous system.\<close>

definition rhs :: "bytes list \<Rightarrow> nat option \<Rightarrow> nat \<Rightarrow> gf" where
  "rhs syn k r = (case k of None \<Rightarrow> 0 | Some i \<Rightarrow> nth0 (syn ! r) i)"

definition row_sol :: "nat \<Rightarrow> linsys \<Rightarrow> nat option \<Rightarrow> (nat \<Rightarrow> gf) \<Rightarrow> nat \<Rightarrow> bool" where
  "row_sol m s k x r \<longleftrightarrow> (\<Sum>c<m. GF (fst s ! r ! c) * x c) = rhs (snd s) k r"

definition sol :: "nat \<Rightarrow> linsys \<Rightarrow> nat option \<Rightarrow> (nat \<Rightarrow> gf) \<Rightarrow> bool" where
  "sol m s k x \<longleftrightarrow> (\<forall>r < m. row_sol m s k x r)"

definition sys_ok :: "nat \<Rightarrow> nat \<Rightarrow> linsys \<Rightarrow> bool" where
  "sys_ok m width s \<longleftrightarrow> length (fst s) = m \<and> length (snd s) = m \<and>
     (\<forall>r < m. length (fst s ! r) = m \<and> length (snd s ! r) = width)"

text \<open>The first \<open>n\<close> columns are those of the identity matrix.\<close>

definition unit_cols :: "nat \<Rightarrow> nat \<Rightarrow> linsys \<Rightarrow> bool" where
  "unit_cols m n s \<longleftrightarrow> (\<forall>r < m. \<forall>c < n. fst s ! r ! c = (if r = c then 1 else 0))"

lemma swap_rows_nth:
  "i < length xs \<Longrightarrow> j < length xs \<Longrightarrow> r < length xs \<Longrightarrow>
   swap_rows i j xs ! r = xs ! (if r = i then j else if r = j then i else r)"
  by (auto simp: swap_rows_def nth_list_update)

lemma length_swap_rows [simp]: "length (swap_rows i j xs) = length xs"
  by (simp add: swap_rows_def)

lemma swap_sol:
  assumes "sys_ok m width (a, syn)" "i < m" "j < m"
  shows "sol m (swap_rows i j a, swap_rows i j syn) k x \<longleftrightarrow> sol m (a, syn) k x"
proof -
  let ?p = "\<lambda>r. if r = i then j else if r = j then i else r"
  have eq: "row_sol m (swap_rows i j a, swap_rows i j syn) k x r \<longleftrightarrow> row_sol m (a, syn) k x (?p r)"
    if "r < m" for r
    using assms that by (simp add: row_sol_def rhs_def sys_ok_def swap_rows_nth split: option.split)
  have p: "?p r < m" "?p (?p r) = r" if "r < m" for r using assms that by auto
  have "row_sol m (a, syn) k x r" if "\<forall>r < m. row_sol m (a, syn) k x (?p r)" "r < m" for r
    using that(1) [rule_format, OF p(1) [OF that(2)]] p(2) [OF that(2)] by simp
  with eq p show ?thesis unfolding sol_def by blast
qed

lemma row_sol_other:
  "r \<noteq> q \<Longrightarrow> row_sol m (a[q := v], syn[q := w]) k x r = row_sol m (a, syn) k x r"
  by (simp add: row_sol_def rhs_def split: option.split)

text \<open>Scaling a row by an invertible factor.\<close>

lemma scale_sol:
  assumes ok: "sys_ok m width (a, syn)" and q: "q < m" and c: "c \<noteq> 0" and k: "pred_option (\<lambda>i. i < width) k"
    and z: "\<forall>j < q. a ! q ! j = 0"
  shows "sol m (a[q := scale_from q c (a ! q)], syn[q := map (\<lambda>b. gf_mul b c) (syn ! q)]) k x
     \<longleftrightarrow> sol m (a, syn) k x"
proof -
  let ?s = "(a[q := scale_from q c (a ! q)], syn[q := map (\<lambda>b. gf_mul b c) (syn ! q)])"
  have "(\<Sum>j<m. GF (fst ?s ! q ! j) * x j) = (\<Sum>j<m. GF (a ! q ! j) * x j) * GF c"
    unfolding sum_distrib_right using ok q z
    by (intro sum.cong refl) (auto simp: sys_ok_def scale_from_def GF_simps)
  moreover have "rhs (snd ?s) k q = rhs syn k q * GF c"
    using ok q k by (cases k) (auto simp: rhs_def sys_ok_def nth0_def GF_simps)
  moreover have "GF c \<noteq> 0" using c by (metis GF_simps(3,5))
  ultimately have "row_sol m ?s k x q \<longleftrightarrow> row_sol m (a, syn) k x q"
    by (simp add: row_sol_def)
  then show ?thesis unfolding sol_def using row_sol_other by metis
qed

text \<open>Adding a multiple of the pivot row to another row.\<close>

lemma eliminate_sol:
  assumes ok: "sys_ok m width (a, syn)" and q: "q < m" "r < m" and k: "pred_option (\<lambda>i. i < width) k"
    and z: "\<forall>j < q. a ! q ! j = 0"
  shows "sol m (eliminate_row width q r (a, syn)) k x \<longleftrightarrow> sol m (a, syn) k x"
proof (cases "r = q \<or> a ! r ! q = 0")
  case False
  define f where "f = a ! r ! q"
  let ?s = "(a[r := eliminate_from q f (a ! q) (a ! r)], syn[r := gf_mul_add (syn ! r) (syn ! q) f width])"
  have "(\<Sum>j<m. GF (fst ?s ! r ! j) * x j)
      = (\<Sum>j<m. GF (a ! r ! j) * x j) + GF f * (\<Sum>j<m. GF (a ! q ! j) * x j)"
    unfolding sum_distrib_left sum.distrib [symmetric] using ok q z
    by (intro sum.cong refl) (auto simp: sys_ok_def eliminate_from_def GF_simps algebra_simps)
  moreover have "rhs (snd ?s) k r = rhs syn k r + GF f * rhs syn k q"
    using ok q k by (cases k) (auto simp: rhs_def sys_ok_def nth0_gf_mul_add)
  ultimately have "row_sol m (a, syn) k x q \<Longrightarrow> row_sol m ?s k x r \<longleftrightarrow> row_sol m (a, syn) k x r"
    by (simp add: row_sol_def)
  moreover have "eliminate_row width q r (a, syn) = ?s"
    using False by (simp add: eliminate_row_def Let_def f_def)
  ultimately show ?thesis unfolding sol_def using row_sol_other False q by metis
qed (auto simp: eliminate_row_def Let_def)

definition same_sols :: "nat \<Rightarrow> nat \<Rightarrow> linsys \<Rightarrow> linsys \<Rightarrow> bool" where
  "same_sols m width s s' \<longleftrightarrow>
     (\<forall>k x. pred_option (\<lambda>i. i < width) k \<longrightarrow> sol m s' k x = sol m s k x)"

lemma same_sols_refl [simp]: "same_sols m width s s"
  by (simp add: same_sols_def)

lemma same_sols_trans: "same_sols m width s t \<Longrightarrow> same_sols m width t u \<Longrightarrow> same_sols m width s u"
  by (simp add: same_sols_def)

text \<open>What elimination of column \<open>q\<close> has reached after the rows below \<open>n\<close>.\<close>

definition elim_inv :: "nat \<Rightarrow> nat \<Rightarrow> nat \<Rightarrow> nat \<Rightarrow> linsys \<Rightarrow> linsys \<Rightarrow> bool" where
  "elim_inv m width q n s t \<longleftrightarrow> sys_ok m width t \<and> unit_cols m q t \<and> fst t ! q ! q = 1 \<and>
     (\<forall>r < n. r \<noteq> q \<longrightarrow> fst t ! r ! q = 0) \<and> same_sols m width s t"

lemma eliminate_row_inv:
  assumes inv: "elim_inv m width q r s t" and q: "q < m" "r < m"
  shows "elim_inv m width q (Suc r) s (eliminate_row width q r t)"
proof (cases "r = q \<or> fst t ! r ! q = 0")
  case True
  then have "eliminate_row width q r t = t" by (auto simp: eliminate_row_def split: prod.split)
  with inv True show ?thesis by (auto simp: elim_inv_def less_Suc_eq)
next
  case False
  obtain a syn where t: "t = (a, syn)" by force
  define f where "f = a ! r ! q"
  have e: "eliminate_row width q r t =
      (a[r := eliminate_from q f (a ! q) (a ! r)], syn[r := gf_mul_add (syn ! r) (syn ! q) f width])"
    using False by (simp add: t eliminate_row_def Let_def f_def)
  have ok: "sys_ok m width (a, syn)" and u: "unit_cols m q (a, syn)" and one: "a ! q ! q = 1"
    using inv by (simp_all add: elim_inv_def t)
  have z: "\<forall>j < q. a ! q ! j = 0" using u q by (auto simp: unit_cols_def)
  have "same_sols m width t (eliminate_row width q r t)"
    using eliminate_sol [OF ok q _ z] by (simp add: same_sols_def t)
  moreover have "sys_ok m width (eliminate_row width q r t)"
    using ok q by (auto simp: e sys_ok_def eliminate_from_def nth_list_update)
  moreover have row: "fst (eliminate_row width q r t) ! r' ! c =
      (if r' = r \<and> q \<le> c then a ! r ! c XOR gf_mul f (a ! q ! c) else a ! r' ! c)"
    if "r' < m" "c < m" for r' c
    using ok q that by (auto simp: e sys_ok_def eliminate_from_def nth_list_update)
  moreover have "unit_cols m q (eliminate_row width q r t)"
    using u row q by (auto simp: unit_cols_def)
  moreover have "gf_mul f 1 = f" by (simp add: gf_mul_comm [of f])
  ultimately show ?thesis
    using inv False q one by (auto simp: elim_inv_def t less_Suc_eq f_def intro: same_sols_trans)
qed

lemma eliminate_rows_inv:
  "elim_inv m width q 0 s s0 \<Longrightarrow> q < m \<Longrightarrow> n \<le> m \<Longrightarrow>
   elim_inv m width q n s (fold (eliminate_row width q) [0..<n] s0)"
  by (induction n) (simp_all add: eliminate_row_inv)

lemma find_pivot_spec:
  "p \<le> m \<Longrightarrow> p \<le> find_pivot a m col p \<and> find_pivot a m col p \<le> m \<and>
   (find_pivot a m col p < m \<longrightarrow> a ! find_pivot a m col p ! col \<noteq> 0) \<and>
   (\<forall>r. p \<le> r \<and> r < find_pivot a m col p \<longrightarrow> a ! r ! col = 0)"
proof (induction a m col p rule: find_pivot.induct)
  case (1 a m col p)
  show ?case
  proof (cases "p < m \<and> a ! p ! col = 0")
    case True
    then have e: "find_pivot a m col p = find_pivot a m col (Suc p)" by (subst find_pivot.simps) simp
    from 1 True have IH: "Suc p \<le> find_pivot a m col (Suc p)" "find_pivot a m col (Suc p) \<le> m"
      "find_pivot a m col (Suc p) < m \<longrightarrow> a ! find_pivot a m col (Suc p) ! col \<noteq> 0"
      "\<forall>r. Suc p \<le> r \<and> r < find_pivot a m col (Suc p) \<longrightarrow> a ! r ! col = 0" by simp_all
    have "a ! r ! col = 0" if "p \<le> r" "r < find_pivot a m col (Suc p)" for r
      using that IH(4) True by (cases "r = p") auto
    with e IH show ?thesis by simp
  next
    case False
    then have "find_pivot a m col p = p" by (subst find_pivot.simps) auto
    with False 1(2) show ?thesis by auto
  qed
qed

lemma gauss_col_Some:
  assumes ok: "sys_ok m width s" and u: "unit_cols m col s" and col: "col < m"
    and g: "gauss_col m width col s = Some s'"
  shows "sys_ok m width s' \<and> unit_cols m (Suc col) s' \<and> same_sols m width s s'"
proof -
  obtain a syn where s: "s = (a, syn)" by force
  define p where "p = find_pivot a m col col"
  have p: "col \<le> p" "p < m" "a ! p ! col \<noteq> 0"
    using g find_pivot_spec [of col m a col] col by (auto simp: gauss_col_def s Let_def p_def split: if_splits)
  define b c where "b = (if p \<noteq> col then swap_rows p col a else a)"
    and "c = (if p \<noteq> col then swap_rows p col syn else syn)"
  have ok': "sys_ok m width (b, c)"
    using ok col p by (auto simp: s b_def c_def sys_ok_def swap_rows_nth)
  have u': "unit_cols m col (b, c)"
    using ok u col p by (auto simp: s b_def unit_cols_def sys_ok_def swap_rows_nth)
  have piv: "b ! col ! col \<noteq> 0" using ok p col by (auto simp: s b_def sys_ok_def swap_rows_nth)
  have s1: "same_sols m width s (b, c)"
    using ok p col by (auto simp: s same_sols_def b_def c_def swap_sol)
  let ?iv = "gf_inv (b ! col ! col)"
  define t where "t = (b[col := scale_from col ?iv (b ! col)], c[col := map (\<lambda>v. gf_mul v ?iv) (c ! col)])"
  have iv: "gf_mul (b ! col ! col) ?iv = 1" using gf_inv_left [OF piv] by (simp add: gf_mul_comm)
  then have ivnz: "?iv \<noteq> 0" by auto
  have z: "\<forall>j < col. b ! col ! j = 0" using u' col by (auto simp: unit_cols_def)
  have "elim_inv m width col 0 s t"
    unfolding elim_inv_def
  proof (intro conjI)
    show "sys_ok m width t" using ok' col by (auto simp: t_def sys_ok_def scale_from_def nth_list_update)
    show "unit_cols m col t"
      using u' ok' col by (auto simp: t_def unit_cols_def sys_ok_def scale_from_def nth_list_update)
    show "fst t ! col ! col = 1"
      using ok' col iv by (auto simp: t_def sys_ok_def scale_from_def)
    have "same_sols m width (b, c) t"
      using scale_sol [OF ok' col ivnz _ z] by (simp add: same_sols_def t_def)
    with s1 show "same_sols m width s t" by (rule same_sols_trans)
  qed simp
  then have "elim_inv m width col m s (fold (eliminate_row width col) [0..<m] t)"
    using col by (simp add: eliminate_rows_inv)
  moreover have "s' = fold (eliminate_row width col) [0..<m] t"
    using g p by (auto simp: gauss_col_def s Let_def p_def [symmetric] t_def b_def c_def split: if_splits)
  ultimately show ?thesis
    by (auto simp: elim_inv_def unit_cols_def less_Suc_eq)
qed

lemma gauss_col_None:
  assumes ok: "sys_ok m width s" and u: "unit_cols m col s" and col: "col < m"
    and g: "gauss_col m width col s = None"
  shows "\<exists>x. sol m s None x \<and> x col = 1"
proof -
  obtain a syn where s: "s = (a, syn)" by force
  have "find_pivot a m col col = m"
    using g by (auto simp: gauss_col_def s Let_def split: if_splits prod.splits)
  then have z: "\<forall>r. col \<le> r \<and> r < m \<longrightarrow> a ! r ! col = 0"
    using find_pivot_spec [of col m a col] col by auto
  define x where "x c = (if c < col then GF (a ! c ! col) else if c = col then 1 else 0)" for c
  have "(\<Sum>c<m. GF (a ! r ! c) * x c) = 0" if r: "r < m" for r
  proof -
    have "(\<Sum>c<m. GF (a ! r ! c) * x c) = (\<Sum>c<Suc col. GF (a ! r ! c) * x c)"
      using col by (intro sum.mono_neutral_right) (auto simp: x_def)
    also have "\<dots> = (\<Sum>c<col. GF (a ! r ! c) * x c) + GF (a ! r ! col)"
      by (simp add: x_def)
    also have "(\<Sum>c<col. GF (a ! r ! c) * x c) = (\<Sum>c<col. if c = r then GF (a ! r ! col) else 0)"
      using u r by (intro sum.cong) (auto simp: unit_cols_def s x_def GF_simps)
    also have "\<dots> = (if r < col then GF (a ! r ! col) else 0)" by simp
    finally show ?thesis using z r by (auto simp: GF_simps)
  qed
  then have "sol m s None x" by (simp add: sol_def row_sol_def rhs_def s)
  moreover have "x col = 1" by (simp add: x_def)
  ultimately show ?thesis by blast
qed

lemma gauss_total:
  assumes "sys_ok m width s" "unit_cols m n s" "n \<le> m"
    and ker: "\<And>x. sol m s None x \<Longrightarrow> \<forall>c < m. x c = 0"
  shows "\<exists>s'. gauss m width [n..<m] s = Some s' \<and> sys_ok m width s' \<and> unit_cols m m s' \<and> same_sols m width s s'"
  using assms
proof (induction "m - n" arbitrary: n s)
  case (Suc d)
  then have n: "n < m" by simp
  have "gauss_col m width n s \<noteq> None"
    using gauss_col_None [OF Suc.prems(1,2) n] Suc.prems(4) n by force
  then obtain t where t: "gauss_col m width n s = Some t" by auto
  note T = gauss_col_Some [OF Suc.prems(1,2) n t]
  have "\<exists>s'. gauss m width [Suc n..<m] t = Some s' \<and> sys_ok m width s' \<and> unit_cols m m s' \<and> same_sols m width t s'"
    using T Suc.prems(4) Suc.hyps(2) n by (intro Suc.hyps(1)) (auto simp: same_sols_def)
  then show ?case using t n T by (auto simp: upt_conv_Cons intro: same_sols_trans)
qed auto

section \<open>The Vandermonde rows are independent\<close>

lemma vandermonde2:
  fixes a b x y :: gf
  assumes "a \<noteq> b" "a \<noteq> 0" "b \<noteq> 0" "p < q" "q \<le> 2"
    and 1: "a ^ p * x + b ^ p * y = 0" and 2: "a ^ q * x + b ^ q * y = 0"
  shows "x = 0 \<and> y = 0"
proof -
  obtain d where q: "q = p + d" and "0 < d" using less_imp_add_positive [OF assms(4)] by blast
  then have d: "d = 1 \<or> d = 2" using assms(5) by linarith
  have e: "b ^ p * y = a ^ p * x" using 1 by (simp add: gf_add_eq_0)
  have "a ^ q * x + b ^ d * (b ^ p * y) = 0" using 2 by (simp add: q power_add mult_ac)
  then have f: "(a ^ d + b ^ d) * (a ^ p * x) = 0" unfolding e by (simp add: q power_add algebra_simps)
  have "a ^ 2 + b ^ 2 = (a + b) ^ 2" by (simp add: power2_eq_square algebra_simps)
  then have "a ^ d + b ^ d \<noteq> 0" using d assms(1) gf_add_eq_0 [of a b] by auto
  with f assms(2) have "x = 0" by simp
  with e assms(3) show ?thesis by simp
qed

lemma vandermonde3:
  fixes a b c x y z :: gf
  assumes "a \<noteq> b" "a \<noteq> c" "b \<noteq> c"
    and 0: "x + y + z = 0" and 1: "a * x + b * y + c * z = 0" and 2: "a ^ 2 * x + b ^ 2 * y + c ^ 2 * z = 0"
  shows "x = 0 \<and> y = 0 \<and> z = 0"
proof -
  have z: "z = x + y" using 0 gf_add_eq_0 [of "x + y" z] by simp
  have e: "(b + c) * y = (a + c) * x"
    using 1 gf_add_eq_0 [of "(a + c) * x" "(b + c) * y"] by (simp add: z algebra_simps)
  have "a ^ 2 * x + b ^ 2 * y + c ^ 2 * z = (a + c) * ((a + c) * x) + (b + c) * ((b + c) * y)"
    by (simp add: z power2_eq_square algebra_simps)
  also have "\<dots> = (a + b) * ((a + c) * x)"
    unfolding e by (simp add: algebra_simps)
  finally have "(a + b) * ((a + c) * x) = 0" using 2 by simp
  then have "x = 0" using assms(1,2) gf_add_eq_0 by (metis mult_eq_0_iff)
  moreover have "y = 0" using e \<open>x = 0\<close> assms(3) gf_add_eq_0 by (metis mult_eq_0_iff mult_zero_right)
  ultimately show ?thesis using z by simp
qed

lemma vandermonde_kernel:
  fixes al x :: "nat \<Rightarrow> gf" and p :: "nat \<Rightarrow> nat"
  assumes inj: "inj_on al {..<m}" "inj_on p {..<m}" and nz: "\<forall>c < m. al c \<noteq> 0" and p: "\<forall>r < m. p r \<le> 2"
    and k: "\<forall>r < m. (\<Sum>c<m. al c ^ p r * x c) = 0"
  shows "\<forall>c < m. x c = 0"
proof -
  have "card {..<m} \<le> card {0, 1, 2 :: nat}"
    using inj(2) p by (intro card_inj_on_le [of p]) (auto simp: le_Suc_eq numeral_2_eq_2)
  then consider "m = 0" | "m = 1" | "m = 2" | "m = 3" by fastforce
  then show ?thesis
  proof cases
    case 2
    with k nz show ?thesis by simp
  next
    case 3
    have "al 0 \<noteq> al 1" "p 0 \<noteq> p 1" using inj 3 by (auto dest!: inj_onD)
    moreover have e: "al 0 ^ p r * x 0 + al 1 ^ p r * x 1 = 0" if "r < 2" for r
      using k that 3 by (simp add: numeral_2_eq_2)
    ultimately have "x 0 = 0 \<and> x 1 = 0"
      using vandermonde2 [of "al 0" "al 1" "p 0" "p 1" "x 0" "x 1"]
        vandermonde2 [of "al 0" "al 1" "p 1" "p 0" "x 0" "x 1"] nz p 3 e [of 0] e [of 1]
      by (cases "p 0 < p 1") auto
    then show ?thesis using 3 by (auto simp: less_2_cases_iff)
  next
    case 4
    have ne: "al 0 \<noteq> al 1" "al 0 \<noteq> al 2" "al 1 \<noteq> al 2" using inj 4 by (auto dest!: inj_onD)
    have "p ` {..<3} = {0, 1, 2}"
      using inj(2) p 4 card_image [of p "{..<3}"]
      by (intro card_subset_eq) (auto simp: le_Suc_eq numeral_2_eq_2)
    then have r: "\<exists>r < 3. p r = q" if "q \<in> {0, 1, 2}" for q
      using that by (metis imageE lessThan_iff)
    have s3: "(\<Sum>c<(3::nat). f c) = f 0 + f 1 + f 2" for f :: "nat \<Rightarrow> gf"
      by (simp add: numeral_3_eq_3 numeral_2_eq_2)
    have e: "al 0 ^ q * x 0 + al 1 ^ q * x 1 + al 2 ^ q * x 2 = 0" if "q \<in> {0, 1, 2}" for q
      using k r [OF that] 4 s3 [of "\<lambda>c. al c ^ q * x c"] by metis
    have "x 0 = 0 \<and> x 1 = 0 \<and> x 2 = 0"
      using vandermonde3 [OF ne, of "x 0" "x 1" "x 2"] e [of 0] e [of 1] e [of 2] by simp
    then show ?thesis using 4 by (auto simp: less_Suc_eq numeral_3_eq_3 numeral_2_eq_2)
  qed simp
qed

section \<open>The decoder restores the missing fragments\<close>

lemma gf_mul_add_empty [simp]: "gf_mul_add s [] c width = s"
  by (simp add: gf_mul_add_def)

lemma nth0_Nil [simp]: "nth0 [] i = 0"
  by (simp add: nth0_def)

lemma length_rs_encode [simp]: "length (rs_encode D pc width) = pc"
  by (simp add: rs_encode_def encode_into_def Let_def)

lemma parity_buf_nth0:
  assumes "k < width"
  shows "nth0 (parity_buf D width old p) k = (\<Sum>j<length D. GF (coef p j) * nth0 (D ! j) k)"
    and "width \<le> length (parity_buf D width old p)"
proof -
  define z where "z = (if length old < width then replicate width 0 else replicate width 0 @ drop width old)"
  have z: "nth0 z k = 0" "width \<le> length z" "k < length z"
    using assms by (auto simp: z_def nth0_def nth_append GF_simps)
  have e: "parity_buf D width old p = fold (\<lambda>j s. gf_mul_add s (D ! j) (coef p j) width) [0..<length D] z"
    by (simp add: parity_buf_def z_def)
  show "nth0 (parity_buf D width old p) k = (\<Sum>j<length D. GF (coef p j) * nth0 (D ! j) k)"
    unfolding e using fold_gf_mul_add(1) [OF refl z(3) assms, of "(!) D" "coef p" "length D"] z(1) by simp
  show "width \<le> length (parity_buf D width old p)"
    unfolding e using fold_gf_mul_add(2) [OF refl z(3) assms, of "(!) D" "coef p" "length D"] z(2) by simp
qed

lemma encode_into_nth:
  "p < pc \<Longrightarrow> encode_into D pc width out ! p =
     parity_buf D width ((if length out < pc then out @ replicate (pc - length out) [] else out) ! p) p"
  by (simp add: encode_into_def Let_def)

lemma rs_encode_nth0:
  "p < pc \<Longrightarrow> k < width \<Longrightarrow>
   nth0 (rs_encode D pc width ! p) k = (\<Sum>j<length D. GF (coef p j) * nth0 (D ! j) k)"
  by (simp add: rs_encode_def encode_into_nth parity_buf_nth0)

lemma syndrome_nth0:
  assumes "k < width"
  shows "nth0 (syndrome data width par) k = nth0 (snd par) k +
     (\<Sum>j<length data. GF (coef (fst par) j) * nth0 (case data ! j of Some d \<Rightarrow> d | None \<Rightarrow> []) k)"
    and "length (syndrome data width par) = width"
proof -
  have f: "(\<lambda>j s. case data ! j of Some d \<Rightarrow> gf_mul_add s d (coef (fst par) j) width | None \<Rightarrow> s)
      = (\<lambda>j s. gf_mul_add s (case data ! j of Some d \<Rightarrow> d | None \<Rightarrow> []) (coef (fst par) j) width)"
    by (auto simp: fun_eq_iff split: option.split)
  show "nth0 (syndrome data width par) k = nth0 (snd par) k +
     (\<Sum>j<length data. GF (coef (fst par) j) * nth0 (case data ! j of Some d \<Rightarrow> d | None \<Rightarrow> []) k)"
    "length (syndrome data width par) = width"
    unfolding syndrome_def f
    using fold_gf_mul_add [of "resize (snd par) width" width k width] assms by simp_all
qed

lemma length_syndrome [simp]: "length (syndrome data width par) = width"
proof -
  have "length (fold (\<lambda>j s. case data ! j of Some d \<Rightarrow> gf_mul_add s d (c j) width | None \<Rightarrow> s) xs z) = length z"
    for c xs z by (induction xs arbitrary: z) (auto split: option.split)
  then show ?thesis by (simp add: syndrome_def)
qed

text \<open>The fragments and parities the decoder was given agree with the originals \<open>D\<close>.\<close>

definition rs_view :: "bytes list \<Rightarrow> nat \<Rightarrow> bytes option list \<Rightarrow> (nat \<times> bytes) list \<Rightarrow> bool" where
  "rs_view D width data parity \<longleftrightarrow>
     length data = length D \<and> (\<forall>i < length D. data ! i = None \<or> data ! i = Some (D ! i)) \<and>
     (\<forall>(p, b) \<in> set parity. \<forall>k < width. nth0 b k = (\<Sum>j<length D. GF (coef p j) * nth0 (D ! j) k))"

lemma missing_distinct [simp]: "distinct (missing_indices data)"
  by (simp add: missing_indices_def)

lemma missing_set: "set (missing_indices data) = {i. i < length data \<and> data ! i = None}"
  by (auto simp: missing_indices_def)

lemma sum_missing:
  "(\<Sum>c<length (missing_indices data). f (missing_indices data ! c)) = (\<Sum>i | i < length data \<and> data ! i = None. f i)"
proof -
  have "bij_betw ((!) (missing_indices data)) {..<length (missing_indices data)} (set (missing_indices data))"
    by (rule bij_betw_nth) simp_all
  then show ?thesis unfolding missing_set [symmetric] by (rule sum.reindex_bij_betw)
qed

lemma decoder_system:
  assumes v: "rs_view D width data parity" and r: "r < length parity" and k: "k < width"
  shows "(\<Sum>c<length (missing_indices data). GF (coef (fst (parity ! r)) (missing_indices data ! c))
            * nth0 (D ! (missing_indices data ! c)) k)
       = nth0 (syndrome data width (parity ! r)) k"
proof -
  let ?p = "fst (parity ! r)" and ?d = "\<lambda>j. case data ! j of Some d \<Rightarrow> d | None \<Rightarrow> []"
  have len: "length data = length D" using v by (simp add: rs_view_def)
  have "parity ! r \<in> set parity" using r by simp
  then have par: "nth0 (snd (parity ! r)) k = (\<Sum>j<length D. GF (coef ?p j) * nth0 (D ! j) k)"
    using v k unfolding rs_view_def by (auto simp: split_beta)
  have "nth0 (syndrome data width (parity ! r)) k
      = (\<Sum>j<length D. GF (coef ?p j) * (nth0 (D ! j) k + nth0 (?d j) k))"
    by (simp add: syndrome_nth0 [OF k] par len sum.distrib [symmetric] distrib_left)
  also have "\<dots> = (\<Sum>j<length D. if data ! j = None then GF (coef ?p j) * nth0 (D ! j) k else 0)"
    using v by (intro sum.cong) (auto simp: rs_view_def)
  also have "\<dots> = (\<Sum>j | j < length data \<and> data ! j = None. GF (coef ?p j) * nth0 (D ! j) k)"
    by (simp add: sum.If_cases len lessThan_def Int_def)
  finally show ?thesis by (simp add: sum_missing [symmetric])
qed

lemma unit_sol:
  assumes "unit_cols m m s" "sol m s k x" "c < m"
  shows "x c = rhs (snd s) k c"
proof -
  have "(\<Sum>c'<m. GF (fst s ! c ! c') * x c') = (\<Sum>c'<m. if c' = c then x c else 0)"
    using assms by (intro sum.cong) (auto simp: unit_cols_def GF_simps)
  also have "\<dots> = x c" using assms(3) by simp
  finally show ?thesis using assms(2,3) by (simp add: sol_def row_sol_def)
qed

lemma fold_fill:
  assumes "distinct ms" "\<forall>j \<in> set ms. j < length data" "n \<le> length ms"
  shows "length (fold (\<lambda>c d. d[ms ! c := v c]) [0..<n] data) = length data
    \<and> (\<forall>c < n. fold (\<lambda>c d. d[ms ! c := v c]) [0..<n] data ! (ms ! c) = v c)
    \<and> (\<forall>i. (\<forall>c < n. ms ! c \<noteq> i) \<longrightarrow> fold (\<lambda>c d. d[ms ! c := v c]) [0..<n] data ! i = data ! i)"
  using assms(3)
proof (induction n)
  case (Suc n)
  then have "ms ! n < length data" "\<forall>c < n. ms ! c \<noteq> ms ! n"
    using assms(1,2) by (auto simp: nth_eq_iff_index_eq)
  with Suc show ?case by (auto simp: less_Suc_eq)
qed simp

lemma of_nat_u8_inj: "i < 256 \<Longrightarrow> j < 256 \<Longrightarrow> (of_nat i :: u8) = of_nat j \<Longrightarrow> i = j"
  by (metis unat_of_nat_u8)

lemma decoder_kernel:
  assumes "distinct (map fst parity)" "\<forall>(p, b) \<in> set parity. p \<le> 2" "m \<le> length parity"
    and "distinct ms" "\<forall>i \<in> set ms. i < 255" "m = length ms"
    and k: "sol m (map (\<lambda>r. map (\<lambda>c. coef (fst (parity ! r)) (ms ! c)) [0..<m]) [0..<m], syn) None x"
  shows "\<forall>c < m. x c = 0"
proof -
  let ?al = "\<lambda>c. GF (of_nat (ms ! c + 1))" and ?p = "\<lambda>r. fst (parity ! r)"
  have lt: "ms ! c < 255" if "c < m" for c using that assms by simp
  show ?thesis
  proof (rule vandermonde_kernel [of ?al m ?p])
    show "inj_on ?al {..<m}"
    proof (rule inj_onI)
      fix c c' assume c: "c \<in> {..<m}" "c' \<in> {..<m}" "?al c = ?al c'"
      then have "ms ! c + 1 = ms ! c' + 1"
        using lt [of c] lt [of c'] of_nat_u8_inj [of "ms ! c + 1" "ms ! c' + 1"] by (simp del: of_nat_add)
      then show "c = c'" using c assms by (simp add: nth_eq_iff_index_eq)
    qed
    show "inj_on ?p {..<m}"
      using assms(1,3) by (auto simp: inj_on_def distinct_conv_nth) (metis less_le_trans nth_map)
    show "\<forall>c < m. ?al c \<noteq> 0"
    proof (intro allI impI)
      fix c assume "c < m"
      then have "unat (of_nat (ms ! c + 1) :: u8) = ms ! c + 1" using lt by (intro unat_of_nat_u8) simp
      then show "?al c \<noteq> 0" by (metis GF_simps(3,5) Suc_eq_plus1 nat.simps(3) unat_0)
    qed
    show "\<forall>r < m. ?p r \<le> 2" using assms(2,3) by (auto dest!: nth_mem simp: split_beta) 
    show "\<forall>r < m. (\<Sum>c<m. ?al c ^ ?p r * x c) = 0"
      using k by (simp add: sol_def row_sol_def rhs_def coef_def gf_pow_power)
  qed
qed

text \<open>The elimination succeeds and its right-hand sides are the missing fragments.\<close>

lemma decoder_gauss:
  fixes data
  defines "ms \<equiv> missing_indices data"
  defines "m \<equiv> length ms"
  assumes v: "rs_view D width data parity" and D: "length D \<le> 255"
    and par: "distinct (map fst parity)" "\<forall>(p, b) \<in> set parity. p \<le> 2"
    and few: "m \<le> length parity"
  shows "\<exists>a' syn'. gauss m width [0..<m]
      (map (\<lambda>r. map (\<lambda>c. coef (fst (parity ! r)) (ms ! c)) [0..<m]) [0..<m],
       map (\<lambda>r. syndrome data width (parity ! r)) [0..<m]) = Some (a', syn')
    \<and> (\<forall>c < m. syn' ! c = resize (D ! (ms ! c)) width)"
proof -
  define a where "a = map (\<lambda>r. map (\<lambda>c. coef (fst (parity ! r)) (ms ! c)) [0..<m]) [0..<m]"
  define syn where "syn = map (\<lambda>r. syndrome data width (parity ! r)) [0..<m]"
  have ms: "\<forall>j \<in> set ms. j < length D" "distinct ms"
    using v by (auto simp: ms_def missing_set rs_view_def)
  have ok: "sys_ok m width (a, syn)" by (simp add: sys_ok_def a_def syn_def)
  have "\<exists>s'. gauss m width [0..<m] (a, syn) = Some s' \<and> sys_ok m width s' \<and> unit_cols m m s'
      \<and> same_sols m width (a, syn) s'"
  proof (rule gauss_total [OF ok])
    fix x assume "sol m (a, syn) None x"
    then show "\<forall>c < m. x c = 0"
      unfolding a_def using par few ms D
      by (intro decoder_kernel [of parity m ms]) (auto simp: m_def)
  qed (simp_all add: unit_cols_def)
  then obtain a' syn' where g: "gauss m width [0..<m] (a, syn) = Some (a', syn')"
    and ok': "sys_ok m width (a', syn')" and u: "unit_cols m m (a', syn')"
    and same: "same_sols m width (a, syn) (a', syn')" by force
  have "syn' ! c = resize (D ! (ms ! c)) width" if c: "c < m" for c
  proof (rule bytes_eqI)
    show "length (syn' ! c) = length (resize (D ! (ms ! c)) width)"
      using ok' c by (simp add: sys_ok_def)
    fix k assume "k < length (syn' ! c)"
    then have k: "k < width" using ok' c by (simp add: sys_ok_def)
    let ?x = "\<lambda>c. nth0 (D ! (ms ! c)) k"
    have "sol m (a, syn) (Some k) ?x"
      using decoder_system [OF v _ k] few
      by (simp add: sol_def row_sol_def rhs_def a_def syn_def m_def ms_def)
    then have "sol m (a', syn') (Some k) ?x" using same k by (simp add: same_sols_def)
    from unit_sol [OF u this c] show "nth0 (syn' ! c) k = nth0 (resize (D ! (ms ! c)) width) k"
      using k by (simp add: rhs_def)
  qed
  with g show ?thesis by (auto simp: a_def syn_def)
qed

definition filled :: "bytes list \<Rightarrow> nat \<Rightarrow> bytes option list \<Rightarrow> bytes option list" where
  "filled D width data =
     map (\<lambda>i. if data ! i = None then Some (resize (D ! i) width) else data ! i) [0..<length data]"

lemma fill_missing:
  fixes data
  defines "ms \<equiv> missing_indices data"
  assumes "\<forall>c < length ms. v c = Some (resize (D ! (ms ! c)) width)"
  shows "fold (\<lambda>c d. d[ms ! c := v c]) [0..<length ms] data = filled D width data" (is "?r = _")
proof (rule nth_equalityI)
  have ms: "\<forall>j \<in> set ms. j < length data" "distinct ms"
    by (auto simp: ms_def missing_set)
  note F = fold_fill [OF ms(2,1) order.refl, of v]
  show "length ?r = length (filled D width data)" using F by (simp add: filled_def)
  fix i assume "i < length ?r"
  then have i: "i < length data" using F by simp
  show "?r ! i = filled D width data ! i"
  proof (cases "data ! i")
    case None
    then have "i \<in> set ms" using i by (simp add: ms_def missing_set)
    then obtain c where "c < length ms" "ms ! c = i" by (auto simp: in_set_conv_nth)
    then show ?thesis using F assms(2) None i by (auto simp: filled_def)
  next
    case (Some d)
    then have "i \<notin> set ms" by (simp add: ms_def missing_set)
    then have "\<forall>c < length ms. ms ! c \<noteq> i" by auto
    then show ?thesis using F Some i by (simp add: filled_def)
  qed
qed

text \<open>What the reassembler relies on: with at most 255 data fragments and as many parity fragments
  of distinct index below three as fragments are missing, the decoder succeeds and fills in the
  originals, extended with zeros to \<open>width\<close> bytes.\<close>

lemma rs_decode_view:
  assumes "rs_view D width data parity" "length D \<le> 255"
    and "distinct (map fst parity)" "\<forall>(p, b) \<in> set parity. p \<le> 2"
    and "length (missing_indices data) \<le> length parity"
  shows "rs_decode data parity width = (True, filled D width data)"
proof -
  obtain a' syn' where g: "gauss (length (missing_indices data)) width [0..<length (missing_indices data)]
      (map (\<lambda>r. map (\<lambda>c. coef (fst (parity ! r)) (missing_indices data ! c)) [0..<length (missing_indices data)])
         [0..<length (missing_indices data)],
       map (\<lambda>r. syndrome data width (parity ! r)) [0..<length (missing_indices data)]) = Some (a', syn')"
    and f: "\<forall>c < length (missing_indices data). syn' ! c = resize (D ! (missing_indices data ! c)) width"
    using decoder_gauss [OF assms] by blast
  have "fold (\<lambda>c d. d[missing_indices data ! c := Some (syn' ! c)]) [0..<length (missing_indices data)] data
      = filled D width data"
    by (rule fill_missing) (use f in simp)
  then show ?thesis
    using assms(5) g by (auto simp: rs_decode_def Let_def)
qed

lemma rs_view_encode:
  assumes "length data = length D" "\<forall>i < length D. data ! i = None \<or> data ! i = Some (D ! i)"
    and "\<forall>(p, b) \<in> set parity. p < pc \<and> b = rs_encode D pc width ! p"
  shows "rs_view D width data parity"
  using assms rs_encode_nth0 by (auto simp: rs_view_def split: prod.splits)

text \<open>C3. \<open>ReedSolomon::decode\<close> restores every missing fragment of \<open>ReedSolomon::encode\<close>'s input (padded
  with zeros to the common width) whenever at least as many of the at most three parity fragments
  arrived as data fragments are missing, for up to 255 data fragments.\<close>

theorem rs_decode_recovers:
  assumes "length D \<le> 255" "pc \<le> 3"
    and "length data = length D" "\<forall>i < length D. data ! i = None \<or> data ! i = Some (D ! i)"
    and "distinct (map fst parity)" "\<forall>(p, b) \<in> set parity. p < pc \<and> b = rs_encode D pc width ! p"
    and "length (missing_indices data) \<le> length parity"
  shows "rs_decode data parity width = (True,
    map (\<lambda>i. if data ! i = None then Some (resize (D ! i) width) else data ! i) [0..<length data])"
  unfolding filled_def [symmetric]
  by (rule rs_decode_view [OF rs_view_encode [OF assms(3,4,6)] assms(1,5) _ assms(7)])
    (use assms(2,6) in fastforce)

theorem rs_decode_recovers_witness:
  "let D = [[1, 2, 3], [4, 5, 6], [7, 8]]; P = rs_encode D 3 3
   in rs_decode [None, Some [4, 5, 6], None] [(2, P ! 2), (0, P ! 0)] 3
      = (True, [Some [1, 2, 3], Some [4, 5, 6], Some [7, 8, 0]])"
  unfolding Let_def
  by (subst rs_decode_recovers [of "[[1, 2, 3], [4, 5, 6], [7, 8]]" 3])
    (auto simp: missing_indices_def resize_def less_Suc_eq numeral_3_eq_3)

section \<open>The interface the reassembler uses\<close>

text \<open>A systematic erasure code: \<open>enc\<close> gives the parity fragments of the data fragments, \<open>dec\<close> fills
  in missing data from parity fragments tagged with their index.\<close>

locale erasure_code =
  fixes enc :: "bytes list \<Rightarrow> nat \<Rightarrow> nat \<Rightarrow> bytes list"
    and dec :: "bytes option list \<Rightarrow> (nat \<times> bytes) list \<Rightarrow> nat \<Rightarrow> bool \<times> bytes option list"
    and max_data max_parity :: nat
  assumes recover:
    "length D \<le> max_data \<Longrightarrow> pc \<le> max_parity \<Longrightarrow> length data = length D \<Longrightarrow>
     \<forall>i < length D. data ! i = None \<or> data ! i = Some (D ! i) \<Longrightarrow>
     distinct (map fst parity) \<Longrightarrow> \<forall>(p, b) \<in> set parity. p < pc \<and> b = enc D pc width ! p \<Longrightarrow>
     length (missing_indices data) \<le> length parity \<Longrightarrow>
     dec data parity width = (True, filled D width data)"
begin

text \<open>Any loss of at most \<open>pc\<close> of the \<open>length D + pc\<close> fragments is repaired.\<close>

lemma survives_loss:
  assumes "length D \<le> max_data" "pc \<le> max_parity"
    and loss: "card {i. i < length D + pc \<and> \<not> got i} \<le> pc"
  shows "dec (map (\<lambda>i. if got i then Some (D ! i) else None) [0..<length D])
      (map (\<lambda>p. (p, enc D pc width ! p)) (filter (\<lambda>p. got (length D + p)) [0..<pc])) width
    = (True, filled D width (map (\<lambda>i. if got i then Some (D ! i) else None) [0..<length D]))"
proof (rule recover [OF assms(1,2)])
  let ?n = "length D"
  let ?data = "map (\<lambda>i. if got i then Some (D ! i) else None) [0..<?n]"
  have m: "length (missing_indices ?data) = card {i. i < ?n \<and> \<not> got i}"
    by (subst distinct_card [symmetric]) (auto simp: missing_set intro!: arg_cong [where f = card])
  have q: "length (filter (\<lambda>p. got (?n + p)) [0..<pc]) = card {p. p < pc \<and> got (?n + p)}"
    by (subst distinct_card [symmetric]) (auto intro!: arg_cong [where f = card])
  have l: "card {i. i < ?n + pc \<and> \<not> got i} = card {i. i < ?n \<and> \<not> got i} + card {p. p < pc \<and> \<not> got (?n + p)}"
  proof -
    have "{i. i < ?n + pc \<and> \<not> got i} = {i. i < ?n \<and> \<not> got i} \<union> (+) ?n ` {p. p < pc \<and> \<not> got (?n + p)}"
      by (auto simp: image_iff) (metis add.commute add_less_cancel_left le_Suc_ex not_less)
    moreover have "card ((+) ?n ` {p. p < pc \<and> \<not> got (?n + p)}) = card {p. p < pc \<and> \<not> got (?n + p)}"
      by (rule card_image) simp
    moreover have "{i. i < ?n \<and> \<not> got i} \<inter> (+) ?n ` {p. p < pc \<and> \<not> got (?n + p)} = {}" by auto
    ultimately show ?thesis by (simp add: card_Un_disjoint)
  qed
  have "card {p. p < pc \<and> got (?n + p)} + card {p. p < pc \<and> \<not> got (?n + p)} = pc"
  proof -
    have "{..<pc} = {p. p < pc \<and> got (?n + p)} \<union> {p. p < pc \<and> \<not> got (?n + p)}" by auto
    then have "pc = card ({p. p < pc \<and> got (?n + p)} \<union> {p. p < pc \<and> \<not> got (?n + p)})"
      by (metis card_lessThan)
    then show ?thesis by (simp add: card_Un_disjoint disjoint_iff)
  qed
  then show "length (missing_indices ?data) \<le>
      length (map (\<lambda>p. (p, enc D pc width ! p)) (filter (\<lambda>p. got (?n + p)) [0..<pc]))"
    using m q l loss by simp
qed (auto simp: o_def distinct_map)

end

interpretation rs: erasure_code rs_encode rs_decode 255 3
proof
  fix D :: "bytes list" and pc width :: nat and data :: "bytes option list" and parity :: "(nat \<times> bytes) list"
  assume a: "length D \<le> 255" "pc \<le> 3" "length data = length D"
    "\<forall>i < length D. data ! i = None \<or> data ! i = Some (D ! i)"
    "distinct (map fst parity)" "\<forall>(p, b) \<in> set parity. p < pc \<and> b = rs_encode D pc width ! p"
    "length (missing_indices data) \<le> length parity"
  show "rs_decode data parity width = (True, filled D width data)"
    by (rule rs_decode_view [OF rs_view_encode [OF a(3,4,6)] a(1,5) _ a(7)]) (use a(2,6) in fastforce)
qed

end
