(* ===== verification/Fragmenter.thy ===== *)
theory Fragmenter
  imports Peer FEC
begin

text \<open>
  The outbound data path, \<open>tight/src/fragmenter.cpp\<close>: a message becomes a four-byte length
  prefix and its payload, cut into fragments of one datagram each, followed by one to three
  Reed-Solomon parity fragments. The calls of the \<open>send_fragment\<close> callback are returned as a list.
\<close>

definition kFecSafetyCoefficient :: real where "kFecSafetyCoefficient = 12 / 10"

definition compute_parity_count_for :: "real \<Rightarrow> nat \<Rightarrow> u16" where
  "compute_parity_count_for late_ratio data_count =
     (if late_ratio \<le> 1 / 10000 \<or> 9999 / 10000 \<le> late_ratio then 1
      else
        let h = - late_ratio * log 2 late_ratio - (1 - late_ratio) * log 2 (1 - late_ratio);
            redundancy = h * kFecSafetyCoefficient;
            p = (of_int \<lceil>real data_count * redundancy\<rceil> :: u16);
            p = (if p < 1 then 1 else p)
        in if 3 < p then 3 else p)"

record fragment_call =
  fc_msg_id :: u32
  fc_idx :: u16
  fc_cnt :: u16
  fc_data_cnt :: u16
  fc_real_size :: u16
  fc_data :: bytes
  fc_width :: nat
  fc_ackable :: bool

lemma msg_id_mask: "(c :: u32) AND 0x7FFFFFFF = take_bit 31 c"
proof -
  have "(0x7FFFFFFF :: u32) = mask 31" by (simp add: mask_eq_exp_minus_1)
  then show ?thesis by (simp add: take_bit_eq_mask)
qed

lemma msg_id_mask_Suc: "c AND 0x7FFFFFFF = 0 \<Longrightarrow> (c + 1 :: u32) AND 0x7FFFFFFF = 1"
proof -
  assume "c AND 0x7FFFFFFF = 0"
  then have "take_bit 31 c = 0" by (simp only: msg_id_mask)
  then have low: "\<not> bit c n" if "n < 31" for n
    using that bit_take_bit_iff [of 31 c n] by simp
  have "c = (if bit c 31 then 2 ^ 31 else 0)"
  proof (rule bit_word_eqI)
    fix n
    assume "n < LENGTH(32)"
    then consider "n < 31" | "n = 31" by fastforce
    then show "bit c n = bit (if bit c 31 then 2 ^ 31 else 0 :: u32) n"
      by cases (auto simp only: low bit_exp_iff possible_bit_word bit_0_eq split: if_split, auto)
  qed
  then have "c = 0 \<or> c = 0x80000000" by (auto split: if_splits)
  then show ?thesis by (elim disjE) simp_all
qed

text \<open>The \<open>do ... while (msg_id == 0)\<close> loop over the peer's message counter.\<close>

function next_msg_id :: "u32 \<Rightarrow> u32 \<times> u32" where
  "next_msg_id counter =
     (let msg_id = counter AND 0x7FFFFFFF
      in if msg_id = 0 then next_msg_id (counter + 1) else (msg_id, counter + 1))"
  by auto
termination
  by (relation "measure (\<lambda>c. if c AND 0x7FFFFFFF = 0 then 1 else 0)")
    (auto simp: msg_id_mask_Suc)

declare next_msg_id.simps [simp del]

definition frag_payload_for :: "nat \<Rightarrow> nat" where
  "frag_payload_for mtu =
     (let frag_payload = (if kHeaderSize < mtu then mtu - kHeaderSize else 64)
      in if frag_payload \<le> 4 then 64 else frag_payload)"

definition full_buffer :: "bytes \<Rightarrow> bytes" where
  "full_buffer payload = mem32 (to_be32 (of_nat (length payload))) @ payload"

definition data_count_for :: "nat \<Rightarrow> nat \<Rightarrow> nat" where
  "data_count_for real_total frag_payload =
     (let data_count = (real_total + frag_payload - 1) div frag_payload
      in if data_count = 0 then 1 else data_count)"

definition spans_of :: "bytes \<Rightarrow> nat \<Rightarrow> nat \<Rightarrow> bytes list" where
  "spans_of full frag_payload data_count =
     map (\<lambda>i. let off = i * frag_payload; len = min frag_payload (length full - off)
              in take len (drop off full)) [0..<data_count]"

text \<open>\<open>parities\<close> is the thread-local buffer vector, reused between calls.\<close>

definition fragment_and_send ::
  "nat \<Rightarrow> bytes \<Rightarrow> bytes list \<Rightarrow> peer \<Rightarrow> fragment_call list \<times> bytes list \<times> peer" where
  "fragment_and_send mtu payload parities p =
     (let frag_payload = frag_payload_for mtu;
          (msg_id, counter) = next_msg_id (m_msg_id_out p);
          p = p\<lparr>m_msg_id_out := counter\<rparr>;
          late_ratio = m_peer_late_ratio p;
          full = full_buffer payload;
          data_count = data_count_for (length full) frag_payload;
          width = frag_payload;
          parity_count = unat (compute_parity_count_for late_ratio data_count);
          spans = spans_of full frag_payload data_count;
          parities = encode_into spans parity_count width parities;
          cnt = of_nat (data_count + parity_count);
          d_cnt = of_nat data_count;
          data_calls = map (\<lambda>i. \<lparr>fc_msg_id = msg_id, fc_idx = of_nat i, fc_cnt = cnt, fc_data_cnt = d_cnt,
             fc_real_size = of_nat (length (spans ! i)), fc_data = spans ! i, fc_width = width,
             fc_ackable = True\<rparr>) [0..<data_count];
          parity_calls = map (\<lambda>q. \<lparr>fc_msg_id = msg_id, fc_idx = of_nat (data_count + q), fc_cnt = cnt,
             fc_data_cnt = d_cnt, fc_real_size = of_nat width, fc_data = take width (parities ! q),
             fc_width = width, fc_ackable = True\<rparr>) [0..<parity_count]
      in (data_calls @ parity_calls, parities, p))"

section \<open>Parity count and message ids\<close>

lemma parity_count_bounds:
  "1 \<le> unat (compute_parity_count_for r n) \<and> unat (compute_parity_count_for r n) \<le> 3"
proof -
  have u: "(1 :: u16) \<le> p \<longleftrightarrow> 1 \<le> unat p" "p \<le> (3 :: u16) \<longleftrightarrow> unat p \<le> 3" for p
    by (simp_all add: word_le_nat_alt)
  have "1 \<le> compute_parity_count_for r n" "compute_parity_count_for r n \<le> 3"
    by (auto simp: compute_parity_count_for_def Let_def not_less simp del: word_less_1)
  then show ?thesis by (simp only: u)
qed

lemma next_msg_id_unfold:
  "next_msg_id c = (if c AND 0x7FFFFFFF = 0 then (1, c + 2) else (c AND 0x7FFFFFFF, c + 1))"
proof (cases "c AND 0x7FFFFFFF = 0")
  case True
  have "next_msg_id c = next_msg_id (c + 1)" using True by (subst next_msg_id.simps) (simp add: Let_def)
  also have "\<dots> = (1, c + 1 + 1)"
    using msg_id_mask_Suc [OF True] by (subst next_msg_id.simps) (simp add: Let_def)
  finally show ?thesis using True by (simp add: add.assoc)
qed (subst next_msg_id.simps, simp add: Let_def)

lemma next_msg_id_nonzero: "fst (next_msg_id c) \<noteq> 0"
  by (simp add: next_msg_id_unfold)

section \<open>Cutting the buffer\<close>

lemma frag_payload_pos: "4 < frag_payload_for mtu"
  by (auto simp: frag_payload_for_def Let_def)

lemma length_full_buffer [simp]: "length (full_buffer payload) = 4 + length payload"
  by (simp add: full_buffer_def)

lemma data_count_cover:
  assumes "0 < f" "0 < tot"
  shows "tot \<le> data_count_for tot f * f" and "(data_count_for tot f - 1) * f < tot"
    and "0 < data_count_for tot f"
proof -
  let ?n = "(tot + f - 1) div f"
  have e: "tot + f - 1 = ?n * f + (tot + f - 1) mod f" and m: "(tot + f - 1) mod f < f"
    using assms by simp_all
  then have "tot \<le> ?n * f" by linarith
  moreover have "0 < ?n" using assms by (simp add: div_greater_zero_iff)
  moreover have "?n * f - f < tot" using e assms by linarith
  ultimately show "tot \<le> data_count_for tot f * f" "(data_count_for tot f - 1) * f < tot"
    "0 < data_count_for tot f"
    using assms by (auto simp: data_count_for_def Let_def diff_mult_distrib)
qed

lemma length_spans_of [simp]: "length (spans_of full f n) = n"
  by (simp add: spans_of_def)

lemma nth_spans_of: "i < n \<Longrightarrow> spans_of full f n ! i = take f (drop (i * f) full)"
  by (simp add: spans_of_def Let_def min_def)

lemma spans_of_Suc: "spans_of full f (Suc n) = spans_of full f n @ [take f (drop (n * f) full)]"
  by (simp add: spans_of_def Let_def min_def)

lemma concat_spans: "concat (spans_of full f n) = take (n * f) full"
  by (induction n) (simp_all add: spans_of_def [of _ _ 0] spans_of_Suc take_add [symmetric] add.commute)

lemma span_full:
  "i < n - 1 \<Longrightarrow> (n - 1) * f < length full \<Longrightarrow> length (spans_of full f n ! i) = f"
proof -
  assume i: "i < n - 1" and l: "(n - 1) * f < length full"
  have "Suc i * f \<le> (n - 1) * f" using i by (intro mult_le_mono1) simp
  with l have "i * f + f \<le> length full" by simp
  with i show ?thesis by (simp add: nth_spans_of)
qed

end
