(* ===== verification/Reassembler.thy ===== *)
theory Reassembler
  imports Fragmenter
begin

text \<open>
  The inbound data path, \<open>tight/src/reassembler.cpp\<close>: sequence gap tracking, late-packet
  accounting, fragment collection, recovery by Reed-Solomon decoding and delivery.
  \<open>handle_data\<close> returns the peer and the messages passed to the \<open>deliver\<close> callback; reading the
  fragment vector out of range, which C++ leaves undefined, is \<open>UB\<close>.
  The lemmas lead to the delivery theorem: of the fragments of one message, in any order and with
  duplicates, the first n distinct ones deliver the payload, exactly once.
\<close>

section \<open>Receive-sequence tracking\<close>

definition log_oversize_drop :: "timepoint \<Rightarrow> peer \<Rightarrow> peer" where
  "log_oversize_drop now p =
     (if now - m_oversize_log_ts p < sec 1 then p else p\<lparr>m_oversize_log_ts := now\<rparr>)"

definition account_late :: "int \<Rightarrow> u32 \<Rightarrow> real \<Rightarrow> peer \<Rightarrow> peer" where
  "account_late transit_us rtt_us late_multiplier p =
     (if 0 \<le> transit_us then
        let p = p\<lparr>m_transit_samples := m_transit_samples p + 1\<rparr>;
            threshold_us = \<lfloor>late_multiplier * (if 0 < rtt_us then real (unat rtt_us) else 10000)\<rfloor>
        in if threshold_us < transit_us then p\<lparr>m_late_samples := m_late_samples p + 1\<rparr> else p
      else p)"

definition note_missing :: "timepoint \<Rightarrow> u32 \<Rightarrow> peer \<Rightarrow> peer" where
  "note_missing now g p =
     (if g \<notin> set (m_recv_seqs p) then p\<lparr>m_missing_seqs := om_emplace g now (m_missing_seqs p)\<rparr> else p)"

definition track_sequence :: "timepoint \<Rightarrow> u32 \<Rightarrow> peer \<Rightarrow> peer" where
  "track_sequence now seq p =
     (if seq = 0 then p
      else if \<not> m_seq_initialized p then p\<lparr>m_next_expected_seq := seq + 1, m_seq_initialized := True\<rparr>
      else if m_next_expected_seq p \<le> seq then
        let p = fold (note_missing now) (map of_nat [unat (m_next_expected_seq p)..<unat seq]) p;
            p = p\<lparr>m_recv_seqs := insort_insert seq (m_recv_seqs p)\<rparr>
        in drain_expected p
      else drain_expected (p\<lparr>m_missing_seqs := om_erase seq (m_missing_seqs p)\<rparr>))"

section \<open>Assembling a message\<close>

text \<open>A data fragment with its recorded size; the code uses \<open>min(size, fragment.size())\<close> bytes of it.\<close>

type_synonym piece = "nat \<times> bytes"

definition piece_len :: "piece \<Rightarrow> nat" where
  "piece_len x = min (fst x) (length (snd x))"

definition pieces :: "incoming_message \<Rightarrow> nat \<Rightarrow> piece list" where
  "pieces inm data_count = map (\<lambda>i. (unat (m_sizes inm ! i), the (m_fragments inm ! i))) [0..<data_count]"

fun prefix_loop :: "piece list \<Rightarrow> nat \<Rightarrow> bytes \<Rightarrow> bytes" where
  "prefix_loop [] need pfx = pfx"
| "prefix_loop (x # xs) need pfx =
     (if 0 < need then
        let tk = min (piece_len x) need
        in prefix_loop xs (need - tk) (write_at pfx (4 - need) (take tk (snd x)))
      else pfx)"

fun copy_loop :: "piece list \<Rightarrow> nat \<Rightarrow> nat \<Rightarrow> nat \<Rightarrow> bytes \<Rightarrow> bytes" where
  "copy_loop [] tot skip out_off result = result"
| "copy_loop (x # xs) tot skip out_off result =
     (if out_off < tot then
        let n = piece_len x in
        if n \<le> skip then copy_loop xs tot (skip - n) out_off result
        else
          let src = drop skip (snd x);
              n = n - skip;
              n = (if tot < out_off + n then tot - out_off else n)
          in copy_loop xs tot 0 (out_off + n) (write_at result out_off (take n src))
      else result)"

definition build_msg :: "timepoint \<Rightarrow> nat \<Rightarrow> peer \<Rightarrow> incoming_message \<Rightarrow> nat \<Rightarrow> peer \<times> bytes" where
  "build_msg now max_message_bytes p inm data_count =
     (let ps = pieces inm data_count;
          stream_len = sum_list (map piece_len ps)
      in if stream_len < 4 then (p, [])
         else
           let pfx = prefix_loop ps 4 [0, 0, 0, 0];
               tot = unat (to_be32 (load32 pfx))
           in if max_message_bytes < tot
              then ((if m_drop_log p then log_oversize_drop now p else p), [])
              else
                let tot = (if stream_len - 4 < tot then stream_len - 4 else tot)
                in (p, copy_loop ps tot 4 0 (replicate tot 0)))"

definition count_have :: "'a option list \<Rightarrow> nat \<Rightarrow> nat" where
  "count_have frags n = length (filter (\<lambda>i. frags ! i \<noteq> None) [0..<n])"

definition max_width :: "bytes option list \<Rightarrow> nat" where
  "max_width frags = fold (\<lambda>f w. case f of Some b \<Rightarrow> max w (length b) | None \<Rightarrow> w) frags 0"

definition backfill :: "nat \<Rightarrow> bytes option list \<Rightarrow> nat \<Rightarrow> incoming_message \<Rightarrow> incoming_message" where
  "backfill width data_frags i inm =
     (if m_fragments inm ! i = None \<and> data_frags ! i \<noteq> None
      then inm\<lparr>m_fragments := (m_fragments inm)[i := data_frags ! i],
               m_sizes := (m_sizes inm)[i := of_nat width]\<rparr>
      else inm)"

text \<open>The result is \<open>Some\<close> message for the return value true, \<open>None\<close> for false.\<close>

definition assemble_fec ::
  "timepoint \<Rightarrow> nat \<Rightarrow> peer \<Rightarrow> incoming_message \<Rightarrow> nat \<Rightarrow> nat \<Rightarrow> nat \<Rightarrow> peer \<times> bytes option" where
  "assemble_fec now max_message_bytes p inm data_count parity_count multi =
     (if parity_count < multi then (p, None)
      else
        let width = max_width (m_fragments inm) in
        if width = 0 then (p, None)
        else
          let data_frags = map (\<lambda>i. m_fragments inm ! i) [0..<data_count];
              parities = map (\<lambda>q. (q, the (m_fragments inm ! (data_count + q))))
                (filter (\<lambda>q. data_count + q < length (m_fragments inm)
                           \<and> m_fragments inm ! (data_count + q) \<noteq> None) [0..<parity_count])
          in
          if length parities < multi then (p, None)
          else
            let (ok, data_frags) = rs_decode data_frags parities width in
            if \<not> ok then (p, None)
            else
              let inm = fold (backfill width data_frags) [0..<data_count] inm
              in apsnd Some (build_msg now max_message_bytes p inm data_count))"

definition try_assemble ::
  "timepoint \<Rightarrow> nat \<Rightarrow> peer \<Rightarrow> incoming_message \<Rightarrow> (peer \<times> bytes option) outcome" where
  "try_assemble now max_message_bytes p inm =
     (if m_total_count inm < 2 then Done (p, None)
      else
        let data_count = (if 0 < m_data_count inm then unat (m_data_count inm) else unat (m_total_count inm) - 1)
        in
        if length (m_fragments inm) < data_count then UB
        else
          let parity_count = unat (m_total_count inm) - data_count;
              have_n = count_have (m_fragments inm) data_count
          in
          if have_n = data_count then
            Done (apsnd Some (build_msg now max_message_bytes p inm data_count))
          else
            Done (assemble_fec now max_message_bytes p inm data_count parity_count (data_count - have_n)))"

definition store_fragment :: "timepoint \<Rightarrow> packet_header \<Rightarrow> bytes \<Rightarrow> incoming_message \<Rightarrow> incoming_message \<times> bool" where
  "store_fragment now h payload inm =
     (let cnt = fragment_count h; idx = unat (fragment_index h);
          inm = (if m_message_id inm = 0
                 then inm\<lparr>m_message_id := message_id h, m_total_count := cnt, m_data_count := flags h,
                          m_fragments := replicate (unat cnt) None, m_sizes := replicate (unat cnt) 0,
                          m_first_seen := now\<rparr>
                 else inm)
      in if m_total_count inm \<noteq> cnt then (inm, False)
         else if length (m_fragments inm) \<le> idx then (inm, False)
         else if m_fragments inm ! idx = None
         then (inm\<lparr>m_fragments := (m_fragments inm)[idx := Some payload],
                   m_sizes := (m_sizes inm)[idx := reserved h]\<rparr>, True)
         else (inm, True))"

definition collect_fragment ::
  "timepoint \<Rightarrow> nat \<Rightarrow> packet_header \<Rightarrow> bytes \<Rightarrow> peer \<Rightarrow> (peer \<times> bytes list) outcome" where
  "collect_fragment now max_message_bytes h payload p =
     (let mid = message_id h; max_fragments = max_message_bytes div 64 + 8 in
      if fragment_count h = 0 then Done (p, [])
      else if map_of (m_completed p) mid \<noteq> None then Done (p, [])
      else if fragment_count h \<le> fragment_index h then Done (p, [])
      else if max_fragments < unat (fragment_count h)
      then Done ((if m_drop_log p then log_oversize_drop now p else p), [])
      else
        let inm = (case map_of (m_incoming p) mid of Some inm \<Rightarrow> inm | None \<Rightarrow> new_incoming);
            (inm, stored) = store_fragment now h payload inm;
            p = p\<lparr>m_incoming := om_set mid inm (m_incoming p)\<rparr>
        in
        if \<not> stored then Done (p, [])
        else
          (case try_assemble now max_message_bytes p inm of
             UB \<Rightarrow> UB
           | Done (p, None) \<Rightarrow> Done (p, [])
           | Done (p, Some msg) \<Rightarrow>
               Done (p\<lparr>m_completed := om_set mid now (m_completed p),
                       m_incoming := om_erase mid (m_incoming p)\<rparr>, [msg])))"

definition handle_data ::
  "timepoint \<Rightarrow> u64 \<Rightarrow> u32 \<Rightarrow> real \<Rightarrow> nat \<Rightarrow> packet_header \<Rightarrow> bytes \<Rightarrow> peer \<Rightarrow> (peer \<times> bytes list) outcome" where
  "handle_data now unix_ms rtt_us late_multiplier max_message_bytes h payload p =
     (let transit_us = transit_time_us p (tick h) unix_ms;
          p = account_late transit_us rtt_us late_multiplier p;
          p = track_sequence now (sequence h) p
      in collect_fragment now max_message_bytes h payload p)"

section \<open>The assembled stream\<close>

definition stream_of :: "piece list \<Rightarrow> bytes" where
  "stream_of xs = concat (map (\<lambda>x. take (fst x) (snd x)) xs)"

lemma length_piece: "length (take (fst x) (snd x)) = piece_len x"
  by (simp add: piece_len_def min.commute)

lemma stream_of_simps [simp]: "stream_of [] = []" "stream_of (x # xs) = take (fst x) (snd x) @ stream_of xs"
  by (simp_all add: stream_of_def)

lemma length_stream: "length (stream_of xs) = sum_list (map piece_len xs)"
  by (induction xs) (simp_all add: piece_len_def min.commute)

lemma prefix_loop_spec:
  "need \<le> length (stream_of xs) \<Longrightarrow> need \<le> 4 \<Longrightarrow> length pfx = 4 \<Longrightarrow>
   prefix_loop xs need pfx = take (4 - need) pfx @ take need (stream_of xs)"
proof (induction xs arbitrary: need pfx)
  case (Cons x xs)
  show ?case
  proof (cases "0 < need")
    case True
    let ?t = "min (piece_len x) need" and ?w = "write_at pfx (4 - need) (take (min (piece_len x) need) (snd x))"
    have lt: "length (take ?t (snd x)) = ?t" by (simp add: piece_len_def)
    have w: "?w = take (4 - need) pfx @ take ?t (snd x) @ drop (4 - need + ?t) pfx"
      using lt by (simp add: write_at_def)
    then have "length ?w = 4" "take (4 - (need - ?t)) ?w = take (4 - need) pfx @ take ?t (snd x)"
      using lt Cons.prems by simp_all
    moreover have "need - ?t \<le> length (stream_of xs)"
      using Cons.prems(1) length_stream [of "x # xs"] length_stream [of xs] by simp
    ultimately have "prefix_loop xs (need - ?t) ?w
        = take (4 - need) pfx @ take ?t (snd x) @ take (need - ?t) (stream_of xs)"
      using Cons.IH [of "need - ?t" ?w] Cons.prems(2) by simp
    moreover have "take need (take (fst x) (snd x) @ stream_of xs)
        = take ?t (snd x) @ take (need - ?t) (stream_of xs)"
      using length_piece [of x] by (auto simp: min_def piece_len_def split: if_splits)
    ultimately show ?thesis using True by (simp add: Let_def)
  qed (use Cons.prems in simp)
qed simp

lemma copy_loop_spec:
  "tot - out_off \<le> length (stream_of xs) - skip \<Longrightarrow> out_off \<le> tot \<Longrightarrow> length result = tot \<Longrightarrow>
   copy_loop xs tot skip out_off result = take out_off result @ take (tot - out_off) (drop skip (stream_of xs))"
proof (induction xs arbitrary: skip out_off result)
  case (Cons x xs)
  note lp = length_piece [of x]
  show ?case
  proof (cases "out_off < tot")
    case True
    show ?thesis
    proof (cases "piece_len x \<le> skip")
      case s: True
      then have "drop skip (stream_of (x # xs)) = drop (skip - piece_len x) (stream_of xs)"
        using lp by simp
      then show ?thesis using Cons True s lp by (simp add: Let_def)
    next
      case s: False
      define n where "n = (if tot < out_off + (piece_len x - skip) then tot - out_off else piece_len x - skip)"
      define r where "r = write_at result out_off (take n (drop skip (snd x)))"
      have n: "n \<le> piece_len x - skip" "out_off + n \<le> tot" using True by (auto simp: n_def)
      have pl: "piece_len x \<le> length (snd x)" "piece_len x \<le> fst x" by (simp_all add: piece_len_def)
      have ln: "length (take n (drop skip (snd x))) = n" using n pl by simp
      have lr: "length r = tot" using Cons.prems ln n by (simp add: r_def)
      have tr: "take (out_off + n) r = take out_off result @ take n (drop skip (snd x))"
        using ln n Cons.prems by (simp add: r_def write_at_def)
      have dr: "drop skip (stream_of (x # xs)) = drop skip (take (fst x) (snd x)) @ stream_of xs"
        using s lp by simp
      have tk: "take n (drop skip (take (fst x) (snd x))) = take n (drop skip (snd x))"
        using n pl s by (simp add: take_drop min_def)
      have rest: "tot - (out_off + n) \<le> length (stream_of xs) - 0"
        using Cons.prems(1) lp s unfolding n_def by (auto split: if_splits)
      have "copy_loop xs tot 0 (out_off + n) r = take (out_off + n) r @ take (tot - (out_off + n)) (stream_of xs)"
        using Cons.IH [OF rest n(2) lr] by simp
      moreover have "take (tot - out_off) (drop skip (stream_of (x # xs)))
          = take n (drop skip (snd x)) @ take (tot - (out_off + n)) (stream_of xs)"
      proof (cases "n = piece_len x - skip")
        case True
        then have "length (drop skip (take (fst x) (snd x))) = n" using lp by simp
        then show ?thesis using n tk unfolding dr by simp
      next
        case False
        then have "n = tot - out_off" by (simp add: n_def split: if_splits)
        then show ?thesis using tk n lp unfolding dr by simp
      qed
      moreover have "copy_loop (x # xs) tot skip out_off result = copy_loop xs tot 0 (out_off + n) r"
        unfolding r_def n_def using True s by (simp add: Let_def)
      ultimately show ?thesis unfolding tr by (simp only: append_assoc)
    qed
  qed (use Cons.prems in simp)
qed simp

text \<open>When the length prefix is in bounds, the message is the stream between the prefix and that length.\<close>

lemma build_msg_stream:
  assumes "stream_of (pieces inm n) = mem32 (to_be32 v) @ body" and "unat v \<le> length body" and "unat v \<le> maxb"
  shows "build_msg now maxb p inm n = (p, take (unat v) body)"
proof -
  let ?ps = "pieces inm n"
  have l: "sum_list (map piece_len ?ps) = 4 + length body"
    using assms(1) length_stream [of ?ps] by simp
  have "prefix_loop ?ps 4 [0, 0, 0, 0] = mem32 (to_be32 v)"
    using prefix_loop_spec [of 4 ?ps "[0, 0, 0, 0]"] assms(1) by simp
  moreover have "copy_loop ?ps (unat v) 4 0 (replicate (unat v) 0) = take (unat v) body"
    using copy_loop_spec [of "unat v" 0 ?ps 4 "replicate (unat v) 0"] assms(1,2) by simp
  ultimately show ?thesis
    using assms(2,3) l by (simp add: build_msg_def Let_def)
qed

section \<open>The fragments of one message\<close>

text \<open>
  \<open>D\<close> are the data fragments before padding, \<open>w\<close> the common width on the wire, \<open>pc\<close> the number of
  parity fragments. \<open>mfrag\<close> and \<open>msize\<close> are the payload and recorded size of fragment \<open>i\<close>.
\<close>

definition padded :: "bytes list \<Rightarrow> nat \<Rightarrow> bytes list" where
  "padded D w = map (\<lambda>d. resize d w) D"

definition mfrag :: "bytes list \<Rightarrow> nat \<Rightarrow> nat \<Rightarrow> nat \<Rightarrow> bytes" where
  "mfrag D pc w i = (if i < length D then resize (D ! i) w else rs_encode (padded D w) pc w ! (i - length D))"

definition msize :: "bytes list \<Rightarrow> nat \<Rightarrow> nat \<Rightarrow> nat" where
  "msize D w i = (if i < length D then length (D ! i) else w)"

definition msg_ok :: "bytes list \<Rightarrow> nat \<Rightarrow> nat \<Rightarrow> bytes \<Rightarrow> bool" where
  "msg_ok D pc w payload \<longleftrightarrow> 0 < length D \<and> length D \<le> 255 \<and> 1 \<le> pc \<and> pc \<le> 3 \<and> 0 < w \<and> w < 65536
     \<and> (\<forall>i < length D. length (D ! i) \<le> w) \<and> (\<forall>i < length D - 1. length (D ! i) = w)
     \<and> concat D = full_buffer payload \<and> length payload < 4294967296"

definition view :: "bytes list \<Rightarrow> nat \<Rightarrow> nat \<Rightarrow> nat set \<Rightarrow> bytes option list" where
  "view D pc w S = map (\<lambda>i. if i \<in> S then Some (mfrag D pc w i) else None) [0..<length D + pc]"

definition partial_of :: "u32 \<Rightarrow> bytes list \<Rightarrow> nat \<Rightarrow> nat \<Rightarrow> nat set \<Rightarrow> incoming_message \<Rightarrow> bool" where
  "partial_of mid D pc w S inm \<longleftrightarrow> m_message_id inm = mid \<and> m_total_count inm = of_nat (length D + pc)
     \<and> m_data_count inm = of_nat (length D) \<and> m_fragments inm = view D pc w S
     \<and> m_sizes inm = map (\<lambda>i. if i \<in> S then of_nat (msize D w i) else 0) [0..<length D + pc]"

lemma take_resize: "length d \<le> w \<Longrightarrow> take (length d) (resize d w) = d"
  by (simp add: resize_def min_def)

lemma resize_id [simp]: "length d = w \<Longrightarrow> resize d w = d"
  by (simp add: resize_def)

lemma resize_split: "length d \<le> w \<Longrightarrow> \<exists>z. resize d w = d @ z"
  by (metis append_take_drop_id take_resize)

lemma stream_padded:
  assumes "D \<noteq> []" "\<forall>i < length D. length (D ! i) \<le> w" "\<forall>i < length D - 1. length (D ! i) = w"
    and s: "\<forall>i < length D. s i = length (D ! i) \<or> s i = w"
  shows "\<exists>z. concat (map (\<lambda>i. take (s i) (resize (D ! i) w)) [0..<length D]) = concat D @ z"
proof -
  obtain m where m: "length D = Suc m" using assms(1) by (cases D) auto
  have "s i = w \<and> length (D ! i) = w" if "i < m" for i
    using that m s assms(3) by (metis diff_Suc_1 less_Suc_eq)
  then have "map (\<lambda>i. take (s i) (resize (D ! i) w)) [0..<m] = take m D"
    using m by (intro nth_equalityI) auto
  moreover have "\<exists>z. take (s m) (resize (D ! m) w) = D ! m @ z"
    using s m assms(2) resize_split [of "D ! m" w] take_resize [of "D ! m" w]
    by (metis append.right_neutral length_resize lessI take_all_iff order.refl)
  moreover have "concat D = concat (take m D) @ D ! m"
    using m by (metis append.right_neutral concat.simps concat_append lessI take_Suc_conv_app_nth take_all_iff order.refl)
  ultimately show ?thesis using m by auto
qed

text \<open>A message whose data fragments are all present, padded or not, is built from the stream.\<close>

lemma build_msg_complete:
  assumes ok: "msg_ok D pc w payload" and max: "length payload \<le> maxb"
    and fr: "\<forall>i < length D. m_fragments inm ! i = Some (resize (D ! i) w)"
    and sz: "\<forall>i < length D. unat (m_sizes inm ! i) = length (D ! i) \<or> unat (m_sizes inm ! i) = w"
  shows "build_msg now maxb p inm (length D) = (p, payload)"
proof -
  let ?v = "of_nat (length payload) :: u32"
  have v: "unat ?v = length payload" using ok by (simp add: msg_ok_def unat_of_nat_u32)
  have "stream_of (pieces inm (length D))
      = concat (map (\<lambda>i. take (unat (m_sizes inm ! i)) (resize (D ! i) w)) [0..<length D])"
    using fr unfolding stream_of_def pieces_def map_map by (intro arg_cong [where f = concat]) simp
  then obtain z where "stream_of (pieces inm (length D)) = concat D @ z"
    using stream_padded [of D w "\<lambda>i. unat (m_sizes inm ! i)"] ok sz by (auto simp: msg_ok_def)
  then have "stream_of (pieces inm (length D)) = mem32 (to_be32 ?v) @ (payload @ z)"
    using ok by (simp add: msg_ok_def full_buffer_def)
  from build_msg_stream [OF this] show ?thesis using v max by simp
qed

lemma nth_view: "i < length D + pc \<Longrightarrow> view D pc w S ! i = (if i \<in> S then Some (mfrag D pc w i) else None)"
  by (simp add: view_def)

lemma count_have_view:
  "m \<le> length D + pc \<Longrightarrow> count_have (view D pc w S) m = card (S \<inter> {..<m})"
  unfolding count_have_def
  by (subst distinct_card [symmetric]) (auto simp: nth_view intro!: arg_cong [where f = card] split: if_splits)

lemma length_view [simp]: "length (view D pc w S) = length D + pc"
  by (simp add: view_def)

lemma length_padded [simp]: "length (padded D w) = length D"
  by (simp add: padded_def)

lemma length_rs_encode_nth: "0 < w \<Longrightarrow> p < pc \<Longrightarrow> length (rs_encode D pc w ! p) = w"
proof -
  assume a: "0 < w" "p < pc"
  have "length (fold (\<lambda>j buf. gf_mul_add buf (D ! j) (coef p j) w) xs z) = length z" for xs z
    by (induction xs arbitrary: z) auto
  with a show ?thesis by (simp add: rs_encode_def encode_into_nth parity_buf_def)
qed

lemma length_mfrag: "0 < w \<Longrightarrow> i < length D + pc \<Longrightarrow> length (mfrag D pc w i) = w"
  by (auto simp: mfrag_def length_rs_encode_nth)

lemma max_width_le:
  "\<forall>f \<in> set fs. pred_option (\<lambda>b. length b = w) f \<Longrightarrow> v \<le> w \<Longrightarrow>
   fold (\<lambda>f w. case f of Some b \<Rightarrow> max w (length b) | None \<Rightarrow> w) fs v
     = (if \<exists>b. Some b \<in> set fs then w else v)"
  by (induction fs arbitrary: v) (auto split: option.splits)

lemma max_width_view:
  assumes "0 < w" "S \<subseteq> {..<length D + pc}"
  shows "max_width (view D pc w S) = (if S = {} then 0 else w)"
proof -
  have "\<forall>f \<in> set (view D pc w S). pred_option (\<lambda>b. length b = w) f"
    using assms(1) by (auto simp: view_def length_mfrag)
  moreover have "(\<exists>b. Some b \<in> set (view D pc w S)) = (S \<noteq> {})"
    using assms(2) by (fastforce simp: in_set_conv_nth nth_view split: if_splits)
  ultimately show ?thesis
    unfolding max_width_def using max_width_le [of "view D pc w S" w 0] by simp
qed

section \<open>Assembling from a partial message\<close>

lemma backfill_fold:
  fixes df
  defines "hit \<equiv> \<lambda>inm i. m_fragments inm ! i = None \<and> df ! i \<noteq> None"
  assumes "length (m_fragments inm) = N" "length (m_sizes inm) = N" "k \<le> N"
  shows "let r = fold (backfill w df) [0..<k] inm
    in length (m_fragments r) = N \<and> length (m_sizes r) = N \<and>
       (\<forall>i < N. m_fragments r ! i = (if i < k \<and> hit inm i then df ! i else m_fragments inm ! i)
              \<and> m_sizes r ! i = (if i < k \<and> hit inm i then of_nat w else m_sizes inm ! i))"
  using assms(4)
proof (induction k)
  case 0
  then show ?case using assms by simp
next
  case (Suc k)
  let ?r = "fold (backfill w df) [0..<k] inm"
  have IH: "length (m_fragments ?r) = N" "length (m_sizes ?r) = N"
    "\<forall>i < N. m_fragments ?r ! i = (if i < k \<and> hit inm i then df ! i else m_fragments inm ! i)
            \<and> m_sizes ?r ! i = (if i < k \<and> hit inm i then of_nat w else m_sizes inm ! i)"
    using Suc by (simp_all add: Let_def)
  have f: "fold (backfill w df) [0..<Suc k] inm = backfill w df k ?r"
    by simp
  show ?case unfolding f Let_def using IH Suc.prems
    by (auto simp: backfill_def hit_def less_Suc_eq nth_list_update)
qed

lemma view_data:
  "map (\<lambda>i. view D pc w S ! i) [0..<length D] = map (\<lambda>i. if i \<in> S then Some (padded D w ! i) else None) [0..<length (padded D w)]"
  by (simp add: nth_view mfrag_def padded_def)

lemma view_parity:
  "map (\<lambda>q. (q, the (view D pc w S ! (length D + q))))
     (filter (\<lambda>q. length D + q < length (view D pc w S) \<and> view D pc w S ! (length D + q) \<noteq> None) [0..<pc])
   = map (\<lambda>q. (q, rs_encode (padded D w) pc w ! q)) (filter (\<lambda>q. length (padded D w) + q \<in> S) [0..<pc])"
proof -
  have "filter (\<lambda>q. length D + q < length (view D pc w S) \<and> view D pc w S ! (length D + q) \<noteq> None) [0..<pc]
      = filter (\<lambda>q. length D + q \<in> S) [0..<pc]"
    by (rule filter_cong) (auto simp: nth_view split: if_splits)
  then show ?thesis by (auto simp: nth_view mfrag_def)
qed

lemma card_split:
  assumes "S \<subseteq> {..<n + pc}"
  shows "card S = card (S \<inter> {..<n}) + length (filter (\<lambda>q. n + q \<in> S) [0..<pc])"
proof -
  have fin: "finite S" using assms finite_subset by blast
  have "length (filter (\<lambda>q. n + q \<in> S) [0..<pc]) = card {q. q < pc \<and> n + q \<in> S}"
    by (subst distinct_card [symmetric]) (auto intro!: arg_cong [where f = card])
  also have "\<dots> = card ((+) n ` {q. q < pc \<and> n + q \<in> S})" by (rule card_image [symmetric]) simp
  also have "(+) n ` {q. q < pc \<and> n + q \<in> S} = S - {..<n}"
    using assms by (auto simp: image_iff subset_iff) (metis add_less_cancel_left le_Suc_ex linorder_not_less)
  finally show ?thesis using fin by (metis card_Int_Diff)
qed

lemma loss_card:
  assumes "S \<subseteq> {..<n + pc}"
  shows "card {i. i < n + pc \<and> i \<notin> S} = n + pc - card S"
proof -
  have "{i. i < n + pc \<and> i \<notin> S} = {..<n + pc} - S" by auto
  then show ?thesis using assms card_Diff_subset [of S "{..<n + pc}"] finite_subset [OF assms] by simp
qed

lemma decode_view:
  assumes ok: "msg_ok D pc w payload" and S: "S \<subseteq> {..<length D + pc}" "length D \<le> card S"
  shows "rs_decode (map (\<lambda>i. view D pc w S ! i) [0..<length D])
      (map (\<lambda>q. (q, the (view D pc w S ! (length D + q))))
        (filter (\<lambda>q. length D + q < length (view D pc w S) \<and> view D pc w S ! (length D + q) \<noteq> None) [0..<pc])) w
    = (True, map (\<lambda>i. Some (resize (D ! i) w)) [0..<length D])"
proof -
  have "rs_decode (map (\<lambda>i. view D pc w S ! i) [0..<length D])
      (map (\<lambda>q. (q, the (view D pc w S ! (length D + q))))
        (filter (\<lambda>q. length D + q < length (view D pc w S) \<and> view D pc w S ! (length D + q) \<noteq> None) [0..<pc])) w
    = (True, filled (padded D w) w
        (map (\<lambda>i. if i \<in> S then Some (padded D w ! i) else None) [0..<length (padded D w)]))"
    unfolding view_data view_parity
    using ok S loss_card [OF S(1)] by (intro rs.survives_loss) (auto simp: msg_ok_def)
  also have "filled (padded D w) w (map (\<lambda>i. if i \<in> S then Some (padded D w ! i) else None) [0..<length (padded D w)])
      = map (\<lambda>i. Some (resize (D ! i) w)) [0..<length D]"
    by (auto simp: filled_def padded_def)
  finally show ?thesis .
qed

lemma try_assemble_partial:
  assumes ok: "msg_ok D pc w payload" and max: "length payload \<le> maxb"
    and P: "partial_of mid D pc w S inm" and S: "S \<subseteq> {..<length D + pc}"
  shows "try_assemble now maxb p inm = Done (p, if length D \<le> card S then Some payload else None)"
proof -
  let ?n = "length D" and ?N = "length D + pc"
  have b: "0 < ?n" "?n \<le> 255" "1 \<le> pc" "pc \<le> 3" "0 < w" "w < 65536"
    "\<forall>i < ?n. length (D ! i) \<le> w" using ok by (simp_all add: msg_ok_def)
  have fr: "m_fragments inm = view D pc w S" and szs: "m_sizes inm = map (\<lambda>i. if i \<in> S then of_nat (msize D w i) else 0) [0..<?N]"
    using P by (simp_all add: partial_of_def)
  have u: "unat (m_total_count inm) = ?N" "unat (m_data_count inm) = ?n"
    using P b by (simp_all add: partial_of_def unat_of_nat_u16 del: of_nat_add)
  have "2 \<le> ?N" using b by linarith
  then have t: "\<not> m_total_count inm < 2" "0 < m_data_count inm"
    using u b(1) by (simp_all add: word_less_nat_alt)
  have sz: "unat (of_nat (msize D w i) :: u16) = length (D ! i)" if "i < ?n" for i
    using b that by (auto simp: msize_def unat_of_nat_u16 dest: spec [of _ i])
  define k where "k = card (S \<inter> {..<?n})"
  define q where "q = length (filter (\<lambda>q. ?n + q \<in> S) [0..<pc])"
  have card: "card S = k + q" using card_split [OF S] by (simp add: k_def q_def)
  have kn: "k \<le> ?n" unfolding k_def using card_mono [of "{..<?n}" "S \<inter> {..<?n}"] by simp
  have qpc: "q \<le> pc" unfolding q_def using length_filter_le [of _ "[0..<pc]"] by simp
  have cnt: "count_have (m_fragments inm) ?n = k" by (simp add: fr count_have_view k_def)
  have par: "length (filter (\<lambda>q. ?n + q < length (m_fragments inm) \<and> m_fragments inm ! (?n + q) \<noteq> None) [0..<pc]) = q"
    unfolding q_def fr by (intro arg_cong [where f = length] filter_cong) (auto simp: nth_view split: if_splits)
  have wd: "max_width (m_fragments inm) = (if S = {} then 0 else w)" by (simp add: fr max_width_view b S)
  show ?thesis
  proof (cases "k = ?n")
    case True
    then have sub: "{..<?n} \<subseteq> S"
      unfolding k_def using card_subset_eq [of "{..<?n}" "S \<inter> {..<?n}"] by auto
    have "build_msg now maxb p inm ?n = (p, payload)"
      using sub sz b by (intro build_msg_complete [OF ok max]) (auto simp: fr szs nth_view mfrag_def subset_iff)
    then show ?thesis using t u cnt True card by (simp add: try_assemble_def Let_def fr)
  next
    case False
    note k = False
    show ?thesis
    proof (cases "?n \<le> card S")
      case False
      moreover have "\<not> length (m_fragments inm) < ?n" by (simp add: fr)
      ultimately show ?thesis using k t u cnt card kn par wd b(5)
        by (auto simp: try_assemble_def assemble_fec_def Let_def)
    next
      case True
      then have S0: "S \<noteq> {}" using b by auto
      define r where "r = fold (backfill w (map (\<lambda>i. Some (resize (D ! i) w)) [0..<?n])) [0..<?n] inm"
      have R: "\<forall>i < ?n. m_fragments r ! i = Some (resize (D ! i) w)
          \<and> m_sizes r ! i = (if i \<in> S then of_nat (msize D w i) else of_nat w)"
        using backfill_fold [of inm ?N ?n w "map (\<lambda>i. Some (resize (D ! i) w)) [0..<?n]"]
        by (auto simp: r_def Let_def fr szs nth_view mfrag_def)
      have bm: "build_msg now maxb p r ?n = (p, payload)"
        using R sz b by (intro build_msg_complete [OF ok max]) (auto simp: unat_of_nat_u16)
      show ?thesis
        using k t u cnt card kn True qpc wd b(5) S0 par bm decode_view [OF ok S True]
        by (simp add: try_assemble_def assemble_fec_def Let_def fr r_def)
    qed
  qed
qed

section \<open>Receiving the fragments of one message\<close>

text \<open>A received datagram with the clock readings and the RTT at its arrival.\<close>

type_synonym arrival = "timepoint \<times> u64 \<times> u32 \<times> packet_header \<times> bytes"

fun receive_all :: "real \<Rightarrow> nat \<Rightarrow> arrival list \<Rightarrow> peer \<Rightarrow> (peer \<times> bytes list) outcome" where
  "receive_all mult maxb [] p = Done (p, [])"
| "receive_all mult maxb ((now, unix_ms, rtt_us, h, payload) # as) p =
     (case handle_data now unix_ms rtt_us mult maxb h payload p of
        UB \<Rightarrow> UB
      | Done (p, msgs) \<Rightarrow>
          (case receive_all mult maxb as p of UB \<Rightarrow> UB | Done (p, msgs') \<Rightarrow> Done (p, msgs @ msgs')))"

definition carries :: "u32 \<Rightarrow> bytes list \<Rightarrow> nat \<Rightarrow> nat \<Rightarrow> nat \<Rightarrow> packet_header \<Rightarrow> bytes \<Rightarrow> bool" where
  "carries mid D pc w i h payload \<longleftrightarrow> i < length D + pc \<and> message_id h = mid
     \<and> fragment_index h = of_nat i \<and> fragment_count h = of_nat (length D + pc)
     \<and> flags h = of_nat (length D) \<and> reserved h = of_nat (msize D w i) \<and> payload = mfrag D pc w i"

text \<open>What the receiver holds of message \<open>mid\<close> once the fragments \<open>S\<close> have arrived.\<close>

definition holds :: "u32 \<Rightarrow> bytes list \<Rightarrow> nat \<Rightarrow> nat \<Rightarrow> nat set \<Rightarrow> peer \<Rightarrow> bool" where
  "holds mid D pc w S p \<longleftrightarrow> om_wf (m_incoming p) \<and> om_wf (m_completed p) \<and>
     (if length D \<le> card S then map_of (m_completed p) mid \<noteq> None
      else map_of (m_completed p) mid = None \<and>
        (if S = {} then map_of (m_incoming p) mid = None
         else \<exists>inm. map_of (m_incoming p) mid = Some inm \<and> partial_of mid D pc w S inm))"

lemma fold_note_missing:
  "m_incoming (fold (note_missing now) gs p) = m_incoming p \<and> m_completed (fold (note_missing now) gs p) = m_completed p"
  by (induction gs arbitrary: p) (simp_all add: note_missing_def)

lemma accounting_frame [simp]:
  "m_incoming (account_late t r m p) = m_incoming p" "m_completed (account_late t r m p) = m_completed p"
  "m_incoming (track_sequence now s p) = m_incoming p" "m_completed (track_sequence now s p) = m_completed p"
  by (simp_all add: account_late_def track_sequence_def drain_expected_def Let_def fold_note_missing
      split: prod.split)

lemma store_fragment_partial:
  assumes ok: "msg_ok D pc w payload" and c: "carries mid D pc w i h pl" and mid: "mid \<noteq> 0"
    and inm: "if S = {} then inm = new_incoming else partial_of mid D pc w S inm"
  shows "\<exists>inm'. store_fragment now h pl inm = (inm', True) \<and> partial_of mid D pc w (insert i S) inm'"
proof -
  have b: "length D \<le> 255" "pc \<le> 3" using ok by (simp_all add: msg_ok_def)
  have u: "unat (of_nat (length D + pc) :: u16) = length D + pc" "unat (of_nat i :: u16) = i"
    using b c by (simp_all add: unat_of_nat_u16 carries_def del: of_nat_add)
  define j where "j = (if m_message_id inm = 0
       then inm\<lparr>m_message_id := message_id h, m_total_count := fragment_count h, m_data_count := flags h,
              m_fragments := replicate (unat (fragment_count h)) None,
              m_sizes := replicate (unat (fragment_count h)) 0, m_first_seen := now\<rparr>
       else inm)"
  have j: "partial_of mid D pc w S j"
  proof (cases "S = {}")
    case True
    then show ?thesis using inm c u
      by (simp add: j_def new_incoming_def partial_of_def carries_def view_def map_replicate_const del: of_nat_add)
  next
    case False
    then show ?thesis using inm mid by (simp add: j_def partial_of_def)
  qed
  define r where "r = (if i \<in> S then j else j\<lparr>m_fragments := (m_fragments j)[i := Some pl],
    m_sizes := (m_sizes j)[i := reserved h]\<rparr>)"
  have i: "i < length D + pc" using c by (simp add: carries_def)
  have "store_fragment now h pl inm = (r, True)"
    using j c u i unfolding store_fragment_def Let_def j_def [symmetric] r_def
    by (auto simp: partial_of_def carries_def nth_view simp del: of_nat_add)
  moreover have "partial_of mid D pc w (insert i S) r"
  proof (cases "i \<in> S")
    case True
    then show ?thesis using j by (simp add: r_def insert_absorb)
  next
    case False
    then show ?thesis using j c i
      by (auto simp: r_def partial_of_def carries_def view_def intro!: nth_equalityI
          simp: nth_list_update)
  qed
  ultimately show ?thesis by blast
qed

lemma holds_step:
  assumes ok: "msg_ok D pc w payload" and max: "length payload \<le> maxb" "length D + pc \<le> maxb div 64 + 8"
    and c: "carries mid D pc w i h pl" and mid: "mid \<noteq> 0"
    and H: "holds mid D pc w S p" and S: "S \<subseteq> {..<length D + pc}"
  shows "\<exists>p'. handle_data now unix_ms rtt_us mult maxb h pl p
      = Done (p', if \<not> length D \<le> card S \<and> length D \<le> card (insert i S) then [payload] else [])
    \<and> holds mid D pc w (insert i S) p'"
proof -
  define p0 where "p0 = track_sequence now (sequence h) (account_late (transit_time_us p (tick h) unix_ms) rtt_us mult p)"
  have hd: "handle_data now unix_ms rtt_us mult maxb h pl p = collect_fragment now maxb h pl p0"
    by (simp add: handle_data_def Let_def p0_def)
  have H0: "holds mid D pc w S p0" using H by (simp add: holds_def p0_def)
  have b: "0 < length D" "length D \<le> 255" "pc \<le> 3" using ok by (simp_all add: msg_ok_def)
  have i: "i < length D + pc" and mh: "message_id h = mid" using c by (simp_all add: carries_def)
  have u: "unat (fragment_count h) = length D + pc" "unat (fragment_index h) = i"
    using b c by (simp_all add: unat_of_nat_u16 carries_def del: of_nat_add)
  have g: "fragment_count h \<noteq> 0" "\<not> fragment_count h \<le> fragment_index h"
    using u i b(1) by (auto simp: word_le_nat_alt)
  have fin: "finite S" using S finite_subset by blast
  show ?thesis
  proof (cases "length D \<le> card S")
    case True
    moreover have "length D \<le> card (insert i S)" using True fin card_insert_le [of S i] by linarith
    moreover have "collect_fragment now maxb h pl p0 = Done (p0, [])"
      using True H0 g by (auto simp: collect_fragment_def mh holds_def Let_def)
    ultimately show ?thesis using hd H0 by (auto simp: holds_def)
  next
    case False
    define inm where "inm = (case map_of (m_incoming p0) mid of Some x \<Rightarrow> x | None \<Rightarrow> new_incoming)"
    have "if S = {} then inm = new_incoming else partial_of mid D pc w S inm"
      using H0 False by (cases "S = {}") (auto simp: holds_def inm_def)
    from store_fragment_partial [OF ok c mid this] obtain inm' where
      st: "store_fragment now h pl inm = (inm', True)" "partial_of mid D pc w (insert i S) inm'" by blast
    define p1 where "p1 = p0\<lparr>m_incoming := om_set mid inm' (m_incoming p0)\<rparr>"
    have S': "insert i S \<subseteq> {..<length D + pc}" using S i by simp
    note ta = try_assemble_partial [OF ok max(1) st(2) S', of now p1]
    have wf: "om_wf (m_incoming p0)" "om_wf (m_completed p0)" "map_of (m_completed p0) mid = None"
      using H0 False by (simp_all add: holds_def)
    have cf: "collect_fragment now maxb h pl p0 =
       (if length D \<le> card (insert i S)
        then Done (p1\<lparr>m_completed := om_set mid now (m_completed p1),
                      m_incoming := om_erase mid (m_incoming p1)\<rparr>, [payload])
        else Done (p1, []))"
      unfolding collect_fragment_def mh Let_def inm_def [symmetric]
      using wf g u max(2) st(1) ta by (simp add: p1_def [symmetric])
    have "holds mid D pc w (insert i S) p1" if "\<not> length D \<le> card (insert i S)"
      using that wf st(2) by (simp add: holds_def p1_def om_set_map_of)
    moreover have "holds mid D pc w (insert i S) (p1\<lparr>m_completed := om_set mid now (m_completed p1),
        m_incoming := om_erase mid (m_incoming p1)\<rparr>)" if "length D \<le> card (insert i S)"
      using that wf by (simp add: holds_def p1_def om_set_map_of)
    ultimately show ?thesis using hd cf False by auto
  qed
qed

lemma receive_all_holds:
  assumes ok: "msg_ok D pc w payload" and max: "length payload \<le> maxb" "length D + pc \<le> maxb div 64 + 8"
    and mid: "mid \<noteq> 0"
  shows "holds mid D pc w S p \<Longrightarrow> S \<subseteq> {..<length D + pc} \<Longrightarrow>
    list_all2 (\<lambda>(now, unix_ms, rtt_us, h, pl) i. carries mid D pc w i h pl) as is \<Longrightarrow>
    \<exists>p'. receive_all mult maxb as p
      = Done (p', if \<not> length D \<le> card S \<and> length D \<le> card (S \<union> set is) then [payload] else [])"
proof (induction as arbitrary: p S "is")
  case (Cons a as)
  obtain now unix_ms rtt_us h pl where a: "a = (now, unix_ms, rtt_us, h, pl)" by (metis prod_cases5)
  obtain i js where "is": "is = i # js" and c: "carries mid D pc w i h pl"
    and rest: "list_all2 (\<lambda>(now, unix_ms, rtt_us, h, pl) i. carries mid D pc w i h pl) as js"
    using Cons.prems(3) by (auto simp: a list_all2_Cons1)
  from holds_step [OF ok max c mid Cons.prems(1,2)] obtain p' where
    s: "handle_data now unix_ms rtt_us mult maxb h pl p
      = Done (p', if \<not> length D \<le> card S \<and> length D \<le> card (insert i S) then [payload] else [])"
    and H: "holds mid D pc w (insert i S) p'" by blast
  have S': "insert i S \<subseteq> {..<length D + pc}" using c Cons.prems(2) by (simp add: carries_def)
  from Cons.IH [OF H S' rest] obtain p'' where
    r: "receive_all mult maxb as p' = Done (p'', if \<not> length D \<le> card (insert i S)
       \<and> length D \<le> card (insert i S \<union> set js) then [payload] else [])" by blast
  have fin: "finite (insert i S \<union> set js)" using finite_subset [OF S'] by simp
  have c1: "card S \<le> card (insert i S)" using fin by (intro card_mono) auto
  have c2: "card (insert i S) \<le> card (insert i S \<union> set js)" using fin by (intro card_mono) auto
  have e: "S \<union> set is = insert i S \<union> set js" by (simp add: "is")
  show ?case unfolding a receive_all.simps s e using r c1 c2
    by (cases "length D \<le> card S"; cases "length D \<le> card (insert i S)") simp_all
qed simp

section \<open>From the fragmenter to the reassembler\<close>

lemma parity_of_padded:
  assumes "0 < w" "q < pc"
  shows "take w (encode_into D pc w bufs ! q) = rs_encode (padded D w) pc w ! q"
proof (rule bytes_eqI)
  have "w \<le> length (encode_into D pc w bufs ! q)"
    using assms parity_buf_nth0(2) [of 0 w] by (simp add: encode_into_nth)
  then show l: "length (take w (encode_into D pc w bufs ! q)) = length (rs_encode (padded D w) pc w ! q)"
    using assms by (simp add: length_rs_encode_nth)
  fix k assume "k < length (take w (encode_into D pc w bufs ! q))"
  then have k: "k < w" "k < length (encode_into D pc w bufs ! q)" by simp_all
  have "nth0 (take w (encode_into D pc w bufs ! q)) k = nth0 (encode_into D pc w bufs ! q) k"
    using k by (simp add: nth0_def)
  also have "\<dots> = (\<Sum>j<length D. GF (coef q j) * nth0 (D ! j) k)"
    using assms k by (simp add: encode_into_nth parity_buf_nth0(1))
  also have "\<dots> = nth0 (rs_encode (padded D w) pc w ! q) k"
    using assms k by (simp add: rs_encode_nth0 padded_def)
  finally show "nth0 (take w (encode_into D pc w bufs ! q)) k = nth0 (rs_encode (padded D w) pc w ! q) k" .
qed

text \<open>A header and payload that carry one call of the \<open>send_fragment\<close> callback, as
  \<open>send_data_packet\<close> fills them in.\<close>

definition sent_fragment :: "fragment_call \<Rightarrow> packet_header \<Rightarrow> bytes \<Rightarrow> bool" where
  "sent_fragment c h pl \<longleftrightarrow> message_id h = fc_msg_id c \<and> fragment_index h = fc_idx c
     \<and> fragment_count h = fc_cnt c \<and> flags h = fc_data_cnt c \<and> reserved h = fc_real_size c
     \<and> pl = resize (fc_data c) (fc_width c)"

lemma fragment_and_send_calls:
  fixes payload :: bytes and mtu :: nat
  defines "f \<equiv> frag_payload_for mtu" and "n \<equiv> data_count_for (4 + length payload) (frag_payload_for mtu)"
  assumes fs: "fragment_and_send mtu payload bufs sp = (calls, bufs', sp')"
  shows "\<exists>D pc mid. length D = n \<and> length calls = n + pc \<and> mid \<noteq> 0 \<and> 1 \<le> pc \<and> pc \<le> 3 \<and> D = spans_of (full_buffer payload) f n
    \<and> (\<forall>i < n + pc. fc_msg_id (calls ! i) = mid \<and> fc_data_cnt (calls ! i) = of_nat n \<and>
         (\<forall>h pl. sent_fragment (calls ! i) h pl \<longrightarrow> carries mid D pc f i h pl))"
proof -
  obtain mid ctr where id: "next_msg_id (m_msg_id_out sp) = (mid, ctr)" by force
  define D where "D = spans_of (full_buffer payload) f n"
  define pc where "pc = unat (compute_parity_count_for (m_peer_late_ratio sp) n)"
  have f: "0 < f" using frag_payload_pos [of mtu] by (simp add: f_def)
  define dc where "dc = (\<lambda>i. \<lparr>fc_msg_id = mid, fc_idx = of_nat i, fc_cnt = of_nat (n + pc), fc_data_cnt = of_nat n,
     fc_real_size = of_nat (length (D ! i)), fc_data = D ! i, fc_width = f, fc_ackable = True\<rparr>)"
  define pa where "pa = (\<lambda>q. \<lparr>fc_msg_id = mid, fc_idx = of_nat (n + q), fc_cnt = of_nat (n + pc), fc_data_cnt = of_nat n,
     fc_real_size = of_nat f, fc_data = take f (encode_into D pc f bufs ! q), fc_width = f, fc_ackable = True\<rparr>)"
  have "fst (fragment_and_send mtu payload bufs sp) = map dc [0..<n] @ map pa [0..<pc]"
    unfolding fragment_and_send_def Let_def id by (simp add: D_def pc_def f_def n_def dc_def pa_def)
  then have calls: "calls = map dc [0..<n] @ map pa [0..<pc]" using fs by simp
  then have nth: "calls ! i = (if i < n then dc i else pa (i - n))" if "i < n + pc" for i
    using that by (auto simp: nth_append)
  have len: "length D = n" by (simp add: D_def)
  have "carries mid D pc f i h pl" if "i < n + pc" "sent_fragment (calls ! i) h pl" for i h pl
    using that f by (auto simp: nth dc_def pa_def sent_fragment_def carries_def len msize_def mfrag_def
        parity_of_padded length_rs_encode_nth simp del: of_nat_add)
  moreover have "length calls = n + pc" using calls by simp
  moreover have "mid \<noteq> 0" using next_msg_id_nonzero [of "m_msg_id_out sp"] id by simp
  ultimately show ?thesis
    using len parity_count_bounds [of "m_peer_late_ratio sp" n] nth
    by (intro exI [of _ D] exI [of _ pc] exI [of _ mid]) (auto simp: D_def pc_def dc_def pa_def)
qed

lemma fragment_msg_ok:
  fixes payload :: bytes and mtu :: nat
  defines "f \<equiv> frag_payload_for mtu" and "n \<equiv> data_count_for (4 + length payload) (frag_payload_for mtu)"
  assumes "f < 65536" "4 + length payload \<le> 255 * f" "1 \<le> pc" "pc \<le> 3"
  shows "msg_ok (spans_of (full_buffer payload) f n) pc f payload"
proof -
  have f: "0 < f" using frag_payload_pos [of mtu] by (simp add: f_def)
  note cov = data_count_cover [OF f, of "4 + length payload", folded n_def [folded f_def]]
  have c: "4 + length payload \<le> n * f" "(n - 1) * f < 4 + length payload" "0 < n"
    using cov by (simp_all add: n_def f_def)
  have "n - 1 < 255" using c(2) assms(4) f by (metis less_le_trans mult_less_cancel2)
  moreover have "length payload < 4294967296" using assms(3,4) by simp
  moreover have "length (spans_of (full_buffer payload) f n ! i) \<le> f" if "i < n" for i
    using that by (simp add: nth_spans_of)
  moreover have "length (spans_of (full_buffer payload) f n ! i) = f" if "i < n - 1" for i
    using that c(2) by (intro span_full) simp_all
  moreover have "concat (spans_of (full_buffer payload) f n) = full_buffer payload"
    using c(1) by (simp add: concat_spans)
  ultimately show ?thesis using assms c(3) f by (simp add: msg_ok_def)
qed


definition header_of_call :: "fragment_call \<Rightarrow> packet_header" where
  "header_of_call c = empty_header\<lparr>message_id := fc_msg_id c, fragment_index := fc_idx c,
     fragment_count := fc_cnt c, flags := fc_data_cnt c, reserved := fc_real_size c\<rparr>"


section \<open>Arbitrary packets\<close>

text \<open>The entries of \<open>m_incoming\<close> that \<open>try_assemble\<close> can read without leaving the fragment vector.\<close>

definition incoming_ok :: "incoming_message \<Rightarrow> bool" where
  "incoming_ok inm \<longleftrightarrow> m_message_id inm = 0 \<or>
     (length (m_fragments inm) = unat (m_total_count inm) \<and> length (m_sizes inm) = unat (m_total_count inm)
      \<and> m_data_count inm \<le> m_total_count inm)"

definition reassembler_inv :: "peer \<Rightarrow> bool" where
  "reassembler_inv p \<longleftrightarrow> om_wf (m_incoming p) \<and> om_wf (m_completed p)
     \<and> (\<forall>mid inm. map_of (m_incoming p) mid = Some inm \<longrightarrow> incoming_ok inm)"

lemma store_fragment_ok:
  assumes "incoming_ok inm" "flags h \<le> fragment_count h" "store_fragment now h pl inm = (inm', stored)"
  shows "incoming_ok inm' \<and> (stored \<longrightarrow> length (m_fragments inm') = unat (m_total_count inm')
    \<and> m_data_count inm' \<le> m_total_count inm')"
  using assms by (auto simp: store_fragment_def incoming_ok_def Let_def split: if_splits)

lemma log_oversize_frame [simp]:
  "m_incoming (log_oversize_drop now p) = m_incoming p" "m_completed (log_oversize_drop now p) = m_completed p"
  by (simp_all add: log_oversize_drop_def)

lemma build_msg_frame:
  "build_msg now maxb p inm n = (p', msg) \<Longrightarrow> m_incoming p' = m_incoming p \<and> m_completed p' = m_completed p"
  by (auto simp: build_msg_def Let_def split: if_splits)

lemma assemble_fec_cases:
  obtains "assemble_fec now maxb p inm dc pc multi = (p, None)"
  | inm' where "assemble_fec now maxb p inm dc pc multi = apsnd Some (build_msg now maxb p inm' dc)"
  unfolding assemble_fec_def Let_def case_prod_beta by (metis (no_types, lifting))

lemma try_assemble_frame:
  assumes "try_assemble now maxb p inm = Done (p', r)"
  shows "m_incoming p' = m_incoming p \<and> m_completed p' = m_completed p"
proof -
  have bm: "m_incoming (fst (apsnd Some (build_msg now maxb p i n))) = m_incoming p
      \<and> m_completed (fst (apsnd Some (build_msg now maxb p i n))) = m_completed p" for i n
    using build_msg_frame [of now maxb p i n] by (cases "build_msg now maxb p i n") simp
  have fec: "m_incoming (fst (assemble_fec now maxb p inm dc pc multi)) = m_incoming p
      \<and> m_completed (fst (assemble_fec now maxb p inm dc pc multi)) = m_completed p" for dc pc multi
    by (rule assemble_fec_cases [of now maxb p inm dc pc multi]) (simp_all only: bm fst_conv)
  define dc where "dc = (if 0 < m_data_count inm then unat (m_data_count inm) else unat (m_total_count inm) - 1)"
  from assms have "(p', r) = (p, None) \<or> (p', r) = apsnd Some (build_msg now maxb p inm dc)
      \<or> (p', r) = assemble_fec now maxb p inm dc (unat (m_total_count inm) - dc) (dc - count_have (m_fragments inm) dc)"
    unfolding try_assemble_def Let_def dc_def [symmetric] by (auto split: if_splits)
  then show ?thesis using bm fec by (metis fst_conv)
qed

lemma try_assemble_defined:
  assumes "length (m_fragments inm) = unat (m_total_count inm)" "m_data_count inm \<le> m_total_count inm"
  shows "\<exists>p' r. try_assemble now maxb p inm = Done (p', r)"
proof -
  have "\<not> length (m_fragments inm)
      < (if 0 < m_data_count inm then unat (m_data_count inm) else unat (m_total_count inm) - 1)"
    using assms by (auto simp: word_le_nat_alt)
  then have "try_assemble now maxb p inm \<noteq> UB" unfolding try_assemble_def Let_def by simp
  then show ?thesis by (cases "try_assemble now maxb p inm") auto
qed

lemma collect_fragment_inv:
  assumes inv: "reassembler_inv p" and fl: "flags h \<le> fragment_count h"
  shows "\<exists>p' msgs. collect_fragment now maxb h pl p = Done (p', msgs) \<and> reassembler_inv p'"
proof -
  let ?mid = "message_id h"
  define inm where "inm = (case map_of (m_incoming p) ?mid of Some x \<Rightarrow> x | None \<Rightarrow> new_incoming)"
  have i0: "incoming_ok inm"
    using inv by (auto simp: inm_def reassembler_inv_def incoming_ok_def new_incoming_def split: option.split)
  obtain inm' st where sf: "store_fragment now h pl inm = (inm', st)" by force
  note ok = store_fragment_ok [OF i0 fl sf]
  define p1 where "p1 = p\<lparr>m_incoming := om_set ?mid inm' (m_incoming p)\<rparr>"
  have inv1: "reassembler_inv p1"
    using inv ok by (auto simp: reassembler_inv_def p1_def om_set_map_of)
  have ta: "\<exists>p2 r. try_assemble now maxb p1 inm' = Done (p2, r) \<and> m_incoming p2 = m_incoming p1
      \<and> m_completed p2 = m_completed p1" if st
    using that ok try_assemble_defined [of inm' now maxb p1] try_assemble_frame by metis
  have erase: "reassembler_inv (p2\<lparr>m_completed := om_set ?mid now (m_completed p2), m_incoming := om_erase ?mid (m_incoming p2)\<rparr>)"
    if "m_incoming p2 = m_incoming p1" "m_completed p2 = m_completed p1" for p2
    using that inv1 by (auto simp: reassembler_inv_def om_erase_map_of)
  have drop: "reassembler_inv (if m_drop_log p then log_oversize_drop now p else p)"
    using inv by (simp add: reassembler_inv_def)
  have same: "reassembler_inv p2" if "m_incoming p2 = m_incoming p1" "m_completed p2 = m_completed p1" for p2
    using that inv1 by (simp add: reassembler_inv_def)
  show ?thesis
    unfolding collect_fragment_def Let_def inm_def [symmetric] sf prod.case p1_def [symmetric]
    using inv inv1 drop ta erase same by (auto split: option.split)
qed

lemma handle_data_collect:
  "\<exists>p0. handle_data now u r m maxb h pl p = collect_fragment now maxb h pl p0
     \<and> m_incoming p0 = m_incoming p \<and> m_completed p0 = m_completed p"
  unfolding handle_data_def Let_def by (rule exI, intro conjI, rule refl) simp_all



text \<open>C29. The guard of the previous property is missing in the code: a first packet that claims more
  data fragments than fragments makes \<open>try_assemble\<close> read past the end of the vector.\<close>

theorem handle_data_out_of_range:
  assumes "map_of (m_incoming p) (message_id h) = None" "map_of (m_completed p) (message_id h) = None"
    and "2 \<le> fragment_count h" "fragment_index h < fragment_count h" "fragment_count h < flags h"
    and "unat (fragment_count h) \<le> maxb div 64 + 8"
  shows "handle_data now unix_ms rtt_us mult maxb h pl p = UB"
proof -
  obtain p0 where p0: "handle_data now unix_ms rtt_us mult maxb h pl p = collect_fragment now maxb h pl p0"
    "m_incoming p0 = m_incoming p" "m_completed p0 = m_completed p" using handle_data_collect by blast
  have g: "fragment_count h \<noteq> 0" "\<not> fragment_count h \<le> fragment_index h" "0 < flags h"
    "unat (fragment_index h) < unat (fragment_count h)" "unat (fragment_count h) < unat (flags h)"
    "\<not> fragment_count h < 2"
    using assms by (auto simp: word_less_nat_alt word_le_nat_alt)
  show ?thesis
    unfolding p0(1) using assms(1,2,6) g
    by (auto simp: collect_fragment_def Let_def p0 store_fragment_def new_incoming_def try_assemble_def)
qed

theorem handle_data_out_of_range_witness:
  "handle_data 0 0 0 4 65536 (empty_header\<lparr>message_id := 9, fragment_count := 2, flags := 5\<rparr>) [1] new_peer = UB"
  by (rule handle_data_out_of_range) (simp_all add: new_peer_def empty_header_def)

text \<open>No packet delivers more than one message, only a message not yet completed is delivered,
  and its id is then recorded as completed, so no later fragment of it is delivered again.\<close>

theorem handle_data_at_most_once:
  assumes "om_wf (m_completed p)" "handle_data now unix_ms rtt_us mult maxb h pl p = Done (p', msgs)"
  shows "msgs = [] \<and> map_of (m_completed p') = map_of (m_completed p)
    \<or> (\<exists>m. msgs = [m] \<and> map_of (m_completed p) (message_id h) = None
        \<and> map_of (m_completed p') = (map_of (m_completed p))(message_id h \<mapsto> now))"
proof -
  obtain p0 where p0: "handle_data now unix_ms rtt_us mult maxb h pl p = collect_fragment now maxb h pl p0"
    "m_completed p0 = m_completed p" using handle_data_collect by blast
  have "collect_fragment now maxb h pl p0 = Done (p', msgs)" using assms(2) p0 by simp
  then show ?thesis using assms(1) p0(2)
    by (auto simp: collect_fragment_def Let_def om_set_map_of split: if_splits prod.splits option.splits outcome.splits
        dest: try_assemble_frame)
qed

theorem handle_data_at_most_once_witness:
  "\<exists>p'. handle_data 5 0 0 4 65536 (empty_header\<lparr>message_id := 9, fragment_count := 0\<rparr>) [1] new_peer = Done (p', [])
     \<and> map_of (m_completed p') = map_of (m_completed new_peer)"
proof -
  let ?h = "empty_header\<lparr>message_id := 9, fragment_count := 0\<rparr>"
  obtain p' where h: "handle_data 5 0 0 4 65536 ?h [1] new_peer = Done (p', [])"
    by (auto simp: handle_data_def collect_fragment_def Let_def)
  from handle_data_at_most_once [OF _ this] h show ?thesis by (auto simp: new_peer_def)
qed

end
