(* ===== verification/Command.thy ===== *)
theory Command
  imports Peer
begin

text \<open>
  The command channel, \<open>tight/src/command.cpp\<close>: single-datagram control packets delivered in
  sequence order, out-of-order ones held for at most three RTTs.
  The lemmas show that what is delivered is in strictly increasing sequence order without
  duplicates, that without expiry nothing is skipped, and that an expired gap is skipped.
\<close>

definition kMaxWaitRtt :: int where "kMaxWaitRtt = 3"

lemma length_om_erase: "map_of m k = Some v \<Longrightarrow> length (om_erase k m) < length m"
  unfolding om_erase_def by (rule length_filter_less [of "(k, v)"]) (auto dest: map_of_SomeD)

function drain_held :: "(u32, bytes) omap \<Rightarrow> u32 \<Rightarrow> (u32, bytes) omap \<times> u32 \<times> bytes list" where
  "drain_held held nxt =
     (case map_of held nxt of
        None \<Rightarrow> (held, nxt, [])
      | Some pl \<Rightarrow> (case drain_held (om_erase nxt held) (nxt + 1) of (held', nxt', out) \<Rightarrow> (held', nxt', pl # out)))"
  by auto

termination by (relation "measure (\<lambda>(held, nxt). length held)") (auto simp: length_om_erase)

declare drain_held.simps [simp del]

definition drain_locked :: "peer \<Rightarrow> peer \<times> bytes list" where
  "drain_locked p =
     (case drain_held (m_cmd_held p) (m_cmd_next_expected p) of
        (held, nxt, out) \<Rightarrow> (p\<lparr>m_cmd_held := held, m_cmd_next_expected := nxt\<rparr>, out))"

definition expire_locked :: "u32 \<Rightarrow> timepoint \<Rightarrow> peer \<Rightarrow> peer \<times> bytes list" where
  "expire_locked rtt_us now p =
     (if m_cmd_held p = [] then (p, [])
      else
        let wait_us = kMaxWaitRtt * (if 0 < rtt_us then uint rtt_us else 10000) in
        if now - m_cmd_gap_since p < usec wait_us then (p, [])
        else
          let p = p\<lparr>m_cmd_next_expected := fst (hd (m_cmd_held p))\<rparr>;
              (p, out) = drain_locked p;
              p = (if m_cmd_held p \<noteq> [] then p\<lparr>m_cmd_gap_since := now\<rparr> else p)
          in (p, out))"

definition cmd_handle :: "timepoint \<Rightarrow> u32 \<Rightarrow> packet_header \<Rightarrow> bytes \<Rightarrow> peer \<Rightarrow> peer \<times> bytes list" where
  "cmd_handle now rtt_us h payload p =
     (let seq = sequence h in
      if seq = 0 then (p, [])
      else
        let p = (if \<not> m_cmd_initialized p
                 then p\<lparr>m_cmd_next_expected := seq, m_cmd_initialized := True\<rparr> else p)
        in
        if seq < m_cmd_next_expected p then (p, [])
        else if seq = m_cmd_next_expected p then
          let (p, out) = drain_locked (p\<lparr>m_cmd_next_expected := m_cmd_next_expected p + 1\<rparr>)
          in (p, payload # out)
        else
          let p = (if m_cmd_held p = [] then p\<lparr>m_cmd_gap_since := now\<rparr> else p);
              p = p\<lparr>m_cmd_held := om_emplace seq payload (m_cmd_held p)\<rparr>
          in expire_locked rtt_us now p)"

definition flush_expired :: "timepoint \<Rightarrow> u32 \<Rightarrow> peer \<Rightarrow> peer \<times> bytes list" where
  "flush_expired now rtt_us p = expire_locked rtt_us now p"

definition cmd_reset :: "peer \<Rightarrow> peer" where
  "cmd_reset p = p\<lparr>m_cmd_seq_out := 1, m_cmd_next_expected := 0, m_cmd_initialized := False, m_cmd_held := [],
     m_cmd_gap_since := 0\<rparr>"

section \<open>The held packets\<close>

lemma om_set_subset: "set (om_set k v m) \<subseteq> insert (k, v) (set m)"
  by (induction k v m rule: om_set.induct) auto

lemma om_emplace_subset: "set (om_emplace k v m) \<subseteq> insert (k, v) (set m)"
  using om_set_subset [of k v m] by (cases "map_of m k") (auto simp: om_emplace_def)

text \<open>The sender numbers its commands: \<open>f s\<close> is the payload sent with sequence number \<open>s\<close>, and \<open>A\<close>
  are the numbers that have arrived. Between operations the held packets are later than the next
  expected one.\<close>

definition cmd_held_ok :: "(u32 \<Rightarrow> bytes) \<Rightarrow> u32 set \<Rightarrow> (u32, bytes) omap \<Rightarrow> bool" where
  "cmd_held_ok f A held \<longleftrightarrow> om_wf held \<and> (\<forall>(s, pl) \<in> set held. s \<in> A \<and> s \<noteq> 0xFFFFFFFF \<and> pl = f s)"

definition cmd_inv :: "(u32 \<Rightarrow> bytes) \<Rightarrow> u32 set \<Rightarrow> peer \<Rightarrow> bool" where
  "cmd_inv f A p \<longleftrightarrow> cmd_held_ok f A (m_cmd_held p)
     \<and> (\<forall>s \<in> fst ` set (m_cmd_held p). m_cmd_next_expected p < s)
     \<and> (\<not> m_cmd_initialized p \<longrightarrow> m_cmd_held p = [])"

abbreviation cmd_span :: "(u32 \<Rightarrow> bytes) \<Rightarrow> nat \<Rightarrow> nat \<Rightarrow> bytes list" where
  "cmd_span f i j \<equiv> map (\<lambda>n. f (of_nat n)) [i..<j]"

text \<open>Draining from \<open>nxt\<close> delivers a contiguous run and stops at a number that is not held.\<close>

lemma unat_Suc_u32: "(x :: u32) \<noteq> 0xFFFFFFFF \<Longrightarrow> unat (x + 1) = Suc (unat x)"
proof -
  assume "x \<noteq> 0xFFFFFFFF"
  then have "unat x \<noteq> 4294967295" by (simp add: word_unat_eq_iff)
  moreover have "unat x < 4294967296" using unsigned_less [of x, where ?'a = nat] by simp
  ultimately show ?thesis by (simp add: unat_word_ariths)
qed

lemma drain_held_spec:
  "cmd_held_ok f A held \<Longrightarrow> \<forall>s \<in> fst ` set held. nxt \<le> s \<Longrightarrow> drain_held held nxt = (held', nxt', out) \<Longrightarrow>
   cmd_held_ok f A held' \<and> (\<forall>s \<in> fst ` set held'. nxt' < s) \<and> nxt \<le> nxt'
   \<and> out = cmd_span f (unat nxt) (unat nxt') \<and> of_nat ` {unat nxt..<unat nxt'} \<subseteq> A
   \<and> (\<forall>s \<in> fst ` set held. nxt' \<le> s \<longrightarrow> s \<in> fst ` set held') \<and> set held' \<subseteq> set held"
proof (induction held nxt arbitrary: held' nxt' out rule: drain_held.induct)
  case (1 held nxt)
  show ?case
  proof (cases "map_of held nxt")
    case None
    then have r: "held' = held" "nxt' = nxt" "out = []" using 1(4) by (simp_all add: drain_held.simps [of held nxt])
    have "nxt \<notin> fst ` set held" using None by (simp add: map_of_eq_None_iff)
    then show ?thesis using r 1(2,3) by (auto simp: less_le)
  next
    case (Some pl)
    obtain h2 n2 o2 where d: "drain_held (om_erase nxt held) (nxt + 1) = (h2, n2, o2)" by (metis prod_cases3)
    then have r: "held' = h2" "nxt' = n2" "out = pl # o2"
      using 1(4) Some by (simp_all add: drain_held.simps [of held nxt])
    have mem: "(nxt, pl) \<in> set held" using Some by (rule map_of_SomeD)
    with 1(2) have nx: "nxt \<noteq> 0xFFFFFFFF" "pl = f nxt" "nxt \<in> A" by (auto simp: cmd_held_ok_def)
    then have u: "unat (nxt + 1) = Suc (unat nxt)" by (simp add: unat_Suc_u32)
    have up: "nxt + 1 \<le> s" if "nxt \<le> s" "s \<noteq> nxt" for s
      using that u by (simp add: word_le_nat_alt word_unat_eq_iff)
    have ok: "cmd_held_ok f A (om_erase nxt held)"
      using 1(2) by (auto simp: cmd_held_ok_def) (auto simp: om_erase_def)
    have e: "\<forall>s \<in> fst ` set (om_erase nxt held). nxt + 1 \<le> s"
      using 1(3) up by (auto simp: om_erase_def)
    note IH = 1(1) [OF Some ok e d]
    have lt: "unat nxt < unat n2" using IH u by (simp add: word_le_nat_alt)
    then have ne: "s \<noteq> nxt" if "n2 \<le> s" for s using that by (auto simp: word_le_nat_alt)
    have keep: "s \<in> fst ` set h2" if "s \<in> fst ` set held" "n2 \<le> s" for s
    proof -
      have "s \<in> fst ` set (om_erase nxt held)" using that ne by (auto simp: om_erase_def image_iff)
      then show ?thesis using IH that(2) by blast
    qed
    have "{unat nxt..<unat n2} = insert (unat nxt) {Suc (unat nxt)..<unat n2}" using lt by auto
    moreover have "set h2 \<subseteq> set held" using IH by (auto simp: om_erase_def)
    ultimately show ?thesis
      using IH r nx u lt keep by (simp add: upt_conv_Cons word_le_nat_alt)
  qed
qed

lemma hd_least: "om_wf m \<Longrightarrow> m \<noteq> [] \<Longrightarrow> \<forall>s \<in> fst ` set m. fst (hd m) \<le> s"
  by (cases m) (fastforce intro: less_imp_le)+

text \<open>What one operation does to the channel: it delivers a contiguous run that starts at or after
  the expected number and ends at the new one.\<close>

definition cmd_effect :: "(u32 \<Rightarrow> bytes) \<Rightarrow> u32 set \<Rightarrow> peer \<Rightarrow> peer \<Rightarrow> bytes list \<Rightarrow> bool" where
  "cmd_effect f A p p' out \<longleftrightarrow> cmd_inv f A p' \<and> (m_cmd_initialized p \<or> out \<noteq> [] \<longrightarrow> m_cmd_initialized p')
     \<and> (\<exists>x. out = cmd_span f x (unat (m_cmd_next_expected p')) \<and> x \<le> unat (m_cmd_next_expected p')
            \<and> of_nat ` {x..<unat (m_cmd_next_expected p')} \<subseteq> A
            \<and> (m_cmd_initialized p \<longrightarrow> unat (m_cmd_next_expected p) \<le> x))"

lemma drain_locked_spec:
  assumes "cmd_held_ok f A (m_cmd_held p)" "\<forall>s \<in> fst ` set (m_cmd_held p). m_cmd_next_expected p \<le> s"
    "m_cmd_initialized p" "drain_locked p = (p', out)"
  shows "cmd_effect f A p p' out \<and> out = cmd_span f (unat (m_cmd_next_expected p)) (unat (m_cmd_next_expected p'))
    \<and> m_cmd_next_expected p \<le> m_cmd_next_expected p' \<and> m_cmd_gap_since p' = m_cmd_gap_since p
    \<and> of_nat ` {unat (m_cmd_next_expected p)..<unat (m_cmd_next_expected p')} \<subseteq> A
    \<and> (\<forall>s \<in> fst ` set (m_cmd_held p). m_cmd_next_expected p' \<le> s \<longrightarrow> s \<in> fst ` set (m_cmd_held p'))
    \<and> set (m_cmd_held p') \<subseteq> set (m_cmd_held p)"
proof -
  obtain held nxt o' where d: "drain_held (m_cmd_held p) (m_cmd_next_expected p) = (held, nxt, o')"
    by (metis prod_cases3)
  have r: "p' = p\<lparr>m_cmd_held := held, m_cmd_next_expected := nxt\<rparr>" "out = o'"
    using assms(4) d by (simp_all add: drain_locked_def)
  show ?thesis
    using drain_held_spec [OF assms(1,2) d] assms(3) unfolding r cmd_effect_def cmd_inv_def
    by (auto simp: word_le_nat_alt)
qed

lemma expire_locked_spec:
  assumes inv: "cmd_inv f A p" and e: "expire_locked rtt now p = (p', out)"
  shows "cmd_effect f A p p' out"
proof (cases "m_cmd_held p = [] \<or> now - m_cmd_gap_since p < usec (kMaxWaitRtt * (if 0 < rtt then uint rtt else 10000))")
  case True
  then have "p' = p \<and> out = []"
    using e unfolding expire_locked_def Let_def by (auto split: if_splits)
  then show ?thesis using inv by (auto simp: cmd_effect_def)
next
  case False
  define q where "q = p\<lparr>m_cmd_next_expected := fst (hd (m_cmd_held p))\<rparr>"
  obtain q' o' where d: "drain_locked q = (q', o')" by force
  have r: "p' = (if m_cmd_held q' \<noteq> [] then q'\<lparr>m_cmd_gap_since := now\<rparr> else q')" "out = o'"
    using e False d unfolding expire_locked_def Let_def q_def by (simp_all split: if_splits)
  have wf: "om_wf (m_cmd_held p)" "cmd_held_ok f A (m_cmd_held p)" "m_cmd_initialized p"
    using inv False by (auto simp: cmd_inv_def cmd_held_ok_def)
  have "cmd_effect f A q q' o'"
    using wf False hd_least [of "m_cmd_held p"]
    by (intro conjunct1 [OF drain_locked_spec [OF _ _ _ d]]) (auto simp: q_def)
  moreover have "m_cmd_next_expected p \<le> m_cmd_next_expected q"
    using inv False by (cases "m_cmd_held p") (auto simp: q_def cmd_inv_def)
  ultimately show ?thesis
    unfolding r using wf by (auto simp: cmd_effect_def cmd_inv_def q_def word_le_nat_alt)
qed

lemma cmd_handle_spec:
  assumes inv: "cmd_inv f A p" and e: "cmd_handle now rtt h pl p = (p', out)"
    and h: "pl = f (sequence h)" "sequence h \<noteq> 0xFFFFFFFF"
  shows "cmd_effect f (insert (sequence h) A) p p' out"
proof (cases "sequence h = 0")
  case True
  then have "p' = p" "out = []" using e by (auto simp: cmd_handle_def)
  then show ?thesis using inv by (auto simp: cmd_effect_def cmd_inv_def cmd_held_ok_def)
next
  case s0: False
  let ?s = "sequence h" and ?A = "insert (sequence h) A"
  define q where "q = (if \<not> m_cmd_initialized p then p\<lparr>m_cmd_next_expected := ?s, m_cmd_initialized := True\<rparr> else p)"
  have q: "cmd_inv f ?A q" "m_cmd_initialized q" "m_cmd_held q = m_cmd_held p"
    "m_cmd_initialized p \<longrightarrow> q = p"
    using inv by (auto simp: q_def cmd_inv_def cmd_held_ok_def)
  have lift: "cmd_effect f ?A p p' out" if "cmd_effect f ?A q p' out"
    using that q by (auto simp: cmd_effect_def)
  consider "?s < m_cmd_next_expected q" | "?s = m_cmd_next_expected q" | "m_cmd_next_expected q < ?s"
    by fastforce
  then show ?thesis
  proof cases
    case 1
    then have "p' = q" "out = []" using e s0 by (auto simp: cmd_handle_def Let_def q_def)
    then show ?thesis using q lift by (auto simp: cmd_effect_def)
  next
    case 2
    define r where "r = q\<lparr>m_cmd_next_expected := m_cmd_next_expected q + 1\<rparr>"
    obtain r' o' where d: "drain_locked r = (r', o')" by force
    have res: "p' = r'" "out = pl # o'"
      using e s0 2 d unfolding cmd_handle_def Let_def q_def [symmetric] r_def by auto
    have u: "unat (m_cmd_next_expected q + 1) = Suc (unat (m_cmd_next_expected q))"
      using 2 h(2) by (simp add: unat_Suc_u32)
    have "m_cmd_next_expected q + 1 \<le> s" if "m_cmd_next_expected q < s" for s
      using that u by (simp add: word_le_nat_alt word_less_nat_alt)
    then have D: "cmd_effect f ?A r r' o' \<and> o' = cmd_span f (unat (m_cmd_next_expected r)) (unat (m_cmd_next_expected r'))
        \<and> m_cmd_next_expected r \<le> m_cmd_next_expected r'
        \<and> of_nat ` {unat (m_cmd_next_expected r)..<unat (m_cmd_next_expected r')} \<subseteq> ?A"
      using drain_locked_spec [OF _ _ _ d, of f ?A] q by (auto simp: r_def cmd_inv_def)
    then have lt: "unat (m_cmd_next_expected q) < unat (m_cmd_next_expected r')"
      using u by (simp add: r_def word_le_nat_alt)
    have out: "out = cmd_span f (unat (m_cmd_next_expected q)) (unat (m_cmd_next_expected r'))"
      using D lt u h(1) 2 by (simp add: res r_def upt_conv_Cons)
    have "of_nat ` {unat (m_cmd_next_expected q)..<unat (m_cmd_next_expected r')} \<subseteq> ?A"
    proof -
      have "{unat (m_cmd_next_expected q)..<unat (m_cmd_next_expected r')}
          = insert (unat ?s) {unat (m_cmd_next_expected r)..<unat (m_cmd_next_expected r')}"
        using lt u 2 by (auto simp: r_def)
      moreover have "of_nat ` {unat (m_cmd_next_expected r)..<unat (m_cmd_next_expected r')} \<subseteq> ?A"
        using D by blast
      ultimately show ?thesis by simp
    qed
    moreover have "cmd_inv f ?A r'" "m_cmd_initialized r'"
      using D q(2) by (auto simp: cmd_effect_def r_def)
    ultimately have "cmd_effect f ?A q p' out"
      unfolding cmd_effect_def res(1) using out lt by (auto intro!: exI [of _ "unat (m_cmd_next_expected q)"])
    then show ?thesis by (rule lift)
  next
    case 3
    define r where "r = (if m_cmd_held q = [] then q\<lparr>m_cmd_gap_since := now\<rparr> else q)"
    define r2 where "r2 = r\<lparr>m_cmd_held := om_emplace ?s pl (m_cmd_held r)\<rparr>"
    have res: "expire_locked rtt now r2 = (p', out)"
      using e s0 3 unfolding cmd_handle_def Let_def q_def [symmetric] r_def r2_def by (auto split: if_splits)
    have em: "x = (?s, pl) \<or> x \<in> set (m_cmd_held q)" if "x \<in> set (om_emplace ?s pl (m_cmd_held q))" for x
      using that om_emplace_subset [of ?s pl "m_cmd_held q"] by blast
    have hq: "fst x \<in> ?A \<and> fst x \<noteq> 0xFFFFFFFF \<and> snd x = f (fst x) \<and> m_cmd_next_expected q < fst x"
      if "x \<in> set (m_cmd_held q)" for x
      using that q(1) by (cases x) (auto simp: cmd_inv_def cmd_held_ok_def)
    have "fst x \<in> ?A \<and> fst x \<noteq> 0xFFFFFFFF \<and> snd x = f (fst x) \<and> m_cmd_next_expected q < fst x"
      if "x \<in> set (om_emplace ?s pl (m_cmd_held q))" for x
      using em [OF that] hq [of x] 3 h by (elim disjE) simp_all
    moreover have "om_wf (m_cmd_held q)" using q(1) by (simp add: cmd_inv_def cmd_held_ok_def)
    ultimately have "cmd_inv f ?A r2"
      using q(2) by (simp add: r2_def r_def cmd_inv_def cmd_held_ok_def split_beta)
    from expire_locked_spec [OF this res] show ?thesis
      using lift by (auto simp: cmd_effect_def r2_def r_def split: if_splits)
  qed
qed

section \<open>Runs of the channel\<close>

datatype cmd_event = CmdArrive timepoint u32 packet_header bytes | CmdFlush timepoint u32

fun cmd_run :: "cmd_event list \<Rightarrow> peer \<Rightarrow> peer \<times> bytes list" where
  "cmd_run [] p = (p, [])"
| "cmd_run (CmdArrive now rtt h pl # es) p =
     (let (p, out) = cmd_handle now rtt h pl p; (p, out') = cmd_run es p in (p, out @ out'))"
| "cmd_run (CmdFlush now rtt # es) p =
     (let (p, out) = flush_expired now rtt p; (p, out') = cmd_run es p in (p, out @ out'))"

fun cmd_seqs :: "cmd_event list \<Rightarrow> u32 set" where
  "cmd_seqs [] = {}"
| "cmd_seqs (CmdArrive now rtt h pl # es) = insert (sequence h) (cmd_seqs es)"
| "cmd_seqs (CmdFlush now rtt # es) = cmd_seqs es"

text \<open>Every arriving packet carries the payload the sender gave its number.\<close>

fun cmd_sent_by :: "(u32 \<Rightarrow> bytes) \<Rightarrow> cmd_event list \<Rightarrow> bool" where
  "cmd_sent_by f [] = True"
| "cmd_sent_by f (CmdArrive now rtt h pl # es) = (pl = f (sequence h) \<and> sequence h \<noteq> 0xFFFFFFFF \<and> cmd_sent_by f es)"
| "cmd_sent_by f (CmdFlush now rtt # es) = cmd_sent_by f es"

definition cmd_ordered :: "(u32 \<Rightarrow> bytes) \<Rightarrow> u32 set \<Rightarrow> peer \<Rightarrow> bytes list \<Rightarrow> bool" where
  "cmd_ordered f A p out \<longleftrightarrow> (\<exists>ss. out = map f ss \<and> sorted_wrt (<) ss \<and> set ss \<subseteq> A
     \<and> (m_cmd_initialized p \<longrightarrow> (\<forall>s \<in> set ss. m_cmd_next_expected p \<le> s)))"

lemma cmd_effect_mono: "cmd_effect f A p p' out \<Longrightarrow> A \<subseteq> B \<Longrightarrow> cmd_effect f B p p' out"
  by (fastforce simp: cmd_effect_def cmd_inv_def cmd_held_ok_def)

lemma cmd_ordered_append:
  assumes e: "cmd_effect f A p p' out" and o: "cmd_ordered f B p' out'" and AB: "A \<subseteq> B"
  shows "cmd_ordered f B p (out @ out')"
proof -
  obtain x where x: "out = cmd_span f x (unat (m_cmd_next_expected p'))" "of_nat ` {x..<unat (m_cmd_next_expected p')} \<subseteq> A"
    "m_cmd_initialized p \<longrightarrow> unat (m_cmd_next_expected p) \<le> x" "x \<le> unat (m_cmd_next_expected p')"
    using e by (auto simp: cmd_effect_def)
  have n: "out \<noteq> [] \<longrightarrow> m_cmd_initialized p'" using e by (simp add: cmd_effect_def)
  obtain ss where ss: "out' = map f ss" "sorted_wrt (<) ss" "set ss \<subseteq> B"
    "m_cmd_initialized p' \<longrightarrow> (\<forall>s \<in> set ss. m_cmd_next_expected p' \<le> s)"
    using o by (auto simp: cmd_ordered_def)
  let ?xs = "map of_nat [x..<unat (m_cmd_next_expected p')] :: u32 list"
  have lt: "m < 4294967296" if "m < unat (m_cmd_next_expected p')" for m
    using that unsigned_less [of "m_cmd_next_expected p'", where ?'a = nat] by simp
  have le: "of_nat m < m_cmd_next_expected p'" if "m < unat (m_cmd_next_expected p')" for m
    using that lt [OF that] by (simp add: word_less_nat_alt unat_of_nat_u32)
  have sx: "sorted_wrt (<) ?xs"
    unfolding sorted_wrt_map
    by (rule sorted_wrt_mono_rel [of _ "(<)"]) (auto simp: word_less_nat_alt unat_of_nat_u32 lt)
  have ge: "m_cmd_initialized p \<longrightarrow> (\<forall>s \<in> set ?xs. m_cmd_next_expected p \<le> s)"
    using x(3) lt by (auto simp: word_le_nat_alt unat_of_nat_u32)
  have "sorted_wrt (<) (?xs @ ss)"
    using sx ss(2,4) n x(1) le by (auto simp: sorted_wrt_append intro: less_le_trans [OF le])
  moreover have "m_cmd_initialized p \<longrightarrow> (\<forall>s \<in> set ss. m_cmd_next_expected p \<le> s)"
    using e ss(4) x(3,4) by (auto simp: cmd_effect_def word_le_nat_alt)
  ultimately show ?thesis
    unfolding cmd_ordered_def using x ss AB ge by (intro exI [of _ "?xs @ ss"]) auto
qed

lemma cmd_run_ordered:
  "cmd_inv f A p \<Longrightarrow> cmd_sent_by f es \<Longrightarrow> cmd_run es p = (p', out) \<Longrightarrow>
   cmd_inv f (A \<union> cmd_seqs es) p' \<and> cmd_ordered f (A \<union> cmd_seqs es) p out"
proof (induction es p arbitrary: A p' out rule: cmd_run.induct)
  case (1 p)
  then show ?case by (auto simp: cmd_ordered_def)
next
  case (2 now rtt h pl es p)
  obtain q o1 where s: "cmd_handle now rtt h pl p = (q, o1)" by force
  obtain q2 o2 where r: "cmd_run es q = (q2, o2)" by force
  have eff: "cmd_effect f (insert (sequence h) A) p q o1"
    using cmd_handle_spec [OF 2(2) s] 2(3) by simp
  then have "cmd_inv f (insert (sequence h) A) q" by (simp add: cmd_effect_def)
  from 2(1) [OF s [symmetric] refl this _ r] 2(3)
  have IH: "cmd_inv f (insert (sequence h) A \<union> cmd_seqs es) q2"
    "cmd_ordered f (insert (sequence h) A \<union> cmd_seqs es) q o2" by simp_all
  have e: "insert (sequence h) A \<union> cmd_seqs es = A \<union> cmd_seqs (CmdArrive now rtt h pl # es)" by simp
  show ?case
    using cmd_ordered_append [OF eff IH(2)] IH(1) 2(4) s r unfolding e by auto
next
  case (3 now rtt es p)
  obtain q o1 where s: "flush_expired now rtt p = (q, o1)" by force
  obtain q2 o2 where r: "cmd_run es q = (q2, o2)" by force
  have eff: "cmd_effect f A p q o1" using expire_locked_spec [OF 3(2)] s by (simp add: flush_expired_def)
  then have "cmd_inv f A q" by (simp add: cmd_effect_def)
  from 3(1) [OF s [symmetric] refl this _ r] 3(3)
  have IH: "cmd_inv f (A \<union> cmd_seqs es) q2" "cmd_ordered f (A \<union> cmd_seqs es) q o2" by simp_all
  show ?case using cmd_ordered_append [OF eff IH(2)] IH(1) 3(4) s r by auto
qed

text \<open>C14. Whatever the order, duplication and loss of command packets and whatever timers fire, the
  payloads handed to the application are those of arrived packets, in strictly increasing sequence
  order, each at most once.\<close>

theorem command_in_order:
  assumes "m_cmd_held p = []" "cmd_sent_by f es" "cmd_run es p = (p', out)"
  shows "\<exists>ss. out = map f ss \<and> sorted_wrt (<) ss \<and> set ss \<subseteq> cmd_seqs es"
proof -
  have "cmd_inv f {} p" using assms(1) by (simp add: cmd_inv_def cmd_held_ok_def)
  from cmd_run_ordered [OF this assms(2,3)] show ?thesis by (auto simp: cmd_ordered_def)
qed

definition cmd_packet :: "u32 \<Rightarrow> packet_header" where
  "cmd_packet s = empty_header\<lparr>sequence := s\<rparr>"

theorem command_in_order_witness:
  "let es = [CmdArrive 0 1000 (cmd_packet 1) [1], CmdArrive 1 1000 (cmd_packet 3) [3],
             CmdArrive 2 1000 (cmd_packet 2) [2], CmdArrive 3 1000 (cmd_packet 3) [3]];
       f = (\<lambda>s. [ucast s])
   in snd (cmd_run es new_peer) = [[1], [2], [3]]
      \<and> (\<exists>ss. snd (cmd_run es new_peer) = map f ss \<and> sorted_wrt (<) ss \<and> set ss \<subseteq> cmd_seqs es)"
proof -
  let ?es = "[CmdArrive 0 1000 (cmd_packet 1) [1], CmdArrive 1 1000 (cmd_packet 3) [3],
             CmdArrive 2 1000 (cmd_packet 2) [2], CmdArrive 3 1000 (cmd_packet 3) [3]]"
  have s: "sequence (cmd_packet s) = s" for s by (simp add: cmd_packet_def)
  have "cmd_sent_by (\<lambda>s. [ucast s]) ?es" by (simp add: s)
  from command_in_order [OF _ this, of new_peer] have
    "\<exists>ss. snd (cmd_run ?es new_peer) = map (\<lambda>s. [ucast s]) ss \<and> sorted_wrt (<) ss \<and> set ss \<subseteq> cmd_seqs ?es"
    by (metis new_peer_def peer.select_convs(40) prod.collapse)
  moreover have "snd (cmd_run ?es new_peer) = [[1], [2], [3]]"
    by (simp add: cmd_handle_def Let_def s new_peer_def drain_locked_def drain_held.simps om_emplace_def
        expire_locked_def kMaxWaitRtt_def usec_def om_erase_def)
  ultimately show ?thesis unfolding Let_def by blast
qed

section \<open>Completeness without expiry, and expiry\<close>

text \<open>Arrivals within three RTTs of \<open>t0\<close>: no gap can expire.\<close>

definition cmd_timely :: "timepoint \<Rightarrow> u32 \<Rightarrow> cmd_event \<Rightarrow> bool" where
  "cmd_timely t0 rtt e = (case e of
       CmdArrive now r h pl \<Rightarrow> t0 \<le> now \<and> now < t0 + usec (3 * uint rtt) \<and> r = rtt \<and> 0 < rtt
     | CmdFlush now r \<Rightarrow> t0 \<le> now \<and> now < t0 + usec (3 * uint rtt) \<and> r = rtt \<and> 0 < rtt)"

text \<open>Everything that arrived from \<open>a\<close> on is delivered or held.\<close>

definition cmd_none_lost :: "u32 \<Rightarrow> timepoint \<Rightarrow> u32 set \<Rightarrow> peer \<Rightarrow> bool" where
  "cmd_none_lost a t0 A p \<longleftrightarrow> m_cmd_initialized p \<and> a \<le> m_cmd_next_expected p
     \<and> (m_cmd_held p \<noteq> [] \<longrightarrow> t0 \<le> m_cmd_gap_since p)
     \<and> (\<forall>s \<in> A. a \<le> s \<longrightarrow> s < m_cmd_next_expected p \<or> s \<in> fst ` set (m_cmd_held p))"

lemma expire_timely:
  assumes "m_cmd_held p \<noteq> [] \<longrightarrow> t0 \<le> m_cmd_gap_since p" "0 < rtt" "now < t0 + usec (3 * uint rtt)"
  shows "expire_locked rtt now p = (p, [])"
proof (cases "m_cmd_held p = []")
  case False
  with assms have "now - m_cmd_gap_since p < usec (3 * uint rtt)" by simp
  with False assms(2) show ?thesis unfolding expire_locked_def Let_def kMaxWaitRtt_def by simp
qed (simp add: expire_locked_def)

lemma cmd_handle_initialized:
  assumes "m_cmd_initialized p" "sequence h \<noteq> 0"
  shows "cmd_handle now rtt h pl p =
    (if sequence h < m_cmd_next_expected p then (p, [])
     else if sequence h = m_cmd_next_expected p
     then apsnd ((#) pl) (drain_locked (p\<lparr>m_cmd_next_expected := m_cmd_next_expected p + 1\<rparr>))
     else expire_locked rtt now
       ((if m_cmd_held p = [] then p\<lparr>m_cmd_gap_since := now\<rparr> else p)
          \<lparr>m_cmd_held := om_emplace (sequence h) pl (m_cmd_held p)\<rparr>))"
  using assms unfolding cmd_handle_def Let_def by (simp add: split_beta apsnd_def map_prod_def)

lemma om_emplace_keys: "fst ` set (om_emplace k v m) = insert k (fst ` set m)"
  by (auto simp: om_emplace_def map_of_eq_None_iff image_iff dest!: map_of_SomeD split: option.split) force+

lemma cmd_handle_timely:
  assumes inv: "cmd_inv f A p" and nl: "cmd_none_lost a t0 A p" and a: "0 < a"
    and t: "t0 \<le> now" "now < t0 + usec (3 * uint rtt)" "0 < rtt"
    and e: "cmd_handle now rtt h pl p = (p', out)" and h: "pl = f (sequence h)" "sequence h \<noteq> 0xFFFFFFFF"
  shows "cmd_none_lost a t0 (insert (sequence h) A) p'
    \<and> out = cmd_span f (unat (m_cmd_next_expected p)) (unat (m_cmd_next_expected p')) \<and> m_cmd_next_expected p \<le> m_cmd_next_expected p'"
proof -
  let ?s = "sequence h" and ?n = "m_cmd_next_expected p"
  have init: "m_cmd_initialized p" using nl by (simp add: cmd_none_lost_def)
  consider "?s = 0" | "?s \<noteq> 0" "?s < ?n" | "?s \<noteq> 0" "?s = ?n" | "?s \<noteq> 0" "?n < ?s" by fastforce
  then show ?thesis
  proof cases
    case 1
    then have "p' = p" "out = []" using e by (auto simp: cmd_handle_def)
    then show ?thesis using nl 1 a by (auto simp: cmd_none_lost_def word_le_nat_alt word_less_nat_alt)
  next
    case 2
    then have "p' = p" "out = []" using e init by (auto simp: cmd_handle_initialized)
    then show ?thesis using nl 2 by (auto simp: cmd_none_lost_def)
  next
    case 3
    define r where "r = p\<lparr>m_cmd_next_expected := ?n + 1\<rparr>"
    obtain r' o' where d: "drain_locked r = (r', o')" by force
    have res: "p' = r'" "out = pl # o'"
      using e 3 d init by (simp_all add: cmd_handle_initialized r_def [symmetric])
    have u: "unat (?n + 1) = Suc (unat ?n)" using 3 h(2) by (simp add: unat_Suc_u32)
    have "\<forall>s \<in> fst ` set (m_cmd_held r). m_cmd_next_expected r \<le> s"
      using inv u by (auto simp: r_def cmd_inv_def word_le_nat_alt word_less_nat_alt)
    then have D: "o' = cmd_span f (unat (m_cmd_next_expected r)) (unat (m_cmd_next_expected r'))
        \<and> m_cmd_next_expected r \<le> m_cmd_next_expected r' \<and> m_cmd_gap_since r' = m_cmd_gap_since r
        \<and> cmd_effect f A r r' o'
        \<and> (\<forall>s \<in> fst ` set (m_cmd_held r). m_cmd_next_expected r' \<le> s \<longrightarrow> s \<in> fst ` set (m_cmd_held r'))
        \<and> set (m_cmd_held r') \<subseteq> set (m_cmd_held r)"
      using drain_locked_spec [OF _ _ _ d, of f A] inv init by (auto simp: r_def cmd_inv_def)
    have lt: "unat ?n < unat (m_cmd_next_expected r')" using D u by (simp add: r_def word_le_nat_alt)
    have out: "out = cmd_span f (unat ?n) (unat (m_cmd_next_expected r'))"
      using D lt u h(1) 3 by (simp add: res r_def upt_conv_Cons)
    have "cmd_none_lost a t0 (insert ?s A) r'"
      unfolding cmd_none_lost_def
    proof (intro conjI ballI impI)
      show "m_cmd_initialized r'" using D init by (auto simp: cmd_effect_def r_def)
      show "a \<le> m_cmd_next_expected r'" using nl lt by (auto simp: cmd_none_lost_def word_le_nat_alt)
      show "t0 \<le> m_cmd_gap_since r'" if "m_cmd_held r' \<noteq> []"
        using that D nl by (auto simp: r_def cmd_none_lost_def)
      fix s assume s: "s \<in> insert ?s A" "a \<le> s"
      show "s < m_cmd_next_expected r' \<or> s \<in> fst ` set (m_cmd_held r')"
      proof (cases "s < m_cmd_next_expected r'")
        case False
        then have "s \<noteq> ?s" "\<not> s < ?n" using 3 lt by (auto simp: word_less_nat_alt)
        then have "s \<in> fst ` set (m_cmd_held r)" using s nl by (auto simp: cmd_none_lost_def r_def)
        then show ?thesis using D False by auto
      qed simp
    qed
    then show ?thesis using out lt res by (simp add: word_le_nat_alt)
  next
    case 4
    define r where "r = (if m_cmd_held p = [] then p\<lparr>m_cmd_gap_since := now\<rparr> else p)
          \<lparr>m_cmd_held := om_emplace ?s pl (m_cmd_held p)\<rparr>"
    have "expire_locked rtt now r = (r, [])"
      using t nl by (intro expire_timely) (auto simp: r_def cmd_none_lost_def)
    moreover have "\<not> ?s < ?n" "?s \<noteq> ?n" using 4 by auto
    then have "cmd_handle now rtt h pl p = expire_locked rtt now r"
      using cmd_handle_initialized [OF init 4(1)] by (simp add: r_def)
    ultimately have "p' = r" "out = []" using e by simp_all
    then show ?thesis using nl t 4 by (auto simp: r_def cmd_none_lost_def om_emplace_keys)
  qed
qed

lemma upt_append_le: "i \<le> j \<Longrightarrow> j \<le> k \<Longrightarrow> [i..<j] @ [j..<k] = [i..<k]"
  by (metis le_Suc_ex upt_add_eq_append)

lemma cmd_run_timely:
  "cmd_inv f A p \<Longrightarrow> cmd_none_lost a t0 A p \<Longrightarrow> 0 < a \<Longrightarrow> cmd_sent_by f es \<Longrightarrow> \<forall>e \<in> set es. cmd_timely t0 rtt e \<Longrightarrow>
   cmd_run es p = (p', out) \<Longrightarrow>
   cmd_inv f (A \<union> cmd_seqs es) p' \<and> cmd_none_lost a t0 (A \<union> cmd_seqs es) p' \<and> m_cmd_next_expected p \<le> m_cmd_next_expected p'
   \<and> out = cmd_span f (unat (m_cmd_next_expected p)) (unat (m_cmd_next_expected p'))"
proof (induction es p arbitrary: A p' out rule: cmd_run.induct)
  case (2 now r h pl es p)
  obtain q o1 where s: "cmd_handle now r h pl p = (q, o1)" by force
  obtain q2 o2 where rn: "cmd_run es q = (q2, o2)" by force
  have t: "t0 \<le> now" "now < t0 + usec (3 * uint rtt)" "0 < rtt" "r = rtt"
    using 2(6) by (simp_all add: cmd_timely_def)
  have i: "cmd_inv f (insert (sequence h) A) q"
    using cmd_handle_spec [OF 2(2) s] 2(5) by (simp add: cmd_effect_def)
  note S = cmd_handle_timely [OF 2(2,3,4) t(1,2,3) s [unfolded t(4)]] 
  have S: "cmd_none_lost a t0 (insert (sequence h) A) q" "m_cmd_next_expected p \<le> m_cmd_next_expected q"
    "o1 = cmd_span f (unat (m_cmd_next_expected p)) (unat (m_cmd_next_expected q))"
    using S 2(5) by simp_all
  have IH: "cmd_inv f (insert (sequence h) A \<union> cmd_seqs es) q2 \<and> cmd_none_lost a t0 (insert (sequence h) A \<union> cmd_seqs es) q2
     \<and> m_cmd_next_expected q \<le> m_cmd_next_expected q2
     \<and> o2 = cmd_span f (unat (m_cmd_next_expected q)) (unat (m_cmd_next_expected q2))"
    using 2(1) [OF s [symmetric] refl i S(1) 2(4) _ _ rn] 2(5,6) by simp
  have "p' = q2" "out = o1 @ o2" using 2(7) s rn by simp_all
  moreover have "cmd_span f (unat (m_cmd_next_expected p)) (unat (m_cmd_next_expected q))
      @ cmd_span f (unat (m_cmd_next_expected q)) (unat (m_cmd_next_expected q2))
      = cmd_span f (unat (m_cmd_next_expected p)) (unat (m_cmd_next_expected q2))"
    using S(2) IH upt_append_le [of "unat (m_cmd_next_expected p)" "unat (m_cmd_next_expected q)" "unat (m_cmd_next_expected q2)"]
    by (simp add: word_le_nat_alt flip: map_append)
  ultimately show ?case using IH S by auto
next
  case (3 now r es p)
  have t: "now < t0 + usec (3 * uint rtt)" "0 < rtt" "r = rtt" using 3(6) by (simp_all add: cmd_timely_def)
  have s: "flush_expired now r p = (p, [])"
    unfolding flush_expired_def t(3) using 3(3) t(1,2) by (intro expire_timely) (auto simp: cmd_none_lost_def)
  obtain q2 o2 where rn: "cmd_run es p = (q2, o2)" by force
  have "p' = q2" "out = o2" using 3(7) s rn by simp_all
  then show ?case using 3(1) [OF s [symmetric] refl 3(2,3,4) _ _ rn] 3(5,6) by simp
qed auto

text \<open>Commands that arrive within three RTTs of each other are not lost to reordering: if every
  number from the expected one up to \<open>n\<close> further ones arrives, in any order and possibly more than
  once, all of them are delivered, in order and without a gap.\<close>

theorem command_complete:
  assumes "m_cmd_initialized p" "m_cmd_held p = []" "0 < m_cmd_next_expected p"
    and "cmd_sent_by f es" "\<forall>e \<in> set es. cmd_timely t0 rtt e"
    and "\<forall>i < n. m_cmd_next_expected p + of_nat i \<in> cmd_seqs es" "unat (m_cmd_next_expected p) + n < 2 ^ 32"
    and "cmd_run es p = (p', out)"
  shows "unat (m_cmd_next_expected p) + n \<le> unat (m_cmd_next_expected p')
    \<and> out = map (\<lambda>s. f (of_nat s)) [unat (m_cmd_next_expected p)..<unat (m_cmd_next_expected p')]"
proof -
  let ?a = "m_cmd_next_expected p"
  have "cmd_inv f {} p" "cmd_none_lost ?a t0 {} p"
    using assms(1,2) by (simp_all add: cmd_inv_def cmd_held_ok_def cmd_none_lost_def)
  from cmd_run_timely [OF this assms(3,4,5,8)]
  have R: "cmd_inv f (cmd_seqs es) p'" "cmd_none_lost ?a t0 (cmd_seqs es) p'" "?a \<le> m_cmd_next_expected p'"
    "out = cmd_span f (unat ?a) (unat (m_cmd_next_expected p'))" by simp_all
  have "unat ?a + n \<le> unat (m_cmd_next_expected p')"
  proof (rule ccontr)
    assume "\<not> ?thesis"
    then obtain i where i: "i < n" "unat (m_cmd_next_expected p') = unat ?a + i"
      using R(3) by (metis le_Suc_ex nat_add_left_cancel_less not_le word_le_nat_alt)
    then have "of_nat (unat (m_cmd_next_expected p')) = (of_nat (unat ?a + i) :: u32)" by simp
    then have "m_cmd_next_expected p' = ?a + of_nat i" by simp
    then have "m_cmd_next_expected p' \<in> cmd_seqs es" using assms(6) i by simp
    then have "m_cmd_next_expected p' \<in> fst ` set (m_cmd_held p')" using R(2,3) by (auto simp: cmd_none_lost_def)
    then show False using R(1) by (auto simp: cmd_inv_def)
  qed
  then show ?thesis using R(4) by simp
qed

theorem command_complete_witness:
  "let p = new_peer\<lparr>m_cmd_initialized := True, m_cmd_next_expected := 1\<rparr>;
       es = [CmdArrive 0 1000 (cmd_packet 2) [2], CmdArrive 1 1000 (cmd_packet 1) [1]]
   in unat (m_cmd_next_expected (fst (cmd_run es p))) \<ge> 3
      \<and> snd (cmd_run es p) = map (\<lambda>s. [ucast (of_nat s :: u32)]) [1..<unat (m_cmd_next_expected (fst (cmd_run es p)))]"
proof -
  let ?p = "new_peer\<lparr>m_cmd_initialized := True, m_cmd_next_expected := 1\<rparr>"
    and ?es = "[CmdArrive 0 1000 (cmd_packet 2) [2], CmdArrive 1 1000 (cmd_packet 1) [1]]"
  have s: "sequence (cmd_packet s) = s" for s by (simp add: cmd_packet_def)
  obtain p' out where r: "cmd_run ?es ?p = (p', out)" by force
  have "unat (m_cmd_next_expected ?p) + 2 \<le> unat (m_cmd_next_expected p')
    \<and> out = map (\<lambda>s. [ucast (of_nat s :: u32)]) [unat (m_cmd_next_expected ?p)..<unat (m_cmd_next_expected p')]"
    by (rule command_complete [where es = ?es and ?t0.0 = 0 and rtt = 1000, OF _ _ _ _ _ _ _ r])
      (auto simp: s new_peer_def cmd_timely_def usec_def less_2_cases_iff)
  then show ?thesis using r by (simp add: Let_def)
qed

text \<open>A gap does not block the channel for ever: once packets have been held for three RTTs, the
  periodic flush skips to the earliest held one and delivers it.\<close>

theorem command_gap_expires:
  assumes "cmd_inv f A p" "m_cmd_held p \<noteq> []"
    and "usec (kMaxWaitRtt * (if 0 < rtt then uint rtt else 10000)) \<le> now - m_cmd_gap_since p"
    and "flush_expired now rtt p = (p', out)"
  shows "fst (hd (m_cmd_held p)) < m_cmd_next_expected p'
    \<and> out = map (\<lambda>s. f (of_nat s)) [unat (fst (hd (m_cmd_held p)))..<unat (m_cmd_next_expected p')]"
proof -
  let ?k = "fst (hd (m_cmd_held p))"
  obtain pl rest where held: "m_cmd_held p = (?k, pl) # rest" using assms(2) by (cases "m_cmd_held p") auto
  obtain h n o' where d: "drain_held (m_cmd_held p) ?k = (h, n, o')" by (metis prod_cases3)
  have ok: "cmd_held_ok f A (m_cmd_held p)" using assms(1) by (simp add: cmd_inv_def)
  then have "\<forall>s \<in> fst ` set (m_cmd_held p). ?k \<le> s"
    using assms(2) by (intro hd_least) (simp_all add: cmd_held_ok_def)
  note D = drain_held_spec [OF ok this d]
  have r: "m_cmd_next_expected p' = n" "out = o'"
    using assms(2-4) d unfolding flush_expired_def expire_locked_def Let_def drain_locked_def
    by (auto split: if_splits)
  have "?k \<in> fst ` set (m_cmd_held p)" by (subst held) simp
  then have "n \<noteq> ?k" using D by (metis order.refl less_irrefl)
  then show ?thesis using D r by (auto simp: less_le)
qed

theorem command_gap_expires_witness:
  "let p = new_peer\<lparr>m_cmd_initialized := True, m_cmd_next_expected := 2, m_cmd_held := [(5, [7])], m_cmd_gap_since := 0\<rparr>
   in (5 :: u32) < m_cmd_next_expected (fst (flush_expired (usec 3000) 1000 p))
      \<and> snd (flush_expired (usec 3000) 1000 p) = [[7]]"
proof -
  let ?p = "new_peer\<lparr>m_cmd_initialized := True, m_cmd_next_expected := 2, m_cmd_held := [(5, [7])], m_cmd_gap_since := 0\<rparr>"
  obtain p' out where r: "flush_expired (usec 3000) 1000 ?p = (p', out)" by force
  have "cmd_inv (\<lambda>_. [7]) {5} ?p" by (simp add: cmd_inv_def cmd_held_ok_def)
  from command_gap_expires [OF this _ _ r] have "5 < m_cmd_next_expected p'"
    by (simp add: kMaxWaitRtt_def usec_def)
  moreover have "out = [[7]]"
    using r by (simp add: flush_expired_def expire_locked_def kMaxWaitRtt_def usec_def Let_def drain_locked_def
        drain_held.simps om_erase_def)
  ultimately show ?thesis using r by (simp add: Let_def)
qed

end
