(* ===== verification/Report.thy ===== *)
theory Report
  imports Reassembler
begin

text \<open>
  Receiver reports, \<open>tight/src/report.cpp\<close>: the receiver's acknowledgement cursor, late ratio,
  lost sequence numbers and probed bandwidth, and the sender's reaction to them (pruning and
  retransmitting pending packets). The calls of the \<open>resend\<close> callback are returned as a list.
\<close>

definition kMaxRetries :: nat where "kMaxRetries = 10"

section \<open>Building a report\<close>

definition skip_gap :: "u32 \<Rightarrow> peer \<Rightarrow> peer" where
  "skip_gap g p =
     (if m_seq_initialized p \<and> g = m_next_expected_seq p
      then drain_expected (p\<lparr>m_next_expected_seq := m_next_expected_seq p + 1\<rparr>)
      else p)"

definition loss_threshold_us :: "peer \<Rightarrow> u32" where
  "loss_threshold_us p =
     (let rtt_threshold = (if 0 < m_sender_rtt_us p then m_sender_rtt_us p else 10000);
          loss_threshold = rtt_threshold * 7 div 2
      in if rtt_threshold < 10000 then 100000 else loss_threshold)"

text \<open>One iteration of the loop over \<open>m_missing_seqs\<close>, on the peer, the entries kept so far and the
  sequence numbers to report.\<close>

definition scan_missing :: "timepoint \<Rightarrow> int \<Rightarrow> int \<Rightarrow> u32 \<times> timepoint
    \<Rightarrow> peer \<times> (u32, timepoint) omap \<times> u32 list \<Rightarrow> peer \<times> (u32, timepoint) omap \<times> u32 list" where
  "scan_missing now give_up_us loss_us e s = (case (e, s) of ((g, since), (p, kept, lost)) \<Rightarrow>
     let elapsed_us = count_us (now - since) in
     if \<not> m_retransmit p \<or> \<not> m_peer_retransmit p then (skip_gap g p, kept, lost)
     else if give_up_us < elapsed_us then (p, kept, lost)
     else if loss_us < elapsed_us then (skip_gap g p, kept @ [(g, since)], lost @ [g])
     else (p, kept @ [(g, since)], lost))"

definition cap_missing :: "(u32, timepoint) omap \<Rightarrow> (u32, timepoint) omap" where
  "cap_missing m = drop (length m - 4096) m"

definition report_bytes :: "u32 \<Rightarrow> u16 \<Rightarrow> u32 list \<Rightarrow> nat \<Rightarrow> bytes" where
  "report_bytes ack_seq ratio_val lost_seqs probe_bw =
     (let lost_count = (of_nat (length lost_seqs) :: u16);
          lost_count = (if 256 < lost_count then 256 else lost_count)
      in mem32 (to_be32 ack_seq) @ mem16 (to_be16 ratio_val) @ mem16 (to_be16 lost_count) @ mem32 0
         @ concat (map (\<lambda>s. mem32 (to_be32 s)) (take (unat lost_count) lost_seqs))
         @ mem32 (to_be32 (of_nat probe_bw)))"

definition finish_report :: "timepoint \<Rightarrow> (u32, timepoint) omap \<Rightarrow> u32 list \<Rightarrow> peer \<Rightarrow> bytes \<times> peer" where
  "finish_report now kept lost_seqs p =
     (let p = p\<lparr>m_missing_seqs := cap_missing kept\<rparr>;
          late_ratio = (if 0 < m_transit_samples p
                        then real (m_late_samples p) / real (m_transit_samples p) else 0);
          ratio_val = (of_int \<lfloor>late_ratio * 10000\<rfloor> :: u16);
          ack_seq = (if m_seq_initialized p
                     then if 0 < m_next_expected_seq p then m_next_expected_seq p - 1 else 0 else 0);
          p = p\<lparr>m_transit_samples := 0, m_late_samples := 0\<rparr>;
          p = finalize_probe_train now p;
          probe_bw = m_probe_bw_bps p;
          p = p\<lparr>m_probe_bw_bps := 0\<rparr>
      in (report_bytes ack_seq ratio_val lost_seqs probe_bw, p))"

definition build_payload :: "timepoint \<Rightarrow> duration \<Rightarrow> peer \<Rightarrow> bytes \<times> peer" where
  "build_payload now report_interval p =
     (let give_up_us = count_us (report_interval * int (kMaxRetries + 2));
          (p, kept, lost_seqs) =
            fold (scan_missing now give_up_us (uint (loss_threshold_us p))) (m_missing_seqs p) (p, [], [])
      in finish_report now kept lost_seqs p)"

section \<open>Handling a report\<close>

record report_fields =
  rf_ack :: u32
  rf_ratio :: u16
  rf_lost :: "u32 list"
  rf_bw :: nat

definition parse_report :: "bytes \<Rightarrow> report_fields option" where
  "parse_report payload =
     (if length payload < 12 then None
      else
        let lost_count = unat (get16 payload 6);
            expected = 12 + lost_count * 4
        in if length payload < expected then None
           else Some \<lparr>rf_ack = get32 payload 0, rf_ratio = get16 payload 4,
             rf_lost = map (\<lambda>i. get32 payload (12 + i * 4)) [0..<lost_count],
             rf_bw = (if expected + 4 \<le> length payload then unat (get32 payload expected) else 0)\<rparr>)"

definition keep_pending :: "u32 \<Rightarrow> u32 set \<Rightarrow> u32 \<times> pending_send \<Rightarrow> bool" where
  "keep_pending ack lost kv \<longleftrightarrow>
     \<not> ((fst kv \<le> ack \<and> fst kv \<notin> lost) \<or> kMaxRetries \<le> m_retries (snd kv))"

definition resend_wanted :: "u32 \<Rightarrow> u32 set \<Rightarrow> u32 \<times> pending_send \<Rightarrow> bool" where
  "resend_wanted ack lost kv \<longleftrightarrow>
     \<not> (fst kv \<le> ack \<and> fst kv \<notin> lost) \<and> fst kv \<in> lost \<and> m_retries (snd kv) < kMaxRetries"

definition mark_resent :: "timepoint \<Rightarrow> u32 \<times> pending_send \<Rightarrow> peer \<Rightarrow> peer" where
  "mark_resent now kv p =
     (case map_of (m_pending p) (fst kv) of
        Some ps \<Rightarrow>
          if m_retries ps < kMaxRetries
          then p\<lparr>m_pending := om_set (fst kv) (ps\<lparr>m_last_send := now, m_retries := m_retries ps + 1\<rparr>) (m_pending p)\<rparr>
          else p
      | None \<Rightarrow> p)"

text \<open>The result: the peer, the packets passed to \<open>resend\<close> in order, and the probed bandwidth.\<close>

definition report_handle :: "timepoint \<Rightarrow> bytes \<Rightarrow> peer \<Rightarrow> peer \<times> (packet_header \<times> bytes) list \<times> nat" where
  "report_handle now payload p =
     (case parse_report payload of
        None \<Rightarrow> (p, [], 0)
      | Some rf \<Rightarrow>
          let ratio = real (unat (rf_ratio rf)) / 10000;
              ratio = (if ratio < 0 then 0 else ratio);
              ratio = (if 1 < ratio then 1 else ratio);
              p = p\<lparr>m_peer_late_ratio := ratio\<rparr>;
              lost = set (rf_lost rf);
              snapshot = filter (resend_wanted (rf_ack rf) lost) (m_pending p);
              p = p\<lparr>m_pending := filter (keep_pending (rf_ack rf) lost) (m_pending p)\<rparr>;
              p = fold (mark_resent now) snapshot p
          in (p, map (\<lambda>kv. (m_header (snd kv), m_payload (snd kv))) snapshot, rf_bw rf))"

section \<open>Round trip\<close>

lemma concat_mem32_get32:
  "length pre = off \<Longrightarrow> i < length xs \<Longrightarrow>
   get32 (pre @ concat (map (\<lambda>s. mem32 (to_be32 s)) xs) @ post) (off + i * 4) = xs ! i"
proof (induction xs arbitrary: pre off i)
  case (Cons x xs)
  show ?case
  proof (cases i)
    case 0
    then show ?thesis using get32_at [of pre off x] Cons.prems by simp
  next
    case (Suc j)
    have "get32 ((pre @ mem32 (to_be32 x)) @ concat (map (\<lambda>s. mem32 (to_be32 s)) xs) @ post) (off + 4 + j * 4) = xs ! j"
      using Cons.prems Suc by (intro Cons.IH) simp_all
    then show ?thesis using Suc by (simp add: algebra_simps)
  qed
qed simp

lemma length_concat_mem32 [simp]: "length (concat (map (\<lambda>s. mem32 (to_be32 s)) xs)) = 4 * length xs"
  by (induction xs) simp_all

lemma parse_report_bytes:
  assumes "length lost \<le> 65535"
  shows "parse_report (report_bytes ack ratio lost bw) =
    Some \<lparr>rf_ack = ack, rf_ratio = ratio, rf_lost = take 256 lost, rf_bw = bw mod 2 ^ 32\<rparr>"
proof -
  let ?c = "of_nat (length lost) :: u16"
  let ?n = "if 256 < ?c then 256 else ?c"
  have u: "unat ?c = length lost" using assms by (simp add: unat_of_nat_u16)
  have n: "unat ?n = min 256 (length lost)" using u by (auto simp: word_less_nat_alt)
  have tk: "take (unat ?n) lost = take 256 lost" using n by (simp add: min_def)
  define pl where "pl = report_bytes ack ratio lost bw"
  define hd where "hd = mem32 (to_be32 ack) @ mem16 (to_be16 ratio) @ mem16 (to_be16 ?n) @ mem32 0"
  have pl: "pl = hd @ concat (map (\<lambda>s. mem32 (to_be32 s)) (take 256 lost)) @ mem32 (to_be32 (of_nat bw))"
    by (simp add: pl_def report_bytes_def Let_def hd_def tk)
  have lh: "length hd = 12" by (simp add: hd_def)
  have g: "get32 pl 0 = ack" "get16 pl 4 = ratio" "get16 pl 6 = ?n"
    by (simp_all add: pl hd_def get32_def get16_def)
  have lst: "get32 pl (12 + i * 4) = take 256 lost ! i" if "i < length (take 256 lost)" for i
    unfolding pl using that lh by (intro concat_mem32_get32) simp_all
  have len: "length pl = 16 + 4 * min 256 (length lost)" by (simp add: pl lh)
  have bw: "get32 pl (12 + unat ?n * 4) = of_nat bw"
    using get32_at [of "hd @ concat (map (\<lambda>s. mem32 (to_be32 s)) (take 256 lost))" "12 + unat ?n * 4" "of_nat bw" "[]"]
    by (simp add: pl lh n)
  have "map (\<lambda>i. get32 pl (12 + i * 4)) [0..<unat ?n] = take 256 lost"
    using lst n by (intro nth_equalityI) auto
  then show ?thesis
    unfolding pl_def [symmetric] parse_report_def Let_def g
    using len bw n by (simp add: unat_of_nat)
qed

section \<open>What a report says\<close>

lemma skip_gap_frame [simp]:
  "m_retransmit (skip_gap g p) = m_retransmit p" "m_peer_retransmit (skip_gap g p) = m_peer_retransmit p"
  "m_missing_seqs (skip_gap g p) = m_missing_seqs p"
  by (simp_all add: skip_gap_def drain_expected_def split: prod.split)

definition is_lost :: "timepoint \<Rightarrow> int \<Rightarrow> int \<Rightarrow> u32 \<times> timepoint \<Rightarrow> bool" where
  "is_lost now give_up loss e \<longleftrightarrow> loss < count_us (now - snd e) \<and> count_us (now - snd e) \<le> give_up"

definition not_given_up :: "timepoint \<Rightarrow> int \<Rightarrow> u32 \<times> timepoint \<Rightarrow> bool" where
  "not_given_up now give_up e \<longleftrightarrow> count_us (now - snd e) \<le> give_up"

lemma scan_missing_on:
  "m_retransmit p \<Longrightarrow> m_peer_retransmit p \<Longrightarrow>
   \<exists>p'. fold (scan_missing now give_up loss) es (p, kept, lost)
      = (p', kept @ filter (not_given_up now give_up) es, lost @ map fst (filter (is_lost now give_up loss) es))"
proof (induction es arbitrary: p kept lost)
  case (Cons e es)
  obtain g t where e: "e = (g, t)" by force
  have s: "\<exists>q. scan_missing now give_up loss e (p, kept, lost)
      = (q, kept @ filter (not_given_up now give_up) [e], lost @ map fst (filter (is_lost now give_up loss) [e]))
      \<and> m_retransmit q \<and> m_peer_retransmit q"
    using Cons.prems by (auto simp: e scan_missing_def Let_def is_lost_def not_given_up_def)
  then obtain q where "scan_missing now give_up loss e (p, kept, lost)
      = (q, kept @ filter (not_given_up now give_up) [e], lost @ map fst (filter (is_lost now give_up loss) [e]))"
    "m_retransmit q" "m_peer_retransmit q" by blast
  then show ?case
    using Cons.IH [of q "kept @ filter (not_given_up now give_up) [e]" "lost @ map fst (filter (is_lost now give_up loss) [e])"]
    by auto
qed simp

lemma scan_missing_off:
  "\<not> (m_retransmit p \<and> m_peer_retransmit p) \<Longrightarrow>
   \<exists>p'. fold (scan_missing now give_up loss) es (p, kept, lost) = (p', kept, lost)"
proof (induction es arbitrary: p)
  case (Cons e es)
  obtain g t where e: "e = (g, t)" by force
  have "scan_missing now give_up loss e (p, kept, lost) = (skip_gap g p, kept, lost)"
    using Cons.prems by (auto simp: e scan_missing_def Let_def)
  then show ?case using Cons.IH [of "skip_gap g p"] Cons.prems by simp
qed simp

definition reported_lost :: "timepoint \<Rightarrow> duration \<Rightarrow> peer \<Rightarrow> u32 list" where
  "reported_lost now interval p =
     (if m_retransmit p \<and> m_peer_retransmit p
      then map fst (filter (is_lost now (count_us (interval * 12)) (uint (loss_threshold_us p))) (m_missing_seqs p))
      else [])"

lemma finalize_missing [simp]: "m_missing_seqs (finalize_probe_train now p) = m_missing_seqs p"
  by (simp add: finalize_probe_train_def Let_def)

lemma build_payload_shape:
  "\<exists>ack ratio bw kept. fst (build_payload now interval p) = report_bytes ack ratio (reported_lost now interval p) bw
     \<and> m_missing_seqs (snd (build_payload now interval p)) = cap_missing kept
     \<and> kept = (if m_retransmit p \<and> m_peer_retransmit p
               then filter (not_given_up now (count_us (interval * 12))) (m_missing_seqs p) else [])"
proof -
  let ?g = "count_us (interval * 12)" and ?l = "uint (loss_threshold_us p)"
  define kept where "kept = (if m_retransmit p \<and> m_peer_retransmit p
               then filter (not_given_up now ?g) (m_missing_seqs p) else [])"
  have "\<exists>q. fold (scan_missing now ?g ?l) (m_missing_seqs p) (p, [], []) = (q, kept, reported_lost now interval p)"
    using scan_missing_on [of p now ?g ?l "m_missing_seqs p" "[]" "[]"]
      scan_missing_off [of p now ?g ?l "m_missing_seqs p" "[]" "[]"]
    by (auto simp: kept_def reported_lost_def)
  then obtain q where f: "fold (scan_missing now ?g ?l) (m_missing_seqs p) (p, [], []) = (q, kept, reported_lost now interval p)"
    by blast
  then have "build_payload now interval p = finish_report now kept (reported_lost now interval p) q"
    by (simp add: build_payload_def kMaxRetries_def)
  moreover obtain ack ratio bw where "fst (finish_report now kept (reported_lost now interval p) q)
      = report_bytes ack ratio (reported_lost now interval p) bw"
    unfolding finish_report_def Let_def fst_conv by blast
  moreover have "m_missing_seqs (snd (finish_report now kept (reported_lost now interval p) q)) = cap_missing kept"
    by (simp add: finish_report_def Let_def)
  ultimately show ?thesis
    by (intro exI [of _ ack] exI [of _ ratio] exI [of _ bw] exI [of _ kept]) (simp add: kept_def)
qed

text \<open>A report round-trips: the sender reads from the receiver's report exactly the first 256
  sequence numbers that have been missing for longer than the loss threshold and not yet given up,
  none when either end has switched retransmission off; and the receiver's table of missing
  numbers stays within 4096 entries.\<close>

theorem report_roundtrip:
  assumes "length (m_missing_seqs p) \<le> 65535"
  shows "map_option rf_lost (parse_report (fst (build_payload now interval p)))
      = Some (take 256 (reported_lost now interval p))
    \<and> length (m_missing_seqs (snd (build_payload now interval p))) \<le> 4096"
proof -
  obtain ack ratio bw kept where b: "fst (build_payload now interval p) = report_bytes ack ratio (reported_lost now interval p) bw"
    "m_missing_seqs (snd (build_payload now interval p)) = cap_missing kept"
    using build_payload_shape [of now interval p] by blast
  have "length (reported_lost now interval p) \<le> length (m_missing_seqs p)"
    by (simp add: reported_lost_def)
  then show ?thesis
    using assms by (simp add: b parse_report_bytes cap_missing_def)
qed

theorem report_roundtrip_witness:
  "map_option rf_lost (parse_report (fst (build_payload (sec 1) (sec 1) (new_peer\<lparr>m_missing_seqs := [(7, 0), (9, sec 1)]\<rparr>))))
    = Some [7]"
  by (subst conjunct1 [OF report_roundtrip])
    (simp_all add: reported_lost_def is_lost_def new_peer_def loss_threshold_us_def count_us_def trunc_div_def sec_def)

section \<open>What the sender does\<close>

lemma mark_resent_lookup:
  "om_wf (m_pending p) \<Longrightarrow> om_wf (m_pending (mark_resent now kv p)) \<and>
   map_of (m_pending (mark_resent now kv p)) = (\<lambda>s. map_option (\<lambda>ps.
     if s = fst kv \<and> m_retries ps < kMaxRetries then ps\<lparr>m_last_send := now, m_retries := m_retries ps + 1\<rparr> else ps)
     (map_of (m_pending p) s))"
proof -
  assume wf: "om_wf (m_pending p)"
  have "map_of (m_pending (mark_resent now kv p)) s = map_option (\<lambda>ps.
     if s = fst kv \<and> m_retries ps < kMaxRetries then ps\<lparr>m_last_send := now, m_retries := m_retries ps + 1\<rparr> else ps)
     (map_of (m_pending p) s)" for s
    by (cases "map_of (m_pending p) (fst kv)"; cases "map_of (m_pending p) s")
      (auto simp: mark_resent_def om_set_map_of [OF wf])
  then show ?thesis using wf by (auto simp: mark_resent_def split: option.split)
qed

lemma fold_mark_resent:
  "om_wf (m_pending p) \<Longrightarrow> distinct (map fst kvs) \<Longrightarrow>
   map_of (m_pending (fold (mark_resent now) kvs p)) s = map_option (\<lambda>ps.
     if s \<in> fst ` set kvs \<and> m_retries ps < kMaxRetries then ps\<lparr>m_last_send := now, m_retries := m_retries ps + 1\<rparr> else ps)
     (map_of (m_pending p) s) \<and> om_wf (m_pending (fold (mark_resent now) kvs p))"
proof (induction kvs arbitrary: p)
  case (Cons kv kvs)
  note m = mark_resent_lookup [OF Cons.prems(1), of now kv]
  show ?case
    using Cons.IH [of "mark_resent now kv p"] Cons.prems m
    by (cases "map_of (m_pending p) s"; cases "s = fst kv") (auto simp: image_iff)
qed (simp add: option.map_ident)

lemma om_wf_distinct_filter: "om_wf m \<Longrightarrow> distinct (map fst (filter P m))"
  by (simp add: om_wf_distinct)

lemma report_handle_pending:
  assumes wf: "om_wf (m_pending p)" and rf: "parse_report payload = Some rf"
    and h: "report_handle now payload p = (p', resent, bw)"
  shows "map_of (m_pending p') s =
      (case map_of (m_pending p) s of
         None \<Rightarrow> None
       | Some ps \<Rightarrow>
           if kMaxRetries \<le> m_retries ps \<or> (s \<le> rf_ack rf \<and> s \<notin> set (rf_lost rf)) then None
           else if s \<in> set (rf_lost rf) then Some (ps\<lparr>m_last_send := now, m_retries := m_retries ps + 1\<rparr>)
           else Some ps)
    \<and> om_wf (m_pending p')
    \<and> resent = map (\<lambda>kv. (m_header (snd kv), m_payload (snd kv)))
        (filter (\<lambda>kv. fst kv \<in> set (rf_lost rf) \<and> m_retries (snd kv) < kMaxRetries) (m_pending p))"
proof -
  let ?L = "set (rf_lost rf)"
  define snap where "snap = filter (resend_wanted (rf_ack rf) ?L) (m_pending p)"
  have snap: "snap = filter (\<lambda>kv. fst kv \<in> ?L \<and> m_retries (snd kv) < kMaxRetries) (m_pending p)"
    unfolding snap_def by (rule filter_cong) (auto simp: resend_wanted_def)
  obtain q where q: "p' = fold (mark_resent now) snap q" "m_pending q = filter (keep_pending (rf_ack rf) ?L) (m_pending p)"
    and r: "resent = map (\<lambda>kv. (m_header (snd kv), m_payload (snd kv))) snap"
    using h unfolding report_handle_def rf option.case Let_def snap_def by auto
  have wfq: "om_wf (m_pending q)" using wf q by simp
  have d: "distinct (map fst snap)" unfolding snap_def using wf by (rule om_wf_distinct_filter)
  note F = fold_mark_resent [OF wfq d, of now s]
  have lk: "map_of (m_pending q) s = (case map_of (m_pending p) s of None \<Rightarrow> None
      | Some ps \<Rightarrow> if keep_pending (rf_ack rf) ?L (s, ps) then Some ps else None)"
    unfolding q(2) using wf by (rule om_filter_map_of)
  have mem: "s \<in> fst ` set snap \<longleftrightarrow> s \<in> ?L \<and> m_retries ps < kMaxRetries" if "map_of (m_pending p) s = Some ps" for ps
    using that wf om_wf_distinct [OF wf] unfolding snap
    by (auto simp: image_iff dest!: map_of_SomeD dest: eq_key_imp_eq_value)
  show ?thesis
    using F lk mem q(1) r snap by (cases "map_of (m_pending p) s") (auto simp: keep_pending_def not_le)
qed

text \<open>The sender's reaction to a report, entry by entry: acknowledged and exhausted packets are
  dropped, exactly the packets reported lost with retries left are resent, and each of them stays
  pending with its retry counted.\<close>

theorem report_handle_spec:
  assumes "om_wf (m_pending p)" "parse_report payload = Some rf" "report_handle now payload p = (p', resent, bw)"
  shows "map_of (m_pending p') = (\<lambda>s. case map_of (m_pending p) s of
         None \<Rightarrow> None
       | Some ps \<Rightarrow>
           if kMaxRetries \<le> m_retries ps \<or> (s \<le> rf_ack rf \<and> s \<notin> set (rf_lost rf)) then None
           else if s \<in> set (rf_lost rf) then Some (ps\<lparr>m_last_send := now, m_retries := m_retries ps + 1\<rparr>)
           else Some ps)
    \<and> resent = map (\<lambda>kv. (m_header (snd kv), m_payload (snd kv)))
        (filter (\<lambda>kv. fst kv \<in> set (rf_lost rf) \<and> m_retries (snd kv) < kMaxRetries) (m_pending p))"
  using report_handle_pending [OF assms] by (auto simp: fun_eq_iff)

theorem report_handle_spec_witness:
  "let p = new_peer\<lparr>m_pending := [(3, new_pending), (5, new_pending)]\<rparr>;
       r = report_handle 9 (report_bytes 4 0 [5] 0) p
   in map_of (m_pending (fst r)) 3 = None \<and> fst (snd r) = [(empty_header, [])]"
proof -
  let ?p = "new_peer\<lparr>m_pending := [(3, new_pending), (5, new_pending)]\<rparr>"
  obtain p' resent bw where r: "report_handle 9 (report_bytes 4 0 [5] 0) ?p = (p', resent, bw)" by (metis prod_cases3)
  have pr: "parse_report (report_bytes 4 0 [5] 0) = Some \<lparr>rf_ack = 4, rf_ratio = 0, rf_lost = [5], rf_bw = 0\<rparr>"
    by (subst parse_report_bytes) simp_all
  have "om_wf (m_pending ?p)" by simp
  from report_handle_spec [OF this pr r] show ?thesis
    unfolding Let_def r by (simp add: new_pending_def kMaxRetries_def)
qed

section \<open>Retransmissions are bounded\<close>

fun run_reports :: "(timepoint \<times> bytes) list \<Rightarrow> peer \<Rightarrow> peer \<times> (packet_header \<times> bytes) list" where
  "run_reports [] p = (p, [])"
| "run_reports ((now, payload) # rs) p =
     (case report_handle now payload p of (p, resent, bw) \<Rightarrow>
        (case run_reports rs p of (p, resent') \<Rightarrow> (p, resent @ resent')))"

definition pending_ok :: "peer \<Rightarrow> bool" where
  "pending_ok p \<longleftrightarrow> om_wf (m_pending p) \<and> (\<forall>(s, ps) \<in> set (m_pending p). sequence (m_header ps) = s)"

definition retries_left :: "u32 \<Rightarrow> peer \<Rightarrow> nat" where
  "retries_left s p = (case map_of (m_pending p) s of None \<Rightarrow> 0 | Some ps \<Rightarrow> kMaxRetries - m_retries ps)"

abbreviation count_seq :: "u32 \<Rightarrow> (packet_header \<times> bytes) list \<Rightarrow> nat" where
  "count_seq s xs \<equiv> length (filter (\<lambda>(h, pl). sequence h = s) xs)"

lemma om_filter_key:
  "om_wf m \<Longrightarrow> filter (\<lambda>kv. P kv \<and> fst kv = s) m =
     (case map_of m s of None \<Rightarrow> [] | Some v \<Rightarrow> if P (s, v) then [(s, v)] else [])"
proof (induction m)
  case (Cons a m)
  obtain k v where a: "a = (k, v)" by force
  have "map_of m s = None" if "s = k" using Cons.prems that by (auto simp: a map_of_eq_None_iff)
  with Cons a show ?case by (auto split: option.splits)
qed simp

lemma report_handle_step:
  assumes ok: "pending_ok p" and h: "report_handle now payload p = (p', resent, bw)"
  shows "pending_ok p' \<and> count_seq s resent + retries_left s p' \<le> retries_left s p"
proof (cases "parse_report payload")
  case None
  then show ?thesis using ok h by (simp add: report_handle_def)
next
  case (Some rf)
  have wf: "om_wf (m_pending p)" and sq: "\<forall>(s, ps) \<in> set (m_pending p). sequence (m_header ps) = s"
    using ok by (simp_all add: pending_ok_def)
  note S = report_handle_pending [OF wf Some h]
  have "pending_ok p'"
    unfolding pending_ok_def
  proof (intro conjI ballI)
    show "om_wf (m_pending p')" using S by blast
    fix x assume "x \<in> set (m_pending p')"
    then obtain t ps where x: "x = (t, ps)" "map_of (m_pending p') t = Some ps"
      using S om_wf_distinct by (metis map_of_is_SomeI surj_pair)
    then obtain ps0 where "map_of (m_pending p) t = Some ps0" "m_header ps = m_header ps0"
      using report_handle_pending [OF wf Some h, of t] by (auto split: option.splits if_splits)
    then show "case x of (s, ps) \<Rightarrow> sequence (m_header ps) = s"
      using sq x by (auto dest!: map_of_SomeD)
  qed
  moreover have "count_seq s resent = length (filter (\<lambda>kv. (fst kv \<in> set (rf_lost rf) \<and> m_retries (snd kv) < kMaxRetries) \<and> fst kv = s) (m_pending p))"
  proof -
    have "filter (\<lambda>kv. fst kv \<in> set (rf_lost rf) \<and> m_retries (snd kv) < kMaxRetries \<and> sequence (m_header (snd kv)) = s) (m_pending p)
        = filter (\<lambda>kv. (fst kv \<in> set (rf_lost rf) \<and> m_retries (snd kv) < kMaxRetries) \<and> fst kv = s) (m_pending p)"
      using sq by (intro filter_cong refl) auto
    then show ?thesis using S by (simp add: filter_map o_def)
  qed
  then have "count_seq s resent + retries_left s p' \<le> retries_left s p"
    unfolding om_filter_key [OF wf] retries_left_def using S by (auto split: option.splits if_splits)
  ultimately show ?thesis by blast
qed

lemma run_reports_bound:
  "pending_ok p \<Longrightarrow> run_reports rs p = (p', resent) \<Longrightarrow> count_seq s resent + retries_left s p' \<le> retries_left s p"
proof (induction rs p arbitrary: p' resent rule: run_reports.induct)
  case (2 now payload rs p)
  obtain q r1 bw where h: "report_handle now payload p = (q, r1, bw)" by (metis prod_cases3)
  obtain q2 r2 where r: "run_reports rs q = (q2, r2)" by force
  have e: "p' = q2" "resent = r1 @ r2" using 2(3) h r by simp_all
  show ?case
    using report_handle_step [OF 2(2) h, of s] 2(1) [OF h [symmetric] refl _ r] e by force
qed simp

text \<open>However many reports arrive and whatever they say, one pending packet is retransmitted at
  most ten times.\<close>

theorem retransmissions_bounded:
  assumes "om_wf (m_pending p)" "\<forall>(s, ps) \<in> set (m_pending p). sequence (m_header ps) = s"
  shows "length (filter (\<lambda>(h, pl). sequence h = s) (snd (run_reports rs p))) \<le> kMaxRetries"
proof -
  have "pending_ok p" using assms by (simp add: pending_ok_def)
  from run_reports_bound [OF this, of rs "fst (run_reports rs p)" "snd (run_reports rs p)" s]
  have "count_seq s (snd (run_reports rs p)) \<le> retries_left s p" by simp
  also have "\<dots> \<le> kMaxRetries" by (simp add: retries_left_def split: option.split)
  finally show ?thesis .
qed

theorem retransmissions_bounded_witness:
  "length (filter (\<lambda>(h, pl). sequence h = 3)
     (snd (run_reports [(1, report_bytes 0 0 [3] 0), (2, report_bytes 0 0 [3] 0)]
       (new_peer\<lparr>m_pending := [(3, new_pending\<lparr>m_header := empty_header\<lparr>sequence := 3\<rparr>\<rparr>)]\<rparr>)))) \<le> 10"
  using retransmissions_bounded [of "new_peer\<lparr>m_pending := [(3, new_pending\<lparr>m_header := empty_header\<lparr>sequence := 3\<rparr>\<rparr>)]\<rparr>" 3
      "[(1, report_bytes 0 0 [3] 0), (2, report_bytes 0 0 [3] 0)]"]
  by (simp add: kMaxRetries_def)

section \<open>A filled gap is still reported\<close>

text \<open>The packet that fills the gap at the expected number does not leave the table of missing
  numbers, so the receiver later reports it as lost although it has arrived: numbers 1, 3 and 2
  arrive in this order, and a report 200 ms later asks for 2 again.\<close>

lemma filled_gap_reported:
  "let p = fold (track_sequence 0) [1, 3, 2] new_peer
   in m_next_expected_seq p = 4 \<and> reported_lost (msec 200) (sec 1) p = [2]"
proof -
  have s3: "track_sequence 0 3 (new_peer\<lparr>m_next_expected_seq := 2, m_seq_initialized := True\<rparr>)
      = new_peer\<lparr>m_next_expected_seq := 2, m_seq_initialized := True, m_missing_seqs := [(2, 0)], m_recv_seqs := [3]\<rparr>"
    by (simp add: track_sequence_def new_peer_def note_missing_def om_emplace_def drain_expected_def
        drain_recv.simps insort_insert_key_def upt_rec)
  have s2: "track_sequence 0 2 (new_peer\<lparr>m_next_expected_seq := 2, m_seq_initialized := True, m_missing_seqs := [(2, 0)], m_recv_seqs := [3]\<rparr>)
      = new_peer\<lparr>m_next_expected_seq := 4, m_seq_initialized := True, m_missing_seqs := [(2, 0)], m_recv_seqs := []\<rparr>"
    by (simp add: track_sequence_def new_peer_def drain_expected_def drain_recv.simps insort_insert_key_def)
  have s1: "track_sequence 0 1 new_peer = new_peer\<lparr>m_next_expected_seq := 2, m_seq_initialized := True\<rparr>"
    by (simp add: track_sequence_def new_peer_def)
  have f: "fold (track_sequence 0) [1, 3, 2] new_peer
      = new_peer\<lparr>m_next_expected_seq := 4, m_seq_initialized := True, m_missing_seqs := [(2, 0)], m_recv_seqs := []\<rparr>"
    by (simp only: fold_simps s1 s2 s3 id_apply)
  show ?thesis
    unfolding f Let_def
    by (simp add: reported_lost_def is_lost_def loss_threshold_us_def count_us_def trunc_div_def sec_def
        msec_def new_peer_def)
qed

end
