(* ===== verification/Bandwidth.thy ===== *)
theory Bandwidth
  imports Prelude Complex_Main
begin

text \<open>
  The bandwidth and RTT estimator, \<open>tight/src/bandwidth.cpp\<close> and \<open>tight/include/tight/bandwidth.hpp\<close>.
  RTTs are microseconds of type \<open>int\<close>, rates bytes per second of type \<open>nat\<close> (the product
  \<open>bytes * 1000000\<close> stays far below 2^64 for datagram sizes), gains and ratios real numbers.
\<close>

definition kWindowSize :: nat where "kWindowSize = 10"
definition kGainUp :: real where "kGainUp = 125 / 100"
definition kGainDown :: real where "kGainDown = 75 / 100"
definition kQueueHigh :: real where "kQueueHigh = 15 / 10"
definition kQueueLow :: real where "kQueueLow = 12 / 10"
definition kQueueTight :: real where "kQueueTight = 11 / 10"
definition kLateHigh :: real where "kLateHigh = 10 / 100"
definition kLateLow :: real where "kLateLow = 2 / 100"

record bandwidth =
  m_window :: "nat list"
  m_window_pos :: nat
  m_window_count :: nat
  m_btl_bw :: nat
  m_floor :: nat
  m_gain :: real
  m_last_late_ratio :: real
  m_have_late :: bool
  m_late_rising :: bool
  m_rtt :: int
  m_rt_prop :: int
  m_prev_rtt :: int
  m_have_prev_rtt :: bool

definition new_bandwidth :: "nat \<Rightarrow> bandwidth" where
  "new_bandwidth initial = \<lparr>m_window = replicate kWindowSize 0, m_window_pos = 0, m_window_count = 0,
     m_btl_bw = (if initial = 0 then 1 else initial), m_floor = (if initial = 0 then 1 else initial),
     m_gain = 1, m_last_late_ratio = 0, m_have_late = False, m_late_rising = False, m_rtt = 0, m_rt_prop = 0,
     m_prev_rtt = 0, m_have_prev_rtt = False\<rparr>"

definition primary_gain :: "bandwidth \<Rightarrow> real" where
  "primary_gain b =
     (if 0 < m_rt_prop b \<and> 0 < m_rtt b then
        let queue_ratio = real_of_int (m_rtt b) / real_of_int (m_rt_prop b);
            rising = (m_have_prev_rtt b \<and> m_prev_rtt b * 105 < m_rtt b * 100)
        in if kQueueHigh \<le> queue_ratio \<or> (rising \<and> kQueueLow \<le> queue_ratio) then kGainDown
           else if queue_ratio \<le> kQueueTight \<and> \<not> rising then kGainUp else 1
      else 1)"

definition recompute_gain :: "bandwidth \<Rightarrow> bandwidth" where
  "recompute_gain b =
     (let primary = primary_gain b;
          gain = (if m_have_late b then
                    if kLateHigh \<le> m_last_late_ratio b \<or> (m_late_rising b \<and> kLateLow \<le> m_last_late_ratio b)
                    then min primary kGainDown
                    else if kLateLow < m_last_late_ratio b then min primary 1 else primary
                  else primary)
      in b\<lparr>m_gain := gain\<rparr>)"

definition window_add :: "nat \<Rightarrow> bandwidth \<Rightarrow> bandwidth" where
  "window_add sample b =
     (let b = b\<lparr>m_window := (m_window b)[m_window_pos b := sample],
                m_window_pos := (m_window_pos b + 1) mod length (m_window b)\<rparr>;
          b = (if m_window_count b < length (m_window b) then b\<lparr>m_window_count := m_window_count b + 1\<rparr> else b);
          best = fold max (take (m_window_count b) (m_window b)) 0
      in if 0 < best then b\<lparr>m_btl_bw := best\<rparr> else b)"

definition ack_rtt :: "int \<Rightarrow> bandwidth \<Rightarrow> bandwidth" where
  "ack_rtt rtt b =
     (let b = (if m_rt_prop b = 0 \<or> rtt < m_rt_prop b then b\<lparr>m_rt_prop := rtt\<rparr> else b);
          b = (if m_rtt b = 0 then b\<lparr>m_rtt := rtt\<rparr>
               else b\<lparr>m_prev_rtt := m_rtt b, m_have_prev_rtt := True, m_rtt := (m_rtt b * 7 + rtt) div 8\<rparr>)
      in recompute_gain b)"

definition on_ack :: "nat \<Rightarrow> int \<Rightarrow> bandwidth \<Rightarrow> bandwidth" where
  "on_ack bytes rtt b =
     (if rtt \<le> 0 then b
      else
        let b = ack_rtt rtt b
        in if bytes = 0 then b
           else
             let sample = bytes * 1000000 div nat rtt;
                 sample = (if sample = 0 then 1 else sample)
             in window_add sample b)"

definition on_late_ratio :: "real \<Rightarrow> bandwidth \<Rightarrow> bandwidth" where
  "on_late_ratio late_ratio b =
     (let late_ratio = (if late_ratio < 0 then 0 else late_ratio);
          late_ratio = (if 1 < late_ratio then 1 else late_ratio);
          b = b\<lparr>m_late_rising := (m_have_late b \<and> m_last_late_ratio b + 1 / 1000 < late_ratio),
                m_last_late_ratio := late_ratio, m_have_late := True\<rparr>
      in recompute_gain b)"

definition seed_bandwidth :: "nat \<Rightarrow> bandwidth \<Rightarrow> bandwidth" where
  "seed_bandwidth bps b = (if bps = 0 then b else b\<lparr>m_btl_bw := bps, m_floor := bps\<rparr>)"

definition bytes_per_second :: "bandwidth \<Rightarrow> nat" where
  "bytes_per_second b = max (m_floor b) (nat \<lfloor>real (m_btl_bw b) * m_gain b\<rfloor>)"

definition bw_rtt :: "bandwidth \<Rightarrow> int" where "bw_rtt b = m_rtt b"

section \<open>The estimator's runs\<close>

datatype bw_event = Ack nat int | LateRatio real | Seed nat

fun bw_step :: "bw_event \<Rightarrow> bandwidth \<Rightarrow> bandwidth" where
  "bw_step (Ack bytes rtt) b = on_ack bytes rtt b"
| "bw_step (LateRatio r) b = on_late_ratio r b"
| "bw_step (Seed bps) b = seed_bandwidth bps b"

text \<open>The specification keeps the whole history: the rate samples and RTTs seen so far.\<close>

definition rate_sample :: "nat \<Rightarrow> int \<Rightarrow> nat" where
  "rate_sample bytes rtt = max 1 (bytes * 1000000 div nat rtt)"

fun samples :: "bw_event list \<Rightarrow> nat list" where
  "samples [] = []"
| "samples (Ack bytes rtt # es) = (if 0 < rtt \<and> 0 < bytes then rate_sample bytes rtt # samples es else samples es)"
| "samples (_ # es) = samples es"

fun rtts :: "bw_event list \<Rightarrow> int list" where
  "rtts [] = []"
| "rtts (Ack bytes rtt # es) = (if 0 < rtt then rtt # rtts es else rtts es)"
| "rtts (_ # es) = rtts es"

lemma rtts_append: "rtts (es @ es') = rtts es @ rtts es'"
  by (induction es rule: rtts.induct) auto

lemma samples_append: "samples (es @ es') = samples es @ samples es'"
  by (induction es rule: samples.induct) auto

abbreviation bw_run :: "bw_event list \<Rightarrow> bandwidth \<Rightarrow> bandwidth" where
  "bw_run es b \<equiv> fold bw_step es b"

lemma recompute_gain_frame [simp]:
  "m_window (recompute_gain b) = m_window b" "m_window_pos (recompute_gain b) = m_window_pos b"
  "m_window_count (recompute_gain b) = m_window_count b" "m_btl_bw (recompute_gain b) = m_btl_bw b"
  "m_floor (recompute_gain b) = m_floor b" "m_rtt (recompute_gain b) = m_rtt b"
  "m_rt_prop (recompute_gain b) = m_rt_prop b"
  by (simp_all add: recompute_gain_def Let_def)

lemma window_add_frame [simp]:
  "m_rtt (window_add s b) = m_rtt b" "m_rt_prop (window_add s b) = m_rt_prop b" "m_gain (window_add s b) = m_gain b"
  "m_floor (window_add s b) = m_floor b"
  by (simp_all add: window_add_def Let_def)

lemma ack_rtt_frame [simp]:
  "m_window (ack_rtt rtt b) = m_window b" "m_window_pos (ack_rtt rtt b) = m_window_pos b"
  "m_window_count (ack_rtt rtt b) = m_window_count b" "m_floor (ack_rtt rtt b) = m_floor b"
  "m_rt_prop (ack_rtt rtt b) = (if m_rt_prop b = 0 \<or> rtt < m_rt_prop b then rtt else m_rt_prop b)"
  "m_rtt (ack_rtt rtt b) = (if m_rtt b = 0 then rtt else (m_rtt b * 7 + rtt) div 8)"
  by (simp_all add: ack_rtt_def Let_def)

lemma on_ack_eq:
  "0 < rtt \<Longrightarrow> 0 < bytes \<Longrightarrow> on_ack bytes rtt b = window_add (rate_sample bytes rtt) (ack_rtt rtt b)"
  by (auto simp: on_ack_def rate_sample_def Let_def max_def)

lemma on_ack_no_sample: "\<not> (0 < rtt \<and> 0 < bytes) \<Longrightarrow> on_ack bytes rtt b = (if 0 < rtt then ack_rtt rtt b else b)"
  by (auto simp: on_ack_def Let_def)

section \<open>The ring buffer is the window of the last ten samples\<close>

definition window_of :: "nat list \<Rightarrow> bandwidth \<Rightarrow> bool" where
  "window_of S b \<longleftrightarrow> length (m_window b) = 10 \<and> m_window_pos b = length S mod 10
     \<and> m_window_count b = min 10 (length S)
     \<and> (\<forall>k < length S. length S \<le> k + 10 \<longrightarrow> m_window b ! (k mod 10) = S ! k)"

definition last_ten :: "nat list \<Rightarrow> nat list" where
  "last_ten S = drop (length S - 10) S"

lemma fold_max: "fold max xs (a :: nat) = Max (set (a # xs))"
  by (metis Max.set_eq_fold)

lemma window_set:
  assumes "window_of S b"
  shows "set (take (m_window_count b) (m_window b)) = set (last_ten S)"
proof -
  have L: "length (m_window b) = 10" "m_window_count b = min 10 (length S)"
    and W: "\<And>k. k < length S \<Longrightarrow> length S \<le> k + 10 \<Longrightarrow> m_window b ! (k mod 10) = S ! k"
    using assms by (auto simp: window_of_def)
  have "set (take (m_window_count b) (m_window b)) = (\<lambda>i. m_window b ! i) ` {..<min 10 (length S)}"
    using L nth_image [of "min 10 (length S)" "m_window b"] by (simp add: lessThan_atLeast0)
  also have "\<dots> = (\<lambda>k. m_window b ! (k mod 10)) ` {length S - 10..<length S}"
  proof -
    have "{..<min 10 (length S)} = (\<lambda>k. k mod 10) ` {length S - 10..<length S}"
    proof (cases "length S \<le> 10")
      case True
      then have "(\<lambda>k. k mod 10) ` {0..<length S} = (\<lambda>k. k) ` {0..<length S}" by (intro image_cong) auto
      then show ?thesis using True by auto
    next
      case False
      have "i \<in> (\<lambda>k. k mod 10) ` {length S - 10..<length S}" if "i < 10" for i
      proof
        let ?k = "length S - 10 + (i + 10 - (length S - 10) mod 10) mod 10"
        have "?k mod 10 = ((length S - 10) mod 10 + (i + 10 - (length S - 10) mod 10)) mod 10"
          by (simp only: mod_add_left_eq mod_add_right_eq)
        also have "(length S - 10) mod 10 + (i + 10 - (length S - 10) mod 10) = i + 10" by simp
        also have "\<dots> mod 10 = i" using that by simp
        finally show "i = ?k mod 10" by simp
        show "?k \<in> {length S - 10..<length S}" using False by auto
      qed
      then show ?thesis using False by auto
    qed
    then show ?thesis by (simp add: image_image)
  qed
  also have "\<dots> = (\<lambda>k. S ! k) ` {length S - 10..<length S}" by (rule image_cong) (auto intro!: W)
  also have "\<dots> = set (last_ten S)"
  proof -
    have "drop (length S - 10) S = map (\<lambda>k. S ! k) [length S - 10..<length S]"
      by (metis (no_types) add_0 drop_map drop_upt map_nth)
    then show ?thesis by (simp add: last_ten_def)
  qed
  finally show ?thesis .
qed

lemma window_of_new: "window_of [] (new_bandwidth i)"
  by (simp add: window_of_def new_bandwidth_def kWindowSize_def)

lemma window_of_cong:
  "m_window b' = m_window b \<Longrightarrow> m_window_pos b' = m_window_pos b \<Longrightarrow> m_window_count b' = m_window_count b
   \<Longrightarrow> window_of S b' = window_of S b"
  by (simp add: window_of_def)

lemma window_of_write:
  assumes "window_of S b"
  shows "window_of (S @ [s]) (b\<lparr>m_window := (m_window b)[m_window_pos b := s],
           m_window_pos := (m_window_pos b + 1) mod 10, m_window_count := min 10 (length S + 1)\<rparr>)"
proof -
  have eq: "k mod 10 \<noteq> length S mod 10" if "k < length S" "length S \<le> 9 + k" for k
  proof
    assume "k mod 10 = length S mod 10"
    then have "10 dvd length S - k" using that(1) by (metis mod_eq_dvd_iff_nat less_imp_le_nat)
    then show False using that dvd_imp_le [of 10 "length S - k"] by simp
  qed
  from assms show ?thesis
    by (auto simp: window_of_def nth_append nth_list_update less_Suc_eq mod_simps) (metis eq)
qed

lemma window_of_add:
  assumes "window_of S b"
  shows "window_of (S @ [s]) (window_add s b)"
proof -
  have "length (m_window b) = 10" "m_window_count b = min 10 (length S)" using assms by (auto simp: window_of_def)
  then show ?thesis
    using window_of_write [OF assms, of s] unfolding window_add_def Let_def
    by (subst window_of_cong) (auto simp: min_def cong: if_cong)
qed

lemma window_of_frame [simp]: "window_of S (ack_rtt rtt b) = window_of S b"
  by (rule window_of_cong) simp_all

lemma window_of_ack:
  assumes "window_of S b"
  shows "window_of (S @ samples [Ack bytes rtt]) (on_ack bytes rtt b)"
  using assms window_of_add [of S "ack_rtt rtt b"]
  by (cases "0 < rtt \<and> 0 < bytes") (auto simp: on_ack_eq on_ack_no_sample)

lemma window_of_step: "window_of S b \<Longrightarrow> window_of (S @ samples [e]) (bw_step e b)"
proof (cases e)
  case (Ack bytes rtt)
  then show "window_of S b \<Longrightarrow> ?thesis" using window_of_ack by simp
qed (auto simp: on_late_ratio_def seed_bandwidth_def Let_def elim!: window_of_cong [THEN iffD1, rotated 3])

lemma window_of_run: "window_of S b \<Longrightarrow> window_of (S @ samples es) (bw_run es b)"
proof (induction es arbitrary: S b)
  case (Cons e es)
  from Cons.IH [OF window_of_step [OF Cons.prems]]
  show ?case using samples_append [of "[e]" es] by simp
qed simp

lemma samples_positive: "s \<in> set (samples es) \<Longrightarrow> 0 < s"
  by (induction es rule: samples.induct) (auto simp: rate_sample_def split: if_splits)

lemma window_add_btl:
  assumes "window_of S b" "0 < s"
  shows "m_btl_bw (window_add s b) = Max (set (last_ten (S @ [s])))"
proof -
  let ?b = "window_add s b"
  have W: "window_of (S @ [s]) ?b" by (rule window_of_add [OF assms(1)])
  let ?best = "fold max (take (m_window_count ?b) (m_window ?b)) 0"
  have S: "set (last_ten (S @ [s])) \<noteq> {}" "s \<in> set (last_ten (S @ [s]))"
    by (auto simp: last_ten_def)
  have best: "?best = Max (set (last_ten (S @ [s])))"
    using S by (simp add: fold_max window_set [OF W])
  then have "0 < ?best" using S(2) assms(2) by (metis List.finite_set Max_ge gr_zeroI leD)
  then have "m_btl_bw ?b = ?best" by (auto simp: window_add_def Let_def split: if_splits)
  with best show ?thesis by simp
qed

text \<open>The bottleneck estimate is a windowed maximum: after any history of acknowledgements, late
  ratios and seeds that ends in an acknowledgement with payload and a positive round trip, it is the
  largest of the last ten delivery-rate samples, kept in a ring buffer of ten slots.\<close>

theorem btl_bw_windowed_max:
  assumes "0 < rtt" "0 < bytes"
  shows "m_btl_bw (bw_run (es @ [Ack bytes rtt]) (new_bandwidth initial))
         = Max (set (last_ten (samples (es @ [Ack bytes rtt]))))"
proof -
  let ?b = "bw_run es (new_bandwidth initial)"
  have W: "window_of (samples es) ?b" using window_of_run [OF window_of_new] by simp
  then have "window_of (samples es) (ack_rtt rtt ?b)" by simp
  from window_add_btl [OF this, of "rate_sample bytes rtt"] show ?thesis
    using assms by (simp add: samples_append on_ack_eq rate_sample_def)
qed

theorem btl_bw_windowed_max_witness:
  "m_btl_bw (bw_run ([Ack 3000 1000, LateRatio 0] @ [Ack 1000 1000]) (new_bandwidth 5)) = 3000000"
  using btl_bw_windowed_max [of 1000 1000 "[Ack 3000 1000, LateRatio 0]" 5]
  by (simp add: last_ten_def rate_sample_def)

section \<open>Round-trip times\<close>

definition rtt_ok :: "int list \<Rightarrow> bandwidth \<Rightarrow> bool" where
  "rtt_ok R b \<longleftrightarrow> (if R = [] then m_rt_prop b = 0 \<and> m_rtt b = 0
     else m_rt_prop b = Min (set R) \<and> Min (set R) \<le> m_rtt b \<and> m_rtt b \<le> Max (set R))"

lemma smoothing_bounds:
  fixes a m r :: int
  assumes "lo \<le> m" "m \<le> hi"
  shows "min lo r \<le> (m * 7 + r) div 8" "(m * 7 + r) div 8 \<le> max hi r"
  using assms by (auto simp: min_def max_def)

lemma on_ack_rtt:
  "m_rt_prop (on_ack bytes rtt b) =
     (if rtt \<le> 0 then m_rt_prop b else if m_rt_prop b = 0 then rtt else min (m_rt_prop b) rtt)"
  "m_rtt (on_ack bytes rtt b) =
     (if rtt \<le> 0 then m_rtt b else if m_rtt b = 0 then rtt else (m_rtt b * 7 + rtt) div 8)"
  by (simp_all add: on_ack_def Let_def min_def)

lemma rtt_ok_step:
  assumes "rtt_ok R b" "\<forall>r \<in> set R. 0 < r"
  shows "rtt_ok (R @ rtts [e]) (bw_step e b)"
proof (cases e)
  case (Ack bytes rtt)
  show ?thesis
  proof (cases "0 < rtt \<and> R \<noteq> []")
    case True
    then have "0 < Min (set R)" using assms(2) by (subst Min_gr_iff) auto
    moreover have "Min (set R) \<le> m_rtt b" using assms(1) True by (simp add: rtt_ok_def)
    ultimately have P: "Min (set R) \<noteq> 0" "m_rtt b \<noteq> 0" "R \<noteq> []" using True by linarith+
    have "Min (set (R @ [rtt])) = min (Min (set R)) rtt" "Max (set (R @ [rtt])) = max (Max (set R)) rtt"
      using True by (simp_all add: min.commute max.commute)
    moreover have "min (Min (set R)) rtt \<le> (m_rtt b * 7 + rtt) div 8" "(m_rtt b * 7 + rtt) div 8 \<le> max (Max (set R)) rtt"
      using assms(1) True by (auto simp: rtt_ok_def intro: smoothing_bounds)
    ultimately show ?thesis using assms(1) P True Ack
      by (simp add: rtt_ok_def on_ack_rtt del: set_append)
  next
    case False
    then show ?thesis using assms(1) Ack by (auto simp: rtt_ok_def on_ack_rtt)
  qed
qed (use assms in \<open>auto simp: rtt_ok_def on_late_ratio_def seed_bandwidth_def Let_def\<close>)

lemma rtts_positive: "r \<in> set (rtts es) \<Longrightarrow> 0 < r"
  by (induction es rule: rtts.induct) (auto split: if_splits)

lemma rtt_ok_run: "rtt_ok R b \<Longrightarrow> \<forall>r \<in> set R. 0 < r \<Longrightarrow> rtt_ok (R @ rtts es) (bw_run es b)"
proof (induction es arbitrary: R b)
  case (Cons e es)
  have "\<forall>r \<in> set (R @ rtts [e]). 0 < r" using Cons.prems(2) rtts_positive by auto
  from Cons.IH [OF rtt_ok_step [OF Cons.prems] this]
  show ?case using rtts_append [of "[e]" es] by simp
qed simp

text \<open>After any history with at least one positive round-trip sample the propagation estimate is
  the smallest sample seen, and the smoothed round-trip time lies between the smallest and the largest.\<close>

theorem rtt_estimate_bounds:
  assumes "rtts es \<noteq> []"
  shows "m_rt_prop (bw_run es (new_bandwidth initial)) = Min (set (rtts es))
         \<and> Min (set (rtts es)) \<le> bw_rtt (bw_run es (new_bandwidth initial))
         \<and> bw_rtt (bw_run es (new_bandwidth initial)) \<le> Max (set (rtts es))"
proof -
  have "rtt_ok [] (new_bandwidth initial)" by (simp add: rtt_ok_def new_bandwidth_def)
  from rtt_ok_run [OF this, of es] show ?thesis using assms by (simp add: rtt_ok_def bw_rtt_def)
qed

theorem rtt_estimate_bounds_witness:
  "m_rt_prop (bw_run [Ack 0 800, Ack 0 400] (new_bandwidth 1)) = 400"
  using rtt_estimate_bounds [of "[Ack 0 800, Ack 0 400]" 1] by simp

section \<open>The pacing rate\<close>

lemma primary_gain_cases: "primary_gain b \<in> {kGainDown, 1, kGainUp}"
  by (simp add: primary_gain_def Let_def)

lemma recompute_gain_bounds:
  "kGainDown \<le> m_gain (recompute_gain b)" "m_gain (recompute_gain b) \<le> primary_gain b"
  using primary_gain_cases [of b]
  by (auto simp: recompute_gain_def Let_def kGainDown_def kGainUp_def min_def)

definition gain_ok :: "bandwidth \<Rightarrow> bool" where
  "gain_ok b \<longleftrightarrow> kGainDown \<le> m_gain b \<and> m_gain b \<le> kGainUp"

lemma gain_ok_recompute: "gain_ok (recompute_gain b)"
  using recompute_gain_bounds [of b] primary_gain_cases [of b]
  by (auto simp: gain_ok_def kGainDown_def kGainUp_def)

lemma gain_ok_step: "gain_ok b \<Longrightarrow> gain_ok (bw_step e b)"
proof (cases e)
  case (Ack bytes rtt)
  then show "gain_ok b \<Longrightarrow> ?thesis"
    using gain_ok_recompute by (auto simp: on_ack_def ack_rtt_def Let_def gain_ok_def)
qed (auto simp: on_late_ratio_def seed_bandwidth_def Let_def gain_ok_recompute, simp add: gain_ok_def)

lemma gain_ok_run: "gain_ok b \<Longrightarrow> gain_ok (bw_run es b)"
  by (induction es arbitrary: b) (auto intro: gain_ok_step)

text \<open>The pacing rate never falls below the configured or seeded floor and never exceeds
  1.25 times the bottleneck estimate (or the floor), and a reported late ratio of ten per cent
  or more caps it at 0.75 times the estimate (or the floor).\<close>

theorem pacing_rate_bounds:
  fixes es initial r
  defines "b \<equiv> bw_run es (new_bandwidth initial)"
  defines "b' \<equiv> on_late_ratio r b"
  shows "m_floor b \<le> bytes_per_second b
         \<and> real (bytes_per_second b) \<le> max (real (m_floor b)) (kGainUp * real (m_btl_bw b))
         \<and> (kLateHigh \<le> r \<longrightarrow>
              real (bytes_per_second b') \<le> max (real (m_floor b')) (kGainDown * real (m_btl_bw b')))"
proof -
  have cap: "real (bytes_per_second c) \<le> max (real (m_floor c)) (g * real (m_btl_bw c))"
    if "m_gain c \<le> g" "0 \<le> g" for c g
  proof -
    have "real (m_btl_bw c) * m_gain c \<le> g * real (m_btl_bw c)"
      using mult_right_mono [OF that(1), of "real (m_btl_bw c)"] by (simp add: mult.commute)
    moreover have "0 \<le> g * real (m_btl_bw c)" using that(2) by simp
    ultimately have "real (nat \<lfloor>real (m_btl_bw c) * m_gain c\<rfloor>) \<le> g * real (m_btl_bw c)"
      by linarith
    then show ?thesis unfolding bytes_per_second_def by (simp add: of_nat_max max.coboundedI2 max_def)
  qed
  have "gain_ok (new_bandwidth initial)"
    by (simp add: gain_ok_def new_bandwidth_def kGainDown_def kGainUp_def)
  from gain_ok_run [OF this, of es] have G: "m_gain b \<le> kGainUp" by (simp add: gain_ok_def b_def)
  have "m_gain b' \<le> kGainDown" if "kLateHigh \<le> r"
    using that by (simp add: b'_def on_late_ratio_def recompute_gain_def Let_def kLateHigh_def)
  with cap [OF G] cap [of b' kGainDown] show ?thesis
    by (simp add: kGainUp_def kGainDown_def bytes_per_second_def)
qed

theorem pacing_rate_bounds_witness:
  "real (bytes_per_second (on_late_ratio 1 (bw_run [] (new_bandwidth 400))))
   \<le> max (real (m_floor (on_late_ratio 1 (bw_run [] (new_bandwidth 400)))))
        (kGainDown * real (m_btl_bw (on_late_ratio 1 (bw_run [] (new_bandwidth 400)))))"
  using pacing_rate_bounds [of "[]" 400 1] by (simp add: kLateHigh_def)

end
