(* ===== verification/Queue.thy ===== *)
theory Queue
  imports Prelude "HOL-Library.Monad_Syntax"
begin

text \<open>
  The queues between threads: \<open>tight/include/tight/blocking_queue.hpp\<close> (bounded, with a recycling
  pool of nodes) and \<open>include/creek/framework/channel.hpp\<close> (\<open>CopyChannel\<close>).
  Nodes live in an explicit store, pointers are addresses, \<open>new\<close> returns the address \<open>brk\<close> that was
  never used before and \<open>delete\<close> removes a node, so that a dangling or null dereference is the
  result \<open>None\<close>. A blocked thread is the result \<open>Blocked\<close>: the condition variable makes it retry.
  The lemmas show that both refine a plain list: no operation follows a bad pointer, elements leave
  in the order they entered, capacity bounds hold, and the destructor frees every node.
\<close>

section \<open>Linked lists in a store\<close>

record 'a qnode =
  n_item :: "'a option"
  n_next :: "nat option"

type_synonym 'a store = "nat \<rightharpoonup> 'a qnode"

primrec chain :: "'a store \<Rightarrow> nat option \<Rightarrow> nat list \<Rightarrow> bool" where
  "chain h p [] \<longleftrightarrow> p = None"
| "chain h p (a # as) \<longleftrightarrow> p = Some a \<and> (case h a of None \<Rightarrow> False | Some n \<Rightarrow> chain h (n_next n) as)"

definition items_at :: "'a store \<Rightarrow> nat list \<Rightarrow> 'a option list" where
  "items_at h as = map (\<lambda>a. Option.bind (h a) n_item) as"

named_theorems chain_simps \<open>chains of nodes\<close>

lemma chain_upd [simp, chain_simps]: "a \<notin> set as \<Longrightarrow> chain (h(a := v)) p as = chain h p as"
  by (induction as arbitrary: p) (auto split: option.splits)

lemma items_upd [simp, chain_simps]: "a \<notin> set as \<Longrightarrow> items_at (h(a := v)) as = items_at h as"
  by (auto simp: items_at_def)

lemma items_simps [simp, chain_simps]:
  "items_at h [] = []" "items_at h (a # as) = Option.bind (h a) n_item # items_at h as"
  "items_at h (as @ bs) = items_at h as @ items_at h bs"
  by (auto simp: items_at_def)

lemma length_items [simp]: "length (items_at h as) = length as"
  by (simp add: items_at_def)

lemma chain_dom: "chain h p as \<Longrightarrow> set as \<subseteq> dom h"
  by (induction as arbitrary: p) (auto split: option.splits)

lemma chain_snoc:
  "chain h p (as @ [t]) \<Longrightarrow> h t = Some n \<Longrightarrow> distinct (as @ [t]) \<Longrightarrow> b \<notin> set (as @ [t])
   \<Longrightarrow> h b = Some m \<Longrightarrow> n_next m = None
   \<Longrightarrow> chain (h(t \<mapsto> n\<lparr>n_next := Some b\<rparr>)) p ((as @ [t]) @ [b])"
  by (induction as arbitrary: p) (auto split: option.splits)

lemma chain_restrict [chain_simps]: "set as \<subseteq> X \<Longrightarrow> chain (h |` X) p as = chain h p as"
  by (induction as arbitrary: p) (auto split: option.splits)

lemma items_snoc_next:
  "h t = Some n \<Longrightarrow> items_at (h(t \<mapsto> n\<lparr>n_next := q\<rparr>)) as = items_at h as"
  by (auto simp: items_at_def)

text \<open>\<open>while (node) { next = node->next; delete node; node = next; }\<close>\<close>

partial_function (option) drain_list :: "'a store \<Rightarrow> nat option \<Rightarrow> 'a store option" where
  "drain_list h node = (case node of
     None \<Rightarrow> Some h
   | Some a \<Rightarrow> (case h a of None \<Rightarrow> None | Some n \<Rightarrow> drain_list (h(a := None)) (n_next n)))"

lemma drain_list_chain:
  "chain h p as \<Longrightarrow> distinct as \<Longrightarrow> drain_list h p = Some (h |` (- set as))"
proof (induction as arbitrary: h p)
  case Nil
  then show ?case by (subst drain_list.simps) (simp add: restrict_map_def)
next
  case (Cons a as)
  then obtain n where n: "p = Some a" "h a = Some n" "chain h (n_next n) as" by (auto split: option.splits)
  have "drain_list (h(a := None)) (n_next n) = Some ((h(a := None)) |` (- set as))"
    using n Cons.prems(2) chain_upd [of a as h None] by (intro Cons.IH) (simp_all del: chain_upd fun_upd_apply)
  moreover have "(h(a := None)) |` (- set as) = h |` (- set (a # as))" by (auto simp: restrict_map_def fun_eq_iff)
  ultimately show ?case using n by (subst drain_list.simps) (simp only: option.case)
qed

section \<open>What a client may rely on\<close>

datatype 'a qop = Offer 'a | Poll

text \<open>A run of operations by any threads, in the order in which they held the mutex: the accepted
  elements, the elements taken, and the queue.\<close>

fun queue_run :: "('a \<Rightarrow> 'q \<Rightarrow> (bool \<times> 'q) option) \<Rightarrow> ('q \<Rightarrow> ('a option \<times> 'q) option) \<Rightarrow> 'a qop list \<Rightarrow> 'q
    \<Rightarrow> ('a list \<times> 'a list \<times> 'q) option" where
  "queue_run offer take1 [] q = Some ([], [], q)"
| "queue_run offer take1 (Offer x # ops) q = do {
     (ok, q) \<leftarrow> offer x q;
     (acc, tkn, q) \<leftarrow> queue_run offer take1 ops q;
     Some (if ok then x # acc else acc, tkn, q) }"
| "queue_run offer take1 (Poll # ops) q = do {
     (r, q) \<leftarrow> take1 q;
     (acc, tkn, q) \<leftarrow> queue_run offer take1 ops q;
     Some (acc, case r of None \<Rightarrow> tkn | Some x \<Rightarrow> x # tkn, q) }"

locale fifo_queue =
  fixes rep :: "'q \<Rightarrow> 'a list \<Rightarrow> bool"
    and offer :: "'a \<Rightarrow> 'q \<Rightarrow> (bool \<times> 'q) option"
    and take1 :: "'q \<Rightarrow> ('a option \<times> 'q) option"
  assumes offer_rep: "rep q xs \<Longrightarrow> \<exists>ok q'. offer x q = Some (ok, q') \<and> rep q' (if ok then xs @ [x] else xs)"
    and take1_rep: "rep q xs \<Longrightarrow> \<exists>q'. take1 q = Some (if xs = [] then None else Some (hd xs), q') \<and> rep q' (tl xs)"
begin

lemma run_fifo:
  "rep q xs \<Longrightarrow> \<exists>acc tkn q' ys. queue_run offer take1 ops q = Some (acc, tkn, q') \<and> rep q' ys \<and> xs @ acc = tkn @ ys"
proof (induction ops arbitrary: q xs)
  case (Cons op ops)
  show ?case
  proof (cases op)
    case (Offer x)
    obtain ok q1 where o: "offer x q = Some (ok, q1)" "rep q1 (if ok then xs @ [x] else xs)"
      using offer_rep [OF Cons.prems] by blast
    from Cons.IH [OF o(2)] obtain acc tkn q' ys where
      r: "queue_run offer take1 ops q1 = Some (acc, tkn, q')" "rep q' ys" "(if ok then xs @ [x] else xs) @ acc = tkn @ ys"
      by blast
    then show ?thesis using o(1) Offer by (auto split: if_splits)
  next
    case Poll
    obtain q1 where p: "take1 q = Some (if xs = [] then None else Some (hd xs), q1)" "rep q1 (tl xs)"
      using take1_rep [OF Cons.prems] by blast
    from Cons.IH [OF p(2)] obtain acc tkn q' ys where
      r: "queue_run offer take1 ops q1 = Some (acc, tkn, q')" "rep q' ys" "tl xs @ acc = tkn @ ys"
      by blast
    show ?thesis
    proof (cases xs)
      case Nil
      then show ?thesis using r p(1) Poll by auto
    next
      case (Cons x xs')
      then show ?thesis using r p(1) Poll by auto
    qed
  qed
qed auto

end

section \<open>BlockingQueue\<close>

record 'a bqueue =
  q_capacity :: nat
  q_size :: nat
  q_head :: "nat option"
  q_tail :: "nat option"
  q_free_nodes :: "nat option"
  q_free_count :: nat
  q_closed :: bool
  q_store :: "'a store"
  q_brk :: nat

definition new_bqueue :: "nat \<Rightarrow> 'a bqueue" where
  "new_bqueue capacity = \<lparr>q_capacity = capacity, q_size = 0, q_head = None, q_tail = None, q_free_nodes = None,
     q_free_count = 0, q_closed = False, q_store = Map.empty, q_brk = 0\<rparr>"

definition obtain_node_locked :: "'a bqueue \<Rightarrow> (nat \<times> 'a bqueue) option" where
  "obtain_node_locked q = (case q_free_nodes q of
     Some a \<Rightarrow> do {
       n \<leftarrow> q_store q a;
       Some (a, q\<lparr>q_free_nodes := n_next n, q_store := (q_store q)(a \<mapsto> n\<lparr>n_next := None\<rparr>),
                  q_free_count := q_free_count q - 1\<rparr>) }
   | None \<Rightarrow>
       let a = q_brk q in
       Some (a, q\<lparr>q_store := (q_store q)(a \<mapsto> \<lparr>n_item = None, n_next = None\<rparr>), q_brk := a + 1\<rparr>))"

definition recycle_node_locked :: "nat \<Rightarrow> 'a bqueue \<Rightarrow> 'a bqueue option" where
  "recycle_node_locked a q = do {
     n \<leftarrow> q_store q a;
     Some (if q_free_count q < 64
           then q\<lparr>q_store := (q_store q)(a \<mapsto> n\<lparr>n_item := None, n_next := q_free_nodes q\<rparr>),
                  q_free_nodes := Some a, q_free_count := q_free_count q + 1\<rparr>
           else q\<lparr>q_store := (q_store q)(a := None)\<rparr>) }"

definition link_tail :: "nat \<Rightarrow> 'a bqueue \<Rightarrow> 'a bqueue option" where
  "link_tail a q = do {
     q \<leftarrow> (case q_tail q of
            Some t \<Rightarrow> do {
              n \<leftarrow> q_store q t;
              Some (q\<lparr>q_store := (q_store q)(t \<mapsto> n\<lparr>n_next := Some a\<rparr>), q_tail := Some a\<rparr>) }
          | None \<Rightarrow> Some (q\<lparr>q_head := Some a, q_tail := Some a\<rparr>));
     Some (q\<lparr>q_size := q_size q + 1\<rparr>) }"

definition unlink_head_locked :: "'a bqueue \<Rightarrow> ('a \<times> 'a bqueue) option" where
  "unlink_head_locked q = do {
     a \<leftarrow> q_head q;
     n \<leftarrow> q_store q a;
     let q = q\<lparr>q_head := n_next n\<rparr>;
     let q = (if q_head q = None then q\<lparr>q_tail := None\<rparr> else q);
     let q = q\<lparr>q_size := q_size q - 1\<rparr>;
     x \<leftarrow> n_item n;
     q \<leftarrow> recycle_node_locked a q;
     Some (x, q) }"

text \<open>\<open>node = obtain_node_locked(); node->item.emplace(item); link_tail(node)\<close>\<close>

definition enqueue_locked :: "'a \<Rightarrow> 'a bqueue \<Rightarrow> 'a bqueue option" where
  "enqueue_locked x q = do {
     (a, q) \<leftarrow> obtain_node_locked q;
     n \<leftarrow> q_store q a;
     link_tail a (q\<lparr>q_store := (q_store q)(a \<mapsto> n\<lparr>n_item := Some x\<rparr>)\<rparr>) }"

definition try_push :: "'a \<Rightarrow> 'a bqueue \<Rightarrow> (bool \<times> 'a bqueue) option" where
  "try_push x q =
     (if q_closed q \<or> (0 < q_capacity q \<and> q_capacity q \<le> q_size q) then Some (False, q)
      else do { q \<leftarrow> enqueue_locked x q; Some (True, q) })"

datatype 'r waiting = Blocked | Ready 'r

definition push :: "'a \<Rightarrow> 'a bqueue \<Rightarrow> (bool waiting \<times> 'a bqueue) option" where
  "push x q =
     (if q_closed q then Some (Ready False, q)
      else if 0 < q_capacity q \<and> q_capacity q \<le> q_size q then Some (Blocked, q)
      else do { q \<leftarrow> enqueue_locked x q; Some (Ready True, q) })"

definition take_head :: "'a bqueue \<Rightarrow> ('a option waiting \<times> 'a bqueue) option" where
  "take_head q =
     (if \<not> (0 < q_size q \<or> q_closed q) then Some (Blocked, q)
      else if q_closed q \<and> q_size q = 0 then Some (Ready None, q)
      else do { (x, q) \<leftarrow> unlink_head_locked q; Some (Ready (Some x), q) })"

text \<open>\<open>take_for\<close> with the wait ended by the timeout or not.\<close>

definition take_for :: "bool \<Rightarrow> 'a bqueue \<Rightarrow> ('a option waiting \<times> 'a bqueue) option" where
  "take_for timed_out q =
     (let ok = (0 < q_size q \<or> q_closed q) in
      if \<not> ok \<and> \<not> timed_out then Some (Blocked, q)
      else if \<not> ok \<or> (q_closed q \<and> q_size q = 0) then Some (Ready None, q)
      else do { (x, q) \<leftarrow> unlink_head_locked q; Some (Ready (Some x), q) })"

definition poll :: "'a bqueue \<Rightarrow> ('a option \<times> 'a bqueue) option" where
  "poll q =
     (if q_size q = 0 then Some (None, q)
      else do { (x, q) \<leftarrow> unlink_head_locked q; Some (Some x, q) })"

definition close_queue :: "'a bqueue \<Rightarrow> 'a bqueue" where
  "close_queue q = q\<lparr>q_closed := True\<rparr>"

definition queue_size :: "'a bqueue \<Rightarrow> nat" where "queue_size q = q_size q"
definition queue_is_closed :: "'a bqueue \<Rightarrow> bool" where "queue_is_closed q = q_closed q"

definition destroy_queue :: "'a bqueue \<Rightarrow> 'a store option" where
  "destroy_queue q = do {
     let q = close_queue q;
     h \<leftarrow> drain_list (q_store q) (q_head q);
     drain_list h (q_free_nodes q) }"

subsection \<open>The queue as a list\<close>

text \<open>\<open>queue_rep q xs as fs\<close>: the nodes \<open>as\<close> hold \<open>xs\<close>, the nodes \<open>fs\<close> are free, there are no others.\<close>

definition queue_rep :: "'a bqueue \<Rightarrow> 'a list \<Rightarrow> nat list \<Rightarrow> nat list \<Rightarrow> bool" where
  "queue_rep q xs as fs \<longleftrightarrow>
     chain (q_store q) (q_head q) as \<and> chain (q_store q) (q_free_nodes q) fs \<and> distinct (as @ fs)
     \<and> dom (q_store q) = set as \<union> set fs \<and> (\<forall>a \<in> set as \<union> set fs. a < q_brk q)
     \<and> q_tail q = (if as = [] then None else Some (last as))
     \<and> q_size q = length as \<and> q_free_count q = length fs \<and> length fs \<le> 64
     \<and> items_at (q_store q) as = map Some xs"

definition queue_holds :: "'a bqueue \<Rightarrow> 'a list \<Rightarrow> bool" where
  "queue_holds q xs \<longleftrightarrow> (\<exists>as fs. queue_rep q xs as fs)"

lemma queue_holds_new: "queue_holds (new_bqueue c) []"
  by (auto simp: queue_holds_def queue_rep_def new_bqueue_def intro!: exI [of _ "[]"])

lemma queue_holds_size: "queue_holds q xs \<Longrightarrow> q_size q = length xs"
  by (metis queue_holds_def queue_rep_def length_items length_map)

lemma obtain_node_rep:
  assumes "queue_rep q xs as fs"
  shows "\<exists>a fs' q' n. obtain_node_locked q = Some (a, q') \<and> q_store q' a = Some n \<and> n_next n = None \<and> a \<notin> set as \<union> set fs'
    \<and> queue_rep (q'\<lparr>q_store := (q_store q')(a := None)\<rparr>) xs as fs' \<and> a < q_brk q'
    \<and> q_capacity q' = q_capacity q \<and> q_closed q' = q_closed q"
proof (cases fs)
  case Nil
  with assms have "q_free_nodes q = None" "q_brk q \<notin> set as" "q_store q (q_brk q) = None"
    by (auto simp: queue_rep_def)
  with assms Nil show ?thesis
    by (auto simp: obtain_node_locked_def queue_rep_def Let_def intro!: exI [of _ "[]"])
next
  case (Cons a fs')
  with assms obtain n where "q_free_nodes q = Some a" "q_store q a = Some n" "chain (q_store q) (n_next n) fs'"
    by (auto simp: queue_rep_def split: option.splits)
  with assms Cons show ?thesis
    by (auto simp: obtain_node_locked_def queue_rep_def intro!: exI [of _ fs'])
qed

lemma queue_rep_node:
  assumes "queue_rep (q\<lparr>q_store := (q_store q)(a := None)\<rparr>) xs as fs"
    and "q_store q a = Some n" "n_item n = Some x" "n_next n = None" "a \<notin> set as \<union> set fs" "a < q_brk q"
  shows "\<exists>q'. link_tail a q = Some q' \<and> queue_rep q' (xs @ [x]) (as @ [a]) fs
    \<and> q_capacity q' = q_capacity q \<and> q_closed q' = q_closed q"
proof (cases as rule: rev_cases)
  case Nil
  with assms show ?thesis
    by (auto simp: link_tail_def queue_rep_def insert_absorb fun_upd_idem_iff)
next
  case (snoc as' t)
  have ch: "chain (q_store q) (q_head q) as" "chain (q_store q) (q_free_nodes q) fs"
    and it: "items_at (q_store q) as = map Some xs" and dist: "distinct (as @ fs)"
    using assms by (auto simp: queue_rep_def)
  have dm: "dom (q_store q) = insert a (set as \<union> set fs)"
    using assms(1,2) by (auto simp: queue_rep_def dom_def split: if_splits)
  then obtain m where m: "q_store q t = Some m" using snoc by auto
  have "chain ((q_store q)(t \<mapsto> m\<lparr>n_next := Some a\<rparr>)) (q_head q) (as @ [a])"
    using chain_snoc [of "q_store q" "q_head q" as' t m a n] ch(1) m assms dist snoc by simp
  moreover have "chain ((q_store q)(t \<mapsto> m\<lparr>n_next := Some a\<rparr>)) (q_free_nodes q) fs"
    using ch(2) dist snoc by simp
  moreover have "items_at ((q_store q)(t \<mapsto> m\<lparr>n_next := Some a\<rparr>)) (as @ [a]) = map Some (xs @ [x])"
    using it assms(2,3) by (simp only: items_snoc_next [of "q_store q" t m, OF m]) simp
  ultimately show ?thesis
    using assms m snoc dm dist by (auto simp: link_tail_def queue_rep_def)
qed

lemma enqueue_holds:
  assumes "queue_holds q xs"
  shows "\<exists>q'. enqueue_locked x q = Some q' \<and> queue_holds q' (xs @ [x]) \<and> q_capacity q' = q_capacity q \<and> q_closed q' = q_closed q"
proof -
  obtain as fs where R: "queue_rep q xs as fs" using assms by (auto simp: queue_holds_def)
  obtain a fs' q1 n where o: "obtain_node_locked q = Some (a, q1)" "q_store q1 a = Some n" "n_next n = None"
    "a \<notin> set as \<union> set fs'" "queue_rep (q1\<lparr>q_store := (q_store q1)(a := None)\<rparr>) xs as fs'" "a < q_brk q1"
    "q_capacity q1 = q_capacity q" "q_closed q1 = q_closed q"
    using obtain_node_rep [OF R] by blast
  let ?q2 = "q1\<lparr>q_store := (q_store q1)(a \<mapsto> n\<lparr>n_item := Some x\<rparr>)\<rparr>"
  have "\<exists>q'. link_tail a ?q2 = Some q' \<and> queue_rep q' (xs @ [x]) (as @ [a]) fs' \<and> q_capacity q' = q_capacity ?q2 \<and> q_closed q' = q_closed ?q2"
    by (rule queue_rep_node [of ?q2 a xs as fs' "n\<lparr>n_item := Some x\<rparr>" x]) (use o in simp_all)
  then show ?thesis using o by (auto simp: enqueue_locked_def queue_holds_def)
qed

lemma unlink_holds:
  assumes "queue_holds q (x # xs)"
  shows "\<exists>q'. unlink_head_locked q = Some (x, q') \<and> queue_holds q' xs \<and> q_capacity q' = q_capacity q \<and> q_closed q' = q_closed q"
proof -
  obtain as fs where R: "queue_rep q (x # xs) as fs" using assms by (auto simp: queue_holds_def)
  then obtain a as' where as: "as = a # as'" by (cases as) (auto simp: queue_rep_def)
  with R obtain n where n: "q_head q = Some a" "q_store q a = Some n" "n_item n = Some x" "chain (q_store q) (n_next n) as'"
    by (auto simp: queue_rep_def split: option.splits)
  have nx: "n_next n = None \<longleftrightarrow> as' = []" using n(4) by (cases as') auto
  show ?thesis
  proof (cases "length fs < 64")
    case True
    then have "\<exists>q'. unlink_head_locked q = Some (x, q') \<and> queue_rep q' xs as' (a # fs) \<and> q_capacity q' = q_capacity q \<and> q_closed q' = q_closed q"
      using R n nx as by (auto simp: unlink_head_locked_def recycle_node_locked_def queue_rep_def Let_def insert_absorb)
    then show ?thesis by (auto simp: queue_holds_def)
  next
    case False
    then have "\<exists>q'. unlink_head_locked q = Some (x, q') \<and> queue_rep q' xs as' fs \<and> q_capacity q' = q_capacity q \<and> q_closed q' = q_closed q"
      using R n nx as by (auto simp: unlink_head_locked_def recycle_node_locked_def queue_rep_def Let_def)
    then show ?thesis by (auto simp: queue_holds_def)
  qed
qed

lemma try_push_holds:
  assumes "queue_holds q xs"
  shows "\<exists>ok q'. try_push x q = Some (ok, q') \<and> queue_holds q' (if ok then xs @ [x] else xs)
    \<and> ok = (\<not> q_closed q \<and> (q_capacity q = 0 \<or> length xs < q_capacity q))
    \<and> q_capacity q' = q_capacity q \<and> q_closed q' = q_closed q"
  using enqueue_holds [OF assms, of x] assms queue_holds_size [OF assms] by (auto simp: try_push_def)

lemma poll_holds:
  assumes "queue_holds q xs"
  shows "\<exists>q'. poll q = Some (if xs = [] then None else Some (hd xs), q') \<and> queue_holds q' (tl xs)
    \<and> q_capacity q' = q_capacity q \<and> q_closed q' = q_closed q"
proof (cases xs)
  case (Cons x xs')
  then show ?thesis using unlink_holds [of q x xs'] assms queue_holds_size [OF assms] by (auto simp: poll_def)
qed (use assms queue_holds_size [OF assms] in \<open>auto simp: poll_def\<close>)

interpretation bq: fifo_queue queue_holds try_push poll
proof
  fix q :: "'a bqueue" and xs x
  assume "queue_holds q xs"
  from try_push_holds [OF this, of x]
  show "\<exists>ok q'. try_push x q = Some (ok, q') \<and> queue_holds q' (if ok then xs @ [x] else xs)" by blast
next
  fix q :: "'a bqueue" and xs
  assume "queue_holds q xs"
  from poll_holds [OF this]
  show "\<exists>q'. poll q = Some (if xs = [] then None else Some (hd xs), q') \<and> queue_holds q' (tl xs)" by blast
qed


text \<open>The queue its clients see: the model of the transport works on this view.\<close>

record 'a fifo =
  fq_items :: "'a list"
  fq_capacity :: nat
  fq_closed :: bool

definition new_fifo :: "nat \<Rightarrow> 'a fifo" where
  "new_fifo capacity = \<lparr>fq_items = [], fq_capacity = capacity, fq_closed = False\<rparr>"

definition fifo_try_push :: "'a \<Rightarrow> 'a fifo \<Rightarrow> bool \<times> 'a fifo" where
  "fifo_try_push x f =
     (if fq_closed f \<or> (0 < fq_capacity f \<and> fq_capacity f \<le> length (fq_items f)) then (False, f)
      else (True, f\<lparr>fq_items := fq_items f @ [x]\<rparr>))"

definition fifo_poll :: "'a fifo \<Rightarrow> 'a option \<times> 'a fifo" where
  "fifo_poll f = (case fq_items f of [] \<Rightarrow> (None, f) | x # xs \<Rightarrow> (Some x, f\<lparr>fq_items := xs\<rparr>))"

definition fifo_close :: "'a fifo \<Rightarrow> 'a fifo" where
  "fifo_close f = f\<lparr>fq_closed := True\<rparr>"

definition queue_abs :: "'a bqueue \<Rightarrow> 'a fifo \<Rightarrow> bool" where
  "queue_abs q f \<longleftrightarrow> queue_holds q (fq_items f) \<and> q_capacity q = fq_capacity f \<and> q_closed q = fq_closed f"

text \<open>The linked queue with its node pool refines the client's view: started together, every
  non-blocking operation succeeds on valid nodes only, returns what the view returns and keeps the two
  related; closing does too, and the view's bound on the number of elements is the reported size.\<close>

theorem blocking_queue_refines:
  assumes "queue_abs q f"
  shows "(\<exists>q'. try_push x q = Some (fst (fifo_try_push x f), q') \<and> queue_abs q' (snd (fifo_try_push x f)))
    \<and> (\<exists>q'. poll q = Some (fst (fifo_poll f), q') \<and> queue_abs q' (snd (fifo_poll f)))
    \<and> queue_abs (close_queue q) (fifo_close f) \<and> queue_size q = length (fq_items f)"
proof (intro conjI)
  have H: "queue_holds q (fq_items f)" "q_capacity q = fq_capacity f" "q_closed q = fq_closed f"
    using assms by (auto simp: queue_abs_def)
  show "\<exists>q'. try_push x q = Some (fst (fifo_try_push x f), q') \<and> queue_abs q' (snd (fifo_try_push x f))"
    using try_push_holds [OF H(1), of x] H by (auto simp: queue_abs_def fifo_try_push_def not_le)
  show "\<exists>q'. poll q = Some (fst (fifo_poll f), q') \<and> queue_abs q' (snd (fifo_poll f))"
    using poll_holds [OF H(1)] H by (auto simp: queue_abs_def fifo_poll_def split: list.splits)
  show "queue_abs (close_queue q) (fifo_close f)"
    using H by (simp add: queue_abs_def close_queue_def fifo_close_def queue_holds_def queue_rep_def)
  show "queue_size q = length (fq_items f)" using queue_holds_size [OF H(1)] by (simp add: queue_size_def)
qed

theorem blocking_queue_refines_witness:
  "\<exists>q'. try_push (5 :: nat) (new_bqueue 2) = Some (True, q') \<and> queue_abs q' \<lparr>fq_items = [5], fq_capacity = 2, fq_closed = False\<rparr>"
  using blocking_queue_refines [of "new_bqueue 2" "new_fifo 2" 5] queue_holds_new [of 2]
  by (auto simp: queue_abs_def new_fifo_def new_bqueue_def fifo_try_push_def)

text \<open>The capacity bound and the blocking operations.\<close>

definition queue_ok :: "'a bqueue \<Rightarrow> 'a list \<Rightarrow> bool" where
  "queue_ok q xs \<longleftrightarrow> queue_holds q xs \<and> (0 < q_capacity q \<longrightarrow> length xs \<le> q_capacity q)"

text \<open>The blocking operations keep the queue within its capacity and block exactly when they must:
  \<open>push\<close> blocks only on a full open queue, refuses only on a closed one and otherwise appends;
  \<open>take\<close> blocks only on an empty open queue, and a closed queue is drained before \<open>take\<close> reports its
  end.\<close>

theorem blocking_queue_blocks:
  assumes "queue_ok q xs"
  shows "(\<exists>r q'. push x q = Some (r, q') \<and> queue_ok q' (if r = Ready True then xs @ [x] else xs)
         \<and> r = (if q_closed q then Ready False
                else if 0 < q_capacity q \<and> length xs = q_capacity q then Blocked else Ready True))
     \<and> (\<exists>r q'. take_head q = Some (r, q') \<and> queue_ok q' (tl xs)
         \<and> r = (if xs \<noteq> [] then Ready (Some (hd xs)) else if q_closed q then Ready None else Blocked))"
proof (intro conjI)
  have H: "queue_holds q xs" "q_size q = length xs" "0 < q_capacity q \<Longrightarrow> length xs \<le> q_capacity q"
    using assms queue_holds_size by (auto simp: queue_ok_def)
  show "\<exists>r q'. push x q = Some (r, q') \<and> queue_ok q' (if r = Ready True then xs @ [x] else xs)
         \<and> r = (if q_closed q then Ready False
                else if 0 < q_capacity q \<and> length xs = q_capacity q then Blocked else Ready True)"
    using enqueue_holds [OF H(1), of x] H by (fastforce simp: push_def queue_ok_def)
  show "\<exists>r q'. take_head q = Some (r, q') \<and> queue_ok q' (tl xs)
         \<and> r = (if xs \<noteq> [] then Ready (Some (hd xs)) else if q_closed q then Ready None else Blocked)"
  proof (cases xs)
    case (Cons x xs')
    then show ?thesis using H unlink_holds [of q x xs'] by (fastforce simp: take_head_def queue_ok_def)
  qed (use H in \<open>auto simp: take_head_def queue_ok_def\<close>)
qed

theorem blocking_queue_blocks_witness:
  "\<exists>q'. push (7 :: nat) (new_bqueue 2) = Some (Ready True, q')"
  using blocking_queue_blocks [of "new_bqueue 2" "[] :: nat list" 7] queue_holds_new [of 2]
  by (auto simp: queue_ok_def new_bqueue_def)

lemma destroy_queue_frees:
  assumes "queue_holds q xs"
  shows "destroy_queue q = Some Map.empty"
proof -
  obtain as fs where R: "queue_rep q xs as fs" using assms by (auto simp: queue_holds_def)
  then have "drain_list (q_store q) (q_head q) = Some (q_store q |` (- set as))"
    by (intro drain_list_chain) (auto simp: queue_rep_def)
  moreover have "drain_list (q_store q |` (- set as)) (q_free_nodes q) = Some (q_store q |` (- set as) |` (- set fs))"
  proof (rule drain_list_chain)
    have "set fs \<subseteq> - set as" using R by (auto simp: queue_rep_def)
    then show "chain (q_store q |` (- set as)) (q_free_nodes q) fs"
      using R by (simp add: queue_rep_def chain_restrict)
    show "distinct fs" using R by (simp add: queue_rep_def)
  qed
  moreover have "q_store q |` (- set as) |` (- set fs) = Map.empty"
    using R by (auto simp: queue_rep_def restrict_map_def fun_eq_iff domIff)
  ultimately show ?thesis by (simp add: destroy_queue_def close_queue_def)
qed

section \<open>CopyChannel\<close>

record 'a cchannel =
  c_size :: nat
  c_head :: "nat option"
  c_tail :: "nat option"
  c_max_nodes :: nat
  c_closed :: bool
  c_store :: "'a store"
  c_brk :: nat

definition new_channel :: "nat \<Rightarrow> 'a cchannel" where
  "new_channel max_buffer = \<lparr>c_size = 0, c_head = None, c_tail = None, c_max_nodes = max_buffer, c_closed = False,
     c_store = Map.empty, c_brk = 0\<rparr>"

definition channel_link :: "'a \<Rightarrow> 'a cchannel \<Rightarrow> 'a cchannel option" where
  "channel_link x c =
     (let a = c_brk c;
          c = c\<lparr>c_store := (c_store c)(a \<mapsto> \<lparr>n_item = Some x, n_next = None\<rparr>), c_brk := a + 1\<rparr>
      in do {
        c \<leftarrow> (case c_tail c of
               Some t \<Rightarrow> do {
                 n \<leftarrow> c_store c t;
                 Some (c\<lparr>c_store := (c_store c)(t \<mapsto> n\<lparr>n_next := Some a\<rparr>)\<rparr>) }
             | None \<Rightarrow> Some (c\<lparr>c_head := Some a\<rparr>));
        Some (c\<lparr>c_tail := Some a, c_size := c_size c + 1\<rparr>) })"

definition channel_send :: "'a \<Rightarrow> 'a cchannel \<Rightarrow> 'a cchannel option" where
  "channel_send x c = (if c_closed c then Some c else channel_link x c)"

definition try_send :: "'a \<Rightarrow> 'a cchannel \<Rightarrow> (bool \<times> 'a cchannel) option" where
  "try_send x c =
     (if c_closed c \<or> c_max_nodes c \<le> c_size c then Some (False, c)
      else do { c \<leftarrow> channel_link x c; Some (True, c) })"

definition channel_unlink :: "'a cchannel \<Rightarrow> ('a \<times> 'a cchannel) option" where
  "channel_unlink c = do {
     a \<leftarrow> c_head c;
     n \<leftarrow> c_store c a;
     let c = c\<lparr>c_head := n_next n\<rparr>;
     let c = (if c_head c = None then c\<lparr>c_tail := None\<rparr> else c);
     x \<leftarrow> n_item n;
     Some (x, c\<lparr>c_size := c_size c - 1, c_store := (c_store c)(a := None)\<rparr>) }"

definition channel_poll :: "'a cchannel \<Rightarrow> ('a option \<times> 'a cchannel) option" where
  "channel_poll c =
     (if c_head c = None then Some (None, c)
      else do { (x, c) \<leftarrow> channel_unlink c; Some (Some x, c) })"

definition recv_for :: "bool \<Rightarrow> 'a cchannel \<Rightarrow> ('a option waiting \<times> 'a cchannel) option" where
  "recv_for timed_out c =
     (if \<not> (c_head c \<noteq> None \<or> c_closed c) then Some (if timed_out then Ready None else Blocked, c)
      else if c_head c = None then Some (Ready None, c)
      else do { (x, c) \<leftarrow> channel_unlink c; Some (Ready (Some x), c) })"

definition recv :: "int \<Rightarrow> bool \<Rightarrow> 'a cchannel \<Rightarrow> ('a option waiting \<times> 'a cchannel) option" where
  "recv timeout_ms timed_out c =
     (if timeout_ms = 0 then do { (x, c) \<leftarrow> channel_poll c; Some (Ready x, c) } else recv_for timed_out c)"

partial_function (option) drain_items :: "'a store \<Rightarrow> nat option \<Rightarrow> 'a list \<Rightarrow> ('a list \<times> 'a store) option" where
  "drain_items h node out = (case node of
     None \<Rightarrow> Some (out, h)
   | Some a \<Rightarrow> (case h a of
       None \<Rightarrow> None
     | Some n \<Rightarrow> (case n_item n of
         None \<Rightarrow> None
       | Some x \<Rightarrow> drain_items (h(a := None)) (n_next n) (out @ [x]))))"

definition drain_all :: "'a list \<Rightarrow> 'a cchannel \<Rightarrow> (nat \<times> 'a list \<times> 'a cchannel) option" where
  "drain_all out c = do {
     let count = c_size c;
     (out, h) \<leftarrow> drain_items (c_store c) (c_head c) out;
     Some (count, out, c\<lparr>c_store := h, c_head := None, c_tail := None, c_size := 0\<rparr>) }"

definition close_channel :: "'a cchannel \<Rightarrow> 'a cchannel option" where
  "close_channel c = do {
     let c = c\<lparr>c_closed := True\<rparr>;
     h \<leftarrow> drain_list (c_store c) (c_head c);
     Some (c\<lparr>c_store := h, c_head := None, c_tail := None, c_size := 0\<rparr>) }"

definition channel_is_closed :: "'a cchannel \<Rightarrow> bool" where "channel_is_closed c = c_closed c"
definition channel_depth :: "'a cchannel \<Rightarrow> nat" where "channel_depth c = c_size c"
definition channel_capacity :: "'a cchannel \<Rightarrow> nat" where "channel_capacity c = c_max_nodes c"

definition channel_rep :: "'a cchannel \<Rightarrow> 'a list \<Rightarrow> nat list \<Rightarrow> bool" where
  "channel_rep c xs as \<longleftrightarrow>
     chain (c_store c) (c_head c) as \<and> distinct as \<and> dom (c_store c) = set as \<and> (\<forall>a \<in> set as. a < c_brk c)
     \<and> c_tail c = (if as = [] then None else Some (last as)) \<and> c_size c = length as
     \<and> items_at (c_store c) as = map Some xs"

definition channel_holds :: "'a cchannel \<Rightarrow> 'a list \<Rightarrow> bool" where
  "channel_holds c xs \<longleftrightarrow> (\<exists>as. channel_rep c xs as)"

lemma channel_holds_new: "channel_holds (new_channel m) []"
  by (auto simp: channel_holds_def channel_rep_def new_channel_def intro!: exI [of _ "[]"])

lemma channel_holds_size: "channel_holds c xs \<Longrightarrow> c_size c = length xs"
  by (metis channel_holds_def channel_rep_def length_items length_map)

lemma channel_holds_head: "channel_holds c xs \<Longrightarrow> c_head c = None \<longleftrightarrow> xs = []"
proof -
  assume "channel_holds c xs"
  then obtain as where "channel_rep c xs as" by (auto simp: channel_holds_def)
  then show ?thesis by (cases as) (auto simp: channel_rep_def)
qed

lemma channel_link_holds:
  assumes "channel_holds c xs"
  shows "\<exists>c'. channel_link x c = Some c' \<and> channel_holds c' (xs @ [x]) \<and> c_max_nodes c' = c_max_nodes c \<and> c_closed c' = c_closed c"
proof -
  obtain as where R: "channel_rep c xs as" using assms by (auto simp: channel_holds_def)
  let ?a = "c_brk c" and ?n = "\<lparr>n_item = Some x, n_next = None\<rparr>"
  have new: "?a \<notin> set as" using R by (auto simp: channel_rep_def)
  have "\<exists>c'. channel_link x c = Some c' \<and> channel_rep c' (xs @ [x]) (as @ [?a]) \<and> c_max_nodes c' = c_max_nodes c \<and> c_closed c' = c_closed c"
  proof (cases as rule: rev_cases)
    case Nil
    with R show ?thesis by (auto simp: channel_link_def channel_rep_def Let_def)
  next
    case (snoc as' t)
    let ?h = "(c_store c)(?a \<mapsto> ?n)"
    have dm: "dom (c_store c) = set as" using R by (simp add: channel_rep_def)
    then obtain m where m: "c_store c t = Some m" using snoc by auto
    have ht: "?h t = Some m" using m new snoc by auto
    have "chain (?h(t \<mapsto> m\<lparr>n_next := Some ?a\<rparr>)) (c_head c) (as @ [?a])"
      using chain_snoc [of ?h "c_head c" as' t m ?a ?n] R ht new snoc by (simp add: channel_rep_def)
    moreover have "items_at (?h(t \<mapsto> m\<lparr>n_next := Some ?a\<rparr>)) (as @ [?a]) = map Some (xs @ [x])"
      using R new by (simp only: items_snoc_next [of ?h t m, OF ht]) (simp add: channel_rep_def)
    ultimately show ?thesis
      using R m snoc new by (auto simp: channel_link_def channel_rep_def Let_def)
  qed
  then show ?thesis by (auto simp: channel_holds_def)
qed

lemma channel_unlink_holds:
  assumes "channel_holds c (x # xs)"
  shows "\<exists>c'. channel_unlink c = Some (x, c') \<and> channel_holds c' xs \<and> c_max_nodes c' = c_max_nodes c \<and> c_closed c' = c_closed c"
proof -
  obtain as where R: "channel_rep c (x # xs) as" using assms by (auto simp: channel_holds_def)
  then obtain a as' where as: "as = a # as'" by (cases as) (auto simp: channel_rep_def)
  with R obtain n where n: "c_head c = Some a" "c_store c a = Some n" "n_item n = Some x" "chain (c_store c) (n_next n) as'"
    by (auto simp: channel_rep_def split: option.splits)
  have nx: "n_next n = None \<longleftrightarrow> as' = []" using n(4) by (cases as') auto
  have "\<exists>c'. channel_unlink c = Some (x, c') \<and> channel_rep c' xs as' \<and> c_max_nodes c' = c_max_nodes c \<and> c_closed c' = c_closed c"
    using R n nx as by (auto simp: channel_unlink_def channel_rep_def Let_def)
  then show ?thesis by (auto simp: channel_holds_def)
qed

interpretation ch: fifo_queue channel_holds try_send channel_poll
proof
  fix c :: "'a cchannel" and xs x
  assume H: "channel_holds c xs"
  then show "\<exists>ok c'. try_send x c = Some (ok, c') \<and> channel_holds c' (if ok then xs @ [x] else xs)"
    using channel_link_holds [OF H, of x] by (auto simp: try_send_def)
next
  fix c :: "'a cchannel" and xs
  assume H: "channel_holds c xs"
  then show "\<exists>c'. channel_poll c = Some (if xs = [] then None else Some (hd xs), c') \<and> channel_holds c' (tl xs)"
  proof (cases xs)
    case (Cons x xs')
    then show ?thesis using H channel_unlink_holds [of c x xs'] channel_holds_head [OF H] by (auto simp: channel_poll_def)
  qed (use H channel_holds_head [OF H] in \<open>auto simp: channel_poll_def\<close>)
qed

lemma drain_items_chain:
  "chain h p as \<Longrightarrow> distinct as \<Longrightarrow> items_at h as = map Some xs
   \<Longrightarrow> drain_items h p out = Some (out @ xs, h |` (- set as))"
proof (induction as arbitrary: h p xs out)
  case Nil
  then show ?case by (subst drain_items.simps) (simp add: restrict_map_def)
next
  case (Cons a as)
  then obtain n x xs' where n: "p = Some a" "h a = Some n" "n_item n = Some x" "xs = x # xs'"
    "chain h (n_next n) as" "items_at h as = map Some xs'"
    by (auto split: option.splits simp: Cons_eq_map_conv)
  have "drain_items (h(a := None)) (n_next n) (out @ [x]) = Some ((out @ [x]) @ xs', (h(a := None)) |` (- set as))"
    using n Cons.prems(2) chain_upd [of a as h None] items_upd [of a as h None]
    by (intro Cons.IH) (simp_all del: chain_upd items_upd fun_upd_apply)
  moreover have "(h(a := None)) |` (- set as) = h |` (- set (a # as))" by (auto simp: restrict_map_def fun_eq_iff)
  ultimately show ?case using n by (subst drain_items.simps) (simp only: option.case append_assoc append.simps)
qed

lemma drain_all_holds:
  assumes "channel_holds c xs"
  shows "\<exists>c'. drain_all out c = Some (length xs, out @ xs, c') \<and> channel_holds c' [] \<and> c_store c' = Map.empty \<and> c_closed c' = c_closed c"
proof -
  obtain as where R: "channel_rep c xs as" using assms by (auto simp: channel_holds_def)
  have "c_store c |` (- set as) = Map.empty" using R by (auto simp: channel_rep_def restrict_map_def fun_eq_iff domIff)
  then have "drain_items (c_store c) (c_head c) out = Some (out @ xs, Map.empty)"
    using R drain_items_chain [of "c_store c" "c_head c" as xs out] by (simp add: channel_rep_def)
  then show ?thesis using channel_holds_size [OF assms]
    by (auto simp: drain_all_def channel_holds_def channel_rep_def intro!: exI [of _ "[]"])
qed

lemma close_channel_holds:
  assumes "channel_holds c xs"
  shows "\<exists>c'. close_channel c = Some c' \<and> channel_holds c' [] \<and> c_store c' = Map.empty \<and> c_closed c'"
proof -
  obtain as where R: "channel_rep c xs as" using assms by (auto simp: channel_holds_def)
  have "c_store c |` (- set as) = Map.empty" using R by (auto simp: channel_rep_def restrict_map_def fun_eq_iff domIff)
  then have "drain_list (c_store c) (c_head c) = Some Map.empty"
    using R drain_list_chain [of "c_store c" "c_head c" as] by (simp add: channel_rep_def)
  then show ?thesis by (auto simp: close_channel_def channel_holds_def channel_rep_def intro!: exI [of _ "[]"])
qed

text \<open>CopyChannel is a FIFO queue at the level of its nodes as well: in every interleaving
  of non-blocking operations the accepted elements leave in order; and whatever it holds at the end,
  \<open>drain_all\<close> appends all of it in order and reports its number, and closing discards it; both leave no
  node allocated.\<close>

theorem copy_channel_fifo:
  "\<exists>acc tkn c ys. queue_run try_send channel_poll ops (new_channel m) = Some (acc, tkn, c)
     \<and> acc = tkn @ ys
     \<and> (\<exists>c'. drain_all out c = Some (length ys, out @ ys, c') \<and> channel_holds c' [] \<and> c_store c' = Map.empty)
     \<and> (\<exists>c'. close_channel c = Some c' \<and> c_closed c' \<and> c_store c' = Map.empty)"
proof -
  obtain acc tkn c ys where r: "queue_run try_send channel_poll ops (new_channel m) = Some (acc, tkn, c)"
    "channel_holds c ys" "acc = tkn @ ys"
    using ch.run_fifo [OF channel_holds_new, of ops m] by auto
  then show ?thesis using drain_all_holds [OF r(2), of out] close_channel_holds [OF r(2)] by blast
qed

end
