(* ===== verification/Aes.thy ===== *)
theory Aes
  imports Prelude
begin

text \<open>
  AES-256 and AES-256-GCM of \<open>tight/src/crypto.cpp\<close>: the S-box generated at run time, the key
  schedule, the block cipher on the 16-byte state in column order, GHASH and the GCM counter mode.
  The lemmas show that decryption inverts encryption, and that a packet is accepted exactly when its
  tag is the tag of the ciphertext and the associated data.
\<close>

section \<open>The S-box\<close>

definition aes_xtime :: "u8 \<Rightarrow> u8" where
  "aes_xtime a = push_bit 1 a XOR (if a AND 0x80 \<noteq> 0 then 0x1B else 0)"

lemma unat_drop_bit1: "(b :: u8) \<noteq> 0 \<Longrightarrow> unat (drop_bit (Suc 0) b) < unat b"
  by (subst unat_drop_bit_eq) (simp add: drop_bit_Suc unat_gt_0)

function aes_mul_loop :: "u8 \<Rightarrow> u8 \<Rightarrow> u8 \<Rightarrow> u8" where
  "aes_mul_loop a b r =
     (if b = 0 then r
      else aes_mul_loop (aes_xtime a) (drop_bit 1 b) (if b AND 1 \<noteq> 0 then r XOR a else r))"
  by auto
termination
  by (relation "measure (\<lambda>(a, b, r). unat b)") (auto simp: unat_drop_bit1)

declare aes_mul_loop.simps [simp del]

definition aes_mul :: "u8 \<Rightarrow> u8 \<Rightarrow> u8" where "aes_mul a b = aes_mul_loop a b 0"

fun aes_pow_loop :: "nat \<Rightarrow> u8 \<Rightarrow> u8 \<Rightarrow> u8" where
  "aes_pow_loop e base result =
     (if e = 0 then result
      else aes_pow_loop (e div 2) (aes_mul base base) (if odd e then aes_mul result base else result))"

declare aes_pow_loop.simps [simp del]

definition aes_inv :: "u8 \<Rightarrow> u8" where
  "aes_inv a = (if a = 0 then 0 else aes_pow_loop 254 a 1)"

definition rotl8 :: "u8 \<Rightarrow> nat \<Rightarrow> u8" where
  "rotl8 y n = push_bit n y OR drop_bit (8 - n) y"

definition sbox_entry :: "u8 \<Rightarrow> u8" where
  "sbox_entry x =
     (let y = aes_inv x in 0x63 XOR y XOR rotl8 y 1 XOR rotl8 y 2 XOR rotl8 y 3 XOR rotl8 y 4)"

definition aes_sbox :: "u8 list" where
  "aes_sbox = map (\<lambda>x. sbox_entry (of_nat x)) [0..<256]"

definition sbox :: "u8 \<Rightarrow> u8" where "sbox b = aes_sbox ! unat b"

section \<open>Key schedule and block cipher\<close>

definition be_word :: "u8 \<Rightarrow> u8 \<Rightarrow> u8 \<Rightarrow> u8 \<Rightarrow> u32" where
  "be_word b0 b1 b2 b3 = push_bit 24 (ucast b0) OR push_bit 16 (ucast b1) OR push_bit 8 (ucast b2) OR ucast b3"

definition word_byte :: "u32 \<Rightarrow> nat \<Rightarrow> u8" where
  "word_byte w n = ucast (drop_bit n w AND 0xFF)"

definition key_step :: "u32 list \<times> u32 \<Rightarrow> u32 list \<times> u32" where
  "key_step s = (case s of (w, rcon) \<Rightarrow>
     let i = length w;
         t = w ! (i - 1)
     in if i mod 8 = 0 then
          let t = be_word (sbox (word_byte t 16)) (sbox (word_byte t 8)) (sbox (word_byte t 0)) (sbox (word_byte t 24));
              t = t XOR rcon;
              rcon = push_bit 24 (ucast (aes_mul (word_byte rcon 24) 2))
          in (w @ [w ! (i - 8) XOR t], rcon)
        else if i mod 8 = 4 then
          let t = be_word (sbox (word_byte t 24)) (sbox (word_byte t 16)) (sbox (word_byte t 8)) (sbox (word_byte t 0))
          in (w @ [w ! (i - 8) XOR t], rcon)
        else (w @ [w ! (i - 8) XOR t], rcon))"

definition key_words :: "bytes \<Rightarrow> u32 list" where
  "key_words key = fst ((key_step ^^ 52)
     (map (\<lambda>i. be_word (key ! (i * 4)) (key ! (i * 4 + 1)) (key ! (i * 4 + 2)) (key ! (i * 4 + 3))) [0..<8], 0x01000000))"

type_synonym aes256 = "bytes list"

definition aes256_key :: "bytes \<Rightarrow> aes256" where
  "aes256_key key =
     (let w = key_words key
      in map (\<lambda>r. concat (map (\<lambda>c. let word = w ! (r * 4 + c)
                                     in [word_byte word 24, word_byte word 16, word_byte word 8, word_byte word 0]) [0..<4])) [0..<15])"

definition sub_shift :: "bytes \<Rightarrow> bytes" where
  "sub_shift s = map (\<lambda>i. sbox (s ! i)) [0, 5, 10, 15, 4, 9, 14, 3, 8, 13, 2, 7, 12, 1, 6, 11]"

definition mix_column :: "bytes \<Rightarrow> nat \<Rightarrow> bytes" where
  "mix_column s c =
     (let a0 = s ! (c * 4); a1 = s ! (c * 4 + 1); a2 = s ! (c * 4 + 2); a3 = s ! (c * 4 + 3)
      in [aes_mul a0 2 XOR aes_mul a1 3 XOR a2 XOR a3,
          a0 XOR aes_mul a1 2 XOR aes_mul a2 3 XOR a3,
          a0 XOR a1 XOR aes_mul a2 2 XOR aes_mul a3 3,
          aes_mul a0 3 XOR a1 XOR a2 XOR aes_mul a3 2])"

definition mix_columns :: "bytes \<Rightarrow> bytes" where
  "mix_columns s = concat (map (mix_column s) [0..<4])"

definition add_key :: "bytes \<Rightarrow> bytes \<Rightarrow> bytes" where
  "add_key k s = map2 (XOR) s k"

definition encrypt_block :: "aes256 \<Rightarrow> bytes \<Rightarrow> bytes" where
  "encrypt_block rk inp =
     (let s = add_key (rk ! 0) inp;
          s = fold (\<lambda>round s. add_key (rk ! round) (mix_columns (sub_shift s))) [1..<14] s
      in add_key (rk ! 14) (sub_shift s))"

section \<open>GCM\<close>

definition ghash_shift :: "bytes \<Rightarrow> bytes" where
  "ghash_shift v =
     (let lsb = (v ! 15 AND 1 \<noteq> 0);
          w = map (\<lambda>j. if j = 0 then drop_bit 1 (v ! 0)
                        else drop_bit 1 (v ! j) OR push_bit 7 (v ! (j - 1))) [0..<16]
      in if lsb then w[0 := w ! 0 XOR 0xE1] else w)"

definition ghash_bit :: "bytes \<Rightarrow> nat \<Rightarrow> bytes \<times> bytes \<Rightarrow> bytes \<times> bytes" where
  "ghash_bit x i zv = (case zv of (z, v) \<Rightarrow>
     (if drop_bit (7 - i mod 8) (x ! (i div 8)) AND 1 \<noteq> 0 then map2 (XOR) z v else z, ghash_shift v))"

definition ghash_mul :: "bytes \<Rightarrow> bytes \<Rightarrow> bytes" where
  "ghash_mul x y = fst (fold (ghash_bit x) [0..<128] (replicate 16 0, y))"

fun ghash_update :: "bytes \<Rightarrow> bytes \<Rightarrow> bytes \<Rightarrow> bytes" where
  "ghash_update h data x =
     (if data = [] then x
      else
        let n = (if length data < 16 then length data else 16);
            block = write_at (replicate 16 0) 0 (take n data)
        in ghash_update h (drop n data) (ghash_mul (map2 (XOR) x block) h))"

declare ghash_update.simps [simp del]

definition len_block :: "nat \<Rightarrow> nat \<Rightarrow> bytes" where
  "len_block aad_len ct_len =
     (let aad_bits = of_nat aad_len * 8 :: u64; ct_bits = of_nat ct_len * 8 :: u64
      in map (\<lambda>i. ucast (drop_bit (56 - i * 8) aad_bits AND 0xFF)) [0..<8]
         @ map (\<lambda>i. ucast (drop_bit (56 - i * 8) ct_bits AND 0xFF)) [0..<8])"

definition gcm_compute_tag :: "aes256 \<Rightarrow> bytes \<Rightarrow> bytes \<Rightarrow> bytes \<Rightarrow> bytes" where
  "gcm_compute_tag aes j0 aad ct =
     (let h = encrypt_block aes (replicate 16 0);
          x = replicate 16 0;
          x = ghash_update h aad x;
          x = ghash_update h ct x;
          x = ghash_update h (len_block (length aad) (length ct)) x;
          ej0 = encrypt_block aes j0
      in map2 (XOR) x ej0)"

text \<open>\<open>for (i = 15; i >= 12; --i) if (++ctr[i] != 0) break;\<close>\<close>

fun inc_from :: "nat \<Rightarrow> bytes \<Rightarrow> bytes" where
  "inc_from i ctr =
     (if i < 12 then ctr
      else let ctr = ctr[i := ctr ! i + 1] in if ctr ! i \<noteq> 0 then ctr else inc_from (i - 1) ctr)"

declare inc_from.simps [simp del]

definition inc_ctr :: "bytes \<Rightarrow> bytes" where "inc_ctr ctr = inc_from 15 ctr"

fun gcm_crypt_loop :: "aes256 \<Rightarrow> bytes \<Rightarrow> bytes \<Rightarrow> bytes" where
  "gcm_crypt_loop aes ctr inp =
     (if inp = [] then []
      else
        let ctr = inc_ctr ctr;
            ks = encrypt_block aes ctr;
            n = (if length inp < 16 then length inp else 16)
        in map2 (XOR) (take n inp) (take n ks) @ gcm_crypt_loop aes ctr (drop n inp))"

declare gcm_crypt_loop.simps [simp del]

definition aes256_gcm_crypt :: "aes256 \<Rightarrow> bytes \<Rightarrow> bytes \<Rightarrow> bytes" where
  "aes256_gcm_crypt aes j0 inp = gcm_crypt_loop aes j0 inp"

definition kGcmNonceSize :: nat where "kGcmNonceSize = 12"
definition kGcmTagSize :: nat where "kGcmTagSize = 16"

definition gcm_j0 :: "bytes \<Rightarrow> bytes" where
  "gcm_j0 nonce = (write_at (replicate 16 0) 0 nonce)[15 := 1]"

text \<open>Ciphertext and tag.\<close>

definition aes256_gcm_encrypt :: "bytes \<Rightarrow> bytes \<Rightarrow> bytes \<Rightarrow> bytes \<Rightarrow> bytes \<times> bytes" where
  "aes256_gcm_encrypt key nonce aad plaintext =
     (let aes = aes256_key key;
          j0 = gcm_j0 nonce;
          ciphertext = aes256_gcm_crypt aes j0 plaintext
      in (ciphertext, gcm_compute_tag aes j0 aad ciphertext))"

definition tag_diff :: "bytes \<Rightarrow> bytes \<Rightarrow> u8" where
  "tag_diff expect tag = fold (\<lambda>i diff. diff OR (expect ! i XOR tag ! i)) [0..<16] 0"

definition aes256_gcm_decrypt :: "bytes \<Rightarrow> bytes \<Rightarrow> bytes \<Rightarrow> bytes \<Rightarrow> bytes \<Rightarrow> bytes option" where
  "aes256_gcm_decrypt key nonce aad ciphertext tag =
     (let aes = aes256_key key;
          j0 = gcm_j0 nonce;
          expect = gcm_compute_tag aes j0 aad ciphertext
      in if tag_diff expect tag \<noteq> 0 then None
         else Some (aes256_gcm_crypt aes j0 ciphertext))"

section \<open>Sizes\<close>

lemma length_add_key [simp]: "length (add_key k s) = min (length s) (length k)"
  by (simp add: add_key_def)

lemma length_sub_shift [simp]: "length (sub_shift s) = 16"
  by (simp add: sub_shift_def)

lemma length_mix_columns [simp]: "length (mix_columns s) = 16"
  by (simp add: mix_columns_def mix_column_def Let_def eval_nat_numeral)

lemma length_aes256_key [simp]: "length (aes256_key key) = 15"
  by (simp add: aes256_key_def Let_def)

lemma length_round_key [simp]: "r < 15 \<Longrightarrow> length (aes256_key key ! r) = 16"
  by (simp add: aes256_key_def Let_def length_concat comp_def sum_list_triv)

lemma length_encrypt_block [simp]: "length (encrypt_block (aes256_key key) b) = 16"
  by (simp add: encrypt_block_def Let_def)

section \<open>Encryption and decryption\<close>

lemma length_gcm_crypt:
  "length (gcm_crypt_loop (aes256_key key) ctr inp) = length inp"
proof (induction "length inp" arbitrary: inp ctr rule: less_induct)
  case less
  then show ?case by (subst gcm_crypt_loop.simps) (auto simp: Let_def)
qed

lemma gcm_crypt_involution:
  "gcm_crypt_loop (aes256_key key) ctr (gcm_crypt_loop (aes256_key key) ctr inp) = inp"
proof (induction "length inp" arbitrary: inp ctr rule: less_induct)
  case less
  show ?case
  proof (cases "inp = []")
    case True
    then show ?thesis by (simp add: gcm_crypt_loop.simps)
  next
    case False
    let ?aes = "aes256_key key" and ?ctr = "inc_ctr ctr" and ?n = "if length inp < 16 then length inp else 16"
    let ?ks = "take ?n (encrypt_block ?aes ?ctr)"
    let ?head = "map2 (XOR) (take ?n inp) ?ks" and ?rest = "gcm_crypt_loop ?aes ?ctr (drop ?n inp)"
    have e: "gcm_crypt_loop ?aes ctr inp = ?head @ ?rest"
      using False by (subst gcm_crypt_loop.simps) (simp add: Let_def)
    have len: "length ?head = ?n" "length ?rest = length inp - ?n" by (simp_all add: length_gcm_crypt)
    then have n': "(if length (?head @ ?rest) < 16 then length (?head @ ?rest) else 16) = ?n" by auto
    have t: "take ?n (?head @ ?rest) = ?head" "drop ?n (?head @ ?rest) = ?rest" using len by simp_all
    have ne: "?head @ ?rest \<noteq> []" using len False by (metis append_is_Nil_conv length_greater_0_conv length_0_conv zero_less_numeral)
    have "gcm_crypt_loop ?aes ctr (?head @ ?rest)
       = map2 (XOR) ?head ?ks @ gcm_crypt_loop ?aes ?ctr ?rest"
      using ne by (subst gcm_crypt_loop.simps) (simp only: Let_def n' t if_False)
    also have "map2 (XOR) ?head ?ks = take ?n inp"
      by (rule nth_equalityI) (auto simp: xor.assoc)
    also have "gcm_crypt_loop ?aes ?ctr ?rest = drop ?n inp"
      using False by (intro less) auto
    finally show ?thesis unfolding e by simp
  qed
qed

lemma tag_diff_zero:
  assumes "length a = 16" "length b = 16"
  shows "tag_diff a b = 0 \<longleftrightarrow> a = b"
proof -
  have or0: "x OR y = 0 \<longleftrightarrow> x = 0 \<and> y = 0" for x y :: u8
    by (simp add: or_eq_0_iff)
  have xor0: "x XOR y = 0 \<longleftrightarrow> x = y" for x y :: u8
    by (metis xor_self_eq xor_left_cancel)
  have "fold (\<lambda>i diff. diff OR (a ! i XOR b ! i)) is d = 0 \<longleftrightarrow> d = 0 \<and> (\<forall>i \<in> set is. a ! i = b ! i)" for "is" d
    by (induction "is" arbitrary: d) (auto simp: or0 xor0)
  then have "tag_diff a b = 0 \<longleftrightarrow> (\<forall>i < 16. a ! i = b ! i)" by (auto simp: tag_diff_def)
  with assms show ?thesis by (auto intro: nth_equalityI)
qed

lemma length_ghash_shift [simp]: "length (ghash_shift v) = 16"
  by (simp add: ghash_shift_def Let_def)

lemma length_ghash_mul [simp]: "length y = 16 \<Longrightarrow> length (ghash_mul x y) = 16"
proof -
  assume "length y = 16"
  moreover have "length z = 16 \<Longrightarrow> length v = 16 \<Longrightarrow> length (fst (fold (ghash_bit x) is (z, v))) = 16" for "is" z v
    by (induction "is" arbitrary: z v) (auto simp: ghash_bit_def)
  ultimately show ?thesis by (simp add: ghash_mul_def)
qed

lemma length_ghash_update:
  "length x = 16 \<Longrightarrow> length h = 16 \<Longrightarrow> length (ghash_update h data x) = 16"
proof (induction "length data" arbitrary: data x rule: less_induct)
  case less
  then show ?case by (subst ghash_update.simps) (auto simp: Let_def intro!: less.hyps)
qed

lemma length_tag [simp]: "length (gcm_compute_tag (aes256_key key) j0 aad ct) = 16"
  by (simp add: gcm_compute_tag_def Let_def length_ghash_update)

text \<open>C37. Decryption inverts encryption under the same key, nonce and associated data for every
  message length, the last partial block included, and the ciphertext is as long as the plaintext
  with a 16-byte tag.\<close>

theorem gcm_decrypt_encrypt:
  "(case aes256_gcm_encrypt key nonce aad pt of
      (ct, tag) \<Rightarrow> aes256_gcm_decrypt key nonce aad ct tag = Some pt \<and> length ct = length pt \<and> length tag = kGcmTagSize)"
  by (simp add: aes256_gcm_encrypt_def aes256_gcm_decrypt_def Let_def tag_diff_zero aes256_gcm_crypt_def
      gcm_crypt_involution length_gcm_crypt kGcmTagSize_def)

text \<open>The constant-time comparison is exact: a packet with a 16-byte tag is decrypted if and only
  if the tag equals the one computed from the key, the nonce, the associated data and the ciphertext;
  every other tag is refused and no plaintext is returned.\<close>

theorem gcm_decrypt_iff:
  assumes "length tag = kGcmTagSize"
  shows "aes256_gcm_decrypt key nonce aad ct tag =
    (if tag = gcm_compute_tag (aes256_key key) (gcm_j0 nonce) aad ct
     then Some (aes256_gcm_crypt (aes256_key key) (gcm_j0 nonce) ct) else None)"
  using assms by (auto simp: aes256_gcm_decrypt_def Let_def tag_diff_zero kGcmTagSize_def)

theorem gcm_decrypt_iff_witness:
  "aes256_gcm_decrypt (replicate 32 0) (replicate 12 0) [] [] (map (\<lambda>b. b XOR 1) (gcm_compute_tag (aes256_key (replicate 32 0)) (gcm_j0 (replicate 12 0)) [] [])) = None"
proof -
  let ?t = "gcm_compute_tag (aes256_key (replicate 32 0)) (gcm_j0 (replicate 12 0)) [] []"
  have "map (\<lambda>b. b XOR 1) ?t ! 0 \<noteq> ?t ! 0" using xor_left_cancel [of "?t ! 0" 1 0] by simp
  then have "map (\<lambda>b. b XOR 1) ?t \<noteq> ?t" by metis
  then show ?thesis
    using gcm_decrypt_iff [of "map (\<lambda>b. b XOR 1) ?t" "replicate 32 0" "replicate 12 0" "[]" "[]"]
    by (simp add: kGcmTagSize_def)
qed

end
