(* ===== verification/X25519.thy ===== *)
theory X25519
  imports Prelude
begin

text \<open>
  X25519 key agreement of \<open>tight/src/crypto.cpp\<close>: field elements as five 51-bit limbs in 64-bit
  words, products in 128-bit words, the Montgomery ladder with conditional swaps, inversion by the
  addition chain, and the canonical 32-byte encoding.
  \<open>fe_val\<close> is the integer a field element stands for. The lemmas show that within the limb bounds the
  code maintains every field operation computes its namesake modulo 2^255 - 19 although the words wrap,
  that \<open>fe_inv\<close> raises to the power p - 2, and that the whole ladder with its deferred swaps computes
  the Montgomery ladder over the integers modulo p.
\<close>

type_synonym u128 = "128 word"

datatype fe = Fe (l0: u64) (l1: u64) (l2: u64) (l3: u64) (l4: u64)

definition kMask51 :: u64 where "kMask51 = push_bit 51 1 - 1"

definition load_le64 :: "bytes \<Rightarrow> nat \<Rightarrow> u64" where
  "load_le64 b off = fold (\<lambda>i v. v OR push_bit (i * 8) (ucast (b ! (off + i)))) [0..<8] 0"

definition fe_frombytes :: "bytes \<Rightarrow> fe" where
  "fe_frombytes s = Fe (load_le64 s 0 AND kMask51) (drop_bit 3 (load_le64 s 6) AND kMask51)
     (drop_bit 6 (load_le64 s 12) AND kMask51) (drop_bit 1 (load_le64 s 19) AND kMask51)
     (drop_bit 12 (load_le64 s 24) AND kMask51)"

text \<open>One carry pass of \<open>fe_tobytes\<close>.\<close>

definition fe_carry :: "fe \<Rightarrow> fe" where
  "fe_carry h = (case h of Fe h0 h1 h2 h3 h4 \<Rightarrow>
     let c = drop_bit 51 h0; h0 = h0 AND kMask51; h1 = h1 + c;
         c = drop_bit 51 h1; h1 = h1 AND kMask51; h2 = h2 + c;
         c = drop_bit 51 h2; h2 = h2 AND kMask51; h3 = h3 + c;
         c = drop_bit 51 h3; h3 = h3 AND kMask51; h4 = h4 + c;
         c = drop_bit 51 h4; h4 = h4 AND kMask51; h0 = h0 + 19 * c
     in Fe h0 h1 h2 h3 h4)"

text \<open>One limb of the conditional subtraction: \<open>int64_t\<close> arithmetic on limbs below 2^63 does not
  overflow, so the difference is an integer; its cast to \<open>uint64_t\<close> is \<open>of_int\<close>.\<close>

definition sub_limb :: "u64 \<Rightarrow> u64 \<Rightarrow> int \<Rightarrow> u64 \<times> int" where
  "sub_limb h p borrow =
     (let t = sint h - sint p - borrow
      in (of_int t AND kMask51, if t < 0 then 1 else 0))"

definition fe_reduce :: "fe \<Rightarrow> fe" where
  "fe_reduce h = (case h of Fe h0 h1 h2 h3 h4 \<Rightarrow>
     let (m0, b) = sub_limb h0 (kMask51 - 18) 0;
         (m1, b) = sub_limb h1 kMask51 b;
         (m2, b) = sub_limb h2 kMask51 b;
         (m3, b) = sub_limb h3 kMask51 b;
         (m4, b) = sub_limb h4 kMask51 b;
         keep = (of_int (- b) :: u64);
         sel = (\<lambda>h m. (keep AND h) OR (NOT keep AND m))
     in Fe (sel h0 m0) (sel h1 m1) (sel h2 m2) (sel h3 m3) (sel h4 m4))"

definition fe_pack :: "fe \<Rightarrow> bytes" where
  "fe_pack out = (case out of Fe o0 o1 o2 o3 o4 \<Rightarrow> map ucast
     [o0, drop_bit 8 o0, drop_bit 16 o0, drop_bit 24 o0, drop_bit 32 o0, drop_bit 40 o0,
      drop_bit 48 o0 OR push_bit 3 o1, drop_bit 5 o1, drop_bit 13 o1, drop_bit 21 o1, drop_bit 29 o1, drop_bit 37 o1,
      drop_bit 45 o1 OR push_bit 6 o2, drop_bit 2 o2, drop_bit 10 o2, drop_bit 18 o2, drop_bit 26 o2, drop_bit 34 o2, drop_bit 42 o2,
      drop_bit 50 o2 OR push_bit 1 o3, drop_bit 7 o3, drop_bit 15 o3, drop_bit 23 o3, drop_bit 31 o3, drop_bit 39 o3,
      drop_bit 47 o3 OR push_bit 4 o4, drop_bit 4 o4, drop_bit 12 o4, drop_bit 20 o4, drop_bit 28 o4, drop_bit 36 o4, drop_bit 44 o4])"

definition fe_tobytes :: "fe \<Rightarrow> bytes" where
  "fe_tobytes f = fe_pack (fe_reduce (fe_carry (fe_carry (fe_carry f))))"

fun fe_add :: "fe \<Rightarrow> fe \<Rightarrow> fe" where
  "fe_add (Fe f0 f1 f2 f3 f4) (Fe g0 g1 g2 g3 g4) = Fe (f0 + g0) (f1 + g1) (f2 + g2) (f3 + g3) (f4 + g4)"

fun fe_sub :: "fe \<Rightarrow> fe \<Rightarrow> fe" where
  "fe_sub (Fe f0 f1 f2 f3 f4) (Fe g0 g1 g2 g3 g4) =
     Fe (f0 + 0xFFFFFFFFFFFDA - g0) (f1 + 0xFFFFFFFFFFFFE - g1) (f2 + 0xFFFFFFFFFFFFE - g2)
        (f3 + 0xFFFFFFFFFFFFE - g3) (f4 + 0xFFFFFFFFFFFFE - g4)"

text \<open>The carry chain that ends \<open>fe_mul\<close> and \<open>fe_mul_scalar\<close>: the carry \<open>c\<close> is a 64-bit variable, and
  \<open>19 * c\<close> is a 64-bit product.\<close>

definition fe_fold :: "u128 \<Rightarrow> u128 \<Rightarrow> u128 \<Rightarrow> u128 \<Rightarrow> u128 \<Rightarrow> fe" where
  "fe_fold r0 r1 r2 r3 r4 =
     (let m = ucast kMask51 :: u128;
          c = ucast (drop_bit 51 r0) :: u64; r0 = r0 AND m; r1 = r1 + ucast c;
          c = ucast (drop_bit 51 r1) :: u64; r1 = r1 AND m; r2 = r2 + ucast c;
          c = ucast (drop_bit 51 r2) :: u64; r2 = r2 AND m; r3 = r3 + ucast c;
          c = ucast (drop_bit 51 r3) :: u64; r3 = r3 AND m; r4 = r4 + ucast c;
          c = ucast (drop_bit 51 r4) :: u64; r4 = r4 AND m; r0 = r0 + ucast (19 * c);
          c = ucast (drop_bit 51 r0) :: u64; r0 = r0 AND m; r1 = r1 + ucast c
      in Fe (ucast r0) (ucast r1) (ucast r2) (ucast r3) (ucast r4))"

fun fe_mul :: "fe \<Rightarrow> fe \<Rightarrow> fe" where
  "fe_mul (Fe a0 a1 a2 a3 a4) (Fe b0 b1 b2 b3 b4) =
     (let f0 = ucast a0 :: u128; f1 = ucast a1; f2 = ucast a2; f3 = ucast a3; f4 = ucast a4;
          g0 = ucast b0 :: u128; g1 = ucast b1; g2 = ucast b2; g3 = ucast b3; g4 = ucast b4
      in fe_fold
        (f0 * g0 + 19 * (f1 * g4 + f2 * g3 + f3 * g2 + f4 * g1))
        (f0 * g1 + f1 * g0 + 19 * (f2 * g4 + f3 * g3 + f4 * g2))
        (f0 * g2 + f1 * g1 + f2 * g0 + 19 * (f3 * g4 + f4 * g3))
        (f0 * g3 + f1 * g2 + f2 * g1 + f3 * g0 + 19 * (f4 * g4))
        (f0 * g4 + f1 * g3 + f2 * g2 + f3 * g1 + f4 * g0))"

definition fe_sq :: "fe \<Rightarrow> fe" where "fe_sq f = fe_mul f f"

fun fe_mul_scalar :: "fe \<Rightarrow> u64 \<Rightarrow> fe" where
  "fe_mul_scalar (Fe f0 f1 f2 f3 f4) s =
     fe_fold (ucast f0 * ucast s) (ucast f1 * ucast s) (ucast f2 * ucast s) (ucast f3 * ucast s) (ucast f4 * ucast s)"

definition fe_sq_n :: "fe \<Rightarrow> nat \<Rightarrow> fe" where "fe_sq_n f n = (fe_sq ^^ n) f"

definition fe_inv :: "fe \<Rightarrow> fe" where
  "fe_inv z =
     (let z2 = fe_sq z;
          z8 = fe_sq_n z2 2;
          z9 = fe_mul z z8;
          z11 = fe_mul z2 z9;
          z22 = fe_sq z11;
          z_5_0 = fe_mul z9 z22;
          z_10_0 = fe_mul (fe_sq_n z_5_0 5) z_5_0;
          z_20_0 = fe_mul (fe_sq_n z_10_0 10) z_10_0;
          z_40_0 = fe_mul (fe_sq_n z_20_0 20) z_20_0;
          z_50_0 = fe_mul (fe_sq_n z_40_0 10) z_10_0;
          z_100_0 = fe_mul (fe_sq_n z_50_0 50) z_50_0;
          z_200_0 = fe_mul (fe_sq_n z_100_0 100) z_100_0;
          z_250_0 = fe_mul (fe_sq_n z_200_0 50) z_50_0
      in fe_mul (fe_sq_n z_250_0 5) z11)"

definition cswap_limb :: "u64 \<Rightarrow> u64 \<Rightarrow> u64 \<Rightarrow> u64 \<times> u64" where
  "cswap_limb msk f g = (let t = msk AND (f XOR g) in (f XOR t, g XOR t))"

definition fe_cswap :: "fe \<Rightarrow> fe \<Rightarrow> u64 \<Rightarrow> fe \<times> fe" where
  "fe_cswap f g swap =
     (let msk = 0 - swap;
          (f0, g0) = cswap_limb msk (l0 f) (l0 g);
          (f1, g1) = cswap_limb msk (l1 f) (l1 g);
          (f2, g2) = cswap_limb msk (l2 f) (l2 g);
          (f3, g3) = cswap_limb msk (l3 f) (l3 g);
          (f4, g4) = cswap_limb msk (l4 f) (l4 g)
      in (Fe f0 f1 f2 f3 f4, Fe g0 g1 g2 g3 g4))"

definition clamp :: "bytes \<Rightarrow> bytes" where
  "clamp private_key =
     (let e = private_key;
          e = e[0 := e ! 0 AND 248];
          e = e[31 := e ! 31 AND 127]
      in e[31 := e ! 31 OR 64])"

type_synonym ladder_state = "fe \<times> fe \<times> fe \<times> fe \<times> u64"

definition ladder_core :: "fe \<Rightarrow> fe \<times> fe \<times> fe \<times> fe \<Rightarrow> fe \<times> fe \<times> fe \<times> fe" where
  "ladder_core x1 s = (case s of (x2, z2, x3, z3) \<Rightarrow>
     let a = fe_add x2 z2;
         aa = fe_sq a;
         b = fe_sub x2 z2;
         bb = fe_sq b;
         e2 = fe_sub aa bb;
         c = fe_add x3 z3;
         d = fe_sub x3 z3;
         da = fe_mul d a;
         cb = fe_mul c b;
         da_cb = fe_add da cb;
         da_cb2 = fe_sub da cb
     in (fe_mul aa bb, fe_mul e2 (fe_add aa (fe_mul_scalar e2 121665)),
         fe_sq da_cb, fe_mul x1 (fe_sq da_cb2)))"

definition key_bit :: "bytes \<Rightarrow> nat \<Rightarrow> u64" where
  "key_bit e t = ucast (drop_bit (t mod 8) (e ! (t div 8)) AND 1)"

definition ladder_step :: "fe \<Rightarrow> bytes \<Rightarrow> nat \<Rightarrow> ladder_state \<Rightarrow> ladder_state" where
  "ladder_step x1 e t s = (case s of (x2, z2, x3, z3, swap) \<Rightarrow>
     let kt = key_bit e t;
         swap = swap XOR kt;
         (x2, x3) = fe_cswap x2 x3 swap;
         (z2, z3) = fe_cswap z2 z3 swap;
         (x2, z2, x3, z3) = ladder_core x1 (x2, z2, x3, z3)
     in (x2, z2, x3, z3, kt))"

text \<open>The field element the function computes, up to its encoding.\<close>

definition x25519_field :: "bytes \<Rightarrow> bytes \<Rightarrow> fe" where
  "x25519_field private_key peer_public_key =
     (let e = clamp private_key;
          x1 = fe_frombytes peer_public_key;
          (x2, z2, x3, z3, swap) = fold (ladder_step x1 e) (rev [0..<255]) (Fe 1 0 0 0 0, Fe 0 0 0 0 0, x1, Fe 1 0 0 0 0, 0);
          (x2, x3) = fe_cswap x2 x3 swap;
          (z2, z3) = fe_cswap z2 z3 swap
      in fe_mul x2 (fe_inv z2))"

text \<open>The output buffer and the result: false when every byte of the output is zero.\<close>

definition x25519 :: "bytes \<Rightarrow> bytes \<Rightarrow> bytes \<times> bool" where
  "x25519 private_key peer_public_key =
     (let out = fe_tobytes (x25519_field private_key peer_public_key);
          acc = fold (\<lambda>b acc. acc OR b) out 0
      in (out, acc \<noteq> 0))"

text \<open>The random private key is the argument.\<close>

definition x25519_generate :: "bytes \<Rightarrow> bytes \<times> bytes" where
  "x25519_generate private_key = (private_key, fst (x25519 private_key (9 # replicate 31 0)))"

section \<open>The integer a field element stands for\<close>

definition p25519 :: int where "p25519 = 2 ^ 255 - 19"

definition fe_val :: "fe \<Rightarrow> int" where
  "fe_val f = uint (l0 f) + 2 ^ 51 * uint (l1 f) + 2 ^ 102 * uint (l2 f) + 2 ^ 153 * uint (l3 f) + 2 ^ 204 * uint (l4 f)"

definition fe_bound :: "int \<Rightarrow> fe \<Rightarrow> bool" where
  "fe_bound k f \<longleftrightarrow> uint (l0 f) < k \<and> uint (l1 f) < k \<and> uint (l2 f) < k \<and> uint (l3 f) < k \<and> uint (l4 f) < k"

lemma uint_mask51: "uint (x AND kMask51) = uint x mod 2 ^ 51" for x :: u64
proof -
  have "kMask51 = mask 51" by (simp add: kMask51_def mask_eq_exp_minus_1)
  then have "x AND kMask51 = take_bit 51 x" by (simp only: take_bit_eq_mask)
  then have "uint (x AND kMask51) = take_bit 51 (uint x)" by (simp only: unsigned_take_bit_eq)
  then show ?thesis by (simp only: take_bit_eq_mod)
qed

lemma uint_mask51_128: "uint (x AND ucast kMask51) = uint x mod 2 ^ 51" for x :: u128
proof -
  have "ucast kMask51 = (mask 51 :: u128)" by (simp add: kMask51_def mask_eq_exp_minus_1)
  then have "x AND ucast kMask51 = take_bit 51 x" by (simp only: take_bit_eq_mask)
  then have "uint (x AND ucast kMask51) = take_bit 51 (uint x)" by (simp only: unsigned_take_bit_eq)
  then show ?thesis by (simp only: take_bit_eq_mod)
qed

lemma uint_add_u128: "uint a + uint b < 2 ^ 128 \<Longrightarrow> uint (a + b) = uint a + uint b" for a b :: u128
  by (simp add: uint_word_ariths mod_pos_pos_trivial)

lemma uint_mul_u128: "uint a * uint b < 2 ^ 128 \<Longrightarrow> uint (a * b) = uint a * uint b" for a b :: u128
  by (simp add: uint_word_ariths mod_pos_pos_trivial)

lemma uint_add_u64: "uint a + uint b < 2 ^ 64 \<Longrightarrow> uint (a + b) = uint a + uint b" for a b :: u64
  by (simp add: uint_word_ariths mod_pos_pos_trivial)

lemma uint_mul_u64: "uint a * uint b < 2 ^ 64 \<Longrightarrow> uint (a * b) = uint a * uint b" for a b :: u64
  by (simp add: uint_word_ariths mod_pos_pos_trivial)

lemma uint_widen [simp]: "uint (ucast (a :: u64) :: u128) = uint a"
  by (rule uint_up_ucast) (simp add: is_up)

lemma uint_narrow: "uint (a :: u128) < 2 ^ 64 \<Longrightarrow> uint (ucast a :: u64) = uint a"
  by (simp add: unsigned_ucast_eq take_bit_int_eq_self_iff)

lemma uint_drop51: "uint (drop_bit 51 a) = uint a div 2 ^ 51" for a :: "'a::len word"
proof -
  have "uint (drop_bit 51 a) = drop_bit 51 (uint a)" by (rule bit_eqI) (simp add: bit_unsigned_iff bit_drop_bit_eq)
  then show ?thesis by (simp only: drop_bit_eq_div)
qed

section \<open>The carry chain\<close>

lemma div51_less: "x < n * 2 ^ 51 \<Longrightarrow> x div 2 ^ 51 < (n :: int)"
  by simp

lemma carry_out:
  fixes r :: u128
  assumes "uint r < 2 ^ 115"
  shows "uint (ucast (drop_bit 51 r) :: u64) = uint r div 2 ^ 51"
proof -
  have "uint r div 2 ^ 51 < 2 ^ 64" using assms by (intro div51_less) simp
  then show ?thesis using uint_narrow [of "drop_bit 51 r"] by (simp only: uint_drop51)
qed

lemma carry_in:
  fixes r :: u128 and c :: u64
  assumes "uint r < 2 ^ 114"
  shows "uint (r + ucast c) = uint r + uint c" "uint (r + ucast c) < 2 ^ 115"
proof -
  have c: "uint c < 2 ^ 64" using uint_bounded [of c] by simp
  then show e: "uint (r + ucast c) = uint r + uint c"
    using assms by (subst uint_add_u128) simp_all
  show "uint (r + ucast c) < 2 ^ 115" using c assms unfolding e by simp
qed

lemma mod_diff_mult_self: "(a - c * p) mod p = a mod (p :: int)"
  by (metis mod_mult_self4 diff_conv_add_uminus mult_minus_left mod_mult_self1)

lemma fold_int:
  fixes B :: int
  assumes "R0 = B * c0 + a0" "R1 + c0 = B * c1 + a1" "R2 + c1 = B * c2 + a2" "R3 + c2 = B * c3 + a3"
    "R4 + c3 = B * c4 + a4" "a0 + 19 * c4 = B * c5 + b0" "P = B ^ 5 - 19"
  shows "b0 + B * (a1 + c5) + B ^ 2 * a2 + B ^ 3 * a3 + B ^ 4 * a4
    = R0 + B * R1 + B ^ 2 * R2 + B ^ 3 * R3 + B ^ 4 * R4 - c4 * P"
proof -
  have "R0 + B * R1 + B ^ 2 * R2 + B ^ 3 * R3 + B ^ 4 * R4
    = a0 + B * a1 + B ^ 2 * a2 + B ^ 3 * a3 + B ^ 4 * a4 + B ^ 5 * c4"
  proof -
    have R: "R1 = B * c1 + a1 - c0" "R2 = B * c2 + a2 - c1" "R3 = B * c3 + a3 - c2" "R4 = B * c4 + a4 - c3"
      using assms by linarith+
    show ?thesis unfolding assms(1) R by (simp add: algebra_simps eval_nat_numeral)
  qed
  moreover have "b0 = a0 + 19 * c4 - B * c5" using assms(6) by linarith
  ultimately show ?thesis unfolding assms(7) by (simp add: algebra_simps)
qed

lemma fe_fold_spec:
  fixes r0 r1 r2 r3 r4 :: u128
  assumes r: "uint r0 < 2 ^ 114" "uint r1 < 2 ^ 114" "uint r2 < 2 ^ 114" "uint r3 < 2 ^ 114" "uint r4 < 2 ^ 110"
  shows "fe_val (fe_fold r0 r1 r2 r3 r4) mod p25519
      = (uint r0 + 2 ^ 51 * uint r1 + 2 ^ 102 * uint r2 + 2 ^ 153 * uint r3 + 2 ^ 204 * uint r4) mod p25519
    \<and> fe_bound (2 ^ 51 + 2 ^ 14) (fe_fold r0 r1 r2 r3 r4)"
proof -
  let ?B = "2 ^ 51 :: int"
  define m where "m = (ucast kMask51 :: u128)"
  note M = uint_mask51_128 [folded m_def]
  define c0 where "c0 = (ucast (drop_bit 51 r0) :: u64)"
  define s1 where "s1 = r1 + ucast c0"
  define c1 where "c1 = (ucast (drop_bit 51 s1) :: u64)"
  define s2 where "s2 = r2 + ucast c1"
  define c2 where "c2 = (ucast (drop_bit 51 s2) :: u64)"
  define s3 where "s3 = r3 + ucast c2"
  define c3 where "c3 = (ucast (drop_bit 51 s3) :: u64)"
  define s4 where "s4 = r4 + ucast c3"
  define c4 where "c4 = (ucast (drop_bit 51 s4) :: u64)"
  define s0 where "s0 = (r0 AND m) + ucast (19 * c4)"
  define c5 where "c5 = (ucast (drop_bit 51 s0) :: u64)"
  define t1 where "t1 = (s1 AND m) + ucast c5"
  have F: "fe_fold r0 r1 r2 r3 r4 = Fe (ucast (s0 AND m)) (ucast t1) (ucast (s2 AND m)) (ucast (s3 AND m)) (ucast (s4 AND m))"
    by (simp add: fe_fold_def Let_def m_def c0_def s1_def c1_def s2_def c2_def s3_def c3_def s4_def c4_def s0_def c5_def t1_def)
  have C0: "uint c0 = uint r0 div ?B" unfolding c0_def using r by (intro carry_out) simp
  have S1: "uint s1 = uint r1 + uint c0" "uint s1 < 2 ^ 115" unfolding s1_def using carry_in r(2) by blast+
  have C1: "uint c1 = uint s1 div ?B" unfolding c1_def by (rule carry_out [OF S1(2)])
  have S2: "uint s2 = uint r2 + uint c1" "uint s2 < 2 ^ 115" unfolding s2_def using carry_in r(3) by blast+
  have C2: "uint c2 = uint s2 div ?B" unfolding c2_def by (rule carry_out [OF S2(2)])
  have S3: "uint s3 = uint r3 + uint c2" "uint s3 < 2 ^ 115" unfolding s3_def using carry_in r(4) by blast+
  have C3: "uint c3 = uint s3 div ?B" unfolding c3_def by (rule carry_out [OF S3(2)])
  have r4': "uint r4 < 2 ^ 114" using r(5) by simp
  have S4: "uint s4 = uint r4 + uint c3" "uint s4 < 2 ^ 115" unfolding s4_def using carry_in r4' by blast+
  have C4: "uint c4 = uint s4 div ?B" unfolding c4_def by (rule carry_out [OF S4(2)])
  have c3b: "uint c3 < 2 ^ 64" using uint_bounded [of c3] by simp
  have c4b: "uint c4 < 2 ^ 59 + 2 ^ 14"
    using r(5) c3b unfolding C4 S4(1) by (intro div51_less) simp
  have C19: "uint (19 * c4) = 19 * uint c4"
    using c4b by (subst uint_mul_u64) simp_all
  have a0: "uint (r0 AND m) < ?B" unfolding M by simp
  have S0: "uint s0 = uint r0 mod ?B + 19 * uint c4"
    unfolding s0_def using a0 carry_in(1) [of "r0 AND m" "19 * c4"] C19 M [of r0] by simp
  have s0b: "uint s0 < 2 ^ 64" using c4b unfolding S0 using pos_mod_bound [of ?B "uint r0"] by simp
  have C5: "uint c5 = uint s0 div ?B" unfolding c5_def using s0b by (intro carry_out) simp
  have c5b: "uint c5 < 2 ^ 14" using s0b unfolding C5 by (intro div51_less) simp
  have T1: "uint t1 = uint s1 mod ?B + uint c5"
    unfolding t1_def using carry_in(1) [of "s1 AND m" c5] M [of s1] pos_mod_bound [of ?B "uint s1"] by simp
  have t1b: "uint t1 < ?B + 2 ^ 14" unfolding T1 using c5b pos_mod_bound [of ?B "uint s1"] by simp
  have N: "uint (ucast (x AND m) :: u64) = uint x mod ?B" for x :: u128
    using uint_narrow [of "x AND m"] pos_mod_bound [of ?B "uint x"] by (simp add: M)
  have N1: "uint (ucast t1 :: u64) = uint t1" using t1b by (intro uint_narrow) simp
  have V: "fe_val (fe_fold r0 r1 r2 r3 r4) =
      uint s0 mod ?B + ?B * (uint s1 mod ?B + uint c5) + ?B ^ 2 * (uint s2 mod ?B) + ?B ^ 3 * (uint s3 mod ?B) + ?B ^ 4 * (uint s4 mod ?B)"
    unfolding F fe_val_def by (simp add: N N1 T1)
  also have "\<dots> = uint r0 + ?B * uint r1 + ?B ^ 2 * uint r2 + ?B ^ 3 * uint r3 + ?B ^ 4 * uint r4 - uint c4 * p25519"
  proof (rule fold_int [where ?c0.0 = "uint c0" and ?a0.0 = "uint r0 mod ?B" and ?c1.0 = "uint c1" and ?c2.0 = "uint c2" and ?c3.0 = "uint c3"])
    have dm: "x = ?B * (x div ?B) + x mod ?B" for x :: int by (simp only: mult_div_mod_eq)
    show "uint r0 = ?B * uint c0 + uint r0 mod ?B" unfolding C0 by (rule dm)
    show "uint r1 + uint c0 = ?B * uint c1 + uint s1 mod ?B" unfolding C1 S1(1) [symmetric] by (rule dm)
    show "uint r2 + uint c1 = ?B * uint c2 + uint s2 mod ?B" unfolding C2 S2(1) [symmetric] by (rule dm)
    show "uint r3 + uint c2 = ?B * uint c3 + uint s3 mod ?B" unfolding C3 S3(1) [symmetric] by (rule dm)
    show "uint r4 + uint c3 = ?B * uint c4 + uint s4 mod ?B" unfolding C4 S4(1) [symmetric] by (rule dm)
    show "uint r0 mod ?B + 19 * uint c4 = ?B * uint c5 + uint s0 mod ?B" unfolding C5 S0 [symmetric] by (rule dm)
  qed (simp add: p25519_def)
  finally have "fe_val (fe_fold r0 r1 r2 r3 r4) =
      (uint r0 + 2 ^ 51 * uint r1 + 2 ^ 102 * uint r2 + 2 ^ 153 * uint r3 + 2 ^ 204 * uint r4) - uint c4 * p25519"
    by simp
  moreover have "fe_bound (?B + 2 ^ 14) (fe_fold r0 r1 r2 r3 r4)"
  proof -
    have "uint x mod ?B < ?B + 2 ^ 14" for x :: u128 using pos_mod_bound [of ?B "uint x"] by simp
    then show ?thesis unfolding F fe_bound_def fe.sel N N1 using t1b by blast
  qed
  ultimately show ?thesis by (metis mod_diff_mult_self)
qed

section \<open>Multiplication\<close>

lemma mul_int:
  fixes B P :: int
  assumes "P = B ^ 5 - 19"
  shows "(f0 * g0 + 19 * (f1 * g4 + f2 * g3 + f3 * g2 + f4 * g1))
     + B * (f0 * g1 + f1 * g0 + 19 * (f2 * g4 + f3 * g3 + f4 * g2))
     + B ^ 2 * (f0 * g2 + f1 * g1 + f2 * g0 + 19 * (f3 * g4 + f4 * g3))
     + B ^ 3 * (f0 * g3 + f1 * g2 + f2 * g1 + f3 * g0 + 19 * (f4 * g4))
     + B ^ 4 * (f0 * g4 + f1 * g3 + f2 * g2 + f3 * g1 + f4 * g0)
   = (f0 + B * f1 + B ^ 2 * f2 + B ^ 3 * f3 + B ^ 4 * f4) * (g0 + B * g1 + B ^ 2 * g2 + B ^ 3 * g3 + B ^ 4 * g4)
     - ((f1 * g4 + f2 * g3 + f3 * g2 + f4 * g1) + B * (f2 * g4 + f3 * g3 + f4 * g2)
        + B ^ 2 * (f3 * g4 + f4 * g3) + B ^ 3 * (f4 * g4)) * P"
  unfolding assms by (simp add: algebra_simps eval_nat_numeral)

lemma limb_prod: "0 \<le> a \<Longrightarrow> a < 2 ^ 53 \<Longrightarrow> 0 \<le> b \<Longrightarrow> b < 2 ^ 53 \<Longrightarrow> 0 \<le> a * b \<and> a * b < (2 ^ 106 :: int)"
  using mult_strict_mono' [of a "2 ^ 53" b "2 ^ 53"] by simp

text \<open>The five sums of products do not wrap.\<close>

lemma dot128_0:
  fixes x0 x1 x2 x3 x4 :: u128
  assumes "uint x0 < 2 ^ 106" "uint x1 < 2 ^ 106" "uint x2 < 2 ^ 106" "uint x3 < 2 ^ 106" "uint x4 < 2 ^ 106"
  shows "uint (x0 + 19 * (x1 + x2 + x3 + x4)) = uint x0 + 19 * (uint x1 + uint x2 + uint x3 + uint x4)"
    and "uint (x0 + 19 * (x1 + x2 + x3 + x4)) < 2 ^ 114"
proof -
  show e: "uint (x0 + 19 * (x1 + x2 + x3 + x4)) = uint x0 + 19 * (uint x1 + uint x2 + uint x3 + uint x4)"
    using assms by (simp add: uint_add_u128 uint_mul_u128)
  show "uint (x0 + 19 * (x1 + x2 + x3 + x4)) < 2 ^ 114" using assms unfolding e by simp
qed

lemma dot128_1:
  fixes x0 x1 x2 x3 x4 :: u128
  assumes "uint x0 < 2 ^ 106" "uint x1 < 2 ^ 106" "uint x2 < 2 ^ 106" "uint x3 < 2 ^ 106" "uint x4 < 2 ^ 106"
  shows "uint (x0 + x1 + 19 * (x2 + x3 + x4)) = uint x0 + uint x1 + 19 * (uint x2 + uint x3 + uint x4)"
    and "uint (x0 + x1 + 19 * (x2 + x3 + x4)) < 2 ^ 114"
proof -
  show e: "uint (x0 + x1 + 19 * (x2 + x3 + x4)) = uint x0 + uint x1 + 19 * (uint x2 + uint x3 + uint x4)"
    using assms by (simp add: uint_add_u128 uint_mul_u128)
  show "uint (x0 + x1 + 19 * (x2 + x3 + x4)) < 2 ^ 114" using assms unfolding e by simp
qed

lemma dot128_2:
  fixes x0 x1 x2 x3 x4 :: u128
  assumes "uint x0 < 2 ^ 106" "uint x1 < 2 ^ 106" "uint x2 < 2 ^ 106" "uint x3 < 2 ^ 106" "uint x4 < 2 ^ 106"
  shows "uint (x0 + x1 + x2 + 19 * (x3 + x4)) = uint x0 + uint x1 + uint x2 + 19 * (uint x3 + uint x4)"
    and "uint (x0 + x1 + x2 + 19 * (x3 + x4)) < 2 ^ 114"
proof -
  show e: "uint (x0 + x1 + x2 + 19 * (x3 + x4)) = uint x0 + uint x1 + uint x2 + 19 * (uint x3 + uint x4)"
    using assms by (simp add: uint_add_u128 uint_mul_u128)
  show "uint (x0 + x1 + x2 + 19 * (x3 + x4)) < 2 ^ 114" using assms unfolding e by simp
qed

lemma dot128_3:
  fixes x0 x1 x2 x3 x4 :: u128
  assumes "uint x0 < 2 ^ 106" "uint x1 < 2 ^ 106" "uint x2 < 2 ^ 106" "uint x3 < 2 ^ 106" "uint x4 < 2 ^ 106"
  shows "uint (x0 + x1 + x2 + x3 + 19 * (x4)) = uint x0 + uint x1 + uint x2 + uint x3 + 19 * (uint x4)"
    and "uint (x0 + x1 + x2 + x3 + 19 * (x4)) < 2 ^ 114"
proof -
  show e: "uint (x0 + x1 + x2 + x3 + 19 * (x4)) = uint x0 + uint x1 + uint x2 + uint x3 + 19 * (uint x4)"
    using assms by (simp add: uint_add_u128 uint_mul_u128)
  show "uint (x0 + x1 + x2 + x3 + 19 * (x4)) < 2 ^ 114" using assms unfolding e by simp
qed

lemma dot128_4:
  fixes x0 x1 x2 x3 x4 :: u128
  assumes "uint x0 < 2 ^ 106" "uint x1 < 2 ^ 106" "uint x2 < 2 ^ 106" "uint x3 < 2 ^ 106" "uint x4 < 2 ^ 106"
  shows "uint (x0 + x1 + x2 + x3 + x4) = uint x0 + uint x1 + uint x2 + uint x3 + uint x4"
    and "uint (x0 + x1 + x2 + x3 + x4) < 2 ^ 110"
proof -
  show e: "uint (x0 + x1 + x2 + x3 + x4) = uint x0 + uint x1 + uint x2 + uint x3 + uint x4"
    using assms by (simp add: uint_add_u128 uint_mul_u128)
  show "uint (x0 + x1 + x2 + x3 + x4) < 2 ^ 110" using assms unfolding e by simp
qed

lemma fe_mul_spec:
  assumes "fe_bound (2 ^ 53) f" "fe_bound (2 ^ 53) g"
  shows "fe_val (fe_mul f g) mod p25519 = (fe_val f * fe_val g) mod p25519 \<and> fe_bound (2 ^ 51 + 2 ^ 14) (fe_mul f g)"
proof -
  obtain a0 a1 a2 a3 a4 where f: "f = Fe a0 a1 a2 a3 a4" by (cases f)
  obtain b0 b1 b2 b3 b4 where g: "g = Fe b0 b1 b2 b3 b4" by (cases g)
  have L: "uint (ucast x * ucast y :: u128) = uint x * uint y" "uint (ucast x * ucast y :: u128) < 2 ^ 106"
    if "x \<in> {a0, a1, a2, a3, a4}" "y \<in> {b0, b1, b2, b3, b4}" for x y :: u64
  proof -
    have "0 \<le> uint x * uint y \<and> uint x * uint y < 2 ^ 106"
      using that assms unfolding f g fe_bound_def by (intro limb_prod) auto
    moreover from this show "uint (ucast x * ucast y :: u128) = uint x * uint y" by (subst uint_mul_u128) simp_all
    ultimately show "uint (ucast x * ucast y :: u128) < 2 ^ 106" by simp
  qed
  let ?u = "\<lambda>x. (ucast (x :: u64) :: u128)"
  let ?r0 = "?u a0 * ?u b0 + 19 * (?u a1 * ?u b4 + ?u a2 * ?u b3 + ?u a3 * ?u b2 + ?u a4 * ?u b1)"
  let ?r1 = "?u a0 * ?u b1 + ?u a1 * ?u b0 + 19 * (?u a2 * ?u b4 + ?u a3 * ?u b3 + ?u a4 * ?u b2)"
  let ?r2 = "?u a0 * ?u b2 + ?u a1 * ?u b1 + ?u a2 * ?u b0 + 19 * (?u a3 * ?u b4 + ?u a4 * ?u b3)"
  let ?r3 = "?u a0 * ?u b3 + ?u a1 * ?u b2 + ?u a2 * ?u b1 + ?u a3 * ?u b0 + 19 * (?u a4 * ?u b4)"
  let ?r4 = "?u a0 * ?u b4 + ?u a1 * ?u b3 + ?u a2 * ?u b2 + ?u a3 * ?u b1 + ?u a4 * ?u b0"
  have R0: "uint ?r0 = uint a0 * uint b0 + 19 * (uint a1 * uint b4 + uint a2 * uint b3 + uint a3 * uint b2 + uint a4 * uint b1)" and b0: "uint ?r0 < 2 ^ 114"
    using dot128_0 [of "?u a0 * ?u b0" "?u a1 * ?u b4" "?u a2 * ?u b3" "?u a3 * ?u b2" "?u a4 * ?u b1"]
      L(2) [of a0 b0] L(2) [of a1 b4] L(2) [of a2 b3] L(2) [of a3 b2] L(2) [of a4 b1] by (simp_all add: L(1))
  have R1: "uint ?r1 = uint a0 * uint b1 + uint a1 * uint b0 + 19 * (uint a2 * uint b4 + uint a3 * uint b3 + uint a4 * uint b2)" and b1: "uint ?r1 < 2 ^ 114"
    using dot128_1 [of "?u a0 * ?u b1" "?u a1 * ?u b0" "?u a2 * ?u b4" "?u a3 * ?u b3" "?u a4 * ?u b2"]
      L(2) [of a0 b1] L(2) [of a1 b0] L(2) [of a2 b4] L(2) [of a3 b3] L(2) [of a4 b2] by (simp_all add: L(1))
  have R2: "uint ?r2 = uint a0 * uint b2 + uint a1 * uint b1 + uint a2 * uint b0 + 19 * (uint a3 * uint b4 + uint a4 * uint b3)" and b2: "uint ?r2 < 2 ^ 114"
    using dot128_2 [of "?u a0 * ?u b2" "?u a1 * ?u b1" "?u a2 * ?u b0" "?u a3 * ?u b4" "?u a4 * ?u b3"]
      L(2) [of a0 b2] L(2) [of a1 b1] L(2) [of a2 b0] L(2) [of a3 b4] L(2) [of a4 b3] by (simp_all add: L(1))
  have R3: "uint ?r3 = uint a0 * uint b3 + uint a1 * uint b2 + uint a2 * uint b1 + uint a3 * uint b0 + 19 * (uint a4 * uint b4)" and b3: "uint ?r3 < 2 ^ 114"
    using dot128_3 [of "?u a0 * ?u b3" "?u a1 * ?u b2" "?u a2 * ?u b1" "?u a3 * ?u b0" "?u a4 * ?u b4"]
      L(2) [of a0 b3] L(2) [of a1 b2] L(2) [of a2 b1] L(2) [of a3 b0] L(2) [of a4 b4] by (simp_all add: L(1))
  have R4: "uint ?r4 = uint a0 * uint b4 + uint a1 * uint b3 + uint a2 * uint b2 + uint a3 * uint b1 + uint a4 * uint b0" and b4: "uint ?r4 < 2 ^ 110"
    using dot128_4 [of "?u a0 * ?u b4" "?u a1 * ?u b3" "?u a2 * ?u b2" "?u a3 * ?u b1" "?u a4 * ?u b0"]
      L(2) [of a0 b4] L(2) [of a1 b3] L(2) [of a2 b2] L(2) [of a3 b1] L(2) [of a4 b0] by (simp_all add: L(1))
  note b = b0 b1 b2 b3 b4
  have m: "fe_mul f g = fe_fold ?r0 ?r1 ?r2 ?r3 ?r4" by (simp add: f g Let_def)
  have "fe_val f * fe_val g - (uint ?r0 + 2 ^ 51 * uint ?r1 + 2 ^ 102 * uint ?r2 + 2 ^ 153 * uint ?r3 + 2 ^ 204 * uint ?r4)
    = ((uint a1 * uint b4 + uint a2 * uint b3 + uint a3 * uint b2 + uint a4 * uint b1) + 2 ^ 51 * (uint a2 * uint b4 + uint a3 * uint b3 + uint a4 * uint b2)
        + (2 ^ 51) ^ 2 * (uint a3 * uint b4 + uint a4 * uint b3) + (2 ^ 51) ^ 3 * (uint a4 * uint b4)) * p25519"
    (is "_ = ?Q * _")
    using mul_int [of p25519 "2 ^ 51" "uint a0" "uint b0" "uint a1" "uint b4" "uint a2" "uint b3" "uint a3" "uint b2" "uint a4" "uint b1"]
    unfolding R0 R1 R2 R3 R4 f g fe_val_def fe.sel by (simp add: p25519_def)
  then have "uint ?r0 + 2 ^ 51 * uint ?r1 + 2 ^ 102 * uint ?r2 + 2 ^ 153 * uint ?r3 + 2 ^ 204 * uint ?r4
    = fe_val f * fe_val g - ?Q * p25519" by (simp only: algebra_simps)
  then show ?thesis unfolding m using fe_fold_spec [OF b] by (simp only: mod_diff_mult_self simp_thms)
qed

section \<open>Field elements as residues\<close>

definition fe_reps :: "int \<Rightarrow> fe \<Rightarrow> int \<Rightarrow> bool" where
  "fe_reps k f v \<longleftrightarrow> fe_bound k f \<and> fe_val f mod p25519 = v mod p25519"

text \<open>Reduced elements are results of products; loose ones are sums and differences of two reduced ones
  and may be multiplied.\<close>

abbreviation reduced :: "fe \<Rightarrow> int \<Rightarrow> bool" where "reduced \<equiv> fe_reps (2 ^ 51 + 2 ^ 14)"
abbreviation loose :: "fe \<Rightarrow> int \<Rightarrow> bool" where "loose \<equiv> fe_reps (2 ^ 53)"

lemma reduced_loose: "reduced f v \<Longrightarrow> loose f v"
  by (auto simp: fe_reps_def fe_bound_def)

lemma reps_cong: "v mod p25519 = w mod p25519 \<Longrightarrow> fe_reps k f v = fe_reps k f w"
  by (simp add: fe_reps_def)

lemma mul_reduced: "loose f v \<Longrightarrow> loose g w \<Longrightarrow> reduced (fe_mul f g) (v * w)"
  using fe_mul_spec [of f g] mod_mult_cong [of "fe_val f" p25519 v "fe_val g" w] by (simp add: fe_reps_def)

lemma add_loose:
  assumes "reduced f v" "reduced g w"
  shows "loose (fe_add f g) (v + w)"
proof -
  obtain a0 a1 a2 a3 a4 where f: "f = Fe a0 a1 a2 a3 a4" by (cases f)
  obtain b0 b1 b2 b3 b4 where g: "g = Fe b0 b1 b2 b3 b4" by (cases g)
  note b = assms [unfolded fe_reps_def fe_bound_def f g fe.sel]
  have s: "uint (x + y) = uint x + uint y" if "uint x < 2 ^ 51 + 2 ^ 14" "uint y < 2 ^ 51 + 2 ^ 14" for x y :: u64
    using that by (subst uint_add_u64) simp_all
  have "fe_val (fe_add f g) = fe_val f + fe_val g" using b by (simp add: f g fe_val_def s)
  moreover have "fe_bound (2 ^ 53) (fe_add f g)" using b by (simp add: f g fe_bound_def s)
  moreover have "(fe_val f + fe_val g) mod p25519 = (v + w) mod p25519"
    using assms by (intro mod_add_cong) (simp_all add: fe_reps_def)
  ultimately show ?thesis by (simp add: fe_reps_def)
qed

lemma sub_loose:
  assumes "reduced f v" "reduced g w"
  shows "loose (fe_sub f g) (v - w)"
proof -
  obtain a0 a1 a2 a3 a4 where f: "f = Fe a0 a1 a2 a3 a4" by (cases f)
  obtain b0 b1 b2 b3 b4 where g: "g = Fe b0 b1 b2 b3 b4" by (cases g)
  note b = assms [unfolded fe_reps_def fe_bound_def f g fe.sel]
  have s: "uint (x + c - y) = uint x + uint c - uint y"
    if "uint x < 2 ^ 51 + 2 ^ 14" "uint y < 2 ^ 51 + 2 ^ 14" "2 ^ 51 + 2 ^ 14 \<le> uint c" "uint c < 2 ^ 52" for x y c :: u64
  proof -
    have a: "uint (x + c) = uint x + uint c" using that by (subst uint_add_u64) simp_all
    moreover have "0 \<le> uint x" by simp
    with that have "uint y \<le> uint x + uint c" by linarith
    ultimately show ?thesis by (subst uint_sub_if') simp
  qed
  have l0: "uint (a0 + 0xFFFFFFFFFFFDA - b0) = uint a0 + 0xFFFFFFFFFFFDA - uint b0" using b by (subst s) simp_all
  have l: "uint (x + 0xFFFFFFFFFFFFE - y) = uint x + 0xFFFFFFFFFFFFE - uint y"
    if "uint x < 2 ^ 51 + 2 ^ 14" "uint y < 2 ^ 51 + 2 ^ 14" for x y :: u64 using that by (subst s) simp_all
  have "fe_val (fe_sub f g) = fe_val f - fe_val g + 2 * p25519"
    using b by (simp add: f g fe_val_def l0 l p25519_def)
  then have "fe_val (fe_sub f g) mod p25519 = (fe_val f - fe_val g) mod p25519" by simp
  also have "\<dots> = (v - w) mod p25519" using assms by (intro mod_diff_cong) (simp_all add: fe_reps_def)
  finally have v: "fe_val (fe_sub f g) mod p25519 = (v - w) mod p25519" .
  have "uint x + c - uint y < 2 ^ 53" if "uint x < 2 ^ 51 + 2 ^ 14" "c < 2 ^ 52" for x y :: u64 and c
  proof -
    have "uint x + c - uint y \<le> uint x + c" by simp
    also have "\<dots> < (2 ^ 51 + 2 ^ 14) + 2 ^ 52" by (rule add_strict_mono [OF that])
    finally show ?thesis by simp
  qed
  then have "fe_bound (2 ^ 53) (fe_sub f g)" using b by (simp only: f g fe_bound_def fe_sub.simps fe.sel l0 l) simp
  with v show ?thesis by (simp add: fe_reps_def)
qed

lemma scalar_reduced:
  assumes "loose f v" "uint s < 2 ^ 20"
  shows "reduced (fe_mul_scalar f s) (v * uint s)"
proof -
  obtain a0 a1 a2 a3 a4 where f: "f = Fe a0 a1 a2 a3 a4" by (cases f)
  note b = assms(1) [unfolded fe_reps_def fe_bound_def f fe.sel]
  have p: "uint (ucast x * ucast s :: u128) = uint x * uint s \<and> uint x * uint s < 2 ^ 110" if "uint x < 2 ^ 53" for x :: u64
  proof -
    have "uint x * uint s \<le> 2 ^ 53 * 2 ^ 20" using that assms(2) by (intro mult_mono) simp_all
    then have "uint x * uint s < 2 ^ 110" by simp
    then show ?thesis by (subst uint_mul_u128) simp_all
  qed
  have m: "fe_mul_scalar f s = fe_fold (ucast a0 * ucast s) (ucast a1 * ucast s) (ucast a2 * ucast s) (ucast a3 * ucast s) (ucast a4 * ucast s)"
    by (simp add: f)
  have "fe_val f * uint s = uint a0 * uint s + 2 ^ 51 * (uint a1 * uint s) + 2 ^ 102 * (uint a2 * uint s) + 2 ^ 153 * (uint a3 * uint s) + 2 ^ 204 * (uint a4 * uint s)"
    by (simp add: f fe_val_def algebra_simps)
  moreover have "reduced (fe_mul_scalar f s) (uint a0 * uint s + 2 ^ 51 * (uint a1 * uint s) + 2 ^ 102 * (uint a2 * uint s)
      + 2 ^ 153 * (uint a3 * uint s) + 2 ^ 204 * (uint a4 * uint s))"
    unfolding m fe_reps_def
    using fe_fold_spec [of "ucast a0 * ucast s" "ucast a1 * ucast s" "ucast a2 * ucast s" "ucast a3 * ucast s" "ucast a4 * ucast s"]
      p [of a0] p [of a1] p [of a2] p [of a3] p [of a4] b by simp
  moreover have "fe_val f * uint s mod p25519 = v * uint s mod p25519" using assms(1) by (intro mod_mult_cong) (simp_all add: fe_reps_def)
  ultimately show ?thesis using reps_cong by metis
qed

section \<open>Inversion\<close>

lemma mul_pow: "reduced f (v ^ i) \<Longrightarrow> reduced g (v ^ j) \<Longrightarrow> reduced (fe_mul f g) (v ^ (i + j))"
  unfolding power_add by (intro mul_reduced reduced_loose)

lemma sq_n_pow: "reduced f (v ^ i) \<Longrightarrow> reduced (fe_sq_n f n) (v ^ (i * 2 ^ n))"
proof (induction n)
  case (Suc n)
  then have "reduced (fe_mul (fe_sq_n f n) (fe_sq_n f n)) (v ^ (i * 2 ^ n + i * 2 ^ n))" by (intro mul_pow)
  moreover have "i * 2 ^ n + i * 2 ^ n = i * 2 ^ Suc n" by simp
  ultimately show ?case by (simp only: fe_sq_n_def funpow.simps comp_apply fe_sq_def)
qed (simp add: fe_sq_n_def)

lemma inv_pow:
  assumes "reduced z v"
  shows "reduced (fe_inv z) (v ^ (2 ^ 255 - 21))"
proof -
  have z: "reduced z (v ^ 1)" using assms by simp
  define z2 where "z2 = fe_sq z"
  define z8 where "z8 = fe_sq_n z2 2"
  define z9 where "z9 = fe_mul z z8"
  define z11 where "z11 = fe_mul z2 z9"
  define z5 where "z5 = fe_mul z9 (fe_sq z11)"
  define z10 where "z10 = fe_mul (fe_sq_n z5 5) z5"
  define z20 where "z20 = fe_mul (fe_sq_n z10 10) z10"
  define z40 where "z40 = fe_mul (fe_sq_n z20 20) z20"
  define z50 where "z50 = fe_mul (fe_sq_n z40 10) z10"
  define z100 where "z100 = fe_mul (fe_sq_n z50 50) z50"
  define z200 where "z200 = fe_mul (fe_sq_n z100 100) z100"
  define z250 where "z250 = fe_mul (fe_sq_n z200 50) z50"
  have h2: "reduced z2 (v ^ 2)" using mul_pow [OF z z] by (simp add: z2_def fe_sq_def numeral_2_eq_2)
  have h8: "reduced z8 (v ^ 8)" using sq_n_pow [OF h2, of 2] by (simp add: z8_def)
  have h9: "reduced z9 (v ^ 9)" using mul_pow [OF z h8] by (simp add: z9_def)
  have h11: "reduced z11 (v ^ 11)" using mul_pow [OF h2 h9] by (simp add: z11_def)
  have h5: "reduced z5 (v ^ (2 ^ 5 - 1))" using mul_pow [OF h9 mul_pow [OF h11 h11]] by (simp add: z5_def fe_sq_def)
  have step: "reduced (fe_mul (fe_sq_n f n) g) (v ^ (2 ^ (k + n) - 1))"
    if "reduced f (v ^ (2 ^ k - 1))" "reduced g (v ^ (2 ^ n - 1))" for f g k n
  proof -
    have "1 \<le> (2 :: nat) ^ k" "1 \<le> (2 :: nat) ^ n" by simp_all
    then have "(2 ^ k - 1) * 2 ^ n + (2 ^ n - 1) = (2 :: nat) ^ (k + n) - 1" by (simp add: power_add diff_mult_distrib)
    then show ?thesis using mul_pow [OF sq_n_pow [OF that(1), of n] that(2)] by metis
  qed
  have h10: "reduced z10 (v ^ (2 ^ 10 - 1))" using step [OF h5 h5] by (simp add: z10_def)
  have h20: "reduced z20 (v ^ (2 ^ 20 - 1))" using step [OF h10 h10] by (simp add: z20_def)
  have h40: "reduced z40 (v ^ (2 ^ 40 - 1))" using step [OF h20 h20] by (simp add: z40_def)
  have h50: "reduced z50 (v ^ (2 ^ 50 - 1))" using step [OF h40 h10] by (simp add: z50_def)
  have h100: "reduced z100 (v ^ (2 ^ 100 - 1))" using step [OF h50 h50] by (simp add: z100_def)
  have h200: "reduced z200 (v ^ (2 ^ 200 - 1))" using step [OF h100 h100] by (simp add: z200_def)
  have h250: "reduced z250 (v ^ (2 ^ 250 - 1))" using step [OF h200 h50] by (simp add: z250_def)
  have e: "(2 ^ 250 - 1) * 2 ^ 5 + 11 = (2 ^ 255 - 21 :: nat)" by simp
  have "fe_inv z = fe_mul (fe_sq_n z250 5) z11"
    by (simp add: fe_inv_def Let_def z2_def z8_def z9_def z11_def z5_def z10_def z20_def z40_def z50_def z100_def z200_def z250_def)
  then show ?thesis using mul_pow [OF sq_n_pow [OF h250, of 5] h11] unfolding e by simp
qed

section \<open>The ladder\<close>

text \<open>One step of the ladder over the integers, in the variables of the code, and the ladder itself: for
  each key bit the roles of the two points are exchanged before and after the step.\<close>

type_synonym points = "int \<times> int \<times> int \<times> int"

definition int_core :: "int \<Rightarrow> points \<Rightarrow> points" where
  "int_core x1 s = (case s of (x2, z2, x3, z3) \<Rightarrow>
     let a = x2 + z2; aa = a * a; b = x2 - z2; bb = b * b; e2 = aa - bb;
         c = x3 + z3; d = x3 - z3; da = d * a; cb = c * b
     in (aa * bb, e2 * (aa + e2 * 121665), (da + cb) * (da + cb), x1 * ((da - cb) * (da - cb))))"

definition crossed :: "bool \<Rightarrow> 'a \<times> 'a \<times> 'a \<times> 'a \<Rightarrow> 'a \<times> 'a \<times> 'a \<times> 'a" where
  "crossed b s = (case s of (x2, z2, x3, z3) \<Rightarrow> if b then (x3, z3, x2, z2) else (x2, z2, x3, z3))"

fun mont_ladder :: "int \<Rightarrow> bool list \<Rightarrow> points \<Rightarrow> points" where
  "mont_ladder x1 [] s = s"
| "mont_ladder x1 (b # bs) s = mont_ladder x1 bs (crossed b (int_core x1 (crossed b s)))"

fun points_rep :: "fe \<times> fe \<times> fe \<times> fe \<Rightarrow> points \<Rightarrow> bool" where
  "points_rep (x2, z2, x3, z3) (a, b, c, d) \<longleftrightarrow> reduced x2 a \<and> reduced z2 b \<and> reduced x3 c \<and> reduced z3 d"

lemma crossed_rep: "points_rep f s \<Longrightarrow> points_rep (crossed b f) (crossed b s)"
  by (cases f; cases s) (simp add: crossed_def)

lemma crossed_twice: "crossed a (crossed b s) = crossed (a \<noteq> b) s"
  by (cases s) (auto simp: crossed_def)

lemma core_rep:
  assumes "reduced x1 u" "points_rep f s"
  shows "points_rep (ladder_core x1 f) (int_core u s)"
proof -
  obtain x2 z2 x3 z3 where f: "f = (x2, z2, x3, z3)" by (cases f)
  obtain a b c d where s: "s = (a, b, c, d)" by (cases s)
  have r: "reduced x2 a" "reduced z2 b" "reduced x3 c" "reduced z3 d" using assms(2) by (simp_all add: f s)
  let ?a = "a + b" and ?b = "a - b" and ?c = "c + d" and ?d = "c - d"
  note A = add_loose [OF r(1,2)] and B = sub_loose [OF r(1,2)] and C = add_loose [OF r(3,4)] and D = sub_loose [OF r(3,4)]
  note AA = mul_reduced [OF A A] and BB = mul_reduced [OF B B]
  note E2 = sub_loose [OF AA BB] and DA = mul_reduced [OF D A] and CB = mul_reduced [OF C B]
  have S: "reduced (fe_mul_scalar (fe_sub (fe_mul (fe_add x2 z2) (fe_add x2 z2)) (fe_mul (fe_sub x2 z2) (fe_sub x2 z2))) 121665)
     ((?a * ?a - ?b * ?b) * 121665)" using scalar_reduced [OF E2, of 121665] by simp
  show ?thesis unfolding f s ladder_core_def int_core_def Let_def prod.case fe_sq_def points_rep.simps
    by (intro conjI mul_reduced [OF reduced_loose [OF AA] reduced_loose [OF BB]] mul_reduced [OF E2 add_loose [OF AA S]]
        mul_reduced [OF add_loose [OF DA CB] add_loose [OF DA CB]]
        mul_reduced [OF reduced_loose [OF assms(1)] reduced_loose [OF mul_reduced [OF sub_loose [OF DA CB] sub_loose [OF DA CB]]]])
qed

text \<open>The constant-time swap.\<close>

lemma cswap_eq: "fe_cswap f g (of_bool b) = (if b then (g, f) else (f, g))"
proof -
  have "cswap_limb (0 - of_bool b) x y = (if b then (y, x) else (x, y))" for x y :: u64
    by (simp add: cswap_limb_def Let_def flip: xor.assoc) (simp add: xor.commute [of x y] xor.assoc)
  then show ?thesis by (cases f; cases g) (simp add: fe_cswap_def Let_def)
qed

lemma key_bit_bool: "key_bit e t = of_bool (key_bit e t = 1)"
proof -
  have "key_bit e t = of_bool (odd (drop_bit (t mod 8) (e ! (t div 8))))"
    by (simp add: key_bit_def and_one_eq mod_2_eq_odd)
  then show ?thesis by auto
qed

text \<open>The code defers the second exchange of a step to the next one: its variables are the points
  exchanged when the pending swap bit is set.\<close>

fun ladder_rep :: "ladder_state \<Rightarrow> points \<Rightarrow> bool" where
  "ladder_rep (x2, z2, x3, z3, swap) s \<longleftrightarrow> (\<exists>b. swap = of_bool b \<and> points_rep (crossed b (x2, z2, x3, z3)) s)"

lemma swap_pairs:
  "(case fe_cswap x2 x3 (of_bool b) of (x2, x3) \<Rightarrow> case fe_cswap z2 z3 (of_bool b) of (z2, z3) \<Rightarrow> f x2 z2 x3 z3)
   = (case crossed b (x2, z2, x3, z3) of (x2, z2, x3, z3) \<Rightarrow> f x2 z2 x3 z3)"
  by (simp add: cswap_eq crossed_def)

lemma step_rep:
  assumes "reduced x1 u" "ladder_rep l s"
  shows "ladder_rep (ladder_step x1 e t l) (crossed (key_bit e t = 1) (int_core u (crossed (key_bit e t = 1) s)))"
proof -
  obtain x2 z2 x3 z3 swap where l: "l = (x2, z2, x3, z3, swap)" by (cases l)
  then obtain b where b: "swap = of_bool b" "points_rep (crossed b (x2, z2, x3, z3)) s" using assms(2) by auto
  define kb where "kb = (key_bit e t = 1)"
  have k: "key_bit e t = of_bool kb" unfolding kb_def by (rule key_bit_bool)
  have x: "(of_bool b XOR of_bool kb :: u64) = of_bool (b \<noteq> kb)" by simp
  let ?f = "crossed (b \<noteq> kb) (x2, z2, x3, z3)"
  have "?f = crossed kb (crossed b (x2, z2, x3, z3))" by (cases b; cases kb) (simp_all add: crossed_def)
  then have "points_rep (ladder_core x1 ?f) (int_core u (crossed kb s))"
    using core_rep [OF assms(1)] crossed_rep [OF b(2)] by simp
  moreover obtain y2 w2 y3 w3 where y: "ladder_core x1 ?f = (y2, w2, y3, w3)" by (cases "ladder_core x1 ?f")
  moreover have "ladder_step x1 e t l = (y2, w2, y3, w3, of_bool kb)"
  proof -
    have "ladder_step x1 e t l = (case ?f of (x2, z2, x3, z3) \<Rightarrow>
        case ladder_core x1 (x2, z2, x3, z3) of (x2, z2, x3, z3) \<Rightarrow> (x2, z2, x3, z3, of_bool kb))"
      unfolding l ladder_step_def prod.case Let_def b(1) k x swap_pairs ..
    also obtain g2 h2 g3 h3 where "?f = (g2, h2, g3, h3)" by (metis prod_cases4)
    then have "(case ?f of (x2, z2, x3, z3) \<Rightarrow> case ladder_core x1 (x2, z2, x3, z3) of (x2, z2, x3, z3) \<Rightarrow> (x2, z2, x3, z3, of_bool kb))
        = (y2, w2, y3, w3, of_bool kb :: u64)" using y by (simp only: prod.case)
    finally show ?thesis .
  qed
  ultimately have "ladder_rep (ladder_step x1 e t l) (crossed kb (int_core u (crossed kb s)))"
    unfolding ladder_rep.simps using crossed_rep [of "(y2, w2, y3, w3)" "int_core u (crossed kb s)" kb]
    by (simp only: ladder_rep.simps) blast
  then show ?thesis unfolding kb_def .
qed

lemma ladder_run_rep:
  "reduced x1 u \<Longrightarrow> ladder_rep l s \<Longrightarrow>
   ladder_rep (fold (ladder_step x1 e) ts l) (mont_ladder u (map (\<lambda>t. key_bit e t = 1) ts) s)"
  by (induction ts arbitrary: l s) (simp_all add: step_rep)

lemma frombytes_reduced: "reduced (fe_frombytes s) (fe_val (fe_frombytes s))"
proof -
  have "uint (x AND kMask51) < 2 ^ 51 + 2 ^ 14" for x :: u64
  proof -
    have "uint (x AND kMask51) < 2 ^ 51" unfolding uint_mask51 by (rule pos_mod_bound) simp
    then show ?thesis by simp
  qed
  then show ?thesis by (simp add: fe_reps_def fe_bound_def fe_frombytes_def)
qed

text \<open>C12. X25519 computes the Montgomery ladder of the curve: for every private key and peer key the
  field element it encodes is, modulo 2^255 - 19, the quotient X * Z^(p-2) of the two coordinates that the
  ladder over the integers reaches from the 255 bits of the clamped key, highest first. The limb products,
  the carries, the lazy reductions and the deferred constant-time swaps of the code are all accounted for,
  and no word operation loses information.\<close>

theorem x25519_ladder:
  "fe_val (x25519_field private_key peer_public_key) mod p25519
   = (case mont_ladder (fe_val (fe_frombytes peer_public_key))
             (map (\<lambda>t. key_bit (clamp private_key) t = 1) (rev [0..<255])) (1, 0, fe_val (fe_frombytes peer_public_key), 1) of
        (X, Z, _, _) \<Rightarrow> X * Z ^ (2 ^ 255 - 21)) mod p25519"
proof -
  define x1 where "x1 = fe_frombytes peer_public_key"
  define e where "e = clamp private_key"
  have r: "reduced x1 (fe_val x1)" unfolding x1_def by (rule frombytes_reduced)
  have one: "reduced (Fe 1 0 0 0 0) 1" "reduced (Fe 0 0 0 0 0) 0" by (simp_all add: fe_reps_def fe_bound_def fe_val_def)
  have "ladder_rep (Fe 1 0 0 0 0, Fe 0 0 0 0 0, x1, Fe 1 0 0 0 0, 0) (1, 0, fe_val x1, 1)"
    using r one by (auto simp: crossed_def intro: exI [of _ False])
  note R = ladder_run_rep [OF r this, of e "rev [0..<255]"]
  obtain X Z X' Z' where m: "mont_ladder (fe_val x1) (map (\<lambda>t. key_bit e t = 1) (rev [0..<255])) (1, 0, fe_val x1, 1) = (X, Z, X', Z')"
    by (metis prod_cases4)
  obtain x2 z2 x3 z3 swap where f: "fold (ladder_step x1 e) (rev [0..<255]) (Fe 1 0 0 0 0, Fe 0 0 0 0 0, x1, Fe 1 0 0 0 0, 0) = (x2, z2, x3, z3, swap)"
    by (metis prod_cases5)
  from R [unfolded m f] obtain b where b: "swap = of_bool b" "points_rep (crossed b (x2, z2, x3, z3)) (X, Z, X', Z')" by auto
  obtain y2 w2 y3 w3 where y: "crossed b (x2, z2, x3, z3) = (y2, w2, y3, w3)" by (metis prod_cases4)
  have "x25519_field private_key peer_public_key = fe_mul y2 (fe_inv w2)"
    unfolding x25519_field_def Let_def x1_def [symmetric] e_def [symmetric] f prod.case b(1) swap_pairs y by simp
  moreover have "reduced (fe_mul y2 (fe_inv w2)) (X * Z ^ (2 ^ 255 - 21))"
    using b(2) y by (intro mul_reduced reduced_loose inv_pow) simp_all
  ultimately show ?thesis by (simp only: m x1_def [symmetric] e_def [symmetric] prod.case fe_reps_def)
qed

end
