(* ===== verification/Transport.thy ===== *)
theory Transport
  imports Command Report Bandwidth Queue Sha256 Aes X25519 "HOL-Library.Char_ord" "HOL-Library.List_Lexorder"
begin

text \<open>
  The transport engine, \<open>TightTransport::Impl\<close> of \<open>tight/src/transport.cpp\<close>: its state, the handlers of
  every packet type, the periodic duties of the reactor, the send path with encryption, and the paced
  sender.
  A \<open>Peer*\<close> is the key of the peer's entry in \<open>m_peers\<close>; handlers that get one receive the key, the peer
  and the engine and return them. What leaves the engine (datagrams passed to \<open>sendto\<close>, callbacks) is
  returned as a list of effects, in order. \<open>env\<close> holds what the operation reads from outside: the steady
  and the system clock and a random number. The queues are the client view of theory Queue, which its
  linked implementation refines.
\<close>

section \<open>Configuration and state\<close>

record tight_config =
  cfg_id :: string
  cfg_token :: string
  cfg_role :: link_role
  cfg_mtu :: nat
  cfg_heartbeat :: duration
  cfg_report_interval :: duration
  cfg_flush_interval :: duration
  cfg_dead_timeout :: duration
  cfg_retransmit_timeout :: duration
  cfg_initial_bandwidth :: nat
  cfg_queue_limit :: nat
  cfg_max_message_bytes :: nat
  cfg_drop_log :: bool
  cfg_retransmit_enabled :: bool
  cfg_late_rtt_multiplier :: real
  cfg_speed_test_enabled :: bool
  cfg_speed_test_bytes :: nat
  cfg_encryption_enabled :: bool
  cfg_encode_queue_limit :: nat
  cfg_outbound_queue_limit :: nat
  cfg_lite_mode :: bool

definition default_config :: tight_config where
  "default_config = \<lparr>cfg_id = [], cfg_token = [], cfg_role = LR_Leaf, cfg_mtu = 1350, cfg_heartbeat = sec 5,
     cfg_report_interval = sec 1, cfg_flush_interval = msec 10, cfg_dead_timeout = sec 30,
     cfg_retransmit_timeout = msec 500, cfg_initial_bandwidth = 100 * 1024 * 1024, cfg_queue_limit = 65536,
     cfg_max_message_bytes = 64 * 1024, cfg_drop_log = True, cfg_retransmit_enabled = True,
     cfg_late_rtt_multiplier = 4, cfg_speed_test_enabled = True, cfg_speed_test_bytes = 100 * 1024,
     cfg_encryption_enabled = True, cfg_encode_queue_limit = 4096, cfg_outbound_queue_limit = 65536,
     cfg_lite_mode = False\<rparr>"

record env =
  e_now :: timepoint
  e_unix_ms :: u64
  e_random :: u64

type_synonym send_queue = "(int, (string \<times> bytes) list) omap"

record impl =
  m_config :: tight_config
  m_sock_open :: bool
  m_running :: bool
  m_lite_mode :: bool
  m_workers_running :: bool
  m_send_queue :: send_queue
  m_encode_queue :: "(string \<times> bytes) fifo"
  m_outbound_queue :: "(string \<times> bytes) fifo"
  m_lite_pending :: "(string \<times> bytes) option"
  m_peers :: "(string, peer) omap"
  m_peer_by_addr :: "(addr_key, string) omap"
  m_local_client_id :: u32
  m_local_session_id :: u64
  m_token_bucket :: real
  m_token_bucket_time :: timepoint
  m_bandwidth :: bandwidth
  m_private_key :: bytes
  m_public_key :: bytes
  m_parities :: "bytes list"

datatype effect =
    SendTo addr_key bytes
  | FirePeer string link_role link_state u32
  | FireCommand string bytes
  | Deliver string bytes

text \<open>The constructor; its random draws and the generated key pair are arguments.\<close>

definition new_impl :: "env \<Rightarrow> u64 \<Rightarrow> u64 \<Rightarrow> bytes \<Rightarrow> tight_config \<Rightarrow> impl" where
  "new_impl env r1 r2 private_key cfg =
     (let cid = ucast (r1 AND 0x7FFFFFFF) :: u32;
          keys = (if cfg_encryption_enabled cfg then x25519_generate private_key else (replicate 32 0, replicate 32 0))
      in \<lparr>m_config = cfg, m_sock_open = False, m_running = False, m_lite_mode = cfg_lite_mode cfg, m_workers_running = False,
          m_send_queue = [],
          m_encode_queue = new_fifo (if cfg_lite_mode cfg then min (cfg_encode_queue_limit cfg) 64 else cfg_encode_queue_limit cfg),
          m_outbound_queue = new_fifo (if cfg_lite_mode cfg then min (cfg_outbound_queue_limit cfg) 256 else cfg_outbound_queue_limit cfg),
          m_lite_pending = None, m_peers = [], m_peer_by_addr = [],
          m_local_client_id = (if cid = 0 then 1 else cid), m_local_session_id = r2,
          m_token_bucket = 0, m_token_bucket_time = e_now env, m_bandwidth = new_bandwidth (cfg_initial_bandwidth cfg),
          m_private_key = fst keys, m_public_key = snd keys, m_parities = []\<rparr>)"

definition queue_limit :: "impl \<Rightarrow> nat" where
  "queue_limit s = (if m_lite_mode s then min (cfg_queue_limit (m_config s)) 128 else cfg_queue_limit (m_config s))"

definition max_message_bytes :: "impl \<Rightarrow> nat" where
  "max_message_bytes s = max (8 * 1024) (min (cfg_max_message_bytes (m_config s)) (10 * 1024 * 1024))"

definition flush_interval :: "impl \<Rightarrow> duration" where
  "flush_interval s = (if m_lite_mode s then max (cfg_flush_interval (m_config s)) (msec 10) else cfg_flush_interval (m_config s))"

definition rtt_us32 :: "impl \<Rightarrow> u32" where
  "rtt_us32 s = of_int (bw_rtt (m_bandwidth s))"

section \<open>Building and opening wire packets\<close>

definition base_header :: "impl \<Rightarrow> packet_type \<Rightarrow> packet_header" where
  "base_header s ty = empty_header\<lparr>magic := kMagic, version := kVersion, ptype := ty,
     client_id := m_local_client_id s, session_id := m_local_session_id s\<rparr>"

definition tick_of :: "env \<Rightarrow> u32" where "tick_of env = ucast (e_unix_ms env AND 0xFFFFFFFF)"

definition build_nonce :: "packet_header \<Rightarrow> bytes" where
  "build_nonce h =
     (let n = replicate kGcmNonceSize 0;
          n = put32 0 (client_id h) n
      in if ptype h = PT_Command
         then (put32 4 (sequence h) n)[8 := ptype_byte (ptype h)]
         else (put16 8 (fragment_index h) (put32 4 (message_id h) n))[10 := ptype_byte (ptype h)])"

definition build_wire_packet :: "impl \<Rightarrow> peer \<Rightarrow> packet_header \<Rightarrow> bytes \<Rightarrow> bytes" where
  "build_wire_packet s p header payload =
     (let encrypted = (cfg_encryption_enabled (m_config s) \<and> m_crypto_ready p);
          wire_header = (if encrypted
                         then header\<lparr>flags := flags header OR kFlagEncrypted,
                                     payload_size := of_nat (length payload + kGcmTagSize)\<rparr>
                         else header);
          datagram = replicate (kHeaderSize + unat (payload_size wire_header)) 0;
          datagram = encode_header_to wire_header datagram;
          datagram =
            (if \<not> encrypted
             then (if payload \<noteq> [] then write_at datagram kHeaderSize payload else datagram)
             else case aes256_gcm_encrypt (m_crypto_key p) (build_nonce wire_header) (take (kHeaderSize - 4) datagram) payload of
                    (ct, tag) \<Rightarrow> write_at (write_at datagram kHeaderSize ct) (kHeaderSize + length payload) tag)
      in finalize_crc datagram)"

definition decrypt_payload :: "peer \<Rightarrow> packet_header \<Rightarrow> bytes \<Rightarrow> (packet_header \<times> bytes) option" where
  "decrypt_payload p header payload =
     (if \<not> m_crypto_ready p then None
      else if length payload < kGcmTagSize then None
      else
        let ct_len = length payload - kGcmTagSize;
            nonce = build_nonce header;
            aad = fst (encode_to header [] (replicate kHeaderSize 0))
        in case aes256_gcm_decrypt (m_crypto_key p) nonce (take (kHeaderSize - 4) aad) (take ct_len payload) (drop ct_len payload) of
             None \<Rightarrow> None
           | Some pt \<Rightarrow> Some (header\<lparr>payload_size := of_nat ct_len, flags := flags header AND NOT kFlagEncrypted\<rparr>, pt))"

text \<open>A low-order public key leaves the peer unencrypted.\<close>

definition key_salt :: "u32 \<Rightarrow> u32 \<Rightarrow> bytes" where
  "key_salt a b =
     (let lo = min a b; hi = max a b
      in map (\<lambda>i. ucast (drop_bit (i * 8) lo AND 0xFF)) [0..<4] @ map (\<lambda>i. ucast (drop_bit (i * 8) hi AND 0xFF)) [0..<4])"

definition derive_session_key :: "impl \<Rightarrow> bytes \<Rightarrow> u32 \<Rightarrow> peer \<Rightarrow> peer" where
  "derive_session_key s peer_pub peer_client_id p =
     (case x25519 (m_private_key s) peer_pub of
        (shared, ok) \<Rightarrow>
          if \<not> ok then p
          else p\<lparr>m_crypto_key := hkdf_sha256 shared (key_salt (m_local_client_id s) peer_client_id) ''tight-data-key-v1'',
                 m_crypto_ready := True\<rparr>)"

section \<open>Sending\<close>

definition send_raw :: "string \<Rightarrow> peer \<Rightarrow> bytes \<Rightarrow> impl \<Rightarrow> impl" where
  "send_raw k p datagram s =
     (if \<not> m_addr_set p \<or> \<not> m_sock_open s then s
      else s\<lparr>m_outbound_queue := snd (fifo_try_push (k, datagram) (m_outbound_queue s))\<rparr>)"

definition pending_entry :: "peer \<Rightarrow> u32 \<Rightarrow> pending_send" where
  "pending_entry p seq = (case map_of (m_pending p) seq of Some ps \<Rightarrow> ps | None \<Rightarrow> new_pending)"

definition send_control :: "env \<Rightarrow> string \<Rightarrow> packet_type \<Rightarrow> bytes \<Rightarrow> bool \<Rightarrow> peer \<times> impl \<Rightarrow> peer \<times> impl" where
  "send_control env k ty payload ackable ps = (case ps of (p, s) \<Rightarrow>
     let header = base_header s ty;
         header = (if ackable then header\<lparr>sequence := m_sequence_out p\<rparr> else header);
         p = (if ackable then p\<lparr>m_sequence_out := m_sequence_out p + 1\<rparr> else p);
         header = header\<lparr>payload_size := of_nat (length payload), tick := tick_of env\<rparr>;
         datagram = encode header payload;
         s = send_raw k p datagram s;
         p = (if ackable
              then p\<lparr>m_pending := om_set (sequence header)
                       ((pending_entry p (sequence header))\<lparr>m_header := header, m_payload := payload,
                          m_last_send := e_now env, m_bytes := length datagram\<rparr>) (m_pending p)\<rparr>
              else p)
     in (p, s))"

definition send_ack_packet :: "env \<Rightarrow> string \<Rightarrow> u32 \<Rightarrow> peer \<times> impl \<Rightarrow> peer \<times> impl" where
  "send_ack_packet env k ack ps = (case ps of (p, s) \<Rightarrow>
     let header = (base_header s PT_Ack)\<lparr>acknowledgment := ack, tick := tick_of env\<rparr>
     in (p, send_raw k p (encode header []) s))"

definition role_byte :: "link_role \<Rightarrow> u8" where
  "role_byte r = (case r of LR_Leaf \<Rightarrow> 0 | LR_Node \<Rightarrow> 1)"

definition handshake_payload :: "impl \<Rightarrow> bytes" where
  "handshake_payload s =
     (let cfg = m_config s;
          id_size = of_nat (min (length (cfg_id cfg)) 65535) :: u16
      in [role_byte (cfg_role cfg), ucast (drop_bit 8 id_size AND 0xFF), ucast (id_size AND 0xFF)]
         @ take (unat id_size) (string_bytes (cfg_id cfg))
         @ string_bytes (cfg_token cfg)
         @ (if cfg_encryption_enabled cfg then m_public_key s else [])
         @ [if cfg_retransmit_enabled cfg then 1 else 0])"

definition send_handshake :: "env \<Rightarrow> string \<Rightarrow> peer \<times> impl \<Rightarrow> peer \<times> impl" where
  "send_handshake env k ps = (case ps of (p, s) \<Rightarrow>
     send_control env k PT_Handshake (handshake_payload s) True (p\<lparr>m_last_handshake_sent := e_now env\<rparr>, s))"

text \<open>The sizes of a speed-test train; a fragment size of zero cannot occur.\<close>

function probe_sizes :: "nat \<Rightarrow> nat \<Rightarrow> nat list" where
  "probe_sizes frag left =
     (if left = 0 \<or> frag = 0 then [] else let n = min frag left in n # probe_sizes frag (left - n))"
  by auto
termination by (relation "measure snd") auto

declare probe_sizes.simps [simp del]

definition send_speed_test :: "env \<Rightarrow> peer \<Rightarrow> impl \<Rightarrow> effect list" where
  "send_speed_test env p s =
     (let cfg = m_config s in
      if \<not> cfg_speed_test_enabled cfg then []
      else if \<not> m_addr_set p \<or> \<not> m_sock_open s then []
      else
        let frag = (if kHeaderSize < cfg_mtu cfg then cfg_mtu cfg - kHeaderSize else 1152)
        in map (\<lambda>n. SendTo (m_addr p)
              (encode ((base_header s PT_Probe)\<lparr>payload_size := of_nat n, tick := tick_of env\<rparr>) (replicate n 0)))
            (probe_sizes frag (cfg_speed_test_bytes cfg)))"

definition fire_peer_event :: "peer \<Rightarrow> link_state \<Rightarrow> effect" where
  "fire_peer_event p st = FirePeer (m_id p) (m_role p) st (m_peer_client_id p)"

definition send_data_packet :: "env \<Rightarrow> string \<Rightarrow> fragment_call \<Rightarrow> peer \<times> impl \<Rightarrow> peer \<times> impl" where
  "send_data_packet env k c ps = (case ps of (p, s) \<Rightarrow>
     let payload = replicate (fc_width c) 0;
         payload = (if fc_data c \<noteq> [] then write_at payload 0 (take (min (length (fc_data c)) (fc_width c)) (fc_data c)) else payload);
         ty = (if uint (fc_idx c) + 1 = uint (fc_cnt c) then PT_Parity else PT_Data);
         header = (base_header s ty)\<lparr>flags := fc_data_cnt c\<rparr>;
         is_acked_data = (fc_ackable c \<and> ty = PT_Data);
         keep = (is_acked_data \<and> cfg_retransmit_enabled (m_config s) \<and> m_peer_retransmit p);
         header = (if is_acked_data then header\<lparr>sequence := m_sequence_out p\<rparr> else header);
         p = (if is_acked_data then p\<lparr>m_sequence_out := m_sequence_out p + 1\<rparr> else p);
         header = header\<lparr>message_id := fc_msg_id c, fragment_index := fc_idx c, fragment_count := fc_cnt c,
                    reserved := fc_real_size c, payload_size := of_nat (length payload), tick := tick_of env\<rparr>;
         datagram = build_wire_packet s p header payload;
         s = send_raw k p datagram s;
         p = (if keep
              then p\<lparr>m_pending := om_set (sequence header)
                       ((pending_entry p (sequence header))\<lparr>m_header := header, m_payload := payload,
                          m_last_send := e_now env, m_bytes := length datagram\<rparr>) (m_pending p)\<rparr>
              else p)
     in (p, s))"

definition transport_fragment_and_send :: "env \<Rightarrow> string \<Rightarrow> bytes \<Rightarrow> peer \<times> impl \<Rightarrow> peer \<times> impl" where
  "transport_fragment_and_send env k payload ps = (case ps of (p, s) \<Rightarrow>
     case fragment_and_send (cfg_mtu (m_config s)) payload (m_parities s) p of
       (calls, parities, p) \<Rightarrow> fold (send_data_packet env k) calls (p, s\<lparr>m_parities := parities\<rparr>))"

section \<open>Clock and RTT\<close>

definition sync_clock :: "u32 \<Rightarrow> u64 \<Rightarrow> impl \<Rightarrow> peer \<Rightarrow> peer" where
  "sync_clock tk arrival_ms s p =
     (if tk = 0 then p
      else
        let rtt_us = bw_rtt (m_bandwidth s) in
        if rtt_us \<le> 0 then p\<lparr>m_hs_tick := tk, m_hs_arrival_ms := arrival_ms, m_clock_pending := True\<rparr>
        else
          let arrival_low = ucast (arrival_ms AND 0xFFFFFFFF) :: u32;
              sample_us = sint (tk - arrival_low) * 1000 - trunc_div rtt_us 2;
              p = (if \<not> m_clock_synced p then p\<lparr>m_clock_offset_us := sample_us, m_clock_synced := True\<rparr>
                   else p\<lparr>m_clock_offset_us := trunc_div (m_clock_offset_us p * 7 + sample_us) 8\<rparr>)
          in p\<lparr>m_clock_pending := False\<rparr>)"

definition try_sync_clock :: "impl \<Rightarrow> peer \<Rightarrow> peer" where
  "try_sync_clock s p = (if m_clock_pending p then sync_clock (m_hs_tick p) (m_hs_arrival_ms p) s p else p)"

definition feed_rtt_from_tick :: "env \<Rightarrow> u32 \<Rightarrow> peer \<Rightarrow> impl \<Rightarrow> impl" where
  "feed_rtt_from_tick env tk p s =
     (let transit_us = transit_time_us p tk (e_unix_ms env) in
      if transit_us < 0 \<or> 10000000 < transit_us then s
      else s\<lparr>m_bandwidth := on_ack 0 (transit_us * 2) (m_bandwidth s)\<rparr>)"

section \<open>Packet handlers\<close>

record handshake_fields =
  hf_role :: u8
  hf_id :: string
  hf_retransmit :: "bool option"
  hf_pub :: "bytes option"
  hf_token :: string

definition bytes_string :: "bytes \<Rightarrow> string" where
  "bytes_string b = map (\<lambda>x. char_of (unat x)) b"

definition parse_handshake :: "bool \<Rightarrow> bytes \<Rightarrow> handshake_fields option" where
  "parse_handshake encryption payload =
     (if length payload < 3 then None
      else
        let id_size = push_bit 8 (ucast (payload ! 1)) OR ucast (payload ! 2) :: u16;
            base = 3 + unat id_size
        in if length payload < base then None
           else
             let token_end = length payload;
                 retr = (if base < token_end then Some (payload ! (token_end - 1) AND 1 \<noteq> 0) else None);
                 token_end = (if base < token_end then token_end - 1 else token_end);
                 have_pub = (encryption \<and> base + 32 \<le> token_end);
                 token_end = (if have_pub then token_end - 32 else token_end)
             in Some \<lparr>hf_role = payload ! 0, hf_id = bytes_string (take (unat id_size) (drop 3 payload)),
                  hf_retransmit = retr,
                  hf_pub = (if have_pub then Some (take 32 (drop token_end payload)) else None),
                  hf_token = bytes_string (take (token_end - base) (drop base payload))\<rparr>)"

definition handshake_ack_payload :: "impl \<Rightarrow> bytes" where
  "handshake_ack_payload s =
     (if cfg_encryption_enabled (m_config s) then m_public_key s else [])
     @ [if cfg_retransmit_enabled (m_config s) then 1 else 0]"

type_synonym handled = "peer \<times> impl \<times> effect list"

text \<open>What a valid handshake and a handshake acknowledgement change in the peer before anything is sent.\<close>

definition accept_handshake :: "env \<Rightarrow> packet_header \<Rightarrow> handshake_fields \<Rightarrow> impl \<Rightarrow> peer \<Rightarrow> peer" where
  "accept_handshake env h hf s p =
     (let p = sync_clock (tick h) (e_unix_ms env) s p;
          p = cmd_reset p;
          p = (if hf_id hf \<noteq> [] then p\<lparr>m_id := hf_id hf\<rparr> else p);
          p = p\<lparr>m_role := (if hf_role hf = role_byte LR_Node then LR_Node else LR_Leaf)\<rparr>
      in case hf_pub hf of Some pub \<Rightarrow> derive_session_key s pub (client_id h) p | None \<Rightarrow> p)"

definition establish :: "peer \<Rightarrow> peer \<times> effect list" where
  "establish p =
     (if m_state p \<noteq> LS_Established \<and> m_state p \<noteq> LS_Online
      then let p = p\<lparr>m_state := LS_Established\<rparr> in (p, [fire_peer_event p LS_Established])
      else (p, []))"

definition handle_handshake :: "env \<Rightarrow> string \<Rightarrow> packet_header \<Rightarrow> bytes \<Rightarrow> peer \<Rightarrow> impl \<Rightarrow> handled" where
  "handle_handshake env k h payload p s =
     (case parse_handshake (cfg_encryption_enabled (m_config s)) payload of
        None \<Rightarrow> (p, s, [])
      | Some hf \<Rightarrow>
          let p = (case hf_retransmit hf of Some r \<Rightarrow> p\<lparr>m_peer_retransmit := r\<rparr> | None \<Rightarrow> p) in
          if hf_token hf \<noteq> cfg_token (m_config s) then (p, s, [])
          else
            let p = accept_handshake env h hf s p;
                (p, s) = (if \<not> m_reconnect p \<and> m_addr_set p then send_handshake env k (p, s) else (p, s));
                (p, eff) = establish p;
                (p, s) = send_control env k PT_HandshakeAck (handshake_ack_payload s) True (p, s)
            in (p, s, eff))"

definition accept_ack :: "env \<Rightarrow> packet_header \<Rightarrow> bytes \<Rightarrow> impl \<Rightarrow> peer \<Rightarrow> peer" where
  "accept_ack env h payload s p =
     (let p = sync_clock (tick h) (e_unix_ms env) s p;
          p = cmd_reset p
      in if payload \<noteq> [] then
           let tail = length payload;
               p = p\<lparr>m_peer_retransmit := (payload ! (tail - 1) AND 1 \<noteq> 0)\<rparr>;
               tail = tail - 1
           in if cfg_encryption_enabled (m_config s) \<and> 32 \<le> tail
              then derive_session_key s (take 32 (drop (tail - 32) payload)) (client_id h) p
              else p
         else p)"

definition handle_handshake_ack :: "env \<Rightarrow> string \<Rightarrow> packet_header \<Rightarrow> bytes \<Rightarrow> peer \<Rightarrow> impl \<Rightarrow> handled" where
  "handle_handshake_ack env k h payload p s =
     (let p = accept_ack env h payload s p
      in if m_state p = LS_Online then (p, s, [])
         else if m_state p = LS_Handshake \<or> m_state p = LS_Established then
           let (p, s) = send_control env k PT_Online [] True (p, s);
               p = p\<lparr>m_state := LS_Online, m_handshake_backoff := msec 500\<rparr>
           in (p, s, fire_peer_event p LS_Online # send_speed_test env p s)
         else (p, s, []))"

definition handle_online :: "env \<Rightarrow> peer \<Rightarrow> impl \<Rightarrow> handled" where
  "handle_online env p s =
     (if m_state p \<noteq> LS_Online
      then let p = p\<lparr>m_state := LS_Online\<rparr> in (p, s, fire_peer_event p LS_Online # send_speed_test env p s)
      else (p, s, []))"

definition handle_heartbeat :: "env \<Rightarrow> packet_header \<Rightarrow> bytes \<Rightarrow> peer \<Rightarrow> impl \<Rightarrow> handled" where
  "handle_heartbeat env h payload p s =
     (let p = (if 4 \<le> length payload then p\<lparr>m_sender_rtt_us := get32 payload 0\<rparr> else p);
          p = sync_clock (tick h) (e_unix_ms env) s p
      in (p, feed_rtt_from_tick env (tick h) p s, []))"

definition handle_probe :: "env \<Rightarrow> packet_header \<Rightarrow> peer \<Rightarrow> peer" where
  "handle_probe env h p =
     (let now = e_now env;
          p = finalize_probe_train now p;
          p = (if m_probe_count p = 0 then p\<lparr>m_probe_first := now\<rparr> else p)
      in p\<lparr>m_probe_last := now, m_probe_count := m_probe_count p + 1,
           m_probe_bytes := m_probe_bytes p + kHeaderSize + unat (payload_size h)\<rparr>)"

definition handle_bye :: "peer \<Rightarrow> impl \<Rightarrow> handled" where
  "handle_bye p s =
     (if m_state p \<noteq> LS_Closed
      then let p = p\<lparr>m_state := LS_Closed\<rparr> in (p, s, [fire_peer_event p LS_Closed])
      else (p, s, []))"

definition transport_handle_data :: "env \<Rightarrow> packet_header \<Rightarrow> bytes \<Rightarrow> peer \<Rightarrow> impl \<Rightarrow> handled outcome" where
  "transport_handle_data env h payload p s =
     (case handle_data (e_now env) (e_unix_ms env) (rtt_us32 s) (cfg_late_rtt_multiplier (m_config s))
             (max_message_bytes s) h payload p of
        UB \<Rightarrow> UB
      | Done (p, msgs) \<Rightarrow> Done (p, s, map (Deliver (m_id p)) msgs))"

definition handle_command :: "env \<Rightarrow> packet_header \<Rightarrow> bytes \<Rightarrow> peer \<Rightarrow> impl \<Rightarrow> handled" where
  "handle_command env h payload p s =
     (case cmd_handle (e_now env) (rtt_us32 s) h payload p of
        (p, ready) \<Rightarrow> (p, s, map (FireCommand (m_id p)) ready))"

definition handle_ack :: "env \<Rightarrow> packet_header \<Rightarrow> peer \<Rightarrow> impl \<Rightarrow> handled" where
  "handle_ack env h p s =
     (let ack = acknowledgment h in
      if ack = 0 then (p, s, [])
      else case map_of (m_pending p) ack of
             None \<Rightarrow> (p, s, [])
           | Some ps \<Rightarrow>
               let p = p\<lparr>m_pending := om_erase ack (m_pending p)\<rparr>;
                   rtt = count_us (e_now env - m_last_send ps);
                   rtt = (if rtt < 0 then 0 else rtt);
                   s = s\<lparr>m_bandwidth := on_ack (m_bytes ps) rtt (m_bandwidth s)\<rparr>
               in (try_sync_clock s p, s, []))"

definition handle_report :: "env \<Rightarrow> string \<Rightarrow> packet_header \<Rightarrow> bytes \<Rightarrow> peer \<Rightarrow> impl \<Rightarrow> handled" where
  "handle_report env k h payload p s =
     (let s = feed_rtt_from_tick env (tick h) p s;
          (p, resent, probe_bw) = report_handle (e_now env) payload p;
          s = fold (\<lambda>(hd, pl) s. send_raw k p (build_wire_packet s p hd pl) s) resent s;
          s = s\<lparr>m_bandwidth := on_late_ratio (m_peer_late_ratio p) (m_bandwidth s)\<rparr>;
          s = (if 0 < probe_bw then s\<lparr>m_bandwidth := seed_bandwidth probe_bw (m_bandwidth s)\<rparr> else s)
      in (p, s, []))"

text \<open>\<open>std::to_string\<close> of an unsigned number.\<close>

fun dec_string :: "nat \<Rightarrow> string" where
  "dec_string n = (if n < 10 then [] else dec_string (n div 10)) @ [char_of (48 + n mod 10)]"

declare dec_string.simps [simp del]

definition find_or_create_peer_by_addr :: "env \<Rightarrow> addr_key \<Rightarrow> impl \<Rightarrow> string \<times> impl" where
  "find_or_create_peer_by_addr env from s =
     (case Option.bind (map_of (m_peer_by_addr s) from) (\<lambda>k. map_option (\<lambda>_. k) (map_of (m_peers s) k)) of
        Some k \<Rightarrow> (k, s)
      | None \<Rightarrow>
          let id = ''anon-'' @ dec_string (unat (to_be16 (ak_port from))) @ ''-'' @ dec_string (unat (e_random env AND 0xFFFFFFFF));
              p = (case map_of (m_peers s) id of Some p \<Rightarrow> p | None \<Rightarrow> new_peer);
              p = p\<lparr>m_id := id, m_addr := from, m_addr_set := True, m_role := LR_Leaf,
                    m_drop_log := (cfg_drop_log (m_config s) \<and> \<not> m_lite_mode s),
                    m_retransmit := cfg_retransmit_enabled (m_config s), m_state := LS_Handshake,
                    m_last_handshake_sent := e_now env - sec 3600\<rparr>
          in (id, s\<lparr>m_peers := om_set id p (m_peers s), m_peer_by_addr := om_set from id (m_peer_by_addr s)\<rparr>))"

definition note_packet :: "env \<Rightarrow> packet_header \<Rightarrow> peer \<Rightarrow> peer" where
  "note_packet env h p =
     (let p = p\<lparr>m_last_recv := e_now env\<rparr>;
          p = (if m_peer_client_id p = 0 \<and> client_id h \<noteq> 0 then p\<lparr>m_peer_client_id := client_id h\<rparr> else p)
      in if m_peer_session_id p = 0 \<and> session_id h \<noteq> 0 then p\<lparr>m_peer_session_id := session_id h\<rparr> else p)"

definition needs_ack :: "packet_type \<Rightarrow> bool" where
  "needs_ack ty = (ty \<in> {PT_Handshake, PT_HandshakeAck, PT_Online})"

definition dispatch :: "env \<Rightarrow> string \<Rightarrow> packet_header \<Rightarrow> bytes \<Rightarrow> peer \<Rightarrow> impl \<Rightarrow> handled outcome" where
  "dispatch env k h payload p s =
     (case ptype h of
        PT_Handshake \<Rightarrow> Done (handle_handshake env k h payload p s)
      | PT_HandshakeAck \<Rightarrow> Done (handle_handshake_ack env k h payload p s)
      | PT_Online \<Rightarrow> Done (handle_online env p s)
      | PT_Heartbeat \<Rightarrow> Done (handle_heartbeat env h payload p s)
      | PT_Bye \<Rightarrow> Done (handle_bye p s)
      | PT_Data \<Rightarrow> transport_handle_data env h payload p s
      | PT_Parity \<Rightarrow> transport_handle_data env h payload p s
      | PT_Ack \<Rightarrow> Done (handle_ack env h p s)
      | PT_Report \<Rightarrow> Done (handle_report env k h payload p s)
      | PT_Probe \<Rightarrow> Done (handle_probe env h p, s, [])
      | PT_Command \<Rightarrow> Done (handle_command env h payload p s)
      | PT_unnamed _ \<Rightarrow> Done (p, s, []))"

definition put_peer :: "string \<Rightarrow> peer \<Rightarrow> impl \<Rightarrow> impl" where
  "put_peer k p s = s\<lparr>m_peers := om_set k p (m_peers s)\<rparr>"

text \<open>The peer the packet belongs to always has an entry; a packet that cannot be decrypted is dropped
  after the peer's bookkeeping.\<close>

definition handle_packet :: "env \<Rightarrow> addr_key \<Rightarrow> packet_header \<Rightarrow> bytes \<Rightarrow> impl \<Rightarrow> (impl \<times> effect list) outcome" where
  "handle_packet env from h payload s =
     (case find_or_create_peer_by_addr env from s of
        (k, s) \<Rightarrow> (case map_of (m_peers s) k of
          None \<Rightarrow> UB
        | Some p \<Rightarrow>
            let p = note_packet env h p in
            (case (if flags h AND kFlagEncrypted \<noteq> 0 then decrypt_payload p h payload else Some (h, payload)) of
               None \<Rightarrow> Done (put_peer k p s, [])
             | Some (h, payload) \<Rightarrow>
                 (case dispatch env k h payload p s of
                    UB \<Rightarrow> UB
                  | Done (p, s, eff) \<Rightarrow>
                      let (p, s) = (if needs_ack (ptype h) then send_ack_packet env k (sequence h) (p, s) else (p, s))
                      in Done (put_peer k p s, eff)))))"

text \<open>A datagram from the socket: \<open>receiver_loop\<close> and \<open>drain_receiver\<close> drop short and undecodable ones.\<close>

definition receive_datagram :: "env \<Rightarrow> addr_key \<Rightarrow> bytes \<Rightarrow> impl \<Rightarrow> (impl \<times> effect list) outcome" where
  "receive_datagram env from buf s =
     (if length buf < kHeaderSize then Done (s, [])
      else case decode buf of None \<Rightarrow> Done (s, []) | Some (h, payload) \<Rightarrow> handle_packet env from h payload s)"

section \<open>Operations of the application\<close>

definition connecting_peer :: "env \<Rightarrow> string \<Rightarrow> addr_key \<Rightarrow> impl \<Rightarrow> peer \<Rightarrow> peer" where
  "connecting_peer env rid key s p =
     (let p = p\<lparr>m_id := rid, m_addr := key, m_addr_set := True, m_role := LR_Node, m_reconnect := True,
                m_drop_log := (cfg_drop_log (m_config s) \<and> \<not> m_lite_mode s),
                m_retransmit := cfg_retransmit_enabled (m_config s)\<rparr>
      in if m_state p = LS_Closed
         then p\<lparr>m_state := LS_Handshake, m_last_handshake_sent := e_now env - sec 3600, m_handshake_backoff := msec 500\<rparr>
         else p)"

text \<open>The entry of another peer at the same address is erased.\<close>

definition replace_peer :: "string \<Rightarrow> addr_key \<Rightarrow> impl \<Rightarrow> impl" where
  "replace_peer rid key s =
     (case map_of (m_peer_by_addr s) key of
        Some old_id \<Rightarrow>
          if old_id \<noteq> rid
          then s\<lparr>m_peers := om_erase old_id (m_peers s), m_peer_by_addr := om_set key rid (m_peer_by_addr s)\<rparr>
          else s
      | None \<Rightarrow> s)"

text \<open>\<open>addr\<close> is the result of resolving the remote address.\<close>

definition connect :: "env \<Rightarrow> string \<Rightarrow> addr_key option \<Rightarrow> impl \<Rightarrow> bool \<times> impl" where
  "connect env rid addr s =
     (if \<not> m_running s then (False, s)
      else case addr of
        None \<Rightarrow> (False, s)
      | Some key \<Rightarrow>
          let s = replace_peer rid key s;
              p = (case map_of (m_peers s) rid of Some p \<Rightarrow> p | None \<Rightarrow> new_peer);
              p = connecting_peer env rid key s p;
              s = s\<lparr>m_peer_by_addr := om_set key rid (m_peer_by_addr s)\<rparr>;
              (p, s) = send_handshake env rid (p, s)
          in (True, put_peer rid p s))"

definition queue_total :: "send_queue \<Rightarrow> nat" where
  "queue_total q = sum_list (map (\<lambda>kv. length (snd kv)) q)"

definition queue_append :: "int \<Rightarrow> string \<times> bytes \<Rightarrow> send_queue \<Rightarrow> send_queue" where
  "queue_append prio item q =
     om_set prio ((case map_of q prio of Some d \<Rightarrow> d | None \<Rightarrow> []) @ [item]) q"

definition send_message :: "string \<Rightarrow> bytes \<Rightarrow> int \<Rightarrow> impl \<Rightarrow> bool \<times> impl" where
  "send_message peer_id payload prio s =
     (if \<not> m_running s then (False, s)
      else if max_message_bytes s < length payload then (False, s)
      else if queue_limit s \<le> queue_total (m_send_queue s) then (False, s)
      else (True, s\<lparr>m_send_queue := queue_append prio (peer_id, payload) (m_send_queue s)\<rparr>))"

definition find_peer :: "string \<Rightarrow> impl \<Rightarrow> (string \<times> peer) option" where
  "find_peer peer_id s =
     (case map_of (m_peers s) peer_id of
        Some p \<Rightarrow> Some (peer_id, p)
      | None \<Rightarrow> find (\<lambda>(k, p). m_id p = peer_id) (m_peers s))"

definition send_command :: "env \<Rightarrow> string \<Rightarrow> bytes \<Rightarrow> impl \<Rightarrow> bool \<times> impl" where
  "send_command env peer_id payload s =
     (if \<not> m_running s then (False, s)
      else if (if kHeaderSize < cfg_mtu (m_config s) then cfg_mtu (m_config s) - kHeaderSize else 0) < length payload then (False, s)
      else case find_peer peer_id s of
        None \<Rightarrow> (False, s)
      | Some (k, p) \<Rightarrow>
          if m_state p \<noteq> LS_Online then (False, s)
          else
            let header = (base_header s PT_Command)\<lparr>sequence := m_cmd_seq_out p,
                           payload_size := of_nat (length payload), tick := tick_of env\<rparr>;
                p = p\<lparr>m_cmd_seq_out := m_cmd_seq_out p + 1\<rparr>
            in (True, put_peer k p (send_raw k p (build_wire_packet s p header payload) s)))"

definition peers_snapshot :: "impl \<Rightarrow> (string \<times> link_role \<times> link_state \<times> u32) list" where
  "peers_snapshot s = map (\<lambda>(k, p). (m_id p, m_role p, m_state p, m_peer_client_id p)) (m_peers s)"

section \<open>Periodic duties of the reactor\<close>

text \<open>\<open>for (auto& kv : m_peers)\<close> with a body that works on one peer and the engine.\<close>

definition for_peers :: "(string \<Rightarrow> peer \<Rightarrow> impl \<Rightarrow> handled) \<Rightarrow> impl \<Rightarrow> impl \<times> effect list" where
  "for_peers f s = fold (\<lambda>k (s, eff). case map_of (m_peers s) k of
       None \<Rightarrow> (s, eff)
     | Some p \<Rightarrow> (case f k p s of (p, s, e) \<Rightarrow> (put_peer k p s, eff @ e))) (map fst (m_peers s)) (s, [])"

definition handshake_one :: "env \<Rightarrow> string \<Rightarrow> peer \<Rightarrow> impl \<Rightarrow> handled" where
  "handshake_one env k p s =
     (if m_state p \<noteq> LS_Handshake then (p, s, [])
      else
        let p = p\<lparr>m_pending := filter (\<lambda>kv. ptype (m_header (snd kv)) \<noteq> PT_Handshake) (m_pending p)\<rparr> in
        if e_now env - m_last_handshake_sent p < m_handshake_backoff p then (p, s, [])
        else
          let (p, s) = send_handshake env k (p, s)
          in (p\<lparr>m_handshake_backoff := min (m_handshake_backoff p * 2) (msec 5000)\<rparr>, s, []))"

definition send_handshakes :: "env \<Rightarrow> impl \<Rightarrow> impl \<times> effect list" where
  "send_handshakes env s = for_peers (handshake_one env) s"

definition linked :: "peer \<Rightarrow> bool" where
  "linked p = (m_state p = LS_Established \<or> m_state p = LS_Online)"

definition heartbeat_one :: "env \<Rightarrow> string \<Rightarrow> peer \<Rightarrow> impl \<Rightarrow> handled" where
  "heartbeat_one env k p s =
     (if \<not> linked p then (p, s, [])
      else if e_now env - m_last_heartbeat_sent p < cfg_heartbeat (m_config s) then (p, s, [])
      else
        let (p, s) = send_control env k PT_Heartbeat (mem32 (to_be32 (rtt_us32 s))) False (p, s)
        in (p\<lparr>m_last_heartbeat_sent := e_now env\<rparr>, s, []))"

definition send_heartbeats :: "env \<Rightarrow> impl \<Rightarrow> impl \<times> effect list" where
  "send_heartbeats env s = for_peers (heartbeat_one env) s"

definition report_one :: "env \<Rightarrow> string \<Rightarrow> peer \<Rightarrow> impl \<Rightarrow> handled" where
  "report_one env k p s =
     (if \<not> linked p then (p, s, [])
      else if e_now env - m_last_report_sent p < cfg_report_interval (m_config s) then (p, s, [])
      else
        let (payload, p) = build_payload (e_now env) (cfg_report_interval (m_config s)) p;
            rpt = (base_header s PT_Report)\<lparr>payload_size := of_nat (length payload), tick := tick_of env\<rparr>;
            s = send_raw k p (encode rpt payload) s
        in (p\<lparr>m_last_report_sent := e_now env\<rparr>, s, []))"

definition send_reports :: "env \<Rightarrow> impl \<Rightarrow> impl \<times> effect list" where
  "send_reports env s = for_peers (report_one env) s"

definition offline_one :: "env \<Rightarrow> string \<Rightarrow> peer \<Rightarrow> impl \<Rightarrow> handled" where
  "offline_one env k p s =
     (let now = e_now env; dead = cfg_dead_timeout (m_config s);
          p = p\<lparr>m_incoming := filter (\<lambda>kv. \<not> dead \<le> now - m_first_seen (snd kv)) (m_incoming p),
                m_completed := filter (\<lambda>kv. \<not> dead \<le> now - snd kv) (m_completed p)\<rparr>
      in if \<not> linked p then (p, s, [])
         else if dead \<le> now - m_last_recv p then
           let p = p\<lparr>m_state := LS_Closed, m_pending := []\<rparr>;
               eff = [fire_peer_event p LS_Closed];
               p = (if m_reconnect p
                    then p\<lparr>m_state := LS_Handshake, m_last_handshake_sent := now - cfg_retransmit_timeout (m_config s),
                           m_handshake_backoff := msec 500, m_last_recv := now\<rparr>
                    else p)
           in (p, s, eff)
         else (p, s, []))"

definition check_offline :: "env \<Rightarrow> impl \<Rightarrow> impl \<times> effect list" where
  "check_offline env s = for_peers (offline_one env) s"

definition flush_one :: "env \<Rightarrow> string \<Rightarrow> peer \<Rightarrow> impl \<Rightarrow> handled" where
  "flush_one env k p s =
     (case flush_expired (e_now env) (rtt_us32 s) p of (p, ready) \<Rightarrow> (p, s, map (FireCommand (m_id p)) ready))"

definition flush_commands :: "env \<Rightarrow> impl \<Rightarrow> impl \<times> effect list" where
  "flush_commands env s = for_peers (flush_one env) s"

text \<open>One message taken from the swapped-out queue: dropped for an unknown or closed peer, put back
  while the link is coming up or the encoder is full (there at priority 0), dropped when the queue is
  full.\<close>

definition requeue :: "int \<Rightarrow> string \<times> bytes \<Rightarrow> impl \<Rightarrow> impl" where
  "requeue prio item s =
     (if queue_total (m_send_queue s) < queue_limit s
      then s\<lparr>m_send_queue := queue_append prio item (m_send_queue s)\<rparr> else s)"

definition send_item :: "int \<Rightarrow> string \<times> bytes \<Rightarrow> impl \<Rightarrow> impl" where
  "send_item prio item s = (case item of (peer_id, payload) \<Rightarrow>
     (case find_peer peer_id s of
        None \<Rightarrow> s
      | Some (k, p) \<Rightarrow>
          if m_state p \<noteq> LS_Online then (if m_state p \<noteq> LS_Closed then requeue prio item s else s)
          else (case fifo_try_push (k, payload) (m_encode_queue s) of
                  (True, q) \<Rightarrow> s\<lparr>m_encode_queue := q\<rparr>
                | (False, _) \<Rightarrow> requeue 0 item s)))"

definition process_send_queue :: "impl \<Rightarrow> impl" where
  "process_send_queue s =
     (let batch = m_send_queue s;
          s = s\<lparr>m_send_queue := []\<rparr>
      in fold (\<lambda>(prio, items) s. fold (send_item prio) items s) (rev batch) s)"

section \<open>Encoding and paced sending\<close>

text \<open>One encode task: the task's peer pointer must still be valid.\<close>

definition encode_task :: "env \<Rightarrow> string \<times> bytes \<Rightarrow> impl \<Rightarrow> impl outcome" where
  "encode_task env task s = (case task of (k, payload) \<Rightarrow>
     (case map_of (m_peers s) k of
        None \<Rightarrow> UB
      | Some p \<Rightarrow> (case transport_fragment_and_send env k payload (p, s) of (p, s) \<Rightarrow> Done (put_peer k p s))))"

fun drain_encode :: "nat \<Rightarrow> env \<Rightarrow> impl \<Rightarrow> impl outcome" where
  "drain_encode 0 env s = Done s"
| "drain_encode (Suc n) env s =
     (case fifo_poll (m_encode_queue s) of
        (None, _) \<Rightarrow> Done s
      | (Some task, q) \<Rightarrow> (case encode_task env task (s\<lparr>m_encode_queue := q\<rparr>) of UB \<Rightarrow> UB | Done s \<Rightarrow> drain_encode n env s))"

definition refill_token_bucket :: "env \<Rightarrow> impl \<Rightarrow> impl" where
  "refill_token_bucket env s =
     (let elapsed_us = count_us (e_now env - m_token_bucket_time s) in
      if elapsed_us \<le> 0 then s
      else
        let bps = bytes_per_second (m_bandwidth s);
            bucket = m_token_bucket s + real bps * real_of_int elapsed_us / 1000000;
            cap = real (cfg_mtu (m_config s)) * 4
        in s\<lparr>m_token_bucket := (if cap < bucket then cap else bucket), m_token_bucket_time := e_now env\<rparr>)"

text \<open>The lite-mode sender: the packet held back from the last tick or the next one of the queue, then
  at most \<open>n\<close> iterations of the loop.\<close>

definition next_packet :: "impl \<Rightarrow> ((string \<times> bytes) \<times> impl) option" where
  "next_packet s = (case m_lite_pending s of
     Some pkt \<Rightarrow> Some (pkt, s)
   | None \<Rightarrow> (case fifo_poll (m_outbound_queue s) of
       (None, _) \<Rightarrow> None
     | (Some pkt, q) \<Rightarrow> Some (pkt, s\<lparr>m_outbound_queue := q, m_lite_pending := Some pkt\<rparr>)))"

fun drain_sender :: "nat \<Rightarrow> env \<Rightarrow> impl \<Rightarrow> (impl \<times> effect list) outcome" where
  "drain_sender 0 env s = Done (s, [])"
| "drain_sender (Suc n) env s =
     (case next_packet s of
        None \<Rightarrow> Done (s, [])
      | Some ((k, dg), s) \<Rightarrow>
          (case map_of (m_peers s) k of
             None \<Rightarrow> UB
           | Some p \<Rightarrow>
               if \<not> m_addr_set p \<or> \<not> m_sock_open s then drain_sender n env (s\<lparr>m_lite_pending := None\<rparr>)
               else
                 let s = refill_token_bucket env s in
                 if m_token_bucket s < real (length dg) then Done (s, [])
                 else
                   (case drain_sender n env (s\<lparr>m_token_bucket := m_token_bucket s - real (length dg), m_lite_pending := None\<rparr>) of
                      UB \<Rightarrow> UB
                    | Done (s, eff) \<Rightarrow> Done (s, SendTo (m_addr p) dg # eff))))"

text \<open>The full-mode sender's work on one packet. The waiting loop reads the clock once per round; the
  clock readings are the argument, and the packet goes out when one of them fills the bucket or when
  they end because the engine stopped.\<close>

fun await_tokens :: "real \<Rightarrow> timepoint list \<Rightarrow> impl \<Rightarrow> impl" where
  "await_tokens cost [] s = s"
| "await_tokens cost (t # ts) s =
     (if m_token_bucket s < cost then await_tokens cost ts (refill_token_bucket \<lparr>e_now = t, e_unix_ms = 0, e_random = 0\<rparr> s) else s)"

definition sender_packet :: "env \<Rightarrow> timepoint list \<Rightarrow> string \<times> bytes \<Rightarrow> impl \<Rightarrow> (impl \<times> effect list) outcome" where
  "sender_packet env ts pkt s = (case pkt of (k, dg) \<Rightarrow>
     (case map_of (m_peers s) k of
        None \<Rightarrow> UB
      | Some p \<Rightarrow>
          if \<not> m_addr_set p \<or> \<not> m_sock_open s then Done (s, [])
          else
            let cost = real (length dg);
                s = await_tokens cost ts (refill_token_bucket env s);
                s = (if cost \<le> m_token_bucket s then s\<lparr>m_token_bucket := m_token_bucket s - cost\<rparr> else s)
            in Done (s, [SendTo (m_addr p) dg])))"

section \<open>Modes and shutdown\<close>

definition send_byes :: "impl \<Rightarrow> impl \<times> effect list" where
  "send_byes s =
     (if \<not> m_sock_open s then (s, [])
      else for_peers (\<lambda>k p s.
             if m_state p = LS_Closed \<or> \<not> m_addr_set p then (p, s, [])
             else (p\<lparr>m_state := LS_Closed\<rparr>, s, [SendTo (m_addr p) (encode (base_header s PT_Bye) [])])) s)"

text \<open>Starting and joining threads is the flag \<open>m_workers_running\<close>.\<close>

definition set_lite_mode :: "bool \<Rightarrow> impl \<Rightarrow> (impl \<times> effect list) outcome" where
  "set_lite_mode lite s =
     (if lite = m_lite_mode s then Done (s, [])
      else
        let s = s\<lparr>m_peers := map (\<lambda>(k, p). (k, p\<lparr>m_drop_log := (cfg_drop_log (m_config s) \<and> \<not> lite)\<rparr>)) (m_peers s)\<rparr>
        in if lite then Done (s\<lparr>m_lite_mode := True, m_workers_running := False\<rparr>, [])
           else
             let done = (\<lambda>s. s\<lparr>m_lite_pending := None,
                               m_workers_running := (if m_running s then True else m_workers_running s), m_lite_mode := False\<rparr>)
             in case m_lite_pending s of
                  None \<Rightarrow> Done (done s, [])
                | Some (k, dg) \<Rightarrow>
                    (case map_of (m_peers s) k of
                       None \<Rightarrow> UB
                     | Some p \<Rightarrow> Done (done s, if m_addr_set p \<and> m_sock_open s then [SendTo (m_addr p) dg] else [])))"

definition stop_engine :: "impl \<Rightarrow> impl" where
  "stop_engine s =
     (if \<not> m_running s then s
      else s\<lparr>m_running := False, m_workers_running := False, m_encode_queue := fifo_close (m_encode_queue s),
             m_outbound_queue := fifo_close (m_outbound_queue s), m_sock_open := False\<rparr>)"

text \<open>One tick of the reactor; the lite-mode receiver handles at most 64 waiting datagrams.\<close>

fun drain_receiver :: "nat \<Rightarrow> env \<Rightarrow> (addr_key \<times> bytes) list \<Rightarrow> impl \<Rightarrow> (impl \<times> effect list) outcome" where
  "drain_receiver 0 env dgs s = Done (s, [])"
| "drain_receiver (Suc n) env [] s = Done (s, [])"
| "drain_receiver (Suc n) env ((from, buf) # dgs) s =
     (case receive_datagram env from buf s of
        UB \<Rightarrow> UB
      | Done (s, eff) \<Rightarrow> (case drain_receiver n env dgs s of UB \<Rightarrow> UB | Done (s, eff') \<Rightarrow> Done (s, eff @ eff')))"

definition reactor_duties :: "env \<Rightarrow> impl \<Rightarrow> impl \<times> effect list" where
  "reactor_duties env s =
     (let (s, e1) = send_handshakes env s;
          (s, e2) = send_heartbeats env s;
          (s, e3) = send_reports env s;
          (s, e4) = check_offline env s;
          (s, e5) = flush_commands env s
      in (process_send_queue s, e1 @ e2 @ e3 @ e4 @ e5))"

definition reactor_tick :: "env \<Rightarrow> (addr_key \<times> bytes) list \<Rightarrow> impl \<Rightarrow> (impl \<times> effect list) outcome" where
  "reactor_tick env dgs s = (case reactor_duties env s of (s, eff) \<Rightarrow>
     if \<not> m_lite_mode s then Done (s, eff)
     else case drain_receiver 64 env dgs s of
            UB \<Rightarrow> UB
          | Done (s, e6) \<Rightarrow> (case drain_encode 16 env s of
                UB \<Rightarrow> UB
              | Done s \<Rightarrow> (case drain_sender 64 env s of
                    UB \<Rightarrow> UB
                  | Done (s, e7) \<Rightarrow> Done (s, eff @ e6 @ e7))))"

end
