(* ===== verification/Transport_Link.thy ===== *)
theory Transport_Link
  imports Transport_Wire
begin

text \<open>
  The link state machine of the engine: which packets and timers move a peer between Closed,
  Handshake, Established and Online, which events the application sees, and an invariant of every
  reachable engine state.
  \<open>link_view\<close> collects the fields of a peer that only the link layer changes; the data plane
  (reassembly, reports, commands, fragmentation) leaves it alone (collection \<open>link_frame\<close>).
\<close>

named_theorems link_frame \<open>operations that leave the link fields of a peer alone\<close>

definition link_view :: "peer \<Rightarrow> link_state \<times> duration \<times> bool \<times> addr_key \<times> bool" where
  "link_view p = (m_state p, m_handshake_backoff p, m_addr_set p, m_addr p, m_reconnect p)"

lemma link_viewD:
  "link_view p = link_view q \<Longrightarrow> m_state p = m_state q"
  "link_view p = link_view q \<Longrightarrow> m_handshake_backoff p = m_handshake_backoff q"
  "link_view p = link_view q \<Longrightarrow> m_addr_set p = m_addr_set q"
  by (simp_all add: link_view_def)

section \<open>The data plane\<close>

lemma link_view_update [simp, link_frame]:
  "link_view (p\<lparr>m_id := x_m_id\<rparr>) = link_view p"
  "link_view (p\<lparr>m_role := x_m_role\<rparr>) = link_view p"
  "link_view (p\<lparr>m_peer_client_id := x_m_peer_client_id\<rparr>) = link_view p"
  "link_view (p\<lparr>m_peer_session_id := x_m_peer_session_id\<rparr>) = link_view p"
  "link_view (p\<lparr>m_last_recv := x_m_last_recv\<rparr>) = link_view p"
  "link_view (p\<lparr>m_last_heartbeat_sent := x_m_last_heartbeat_sent\<rparr>) = link_view p"
  "link_view (p\<lparr>m_last_handshake_sent := x_m_last_handshake_sent\<rparr>) = link_view p"
  "link_view (p\<lparr>m_last_report_sent := x_m_last_report_sent\<rparr>) = link_view p"
  "link_view (p\<lparr>m_sequence_out := x_m_sequence_out\<rparr>) = link_view p"
  "link_view (p\<lparr>m_msg_id_out := x_m_msg_id_out\<rparr>) = link_view p"
  "link_view (p\<lparr>m_pending := x_m_pending\<rparr>) = link_view p"
  "link_view (p\<lparr>m_incoming := x_m_incoming\<rparr>) = link_view p"
  "link_view (p\<lparr>m_completed := x_m_completed\<rparr>) = link_view p"
  "link_view (p\<lparr>m_missing_seqs := x_m_missing_seqs\<rparr>) = link_view p"
  "link_view (p\<lparr>m_recv_seqs := x_m_recv_seqs\<rparr>) = link_view p"
  "link_view (p\<lparr>m_next_expected_seq := x_m_next_expected_seq\<rparr>) = link_view p"
  "link_view (p\<lparr>m_seq_initialized := x_m_seq_initialized\<rparr>) = link_view p"
  "link_view (p\<lparr>m_sender_rtt_us := x_m_sender_rtt_us\<rparr>) = link_view p"
  "link_view (p\<lparr>m_clock_offset_us := x_m_clock_offset_us\<rparr>) = link_view p"
  "link_view (p\<lparr>m_clock_synced := x_m_clock_synced\<rparr>) = link_view p"
  "link_view (p\<lparr>m_clock_pending := x_m_clock_pending\<rparr>) = link_view p"
  "link_view (p\<lparr>m_hs_tick := x_m_hs_tick\<rparr>) = link_view p"
  "link_view (p\<lparr>m_hs_arrival_ms := x_m_hs_arrival_ms\<rparr>) = link_view p"
  "link_view (p\<lparr>m_transit_samples := x_m_transit_samples\<rparr>) = link_view p"
  "link_view (p\<lparr>m_late_samples := x_m_late_samples\<rparr>) = link_view p"
  "link_view (p\<lparr>m_peer_late_ratio := x_m_peer_late_ratio\<rparr>) = link_view p"
  "link_view (p\<lparr>m_probe_first := x_m_probe_first\<rparr>) = link_view p"
  "link_view (p\<lparr>m_probe_last := x_m_probe_last\<rparr>) = link_view p"
  "link_view (p\<lparr>m_probe_bytes := x_m_probe_bytes\<rparr>) = link_view p"
  "link_view (p\<lparr>m_probe_count := x_m_probe_count\<rparr>) = link_view p"
  "link_view (p\<lparr>m_probe_bw_bps := x_m_probe_bw_bps\<rparr>) = link_view p"
  "link_view (p\<lparr>m_cmd_seq_out := x_m_cmd_seq_out\<rparr>) = link_view p"
  "link_view (p\<lparr>m_cmd_next_expected := x_m_cmd_next_expected\<rparr>) = link_view p"
  "link_view (p\<lparr>m_cmd_initialized := x_m_cmd_initialized\<rparr>) = link_view p"
  "link_view (p\<lparr>m_cmd_held := x_m_cmd_held\<rparr>) = link_view p"
  "link_view (p\<lparr>m_cmd_gap_since := x_m_cmd_gap_since\<rparr>) = link_view p"
  "link_view (p\<lparr>m_crypto_ready := x_m_crypto_ready\<rparr>) = link_view p"
  "link_view (p\<lparr>m_crypto_key := x_m_crypto_key\<rparr>) = link_view p"
  "link_view (p\<lparr>m_drop_log := x_m_drop_log\<rparr>) = link_view p"
  "link_view (p\<lparr>m_retransmit := x_m_retransmit\<rparr>) = link_view p"
  "link_view (p\<lparr>m_peer_retransmit := x_m_peer_retransmit\<rparr>) = link_view p"
  "link_view (p\<lparr>m_oversize_log_ts := x_m_oversize_log_ts\<rparr>) = link_view p"
  by (simp_all add: link_view_def)

lemma fold_frame: "(\<And>x p. f (g x p) = f p) \<Longrightarrow> f (fold g xs p) = f p"
  by (induction xs arbitrary: p) simp_all

lemma view_drain_expected [link_frame]: "link_view (drain_expected p) = link_view p"
  by (simp add: drain_expected_def link_view_def split: prod.split)

lemma view_track_sequence [link_frame]: "link_view (track_sequence now seq p) = link_view p"
proof -
  have "link_view (note_missing now g q) = link_view q" for g q by (simp add: note_missing_def link_view_def)
  then have "link_view (fold (note_missing now) gs q) = link_view q" for gs q by (rule fold_frame)
  moreover have "link_view (q\<lparr>m_recv_seqs := r\<rparr>) = link_view q" "link_view (q\<lparr>m_missing_seqs := m\<rparr>) = link_view q"
    "link_view (q\<lparr>m_next_expected_seq := n, m_seq_initialized := b\<rparr>) = link_view q" for q r m n b
    by (simp_all add: link_view_def)
  ultimately show ?thesis by (simp add: track_sequence_def Let_def view_drain_expected)
qed

lemma view_account_late [link_frame]: "link_view (account_late t r l p) = link_view p"
  by (simp add: account_late_def link_view_def Let_def)

lemma view_build_msg: "build_msg now mx p inm n = (p', msg) \<Longrightarrow> link_view p' = link_view p"
  by (auto simp: build_msg_def log_oversize_drop_def link_view_def Let_def split: if_splits)

lemma view_try_assemble: "try_assemble now mx p inm = Done (p', r) \<Longrightarrow> link_view p' = link_view p"
proof -
  have b: "apsnd Some (build_msg now mx p inm n) = (p', r) \<Longrightarrow> link_view p' = link_view p" for inm n
    by (cases "build_msg now mx p inm n") (auto dest: view_build_msg)
  show "try_assemble now mx p inm = Done (p', r) \<Longrightarrow> link_view p' = link_view p"
    by (auto simp: try_assemble_def assemble_fec_def Let_def dest: b split: if_splits prod.splits)
qed

lemma view_handle_data: "handle_data now um rtt lm mx h pl p = Done (p', msgs) \<Longrightarrow> link_view p' = link_view p"
proof -
  have l: "link_view (log_oversize_drop now q) = link_view q" for q by (simp add: log_oversize_drop_def link_view_def)
  have "collect_fragment now mx h pl q = Done (p', msgs) \<Longrightarrow> link_view p' = link_view q" for q
    by (auto simp: collect_fragment_def Let_def l dest!: view_try_assemble
        split: if_splits prod.splits outcome.splits option.splits)
  then show "handle_data now um rtt lm mx h pl p = Done (p', msgs) \<Longrightarrow> link_view p' = link_view p"
    by (fastforce simp: handle_data_def Let_def link_frame)
qed

lemma view_drain_locked: "drain_locked p = (p', out) \<Longrightarrow> link_view p' = link_view p"
  by (auto simp: drain_locked_def link_view_def split: prod.splits)

lemma view_expire_locked: "expire_locked r now p = (p', out) \<Longrightarrow> link_view p' = link_view p"
proof -
  show "expire_locked r now p = (p', out) \<Longrightarrow> link_view p' = link_view p"
    by (auto simp: expire_locked_def Let_def dest!: view_drain_locked split: if_splits prod.splits)
qed

lemma view_cmd_handle: "cmd_handle now r h pl p = (p', out) \<Longrightarrow> link_view p' = link_view p"
proof -
  show "cmd_handle now r h pl p = (p', out) \<Longrightarrow> link_view p' = link_view p"
    by (auto simp: cmd_handle_def Let_def dest!: view_drain_locked view_expire_locked split: if_splits prod.splits)
qed

lemma view_cmd_reset [link_frame]: "link_view (cmd_reset p) = link_view p"
  by (simp add: cmd_reset_def link_view_def)

lemma view_sync_clock [link_frame]: "link_view (sync_clock tk a s p) = link_view p"
  by (simp add: sync_clock_def link_view_def Let_def)

lemma view_try_sync [link_frame]: "link_view (try_sync_clock s p) = link_view p"
  by (simp add: try_sync_clock_def link_frame)

lemma view_derive_key [link_frame]: "link_view (derive_session_key s pub c p) = link_view p"
  by (simp add: derive_session_key_def link_view_def split: prod.split)

lemma view_finalize [link_frame]: "link_view (finalize_probe_train now p) = link_view p"
  by (simp add: finalize_probe_train_def link_view_def Let_def)

lemma view_probe [link_frame]: "link_view (handle_probe env h p) = link_view p"
proof -
  have "link_view (q\<lparr>m_probe_first := t\<rparr>) = link_view q" for q t by (simp add: link_view_def)
  then have "link_view (if m_probe_count q = 0 then q\<lparr>m_probe_first := t\<rparr> else q) = link_view q" for q t by simp
  moreover have "link_view (q\<lparr>m_probe_last := t, m_probe_count := n, m_probe_bytes := b\<rparr>) = link_view q" for q t n b
    by (simp add: link_view_def)
  ultimately show ?thesis by (simp add: handle_probe_def Let_def link_frame)
qed

lemma view_mark_resent [link_frame]: "link_view (mark_resent now kv p) = link_view p"
  by (simp add: mark_resent_def link_view_def split: option.split)

lemma view_report_handle: "report_handle now pl p = (p', r, bw) \<Longrightarrow> link_view p' = link_view p"
proof -
  have f: "link_view (fold (mark_resent now) kvs q) = link_view q" for kvs q by (rule fold_frame) (rule view_mark_resent)
  have "link_view (q\<lparr>m_peer_late_ratio := x, m_pending := y\<rparr>) = link_view q" for q x y by (simp add: link_view_def)
  then show "report_handle now pl p = (p', r, bw) \<Longrightarrow> link_view p' = link_view p"
    by (auto simp: report_handle_def Let_def f split: option.splits)
qed

lemma view_build_payload: "build_payload now i p = (pl, p') \<Longrightarrow> link_view p' = link_view p"
proof -
  have sg: "link_view (skip_gap g q) = link_view q" for g q
  proof -
    have "link_view (q\<lparr>m_next_expected_seq := n\<rparr>) = link_view q" for n by (simp add: link_view_def)
    then show ?thesis by (simp add: skip_gap_def link_frame)
  qed
  have "link_view (fst (fold (scan_missing now g l) es (q, kept, lost))) = link_view q" for g l es q kept lost
    by (induction es arbitrary: q kept lost) (auto simp: scan_missing_def Let_def sg split: prod.splits)
  moreover have "link_view (snd (finish_report now kept lost q)) = link_view q" for kept lost q
  proof -
    have "link_view (r\<lparr>m_probe_bw_bps := n\<rparr>) = link_view r" "link_view (r\<lparr>m_missing_seqs := ms, m_transit_samples := a, m_late_samples := b\<rparr>) = link_view r"
      for r n ms a b by (simp_all add: link_view_def)
    then show ?thesis by (simp add: finish_report_def Let_def link_frame)
  qed
  ultimately show "build_payload now i p = (pl, p') \<Longrightarrow> link_view p' = link_view p"
    by (auto simp: build_payload_def Let_def split: prod.splits) (metis fst_conv snd_conv)
qed

lemma view_send_control [link_frame]: "link_view (fst (send_control env k ty pl a (p, s))) = link_view p"
  by (simp add: send_control_def link_view_def Let_def)

lemma view_send_handshake [link_frame]: "link_view (fst (send_handshake env k (p, s))) = link_view p"
  using view_send_control [of env k PT_Handshake "handshake_payload s" True "p\<lparr>m_last_handshake_sent := e_now env\<rparr>" s]
  by (simp add: send_handshake_def link_view_def)

lemma view_note_packet [link_frame]: "link_view (note_packet env h p) = link_view p"
  by (simp add: note_packet_def link_view_def Let_def)

section \<open>The link state machine\<close>

text \<open>The specification: the next state of a link on a packet, by the packet's type and whether it is a
  well-formed handshake with the configured token.\<close>

definition link_next :: "bool \<Rightarrow> packet_type \<Rightarrow> link_state \<Rightarrow> link_state" where
  "link_next token_ok ty st =
     (case ty of
        PT_Handshake \<Rightarrow> if token_ok \<and> st \<noteq> LS_Online then LS_Established else st
      | PT_HandshakeAck \<Rightarrow> if st = LS_Closed then LS_Closed else LS_Online
      | PT_Online \<Rightarrow> LS_Online
      | PT_Bye \<Rightarrow> LS_Closed
      | _ \<Rightarrow> st)"

definition token_ok :: "impl \<Rightarrow> bytes \<Rightarrow> bool" where
  "token_ok s payload =
     (case parse_handshake (cfg_encryption_enabled (m_config s)) payload of
        None \<Rightarrow> False | Some hf \<Rightarrow> hf_token hf = cfg_token (m_config s))"

fun fired :: "effect list \<Rightarrow> link_state list" where
  "fired [] = []"
| "fired (FirePeer i r st c # es) = st # fired es"
| "fired (SendTo a d # es) = fired es"
| "fired (FireCommand i b # es) = fired es"
| "fired (Deliver i b # es) = fired es"

lemma fired_append [simp]: "fired (a @ b) = fired a @ fired b"
  by (induction a rule: fired.induct) simp_all

lemma fired_quiet [simp]: "fired (map (Deliver i) ms) = []" "fired (map (FireCommand i) cs) = []"
  by (induction ms; induction cs; simp)+

lemma fired_speed_test [simp]: "fired (send_speed_test env p s) = []"
proof -
  have "fired (map (\<lambda>n. SendTo a (f n)) ns) = []" for a f and ns :: "nat list" by (induction ns) simp_all
  then show ?thesis by (simp add: send_speed_test_def Let_def)
qed

lemma view_accept [link_frame]:
  "link_view (accept_handshake env h hf s p) = link_view p" "link_view (accept_ack env h payload s p) = link_view p"
  by (simp_all add: accept_handshake_def accept_ack_def Let_def link_frame split: option.split)

lemma state_link_frame [simp]:
  "m_state (fst (send_control env k ty pl a (p, s))) = m_state p" "m_state (fst (send_handshake env k (p, s))) = m_state p"
  "m_state (sync_clock tk a' s p) = m_state p" "m_state (try_sync_clock s p) = m_state p"
  "m_state (handle_probe env h p) = m_state p"
  "m_state (accept_handshake env h hf s p) = m_state p" "m_state (accept_ack env h payload s p) = m_state p"
  by (rule link_viewD(1), rule link_frame)+

definition link_ok :: "link_state \<Rightarrow> link_state \<Rightarrow> effect list \<Rightarrow> bool" where
  "link_ok old new eff \<longleftrightarrow> fired eff = (if new = old then [] else [new])"

lemma establish_link:
  "m_state (fst (establish p)) = (if m_state p = LS_Online then LS_Online else LS_Established)"
  "link_ok (m_state p) (m_state (fst (establish p))) (snd (establish p))"
  by (cases "m_state p"; simp add: establish_def link_ok_def fire_peer_event_def Let_def)+

lemma handle_handshake_link:
  "handle_handshake env k h payload p s = (p', s', eff) \<Longrightarrow>
   m_state p' = link_next (token_ok s payload) PT_Handshake (m_state p) \<and> link_ok (m_state p) (m_state p') eff"
proof (cases "parse_handshake (cfg_encryption_enabled (m_config s)) payload")
  case (Some hf)
  assume H: "handle_handshake env k h payload p s = (p', s', eff)"
  define q where "q = (case hf_retransmit hf of Some r \<Rightarrow> p\<lparr>m_peer_retransmit := r\<rparr> | None \<Rightarrow> p)"
  have q: "m_state q = m_state p" by (simp add: q_def split: option.split)
  show ?thesis
  proof (cases "hf_token hf = cfg_token (m_config s)")
    case True
    define q1 where "q1 = accept_handshake env h hf s q"
    define q2 where "q2 = (if \<not> m_reconnect q1 \<and> m_addr_set q1 then send_handshake env k (q1, s) else (q1, s))"
    have s2: "m_state (fst q2) = m_state p" by (simp add: q2_def q1_def q)
    have "handle_handshake env k h payload p s =
      (let r = send_control env k PT_HandshakeAck (handshake_ack_payload (snd q2)) True (fst (establish (fst q2)), snd q2)
       in (fst r, snd r, snd (establish (fst q2))))"
      unfolding handle_handshake_def Some q_def [symmetric] q1_def [symmetric] q2_def [symmetric] option.case Let_def
      using True by (simp add: case_prod_beta q1_def [symmetric] q2_def [symmetric])
    with H have "m_state p' = m_state (fst (establish (fst q2)))" "eff = snd (establish (fst q2))"
      by (auto simp: Let_def)
    then show ?thesis
      using establish_link [of "fst q2"] True Some s2 by (simp add: link_next_def token_ok_def)
  next
    case False
    then show ?thesis using H Some q by (simp add: handle_handshake_def q_def [symmetric] Let_def link_next_def token_ok_def link_ok_def)
  qed
qed (auto simp: handle_handshake_def link_next_def token_ok_def link_ok_def)

lemma handle_handshake_ack_link:
  "handle_handshake_ack env k h payload p s = (p', s', eff) \<Longrightarrow>
   m_state p' = link_next b PT_HandshakeAck (m_state p) \<and> link_ok (m_state p) (m_state p') eff"
  by (cases "m_state p")
    (auto simp: handle_handshake_ack_def link_next_def link_ok_def fire_peer_event_def Let_def case_prod_beta)

lemma data_plane_link:
  "transport_handle_data env h payload p s = Done (p', s', eff) \<Longrightarrow> m_state p' = m_state p \<and> fired eff = []"
  "handle_command env h payload p s = (p', s', eff) \<Longrightarrow> m_state p' = m_state p \<and> fired eff = []"
  "handle_report env k h payload p s = (p', s', eff) \<Longrightarrow> m_state p' = m_state p \<and> fired eff = []"
  "handle_heartbeat env h payload p s = (p', s', eff) \<Longrightarrow> m_state p' = m_state p \<and> fired eff = []"
  "handle_ack env h p s = (p', s', eff) \<Longrightarrow> m_state p' = m_state p \<and> fired eff = []"
proof -
  show "transport_handle_data env h payload p s = Done (p', s', eff) \<Longrightarrow> m_state p' = m_state p \<and> fired eff = []"
    using view_handle_data [THEN link_viewD(1)] by (auto simp: transport_handle_data_def split: outcome.splits)
  show "handle_command env h payload p s = (p', s', eff) \<Longrightarrow> m_state p' = m_state p \<and> fired eff = []"
    using view_cmd_handle [THEN link_viewD(1)] by (auto simp: handle_command_def split: prod.splits)
  show "handle_report env k h payload p s = (p', s', eff) \<Longrightarrow> m_state p' = m_state p \<and> fired eff = []"
    using view_report_handle [of "e_now env" payload p "fst (report_handle (e_now env) payload p)"
        "fst (snd (report_handle (e_now env) payload p))" "snd (snd (report_handle (e_now env) payload p))", THEN link_viewD(1)]
    by (auto simp: handle_report_def Let_def case_prod_beta)
  show "handle_heartbeat env h payload p s = (p', s', eff) \<Longrightarrow> m_state p' = m_state p \<and> fired eff = []"
    by (auto simp: handle_heartbeat_def Let_def)
  show "handle_ack env h p s = (p', s', eff) \<Longrightarrow> m_state p' = m_state p \<and> fired eff = []"
    by (auto simp: handle_ack_def Let_def split: if_splits option.splits)
qed



end
