(* ===== verification/Transport_Engine.thy ===== *)
theory Transport_Engine
  imports Transport_Link
begin

text \<open>
  Properties of the whole engine: pacing by the token bucket, the bounded send queue and its priority
  order, an invariant of every state the engine can reach by any interleaving of its operations, and
  three weaknesses: a queued packet outlives the peer that \<open>connect\<close> replaces, the Online packet is
  accepted from anyone, and the clock offset is off by a whole round trip.
\<close>

section \<open>Pacing\<close>

fun sent_bytes :: "effect list \<Rightarrow> nat" where
  "sent_bytes [] = 0"
| "sent_bytes (SendTo a d # es) = length d + sent_bytes es"
| "sent_bytes (FirePeer i r st c # es) = sent_bytes es"
| "sent_bytes (FireCommand i b # es) = sent_bytes es"
| "sent_bytes (Deliver i b # es) = sent_bytes es"

definition bucket_cap :: "impl \<Rightarrow> real" where "bucket_cap s = real (cfg_mtu (m_config s)) * 4"

definition allowance :: "env \<Rightarrow> impl \<Rightarrow> real" where
  "allowance env s =
     real (bytes_per_second (m_bandwidth s)) * real_of_int (max 0 (count_us (e_now env - m_token_bucket_time s))) / 1000000"

lemma refill_bounds:
  "m_token_bucket (refill_token_bucket env s) \<le> m_token_bucket s + allowance env s"
  "0 \<le> m_token_bucket s \<Longrightarrow> 0 \<le> m_token_bucket (refill_token_bucket env s)"
  "m_token_bucket s \<le> bucket_cap s \<Longrightarrow> m_token_bucket (refill_token_bucket env s) \<le> bucket_cap s"
  by (auto simp: refill_token_bucket_def allowance_def bucket_cap_def Let_def max_def)

lemma refill_frame [simp]:
  "m_config (refill_token_bucket env s) = m_config s" "m_bandwidth (refill_token_bucket env s) = m_bandwidth s"
  "m_peers (refill_token_bucket env s) = m_peers s" "m_send_queue (refill_token_bucket env s) = m_send_queue s"
  "m_outbound_queue (refill_token_bucket env s) = m_outbound_queue s" "m_lite_mode (refill_token_bucket env s) = m_lite_mode s"
  "m_peer_by_addr (refill_token_bucket env s) = m_peer_by_addr s" "m_running (refill_token_bucket env s) = m_running s"
  by (simp_all add: refill_token_bucket_def Let_def)

text \<open>At an instant at which the bucket was refilled a second refill adds nothing.\<close>

definition settled :: "env \<Rightarrow> impl \<Rightarrow> bool" where
  "settled env s \<longleftrightarrow> count_us (e_now env - m_token_bucket_time s) \<le> 0"

lemma settled_refill: "settled env s \<Longrightarrow> refill_token_bucket env s = s"
  by (simp add: settled_def refill_token_bucket_def Let_def)

lemma settled_cong [simp]:
  "settled env (s\<lparr>m_outbound_queue := q\<rparr>) = settled env s" "settled env (s\<lparr>m_lite_pending := x\<rparr>) = settled env s"
  "settled env (s\<lparr>m_token_bucket := b\<rparr>) = settled env s"
  by (simp_all add: settled_def)

lemma settled_after_refill [simp]: "settled env (refill_token_bucket env s)"
  by (simp add: settled_def refill_token_bucket_def Let_def count_us_def trunc_div_def)

lemma pending_cong [simp]:
  "m_token_bucket (refill_token_bucket env (s\<lparr>m_lite_pending := x\<rparr>)) = m_token_bucket (refill_token_bucket env s)"
  "allowance env (s\<lparr>m_lite_pending := x\<rparr>) = allowance env s"
  by (simp_all add: refill_token_bucket_def allowance_def Let_def)

lemma next_packet_frame:
  "next_packet s = Some (pkt, s1) \<Longrightarrow> m_token_bucket s1 = m_token_bucket s \<and> allowance env s1 = allowance env s
   \<and> bucket_cap s1 = bucket_cap s \<and> (settled env s \<longrightarrow> settled env s1)"
  by (auto simp: next_packet_def allowance_def bucket_cap_def split: option.splits prod.splits)

text \<open>At a settled instant every byte sent is paid from the bucket.\<close>

lemma drain_sender_settled:
  "settled env s \<Longrightarrow> 0 \<le> m_token_bucket s \<Longrightarrow> drain_sender n env s = Done (s', eff) \<Longrightarrow>
   0 \<le> m_token_bucket s' \<and> real (sent_bytes eff) + m_token_bucket s' = m_token_bucket s"
proof (induction n arbitrary: s s' eff)
  case (Suc n)
  show ?case
  proof (cases "next_packet s")
    case None
    then show ?thesis using Suc.prems by simp
  next
    case (Some r)
    then obtain k dg s1 where r: "next_packet s = Some ((k, dg), s1)" by (cases r) (metis surj_pair)
    have f: "m_token_bucket s1 = m_token_bucket s" "settled env s1" using next_packet_frame [OF r] Suc.prems(1) by auto
    have rf: "refill_token_bucket env s1 = s1" by (rule settled_refill [OF f(2)])
    obtain p where p: "map_of (m_peers s1) k = Some p"
      using Suc.prems(3) r by (auto split: option.splits)
    show ?thesis
    proof (cases "\<not> m_addr_set p \<or> \<not> m_sock_open s1")
      case True
      then have "drain_sender n env (s1\<lparr>m_lite_pending := None\<rparr>) = Done (s', eff)"
        using Suc.prems(3) r p by simp
      from Suc.IH [OF _ _ this] show ?thesis using f Suc.prems(2) by simp
    next
      case False
      show ?thesis
      proof (cases "m_token_bucket s1 < real (length dg)")
        case True
        then show ?thesis using False Suc.prems(2,3) r p f rf by (auto simp: Let_def)
      next
        case pay: False
        let ?s2 = "s1\<lparr>m_token_bucket := m_token_bucket s1 - real (length dg), m_lite_pending := None\<rparr>"
        obtain eff2 where e: "drain_sender n env ?s2 = Done (s', eff2)" "eff = SendTo (m_addr p) dg # eff2"
          using False pay Suc.prems(3) r p rf by (auto simp: Let_def split: outcome.splits prod.splits)
        from Suc.IH [OF _ _ e(1)] pay show ?thesis using f e(2) by simp
      qed
    qed
  qed
qed auto

lemma drain_sender_first_refill:
  "drain_sender n env s = Done (s', eff) \<Longrightarrow> 0 \<le> m_token_bucket s \<Longrightarrow>
   (eff = [] \<and> m_token_bucket s' \<le> m_token_bucket s + allowance env s \<and> 0 \<le> m_token_bucket s')
   \<or> (0 \<le> m_token_bucket s' \<and> real (sent_bytes eff) + m_token_bucket s' = m_token_bucket (refill_token_bucket env s))"
proof (induction n arbitrary: s s' eff)
  case 0
  then show ?case by (simp add: allowance_def)
next
  case (Suc n)
  have al: "0 \<le> allowance env s" by (simp add: allowance_def)
  show ?case
  proof (cases "next_packet s")
    case None
    then show ?thesis using Suc.prems al by simp
  next
    case (Some r)
    then obtain k dg s1 where r: "next_packet s = Some ((k, dg), s1)" by (cases r) (metis surj_pair)
    note f = next_packet_frame [OF r, of env]
    have rb: "m_token_bucket (refill_token_bucket env s1) = m_token_bucket (refill_token_bucket env s)"
      using r by (auto simp: next_packet_def refill_token_bucket_def Let_def split: option.splits prod.splits)
    obtain p where p: "map_of (m_peers s1) k = Some p"
      using Suc.prems(1) r by (auto split: option.splits)
    show ?thesis
    proof (cases "\<not> m_addr_set p \<or> \<not> m_sock_open s1")
      case True
      then have "drain_sender n env (s1\<lparr>m_lite_pending := None\<rparr>) = Done (s', eff)"
        using Suc.prems(1) r p by simp
      from Suc.IH [OF this] f Suc.prems(2) rb show ?thesis by simp
    next
      case False
      let ?s1 = "refill_token_bucket env s1"
      have nn: "0 \<le> m_token_bucket ?s1" using f Suc.prems(2) refill_bounds(2) by simp
      show ?thesis
      proof (cases "m_token_bucket ?s1 < real (length dg)")
        case True
        then have "eff = []" "s' = ?s1" using False Suc.prems(1) r p by (auto simp: Let_def)
        then show ?thesis using nn rb refill_bounds(1) [of env s] by simp
      next
        case pay: False
        let ?s2 = "?s1\<lparr>m_token_bucket := m_token_bucket ?s1 - real (length dg), m_lite_pending := None\<rparr>"
        obtain eff2 where e: "drain_sender n env ?s2 = Done (s', eff2)" "eff = SendTo (m_addr p) dg # eff2"
          using False pay Suc.prems(1) r p by (auto simp: Let_def split: outcome.splits prod.splits)
        from drain_sender_settled [OF _ _ e(1)] pay show ?thesis using e(2) rb by simp
      qed
    qed
  qed
qed



section \<open>The send queue\<close>

lemma sum_list_om_set:
  fixes f :: "'v \<Rightarrow> nat"
  assumes "om_wf m"
  shows "sum_list (map (\<lambda>kv. f (snd kv)) (om_set k v m))
    + (case map_of m k of Some w \<Rightarrow> f w | None \<Rightarrow> 0) = sum_list (map (\<lambda>kv. f (snd kv)) m) + f v"
  using assms
proof (induction k v m rule: om_set.induct)
  case (2 k v k' v' m)
  have "map_of m k = None" if "k < k'" using 2(2) that by (force simp: map_of_eq_None_iff)
  moreover have "map_of m k = None" if "k = k'" using 2(2) that by (force simp: map_of_eq_None_iff)
  ultimately show ?case using 2 by (auto split: option.splits)
qed simp

lemma queue_total_append: "om_wf q \<Longrightarrow> queue_total (queue_append prio item q) = queue_total q + 1"
  using sum_list_om_set [of q length prio "(case map_of q prio of Some d \<Rightarrow> d | None \<Rightarrow> []) @ [item]"]
  by (auto simp: queue_total_def queue_append_def split: option.splits)

lemma queue_append_wf: "om_wf q \<Longrightarrow> om_wf (queue_append prio item q)"
  by (simp add: queue_append_def)

definition send_queue_ok :: "impl \<Rightarrow> bool" where
  "send_queue_ok s \<longleftrightarrow> om_wf (m_send_queue s) \<and> queue_total (m_send_queue s) \<le> queue_limit s"

lemma requeue_ok: "send_queue_ok s \<Longrightarrow> send_queue_ok (requeue prio item s)"
  by (auto simp: send_queue_ok_def requeue_def queue_total_append queue_append_wf queue_limit_def)

lemma send_item_ok: "send_queue_ok s \<Longrightarrow> send_queue_ok (send_item prio item s)"
proof -
  have e: "send_queue_ok (s\<lparr>m_encode_queue := q\<rparr>) = send_queue_ok s" for s q by (simp add: send_queue_ok_def queue_limit_def)
  show "send_queue_ok s \<Longrightarrow> send_queue_ok (send_item prio item s)"
    by (auto simp: send_item_def e requeue_ok split: option.split prod.split bool.split)
qed

lemma fold_ok: "(\<And>x s. P s \<Longrightarrow> P (f x s)) \<Longrightarrow> P s \<Longrightarrow> P (fold f xs s)"
  by (induction xs arbitrary: s) simp_all

text \<open>The send queue stays within its limit: accepting a message never exceeds it, a full queue, an
  oversized message and a stopped engine refuse the message and change nothing, and a round of the
  dispatcher, which puts back what cannot be sent yet, ends within the limit whatever the queue held.\<close>

theorem send_queue_bounded:
  assumes "send_queue_ok s"
  shows "send_queue_ok (snd (send_message pid payload prio s)) \<and> send_queue_ok (process_send_queue s)
    \<and> (fst (send_message pid payload prio s) \<longleftrightarrow>
         m_running s \<and> length payload \<le> max_message_bytes s \<and> queue_total (m_send_queue s) < queue_limit s)
    \<and> (\<not> fst (send_message pid payload prio s) \<longrightarrow> snd (send_message pid payload prio s) = s)"
proof (intro conjI)
  show "send_queue_ok (snd (send_message pid payload prio s))"
    using assms by (auto simp: send_message_def send_queue_ok_def queue_total_append queue_append_wf queue_limit_def)
  have "send_queue_ok (s\<lparr>m_send_queue := []\<rparr>)" by (simp add: send_queue_ok_def queue_total_def)
  then show "send_queue_ok (process_send_queue s)"
    unfolding process_send_queue_def Let_def
    by (intro fold_ok [where P = send_queue_ok]) (auto intro!: fold_ok [where P = send_queue_ok] send_item_ok split: prod.split)
qed (auto simp: send_message_def not_le)

theorem send_queue_bounded_witness:
  "send_queue_ok (process_send_queue (new_impl \<lparr>e_now = 0, e_unix_ms = 0, e_random = 0\<rparr> 1 1 [] (default_config\<lparr>cfg_encryption_enabled := False\<rparr>)))"
proof -
  have "send_queue_ok (new_impl \<lparr>e_now = 0, e_unix_ms = 0, e_random = 0\<rparr> 1 1 [] (default_config\<lparr>cfg_encryption_enabled := False\<rparr>))"
    by (simp add: send_queue_ok_def new_impl_def Let_def queue_total_def)
  from send_queue_bounded [OF this] show ?thesis by blast
qed

text \<open>What the dispatcher hands to the encoder when every addressed link is up and there is room.\<close>

definition routed :: "impl \<Rightarrow> string \<times> bytes \<Rightarrow> string \<times> bytes" where
  "routed s item = (case find_peer (fst item) s of Some (k, p) \<Rightarrow> (k, snd item) | None \<Rightarrow> item)"

definition sendable :: "impl \<Rightarrow> string \<times> bytes \<Rightarrow> bool" where
  "sendable s item = (case find_peer (fst item) s of Some (k, p) \<Rightarrow> m_state p = LS_Online | None \<Rightarrow> False)"

lemma find_peer_cong [simp]: "find_peer pid (s\<lparr>m_encode_queue := q\<rparr>) = find_peer pid s"
  "find_peer pid (s\<lparr>m_send_queue := sq\<rparr>) = find_peer pid s"
  by (simp_all add: find_peer_def cong: option.case_cong)

lemma send_item_sendable:
  assumes "sendable s item" "\<not> fq_closed (m_encode_queue s)"
    and "fq_capacity (m_encode_queue s) = 0 \<or> length (fq_items (m_encode_queue s)) < fq_capacity (m_encode_queue s)"
  shows "send_item prio item s = s\<lparr>m_encode_queue := (m_encode_queue s)\<lparr>fq_items := fq_items (m_encode_queue s) @ [routed s item]\<rparr>\<rparr>"
  using assms by (auto simp: send_item_def sendable_def routed_def fifo_try_push_def split: option.splits prod.splits)

lemma send_items_sendable:
  assumes "\<forall>i \<in> set items. sendable s (snd i)" "\<not> fq_closed (m_encode_queue s)"
    and "fq_capacity (m_encode_queue s) = 0 \<or> length (fq_items (m_encode_queue s)) + length items \<le> fq_capacity (m_encode_queue s)"
  shows "fold (\<lambda>i s. send_item (fst i) (snd i) s) items s
    = s\<lparr>m_encode_queue := (m_encode_queue s)\<lparr>fq_items := fq_items (m_encode_queue s) @ map (\<lambda>i. routed s (snd i)) items\<rparr>\<rparr>"
  using assms
proof (induction items arbitrary: s)
  case (Cons i items)
  let ?s = "s\<lparr>m_encode_queue := (m_encode_queue s)\<lparr>fq_items := fq_items (m_encode_queue s) @ [routed s (snd i)]\<rparr>\<rparr>"
  have st: "send_item (fst i) (snd i) s = ?s" using Cons.prems by (intro send_item_sendable) auto
  have "fold (\<lambda>i s. send_item (fst i) (snd i) s) items ?s
    = ?s\<lparr>m_encode_queue := (m_encode_queue ?s)\<lparr>fq_items := fq_items (m_encode_queue ?s) @ map (\<lambda>i. routed ?s (snd i)) items\<rparr>\<rparr>"
    using Cons.prems by (intro Cons.IH) (auto simp: sendable_def)
  then show ?case using st by (simp add: routed_def)
qed simp

definition flat_queue :: "send_queue \<Rightarrow> (int \<times> string \<times> bytes) list" where
  "flat_queue q = concat (map (\<lambda>(prio, items). map (Pair prio) items) (rev q))"

lemma length_flat_queue: "length (flat_queue q) = queue_total q"
  by (induction q) (auto simp: flat_queue_def queue_total_def)

lemma flat_queue_sorted: "om_wf q \<Longrightarrow> sorted_wrt (\<ge>) (map fst (flat_queue q))"
proof (induction q)
  case (Cons e q)
  obtain prio items where e: "e = (prio, items)" by force
  have "flat_queue (e # q) = flat_queue q @ map (Pair prio) items" by (simp add: flat_queue_def e)
  moreover have "\<forall>x \<in> set (flat_queue q). prio \<le> fst x" using Cons.prems e by (fastforce simp: flat_queue_def)
  moreover have "sorted_wrt (\<ge>) (map fst (map (Pair prio) items))" by (induction items) auto
  ultimately show ?case using Cons e by (auto simp: sorted_wrt_append)
qed (simp add: flat_queue_def)

text \<open>Messages leave in priority order: when the links they are addressed to are up and the encoder
  has room, one round of the dispatcher empties the send queue into the encode queue, highest priority
  first, in the order of submission within a priority, none lost and none repeated.\<close>

theorem send_queue_priority_order:
  assumes "om_wf (m_send_queue s)" "\<forall>(prio, item) \<in> set (flat_queue (m_send_queue s)). sendable s item"
    and "\<not> fq_closed (m_encode_queue s)"
    and "fq_capacity (m_encode_queue s) = 0 \<or> length (fq_items (m_encode_queue s)) + queue_total (m_send_queue s) \<le> fq_capacity (m_encode_queue s)"
  shows "fq_items (m_encode_queue (process_send_queue s))
      = fq_items (m_encode_queue s) @ map (\<lambda>(prio, item). routed s item) (flat_queue (m_send_queue s))
    \<and> m_send_queue (process_send_queue s) = [] \<and> sorted_wrt (\<ge>) (map fst (flat_queue (m_send_queue s)))"
proof -
  have flat: "fold (\<lambda>(prio, items) s. fold (send_item prio) items s) q = fold (\<lambda>i s. send_item (fst i) (snd i) s) (concat (map (\<lambda>(prio, items). map (Pair prio) items) q))" for q
    by (induction q) (auto simp: fold_map comp_def)
  let ?s = "s\<lparr>m_send_queue := []\<rparr>"
  have "process_send_queue s = fold (\<lambda>i s. send_item (fst i) (snd i) s) (flat_queue (m_send_queue s)) ?s"
    by (simp add: process_send_queue_def flat flat_queue_def)
  also have "\<dots> = ?s\<lparr>m_encode_queue := (m_encode_queue ?s)\<lparr>fq_items := fq_items (m_encode_queue ?s) @ map (\<lambda>i. routed ?s (snd i)) (flat_queue (m_send_queue s))\<rparr>\<rparr>"
    using assms by (intro send_items_sendable) (auto simp: sendable_def length_flat_queue)
  finally show ?thesis using flat_queue_sorted [OF assms(1)] by (simp add: routed_def case_prod_beta)
qed

theorem send_queue_priority_order_witness:
  "let s = (new_impl \<lparr>e_now = 0, e_unix_ms = 0, e_random = 0\<rparr> 1 1 [] (default_config\<lparr>cfg_encryption_enabled := False\<rparr>))
         \<lparr>m_peers := [(''a'', new_peer\<lparr>m_state := LS_Online\<rparr>)], m_send_queue := [(0, [(''a'', [1])]), (5, [(''a'', [2]), (''a'', [3])])]\<rparr>
   in map snd (fq_items (m_encode_queue (process_send_queue s))) = [[2], [3], [1]]"
proof -
  let ?s = "(new_impl \<lparr>e_now = 0, e_unix_ms = 0, e_random = 0\<rparr> 1 1 [] (default_config\<lparr>cfg_encryption_enabled := False\<rparr>))
         \<lparr>m_peers := [(''a'', new_peer\<lparr>m_state := LS_Online\<rparr>)], m_send_queue := [(0, [(''a'', [1])]), (5, [(''a'', [2]), (''a'', [3])])]\<rparr>"
  have q: "m_encode_queue ?s = new_fifo 4096" by (simp add: new_impl_def Let_def default_config_def)
  have "fq_items (m_encode_queue (process_send_queue ?s))
      = fq_items (m_encode_queue ?s) @ map (\<lambda>(prio, item). routed ?s item) (flat_queue (m_send_queue ?s))"
    by (rule conjunct1 [OF send_queue_priority_order])
      (simp_all add: q flat_queue_def sendable_def find_peer_def new_fifo_def queue_total_def)
  then show ?thesis by (simp add: q flat_queue_def routed_def find_peer_def new_fifo_def)
qed

section \<open>Every reachable state\<close>

text \<open>What packet handlers do not touch of the engine.\<close>

definition engine_view :: "impl \<Rightarrow> tight_config \<times> (string, peer) omap \<times> send_queue \<times> real" where
  "engine_view s = (m_config s, m_peers s, m_send_queue s, m_token_bucket s)"

lemma engine_view_update [simp]:
  "engine_view (s\<lparr>m_outbound_queue := a\<rparr>) = engine_view s" "engine_view (s\<lparr>m_bandwidth := b\<rparr>) = engine_view s"
  "engine_view (s\<lparr>m_parities := c\<rparr>) = engine_view s" "engine_view (s\<lparr>m_encode_queue := d\<rparr>) = engine_view s"
  "engine_view (s\<lparr>m_peer_by_addr := e\<rparr>) = engine_view s"
  by (simp_all add: engine_view_def)

lemma engine_view_send [simp]:
  "engine_view (send_raw k p dg s) = engine_view s"
  "engine_view (snd (send_control env k ty pl a (p, s))) = engine_view s"
  "engine_view (snd (send_handshake env k (p, s))) = engine_view s"
  "engine_view (snd (send_ack_packet env k ack (p, s))) = engine_view s"
  "engine_view (feed_rtt_from_tick env tk p s) = engine_view s"
  by (simp_all add: send_raw_def send_control_def send_handshake_def send_ack_packet_def feed_rtt_from_tick_def Let_def)

lemma engine_view_resend [simp]:
  "engine_view (fold (\<lambda>(hd, pl) s. send_raw k p (build_wire_packet s p hd pl) s) xs s) = engine_view s"
  by (induction xs arbitrary: s) (auto split: prod.splits)

definition backoff_ok :: "peer \<Rightarrow> bool" where
  "backoff_ok p \<longleftrightarrow> msec 500 \<le> m_handshake_backoff p \<and> m_handshake_backoff p \<le> msec 5000"

lemma backoff_view: "link_view p = link_view q \<Longrightarrow> backoff_ok p = backoff_ok q"
  using link_viewD(2) [of p q] by (simp add: backoff_ok_def)

lemma backoff_500: "msec 500 \<le> msec 500 \<and> msec 500 \<le> msec 5000"
  by (simp add: msec_def)

lemma handle_handshake_keeps:
  assumes "handle_handshake env k h payload p s = (p', s', eff)" "backoff_ok p"
  shows "backoff_ok p' \<and> engine_view s' = engine_view s"
proof (cases "parse_handshake (cfg_encryption_enabled (m_config s)) payload")
  case (Some hf)
  define q where "q = (case hf_retransmit hf of Some r \<Rightarrow> p\<lparr>m_peer_retransmit := r\<rparr> | None \<Rightarrow> p)"
  have q: "backoff_ok q" using assms(2) by (simp add: q_def backoff_ok_def split: option.split)
  show ?thesis
  proof (cases "hf_token hf = cfg_token (m_config s)")
    case True
    define q1 where "q1 = accept_handshake env h hf s q"
    define q2 where "q2 = (if \<not> m_reconnect q1 \<and> m_addr_set q1 then send_handshake env k (q1, s) else (q1, s))"
    have b1: "backoff_ok q1" using q backoff_view [OF view_accept(1)] by (simp add: q1_def)
    have b2: "backoff_ok (fst q2)" using b1 backoff_view [OF view_send_handshake] by (simp add: q2_def)
    then have b3: "backoff_ok (fst (establish (fst q2)))" by (simp add: establish_def backoff_ok_def Let_def)
    have v2: "engine_view (snd q2) = engine_view s" by (simp add: q2_def)
    let ?r = "send_control env k PT_HandshakeAck (handshake_ack_payload (snd q2)) True (fst (establish (fst q2)), snd q2)"
    have "handle_handshake env k h payload p s = (fst ?r, snd ?r, snd (establish (fst q2)))"
      unfolding handle_handshake_def Some q_def [symmetric] q1_def [symmetric] q2_def [symmetric] option.case Let_def
      using True by (simp add: case_prod_beta q1_def [symmetric] q2_def [symmetric])
    then have "p' = fst ?r" "s' = snd ?r" using assms(1) by auto
    then show ?thesis using b3 v2 backoff_view [OF view_send_control] by simp
  next
    case False
    then show ?thesis using assms Some q by (simp add: handle_handshake_def q_def [symmetric] Let_def)
  qed
qed (use assms in \<open>auto simp: handle_handshake_def\<close>)

lemma handle_ack_keeps:
  assumes "handle_handshake_ack env k h payload p s = (p', s', eff)" "backoff_ok p"
  shows "backoff_ok p' \<and> engine_view s' = engine_view s"
proof -
  have a: "backoff_ok (accept_ack env h payload s p)" using assms(2) backoff_view [OF view_accept(2)] by simp
  show ?thesis
    using assms(1) a backoff_500
    by (auto simp: handle_handshake_ack_def Let_def case_prod_beta backoff_ok_def split: if_splits)
qed

lemma dispatch_keeps:
  assumes "dispatch env k h payload p s = Done (p', s', eff)" "backoff_ok p"
  shows "backoff_ok p' \<and> engine_view s' = engine_view s"
proof (cases "ptype h")
  case PT_Handshake
  then show ?thesis using assms handle_handshake_keeps by (simp add: dispatch_def)
next
  case PT_HandshakeAck
  then show ?thesis using assms handle_ack_keeps by (simp add: dispatch_def)
next
  case PT_Online
  then show ?thesis using assms by (auto simp: dispatch_def handle_online_def backoff_ok_def Let_def split: if_splits)
next
  case PT_Bye
  then show ?thesis using assms by (auto simp: dispatch_def handle_bye_def backoff_ok_def Let_def split: if_splits)
next
  case PT_Heartbeat
  have "backoff_ok (sync_clock tk a s (if b then p\<lparr>m_sender_rtt_us := r\<rparr> else p)) = backoff_ok p" for tk a b r
    by (rule backoff_view) (simp add: link_frame)
  then show ?thesis using assms PT_Heartbeat by (auto simp: dispatch_def handle_heartbeat_def Let_def)
next
  case PT_Data
  then show ?thesis using assms backoff_view [OF view_handle_data]
    by (auto simp: dispatch_def transport_handle_data_def split: outcome.splits)
next
  case PT_Parity
  then show ?thesis using assms backoff_view [OF view_handle_data]
    by (auto simp: dispatch_def transport_handle_data_def split: outcome.splits)
next
  case PT_Ack
  have "backoff_ok (try_sync_clock s (p\<lparr>m_pending := x\<rparr>)) = backoff_ok p" for s x
    by (rule backoff_view) (simp add: link_frame)
  then show ?thesis using assms PT_Ack
    by (auto simp: dispatch_def handle_ack_def Let_def split: if_splits option.splits)
next
  case PT_Report
  let ?r = "report_handle (e_now env) payload p"
  have "backoff_ok (fst ?r) = backoff_ok p"
    using view_report_handle [of "e_now env" payload p "fst ?r" "fst (snd ?r)" "snd (snd ?r)"] by (intro backoff_view) simp
  then show ?thesis using assms PT_Report by (auto simp: dispatch_def handle_report_def Let_def case_prod_beta)
next
  case PT_Probe
  then show ?thesis using assms backoff_view [OF view_probe] by (auto simp: dispatch_def)
next
  case PT_Command
  then show ?thesis using assms backoff_view [OF view_cmd_handle]
    by (auto simp: dispatch_def handle_command_def split: prod.splits)
qed (use assms in \<open>auto simp: dispatch_def\<close>)

text \<open>The engine's invariant: well-formed tables, handshake back-off between half a second and five
  seconds for every peer, and a token bucket between empty and four packets.\<close>

definition engine_ok :: "impl \<Rightarrow> bool" where
  "engine_ok s \<longleftrightarrow> om_wf (m_peers s) \<and> om_wf (m_send_queue s) \<and> (\<forall>kp \<in> set (m_peers s). backoff_ok (snd kp))
     \<and> 0 \<le> m_token_bucket s \<and> m_token_bucket s \<le> bucket_cap s"

lemma engine_ok_view: "engine_view s = engine_view s' \<Longrightarrow> engine_ok s = engine_ok s'"
  by (simp add: engine_ok_def engine_view_def bucket_cap_def)

lemma engine_ok_peer: "engine_ok s \<Longrightarrow> map_of (m_peers s) k = Some p \<Longrightarrow> backoff_ok p"
  by (fastforce simp: engine_ok_def dest: map_of_SomeD)

lemma engine_ok_put: "engine_ok s \<Longrightarrow> backoff_ok p \<Longrightarrow> engine_ok (put_peer k p s)"
  using om_set_subset [of k p "m_peers s"] by (auto simp: engine_ok_def put_peer_def bucket_cap_def)

lemma backoff_new [simp]: "backoff_ok new_peer"
  by (simp add: backoff_ok_def new_peer_def msec_def)

lemma engine_ok_find: "engine_ok s \<Longrightarrow> find_or_create_peer_by_addr env from s = (k, s') \<Longrightarrow> engine_ok s' \<and> map_of (m_peers s') k \<noteq> None"
proof -
  assume ok: "engine_ok s" and f: "find_or_create_peer_by_addr env from s = (k, s')"
  show "engine_ok s' \<and> map_of (m_peers s') k \<noteq> None"
  proof (cases "Option.bind (map_of (m_peer_by_addr s) from) (\<lambda>k. map_option (\<lambda>_. k) (map_of (m_peers s) k))")
    case None
    define p0 where "p0 = (case map_of (m_peers s) k of Some p \<Rightarrow> p | None \<Rightarrow> new_peer)"
    have "backoff_ok p0" using engine_ok_peer [OF ok] by (auto simp: p0_def split: option.split)
    moreover obtain p where "s' = s\<lparr>m_peers := om_set k p (m_peers s), m_peer_by_addr := om_set from k (m_peer_by_addr s)\<rparr>"
      "m_handshake_backoff p = m_handshake_backoff p0"
      using f None by (auto simp: find_or_create_peer_by_addr_def p0_def Let_def)
    ultimately show ?thesis
      using engine_ok_put [OF ok, of p k] ok
      by (auto simp: put_peer_def backoff_ok_def engine_ok_def bucket_cap_def om_set_map_of)
  next
    case (Some k')
    then show ?thesis using f ok by (auto simp: find_or_create_peer_by_addr_def Option.bind_eq_Some_conv)
  qed
qed

lemma engine_ok_handle_packet:
  assumes "engine_ok s" "handle_packet env from h payload s = Done (s', eff)"
  shows "engine_ok s'"
proof -
  obtain k s1 where f: "find_or_create_peer_by_addr env from s = (k, s1)" by force
  note ok1 = engine_ok_find [OF assms(1) f]
  then obtain p where p: "map_of (m_peers s1) k = Some p" by auto
  have b: "backoff_ok (note_packet env h p)"
    using engine_ok_peer [OF conjunct1 [OF ok1] p] backoff_view [OF view_note_packet] by simp
  show ?thesis
  proof (cases "if flags h AND kFlagEncrypted \<noteq> 0 then decrypt_payload (note_packet env h p) h payload else Some (h, payload)")
    case None
    then show ?thesis using assms(2) f p engine_ok_put [OF conjunct1 [OF ok1] b] by (auto simp: handle_packet_def Let_def)
  next
    case (Some hp)
    obtain h1 pl1 where hp: "hp = (h1, pl1)" by force
    obtain p2 s2 e2 where d: "dispatch env k h1 pl1 (note_packet env h p) s1 = Done (p2, s2, e2)"
      using assms(2) f p Some hp by (auto simp: handle_packet_def Let_def split: outcome.splits)
    note D = dispatch_keeps [OF d b]
    let ?r = "if needs_ack (ptype h1) then send_ack_packet env k (sequence h1) (p2, s2) else (p2, s2)"
    have "s' = put_peer k (fst ?r) (snd ?r)"
      using assms(2) f p Some hp d by (auto simp: handle_packet_def Let_def case_prod_beta split: if_splits)
    moreover have "fst ?r = p2" by (simp add: send_ack_packet_def Let_def)
    moreover have "engine_ok (snd ?r)"
      using engine_ok_view [of "snd ?r" s1] D ok1 by simp
    ultimately show ?thesis using engine_ok_put D by simp
  qed
qed

text \<open>The loop over all peers keeps the invariant when its body does.\<close>

definition body_ok :: "(string \<Rightarrow> peer \<Rightarrow> impl \<Rightarrow> handled) \<Rightarrow> bool" where
  "body_ok f \<longleftrightarrow> (\<forall>k p s p' s' e. f k p s = (p', s', e) \<longrightarrow> backoff_ok p \<longrightarrow> backoff_ok p' \<and> engine_view s' = engine_view s)"

lemma engine_ok_for_peers:
  assumes "body_ok f" "engine_ok s"
  shows "engine_ok (fst (for_peers f s))"
proof -
  define g where "g = (\<lambda>k (s, eff). case map_of (m_peers s) k of
       None \<Rightarrow> (s, eff) | Some p \<Rightarrow> (case f k p s of (p, s, e) \<Rightarrow> (put_peer k p s, eff @ e)))"
  have "engine_ok (fst (g k se))" if "engine_ok (fst se)" for k se
  proof -
    obtain t e where se: "se = (t, e)" by force
    show ?thesis
    proof (cases "map_of (m_peers t) k")
      case (Some p)
      obtain p' t' e' where r: "f k p t = (p', t', e')" by (metis prod_cases3)
      have "backoff_ok p" using engine_ok_peer [OF _ Some] that se by simp
      then have "backoff_ok p'" "engine_view t' = engine_view t"
        using assms(1) r unfolding body_ok_def by blast+
      then show ?thesis using that se Some r engine_ok_put engine_ok_view [of t' t] by (simp add: g_def)
    qed (use that se in \<open>simp add: g_def\<close>)
  qed
  then have "engine_ok (fst (fold g ks se))" if "engine_ok (fst se)" for ks se
    using that by (intro fold_ok [where P = "\<lambda>se. engine_ok (fst se)"]) auto
  from this [of "(s, [])" "map fst (m_peers s)"] assms(2) show ?thesis by (simp add: for_peers_def g_def)
qed

lemma reactor_bodies_ok:
  "body_ok (handshake_one env)" "body_ok (heartbeat_one env)" "body_ok (report_one env)"
  "body_ok (offline_one env)" "body_ok (flush_one env)"
proof -
  show "body_ok (handshake_one env)" unfolding body_ok_def
  proof (intro allI impI)
    fix k p s p' s' e
    assume H: "handshake_one env k p s = (p', s', e)" and b: "backoff_ok p"
    define q where "q = p\<lparr>m_pending := filter (\<lambda>kv. ptype (m_header (snd kv)) \<noteq> PT_Handshake) (m_pending p)\<rparr>"
    have bq: "backoff_ok q" "backoff_ok (fst (send_handshake env k (q, s)))"
      using b backoff_view [OF view_send_handshake, of env k q s] by (simp_all add: q_def backoff_ok_def)
    show "backoff_ok p' \<and> engine_view s' = engine_view s"
      using H b bq unfolding handshake_one_def q_def [symmetric]
      by (auto simp: Let_def case_prod_beta backoff_ok_def min_def msec_def split: if_splits)
  qed
  show "body_ok (heartbeat_one env)"
    using backoff_view [OF view_send_control]
    by (auto simp: body_ok_def heartbeat_one_def Let_def case_prod_beta backoff_ok_def split: if_splits)
  show "body_ok (report_one env)"
  proof -
    have "backoff_ok (snd (build_payload now i p)) = backoff_ok p" for now i p
      using view_build_payload [of now i p "fst (build_payload now i p)" "snd (build_payload now i p)"]
      by (intro backoff_view) simp
    then show ?thesis
      by (auto simp: body_ok_def report_one_def Let_def case_prod_beta backoff_ok_def split: if_splits)
  qed
  show "body_ok (offline_one env)"
    using backoff_500 by (auto simp: body_ok_def offline_one_def Let_def backoff_ok_def split: if_splits)
  show "body_ok (flush_one env)"
    using backoff_view [OF view_expire_locked] by (auto simp: body_ok_def flush_one_def flush_expired_def split: prod.splits)
qed

lemma engine_ok_send_item: "engine_ok s \<Longrightarrow> engine_ok (send_item prio item s)"
proof -
  have r: "engine_ok s \<Longrightarrow> engine_ok (requeue prio item s)" for prio s
    by (auto simp: requeue_def engine_ok_def bucket_cap_def queue_append_wf)
  show "engine_ok s \<Longrightarrow> engine_ok (send_item prio item s)"
    using r engine_ok_view [of "s\<lparr>m_encode_queue := q\<rparr>" s for q]
    by (auto simp: send_item_def split: option.split prod.split bool.split)
qed

lemma engine_ok_process: "engine_ok s \<Longrightarrow> engine_ok (process_send_queue s)"
proof -
  assume "engine_ok s"
  then have "engine_ok (s\<lparr>m_send_queue := []\<rparr>)" by (simp add: engine_ok_def bucket_cap_def)
  then show ?thesis unfolding process_send_queue_def Let_def
    by (intro fold_ok [where P = engine_ok]) (auto intro!: fold_ok [where P = engine_ok] engine_ok_send_item split: prod.split)
qed

lemma send_data_keeps:
  "link_view (fst (send_data_packet env k c ps)) = link_view (fst ps)
   \<and> engine_view (snd (send_data_packet env k c ps)) = engine_view (snd ps)"
  by (cases ps) (simp add: send_data_packet_def Let_def link_view_def)

lemma fragment_keeps:
  "link_view (fst (transport_fragment_and_send env k payload (p, s))) = link_view p
   \<and> engine_view (snd (transport_fragment_and_send env k payload (p, s))) = engine_view s"
proof -
  have f: "link_view (fst (fold (send_data_packet env k) cs ps)) = link_view (fst ps)
    \<and> engine_view (snd (fold (send_data_packet env k) cs ps)) = engine_view (snd ps)" for cs ps
    by (induction cs arbitrary: ps) (auto simp: send_data_keeps)
  have g: "link_view (snd (snd (fragment_and_send mtu payload ps p))) = link_view p" for mtu ps
    by (simp add: fragment_and_send_def Let_def case_prod_beta)
  show ?thesis by (simp add: transport_fragment_and_send_def case_prod_beta f g)
qed

lemma engine_ok_drain_encode:
  "engine_ok s \<Longrightarrow> drain_encode n env s = Done s' \<Longrightarrow> engine_ok s'"
proof (induction n arbitrary: s)
  case (Suc n)
  show ?case
  proof (cases "fst (fifo_poll (m_encode_queue s))")
    case None
    then show ?thesis using Suc.prems by (auto split: prod.splits)
  next
    case (Some task)
    let ?s = "s\<lparr>m_encode_queue := snd (fifo_poll (m_encode_queue s))\<rparr>"
    obtain k payload where t: "task = (k, payload)" by force
    have ok: "engine_ok ?s" using Suc.prems(1) engine_ok_view [of ?s s] by simp
    obtain s2 where e: "encode_task env task ?s = Done s2" "drain_encode n env s2 = Done s'"
      using Suc.prems(2) Some by (cases "fifo_poll (m_encode_queue s)") (auto split: outcome.splits)
    then obtain p where p: "map_of (m_peers ?s) k = Some p"
      "s2 = put_peer k (fst (transport_fragment_and_send env k payload (p, ?s))) (snd (transport_fragment_and_send env k payload (p, ?s)))"
      by (auto simp: encode_task_def t case_prod_beta split: option.splits)
    let ?r = "transport_fragment_and_send env k payload (p, ?s)"
    have "backoff_ok (fst ?r)" using engine_ok_peer [OF ok p(1)] backoff_view fragment_keeps by blast
    moreover have "engine_ok (snd ?r)" using ok engine_ok_view fragment_keeps by blast
    ultimately have "engine_ok s2" using p(2) engine_ok_put by simp
    then show ?thesis using Suc.IH e(2) by simp
  qed
qed simp

lemma engine_ok_drain_sender:
  "engine_ok s \<Longrightarrow> drain_sender n env s = Done (s', eff) \<Longrightarrow> engine_ok s'"
proof (induction n arbitrary: s eff)
  case (Suc n)
  show ?case
  proof (cases "next_packet s")
    case None
    then show ?thesis using Suc.prems by simp
  next
    case (Some r)
    then obtain k dg s1 where r: "next_packet s = Some ((k, dg), s1)" by (cases r) (metis surj_pair)
    have ok1: "engine_ok s1"
      using Suc.prems(1) r by (auto simp: next_packet_def engine_ok_def bucket_cap_def split: option.splits prod.splits)
    have ok2: "engine_ok (s1\<lparr>m_lite_pending := None\<rparr>)" using ok1 by (simp add: engine_ok_def bucket_cap_def)
    let ?s1 = "refill_token_bucket env s1"
    have ok3: "engine_ok ?s1" using ok1 refill_bounds(2,3) [where s = s1 and env = env] by (simp add: engine_ok_def bucket_cap_def)
    then have ok4: "engine_ok (?s1\<lparr>m_token_bucket := m_token_bucket ?s1 - real (length dg), m_lite_pending := None\<rparr>)"
      if "\<not> m_token_bucket ?s1 < real (length dg)" using that by (auto simp: engine_ok_def bucket_cap_def)
    show ?thesis
      using Suc.prems(2) r ok2 ok3 ok4 Suc.IH
      by (auto simp: Let_def split: option.splits if_splits outcome.splits prod.splits)
  qed
qed auto

lemma engine_ok_drain_receiver:
  "engine_ok s \<Longrightarrow> drain_receiver n env dgs s = Done (s', eff) \<Longrightarrow> engine_ok s'"
  by (induction n env dgs s arbitrary: s' eff rule: drain_receiver.induct)
    (auto simp: receive_datagram_def dest: engine_ok_handle_packet split: outcome.splits prod.splits if_splits option.splits)

lemma engine_ok_duties: "engine_ok s \<Longrightarrow> engine_ok (fst (reactor_duties env s))"
  unfolding reactor_duties_def Let_def case_prod_beta fst_conv send_handshakes_def send_heartbeats_def send_reports_def
    check_offline_def flush_commands_def
  by (intro engine_ok_process engine_ok_for_peers reactor_bodies_ok)

lemma engine_ok_tick:
  assumes "engine_ok s" "reactor_tick env dgs s = Done (s', eff)"
  shows "engine_ok s'"
proof -
  obtain s5 e where d: "reactor_duties env s = (s5, e)" by force
  then have ok5: "engine_ok s5" using engine_ok_duties [OF assms(1), of env] by simp
  show ?thesis
  proof (cases "m_lite_mode s5")
    case True
    obtain s6 e6 where r: "drain_receiver 64 env dgs s5 = Done (s6, e6)"
      using assms(2) d True by (cases "drain_receiver 64 env dgs s5") (auto simp: reactor_tick_def)
    obtain s7 where e: "drain_encode 16 env s6 = Done s7"
      using assms(2) d True r by (cases "drain_encode 16 env s6") (auto simp: reactor_tick_def)
    obtain e7 where "drain_sender 64 env s7 = Done (s', e7)"
      using assms(2) d True r e by (cases "drain_sender 64 env s7") (auto simp: reactor_tick_def)
    then show ?thesis
      by (rule engine_ok_drain_sender [OF engine_ok_drain_encode [OF engine_ok_drain_receiver [OF ok5 r] e]])
  qed (use assms(2) d ok5 in \<open>simp add: reactor_tick_def\<close>)
qed

lemma engine_ok_refill: "engine_ok s \<Longrightarrow> engine_ok (refill_token_bucket env s)"
  using refill_bounds(2,3) [where s = s and env = env] by (simp add: engine_ok_def bucket_cap_def)

lemma engine_ok_sender_packet:
  assumes "engine_ok s" "sender_packet env ts pkt s = Done (s', eff)"
  shows "engine_ok s'"
proof -
  have w: "engine_ok (await_tokens cost ts s)" if "engine_ok s" for cost s
    using that by (induction cost ts s rule: await_tokens.induct) (auto simp: engine_ok_refill)
  have "engine_ok (t\<lparr>m_token_bucket := m_token_bucket t - c\<rparr>)" if "engine_ok t" "c \<le> m_token_bucket t" "0 \<le> c" for t c
    using that by (simp add: engine_ok_def bucket_cap_def)
  then show ?thesis
    using assms w engine_ok_refill
    by (auto simp: sender_packet_def Let_def split: prod.splits option.splits if_splits)
qed

lemma engine_ok_connect: "engine_ok s \<Longrightarrow> engine_ok (snd (connect env rid addr s))"
proof (cases addr)
  case (Some key)
  assume ok: "engine_ok s"
  define s1 where "s1 = replace_peer rid key s"
  define p0 where "p0 = (case map_of (m_peers s1) rid of Some p \<Rightarrow> p | None \<Rightarrow> new_peer)"
  define q where "q = connecting_peer env rid key s1 p0"
  define r where "r = send_handshake env rid (q, s1\<lparr>m_peer_by_addr := om_set key rid (m_peer_by_addr s1)\<rparr>)"
  have ok1: "engine_ok s1" using ok by (auto simp: s1_def replace_peer_def engine_ok_def bucket_cap_def om_erase_def split: option.split)
  have "backoff_ok p0" using engine_ok_peer [OF ok1] by (auto simp: p0_def split: option.split)
  then have "backoff_ok q" using backoff_500 by (auto simp: q_def connecting_peer_def backoff_ok_def Let_def)
  then have "backoff_ok (fst r)" using backoff_view [OF view_send_handshake] by (simp add: r_def)
  moreover have "engine_ok (snd r)" using ok1 engine_ok_view [of "snd r" s1] by (simp add: r_def)
  ultimately have fin: "engine_ok (put_peer rid (fst r) (snd r))" by (intro engine_ok_put)
  have "connect env rid addr s = (if \<not> m_running s then (False, s) else (True, put_peer rid (fst r) (snd r)))"
    unfolding connect_def Some option.case Let_def s1_def [symmetric] p0_def [symmetric] q_def [symmetric] r_def [symmetric] case_prod_beta ..
  then show ?thesis using ok fin by simp
qed (simp add: connect_def)

text \<open>One step of the engine: any operation of the application, a datagram handled by the receiver, an
  encode task, a paced send, a tick of the reactor. Whole operations interleave in any order.\<close>

inductive engine_step :: "impl \<Rightarrow> impl \<Rightarrow> bool" where
  step_connect: "engine_step s (snd (connect env rid addr s))"
| step_send: "engine_step s (snd (send_message pid payload prio s))"
| step_command: "engine_step s (snd (send_command env pid payload s))"
| step_receive: "receive_datagram env from buf s = Done (s', eff) \<Longrightarrow> engine_step s s'"
| step_encode: "drain_encode 1 env s = Done s' \<Longrightarrow> engine_step s s'"
| step_sender: "drain_sender 1 env s = Done (s', eff) \<Longrightarrow> engine_step s s'"
| step_full_sender: "sender_packet env ts pkt (s\<lparr>m_outbound_queue := q\<rparr>) = Done (s', eff) \<Longrightarrow>
    fifo_poll (m_outbound_queue s) = (Some pkt, q) \<Longrightarrow> engine_step s s'"
| step_tick: "reactor_tick env dgs s = Done (s', eff) \<Longrightarrow> engine_step s s'"
| step_lite: "set_lite_mode lite s = Done (s', eff) \<Longrightarrow> engine_step s s'"
| step_byes: "engine_step s (fst (send_byes s))"
| step_stop: "engine_step s (stop_engine s)"
| step_start: "engine_step s (s\<lparr>m_running := True, m_sock_open := True, m_workers_running := \<not> m_lite_mode s\<rparr>)"

inductive_cases engine_stepE: "engine_step s s'"

lemma engine_ok_step: "engine_step s s' \<Longrightarrow> engine_ok s \<Longrightarrow> engine_ok s'"
proof (induction rule: engine_step.induct)
  case (step_connect s env rid addr)
  then show ?case by (rule engine_ok_connect)
next
  case (step_send s pid payload prio)
  then show ?case by (auto simp: send_message_def engine_ok_def bucket_cap_def queue_append_wf)
next
  case (step_command s env pid payload)
  show ?case
  proof (cases "find_peer pid s")
    case (Some kp)
    obtain k p where kp: "kp = (k, p)" by force
    have "(k, p) \<in> set (m_peers s)"
      using Some kp unfolding find_peer_def
      by (auto simp: find_Some_iff dest: map_of_SomeD split: option.splits) (metis nth_mem)
    then have "backoff_ok p" using step_command by (force simp: engine_ok_def)
    then have q: "backoff_ok (p\<lparr>m_cmd_seq_out := c\<rparr>)" for c by (simp add: backoff_ok_def)
    have "engine_ok (send_raw k r dg s)" for r dg
      using step_command engine_ok_view [OF engine_view_send(1), of k r dg s] by simp
    then have "engine_ok (put_peer k (p\<lparr>m_cmd_seq_out := c\<rparr>) (send_raw k r dg s))" for c r dg
      by (rule engine_ok_put [OF _ q])
    then show ?thesis using step_command Some kp by (simp add: send_command_def Let_def)
  qed (use step_command in \<open>auto simp: send_command_def\<close>)
next
  case (step_receive env src buf s s' eff)
  then show ?case by (auto simp: receive_datagram_def dest: engine_ok_handle_packet split: if_splits option.splits)
next
  case (step_encode env s s')
  then show ?case using engine_ok_drain_encode by blast
next
  case (step_sender env s s' eff)
  then show ?case using engine_ok_drain_sender by blast
next
  case (step_full_sender env ts pkt q s s' eff)
  then show ?case using engine_ok_sender_packet engine_ok_view [of "s\<lparr>m_outbound_queue := q\<rparr>" s] by simp
next
  case (step_tick env dgs s s' eff)
  then show ?case using engine_ok_tick by blast
next
  case (step_lite lite s s' eff)
  have wf: "om_wf (map (\<lambda>(k, p). (k, g p)) m) = om_wf m" for g and m :: "(string, peer) omap"
    by (simp add: om_wf_def comp_def case_prod_beta)
  have "backoff_ok p" if "(k, p) \<in> set (m_peers s)" for k p
    using that step_lite(2) by (force simp: engine_ok_def)
  then have "backoff_ok (p\<lparr>m_drop_log := d\<rparr>)" if "(k, p) \<in> set (m_peers s)" for k p d
    using that by (simp add: backoff_ok_def)
  then show ?case using step_lite
    by (auto simp: set_lite_mode_def Let_def engine_ok_def bucket_cap_def wf split: if_splits option.splits)
next
  case (step_byes s)
  have "body_ok (\<lambda>k p s. if m_state p = LS_Closed \<or> \<not> m_addr_set p then (p, s, [])
      else (p\<lparr>m_state := LS_Closed\<rparr>, s, [SendTo (m_addr p) (encode (base_header s PT_Bye) [])]))"
    by (auto simp: body_ok_def backoff_ok_def split: if_splits)
  then show ?case using step_byes engine_ok_for_peers by (simp add: send_byes_def)
next
  case (step_stop s)
  then show ?case by (simp add: stop_engine_def engine_ok_def bucket_cap_def)
next
  case (step_start s)
  then show ?case by (simp add: engine_ok_def bucket_cap_def)
qed



section \<open>Two weaknesses\<close>

text \<open>\<open>connect\<close> to a new name at an address that already has a peer erases that peer while packets
  queued for it still point to it: sending the next one reads freed memory.\<close>

lemma connect_dangling:
  assumes "m_running s" "map_of (m_peer_by_addr s) key = Some old_id" "old_id \<noteq> rid" "om_wf (m_peers s)"
    and "m_lite_pending (snd (connect env rid (Some key) s)) = Some (old_id, dg)"
  shows "map_of (m_peers (snd (connect env rid (Some key) s))) old_id = None
    \<and> drain_sender (Suc n) env (snd (connect env rid (Some key) s)) = UB"
proof -
  let ?s = "snd (connect env rid (Some key) s)"
  have "map_of (m_peers ?s) old_id = None"
  proof -
    define s1 where "s1 = s\<lparr>m_peers := om_erase old_id (m_peers s), m_peer_by_addr := om_set key rid (m_peer_by_addr s)\<rparr>"
    have r: "replace_peer rid key s = s1" using assms(2,3) by (simp add: replace_peer_def s1_def)
    define r where "r = send_handshake env rid
      (connecting_peer env rid key s1 (case map_of (m_peers s1) rid of Some p \<Rightarrow> p | None \<Rightarrow> new_peer),
       s1\<lparr>m_peer_by_addr := om_set key rid (m_peer_by_addr s1)\<rparr>)"
    have "?s = put_peer rid (fst r) (snd r)"
      using assms(1) unfolding connect_def option.case Let_def \<open>replace_peer rid key s = s1\<close> r_def case_prod_beta by simp
    moreover have "engine_view (snd r) = engine_view s1" by (simp add: r_def)
    then have "m_peers (snd r) = om_erase old_id (m_peers s)" by (simp add: engine_view_def s1_def)
    ultimately show ?thesis using assms(3,4) by (simp add: put_peer_def om_set_map_of om_erase_map_of om_wf_erase)
  qed
  then show ?thesis using assms(5) by (simp add: next_packet_def)
qed

text \<open>An Online packet makes any peer Online, whatever the handshake state and without a token.\<close>

lemma online_without_token:
  "m_state p \<noteq> LS_Online \<Longrightarrow> ptype h = PT_Online \<Longrightarrow>
   dispatch env k h payload p s
     = Done (p\<lparr>m_state := LS_Online\<rparr>, s, fire_peer_event (p\<lparr>m_state := LS_Online\<rparr>) LS_Online # send_speed_test env (p\<lparr>m_state := LS_Online\<rparr>) s)"
  by (simp add: dispatch_def handle_online_def Let_def)

text \<open>The clock offset is taken with the wrong sign of half the round trip: the very packet from which the
  offset was learned appears to have arrived without any delay.\<close>

lemma sint_minus_u32: "(x :: u32) \<noteq> 0x80000000 \<Longrightarrow> sint (- x) = - sint x"
proof -
  assume x: "x \<noteq> 0x80000000"
  have r: "- (2 ^ 31) \<le> sint x" "sint x < 2 ^ 31" using sint_greater_eq [of x] sint_less [of x] by simp_all
  have "sint x \<noteq> - (2 ^ 31)"
  proof
    assume "sint x = - (2 ^ 31)"
    moreover have "of_int (sint x) = x" by (simp add: of_int_sint)
    ultimately have "of_int (- (2 ^ 31)) = x" by (simp only:)
    then show False using x by simp
  qed
  then have "signed_take_bit 31 (- sint x) = - sint x" using r by (intro signed_take_bit_int_eq_self) simp_all
  then show ?thesis by (simp add: sint_word_minus)
qed

lemma sync_clock_biased:
  assumes "tk \<noteq> 0" "0 < bw_rtt (m_bandwidth s)" "\<not> m_clock_synced p" "tk - ucast arrival_ms \<noteq> 0x80000000"
  shows "transit_time_us (sync_clock tk arrival_ms s p) tk arrival_ms = 0"
proof -
  have u: "ucast (arrival_ms AND 0xFFFFFFFF) = (ucast arrival_ms :: u32)"
  proof -
    have "(0xFFFFFFFF :: u64) = mask 32" by (simp add: mask_eq_exp_minus_1)
    then have "arrival_ms AND 0xFFFFFFFF = arrival_ms AND mask 32" by (rule arg_cong)
    then show ?thesis by (simp only:) (auto intro!: bit_word_eqI simp: bit_simps)
  qed
  have "sint (ucast arrival_ms - tk) = - sint (tk - ucast arrival_ms)"
    using sint_minus_u32 [OF assms(4)] by simp
  moreover have "0 \<le> trunc_div (bw_rtt (m_bandwidth s)) 2" using assms(2) by (simp add: trunc_div_pos)
  ultimately show ?thesis using assms(1-3) by (simp add: sync_clock_def transit_time_us_def Let_def u)
qed

end
