(* ===== verification/Routing.thy ===== *)
theory Routing
  imports Prelude "HOL-Library.List_Lexorder" "HOL-Library.Char_ord"
begin

text \<open>
  Service routing of the mesh (\<open>src/routing.cpp\<close>, \<open>include/creek/routing.hpp\<close>).

  \<^item> The endpoint directory: a replicated table, last writer wins on (version, time), with tombstones
    for removals. Each directory operation holds the mutex for its whole body and is one function. The
    lemmas show that the table converges: what a replica shows depends only on the set of updates it
    has seen, and two replicas that exchange snapshots show the same endpoints.
  \<^item> The sticky balancer: session affinity with a time to live, an LRU of idle sessions, sharding by a
    hash and round robin. The lemmas show affinity, the bound of the LRU and the order of eviction.

  A hash map is modelled by its key-ordered table: the code's iteration order is unspecified and no
  statement depends on it. \<open>std::hash\<close> is the argument \<open>hash\<close>, the clock readings are arguments.
\<close>

section \<open>The endpoint directory\<close>

record endpoint =
  endpoint_id :: string
  ep_service :: string
  owner_leaf :: string
  owner_node :: string
  ep_target :: string
  ep_version :: u64
  updated_ms :: u64
  ep_alive :: bool

definition empty_endpoint :: endpoint where
  "empty_endpoint = \<lparr>endpoint_id = [], ep_service = [], owner_leaf = [], owner_node = [], ep_target = [],
     ep_version = 0, updated_ms = 0, ep_alive = False\<rparr>"

record directory_snapshot =
  sn_source_id :: string
  sn_version :: u64
  sn_generated_ms :: u64
  sn_endpoints :: "endpoint list"
  sn_removed :: "endpoint list"

record tombstone =
  ts_version :: u64
  ts_updated_ms :: u64
  ts_removed_ms :: u64

record directory =
  d_endpoints :: "(string, endpoint) omap"
  d_tombstones :: "(string, tombstone) omap"
  d_version :: u64

definition kTombstoneTtlMs :: u64 where "kTombstoneTtlMs = 60000"

definition new_directory :: directory where
  "new_directory = \<lparr>d_endpoints = [], d_tombstones = [], d_version = 0\<rparr>"

definition put_endpoint :: "string \<Rightarrow> endpoint \<Rightarrow> directory \<Rightarrow> directory" where
  "put_endpoint i ep d = d\<lparr>d_endpoints := om_set i ep (d_endpoints d), d_version := d_version d + 1\<rparr>"

definition merge_endpoint :: "endpoint \<Rightarrow> directory \<Rightarrow> bool \<times> directory" where
  "merge_endpoint ep d =
     (if endpoint_id ep = [] then (False, d)
      else if (case map_of (d_tombstones d) (endpoint_id ep) of
                 Some ts \<Rightarrow> ep_version ep \<le> ts_version ts | None \<Rightarrow> False) then (False, d)
      else case map_of (d_endpoints d) (endpoint_id ep) of
             None \<Rightarrow> (True, put_endpoint (endpoint_id ep) ep d)
           | Some existing \<Rightarrow>
               if ep_version existing < ep_version ep then (True, put_endpoint (endpoint_id ep) ep d)
               else if ep_version ep = ep_version existing \<and> updated_ms existing < updated_ms ep
               then (True, put_endpoint (endpoint_id ep) ep d)
               else (False, d))"

definition apply_removal :: "u64 \<Rightarrow> string \<Rightarrow> u64 \<Rightarrow> u64 \<Rightarrow> directory \<Rightarrow> bool \<times> directory" where
  "apply_removal now i ver upd d =
     (if i = [] then (False, d)
      else
        let changed = (case map_of (d_endpoints d) i of Some ep \<Rightarrow> ep_version ep \<le> ver | None \<Rightarrow> False);
            d = (if changed then d\<lparr>d_endpoints := om_erase i (d_endpoints d), d_version := d_version d + 1\<rparr> else d);
            d = (if (case map_of (d_tombstones d) i of None \<Rightarrow> True | Some ts \<Rightarrow> ts_version ts < ver)
                 then d\<lparr>d_tombstones := om_set i \<lparr>ts_version = ver, ts_updated_ms = upd, ts_removed_ms = now\<rparr> (d_tombstones d)\<rparr>
                 else d)
        in (changed, d))"

fun merge_endpoints :: "endpoint list \<Rightarrow> directory \<Rightarrow> bool \<times> directory" where
  "merge_endpoints [] d = (False, d)"
| "merge_endpoints (ep # eps) d =
     (case merge_endpoint ep d of (c, d) \<Rightarrow> case merge_endpoints eps d of (c', d) \<Rightarrow> (c \<or> c', d))"

fun apply_removals :: "u64 \<Rightarrow> endpoint list \<Rightarrow> directory \<Rightarrow> bool \<times> directory" where
  "apply_removals now [] d = (False, d)"
| "apply_removals now (ep # eps) d =
     (case apply_removal now (endpoint_id ep) (ep_version ep) (updated_ms ep) d of
        (c, d) \<Rightarrow> case apply_removals now eps d of (c', d) \<Rightarrow> (c \<or> c', d))"

definition merge_snapshot :: "u64 \<Rightarrow> directory_snapshot \<Rightarrow> directory \<Rightarrow> bool \<times> directory" where
  "merge_snapshot now snap d =
     (case merge_endpoints (sn_endpoints snap) d of
        (c, d) \<Rightarrow> case apply_removals now (sn_removed snap) d of (c', d) \<Rightarrow> (c \<or> c', d))"

definition upsert_local :: "u64 \<Rightarrow> endpoint \<Rightarrow> directory \<Rightarrow> directory" where
  "upsert_local now ep d =
     (if endpoint_id ep = [] then d
      else
        let i = endpoint_id ep;
            d = d\<lparr>d_tombstones := om_erase i (d_tombstones d)\<rparr>;
            ep = (case map_of (d_endpoints d) i of
                    None \<Rightarrow> if ep_version ep = 0 then ep\<lparr>ep_version := 1\<rparr> else ep
                  | Some old \<Rightarrow> ep\<lparr>ep_version := ep_version old + 1\<rparr>);
            ep = (if updated_ms ep = 0 then ep\<lparr>updated_ms := now\<rparr> else ep)
        in put_endpoint i ep d)"

definition remove_local :: "u64 \<Rightarrow> string \<Rightarrow> directory \<Rightarrow> bool \<times> directory" where
  "remove_local now i d =
     (case map_of (d_endpoints d) i of
        None \<Rightarrow> (False, d)
      | Some ep \<Rightarrow>
          (True, d\<lparr>d_endpoints := om_erase i (d_endpoints d),
                  d_tombstones := om_set i \<lparr>ts_version = ep_version ep, ts_updated_ms = updated_ms ep, ts_removed_ms = now\<rparr> (d_tombstones d),
                  d_version := d_version d + 1\<rparr>))"

definition find_endpoint :: "string \<Rightarrow> directory \<Rightarrow> endpoint option" where
  "find_endpoint i d = map_of (d_endpoints d) i"

definition service_endpoints :: "string \<Rightarrow> directory \<Rightarrow> endpoint list" where
  "service_endpoints name d = filter (\<lambda>ep. ep_service ep = name) (map snd (d_endpoints d))"

definition ts_expired :: "u64 \<Rightarrow> tombstone \<Rightarrow> bool" where
  "ts_expired now ts \<longleftrightarrow> kTombstoneTtlMs \<le> now - ts_removed_ms ts"

definition tombstone_shell :: "string \<times> tombstone \<Rightarrow> endpoint" where
  "tombstone_shell kt = empty_endpoint\<lparr>endpoint_id := fst kt, ep_version := ts_version (snd kt), updated_ms := ts_updated_ms (snd kt)\<rparr>"

text \<open>Taking a snapshot also forgets the tombstones that have expired.\<close>

definition snapshot :: "u64 \<Rightarrow> u64 \<Rightarrow> string \<Rightarrow> directory \<Rightarrow> directory_snapshot \<times> directory" where
  "snapshot generated now source d =
     (let live = filter (\<lambda>kt. \<not> ts_expired now (snd kt)) (d_tombstones d)
      in (\<lparr>sn_source_id = source, sn_version = d_version d, sn_generated_ms = generated,
           sn_endpoints = map snd (d_endpoints d), sn_removed = map tombstone_shell live\<rparr>,
          d\<lparr>d_tombstones := live\<rparr>))"

definition tombstones :: "u64 \<Rightarrow> directory \<Rightarrow> endpoint list" where
  "tombstones now d = map tombstone_shell (filter (\<lambda>kt. \<not> ts_expired now (snd kt)) (d_tombstones d))"

definition directory_version :: "directory \<Rightarrow> u64" where "directory_version d = d_version d"

definition directory_size :: "directory \<Rightarrow> nat" where "directory_size d = length (d_endpoints d)"

subsection \<open>What a replica has seen\<close>

text \<open>The updates a replica receives, one at a time: an endpoint or a removal, with the clock at which it
  is applied.\<close>

datatype dir_update = UpMerge endpoint | UpRemove string u64 u64

fun apply_update :: "u64 \<times> dir_update \<Rightarrow> directory \<Rightarrow> directory" where
  "apply_update (now, UpMerge ep) d = snd (merge_endpoint ep d)"
| "apply_update (now, UpRemove i ver upd) d = snd (apply_removal now i ver upd d)"

definition run_updates :: "(u64 \<times> dir_update) list \<Rightarrow> directory \<Rightarrow> directory" where
  "run_updates us d = fold apply_update us d"

definition seen_endpoints :: "dir_update set \<Rightarrow> string \<Rightarrow> endpoint set" where
  "seen_endpoints U i = {ep. UpMerge ep \<in> U \<and> endpoint_id ep = i \<and> i \<noteq> []}"

definition seen_removals :: "dir_update set \<Rightarrow> string \<Rightarrow> u64 set" where
  "seen_removals U i = {v. \<exists>upd. UpRemove i v upd \<in> U \<and> i \<noteq> []}"

definition older_eq :: "endpoint \<Rightarrow> endpoint \<Rightarrow> bool" where
  "older_eq a b \<longleftrightarrow> ep_version a < ep_version b \<or> ep_version a = ep_version b \<and> updated_ms a \<le> updated_ms b"

text \<open>A replica that has seen exactly the updates \<open>U\<close>: for each name the tombstone carries the highest
  removal, and the endpoint shown is the newest one, provided no removal reaches its version.\<close>

definition name_ok :: "endpoint set \<Rightarrow> u64 set \<Rightarrow> tombstone option \<Rightarrow> endpoint option \<Rightarrow> bool" where
  "name_ok E R t e \<longleftrightarrow>
     (case t of None \<Rightarrow> R = {} | Some ts \<Rightarrow> ts_version ts \<in> R \<and> (\<forall>v \<in> R. v \<le> ts_version ts))
     \<and> (case e of None \<Rightarrow> \<forall>ep \<in> E. \<exists>v \<in> R. ep_version ep \<le> v
        | Some ep \<Rightarrow> ep \<in> E \<and> (\<forall>v \<in> R. v < ep_version ep) \<and> (\<forall>ep' \<in> E. older_eq ep' ep))"

definition reflects :: "dir_update set \<Rightarrow> directory \<Rightarrow> bool" where
  "reflects U d \<longleftrightarrow> om_wf (d_endpoints d) \<and> om_wf (d_tombstones d)
     \<and> (\<forall>i. name_ok (seen_endpoints U i) (seen_removals U i) (map_of (d_tombstones d) i) (map_of (d_endpoints d) i))"

definition stamps_unique :: "dir_update set \<Rightarrow> bool" where
  "stamps_unique U \<longleftrightarrow> (\<forall>a b. UpMerge a \<in> U \<and> UpMerge b \<in> U \<and> endpoint_id a = endpoint_id b
      \<and> ep_version a = ep_version b \<and> updated_ms a = updated_ms b \<longrightarrow> a = b)"

lemma seen_insert [simp]:
  "seen_endpoints (insert (UpMerge ep) U) i = (if endpoint_id ep = i \<and> i \<noteq> [] then insert ep (seen_endpoints U i) else seen_endpoints U i)"
  "seen_removals (insert (UpMerge ep) U) i = seen_removals U i"
  "seen_endpoints (insert (UpRemove j v u) U) i = seen_endpoints U i"
  "seen_removals (insert (UpRemove j v u) U) i = (if j = i \<and> i \<noteq> [] then insert v (seen_removals U i) else seen_removals U i)"
  by (auto simp: seen_endpoints_def seen_removals_def)

lemma older_eq_refl [simp]: "older_eq a a" by (simp add: older_eq_def)

lemma older_eq_trans: "older_eq a b \<Longrightarrow> older_eq b c \<Longrightarrow> older_eq a c"
  by (auto simp: older_eq_def)

lemma older_eq_total: "older_eq a b \<or> older_eq b a"
  by (auto simp: older_eq_def)


lemma reflects_new: "reflects {} new_directory"
  by (simp add: reflects_def name_ok_def new_directory_def seen_removals_def seen_endpoints_def)

lemma reflectsD:
  assumes "reflects U d"
  shows "name_ok (seen_endpoints U i) (seen_removals U i) (map_of (d_tombstones d) i) (map_of (d_endpoints d) i)"
  using assms unfolding reflects_def by blast

lemma reflects_wf: "reflects U d \<Longrightarrow> om_wf (d_endpoints d) \<and> om_wf (d_tombstones d)"
  by (simp add: reflects_def)

text \<open>Below the tombstone means below some removal.\<close>

lemma name_blocked:
  assumes "name_ok E R t e"
  shows "(case t of Some ts \<Rightarrow> v \<le> ts_version ts | None \<Rightarrow> False) \<longleftrightarrow> (\<exists>w \<in> R. v \<le> w)"
  using assms by (auto simp: name_ok_def split: option.splits intro: order_trans)

lemma name_ok_merge:
  assumes "name_ok E R t e"
  shows "name_ok (insert ep E) R t
    (if (case t of Some ts \<Rightarrow> ep_version ep \<le> ts_version ts | None \<Rightarrow> False) then e
     else case e of None \<Rightarrow> Some ep
       | Some old \<Rightarrow> if ep_version old < ep_version ep \<or> ep_version ep = ep_version old \<and> updated_ms old < updated_ms ep
           then Some ep else Some old)"
proof (cases "\<exists>w \<in> R. ep_version ep \<le> w")
  case True
  have "older_eq ep ep'" if "e = Some ep'" for ep'
    using assms that True by (fastforce simp: name_ok_def older_eq_def)
  then have "name_ok (insert ep E) R t e"
    using assms True by (cases e) (auto simp: name_ok_def)
  with True show ?thesis using name_blocked [OF assms, of "ep_version ep"] by simp
next
  case False
  then have above: "\<forall>w \<in> R. w < ep_version ep" by auto
  then have put: "name_ok (insert ep E) R t (Some ep)" if "\<forall>ep' \<in> E. older_eq ep' ep"
    using assms that by (simp add: name_ok_def)
  have "name_ok (insert ep E) R t (case e of None \<Rightarrow> Some ep
       | Some old \<Rightarrow> if ep_version old < ep_version ep \<or> ep_version ep = ep_version old \<and> updated_ms old < updated_ms ep
           then Some ep else Some old)"
  proof (cases e)
    case None
    have "older_eq ep' ep" if "ep' \<in> E" for ep'
      using assms None that above by (fastforce simp: name_ok_def older_eq_def)
    then show ?thesis using put None by simp
  next
    case (Some old)
    then have S: "\<forall>ep' \<in> E. older_eq ep' old" using assms by (simp add: name_ok_def)
    show ?thesis
    proof (cases "ep_version old < ep_version ep \<or> ep_version ep = ep_version old \<and> updated_ms old < updated_ms ep")
      case True
      then have "older_eq old ep" by (auto simp: older_eq_def)
      then show ?thesis using put S Some True older_eq_trans by (simp, blast)
    next
      case False
      then have "older_eq ep old" by (auto simp: older_eq_def)
      then show ?thesis using False Some assms by (auto simp: name_ok_def)
    qed
  qed
  with False show ?thesis using name_blocked [OF assms, of "ep_version ep"] by simp
qed

lemma name_ok_removal:
  assumes "name_ok E R t e"
  shows "name_ok E (insert v R)
    (if (case t of None \<Rightarrow> True | Some ts \<Rightarrow> ts_version ts < v) then Some \<lparr>ts_version = v, ts_updated_ms = upd, ts_removed_ms = now\<rparr> else t)
    (if (case e of Some ep \<Rightarrow> ep_version ep \<le> v | None \<Rightarrow> False) then None else e)"
proof -
  have "\<forall>ep \<in> E. \<exists>w \<in> insert v R. ep_version ep \<le> w" if "e = Some ep" "ep_version ep \<le> v" for ep
    using assms that by (fastforce simp: name_ok_def older_eq_def)
  then show ?thesis
    using assms by (cases t; cases e) (auto simp: name_ok_def not_less not_le intro: order_trans less_imp_le)
qed

lemma reflects_update:
  assumes "reflects U d" "om_wf (d_endpoints d')" "om_wf (d_tombstones d')"
    and "\<And>j. j \<noteq> i \<Longrightarrow> seen_endpoints U' j = seen_endpoints U j \<and> seen_removals U' j = seen_removals U j
      \<and> map_of (d_tombstones d') j = map_of (d_tombstones d) j \<and> map_of (d_endpoints d') j = map_of (d_endpoints d) j"
    and "name_ok (seen_endpoints U' i) (seen_removals U' i) (map_of (d_tombstones d') i) (map_of (d_endpoints d') i)"
  shows "reflects U' d'"
proof -
  have "name_ok (seen_endpoints U' j) (seen_removals U' j) (map_of (d_tombstones d') j) (map_of (d_endpoints d') j)" for j
    using assms(4) [of j] assms(5) reflectsD [OF assms(1), of j] by (cases "j = i") simp_all
  then show ?thesis using assms(2,3) by (simp add: reflects_def)
qed

lemma reflects_merge:
  assumes "reflects U d"
  shows "reflects (insert (UpMerge ep) U) (snd (merge_endpoint ep d))"
proof -
  note wf = reflects_wf [OF assms]
  have m: "map_of (d_endpoints (put_endpoint i e d)) = (map_of (d_endpoints d))(i \<mapsto> e)" "d_tombstones (put_endpoint i e d) = d_tombstones d"
    for i e using wf by (simp_all add: put_endpoint_def om_set_map_of)
  have w: "om_wf (d_endpoints (put_endpoint i e d))" for i e using wf by (simp add: put_endpoint_def)
  show ?thesis
  proof (rule reflects_update [OF assms, where i = "endpoint_id ep"])
    show "om_wf (d_endpoints (snd (merge_endpoint ep d)))" "om_wf (d_tombstones (snd (merge_endpoint ep d)))"
      using wf w m by (auto simp: merge_endpoint_def split: option.split)
    show "name_ok (seen_endpoints (insert (UpMerge ep) U) (endpoint_id ep)) (seen_removals (insert (UpMerge ep) U) (endpoint_id ep))
       (map_of (d_tombstones (snd (merge_endpoint ep d))) (endpoint_id ep)) (map_of (d_endpoints (snd (merge_endpoint ep d))) (endpoint_id ep))"
    proof (cases "endpoint_id ep = []")
      case True
      then show ?thesis using reflectsD [OF assms, of "[]"] by (simp add: merge_endpoint_def)
    next
      case False
      then show ?thesis
        using name_ok_merge [OF reflectsD [OF assms, of "endpoint_id ep"], of ep]
        by (auto simp: merge_endpoint_def m split: option.split_asm if_split_asm)
    qed
  qed (auto simp: merge_endpoint_def m split: option.split)
qed

lemma reflects_removal:
  assumes "reflects U d"
  shows "reflects (insert (UpRemove i v upd) U) (snd (apply_removal now i v upd d))"
proof (cases "i = []")
  case True
  have "seen_endpoints (insert (UpRemove i v upd) U) = seen_endpoints U"
    "seen_removals (insert (UpRemove i v upd) U) = seen_removals U" using True by (auto intro!: ext split: if_splits)
  then show ?thesis using assms True by (simp add: apply_removal_def reflects_def)
next
  case nonempty: False
  note wf = reflects_wf [OF assms]
  let ?d = "snd (apply_removal now i v upd d)"
  have ep: "map_of (d_endpoints ?d) = (map_of (d_endpoints d))(i :=
      (if (case map_of (d_endpoints d) i of Some ep \<Rightarrow> ep_version ep \<le> v | None \<Rightarrow> False) then None else map_of (d_endpoints d) i))"
    using nonempty by (simp add: apply_removal_def Let_def om_erase_map_of)
  have ts: "map_of (d_tombstones ?d) = (map_of (d_tombstones d))(i :=
      (if (case map_of (d_tombstones d) i of None \<Rightarrow> True | Some ts \<Rightarrow> ts_version ts < v)
       then Some \<lparr>ts_version = v, ts_updated_ms = upd, ts_removed_ms = now\<rparr> else map_of (d_tombstones d) i))"
    using nonempty wf by (simp add: apply_removal_def Let_def om_set_map_of)
  show ?thesis
  proof (rule reflects_update [OF assms, where i = i])
    show "om_wf (d_endpoints ?d)" "om_wf (d_tombstones ?d)"
      using wf nonempty by (auto simp: apply_removal_def Let_def)
    show "name_ok (seen_endpoints (insert (UpRemove i v upd) U) i) (seen_removals (insert (UpRemove i v upd) U) i)
        (map_of (d_tombstones ?d) i) (map_of (d_endpoints ?d) i)"
      using name_ok_removal [OF reflectsD [OF assms, of i], of v upd now] nonempty unfolding ep ts by simp
  qed (auto simp: ep ts)
qed

lemma reflects_run:
  "reflects U d \<Longrightarrow> reflects (U \<union> snd ` set us) (run_updates us d)"
proof (induction us arbitrary: U d)
  case (Cons u us)
  obtain now op where u: "u = (now, op)" by force
  have "reflects (insert op U) (apply_update u d)"
    using Cons.prems reflects_merge reflects_removal by (cases op) (auto simp: u)
  from Cons.IH [OF this] show ?case by (simp add: run_updates_def u)
qed (simp add: run_updates_def)

text \<open>The endpoints shown are determined by the updates seen.\<close>

lemma reflects_unique:
  assumes "reflects U d" "reflects U d'" "stamps_unique U"
  shows "d_endpoints d = d_endpoints d'"
proof -
  have "map_of (d_endpoints d) i = map_of (d_endpoints d') i" for i
  proof -
    note E = reflectsD [OF assms(1), of i] reflectsD [OF assms(2), of i]
    have "e = e'" if "map_of (d_endpoints d) i = Some e" "map_of (d_endpoints d') i = Some e'" for e e'
    proof -
      have "older_eq e e'" "older_eq e' e" "e \<in> seen_endpoints U i" "e' \<in> seen_endpoints U i"
        using E that by (auto simp: name_ok_def)
      then show ?thesis using assms(3) by (auto simp: older_eq_def stamps_unique_def seen_endpoints_def)
    qed
    then show ?thesis using E
      by (cases "map_of (d_endpoints d) i"; cases "map_of (d_endpoints d') i") (force simp: name_ok_def)+
  qed
  then show ?thesis using om_map_of_inj reflects_wf assms(1,2) by blast
qed

text \<open>Replicas of the directory converge whatever the network does: two replicas that have received
  the same set of endpoint updates and removals show exactly the same endpoints, however the updates were
  ordered, repeated and interleaved and at whatever times they were applied, provided two different
  updates of one endpoint never carry the same version and time.\<close>

theorem directory_converges:
  assumes "snd ` set us = snd ` set us'" "stamps_unique (snd ` set us)"
  shows "d_endpoints (run_updates us new_directory) = d_endpoints (run_updates us' new_directory)"
proof (rule reflects_unique [OF _ _ assms(2)])
  show "reflects (snd ` set us) (run_updates us new_directory)" using reflects_run [OF reflects_new, of us] by simp
  show "reflects (snd ` set us) (run_updates us' new_directory)" using reflects_run [OF reflects_new, of us'] assms(1) by simp
qed

theorem directory_converges_witness:
  "let a = empty_endpoint\<lparr>endpoint_id := ''x'', ep_version := 1\<rparr>; b = a\<lparr>ep_version := 2\<rparr>; r = UpRemove ''x'' 1 0
   in d_endpoints (run_updates [(5, UpMerge a), (6, UpMerge b), (7, r)] new_directory)
        = d_endpoints (run_updates [(1, r), (1, UpMerge b), (2, UpMerge a), (9, r)] new_directory)"
  unfolding Let_def
proof (rule directory_converges)
  let ?a = "empty_endpoint\<lparr>endpoint_id := ''x'', ep_version := 1\<rparr>"
  let ?U = "{UpMerge ?a, UpMerge (?a\<lparr>ep_version := 2\<rparr>), UpRemove ''x'' 1 0}"
  show "snd ` set [(5, UpMerge ?a), (6, UpMerge (?a\<lparr>ep_version := 2\<rparr>)), (7, UpRemove ''x'' 1 0)]
    = snd ` set [(1, UpRemove ''x'' 1 0), (1, UpMerge (?a\<lparr>ep_version := 2\<rparr>)), (2, UpMerge ?a), (9, UpRemove ''x'' 1 0)]"
    by auto
  have "stamps_unique ?U" by (auto simp: stamps_unique_def)
  then show "stamps_unique (snd ` set [(5, UpMerge ?a), (6, UpMerge (?a\<lparr>ep_version := 2\<rparr>)), (7, UpRemove ''x'' 1 0)])" by simp
qed

subsection \<open>Exchanging snapshots\<close>

text \<open>The invariant of a directory: entries under their own non-empty name, none at or below its
  tombstone.\<close>

definition dir_ok :: "directory \<Rightarrow> bool" where
  "dir_ok d \<longleftrightarrow> om_wf (d_endpoints d) \<and> om_wf (d_tombstones d)
     \<and> (\<forall>i e. map_of (d_endpoints d) i = Some e \<longrightarrow> endpoint_id e = i \<and> i \<noteq> []
          \<and> (\<forall>t. map_of (d_tombstones d) i = Some t \<longrightarrow> ts_version t < ep_version e))
     \<and> map_of (d_tombstones d) [] = None"

text \<open>A directory as the set of updates that describes it.\<close>

definition updates_of :: "directory \<Rightarrow> dir_update set" where
  "updates_of d = (\<lambda>kv. UpMerge (snd kv)) ` set (d_endpoints d)
     \<union> (\<lambda>kt. UpRemove (fst kt) (ts_version (snd kt)) (ts_updated_ms (snd kt))) ` set (d_tombstones d)"

lemma reflects_dir_ok: "reflects U d \<Longrightarrow> dir_ok d"
  unfolding dir_ok_def
proof (intro conjI allI impI)
  assume r: "reflects U d"
  then show "om_wf (d_endpoints d)" "om_wf (d_tombstones d)" by (auto simp: reflects_wf)
  show "endpoint_id e = i" "i \<noteq> []" if "map_of (d_endpoints d) i = Some e" for i e
    using reflectsD [OF r, of i] that by (auto simp: name_ok_def seen_endpoints_def)
  show "ts_version t < ep_version e" if "map_of (d_endpoints d) i = Some e" "map_of (d_tombstones d) i = Some t" for i e t
    using reflectsD [OF r, of i] that by (auto simp: name_ok_def)
  show "map_of (d_tombstones d) [] = None"
    using reflectsD [OF r, of "[]"] by (auto simp: name_ok_def seen_removals_def split: option.splits)
qed

lemma dir_okD:
  assumes "dir_ok d"
  shows "om_wf (d_endpoints d)" "om_wf (d_tombstones d)" "map_of (d_tombstones d) [] = None"
    and "map_of (d_endpoints d) i = Some e \<Longrightarrow> endpoint_id e = i \<and> i \<noteq> []"
    and "map_of (d_endpoints d) i = Some e \<Longrightarrow> map_of (d_tombstones d) i = Some t \<Longrightarrow> ts_version t < ep_version e"
  using assms unfolding dir_ok_def by blast+

lemma dir_okI:
  assumes "om_wf (d_endpoints d)" "om_wf (d_tombstones d)" "map_of (d_tombstones d) [] = None"
    and "\<And>i e. map_of (d_endpoints d) i = Some e \<Longrightarrow> endpoint_id e = i \<and> i \<noteq> []"
    and "\<And>i e t. map_of (d_endpoints d) i = Some e \<Longrightarrow> map_of (d_tombstones d) i = Some t \<Longrightarrow> ts_version t < ep_version e"
  shows "dir_ok d"
  using assms unfolding dir_ok_def by blast

lemma om_mem_iff: "om_wf m \<Longrightarrow> (k, v) \<in> set m \<longleftrightarrow> map_of m k = Some v"
  by (simp add: om_wf_distinct)

lemma dir_ok_reflects:
  assumes "dir_ok d"
  shows "reflects (updates_of d) d"
proof -
  note ok = dir_okD [OF assms]
  have u: "UpMerge e \<in> updates_of d \<longleftrightarrow> (\<exists>k. map_of (d_endpoints d) k = Some e)" for e
    unfolding om_mem_iff [OF ok(1), symmetric] updates_of_def by force
  have E: "seen_endpoints (updates_of d) i = {e. map_of (d_endpoints d) i = Some e}" for i
  proof (intro set_eqI iffI)
    fix e assume "e \<in> seen_endpoints (updates_of d) i"
    then obtain k where k: "map_of (d_endpoints d) k = Some e" "endpoint_id e = i" by (auto simp: seen_endpoints_def u)
    then have "k = i" using ok(4) [OF k(1)] by simp
    then show "e \<in> {e. map_of (d_endpoints d) i = Some e}" using k(1) by simp
  next
    fix e assume "e \<in> {e. map_of (d_endpoints d) i = Some e}"
    then have e: "map_of (d_endpoints d) i = Some e" by simp
    show "e \<in> seen_endpoints (updates_of d) i" using ok(4) [OF e] e unfolding seen_endpoints_def u by blast
  qed
  have "v \<in> seen_removals (updates_of d) i \<longleftrightarrow> (\<exists>t. map_of (d_tombstones d) i = Some t \<and> v = ts_version t) \<and> i \<noteq> []" for v i
  proof -
    have "UpRemove i v upd \<in> updates_of d \<longleftrightarrow> (\<exists>t. (i, t) \<in> set (d_tombstones d) \<and> v = ts_version t \<and> upd = ts_updated_ms t)" for upd
      unfolding updates_of_def by force
    then show ?thesis unfolding om_mem_iff [OF ok(2), symmetric] seen_removals_def by auto
  qed
  then have R: "seen_removals (updates_of d) i = {v. \<exists>t. map_of (d_tombstones d) i = Some t \<and> v = ts_version t}" for i
    using ok(3) by (cases "i = []") (auto simp: set_eq_iff)
  have "name_ok {e. map_of (d_endpoints d) i = Some e} {v. \<exists>t. map_of (d_tombstones d) i = Some t \<and> v = ts_version t}
      (map_of (d_tombstones d) i) (map_of (d_endpoints d) i)" for i
    using ok(5) [of i] by (cases "map_of (d_tombstones d) i"; cases "map_of (d_endpoints d) i") (simp_all add: name_ok_def)
  then show ?thesis using ok(1,2) by (simp add: reflects_def E R)
qed

definition snapshot_updates :: "u64 \<Rightarrow> directory_snapshot \<Rightarrow> (u64 \<times> dir_update) list" where
  "snapshot_updates now snap = map (\<lambda>ep. (now, UpMerge ep)) (sn_endpoints snap)
     @ map (\<lambda>ep. (now, UpRemove (endpoint_id ep) (ep_version ep) (updated_ms ep))) (sn_removed snap)"

lemma merge_snapshot_updates: "snd (merge_snapshot now snap d) = run_updates (snapshot_updates now snap) d"
proof -
  have "snd (merge_endpoints eps d) = run_updates (map (\<lambda>ep. (now, UpMerge ep)) eps) d" for eps d
    by (induction eps arbitrary: d) (simp_all add: run_updates_def case_prod_beta)
  moreover have "snd (apply_removals now eps d)
      = run_updates (map (\<lambda>ep. (now, UpRemove (endpoint_id ep) (ep_version ep) (updated_ms ep))) eps) d" for eps d
    by (induction eps arbitrary: d) (simp_all add: run_updates_def case_prod_beta)
  ultimately show ?thesis
    by (simp add: merge_snapshot_def snapshot_updates_def run_updates_def case_prod_beta)
qed

text \<open>Every operation of the directory as a step.\<close>

inductive dir_step :: "directory \<Rightarrow> directory \<Rightarrow> bool" where
  step_merge: "dir_step d (snd (merge_endpoint ep d))"
| step_removal: "dir_step d (snd (apply_removal now i v upd d))"
| step_snapshot_in: "dir_step d (snd (merge_snapshot now snap d))"
| step_upsert: "dir_step d (upsert_local now ep d)"
| step_remove: "dir_step d (snd (remove_local now i d))"
| step_snapshot_out: "dir_step d (snd (snapshot gen now src d))"

lemma dir_ok_upsert: "dir_ok d \<Longrightarrow> dir_ok (upsert_local now ep d)"
  by (auto simp: dir_ok_def upsert_local_def Let_def put_endpoint_def om_set_map_of om_erase_map_of split: option.split)

lemma dir_ok_remove:
  assumes "dir_ok d"
  shows "dir_ok (snd (remove_local now i d))"
proof (cases "map_of (d_endpoints d) i")
  case (Some ep)
  then have "i \<noteq> []" using assms by (auto simp: dir_ok_def)
  then show ?thesis using assms Some by (auto simp: dir_ok_def remove_local_def om_set_map_of om_erase_map_of)
qed (use assms in \<open>simp add: remove_local_def\<close>)

lemma dir_ok_snapshot:
  assumes "dir_ok d"
  shows "dir_ok (snd (snapshot gen now src d))"
proof -
  let ?ts = "filter (\<lambda>kt. \<not> ts_expired now (snd kt)) (d_tombstones d)"
  note wf = dir_okD(2) [OF assms]
  have sub: "map_of ?ts i = Some t \<Longrightarrow> map_of (d_tombstones d) i = Some t" for i t
    using om_wf_distinct [OF wf] by (auto simp: map_of_eq_Some_iff distinct_map_filter)
  have "map_of ?ts [] = None" using sub [of "[]"] dir_okD(3) [OF assms] by (cases "map_of ?ts []") auto
  then show ?thesis
    using dir_okD [OF assms] sub by (intro dir_okI) (auto simp: snapshot_def Let_def)
qed

lemma dir_ok_step: "dir_step d d' \<Longrightarrow> dir_ok d \<Longrightarrow> dir_ok d'"
proof (induction rule: dir_step.induct)
  case (step_merge d ep)
  then show ?case using reflects_dir_ok reflects_merge dir_ok_reflects by blast
next
  case (step_removal d now i v upd)
  then show ?case using reflects_dir_ok reflects_removal dir_ok_reflects by blast
next
  case (step_snapshot_in d now snap)
  then show ?case using reflects_dir_ok reflects_run dir_ok_reflects unfolding merge_snapshot_updates by blast
qed (auto intro: dir_ok_upsert dir_ok_remove dir_ok_snapshot)

lemma dir_ok_reachable: "dir_step\<^sup>*\<^sup>* new_directory d \<Longrightarrow> dir_ok d"
  by (induction rule: rtranclp_induct) (auto intro: dir_ok_step reflects_dir_ok [OF reflects_new])

text \<open>A snapshot taken while no tombstone has expired carries the whole directory.\<close>

lemma snapshot_carries:
  assumes "\<forall>kt \<in> set (d_tombstones d). \<not> ts_expired now (snd kt)"
  shows "snd (snapshot gen now src d) = d"
    and "snd ` set (snapshot_updates t (fst (snapshot gen now src d))) = updates_of d"
proof -
  have f: "filter (\<lambda>kt. \<not> ts_expired now (snd kt)) (d_tombstones d) = d_tombstones d" using assms by (simp add: filter_id_conv)
  then show "snd (snapshot gen now src d) = d" by (simp add: snapshot_def)
  show "snd ` set (snapshot_updates t (fst (snapshot gen now src d))) = updates_of d"
    using f by (simp add: snapshot_def snapshot_updates_def updates_of_def tombstone_shell_def image_Un image_comp comp_def)
qed

text \<open>C5. Two nodes that exchange snapshots agree: whatever local registrations, removals and merges led
  to the two directories, after each has merged the other's snapshot both show the same endpoints, as
  long as no tombstone has expired at the time of the snapshots and no two different entries of one
  endpoint carry the same version and time.\<close>

theorem directory_sync:
  assumes "dir_step\<^sup>*\<^sup>* new_directory a" "dir_step\<^sup>*\<^sup>* new_directory b"
    and "\<forall>kt \<in> set (d_tombstones a). \<not> ts_expired na (snd kt)" "\<forall>kt \<in> set (d_tombstones b). \<not> ts_expired nb (snd kt)"
    and "\<forall>i e f. find_endpoint i a = Some e \<and> find_endpoint i b = Some f
           \<and> ep_version e = ep_version f \<and> updated_ms e = updated_ms f \<longrightarrow> e = f"
  shows "d_endpoints (snd (merge_snapshot ta (fst (snapshot gb nb idb b)) (snd (snapshot ga na ida a))))
       = d_endpoints (snd (merge_snapshot tb (fst (snapshot ga na ida a)) (snd (snapshot gb nb idb b))))"
proof -
  let ?U = "updates_of a \<union> updates_of b"
  have oka: "dir_ok a" and okb: "dir_ok b" using assms(1,2) dir_ok_reachable by auto
  have "reflects ?U (snd (merge_snapshot ta (fst (snapshot gb nb idb b)) (snd (snapshot ga na ida a))))"
    using reflects_run [OF dir_ok_reflects [OF oka]] snapshot_carries [OF assms(3)] snapshot_carries [OF assms(4)]
    unfolding merge_snapshot_updates by metis
  moreover have "reflects ?U (snd (merge_snapshot tb (fst (snapshot ga na ida a)) (snd (snapshot gb nb idb b))))"
    using reflects_run [OF dir_ok_reflects [OF okb]] snapshot_carries [OF assms(3)] snapshot_carries [OF assms(4)]
    unfolding merge_snapshot_updates by (metis Un_commute)
  moreover have "stamps_unique ?U"
  proof -
    have key: "find_endpoint (endpoint_id e) d = Some e" if ok: "dir_ok d" and u: "UpMerge e \<in> updates_of d" for d e
    proof -
      obtain k where "(k, e) \<in> set (d_endpoints d)" using u by (auto simp: updates_of_def)
      then show ?thesis using ok om_wf_distinct [of "d_endpoints d"] unfolding find_endpoint_def by (metis dir_ok_def map_of_is_SomeI)
    qed
    have "e = f" if "UpMerge e \<in> ?U" "UpMerge f \<in> ?U" "endpoint_id e = endpoint_id f" "ep_version e = ep_version f" "updated_ms e = updated_ms f" for e f
    proof -
      have "find_endpoint (endpoint_id e) a = Some e \<or> find_endpoint (endpoint_id e) b = Some e"
        "find_endpoint (endpoint_id e) a = Some f \<or> find_endpoint (endpoint_id e) b = Some f"
        using that(1-3) key [OF oka] key [OF okb] by (metis Un_iff)+
      then show ?thesis using assms(5) that(4,5) by (metis option.inject)
    qed
    then show ?thesis unfolding stamps_unique_def by blast
  qed
  ultimately show ?thesis by (rule reflects_unique)
qed

theorem directory_sync_witness:
  "let x = empty_endpoint\<lparr>endpoint_id := ''x'', ep_version := 3, updated_ms := 7\<rparr>;
       a = upsert_local 0 x new_directory; b = new_directory
   in d_endpoints (snd (merge_snapshot 9 (fst (snapshot 8 8 ''b'' b)) (snd (snapshot 8 8 ''a'' a))))
      = d_endpoints (snd (merge_snapshot 9 (fst (snapshot 8 8 ''a'' a)) (snd (snapshot 8 8 ''b'' b))))"
  unfolding Let_def
proof (rule directory_sync)
  let ?x = "empty_endpoint\<lparr>endpoint_id := ''x'', ep_version := 3, updated_ms := 7\<rparr>"
  show "dir_step\<^sup>*\<^sup>* new_directory (upsert_local 0 ?x new_directory)" by (rule r_into_rtranclp) (rule step_upsert)
  show "dir_step\<^sup>*\<^sup>* new_directory new_directory" by (rule rtranclp.rtrancl_refl)
qed (simp_all add: upsert_local_def new_directory_def put_endpoint_def om_erase_def Let_def find_endpoint_def)

text \<open>An owner that removes an endpoint and registers it again starts at version 1, below the tombstone
  it has sent out: its peers refuse the new registration until their tombstone expires.\<close>

lemma reregister_refused:
  assumes "find_endpoint i d = Some old" "1 \<le> ep_version old" "dir_ok d" "endpoint_id ep = i" "ep_version ep = 0" "dir_ok p"
    and "find_endpoint i (upsert_local now ep (snd (remove_local now i d))) = Some new_ep"
  shows "merge_endpoint new_ep (snd (apply_removal t i (ep_version old) upd p)) = (False, snd (apply_removal t i (ep_version old) upd p))"
proof -
  have i: "i \<noteq> []" using assms(1,3) by (auto simp: dir_ok_def find_endpoint_def)
  have wf: "om_wf (d_endpoints d)" "om_wf (d_tombstones p)" using assms(3,6) by (auto simp: dir_ok_def)
  have n: "endpoint_id new_ep = i" "ep_version new_ep = 1"
    using assms(1,4,5,7) i wf
    by (auto simp: find_endpoint_def remove_local_def upsert_local_def Let_def put_endpoint_def om_set_map_of om_erase_map_of split: if_splits)
  have "\<exists>ts. map_of (d_tombstones (snd (apply_removal t i (ep_version old) upd p))) i = Some ts \<and> ep_version old \<le> ts_version ts"
    using i wf by (auto simp: apply_removal_def Let_def om_set_map_of split: option.splits)
  then show ?thesis using n assms(2) i by (auto simp: merge_endpoint_def)
qed

section \<open>The sticky balancer\<close>

record balancer_entry =
  be_endpoint_id :: string
  be_last_used :: timepoint
  be_lru_since :: timepoint
  be_lru :: bool

record balancer =
  b_entries :: "(string, balancer_entry) omap"
  b_capacity :: nat
  b_ttl :: duration
  b_round_robin :: u64

definition new_balancer :: "nat \<Rightarrow> duration \<Rightarrow> balancer" where
  "new_balancer lru_capacity ttl = \<lparr>b_entries = [], b_capacity = lru_capacity, b_ttl = ttl, b_round_robin = 0\<rparr>"

type_synonym metadata = "(string, string) omap"

definition is_sticky_value :: "string \<Rightarrow> bool" where
  "is_sticky_value v \<longleftrightarrow> v = ''true'' \<or> v = ''1''"

definition metadata_sticky :: "metadata \<Rightarrow> bool" where
  "metadata_sticky md = (case map_of md ''sticky'' of None \<Rightarrow> False | Some v \<Rightarrow> is_sticky_value v)"

definition metadata_sid :: "metadata \<Rightarrow> string option" where
  "metadata_sid md = (case map_of md ''sid'' of None \<Rightarrow> None | Some v \<Rightarrow> if v = [] then None else Some v)"

definition metadata_shard_key :: "metadata \<Rightarrow> string option" where
  "metadata_shard_key md =
     (case map_of md ''shard_key'' of
        Some (c # v) \<Rightarrow> Some (c # v)
      | _ \<Rightarrow> (case map_of md ''tenant_id'' of Some (c # v) \<Rightarrow> Some (c # v) | _ \<Rightarrow> None))"

fun find_live_endpoint :: "endpoint list \<Rightarrow> string \<Rightarrow> endpoint option" where
  "find_live_endpoint [] i = None"
| "find_live_endpoint (ep # eps) i =
     (if endpoint_id ep = i then (if ep_alive ep then Some ep else None) else find_live_endpoint eps i)"

text \<open>The first loop of \<open>pick\<close>: sessions idle for the time to live move to the LRU.\<close>

definition age_entry :: "timepoint \<Rightarrow> duration \<Rightarrow> balancer_entry \<Rightarrow> balancer_entry" where
  "age_entry now ttl e = (if \<not> be_lru e \<and> ttl \<le> now - be_last_used e then e\<lparr>be_lru := True, be_lru_since := now\<rparr> else e)"

definition age_entries :: "timepoint \<Rightarrow> duration \<Rightarrow> (string, balancer_entry) omap \<Rightarrow> (string, balancer_entry) omap" where
  "age_entries now ttl es = map (\<lambda>ke. (fst ke, age_entry now ttl (snd ke))) es"

text \<open>The second loop: count the LRU and find its oldest entry, erase it while the LRU is over its
  capacity.\<close>

fun lru_scan :: "(string \<times> balancer_entry) list \<Rightarrow> nat \<Rightarrow> (string \<times> balancer_entry) option \<Rightarrow> nat \<times> (string \<times> balancer_entry) option" where
  "lru_scan [] n oldest = (n, oldest)"
| "lru_scan ((k, e) # es) n oldest =
     (if be_lru e
      then lru_scan es (n + 1) (case oldest of
             None \<Rightarrow> Some (k, e)
           | Some (k', e') \<Rightarrow> if be_lru_since e < be_lru_since e' then Some (k, e) else oldest)
      else lru_scan es n oldest)"

lemma lru_scan_oldest:
  "lru_scan es n oldest = (m, r) \<Longrightarrow>
   m = n + length (filter (\<lambda>ke. be_lru (snd ke)) es)
   \<and> (r = None \<longleftrightarrow> oldest = None \<and> filter (\<lambda>ke. be_lru (snd ke)) es = [])
   \<and> (\<forall>ke. r = Some ke \<longrightarrow> (oldest = Some ke \<or> ke \<in> set es \<and> be_lru (snd ke))
        \<and> (\<forall>ke' \<in> set es. be_lru (snd ke') \<longrightarrow> be_lru_since (snd ke) \<le> be_lru_since (snd ke'))
        \<and> (\<forall>ke'. oldest = Some ke' \<longrightarrow> be_lru_since (snd ke) \<le> be_lru_since (snd ke')))"
proof (induction es n oldest arbitrary: m r rule: lru_scan.induct)
  case (2 k e es n oldest)
  show ?case
  proof (cases "be_lru e")
    case True
    from 2(1) [OF True, of m r] 2(3) True show ?thesis by (auto split: option.splits if_splits)
  next
    case False
    from 2(2) [OF False, of m r] 2(3) False show ?thesis by auto
  qed
qed auto

lemma lru_scan_member: "lru_scan es 0 None = (m, Some (k, e)) \<Longrightarrow> (k, e) \<in> set es \<and> be_lru e"
  using lru_scan_oldest [of es 0 None m "Some (k, e)"] by auto

lemma lru_scan_erase: "lru_scan es 0 None = (m, Some (k, e)) \<Longrightarrow> length (om_erase k es) < length es"
  using lru_scan_member unfolding om_erase_def by (intro length_filter_less [where x = "(k, e)"]) auto

function evict :: "nat \<Rightarrow> (string, balancer_entry) omap \<Rightarrow> (string, balancer_entry) omap" where
  "evict cap es =
     (case lru_scan es 0 None of
        (n, oldest) \<Rightarrow> if n \<le> cap then es
          else (case oldest of None \<Rightarrow> es | Some (k, e) \<Rightarrow> evict cap (om_erase k es)))"
  by pat_completeness auto
termination by (relation "measure (\<lambda>(cap, es). length es)") (auto intro: lru_scan_erase [OF sym])

definition do_pick :: "endpoint list \<Rightarrow> balancer \<Rightarrow> endpoint \<times> balancer" where
  "do_pick eps b = (eps ! (unat (b_round_robin b) mod length eps), b\<lparr>b_round_robin := b_round_robin b + 1\<rparr>)"

definition session_key :: "string \<Rightarrow> string \<Rightarrow> string" where
  "session_key service sid = service @ CHR ''|'' # sid"

definition pick_sticky :: "string \<Rightarrow> endpoint list \<Rightarrow> timepoint \<Rightarrow> balancer \<Rightarrow> endpoint \<times> balancer" where
  "pick_sticky key eps now b =
     (let stored = map_of (b_entries b) key;
          live = (case stored of None \<Rightarrow> None
                  | Some e \<Rightarrow> if \<not> be_lru e then find_live_endpoint eps (be_endpoint_id e) else None)
      in case (stored, live) of
           (Some e, Some ep) \<Rightarrow> (ep, b\<lparr>b_entries := om_set key (e\<lparr>be_last_used := now\<rparr>) (b_entries b)\<rparr>)
         | _ \<Rightarrow>
             (case do_pick eps b of
                (ep, b) \<Rightarrow> (ep, b\<lparr>b_entries := om_set key
                   \<lparr>be_endpoint_id = endpoint_id ep, be_last_used = now, be_lru_since = 0, be_lru = False\<rparr> (b_entries b)\<rparr>)))"

definition pick :: "(string \<Rightarrow> nat) \<Rightarrow> string \<Rightarrow> metadata \<Rightarrow> endpoint list \<Rightarrow> timepoint \<Rightarrow> balancer \<Rightarrow> endpoint option \<times> balancer" where
  "pick hash service md eps now b =
     (if eps = [] then (None, b)
      else
        let b = b\<lparr>b_entries := evict (b_capacity b) (age_entries now (b_ttl b) (b_entries b))\<rparr>
        in case metadata_shard_key md of
             Some shard \<Rightarrow> (Some (eps ! (hash shard mod length eps)), b)
           | None \<Rightarrow>
               (case (metadata_sticky md, metadata_sid md) of
                  (True, Some sid) \<Rightarrow> (case pick_sticky (session_key service sid) eps now b of (ep, b) \<Rightarrow> (Some ep, b))
                | _ \<Rightarrow> (case do_pick eps b of (ep, b) \<Rightarrow> (Some ep, b))))"

definition invalidate :: "string \<Rightarrow> balancer \<Rightarrow> balancer" where
  "invalidate i b = b\<lparr>b_entries := filter (\<lambda>ke. be_endpoint_id (snd ke) \<noteq> i) (b_entries b)\<rparr>"

definition active_size :: "balancer \<Rightarrow> nat" where
  "active_size b = length (filter (\<lambda>ke. \<not> be_lru (snd ke)) (b_entries b))"

definition lru_size :: "balancer \<Rightarrow> nat" where
  "lru_size b = length (filter (\<lambda>ke. be_lru (snd ke)) (b_entries b))"

definition set_ttl :: "duration \<Rightarrow> balancer \<Rightarrow> balancer" where
  "set_ttl ttl b = b\<lparr>b_ttl := ttl, b_entries := []\<rparr>"

text \<open>Eviction: the LRU ends within its capacity, active sessions are never evicted, and what is evicted
  has been idle for at least as long as what stays.\<close>

declare evict.simps [simp del]

lemma evict_induct [case_names stop drop]:
  assumes "\<And>es. evict cap es = es \<Longrightarrow> length (filter (\<lambda>ke. be_lru (snd ke)) es) \<le> cap \<Longrightarrow> P es"
    and "\<And>es k e. (k, e) \<in> set es \<Longrightarrow> be_lru e \<Longrightarrow> \<forall>ke' \<in> set es. be_lru (snd ke') \<longrightarrow> be_lru_since e \<le> be_lru_since (snd ke') \<Longrightarrow>
      evict cap es = evict cap (om_erase k es) \<Longrightarrow> P (om_erase k es) \<Longrightarrow> P es"
  shows "P es"
proof (induction es rule: measure_induct_rule [where f = length])
  case (less es)
  obtain n r where s: "lru_scan es 0 None = (n, r)" by force
  note S = lru_scan_oldest [OF s]
  show ?case
  proof (cases "n \<le> cap")
    case True
    then show ?thesis using S s by (intro assms(1)) (simp_all add: evict.simps [of cap es])
  next
    case False
    then obtain k e where r: "r = Some (k, e)" using S by (cases r) auto
    have "evict cap es = evict cap (om_erase k es)" using s r False by (simp add: evict.simps [of cap es])
    moreover have "\<forall>ke' \<in> set es. be_lru (snd ke') \<longrightarrow> be_lru_since e \<le> be_lru_since (snd ke')" using S r by simp
    ultimately show ?thesis
      using lru_scan_member [OF s [unfolded r]] less.IH [OF lru_scan_erase [OF s [unfolded r]]] assms(2) by blast
  qed
qed

lemma evict_bound: "length (filter (\<lambda>ke. be_lru (snd ke)) (evict cap es)) \<le> cap"
  by (induction es rule: evict_induct [of cap]) simp_all

lemma evict_sub: "set (evict cap es) \<subseteq> set es" and evict_wf: "om_wf es \<Longrightarrow> om_wf (evict cap es)"
  by (induction es rule: evict_induct [of cap]) (auto simp: om_erase_def)

lemma evict_active:
  "om_wf es \<Longrightarrow> map_of es k = Some e \<Longrightarrow> \<not> be_lru e \<Longrightarrow> map_of (evict cap es) k = Some e"
proof (induction es rule: evict_induct [of cap])
  case (drop es k' e')
  then have "k' \<noteq> k" using om_mem_iff by fastforce
  then show ?case using drop by (simp add: om_erase_map_of om_wf_erase)
qed simp

lemma evict_oldest_first:
  "om_wf es \<Longrightarrow> ke \<in> set es \<Longrightarrow> ke \<notin> set (evict cap es) \<Longrightarrow> ke' \<in> set (evict cap es) \<Longrightarrow> be_lru (snd ke') \<Longrightarrow>
   be_lru (snd ke) \<and> be_lru_since (snd ke) \<le> be_lru_since (snd ke')"
proof (induction es rule: evict_induct [of cap])
  case (drop es k e)
  show ?case
  proof (cases "fst ke = k")
    case True
    then have "ke = (k, e)" using drop(1,6,7) by (cases ke) (simp add: om_mem_iff)
    moreover have "ke' \<in> set es" using drop(4,9) evict_sub [of cap "om_erase k es"] by (auto simp: om_erase_def)
    ultimately show ?thesis using drop(2,3,10) by simp
  next
    case False
    then show ?thesis using drop by (simp add: om_erase_def om_wf_erase case_prod_beta)
  qed
qed simp

lemma om_wf_map_snd: "om_wf (map (\<lambda>ke. (fst ke, f (snd ke))) m) = om_wf m"
  by (simp add: om_wf_def comp_def)

lemma map_of_map_snd: "map_of (map (\<lambda>ke. (fst ke, f (snd ke))) m) k = map_option f (map_of m k)"
  by (induction m) auto

lemma pick_sticky_entries:
  "\<exists>e. b_entries (snd (pick_sticky key eps now c)) = om_set key e (b_entries c) \<and> \<not> be_lru e"
proof (cases "\<exists>e ep. map_of (b_entries c) key = Some e \<and> \<not> be_lru e \<and> find_live_endpoint eps (be_endpoint_id e) = Some ep")
  case True
  then obtain e ep where e: "map_of (b_entries c) key = Some e" "\<not> be_lru e" "find_live_endpoint eps (be_endpoint_id e) = Some ep" by blast
  then show ?thesis by (intro exI [of _ "e\<lparr>be_last_used := now\<rparr>"]) (simp add: pick_sticky_def Let_def)
next
  case False
  then have "b_entries (snd (pick_sticky key eps now c))
      = om_set key \<lparr>be_endpoint_id = endpoint_id (fst (do_pick eps c)), be_last_used = now, be_lru_since = 0, be_lru = False\<rparr> (b_entries c)"
    by (auto simp: pick_sticky_def Let_def do_pick_def split: option.split)
  then show ?thesis by fastforce
qed

lemma lru_size_pick:
  assumes "om_wf (b_entries b)" "eps \<noteq> []"
  shows "lru_size (snd (pick hash svc md eps now b)) \<le> b_capacity b"
proof -
  have bound: "length (filter (\<lambda>ke. be_lru (snd ke)) (om_set k e es)) \<le> length (filter (\<lambda>ke. be_lru (snd ke)) es)"
    if "\<not> be_lru e" for k e and es :: "(string, balancer_entry) omap"
    using that by (induction k e es rule: om_set.induct) auto
  let ?es = "evict (b_capacity b) (age_entries now (b_ttl b) (b_entries b))"
  note B = evict_bound [of "b_capacity b" "age_entries now (b_ttl b) (b_entries b)"]
  have "length (filter (\<lambda>ke. be_lru (snd ke)) (om_set k e ?es)) \<le> b_capacity b" if "\<not> be_lru e" for k e
    using bound [OF that] B by (rule order_trans)
  then have "length (filter (\<lambda>ke. be_lru (snd ke)) (b_entries (snd (pick_sticky key eps now (b\<lparr>b_entries := ?es\<rparr>))))) \<le> b_capacity b" for key
    using pick_sticky_entries [of key eps now "b\<lparr>b_entries := ?es\<rparr>"] by auto
  moreover have "b_entries (snd (do_pick eps (b\<lparr>b_entries := ?es\<rparr>))) = ?es" by (simp add: do_pick_def)
  ultimately show ?thesis
    using assms(2) B by (simp add: pick_def lru_size_def Let_def case_prod_beta split: option.split bool.split)
qed

subsection \<open>Affinity\<close>

definition held :: "string \<Rightarrow> string \<Rightarrow> timepoint \<Rightarrow> balancer \<Rightarrow> bool" where
  "held key i t b \<longleftrightarrow> om_wf (b_entries b)
     \<and> (\<exists>e. map_of (b_entries b) key = Some e \<and> \<not> be_lru e \<and> be_endpoint_id e = i \<and> be_last_used e = t)"

lemma find_live_id: "find_live_endpoint eps i = Some ep \<Longrightarrow> endpoint_id ep = i \<and> ep_alive ep \<and> ep \<in> set eps"
  by (induction eps) (auto split: if_splits)

lemma aged_wf: "om_wf es \<Longrightarrow> om_wf (evict cap (age_entries now ttl es))"
  by (intro evict_wf) (simp add: age_entries_def om_wf_map_snd)

lemma held_aged:
  assumes "held key i t b" "now - t < b_ttl b"
  shows "held key i t (b\<lparr>b_entries := evict (b_capacity b) (age_entries now (b_ttl b) (b_entries b))\<rparr>)"
proof -
  obtain e where e: "map_of (b_entries b) key = Some e" "\<not> be_lru e" "be_endpoint_id e = i" "be_last_used e = t"
    and wf: "om_wf (b_entries b)" using assms(1) by (auto simp: held_def)
  have "age_entry now (b_ttl b) e = e" using e(2,4) assms(2) by (simp add: age_entry_def)
  then have "map_of (age_entries now (b_ttl b) (b_entries b)) key = Some e"
    using e(1) by (simp add: age_entries_def map_of_map_snd)
  moreover have "om_wf (age_entries now (b_ttl b) (b_entries b))" using wf by (simp add: age_entries_def om_wf_map_snd)
  ultimately have "map_of (evict (b_capacity b) (age_entries now (b_ttl b) (b_entries b))) key = Some e"
    using evict_active e(2) by blast
  then show ?thesis using e wf aged_wf by (simp add: held_def)
qed

lemma sticky_holds:
  assumes "om_wf (b_entries b)" "pick_sticky key eps now b = (ep, b')"
  shows "held key (endpoint_id ep) now b' \<and> b_ttl b' = b_ttl b"
  using assms find_live_id
  by (auto simp: pick_sticky_def held_def do_pick_def Let_def om_set_map_of split: option.splits if_splits)

lemma sticky_other:
  assumes "held key i t b" "key' \<noteq> key" "pick_sticky key' eps now b = (ep, b')"
  shows "held key i t b' \<and> b_ttl b' = b_ttl b"
  using assms by (auto simp: pick_sticky_def held_def do_pick_def Let_def om_set_map_of split: option.splits if_splits)

lemma do_pick_held: "do_pick eps b = (ep, b') \<Longrightarrow> held key i t b' = held key i t b \<and> b_ttl b' = b_ttl b"
  by (auto simp: do_pick_def held_def)

text \<open>What happens between two picks of a session: other picks and removals of endpoints.\<close>

datatype balancer_op = BPick string metadata "endpoint list" timepoint | BInvalidate string

fun balancer_apply :: "(string \<Rightarrow> nat) \<Rightarrow> balancer_op \<Rightarrow> balancer \<Rightarrow> balancer" where
  "balancer_apply hash (BPick svc md eps now) b = snd (pick hash svc md eps now b)"
| "balancer_apply hash (BInvalidate i) b = invalidate i b"

fun unrelated :: "string \<Rightarrow> string \<Rightarrow> timepoint \<Rightarrow> balancer_op \<Rightarrow> bool" where
  "unrelated key i until (BPick svc md eps now) =
     (now < until \<and> (case metadata_sid md of Some sid \<Rightarrow> session_key svc sid \<noteq> key | None \<Rightarrow> True))"
| "unrelated key i until (BInvalidate j) = (j \<noteq> i)"

lemma held_op:
  assumes "held key i t b" "unrelated key i (t + b_ttl b) op"
  shows "held key i t (balancer_apply hash op b) \<and> b_ttl (balancer_apply hash op b) = b_ttl b"
proof (cases op)
  case (BInvalidate j)
  obtain e where e: "map_of (b_entries b) key = Some e" "\<not> be_lru e" "be_endpoint_id e = i" "be_last_used e = t" and wf: "om_wf (b_entries b)"
    using assms(1) by (auto simp: held_def)
  have "map_of (filter (\<lambda>ke. be_endpoint_id (snd ke) \<noteq> j) (b_entries b)) key = Some e"
    using om_mem_iff [OF wf, of key e] om_mem_iff [OF om_wf_filter [OF wf], of key e] e(1,3) assms(2) BInvalidate by simp
  then show ?thesis using e wf BInvalidate by (simp add: held_def invalidate_def om_wf_filter)
next
  case (BPick svc md eps now)
  let ?b = "b\<lparr>b_entries := evict (b_capacity b) (age_entries now (b_ttl b) (b_entries b))\<rparr>"
  have h: "held key i t ?b" using held_aged [OF assms(1)] assms(2) BPick by simp
  have "held key i t (snd (do_pick eps ?b)) \<and> b_ttl (snd (do_pick eps ?b)) = b_ttl b"
    using do_pick_held [of eps ?b "fst (do_pick eps ?b)" "snd (do_pick eps ?b)"] h by simp
  moreover have "held key i t (snd (pick_sticky (session_key svc sid) eps now ?b)) \<and> b_ttl (snd (pick_sticky (session_key svc sid) eps now ?b)) = b_ttl b"
    if "metadata_sid md = Some sid" for sid
    using sticky_other [OF h, of "session_key svc sid" eps now "fst (pick_sticky (session_key svc sid) eps now ?b)" "snd (pick_sticky (session_key svc sid) eps now ?b)"]
      assms(2) BPick that by simp
  ultimately show ?thesis
    using h assms BPick by (auto simp: pick_def Let_def case_prod_beta split: option.split bool.split)
qed

lemma held_ops:
  "held key i t b \<Longrightarrow> \<forall>op \<in> set ops. unrelated key i (t + b_ttl b) op \<Longrightarrow>
   held key i t (fold (balancer_apply hash) ops b) \<and> b_ttl (fold (balancer_apply hash) ops b) = b_ttl b"
proof (induction ops arbitrary: b)
  case (Cons op ops)
  note h = held_op [of key i t b op hash]
  show ?case using Cons h by simp
qed simp

text \<open>C31. A session stays where it is: once a sticky session has been given an endpoint, then whatever
  other sessions, shards and unrelated removals the balancer serves in between, and however full the LRU
  is, a pick for the same session within the time to live returns the same endpoint as long as it is
  offered alive.\<close>

theorem sticky_affinity:
  assumes "metadata_sticky md" "metadata_sid md = Some sid" "metadata_shard_key md = None" "om_wf (b_entries b)"
    and "pick hash svc md eps t1 b = (Some ep, b1)"
    and "\<forall>op \<in> set ops. unrelated (session_key svc sid) (endpoint_id ep) (t1 + b_ttl b) op"
    and "t2 < t1 + b_ttl b" "find_live_endpoint eps2 (endpoint_id ep) = Some ep2"
  shows "fst (pick hash svc md eps2 t2 (fold (balancer_apply hash) ops b1)) = Some ep2 \<and> endpoint_id ep2 = endpoint_id ep"
proof -
  let ?key = "session_key svc sid" and ?age = "\<lambda>now b. b\<lparr>b_entries := evict (b_capacity b) (age_entries now (b_ttl b) (b_entries b))\<rparr>"
  have p: "pick hash svc md es t c = (if es = [] then (None, c) else apfst Some (pick_sticky ?key es t (?age t c)))" for es t c
    using assms(1-3) by (simp add: pick_def Let_def case_prod_beta apfst_def map_prod_def)
  have ne: "eps \<noteq> []" "eps2 \<noteq> []" using assms(5,8) by (auto simp: pick_def)
  then have "pick_sticky ?key eps t1 (?age t1 b) = (ep, b1)"
    using assms(5) by (cases "pick_sticky ?key eps t1 (?age t1 b)") (simp add: p)
  from sticky_holds [OF _ this] have h: "held ?key (endpoint_id ep) t1 b1" "b_ttl b1 = b_ttl b"
    using aged_wf [OF assms(4)] by simp_all
  let ?b = "fold (balancer_apply hash) ops b1"
  have "held ?key (endpoint_id ep) t1 (?age t2 ?b)"
    using held_ops [OF h(1), of ops hash] assms(6,7) h(2) by (intro held_aged) simp_all
  then obtain e where e: "map_of (b_entries (?age t2 ?b)) ?key = Some e" "\<not> be_lru e" "be_endpoint_id e = endpoint_id ep"
    unfolding held_def by blast
  have "fst (pick_sticky ?key eps2 t2 c) = ep2" if "map_of (b_entries c) ?key = Some e" for c
    using that e(2,3) assms(8) by (simp add: pick_sticky_def Let_def)
  then have "fst (pick_sticky ?key eps2 t2 (?age t2 ?b)) = ep2" using e(1) by blast
  then show ?thesis using ne(2) find_live_id [OF assms(8)] unfolding p by simp
qed

theorem sticky_affinity_witness:
  "let ep = empty_endpoint\<lparr>endpoint_id := ''e1'', ep_alive := True\<rparr>; other = ep\<lparr>endpoint_id := ''e2''\<rparr>;
       md = [(''sid'', ''s''), (''sticky'', ''1'')]; b = new_balancer 0 (sec 60);
       b1 = snd (pick length ''svc'' md [ep, other] 0 b)
   in fst (pick length ''svc'' md [other, ep] (sec 30) (fold (balancer_apply length) [BPick ''svc'' [] [other] (sec 10), BInvalidate ''e2''] b1)) = Some ep"
proof -
  let ?ep = "empty_endpoint\<lparr>endpoint_id := ''e1'', ep_alive := True\<rparr>"
  let ?other = "?ep\<lparr>endpoint_id := ''e2''\<rparr>" and ?md = "[(''sid'', ''s''), (''sticky'', ''1'')]" and ?b = "new_balancer 0 (sec 60)"
  have ev: "evict 0 [] = []" by (subst evict.simps) simp
  have p: "pick length ''svc'' ?md [?ep, ?other] 0 ?b = (Some ?ep, snd (pick length ''svc'' ?md [?ep, ?other] 0 ?b))"
    by (simp add: pick_def Let_def new_balancer_def age_entries_def ev metadata_shard_key_def metadata_sticky_def metadata_sid_def
        is_sticky_value_def pick_sticky_def do_pick_def)
  show ?thesis unfolding Let_def
    by (rule conjunct1 [OF sticky_affinity [where sid = "''s''", OF _ _ _ _ p]])
      (simp_all add: metadata_shard_key_def metadata_sticky_def metadata_sid_def is_sticky_value_def new_balancer_def sec_def)
qed

end
