(* ===== verification/Breaker.thy ===== *)
theory Breaker
  imports Complex_Main Prelude "HOL-Library.List_Lexorder" "HOL-Library.Char_ord"
begin

text \<open>
  The circuit breaker that guards calls to an endpoint (\<open>src/circuit_breaker.cpp\<close>,
  \<open>include/creek/circuit_breaker.hpp\<close>): per-endpoint statistics and the Closed, Open, HalfOpen machine.
  Every operation holds the mutex and is one function; the clock reading is an argument. The lemmas show
  that enough consecutive failures cut the endpoint off for the whole cool-down whatever else happens,
  that the half-open state admits exactly the configured number of trial calls, and that it admits none
  ever after if those calls never report.

  Counters are 64-bit words and wrap; the error rate, a quotient of doubles in the code, is the quotient
  of reals.
\<close>

record circuit_config =
  cc_cooldown :: duration
  cc_latency_threshold_us :: u64
  cc_error_rate_threshold :: real
  cc_consecutive_failure_threshold :: u64
  cc_min_samples :: u64
  cc_half_open_max :: u64

definition default_circuit_config :: circuit_config where
  "default_circuit_config = \<lparr>cc_cooldown = msec 30000, cc_latency_threshold_us = 500000, cc_error_rate_threshold = 1 / 2,
     cc_consecutive_failure_threshold = 5, cc_min_samples = 10, cc_half_open_max = 1\<rparr>"

datatype circuit_state = CS_Closed | CS_Open | CS_HalfOpen

record endpoint_stats =
  total_calls :: u64
  st_errors :: u64
  latency_sum_us :: u64
  consecutive_failures :: u64
  opened_at :: timepoint
  last_call :: timepoint
  st_state :: circuit_state
  half_open_count :: u64

definition empty_stats :: endpoint_stats where
  "empty_stats = \<lparr>total_calls = 0, st_errors = 0, latency_sum_us = 0, consecutive_failures = 0, opened_at = 0, last_call = 0,
     st_state = CS_Closed, half_open_count = 0\<rparr>"

record circuit_breaker =
  cb_config :: circuit_config
  cb_endpoints :: "(string, endpoint_stats) omap"

definition new_breaker :: "circuit_config \<Rightarrow> circuit_breaker" where
  "new_breaker cfg = \<lparr>cb_config = cfg, cb_endpoints = []\<rparr>"

text \<open>\<open>endpoints_[id]\<close> creates the entry with its initial values.\<close>

definition breaker_stats :: "string \<Rightarrow> circuit_breaker \<Rightarrow> endpoint_stats" where
  "breaker_stats i b = (case map_of (cb_endpoints b) i of Some ep \<Rightarrow> ep | None \<Rightarrow> empty_stats)"

definition put_stats :: "string \<Rightarrow> endpoint_stats \<Rightarrow> circuit_breaker \<Rightarrow> circuit_breaker" where
  "put_stats i ep b = b\<lparr>cb_endpoints := om_set i ep (cb_endpoints b)\<rparr>"

definition allow_stats :: "circuit_config \<Rightarrow> timepoint \<Rightarrow> endpoint_stats \<Rightarrow> bool \<times> endpoint_stats" where
  "allow_stats cfg now ep =
     (let ep = ep\<lparr>last_call := now\<rparr>;
          half_open = (\<lambda>ep. if half_open_count ep < cc_half_open_max cfg
                        then (True, ep\<lparr>half_open_count := half_open_count ep + 1\<rparr>) else (False, ep))
      in case st_state ep of
           CS_Closed \<Rightarrow> (True, ep)
         | CS_Open \<Rightarrow>
             if cc_cooldown cfg \<le> now - opened_at ep then half_open (ep\<lparr>st_state := CS_HalfOpen, half_open_count := 0\<rparr>)
             else (False, ep)
         | CS_HalfOpen \<Rightarrow> half_open ep)"

definition allow :: "string \<Rightarrow> timepoint \<Rightarrow> circuit_breaker \<Rightarrow> bool \<times> circuit_breaker" where
  "allow i now b = (case allow_stats (cb_config b) now (breaker_stats i b) of (r, ep) \<Rightarrow> (r, put_stats i ep b))"

definition record_success :: "string \<Rightarrow> u64 \<Rightarrow> circuit_breaker \<Rightarrow> circuit_breaker" where
  "record_success i latency_us b =
     (let ep = breaker_stats i b;
          ep = ep\<lparr>total_calls := total_calls ep + 1, latency_sum_us := latency_sum_us ep + latency_us, consecutive_failures := 0\<rparr>;
          ep = (if st_state ep = CS_HalfOpen then ep\<lparr>st_state := CS_Closed\<rparr> else ep)
      in put_stats i ep b)"

definition error_rate :: "endpoint_stats \<Rightarrow> real" where
  "error_rate ep = real (unat (st_errors ep)) / real (unat (total_calls ep))"

definition must_open :: "circuit_config \<Rightarrow> endpoint_stats \<Rightarrow> bool" where
  "must_open cfg ep \<longleftrightarrow> st_state ep \<noteq> CS_Closed
     \<or> cc_consecutive_failure_threshold cfg \<le> consecutive_failures ep
     \<or> cc_min_samples cfg \<le> total_calls ep
        \<and> (cc_error_rate_threshold cfg \<le> error_rate ep
           \<or> 0 < total_calls ep \<and> cc_latency_threshold_us cfg \<le> latency_sum_us ep div total_calls ep)"

definition record_failure :: "string \<Rightarrow> timepoint \<Rightarrow> circuit_breaker \<Rightarrow> circuit_breaker" where
  "record_failure i now b =
     (let ep = breaker_stats i b;
          ep = ep\<lparr>total_calls := total_calls ep + 1, st_errors := st_errors ep + 1,
                  consecutive_failures := consecutive_failures ep + 1, last_call := now\<rparr>;
          ep = (if must_open (cb_config b) ep then ep\<lparr>st_state := CS_Open, opened_at := now\<rparr> else ep)
      in put_stats i ep b)"

definition breaker_state :: "string \<Rightarrow> circuit_breaker \<Rightarrow> circuit_state" where
  "breaker_state i b = (case map_of (cb_endpoints b) i of None \<Rightarrow> CS_Closed | Some ep \<Rightarrow> st_state ep)"

definition breaker_reset :: "string \<Rightarrow> circuit_breaker \<Rightarrow> circuit_breaker" where
  "breaker_reset i b = b\<lparr>cb_endpoints := om_erase i (cb_endpoints b)\<rparr>"

definition breaker_reset_all :: "circuit_breaker \<Rightarrow> circuit_breaker" where
  "breaker_reset_all b = b\<lparr>cb_endpoints := []\<rparr>"

definition breaker_size :: "circuit_breaker \<Rightarrow> nat" where
  "breaker_size b = length (cb_endpoints b)"

section \<open>Sequences of operations\<close>

datatype breaker_op = OpAllow string timepoint | OpSuccess string u64 | OpFailure string timepoint | OpReset string

fun breaker_apply :: "breaker_op \<Rightarrow> circuit_breaker \<Rightarrow> circuit_breaker" where
  "breaker_apply (OpAllow i now) b = snd (allow i now b)"
| "breaker_apply (OpSuccess i lat) b = record_success i lat b"
| "breaker_apply (OpFailure i now) b = record_failure i now b"
| "breaker_apply (OpReset i) b = breaker_reset i b"

definition breaker_run :: "breaker_op list \<Rightarrow> circuit_breaker \<Rightarrow> circuit_breaker" where
  "breaker_run ops b = fold breaker_apply ops b"

definition cb_wf :: "circuit_breaker \<Rightarrow> bool" where "cb_wf b \<longleftrightarrow> om_wf (cb_endpoints b)"

lemma stats_put [simp]: "cb_wf b \<Longrightarrow> breaker_stats j (put_stats i ep b) = (if j = i then ep else breaker_stats j b)"
  by (simp add: breaker_stats_def put_stats_def om_set_map_of cb_wf_def)

lemma stats_reset [simp]: "breaker_stats j (breaker_reset i b) = (if j = i then empty_stats else breaker_stats j b)"
  by (simp add: breaker_stats_def breaker_reset_def om_erase_map_of)

lemma config_frame [simp]: "cb_config (put_stats i ep b) = cb_config b" "cb_config (breaker_reset i b) = cb_config b"
  by (simp_all add: put_stats_def breaker_reset_def)

lemma cb_wf_frame [simp]: "cb_wf b \<Longrightarrow> cb_wf (put_stats i ep b)" "cb_wf b \<Longrightarrow> cb_wf (breaker_reset i b)"
  by (simp_all add: cb_wf_def put_stats_def breaker_reset_def)

lemma state_stats: "breaker_state i b = st_state (breaker_stats i b)"
  by (simp add: breaker_state_def breaker_stats_def empty_stats_def split: option.split)

lemma apply_frame [simp]: "cb_config (breaker_apply op b) = cb_config b" "cb_wf b \<Longrightarrow> cb_wf (breaker_apply op b)"
  by (cases op; simp add: allow_def record_success_def record_failure_def Let_def split: prod.split)+

lemma run_frame [simp]: "cb_config (breaker_run ops b) = cb_config b" "cb_wf b \<Longrightarrow> cb_wf (breaker_run ops b)"
  unfolding breaker_run_def by (induction ops arbitrary: b) simp_all

text \<open>What an operation does to the statistics of one endpoint.\<close>

fun stats_step :: "circuit_config \<Rightarrow> string \<Rightarrow> breaker_op \<Rightarrow> endpoint_stats \<Rightarrow> endpoint_stats" where
  "stats_step cfg j (OpAllow i now) ep = (if j = i then snd (allow_stats cfg now ep) else ep)"
| "stats_step cfg j (OpSuccess i lat) ep =
     (if j = i then ep\<lparr>total_calls := total_calls ep + 1, latency_sum_us := latency_sum_us ep + lat, consecutive_failures := 0,
        st_state := (if st_state ep = CS_HalfOpen then CS_Closed else st_state ep)\<rparr> else ep)"
| "stats_step cfg j (OpFailure i now) ep =
     (if j = i then (let ep = ep\<lparr>total_calls := total_calls ep + 1, st_errors := st_errors ep + 1,
                        consecutive_failures := consecutive_failures ep + 1, last_call := now\<rparr>
                     in if must_open cfg ep then ep\<lparr>st_state := CS_Open, opened_at := now\<rparr> else ep) else ep)"
| "stats_step cfg j (OpReset i) ep = (if j = i then empty_stats else ep)"

lemma stats_apply: "cb_wf b \<Longrightarrow> breaker_stats j (breaker_apply op b) = stats_step (cb_config b) j op (breaker_stats j b)"
  by (cases op) (auto simp: allow_def record_success_def record_failure_def Let_def split: prod.split)

lemma stats_run: "cb_wf b \<Longrightarrow> breaker_stats j (breaker_run ops b) = fold (stats_step (cb_config b) j) ops (breaker_stats j b)"
  unfolding breaker_run_def by (induction ops arbitrary: b) (simp_all add: stats_apply)

lemma allow_result: "fst (allow i now b) = fst (allow_stats (cb_config b) now (breaker_stats i b))"
  by (simp add: allow_def split: prod.split)

section \<open>Cutting off a failing endpoint\<close>

text \<open>An operation in a losing streak of endpoint \<open>i\<close>: no success and no reset of it.\<close>

fun losing :: "string \<Rightarrow> breaker_op \<Rightarrow> bool" where
  "losing i (OpSuccess j lat) = (j \<noteq> i)"
| "losing i (OpReset j) = (j \<noteq> i)"
| "losing i op = True"

fun failure_of :: "string \<Rightarrow> breaker_op \<Rightarrow> bool" where
  "failure_of i (OpFailure j now) = (j = i)"
| "failure_of i op = False"

text \<open>An operation while the breaker cools down after a failure at time \<open>t\<close>: anything but a reset of the
  endpoint, calls before the end of the cool-down, failures not before \<open>t\<close>.\<close>

fun cooling :: "string \<Rightarrow> timepoint \<Rightarrow> duration \<Rightarrow> breaker_op \<Rightarrow> bool" where
  "cooling i t cd (OpAllow j now) = (j = i \<longrightarrow> now < t + cd)"
| "cooling i t cd (OpFailure j now) = (j = i \<longrightarrow> t \<le> now)"
| "cooling i t cd (OpReset j) = (j \<noteq> i)"
| "cooling i t cd (OpSuccess j lat) = True"

lemma losing_count:
  "\<forall>op \<in> set ops. losing i op \<Longrightarrow> unat (consecutive_failures ep) + length ops < 2 ^ 64 \<Longrightarrow>
   unat (consecutive_failures (fold (stats_step cfg i) ops ep)) = unat (consecutive_failures ep) + length (filter (failure_of i) ops)"
proof (induction ops arbitrary: ep)
  case (Cons op ops)
  have s: "unat (consecutive_failures (stats_step cfg i op ep)) = unat (consecutive_failures ep) + (if failure_of i op then 1 else 0)"
  proof (cases op)
    case (OpAllow j now)
    then show ?thesis by (auto simp: allow_stats_def Let_def split: circuit_state.split)
  next
    case (OpFailure j now)
    have "unat (consecutive_failures ep + 1) = unat (consecutive_failures ep) + 1"
      using Cons.prems(2) by (simp add: unat_word_ariths)
    then show ?thesis using OpFailure by (simp add: Let_def)
  qed (use Cons.prems in auto)
  have "unat (consecutive_failures (stats_step cfg i op ep)) + length ops < 2 ^ 64"
    using s Cons.prems(2) by (simp split: if_splits)
  from Cons.IH [OF _ this] Cons.prems(1) s show ?case by simp
qed simp

lemma cooling_open:
  "st_state ep = CS_Open \<and> t \<le> opened_at ep \<Longrightarrow> \<forall>op \<in> set ops. cooling i t (cc_cooldown cfg) op \<Longrightarrow>
   st_state (fold (stats_step cfg i) ops ep) = CS_Open \<and> t \<le> opened_at (fold (stats_step cfg i) ops ep)"
proof (induction ops arbitrary: ep)
  case (Cons op ops)
  have "st_state (stats_step cfg i op ep) = CS_Open \<and> t \<le> opened_at (stats_step cfg i op ep)"
    using Cons.prems by (cases op) (auto simp: allow_stats_def must_open_def Let_def)
  then show ?case using Cons by simp
qed simp

text \<open>C19. A failing endpoint is cut off: after as many consecutive failures as configured, whatever calls
  were admitted and whatever other endpoints did in between, the breaker is open, and until the cool-down
  since the last of these failures has passed it admits no call to that endpoint, whatever successes and
  failures late answers still report, unless it is reset.\<close>

theorem breaker_cuts_off:
  assumes "cb_wf b" "\<forall>op \<in> set ops. losing i op" "\<forall>op \<in> set ops2. cooling i t (cc_cooldown (cb_config b)) op"
    and "unat (consecutive_failures (breaker_stats i b)) + length ops + 1 < 2 ^ 64"
    and "unat (cc_consecutive_failure_threshold (cb_config b)) \<le> length (filter (failure_of i) ops) + 1"
    and "now < t + cc_cooldown (cb_config b)"
  shows "breaker_state i (breaker_run (ops @ OpFailure i t # ops2) b) = CS_Open
    \<and> \<not> fst (allow i now (breaker_run (ops @ OpFailure i t # ops2) b))"
proof -
  let ?cfg = "cb_config b"
  let ?ep = "fold (stats_step ?cfg i) ops (breaker_stats i b)"
  have c: "unat (consecutive_failures ?ep) = unat (consecutive_failures (breaker_stats i b)) + length (filter (failure_of i) ops)"
    using losing_count [OF assms(2)] assms(4) by simp
  then have "unat (consecutive_failures ?ep) + 1 < 2 ^ 64"
    using assms(4) length_filter_le [of "failure_of i" ops] by linarith
  then have "unat (consecutive_failures ?ep + 1) = unat (consecutive_failures ?ep) + 1"
    by (simp add: unat_word_ariths)
  then have "cc_consecutive_failure_threshold ?cfg \<le> consecutive_failures ?ep + 1"
    using c assms(5) by (simp add: word_le_nat_alt)
  then have o: "st_state (stats_step ?cfg i (OpFailure i t) ?ep) = CS_Open \<and> t \<le> opened_at (stats_step ?cfg i (OpFailure i t) ?ep)"
    by (simp add: must_open_def Let_def)
  let ?ep2 = "fold (stats_step ?cfg i) ops2 (stats_step ?cfg i (OpFailure i t) ?ep)"
  have o2: "st_state ?ep2 = CS_Open \<and> t \<le> opened_at ?ep2" by (rule cooling_open [OF o assms(3)])
  have s: "breaker_stats i (breaker_run (ops @ OpFailure i t # ops2) b) = ?ep2" using assms(1) by (simp add: stats_run)
  then show ?thesis using o2 assms(6) unfolding state_stats allow_result s by (auto simp: allow_stats_def Let_def)
qed

theorem breaker_cuts_off_witness:
  "let b = new_breaker default_circuit_config; f = OpFailure ''e'' 7
   in \<not> fst (allow ''e'' (sec 30) (breaker_run ([f, f, OpAllow ''e'' 8, f, OpSuccess ''x'' 1, f] @ OpFailure ''e'' 9 # [OpSuccess ''e'' 3]) b))"
proof -
  let ?b = "new_breaker default_circuit_config" and ?f = "OpFailure ''e'' 7"
  let ?ops = "[?f, ?f, OpAllow ''e'' 8, ?f, OpSuccess ''x'' 1, ?f]"
  have "cb_wf ?b" by (simp add: cb_wf_def new_breaker_def)
  moreover have "unat (consecutive_failures (breaker_stats ''e'' ?b)) = 0" by (simp add: breaker_stats_def new_breaker_def empty_stats_def)
  ultimately have "\<not> fst (allow ''e'' (sec 30) (breaker_run (?ops @ OpFailure ''e'' 9 # [OpSuccess ''e'' 3]) ?b))"
    by (intro conjunct2 [OF breaker_cuts_off]) (simp_all add: new_breaker_def default_circuit_config_def sec_def msec_def)
  then show ?thesis unfolding Let_def .
qed

section \<open>Half-open trial calls\<close>

text \<open>After the cool-down exactly \<open>half_open_max\<close> of any number of calls are admitted until one reports.\<close>

fun allow_calls :: "circuit_config \<Rightarrow> timepoint list \<Rightarrow> endpoint_stats \<Rightarrow> bool list" where
  "allow_calls cfg [] ep = []"
| "allow_calls cfg (t # ts) ep = (case allow_stats cfg t ep of (r, ep) \<Rightarrow> r # allow_calls cfg ts ep)"

lemma half_open_calls:
  "st_state ep = CS_HalfOpen \<Longrightarrow> half_open_count ep \<le> cc_half_open_max cfg \<Longrightarrow>
   length (filter (\<lambda>a. a) (allow_calls cfg ts ep)) = min (length ts) (unat (cc_half_open_max cfg) - unat (half_open_count ep))"
proof (induction ts arbitrary: ep)
  case (Cons t ts)
  show ?case
  proof (cases "half_open_count ep < cc_half_open_max cfg")
    case True
    then have less: "unat (half_open_count ep) < unat (cc_half_open_max cfg)" by (simp add: word_less_nat_alt)
    moreover have "unat (cc_half_open_max cfg) < 2 ^ 64" using unsigned_less [of "cc_half_open_max cfg"] by simp
    ultimately have "unat (half_open_count ep) + 1 < 2 ^ 64" by linarith
    then have u: "unat (half_open_count ep + 1) = unat (half_open_count ep) + 1" "unat (half_open_count ep) < unat (cc_half_open_max cfg)"
      using less by (simp_all add: unat_word_ariths)
    let ?ep = "ep\<lparr>last_call := t, half_open_count := half_open_count ep + 1\<rparr>"
    have "half_open_count ?ep \<le> cc_half_open_max cfg" using u by (simp add: word_le_nat_alt)
    then have "length (filter (\<lambda>a. a) (allow_calls cfg ts ?ep)) = min (length ts) (unat (cc_half_open_max cfg) - unat (half_open_count ?ep))"
      using Cons.prems(1) by (intro Cons.IH) simp_all
    then show ?thesis using True Cons.prems u by (simp add: allow_stats_def Let_def)
  next
    case False
    then have e: "half_open_count ep = cc_half_open_max cfg" using Cons.prems(2) by simp
    then show ?thesis using Cons.IH [of "ep\<lparr>last_call := t\<rparr>"] Cons.prems by (simp add: allow_stats_def Let_def)
  qed
qed simp

lemma trial_calls:
  assumes "st_state ep = CS_Open" "cc_cooldown cfg \<le> t - opened_at ep"
  shows "length (filter (\<lambda>a. a) (allow_calls cfg (t # ts) ep)) = min (length ts + 1) (unat (cc_half_open_max cfg))"
proof -
  let ?ep = "ep\<lparr>st_state := CS_HalfOpen, half_open_count := 0\<rparr>"
  have "allow_stats cfg t ep = allow_stats cfg t ?ep"
    using assms by (cases ep) (simp add: allow_stats_def Let_def)
  then have "allow_calls cfg (t # ts) ep = allow_calls cfg (t # ts) ?ep" by simp
  then show ?thesis using half_open_calls [of ?ep cfg "t # ts"] by simp
qed

text \<open>If the admitted calls never report, the endpoint stays blocked for ever: no clock reading re-opens it.\<close>

lemma half_open_stuck:
  "st_state ep = CS_HalfOpen \<Longrightarrow> cc_half_open_max cfg \<le> half_open_count ep \<Longrightarrow> allow_calls cfg ts ep = replicate (length ts) False"
  by (induction ts arbitrary: ep) (simp_all add: allow_stats_def Let_def not_less [symmetric])

end
