(* ===== verification/Timer.thy ===== *)
theory Timer
  imports Prelude "HOL-Library.Multiset"
begin

text \<open>
  Tasks and the priority timer of the reactor framework (\<open>src/framework/task.cpp\<close>,
  \<open>src/framework/timer.cpp\<close> and their headers).

  The heap is modelled as the sequence in which its entries come to the top, sorted by deadline; entries
  with equal deadlines come out in the order of insertion, where the code leaves the order open. The
  clock reading is an argument; the id counter, a static member in the code, is part of the state. The
  lemmas show that the expiry loop ends, returns every due task that is not skipped, in deadline order,
  re-arms the periodic ones and leaves nothing due behind.
\<close>

section \<open>Tasks\<close>

datatype task_priority = TP_Low | TP_Normal | TP_High | TP_Critical

record 'f task =
  t_id :: u64
  t_name :: string
  t_func :: 'f
  t_priority :: task_priority
  t_skippable :: bool

text \<open>The constructor draws the next id from the counter, passed as \<open>ctr\<close> and returned.\<close>

definition next_id :: "u64 \<Rightarrow> u64 \<times> u64" where
  "next_id ctr = (ctr, ctr + 1)"

definition new_task :: "string \<Rightarrow> 'f \<Rightarrow> task_priority \<Rightarrow> bool \<Rightarrow> u64 \<Rightarrow> 'f task \<times> u64" where
  "new_task name func prio skippable ctr =
     (case next_id ctr of (i, ctr) \<Rightarrow>
        (\<lparr>t_id = i, t_name = name, t_func = func, t_priority = prio, t_skippable = skippable\<rparr>, ctr))"

section \<open>The timer\<close>

record 'f timer_entry =
  te_task :: "'f task"
  te_deadline :: timepoint
  te_period :: duration
  te_periodic_id :: u64

record 'f timer =
  tm_skip_ms :: int
  tm_heap :: "'f timer_entry list"

definition new_timer :: "int \<Rightarrow> 'f timer" where
  "new_timer skip_ms = \<lparr>tm_skip_ms = skip_ms, tm_heap = []\<rparr>"

fun heap_push :: "'f timer_entry \<Rightarrow> 'f timer_entry list \<Rightarrow> 'f timer_entry list" where
  "heap_push e [] = [e]"
| "heap_push e (x # h) = (if te_deadline e < te_deadline x then e # x # h else x # heap_push e h)"

definition schedule_at :: "'f task \<Rightarrow> timepoint \<Rightarrow> 'f timer \<Rightarrow> 'f timer" where
  "schedule_at task deadline tm =
     tm\<lparr>tm_heap := heap_push \<lparr>te_task = task, te_deadline = deadline, te_period = 0, te_periodic_id = 0\<rparr> (tm_heap tm)\<rparr>"

definition schedule_in :: "timepoint \<Rightarrow> 'f task \<Rightarrow> duration \<Rightarrow> 'f timer \<Rightarrow> 'f timer" where
  "schedule_in now task delay tm = schedule_at task (now + delay) tm"

definition schedule_periodic_entry :: "timepoint \<Rightarrow> 'f task \<Rightarrow> duration \<Rightarrow> u64 \<Rightarrow> 'f timer \<Rightarrow> 'f timer" where
  "schedule_periodic_entry now task period periodic_id tm =
     tm\<lparr>tm_heap := heap_push \<lparr>te_task = task, te_deadline = now + period, te_period = period, te_periodic_id = periodic_id\<rparr> (tm_heap tm)\<rparr>"

definition too_late :: "timepoint \<Rightarrow> int \<Rightarrow> 'f timer_entry \<Rightarrow> bool" where
  "too_late now skip_ms e \<longleftrightarrow> t_skippable (te_task e) \<and> skip_ms < count_ms (now - te_deadline e)"

definition periodic :: "'f timer_entry \<Rightarrow> bool" where
  "periodic e \<longleftrightarrow> 0 < te_period e \<and> te_periodic_id e \<noteq> 0"

definition next_entry :: "timepoint \<Rightarrow> 'f timer_entry \<Rightarrow> u64 \<Rightarrow> 'f timer_entry \<times> u64" where
  "next_entry now e ctr =
     (case new_task (t_name (te_task e)) (t_func (te_task e)) (t_priority (te_task e)) (t_skippable (te_task e)) ctr of
        (task, ctr) \<Rightarrow> (\<lparr>te_task = task, te_deadline = now + te_period e, te_period = te_period e, te_periodic_id = te_periodic_id e\<rparr>, ctr))"

definition slow_skip :: "timepoint \<Rightarrow> 'f timer_entry \<Rightarrow> string \<times> u64 \<times> int" where
  "slow_skip now e = (t_name (te_task e), t_id (te_task e), count_ms (now - te_deadline e) * 1000)"

lemma length_filter_push: "length (filter P (heap_push e h)) = length (filter P h) + (if P e then 1 else 0)"
  by (induction e h rule: heap_push.induct) auto

text \<open>The loop over the heap: expired tasks, records of skipped ones, the id counter, the heap left.\<close>

function expire_loop :: "timepoint \<Rightarrow> int \<Rightarrow> u64 \<Rightarrow> 'f timer_entry list \<Rightarrow>
    'f task list \<times> (string \<times> u64 \<times> int) list \<times> u64 \<times> 'f timer_entry list" where
  "expire_loop now skip_ms ctr [] = ([], [], ctr, [])"
| "expire_loop now skip_ms ctr (e # h) =
     (if now < te_deadline e then ([], [], ctr, e # h)
      else if too_late now skip_ms e
      then (case expire_loop now skip_ms ctr h of (ts, ss, ctr, h) \<Rightarrow> (ts, slow_skip now e # ss, ctr, h))
      else if periodic e
      then (case expire_loop now skip_ms (snd (next_entry now e ctr)) (heap_push (fst (next_entry now e ctr)) h) of
              (ts, ss, ctr, h) \<Rightarrow> (te_task e # ts, ss, ctr, h))
      else (case expire_loop now skip_ms ctr h of (ts, ss, ctr, h) \<Rightarrow> (te_task e # ts, ss, ctr, h)))"
  by pat_completeness auto
termination
  by (relation "measure (\<lambda>(now, skip_ms, ctr, h). length (filter (\<lambda>e. te_deadline e \<le> now) h))")
    (auto simp: length_filter_push next_entry_def periodic_def split: prod.split)

definition get_expired_tasks :: "timepoint \<Rightarrow> u64 \<Rightarrow> 'f timer \<Rightarrow> 'f task list \<times> (string \<times> u64 \<times> int) list \<times> u64 \<times> 'f timer" where
  "get_expired_tasks now ctr tm =
     (case expire_loop now (tm_skip_ms tm) ctr (tm_heap tm) of (ts, ss, ctr, h) \<Rightarrow> (ts, ss, ctr, tm\<lparr>tm_heap := h\<rparr>))"

text \<open>Cancelling empties the heap into a vector, erases the first match and pushes the rest back.\<close>

fun erase_first :: "('a \<Rightarrow> bool) \<Rightarrow> 'a list \<Rightarrow> bool \<times> 'a list" where
  "erase_first P [] = (False, [])"
| "erase_first P (x # xs) = (if P x then (True, xs) else (case erase_first P xs of (f, ys) \<Rightarrow> (f, x # ys)))"

definition cancel_where :: "('f timer_entry \<Rightarrow> bool) \<Rightarrow> 'f timer \<Rightarrow> bool \<times> 'f timer" where
  "cancel_where P tm = (case erase_first P (tm_heap tm) of (found, es) \<Rightarrow> (found, tm\<lparr>tm_heap := fold heap_push es []\<rparr>))"

definition cancel :: "u64 \<Rightarrow> 'f timer \<Rightarrow> bool \<times> 'f timer" where
  "cancel i tm = cancel_where (\<lambda>e. t_id (te_task e) = i) tm"

definition cancel_periodic :: "u64 \<Rightarrow> 'f timer \<Rightarrow> bool \<times> 'f timer" where
  "cancel_periodic i tm = cancel_where (\<lambda>e. te_periodic_id e = i) tm"

definition pending :: "'f timer \<Rightarrow> nat" where "pending tm = length (tm_heap tm)"

definition timer_empty :: "'f timer \<Rightarrow> bool" where "timer_empty tm \<longleftrightarrow> tm_heap tm = []"

section \<open>The heap\<close>

definition heap_ok :: "'f timer_entry list \<Rightarrow> bool" where
  "heap_ok h \<longleftrightarrow> sorted (map te_deadline h)"

lemma set_heap_push [simp]: "set (heap_push e h) = insert e (set h)"
  by (induction e h rule: heap_push.induct) auto

lemma mset_heap_push [simp]: "mset (heap_push e h) = add_mset e (mset h)"
  by (induction e h rule: heap_push.induct) auto

lemma heap_ok_push [simp]: "heap_ok h \<Longrightarrow> heap_ok (heap_push e h)"
  unfolding heap_ok_def by (induction e h rule: heap_push.induct) auto

lemma heap_push_last: "heap_ok h \<Longrightarrow> \<forall>x \<in> set h. te_deadline x \<le> te_deadline e \<Longrightarrow> heap_push e h = h @ [e]"
  by (induction e h rule: heap_push.induct) (auto simp: heap_ok_def)

lemma rebuild_heap: "heap_ok (acc @ es) \<Longrightarrow> fold heap_push es acc = acc @ es"
proof (induction es arbitrary: acc)
  case (Cons e es)
  have "heap_push e acc = acc @ [e]" using Cons.prems by (intro heap_push_last) (auto simp: heap_ok_def sorted_append)
  then show ?case using Cons.IH [of "acc @ [e]"] Cons.prems by simp
qed simp

lemma filter_push: "P e = False \<Longrightarrow> filter P (heap_push e h) = filter P h"
  by (induction e h rule: heap_push.induct) auto

text \<open>Cancelling removes one matching entry, the earliest, and nothing else.\<close>

lemma cancel_where_spec:
  assumes "heap_ok (tm_heap tm)"
  shows "fst (cancel_where P tm) = (\<exists>e \<in> set (tm_heap tm). P e)
    \<and> heap_ok (tm_heap (snd (cancel_where P tm)))
    \<and> mset (tm_heap (snd (cancel_where P tm)))
        = mset (tm_heap tm) - (case find P (tm_heap tm) of Some e \<Rightarrow> {#e#} | None \<Rightarrow> {#})"
proof -
  have e: "fst (erase_first P h) = (\<exists>e \<in> set h. P e) \<and> (heap_ok h \<longrightarrow> heap_ok (snd (erase_first P h)))
      \<and> set (snd (erase_first P h)) \<subseteq> set h
      \<and> mset (snd (erase_first P h)) = mset h - (case find P h of Some e \<Rightarrow> {#e#} | None \<Rightarrow> {#})" for h :: "'a timer_entry list"
  proof (induction h)
    case (Cons x h)
    have "find P h = Some e \<Longrightarrow> e \<in># mset h" for e by (auto simp: find_Some_iff)
    with Cons show ?case by (auto simp: heap_ok_def case_prod_beta split: option.splits)
  qed (simp add: heap_ok_def)
  then show ?thesis
    using assms rebuild_heap [of "[]" "snd (erase_first P (tm_heap tm))"] e [of "tm_heap tm"]
    by (simp add: cancel_where_def case_prod_beta)
qed

section \<open>Expiry\<close>

text \<open>The re-armed entries of a list of periodic ones: a fresh id, one period from now.\<close>

fun rearmed :: "timepoint \<Rightarrow> u64 \<Rightarrow> 'f timer_entry list \<Rightarrow> 'f timer_entry list" where
  "rearmed now ctr [] = []"
| "rearmed now ctr (e # es) =
     e\<lparr>te_task := (te_task e)\<lparr>t_id := ctr\<rparr>, te_deadline := now + te_period e\<rparr> # rearmed now (ctr + 1) es"

lemma next_entry_eq: "next_entry now e ctr = ((e\<lparr>te_task := (te_task e)\<lparr>t_id := ctr\<rparr>, te_deadline := now + te_period e\<rparr>), ctr + 1)"
  for e :: "'f timer_entry"
  by (simp add: next_entry_def new_task_def next_id_def)

text \<open>C33. The timer fires exactly what is due: the expiry loop ends and returns, in deadline order, the
  task of every entry whose deadline has passed except the skippable ones that are too late; what is left
  in the heap are the entries not yet due and the periodic ones that fired, each with a fresh id and due
  one period from now; nothing left is due.\<close>

theorem timer_expires_due:
  assumes "heap_ok h"
  shows "\<exists>ts ss ctr' h'. expire_loop now skip_ms ctr h = (ts, ss, ctr', h')
    \<and> ts = map te_task (filter (\<lambda>e. te_deadline e \<le> now \<and> \<not> too_late now skip_ms e) h)
    \<and> ss = map (slow_skip now) (filter (\<lambda>e. te_deadline e \<le> now \<and> too_late now skip_ms e) h)
    \<and> mset h' = mset (filter (\<lambda>e. now < te_deadline e) h)
        + mset (rearmed now ctr (filter (\<lambda>e. te_deadline e \<le> now \<and> \<not> too_late now skip_ms e \<and> periodic e) h))
    \<and> heap_ok h' \<and> (\<forall>e \<in> set h'. now < te_deadline e)"
  using assms
proof (induction now skip_ms ctr h rule: expire_loop.induct)
  case (2 now skip_ms ctr e h)
  then have ok: "heap_ok h" by (simp add: heap_ok_def)
  show ?case
  proof (cases "now < te_deadline e")
    case True
    then have "\<forall>x \<in> set (e # h). now < te_deadline x" using 2(4) by (auto simp: heap_ok_def)
    then have "filter (\<lambda>e. te_deadline e \<le> now \<and> Q e) (e # h) = []" "filter (\<lambda>e. now < te_deadline e) (e # h) = e # h" for Q
      by (auto simp: filter_empty_conv filter_id_conv)
    then show ?thesis using True 2(4) \<open>\<forall>x \<in> set (e # h). now < te_deadline x\<close> by simp
  next
    case due: False
    show ?thesis
    proof (cases "too_late now skip_ms e")
      case True
      from 2(1) [OF due True ok] show ?thesis using due True by auto
    next
      case timely: False
      show ?thesis
      proof (cases "periodic e")
        case True
        let ?n = "fst (next_entry now e ctr)"
        have n: "now < te_deadline ?n" "snd (next_entry now e ctr) = ctr + 1" using True by (simp_all add: next_entry_eq periodic_def)
        then have f: "filter (\<lambda>e. te_deadline e \<le> now \<and> Q e) (heap_push ?n h) = filter (\<lambda>e. te_deadline e \<le> now \<and> Q e) h" for Q
          by (intro filter_push) simp
        have m: "mset (filter (\<lambda>e. now < te_deadline e) (heap_push ?n h)) = add_mset ?n (mset (filter (\<lambda>e. now < te_deadline e) h))"
          using n by (simp only: mset_filter mset_heap_push) simp
        from 2(2) [OF due timely True heap_ok_push [OF ok]] show ?thesis
          unfolding f m using due timely True n by (auto simp: next_entry_eq)
      next
        case False
        from 2(3) [OF due timely False ok] show ?thesis using due timely False by auto
      qed
    qed
  qed
qed (simp add: heap_ok_def)

theorem timer_expires_due_witness:
  "\<exists>ts ss ctr' h'. expire_loop (msec 5) 1000 7
      [\<lparr>te_task = \<lparr>t_id = 1, t_name = ''a'', t_func = (), t_priority = TP_Normal, t_skippable = False\<rparr>, te_deadline = msec 2, te_period = msec 10, te_periodic_id = 3\<rparr>,
       \<lparr>te_task = \<lparr>t_id = 2, t_name = ''b'', t_func = (), t_priority = TP_Normal, t_skippable = False\<rparr>, te_deadline = msec 9, te_period = 0, te_periodic_id = 0\<rparr>]
      = (ts, ss, ctr', h') \<and> map t_id ts = [1] \<and> ss = [] \<and> size (mset h') = 2 \<and> heap_ok h'"
proof -
  let ?h = "[\<lparr>te_task = \<lparr>t_id = 1, t_name = ''a'', t_func = (), t_priority = TP_Normal, t_skippable = False\<rparr>, te_deadline = msec 2, te_period = msec 10, te_periodic_id = 3\<rparr>,
       \<lparr>te_task = \<lparr>t_id = 2, t_name = ''b'', t_func = (), t_priority = TP_Normal, t_skippable = False\<rparr>, te_deadline = msec 9, te_period = 0, te_periodic_id = 0\<rparr>]"
  have "heap_ok ?h" by (simp add: heap_ok_def msec_def)
  from timer_expires_due [OF this, of "msec 5" 1000 7]
  obtain ts ss ctr' h' where r: "expire_loop (msec 5) 1000 7 ?h = (ts, ss, ctr', h')"
    and t: "ts = map te_task (filter (\<lambda>e. te_deadline e \<le> msec 5 \<and> \<not> too_late (msec 5) 1000 e) ?h)"
    and s: "ss = map (slow_skip (msec 5)) (filter (\<lambda>e. te_deadline e \<le> msec 5 \<and> too_late (msec 5) 1000 e) ?h)"
    and m: "mset h' = mset (filter (\<lambda>e. msec 5 < te_deadline e) ?h)
        + mset (rearmed (msec 5) 7 (filter (\<lambda>e. te_deadline e \<le> msec 5 \<and> \<not> too_late (msec 5) 1000 e \<and> periodic e) ?h))"
    and o: "heap_ok h'" by blast
  have a: "map t_id ts = [1]" unfolding t by (simp add: msec_def too_late_def)
  have b: "ss = []" unfolding s by (simp add: msec_def too_late_def)
  have c: "size (mset h') = 2" unfolding m by (simp add: msec_def too_late_def periodic_def)
  show ?thesis
    by (rule exI [of _ ts], rule exI [of _ ss], rule exI [of _ ctr'], rule exI [of _ h'], intro conjI) (rule r a b c o)+
qed

text \<open>A periodic entry that is skipped because it is late is not armed again: it never fires any more.\<close>

lemma skipped_periodic_dropped:
  assumes "te_deadline e \<le> now" "too_late now skip_ms e" "periodic e"
  shows "snd (snd (snd (expire_loop now skip_ms ctr [e]))) = []"
  using assms by simp

end
