(* ===== verification/Types.thy ===== *)
theory Types
  imports Prelude "HOL-Library.Char_ord"
begin

text \<open>
  Basic values of creek and their text forms: addresses and metadata (\<open>src/types.cpp\<close>,
  \<open>src/runtime_wire.hpp\<close>) and the W3C trace context (\<open>src/trace_context.cpp\<close>).

  Of the standard library the code uses decimal output, \<open>std::stoul\<close>, \<open>std::stoi\<close> in base 16 and
  \<open>std::isxdigit\<close>; they are written out here with their rules for leading white space, signs, prefixes
  and range (\<open>unsigned long\<close> has 64 bits). An exception is \<open>None\<close>. Random numbers are arguments. The
  lemmas show that addresses and trace headers survive printing and parsing.
\<close>

section \<open>Numbers as text\<close>

definition digit_char :: "nat \<Rightarrow> char" where "digit_char d = char_of (48 + d)"

definition is_digit :: "char \<Rightarrow> bool" where "is_digit c \<longleftrightarrow> 48 \<le> (of_char c :: nat) \<and> (of_char c :: nat) \<le> 57"

definition digit_val :: "char \<Rightarrow> nat" where "digit_val c = of_char c - 48"

fun to_decimal :: "nat \<Rightarrow> string" where
  "to_decimal n = (if n < 10 then [digit_char n] else to_decimal (n div 10) @ [digit_char (n mod 10)])"

declare to_decimal.simps [simp del]

definition dec_value :: "string \<Rightarrow> nat" where
  "dec_value s = foldl (\<lambda>v c. v * 10 + digit_val c) 0 s"

definition is_space :: "char \<Rightarrow> bool" where
  "is_space c \<longleftrightarrow> (of_char c :: nat) \<in> {9, 10, 11, 12, 13, 32}"

text \<open>An optional sign: whether it is a minus, and the rest.\<close>

definition sign_of :: "string \<Rightarrow> bool \<times> string" where
  "sign_of s = (case s of c # r \<Rightarrow> if c = CHR ''-'' then (True, r) else if c = CHR ''+'' then (False, r) else (False, s) | [] \<Rightarrow> (False, []))"

text \<open>\<open>std::stoul (s, &pos)\<close>: the value and the number of characters read, or an exception when there is
  no digit or the number does not fit. A minus sign negates modulo 2^64.\<close>

definition stoul :: "string \<Rightarrow> (nat \<times> nat) option" where
  "stoul s =
     (case sign_of (dropWhile is_space s) of (neg, r) \<Rightarrow>
        let ds = takeWhile is_digit r; v = dec_value ds in
        if ds = [] then None
        else if 2 ^ 64 \<le> v then None
        else Some (if neg then (2 ^ 64 - v) mod 2 ^ 64 else v, length s - length (dropWhile is_digit r)))"

definition is_xdigit :: "char \<Rightarrow> bool" where
  "is_xdigit c \<longleftrightarrow> is_digit c \<or> (97 \<le> (of_char c :: nat) \<and> (of_char c :: nat) \<le> 102) \<or> (65 \<le> (of_char c :: nat) \<and> (of_char c :: nat) \<le> 70)"

definition xdigit_val :: "char \<Rightarrow> nat" where
  "xdigit_val c = (if is_digit c then digit_val c else if 97 \<le> (of_char c :: nat) then of_char c - 87 else of_char c - 55)"

definition hex_value :: "string \<Rightarrow> nat" where
  "hex_value s = foldl (\<lambda>v c. v * 16 + xdigit_val c) 0 s"

text \<open>\<open>std::stoi (s, nullptr, 16)\<close>: an optional \<open>0x\<close> is skipped when a digit follows it.\<close>

definition hex_prefix :: "string \<Rightarrow> string" where
  "hex_prefix r = (case r of c # x # d # t \<Rightarrow> if c = CHR ''0'' \<and> (x = CHR ''x'' \<or> x = CHR ''X'') \<and> is_xdigit d then d # t else r | _ \<Rightarrow> r)"

definition stoi16 :: "string \<Rightarrow> int option" where
  "stoi16 s =
     (case sign_of (dropWhile is_space s) of (neg, r) \<Rightarrow>
        let ds = takeWhile is_xdigit (hex_prefix r); v = (if neg then - int (hex_value ds) else int (hex_value ds)) in
        if ds = [] then None
        else if v < - (2 ^ 31) \<or> 2 ^ 31 \<le> v then None
        else Some v)"

lemma of_char_digit [simp]: "d < 10 \<Longrightarrow> (of_char (digit_char d) :: nat) = 48 + d"
  by (simp add: digit_char_def)

lemma digit_char_props [simp]: "d < 10 \<Longrightarrow> is_digit (digit_char d)" "d < 10 \<Longrightarrow> digit_val (digit_char d) = d"
  by (simp_all add: is_digit_def digit_val_def)

lemma dec_string_digits: "\<forall>c \<in> set (to_decimal n). is_digit c"
  by (induction n rule: to_decimal.induct) (subst to_decimal.simps, auto)

lemma dec_string_nonempty [simp]: "to_decimal n \<noteq> []"
  by (subst to_decimal.simps) simp

lemma dec_value_string [simp]: "dec_value (to_decimal n) = n"
proof (induction n rule: to_decimal.induct)
  case (1 n)
  show ?case
  proof (cases "n < 10")
    case True
    then show ?thesis by (subst to_decimal.simps) (simp add: dec_value_def)
  next
    case False
    then have "dec_value (to_decimal (n div 10) @ [digit_char (n mod 10)]) = n"
      using 1 by (simp add: dec_value_def)
    then show ?thesis using False by (subst to_decimal.simps) simp
  qed
qed

lemma digit_not_special: "is_digit c \<Longrightarrow> \<not> is_space c \<and> c \<noteq> CHR ''-'' \<and> c \<noteq> CHR ''+'' \<and> c \<noteq> CHR '':''"
  by (auto simp: is_digit_def is_space_def)

lemma stoul_dec:
  assumes "n < 2 ^ 64"
  shows "stoul (to_decimal n) = Some (n, length (to_decimal n))"
proof -
  have d: "\<forall>c \<in> set (to_decimal n). is_digit c" by (rule dec_string_digits)
  obtain c r where cr: "to_decimal n = c # r" by (cases "to_decimal n") simp_all
  then have "is_digit c" using d by simp
  then have s: "dropWhile is_space (to_decimal n) = to_decimal n" "sign_of (to_decimal n) = (False, to_decimal n)"
    using digit_not_special by (auto simp: cr sign_of_def)
  have t: "takeWhile is_digit (to_decimal n) = to_decimal n" using d by (simp add: takeWhile_eq_all_conv)
  have u: "dropWhile is_digit (to_decimal n) = []" using d by (simp add: dropWhile_eq_Nil_conv)
  show ?thesis using assms unfolding stoul_def s prod.case Let_def t u by simp
qed

section \<open>Addresses\<close>

record address =
  ad_host :: string
  ad_port :: u16

record remote_peer =
  rp_id :: string
  rp_address :: address

text \<open>\<open>value.rfind (c)\<close> and the parts before and after it.\<close>

definition split_last :: "char \<Rightarrow> string \<Rightarrow> (string \<times> string) option" where
  "split_last c s = (if c \<notin> set s then None
     else Some (rev (tl (dropWhile (\<lambda>x. x \<noteq> c) (rev s))), rev (takeWhile (\<lambda>x. x \<noteq> c) (rev s))))"

definition strip_brackets :: "string \<Rightarrow> string" where
  "strip_brackets h = (if 2 \<le> length h \<and> hd h = CHR ''['' \<and> last h = CHR '']'' then butlast (tl h) else h)"

definition parse_address :: "string \<Rightarrow> address option" where
  "parse_address s =
     (case split_last CHR '':'' s of
        None \<Rightarrow> None
      | Some (host, port_str) \<Rightarrow>
          if host = [] \<or> port_str = [] then None
          else case stoul port_str of
                 None \<Rightarrow> None
               | Some (port, pos) \<Rightarrow>
                   if pos \<noteq> length port_str \<or> port = 0 \<or> 65535 < port then None
                   else Some \<lparr>ad_host = strip_brackets host, ad_port = of_nat port\<rparr>)"

definition parse_remote :: "string \<Rightarrow> remote_peer option" where
  "parse_remote s =
     (if CHR ''@'' \<notin> set s then None
      else case parse_address (tl (dropWhile (\<lambda>x. x \<noteq> CHR ''@'') s)) of
             None \<Rightarrow> None
           | Some a \<Rightarrow> Some \<lparr>rp_id = takeWhile (\<lambda>x. x \<noteq> CHR ''@'') s, rp_address = a\<rparr>)"

definition format_address :: "address \<Rightarrow> string" where
  "format_address a = ad_host a @ '':'' @ to_decimal (unat (ad_port a))"

lemma split_last_append:
  assumes "c \<notin> set t"
  shows "split_last c (s @ c # t) = Some (s, t)"
proof -
  have "takeWhile (\<lambda>x. x \<noteq> c) (rev t @ c # rev s) = rev t" using assms by (subst takeWhile_append2) auto
  moreover have "dropWhile (\<lambda>x. x \<noteq> c) (rev t @ c # rev s) = c # rev s" using assms by (subst dropWhile_append2) auto
  ultimately show ?thesis by (simp add: split_last_def)
qed

text \<open>Addresses survive the round trip through text that the discovery service makes: parsing the
  printed form of an address with a non-empty host that is not in brackets and a non-zero port gives the
  address back, also when the host itself contains colons.\<close>

theorem address_roundtrip:
  assumes "ad_host a \<noteq> []" "strip_brackets (ad_host a) = ad_host a" "ad_port a \<noteq> 0"
  shows "parse_address (format_address a) = Some a"
proof -
  let ?n = "unat (ad_port a)"
  have n: "?n < 2 ^ 16" using unsigned_less [of "ad_port a"] by simp
  have "CHR '':'' \<notin> set (to_decimal ?n)" using dec_string_digits digit_not_special by blast
  then have s: "split_last CHR '':'' (format_address a) = Some (ad_host a, to_decimal ?n)"
    by (simp add: format_address_def split_last_append)
  have "0 < ?n" using assms(3) by (simp add: unat_gt_0)
  moreover have "of_nat ?n = ad_port a" by simp
  ultimately show ?thesis using s stoul_dec [of ?n] n assms(1,2) by (simp add: parse_address_def)
qed

theorem address_roundtrip_witness:
  "parse_address (format_address \<lparr>ad_host = ''fe80::1'', ad_port = 8080\<rparr>) = Some \<lparr>ad_host = ''fe80::1'', ad_port = 8080\<rparr>"
  by (rule address_roundtrip) (simp_all add: strip_brackets_def)

text \<open>A port written with a minus sign is accepted when its negation fits: \<open>std::stoul\<close> wraps.\<close>

lemma negative_port_accepted: "parse_address ''h:-18446744073709551536'' = Some \<lparr>ad_host = ''h'', ad_port = 80\<rparr>"
  by (simp add: parse_address_def split_last_def stoul_def is_space_def sign_of_def is_digit_def dec_value_def digit_val_def strip_brackets_def)

section \<open>Metadata and random identifiers\<close>

fun metadata_pairs :: "(string \<times> string) list \<Rightarrow> bool \<Rightarrow> string" where
  "metadata_pairs [] first = []"
| "metadata_pairs ((k, v) # kvs) first = (if first then [] else '';'') @ k @ ''='' @ v @ metadata_pairs kvs False"

definition metadata_string :: "(string, string) omap \<Rightarrow> string" where
  "metadata_string md = metadata_pairs md True"

definition hex_char :: "nat \<Rightarrow> char" where
  "hex_char d = (if d < 10 then char_of (48 + d) else char_of (87 + d))"

definition hex_nibble :: "u64 \<Rightarrow> nat \<Rightarrow> char" where
  "hex_nibble a i = hex_char (unat (drop_bit ((15 - i) * 4) a AND 0xF))"

definition random_id :: "u64 \<Rightarrow> u64 \<Rightarrow> string" where
  "random_id a b = map (hex_nibble b) [0..<16] @ map (hex_nibble a) [0..<16]"

section \<open>Trace context\<close>

record trace_span =
  trace_id :: string
  span_id :: string
  parent_span_id :: string
  trace_state :: string
  tr_flags :: int

definition empty_span :: trace_span where
  "empty_span = \<lparr>trace_id = [], span_id = [], parent_span_id = [], trace_state = [], tr_flags = 0\<rparr>"

definition span_valid :: "trace_span \<Rightarrow> bool" where
  "span_valid s \<longleftrightarrow> length (trace_id s) = 32 \<and> length (span_id s) = 16"

definition int_string :: "int \<Rightarrow> string" where
  "int_string i = (if i < 0 then ''-'' @ to_decimal (nat (- i)) else to_decimal (nat i))"

definition flags_string :: "int \<Rightarrow> string" where
  "flags_string f = (if f < 10 then ''0'' else []) @ int_string f"

definition traceparent :: "trace_span \<Rightarrow> string" where
  "traceparent s = ''00-'' @ trace_id s @ ''-'' @ span_id s @ ''-'' @ flags_string (tr_flags s)"

definition traceparent_swapped :: "trace_span \<Rightarrow> string" where
  "traceparent_swapped s = ''00-'' @ trace_id s @ ''-'' @ parent_span_id s @ ''-'' @ flags_string (tr_flags s)"

definition trim_right :: "string \<Rightarrow> string" where
  "trim_right s = rev (dropWhile (\<lambda>c. c = CHR '' '') (rev s))"

definition parse_traceparent :: "string \<Rightarrow> trace_span" where
  "parse_traceparent h =
     (if length h < 55 then empty_span
      else if h ! 0 \<noteq> CHR ''0'' \<or> h ! 1 \<noteq> CHR ''0'' \<or> h ! 2 \<noteq> CHR ''-'' then empty_span
      else
        let span = empty_span\<lparr>trace_id := take 32 (drop 3 h)\<rparr> in
        if \<not> list_all is_xdigit (trace_id span) \<or> h ! 35 \<noteq> CHR ''-'' then span
        else
          let span = span\<lparr>span_id := take 16 (drop 36 h)\<rparr> in
          if \<not> list_all is_xdigit (span_id span) \<or> h ! 52 \<noteq> CHR ''-'' then span
          else span\<lparr>tr_flags := (case stoi16 (trim_right (drop 53 h)) of Some v \<Rightarrow> v | None \<Rightarrow> 0)\<rparr>)"

text \<open>\<open>random_hex\<close>: two digits per random byte.\<close>

definition random_hex :: "u8 list \<Rightarrow> string" where
  "random_hex rs = concat (map (\<lambda>v. [hex_char (unat (drop_bit 4 v)), hex_char (unat (v AND 0xF))]) rs)"

definition create_child :: "u8 list \<Rightarrow> trace_span \<Rightarrow> trace_span" where
  "create_child rs parent = \<lparr>trace_id = trace_id parent, span_id = random_hex (take 8 rs), parent_span_id = span_id parent,
     trace_state = trace_state parent, tr_flags = tr_flags parent\<rparr>"

definition extract_or_create :: "u8 list \<Rightarrow> string \<Rightarrow> string \<Rightarrow> trace_span" where
  "extract_or_create rs header state =
     (if header \<noteq> [] \<and> span_valid (parse_traceparent header) then (parse_traceparent header)\<lparr>trace_state := state\<rparr>
      else empty_span\<lparr>trace_id := random_hex (take 16 rs), span_id := random_hex (take 8 (drop 16 rs)), trace_state := state\<rparr>)"

lemma flags_roundtrip:
  assumes "0 \<le> f" "f < 10"
  shows "stoi16 (trim_right (flags_string f)) = Some f"
proof -
  let ?d = "digit_char (nat f)"
  have d: "is_digit ?d" "digit_val ?d = nat f" using assms by simp_all
  then have n: "?d \<noteq> CHR '' ''" "is_xdigit ?d" "xdigit_val ?d = nat f" "?d \<noteq> CHR ''x''" "?d \<noteq> CHR ''X''"
    by (auto simp: is_digit_def is_xdigit_def xdigit_val_def)
  have "flags_string f = [CHR ''0'', ?d]" using assms by (simp add: flags_string_def int_string_def to_decimal.simps)
  then have "trim_right (flags_string f) = [CHR ''0'', ?d]" using n(1) by (simp add: trim_right_def)
  then show ?thesis
    using n d assms
    by (simp add: stoi16_def is_space_def sign_of_def hex_prefix_def hex_value_def is_xdigit_def is_digit_def xdigit_val_def digit_val_def)
qed

text \<open>A trace context survives being passed on: the header written for a span whose ids are 32 and 16
  hexadecimal digits and whose flags are below ten is parsed back to the same trace, span and flags, and
  is taken over as it is by the receiving side.\<close>

theorem traceparent_roundtrip:
  assumes "span_valid s" "list_all is_xdigit (trace_id s)" "list_all is_xdigit (span_id s)" "0 \<le> tr_flags s" "tr_flags s < 10"
  shows "parse_traceparent (traceparent s) = s\<lparr>parent_span_id := [], trace_state := []\<rparr>
    \<and> extract_or_create rs (traceparent s) (trace_state s) = s\<lparr>parent_span_id := []\<rparr>"
proof -
  let ?h = "traceparent s"
  have l: "length (trace_id s) = 32" "length (span_id s) = 16" using assms(1) by (simp_all add: span_valid_def)
  have f2: "length (flags_string (tr_flags s)) = 2"
    using assms(4,5) by (simp add: flags_string_def int_string_def to_decimal.simps)
  have h: "?h = CHR ''0'' # CHR ''0'' # CHR ''-'' # trace_id s @ CHR ''-'' # span_id s @ CHR ''-'' # flags_string (tr_flags s)"
    by (simp add: traceparent_def)
  have len: "length ?h = 55" using l f2 by (simp add: h)
  have at: "?h ! 0 = CHR ''0''" "?h ! 1 = CHR ''0''" "?h ! 2 = CHR ''-''" by (simp_all add: h)
  have d3: "drop 3 ?h = trace_id s @ CHR ''-'' # span_id s @ CHR ''-'' # flags_string (tr_flags s)" by (simp add: h numeral_3_eq_3)
  have t: "take 32 (drop 3 ?h) = trace_id s" using l by (simp add: d3)
  have d35: "drop 35 ?h = CHR ''-'' # span_id s @ CHR ''-'' # flags_string (tr_flags s)"
    using l arg_cong [OF d3, of "drop 32"] by (simp add: drop_drop)
  have a35: "?h ! 35 = CHR ''-''" using arg_cong [OF d35, of hd] len by (simp add: hd_drop_conv_nth)
  have d36: "drop 36 ?h = span_id s @ CHR ''-'' # flags_string (tr_flags s)"
    using arg_cong [OF d35, of "drop 1"] by (simp add: drop_drop)
  have sp: "take 16 (drop 36 ?h) = span_id s" using l by (simp add: d36)
  have d52: "drop 52 ?h = CHR ''-'' # flags_string (tr_flags s)" using l arg_cong [OF d36, of "drop 16"] by (simp add: drop_drop)
  have a52: "?h ! 52 = CHR ''-''" using arg_cong [OF d52, of hd] len by (simp add: hd_drop_conv_nth)
  have d53: "drop 53 ?h = flags_string (tr_flags s)" using arg_cong [OF d52, of "drop 1"] by (simp add: drop_drop)
  have p: "parse_traceparent ?h = s\<lparr>parent_span_id := [], trace_state := []\<rparr>"
  proof -
    have "parse_traceparent ?h = empty_span\<lparr>trace_id := trace_id s, span_id := span_id s, tr_flags := tr_flags s\<rparr>"
      using assms(2,3) flags_roundtrip [OF assms(4,5)] by (simp add: parse_traceparent_def len at at(2) [unfolded One_nat_def] t a35 sp a52 d53 Let_def)
    then show ?thesis by (simp add: empty_span_def)
  qed
  moreover have "span_valid (parse_traceparent ?h)" using assms(1) by (simp add: p span_valid_def)
  moreover have "?h \<noteq> []" by (simp add: h)
  ultimately show ?thesis by (cases s) (simp add: extract_or_create_def)
qed

theorem traceparent_roundtrip_witness:
  "let s = \<lparr>trace_id = replicate 32 CHR ''a'', span_id = replicate 16 CHR ''7'', parent_span_id = ''p'', trace_state = ''v=1'', tr_flags = 1\<rparr>
   in parse_traceparent (traceparent s) = s\<lparr>parent_span_id := [], trace_state := []\<rparr>"
  unfolding Let_def
  by (rule conjunct1 [OF traceparent_roundtrip [where rs = "[]"]])
    (simp_all add: span_valid_def list_all_length is_xdigit_def is_digit_def)

text \<open>From ten on the flags are written in decimal and read in hexadecimal.\<close>

lemma flags_not_hexadecimal: "stoi16 (trim_right (flags_string 16)) = Some 22"
proof -
  have "digit_char 1 = CHR ''1''" "digit_char 6 = CHR ''6''" by code_simp+
  then show ?thesis by (simp add: flags_string_def int_string_def to_decimal.simps trim_right_def stoi16_def is_space_def sign_of_def
      hex_prefix_def hex_value_def is_xdigit_def is_digit_def xdigit_val_def digit_val_def)
qed

end
