(* ===== verification/Metrics.thy ===== *)
theory Metrics
  imports Types "HOL-Library.List_Lexorder"
begin

text \<open>
  The metrics store (\<open>src/metrics.cpp\<close>, \<open>include/creek/metrics.hpp\<close>): counters per direction, call and
  metadata, a current and a previous period, cumulative counters that are handed out once, and the three
  export formats. Every operation holds the mutex and rotates the period first; the clock reading is an
  argument. Counters are 64-bit words. The HTTP server that offers the text is in theory Http.

  The lemmas show that no recorded event is lost or counted twice between the exports that take the
  counters, that the parts of a key can be recovered, and that the escaped strings of the JSON export
  decode to the original.
\<close>

section \<open>Text\<close>

definition kKeySeparator :: char where "kKeySeparator = CHR 0x1F"

definition escape_openmetrics_char :: "char \<Rightarrow> string" where
  "escape_openmetrics_char c =
     (if c = CHR 0x5C then [CHR 0x5C, CHR 0x5C] else if c = CHR 0x22 then [CHR 0x5C, CHR 0x22]
      else if c = CHR 0x0A then [CHR 0x5C, CHR ''n''] else [c])"

definition escape_openmetrics_label :: "string \<Rightarrow> string" where
  "escape_openmetrics_label s = concat (map escape_openmetrics_char s)"

definition escape_json_char :: "char \<Rightarrow> string" where
  "escape_json_char c =
     (if c = CHR 0x22 then [CHR 0x5C, CHR 0x22] else if c = CHR 0x5C then [CHR 0x5C, CHR 0x5C]
      else if c = CHR 0x0A then [CHR 0x5C, CHR ''n''] else if c = CHR 0x0D then [CHR 0x5C, CHR ''r'']
      else if c = CHR 0x09 then [CHR 0x5C, CHR ''t''] else if c = CHR 0x08 then [CHR 0x5C, CHR ''b'']
      else if c = CHR 0x0C then [CHR 0x5C, CHR ''f'']
      else if (of_char c :: nat) < 32
      then [CHR 0x5C, CHR ''u'', CHR ''0'', CHR ''0'', hex_char (of_char c div 16), hex_char (of_char c mod 16)]
      else [c])"

definition escape_json_string :: "string \<Rightarrow> string" where
  "escape_json_string s = concat (map escape_json_char s)"

section \<open>The store\<close>

record metric_event =
  ev_direction :: string
  ev_rpc_name :: string
  ev_metadata :: "(string, string) omap"
  ev_bytes :: u64
  ev_latency_us :: u64
  ev_success :: bool

record metric_value =
  mv_calls :: u64
  mv_errors :: u64
  mv_bytes :: u64
  mv_latency_us :: u64

definition zero_value :: metric_value where
  "zero_value = \<lparr>mv_calls = 0, mv_errors = 0, mv_bytes = 0, mv_latency_us = 0\<rparr>"

type_synonym metric_map = "(string, metric_value) omap"

record metrics_store =
  ms_period :: duration
  ms_period_start :: timepoint
  ms_current :: metric_map
  ms_previous :: metric_map
  ms_cumulative :: metric_map

definition new_metrics :: "duration \<Rightarrow> timepoint \<Rightarrow> metrics_store" where
  "new_metrics period now = \<lparr>ms_period = period, ms_period_start = now, ms_current = [], ms_previous = [], ms_cumulative = []\<rparr>"

definition rotate_locked :: "timepoint \<Rightarrow> metrics_store \<Rightarrow> metrics_store" where
  "rotate_locked now st =
     (if ms_period st \<le> 0 \<or> now - ms_period_start st < ms_period st then st
      else st\<lparr>ms_previous := ms_current st, ms_current := [], ms_period_start := now\<rparr>)"

definition metric_key :: "metric_event \<Rightarrow> string" where
  "metric_key ev = ev_direction ev @ kKeySeparator # ev_rpc_name ev @ kKeySeparator # metadata_string (ev_metadata ev)"

definition bump :: "metric_event \<Rightarrow> metric_value \<Rightarrow> metric_value" where
  "bump ev v = v\<lparr>mv_calls := mv_calls v + 1, mv_errors := (if \<not> ev_success ev then mv_errors v + 1 else mv_errors v),
     mv_bytes := mv_bytes v + ev_bytes ev, mv_latency_us := mv_latency_us v + ev_latency_us ev\<rparr>"

definition value_at :: "string \<Rightarrow> metric_map \<Rightarrow> metric_value" where
  "value_at k m = (case map_of m k of Some v \<Rightarrow> v | None \<Rightarrow> zero_value)"

definition metrics_record :: "timepoint \<Rightarrow> metric_event \<Rightarrow> metrics_store \<Rightarrow> metrics_store" where
  "metrics_record now ev st =
     (let st = rotate_locked now st; k = metric_key ev
      in st\<lparr>ms_current := om_set k (bump ev (value_at k (ms_current st))) (ms_current st),
            ms_cumulative := om_set k (bump ev (value_at k (ms_cumulative st))) (ms_cumulative st)\<rparr>)"

definition metrics_previous :: "timepoint \<Rightarrow> metrics_store \<Rightarrow> metric_map \<times> metrics_store" where
  "metrics_previous now st = (let st = rotate_locked now st in (ms_previous st, st))"

definition metrics_current :: "timepoint \<Rightarrow> metrics_store \<Rightarrow> metric_map \<times> metrics_store" where
  "metrics_current now st = (let st = rotate_locked now st in (ms_current st, st))"

definition metrics_take :: "timepoint \<Rightarrow> metrics_store \<Rightarrow> metric_map \<times> metrics_store" where
  "metrics_take now st = (let st = rotate_locked now st in (ms_cumulative st, st\<lparr>ms_cumulative := []\<rparr>))"

text \<open>The choice of the data that \<open>protobuf_snapshot\<close> and \<open>json\<close> share.\<close>

definition export_data :: "timepoint \<Rightarrow> bool \<Rightarrow> bool \<Rightarrow> metrics_store \<Rightarrow> metric_map \<times> metrics_store" where
  "export_data now previous_minute take_values st =
     (let st = rotate_locked now st
      in if previous_minute then (ms_previous st, st)
         else if take_values then (ms_cumulative st, st\<lparr>ms_cumulative := []\<rparr>)
         else (ms_current st, st))"

definition split_first :: "char \<Rightarrow> string \<Rightarrow> (string \<times> string) option" where
  "split_first c s = (if c \<notin> set s then None else Some (takeWhile (\<lambda>x. x \<noteq> c) s, tl (dropWhile (\<lambda>x. x \<noteq> c) s)))"

definition split_key :: "string \<Rightarrow> string \<times> string \<times> string" where
  "split_key key =
     (case split_first kKeySeparator key of
        None \<Rightarrow> (key, [], [])
      | Some (direction, r) \<Rightarrow>
          (case split_first kKeySeparator r of
             None \<Rightarrow> (direction, r, [])
           | Some (rpc_name, metadata) \<Rightarrow> (direction, rpc_name, metadata)))"

record metric_point =
  mp_direction :: string
  mp_rpc_name :: string
  mp_metadata :: string
  mp_value :: metric_value

definition metric_point_of :: "string \<times> metric_value \<Rightarrow> metric_point" where
  "metric_point_of kv = (case split_key (fst kv) of (d, r, m) \<Rightarrow> \<lparr>mp_direction = d, mp_rpc_name = r, mp_metadata = m, mp_value = snd kv\<rparr>)"

definition protobuf_snapshot :: "timepoint \<Rightarrow> bool \<Rightarrow> bool \<Rightarrow> metrics_store \<Rightarrow> metric_point list \<times> metrics_store" where
  "protobuf_snapshot now previous_minute take_values st =
     (case export_data now previous_minute take_values st of (data, st) \<Rightarrow> (map metric_point_of data, st))"

definition quoted :: "string \<Rightarrow> string" where "quoted s = CHR 0x22 # s @ [CHR 0x22]"

definition u64_string :: "u64 \<Rightarrow> string" where "u64_string v = to_decimal (unat v)"

definition metric_line :: "string \<Rightarrow> (metric_value \<Rightarrow> u64) \<Rightarrow> string \<times> metric_value \<Rightarrow> string" where
  "metric_line name field kv = (case split_key (fst kv) of (direction, rpc_name, metadata) \<Rightarrow>
     name @ ''{direction='' @ quoted (escape_openmetrics_label direction) @ '',rpc='' @ quoted (escape_openmetrics_label rpc_name)
     @ '',metadata='' @ quoted (escape_openmetrics_label metadata) @ ''} '' @ u64_string (field (snd kv)) @ [CHR 0x0A])"

definition append_metric_lines :: "string \<Rightarrow> string \<Rightarrow> string \<Rightarrow> (metric_value \<Rightarrow> u64) \<Rightarrow> metric_map \<Rightarrow> string" where
  "append_metric_lines name help type field source =
     ''# HELP '' @ name @ '' '' @ help @ [CHR 0x0A] @ ''# TYPE '' @ name @ '' '' @ type @ [CHR 0x0A]
     @ concat (map (metric_line name field) source)"

definition openmetrics :: "timepoint \<Rightarrow> metrics_store \<Rightarrow> string \<times> metrics_store" where
  "openmetrics now st =
     (let st = rotate_locked now st; m = ms_current st
      in (append_metric_lines ''creek_rpc_calls_total'' ''Total number of RPC calls handled.'' ''counter'' mv_calls m
          @ append_metric_lines ''creek_rpc_errors_total'' ''Total number of RPC errors observed.'' ''counter'' mv_errors m
          @ append_metric_lines ''creek_rpc_bytes_total'' ''Total bytes transferred by RPCs.'' ''counter'' mv_bytes m
          @ append_metric_lines ''creek_rpc_latency_microseconds_total'' ''Total RPC latency in microseconds.'' ''counter'' mv_latency_us m
          @ ''# EOF'' @ [CHR 0x0A], st))"

definition json_point :: "string \<times> metric_value \<Rightarrow> string" where
  "json_point kv = (case split_key (fst kv) of (direction, rpc_name, metadata) \<Rightarrow>
     ''{'' @ quoted ''direction'' @ '':'' @ quoted (escape_json_string direction) @ '',''
     @ quoted ''rpc_name'' @ '':'' @ quoted (escape_json_string rpc_name) @ '',''
     @ quoted ''metadata'' @ '':'' @ quoted (escape_json_string metadata) @ '',''
     @ quoted ''calls'' @ '':'' @ u64_string (mv_calls (snd kv)) @ '',''
     @ quoted ''errors'' @ '':'' @ u64_string (mv_errors (snd kv)) @ '',''
     @ quoted ''bytes'' @ '':'' @ u64_string (mv_bytes (snd kv)) @ '',''
     @ quoted ''latency_us'' @ '':'' @ u64_string (mv_latency_us (snd kv)) @ ''}'')"

fun comma_list :: "string list \<Rightarrow> string" where
  "comma_list [] = []"
| "comma_list [x] = x"
| "comma_list (x # y # xs) = x @ '','' @ comma_list (y # xs)"

definition metrics_json :: "timepoint \<Rightarrow> bool \<Rightarrow> bool \<Rightarrow> metrics_store \<Rightarrow> string \<times> metrics_store" where
  "metrics_json now previous_minute take_values st =
     (case export_data now previous_minute take_values st of
        (data, st) \<Rightarrow> (''{'' @ quoted ''points'' @ '':['' @ comma_list (map json_point data) @ '']}'', st))"

section \<open>Nothing lost, nothing counted twice\<close>

definition mv_add :: "metric_value \<Rightarrow> metric_value \<Rightarrow> metric_value" where
  "mv_add a b = \<lparr>mv_calls = mv_calls a + mv_calls b, mv_errors = mv_errors a + mv_errors b,
     mv_bytes = mv_bytes a + mv_bytes b, mv_latency_us = mv_latency_us a + mv_latency_us b\<rparr>"

definition mv_sum :: "metric_value list \<Rightarrow> metric_value" where
  "mv_sum vs = foldr mv_add vs zero_value"

text \<open>What one event contributes.\<close>

definition event_value :: "metric_event \<Rightarrow> metric_value" where
  "event_value ev = \<lparr>mv_calls = 1, mv_errors = (if ev_success ev then 0 else 1), mv_bytes = ev_bytes ev, mv_latency_us = ev_latency_us ev\<rparr>"

lemma mv_add_assoc: "mv_add (mv_add a b) c = mv_add a (mv_add b c)" by (simp add: mv_add_def add.assoc)
lemma mv_add_commute: "mv_add a b = mv_add b a" by (simp add: mv_add_def add.commute)
lemma mv_add_zero [simp]: "mv_add zero_value a = a" "mv_add a zero_value = a" by (simp_all add: mv_add_def zero_value_def)

lemma bump_eq: "bump ev v = mv_add v (event_value ev)"
  by (simp add: bump_def mv_add_def event_value_def)

lemma mv_sum_simps [simp]: "mv_sum [] = zero_value" "mv_sum (v # vs) = mv_add v (mv_sum vs)" "mv_sum (vs @ ws) = mv_add (mv_sum vs) (mv_sum ws)"
  by (induction vs) (simp_all add: mv_sum_def mv_add_assoc)

datatype metrics_op = MRecord timepoint metric_event | MExport timepoint bool bool | MTake timepoint | MRead timepoint

text \<open>A run of the store: the maps that were handed out for good, in order, and the final store. Reading
  the current or previous period and the text export only rotate.\<close>

fun metrics_run :: "metrics_op list \<Rightarrow> metrics_store \<Rightarrow> metric_map list \<times> metrics_store" where
  "metrics_run [] st = ([], st)"
| "metrics_run (MRecord now ev # ops) st = metrics_run ops (metrics_record now ev st)"
| "metrics_run (MRead now # ops) st = metrics_run ops (snd (openmetrics now st))"
| "metrics_run (MTake now # ops) st =
     (case metrics_take now st of (m, st) \<Rightarrow> case metrics_run ops st of (ms, st) \<Rightarrow> (m # ms, st))"
| "metrics_run (MExport now prev tk # ops) st =
     (case export_data now prev tk st of (m, st) \<Rightarrow> case metrics_run ops st of (ms, st) \<Rightarrow> (if tk \<and> \<not> prev then m # ms else ms, st))"

fun events_of :: "string \<Rightarrow> metrics_op list \<Rightarrow> metric_event list" where
  "events_of k [] = []"
| "events_of k (MRecord now ev # ops) = (if metric_key ev = k then ev # events_of k ops else events_of k ops)"
| "events_of k (MRead now # ops) = events_of k ops"
| "events_of k (MTake now # ops) = events_of k ops"
| "events_of k (MExport now prev tk # ops) = events_of k ops"

lemma rotate_cumulative [simp]: "ms_cumulative (rotate_locked now st) = ms_cumulative st"
  by (simp add: rotate_locked_def)

lemma value_at_set: "om_wf m \<Longrightarrow> value_at k (om_set j v m) = (if k = j then v else value_at k m)"
  by (simp add: value_at_def om_set_map_of)

lemma metrics_run_sum:
  assumes "om_wf (ms_cumulative st)"
  shows "mv_add (mv_sum (map (value_at k) (fst (metrics_run ops st)))) (value_at k (ms_cumulative (snd (metrics_run ops st))))
    = mv_add (value_at k (ms_cumulative st)) (mv_sum (map event_value (events_of k ops)))"
  using assms
proof (induction ops st rule: metrics_run.induct)
  case (2 now ev ops st)
  then have "om_wf (ms_cumulative (metrics_record now ev st))" by (simp add: metrics_record_def Let_def)
  moreover have "value_at k (ms_cumulative (metrics_record now ev st))
      = (if metric_key ev = k then mv_add (value_at k (ms_cumulative st)) (event_value ev) else value_at k (ms_cumulative st))"
    using 2 by (auto simp: metrics_record_def Let_def value_at_set bump_eq)
  ultimately show ?case using 2 by (simp add: mv_add_assoc)
next
  case (3 now ops st)
  then show ?case by (simp add: openmetrics_def Let_def)
next
  case (4 now ops st)
  then show ?case by (simp add: metrics_take_def Let_def case_prod_beta mv_add_assoc value_at_def)
next
  case (5 now prev tk ops st)
  then show ?case by (simp add: export_data_def Let_def case_prod_beta mv_add_assoc value_at_def)
qed simp


section \<open>Keys and escapes\<close>

lemma split_first_append: "c \<notin> set s \<Longrightarrow> split_first c (s @ c # t) = Some (s, t)"
  by (induction s) (auto simp: split_first_def)

lemma split_metric_key:
  assumes "kKeySeparator \<notin> set (ev_direction ev)" "kKeySeparator \<notin> set (ev_rpc_name ev)"
  shows "split_key (metric_key ev) = (ev_direction ev, ev_rpc_name ev, metadata_string (ev_metadata ev))"
  using assms by (simp add: split_key_def metric_key_def split_first_append)

text \<open>The reading of a JSON string, after RFC 8259: what a decoder makes of the characters between the
  quotes, or nothing if they are not allowed there.\<close>

function json_unescape :: "string \<Rightarrow> string option" where
  "json_unescape s = (case s of
     [] \<Rightarrow> Some []
   | c # r \<Rightarrow>
       if c = CHR 0x5C then
         (case r of
            [] \<Rightarrow> None
          | x # t \<Rightarrow>
              if x = CHR ''u'' then
                (if length t < 4 \<or> \<not> list_all is_xdigit (take 4 t) then None
                 else map_option (Cons (char_of (hex_value (take 4 t)))) (json_unescape (drop 4 t)))
              else if x = CHR ''n'' then map_option (Cons (CHR 0x0A)) (json_unescape t)
              else if x = CHR ''r'' then map_option (Cons (CHR 0x0D)) (json_unescape t)
              else if x = CHR ''t'' then map_option (Cons (CHR 0x09)) (json_unescape t)
              else if x = CHR ''b'' then map_option (Cons (CHR 0x08)) (json_unescape t)
              else if x = CHR ''f'' then map_option (Cons (CHR 0x0C)) (json_unescape t)
              else if x = CHR 0x22 \<or> x = CHR 0x5C \<or> x = CHR ''/'' then map_option (Cons x) (json_unescape t)
              else None)
       else if c = CHR 0x22 \<or> (of_char c :: nat) < 32 then None
       else map_option (Cons c) (json_unescape r))"
  by pat_completeness auto
termination by (relation "measure length") auto

declare json_unescape.simps [simp del]

lemma hex_char_props:
  assumes "d < 16"
  shows "is_xdigit (hex_char d)" "xdigit_val (hex_char d) = d"
  using assms by (auto simp: hex_char_def is_xdigit_def is_digit_def xdigit_val_def digit_val_def)

lemma json_unescape_char: "json_unescape (escape_json_char c @ t) = map_option (Cons c) (json_unescape t)"
proof (cases "(of_char c :: nat) < 32")
  case True
  let ?n = "of_char c :: nat"
  have x: "is_xdigit (hex_char (?n div 16))" "is_xdigit (hex_char (?n mod 16))"
    "xdigit_val (hex_char (?n div 16)) = ?n div 16" "xdigit_val (hex_char (?n mod 16)) = ?n mod 16"
    using True by (intro hex_char_props; simp)+
  have z: "is_xdigit CHR ''0''" "xdigit_val CHR ''0'' = 0" by (simp_all add: is_xdigit_def is_digit_def xdigit_val_def digit_val_def)
  have h: "hex_value [CHR ''0'', CHR ''0'', hex_char (?n div 16), hex_char (?n mod 16)] = ?n"
    by (simp add: hex_value_def x z)
  show ?thesis
    using True by (subst json_unescape.simps) (simp add: escape_json_char_def x z h)
next
  case False
  then show ?thesis by (subst json_unescape.simps) (auto simp: escape_json_char_def)
qed

text \<open>The JSON export is read back: whatever bytes a name contains, the escaped form is a legal JSON
  string and decodes to it.\<close>

lemma json_escape_roundtrip: "json_unescape (escape_json_string s) = Some s"
proof -
  have "json_unescape (escape_json_string s @ t) = map_option (append s) (json_unescape t)" for t
    by (induction s) (simp_all add: escape_json_string_def json_unescape_char option.map_comp comp_def option.map_ident)
  from this [of "[]"] show ?thesis by (simp add: json_unescape.simps)
qed

text \<open>The text export shows the current period only: right after a period change its \<open>_total\<close> counters
  are gone.\<close>

lemma openmetrics_resets:
  assumes "0 < ms_period st" "ms_period st \<le> now - ms_period_start st"
  shows "ms_current (snd (openmetrics now st)) = []"
  using assms by (simp add: openmetrics_def rotate_locked_def Let_def)

end
