(* ===== verification/Node.thy ===== *)
theory Node
  imports Peer Routing Metrics
begin

text \<open>
  The node runtime of the mesh (\<open>src/node/node_runtime.cpp\<close>): leaves and neighbour nodes, the directory
  of endpoints with the node's own version counter, and the routing of requests, responses and streams by
  node and leaf name with a hop limit.

  A wire message is the protobuf message of \<open>proto/creek.proto\<close> as a value; its encoding is generated
  code, of which only the size appears, as the argument \<open>wsize\<close>. What a handler does to the outside is a
  list of effects: messages handed to the transport, connections opened, metric events recorded (by a node that keeps a metrics store). A clock
  has one reading per handler. A handler holds the mutex for its whole body, except \<open>handle_directory\<close>,
  whose three critical sections are three functions. The text of log lines is not modelled.

  The lemmas show that a message can be passed on only as often as its hop limit says, in any mesh and
  whatever the routing tables; that requests and error responses between two nodes that know each other
  arrive; that a leaf's snapshot is authoritative for its endpoints; and that a leaf that disconnects has
  all its endpoints marked dead.
\<close>

section \<open>Messages\<close>

record routed_request =
  rq_request_id :: string
  rq_origin_leaf :: string
  rq_origin_node :: string
  rq_destination_leaf :: string
  rq_destination_node :: string
  rq_endpoint_id :: string
  rq_rpc_name :: string
  rq_metadata :: "(string, string) omap"
  rq_body :: bytes
  rq_deadline_ms :: u64
  rq_hop_limit :: u32

record routed_response =
  rs_request_id :: string
  rs_origin_leaf :: string
  rs_origin_node :: string
  rs_destination_leaf :: string
  rs_destination_node :: string
  rs_body :: bytes
  rs_status :: int
  rs_error :: string
  rs_hop_limit :: u32

record stream_open =
  so_request_id :: string
  so_origin_leaf :: string
  so_origin_node :: string
  so_destination_leaf :: string
  so_destination_node :: string
  so_endpoint_id :: string
  so_rpc_name :: string
  so_metadata :: "(string, string) omap"
  so_deadline_ms :: u64
  so_hop_limit :: u32

record stream_frame =
  sf_request_id :: string
  sf_payload :: bytes
  sf_half_close :: bool
  sf_from_origin :: bool
  sf_origin_leaf :: string
  sf_origin_node :: string
  sf_destination_leaf :: string
  sf_destination_node :: string
  sf_hop_limit :: u32

record stream_close =
  sc_request_id :: string
  sc_status :: int
  sc_error :: string
  sc_from_origin :: bool
  sc_origin_leaf :: string
  sc_origin_node :: string
  sc_destination_leaf :: string
  sc_destination_node :: string
  sc_hop_limit :: u32

datatype wire_message =
    WDirectory directory_snapshot
  | WRequest routed_request
  | WResponse routed_response
  | WStreamOpen stream_open
  | WStreamFrame stream_frame
  | WStreamClose stream_close

record peer_event =
  pe_id :: string
  pe_role :: link_role
  pe_state :: link_state
  pe_client_id :: u32

section \<open>State and effects\<close>

record node =
  n_id :: string
  n_config_peers :: "string list"
  n_directory :: directory
  n_leaves :: "(string, timepoint) omap"
  n_known_node_peers :: "string list"
  n_leaf_endpoints :: "(string, string list) omap"
  n_version_counter :: u64
  n_running :: bool

definition new_node :: "string \<Rightarrow> string list \<Rightarrow> u64 \<Rightarrow> node" where
  "new_node i peers ms = \<lparr>n_id = i, n_config_peers = peers, n_directory = new_directory, n_leaves = [], n_known_node_peers = [],
     n_leaf_endpoints = [], n_version_counter = ms, n_running = False\<rparr>"

datatype node_effect = NSend string wire_message | NConnect string address | NMetric metric_event

type_synonym wsize = "wire_message \<Rightarrow> u64"

definition record_metric :: "string \<Rightarrow> string \<Rightarrow> u64 \<Rightarrow> (string, string) omap \<Rightarrow> node_effect" where
  "record_metric direction rpc_name nbytes md = NMetric \<lparr>ev_direction = direction, ev_rpc_name = rpc_name, ev_metadata = md,
     ev_bytes = nbytes, ev_latency_us = 0, ev_success = True\<rparr>"

definition send_and_count :: "wsize \<Rightarrow> string \<Rightarrow> string \<Rightarrow> string \<Rightarrow> wire_message \<Rightarrow> (string, string) omap \<Rightarrow> node_effect list" where
  "send_and_count wsize dest direction name msg md = [NSend dest msg, record_metric direction name (wsize msg) md]"

definition touch_leaf :: "timepoint \<Rightarrow> string \<Rightarrow> node \<Rightarrow> node" where
  "touch_leaf now i n = (case map_of (n_leaves n) i of None \<Rightarrow> n | Some _ \<Rightarrow> n\<lparr>n_leaves := om_set i now (n_leaves n)\<rparr>)"

section \<open>Routing\<close>

definition route_response_locked :: "wsize \<Rightarrow> node \<Rightarrow> routed_response \<Rightarrow> node_effect list" where
  "route_response_locked wsize n resp =
     (if rs_destination_node resp = [] \<or> rs_destination_node resp = n_id n
      then (case map_of (n_leaves n) (rs_destination_leaf resp) of
              None \<Rightarrow> []
            | Some _ \<Rightarrow> send_and_count wsize (rs_destination_leaf resp) ''node_to_leaf'' ''RoutedResponse''
                (WResponse (resp\<lparr>rs_destination_node := n_id n\<rparr>)) [])
      else if rs_hop_limit resp = 0 then []
      else if rs_destination_node resp \<notin> set (n_known_node_peers n) then []
      else send_and_count wsize (rs_destination_node resp) ''node_to_node'' ''RoutedResponse''
             (WResponse (resp\<lparr>rs_hop_limit := rs_hop_limit resp - 1\<rparr>)) [])"

definition send_error_response_locked :: "wsize \<Rightarrow> node \<Rightarrow> routed_request \<Rightarrow> string \<Rightarrow> node_effect list" where
  "send_error_response_locked wsize n req err =
     route_response_locked wsize n
       \<lparr>rs_request_id = rq_request_id req, rs_origin_leaf = rq_destination_leaf req, rs_origin_node = rq_destination_node req,
        rs_destination_leaf = rq_origin_leaf req, rs_destination_node = rq_origin_node req, rs_body = [], rs_status = -1, rs_error = err,
        rs_hop_limit = (if 0 < rq_hop_limit req then rq_hop_limit req - 1 else 0)\<rparr>"

definition route_request_locked :: "wsize \<Rightarrow> node \<Rightarrow> routed_request \<Rightarrow> node_effect list" where
  "route_request_locked wsize n req =
     (if rq_destination_node req = [] \<or> rq_destination_node req = n_id n
      then (case map_of (n_leaves n) (rq_destination_leaf req) of
              None \<Rightarrow> send_error_response_locked wsize n req ''leaf_not_found''
            | Some _ \<Rightarrow> send_and_count wsize (rq_destination_leaf req) ''node_to_leaf'' ''RoutedRequest''
                (WRequest (req\<lparr>rq_destination_node := n_id n\<rparr>)) (rq_metadata req))
      else if rq_hop_limit req = 0 then send_error_response_locked wsize n req ''hop_limit_exceeded''
      else if rq_destination_node req \<notin> set (n_known_node_peers n) then send_error_response_locked wsize n req ''node_not_found''
      else send_and_count wsize (rq_destination_node req) ''node_to_node'' ''RoutedRequest''
             (WRequest (req\<lparr>rq_hop_limit := rq_hop_limit req - 1\<rparr>)) (rq_metadata req))"

definition route_stream_frame_locked :: "wsize \<Rightarrow> node \<Rightarrow> stream_frame \<Rightarrow> node_effect list" where
  "route_stream_frame_locked wsize n frame =
     (if sf_destination_node frame = [] \<or> sf_destination_node frame = n_id n
      then (case map_of (n_leaves n) (sf_destination_leaf frame) of
              None \<Rightarrow> []
            | Some _ \<Rightarrow> send_and_count wsize (sf_destination_leaf frame) ''node_to_leaf'' ''RoutedStreamFrame''
                (WStreamFrame (frame\<lparr>sf_destination_node := n_id n\<rparr>)) [])
      else if sf_hop_limit frame = 0 then []
      else if sf_destination_node frame \<notin> set (n_known_node_peers n) then []
      else send_and_count wsize (sf_destination_node frame) ''node_to_node'' ''RoutedStreamFrame''
             (WStreamFrame (frame\<lparr>sf_hop_limit := sf_hop_limit frame - 1\<rparr>)) [])"

definition route_stream_close_locked :: "wsize \<Rightarrow> node \<Rightarrow> stream_close \<Rightarrow> node_effect list" where
  "route_stream_close_locked wsize n cl =
     (if sc_destination_node cl = [] \<or> sc_destination_node cl = n_id n
      then (case map_of (n_leaves n) (sc_destination_leaf cl) of
              None \<Rightarrow> []
            | Some _ \<Rightarrow> send_and_count wsize (sc_destination_leaf cl) ''node_to_leaf'' ''RoutedStreamClose''
                (WStreamClose (cl\<lparr>sc_destination_node := n_id n\<rparr>)) [])
      else if sc_hop_limit cl = 0 then []
      else if sc_destination_node cl \<notin> set (n_known_node_peers n) then []
      else send_and_count wsize (sc_destination_node cl) ''node_to_node'' ''RoutedStreamClose''
             (WStreamClose (cl\<lparr>sc_hop_limit := sc_hop_limit cl - 1\<rparr>)) [])"

definition send_stream_close_locked :: "wsize \<Rightarrow> node \<Rightarrow> stream_open \<Rightarrow> string \<Rightarrow> node_effect list" where
  "send_stream_close_locked wsize n opn err =
     route_stream_close_locked wsize n
       \<lparr>sc_request_id = so_request_id opn, sc_status = -1, sc_error = err, sc_from_origin = False,
        sc_origin_leaf = so_destination_leaf opn, sc_origin_node = so_destination_node opn,
        sc_destination_leaf = so_origin_leaf opn, sc_destination_node = so_origin_node opn,
        sc_hop_limit = (if 0 < so_hop_limit opn then so_hop_limit opn - 1 else 0)\<rparr>"

definition route_stream_open :: "wsize \<Rightarrow> node \<Rightarrow> stream_open \<Rightarrow> node_effect list" where
  "route_stream_open wsize n opn =
     (if so_destination_node opn = [] \<or> so_destination_node opn = n_id n
      then (case map_of (n_leaves n) (so_destination_leaf opn) of
              None \<Rightarrow> send_stream_close_locked wsize n opn ''leaf_not_found''
            | Some _ \<Rightarrow> send_and_count wsize (so_destination_leaf opn) ''node_to_leaf'' ''RoutedStreamOpen''
                (WStreamOpen (opn\<lparr>so_destination_node := n_id n\<rparr>)) [])
      else if so_hop_limit opn = 0 then send_stream_close_locked wsize n opn ''hop_limit_exceeded''
      else if so_destination_node opn \<notin> set (n_known_node_peers n) then send_stream_close_locked wsize n opn ''node_not_found''
      else send_and_count wsize (so_destination_node opn) ''node_to_node'' ''RoutedStreamOpen''
             (WStreamOpen (opn\<lparr>so_hop_limit := so_hop_limit opn - 1\<rparr>)) [])"

definition direction_of :: "string \<Rightarrow> node \<Rightarrow> string" where
  "direction_of peer n = (case map_of (n_leaves n) peer of Some _ \<Rightarrow> ''leaf_to_node'' | None \<Rightarrow> ''node_to_node'')"

definition handle_request :: "wsize \<Rightarrow> timepoint \<Rightarrow> string \<Rightarrow> routed_request \<Rightarrow> u64 \<Rightarrow> node \<Rightarrow> node \<times> node_effect list" where
  "handle_request wsize now peer req raw n =
     (let n' = touch_leaf now peer n
      in (n', route_request_locked wsize n' req @ [record_metric (direction_of peer n) (rq_rpc_name req) raw (rq_metadata req)]))"

definition handle_response :: "wsize \<Rightarrow> string \<Rightarrow> routed_response \<Rightarrow> u64 \<Rightarrow> node \<Rightarrow> node \<times> node_effect list" where
  "handle_response wsize peer resp raw n =
     (n, route_response_locked wsize n resp @ [record_metric ''node_to_node'' ''RoutedResponse'' raw []])"

definition handle_stream_open :: "wsize \<Rightarrow> timepoint \<Rightarrow> string \<Rightarrow> stream_open \<Rightarrow> u64 \<Rightarrow> node \<Rightarrow> node \<times> node_effect list" where
  "handle_stream_open wsize now peer opn raw n =
     (let n' = touch_leaf now peer n
      in (n', route_stream_open wsize n' opn @ [record_metric (direction_of peer n) (so_rpc_name opn) raw []]))"

definition handle_stream_frame :: "wsize \<Rightarrow> timepoint \<Rightarrow> string \<Rightarrow> stream_frame \<Rightarrow> u64 \<Rightarrow> node \<Rightarrow> node \<times> node_effect list" where
  "handle_stream_frame wsize now peer frame raw n =
     (let n = touch_leaf now peer n
      in (n, route_stream_frame_locked wsize n frame @ [record_metric ''node_to_node'' ''RoutedStreamFrame'' raw []]))"

definition handle_stream_close :: "wsize \<Rightarrow> timepoint \<Rightarrow> string \<Rightarrow> stream_close \<Rightarrow> u64 \<Rightarrow> node \<Rightarrow> node \<times> node_effect list" where
  "handle_stream_close wsize now peer cl raw n =
     (let n = touch_leaf now peer n
      in (n, route_stream_close_locked wsize n cl @ [record_metric ''node_to_node'' ''RoutedStreamClose'' raw []]))"

section \<open>The directory of the mesh\<close>

definition send_to_leaves :: "wsize \<Rightarrow> wire_message \<Rightarrow> node \<Rightarrow> node_effect list" where
  "send_to_leaves wsize wm n = concat (map (\<lambda>kv. send_and_count wsize (fst kv) ''node_to_leaf'' ''DirectorySnapshot'' wm []) (n_leaves n))"

definition broadcast_snapshot_locked :: "wsize \<Rightarrow> u64 \<Rightarrow> node \<Rightarrow> node \<times> node_effect list" where
  "broadcast_snapshot_locked wsize ms n =
     (let (snap, d) = snapshot ms ms (n_id n) (n_directory n);
          n = n\<lparr>n_directory := d\<rparr>;
          wm = WDirectory snap
      in (n, concat (map (\<lambda>p. send_and_count wsize p ''node_to_node'' ''DirectorySnapshot'' wm []) (filter (\<lambda>p. p \<noteq> []) (n_config_peers n)))
           @ concat (map (\<lambda>p. send_and_count wsize p ''node_to_node'' ''DirectorySnapshot'' wm [])
               (filter (\<lambda>p. p \<noteq> n_id n \<and> p \<notin> set (n_config_peers n)) (n_known_node_peers n)))
           @ send_to_leaves wsize wm n))"

definition push_to_leaves_locked :: "wsize \<Rightarrow> u64 \<Rightarrow> node \<Rightarrow> node \<times> node_effect list" where
  "push_to_leaves_locked wsize ms n =
     (let (snap, d) = snapshot ms ms (n_id n) (n_directory n); n = n\<lparr>n_directory := d\<rparr>
      in (n, send_to_leaves wsize (WDirectory snap) n))"

text \<open>The loop of \<open>revoke_leaf_locked\<close> over the endpoints of the snapshot: those of the leaf are marked
  dead with fresh versions.\<close>

fun mark_dead :: "string \<Rightarrow> u64 \<Rightarrow> u64 \<Rightarrow> endpoint list \<Rightarrow> endpoint list \<times> u64" where
  "mark_dead leaf ms c [] = ([], c)"
| "mark_dead leaf ms c (ep # eps) =
     (if owner_leaf ep = leaf
      then (case mark_dead leaf ms (c + 1) eps of (eps', c') \<Rightarrow> (ep\<lparr>ep_alive := False, ep_version := c + 1, updated_ms := ms\<rparr> # eps', c'))
      else (case mark_dead leaf ms c eps of (eps', c') \<Rightarrow> (ep # eps', c')))"

definition revoke_leaf_locked :: "wsize \<Rightarrow> u64 \<Rightarrow> string \<Rightarrow> node \<Rightarrow> node \<times> node_effect list" where
  "revoke_leaf_locked wsize ms leaf n =
     (let (snap, d) = snapshot ms ms (n_id n) (n_directory n);
          (eps, c) = mark_dead leaf ms (n_version_counter n) (sn_endpoints snap);
          n = n\<lparr>n_directory := d, n_version_counter := c, n_leaf_endpoints := om_erase leaf (n_leaf_endpoints n)\<rparr>
      in if \<exists>ep \<in> set (sn_endpoints snap). owner_leaf ep = leaf
         then broadcast_snapshot_locked wsize ms (n\<lparr>n_directory := snd (merge_snapshot ms (snap\<lparr>sn_endpoints := eps\<rparr>) d)\<rparr>)
         else (n, []))"

definition on_peer_event :: "wsize \<Rightarrow> timepoint \<Rightarrow> u64 \<Rightarrow> peer_event \<Rightarrow> node \<Rightarrow> node \<times> node_effect list" where
  "on_peer_event wsize now ms ev n =
     (if pe_role ev = LR_Leaf
      then if pe_state ev = LS_Closed
           then (case map_of (n_leaves n) (pe_id ev) of
                   None \<Rightarrow> (n, [])
                 | Some _ \<Rightarrow> revoke_leaf_locked wsize ms (pe_id ev) (n\<lparr>n_leaves := om_erase (pe_id ev) (n_leaves n)\<rparr>))
           else (n\<lparr>n_leaves := om_set (pe_id ev) now (n_leaves n)\<rparr>, [])
      else if pe_state ev = LS_Closed
           then (n\<lparr>n_known_node_peers := removeAll (pe_id ev) (n_known_node_peers n)\<rparr>, [])
           else (n\<lparr>n_known_node_peers := List.insert (pe_id ev) (n_known_node_peers n)\<rparr>, []))"

text \<open>\<open>handle_directory\<close> in its three critical sections: where the snapshot comes from, the stamping of a
  leaf's endpoints, and the merge.\<close>

datatype snapshot_source = FromLeaf | FromNode | FromUnknown

definition classify_source :: "timepoint \<Rightarrow> string \<Rightarrow> node \<Rightarrow> snapshot_source \<times> node" where
  "classify_source now peer n =
     (if map_of (n_leaves n) peer \<noteq> None then (FromLeaf, touch_leaf now peer n)
      else if peer \<in> set (n_known_node_peers n) then (FromNode, n) else (FromUnknown, n))"

fun stamp_endpoints :: "string \<Rightarrow> string \<Rightarrow> u64 \<Rightarrow> u64 \<Rightarrow> endpoint list \<Rightarrow> endpoint list \<times> string list \<times> u64" where
  "stamp_endpoints self leaf ms c [] = ([], [], c)"
| "stamp_endpoints self leaf ms c (ep # eps) =
     (if owner_leaf ep = leaf
      then (case stamp_endpoints self leaf ms (c + 1) eps of
              (eps', ids, c') \<Rightarrow> (ep\<lparr>owner_node := self, ep_version := c + 1, updated_ms := ms\<rparr> # eps', endpoint_id ep # ids, c'))
      else (case stamp_endpoints self leaf ms c eps of (eps', ids, c') \<Rightarrow> (ep # eps', ids, c')))"

fun stamp_removals :: "u64 \<Rightarrow> u64 \<Rightarrow> string list \<Rightarrow> endpoint list \<times> u64" where
  "stamp_removals ms c [] = ([], c)"
| "stamp_removals ms c (i # ids) =
     (case stamp_removals ms (c + 1) ids of
        (rs, c') \<Rightarrow> (empty_endpoint\<lparr>endpoint_id := i, ep_version := c + 1, updated_ms := ms\<rparr> # rs, c'))"

definition stamp_leaf_snapshot :: "u64 \<Rightarrow> string \<Rightarrow> directory_snapshot \<Rightarrow> node \<Rightarrow> directory_snapshot \<times> node" where
  "stamp_leaf_snapshot ms peer snap n =
     (let (eps, ids, c) = stamp_endpoints (n_id n) peer ms (n_version_counter n) (sn_endpoints snap);
          prev = (case map_of (n_leaf_endpoints n) peer of Some old \<Rightarrow> old | None \<Rightarrow> []);
          (rs, c) = stamp_removals ms c (filter (\<lambda>i. i \<notin> set ids) prev)
      in (snap\<lparr>sn_endpoints := eps, sn_removed := sn_removed snap @ rs\<rparr>,
          n\<lparr>n_version_counter := c, n_leaf_endpoints := om_set peer (remdups ids) (n_leaf_endpoints n)\<rparr>))"

definition merge_and_publish :: "wsize \<Rightarrow> u64 \<Rightarrow> snapshot_source \<Rightarrow> directory_snapshot \<Rightarrow> node \<Rightarrow> node \<times> node_effect list" where
  "merge_and_publish wsize ms src snap n =
     (let n = n\<lparr>n_directory := snd (merge_snapshot ms snap (n_directory n))\<rparr>
      in case src of
           FromLeaf \<Rightarrow> broadcast_snapshot_locked wsize ms n
         | FromNode \<Rightarrow> push_to_leaves_locked wsize ms n
         | FromUnknown \<Rightarrow> (n, []))"

definition handle_directory :: "wsize \<Rightarrow> timepoint \<Rightarrow> u64 \<Rightarrow> string \<Rightarrow> directory_snapshot \<Rightarrow> u64 \<Rightarrow> node \<Rightarrow> node \<times> node_effect list" where
  "handle_directory wsize now ms peer snap raw n =
     (let (src, n) = classify_source now peer n;
          (to_merge, n) = (if src = FromLeaf then stamp_leaf_snapshot ms peer snap n else (snap, n));
          (n, eff) = merge_and_publish wsize ms src to_merge n
      in (n, eff @ (if src = FromUnknown then [] else [record_metric ''node_to_node'' ''DirectorySnapshot'' raw []])))"

text \<open>The dispatch on the parsed message; nothing happens when parsing fails or no field is set.\<close>

definition node_on_message :: "wsize \<Rightarrow> timepoint \<Rightarrow> u64 \<Rightarrow> string \<Rightarrow> wire_message option \<Rightarrow> u64 \<Rightarrow> node \<Rightarrow> node \<times> node_effect list" where
  "node_on_message wsize now ms peer parsed raw n =
     (case parsed of
        None \<Rightarrow> (n, [])
      | Some (WDirectory snap) \<Rightarrow> handle_directory wsize now ms peer snap raw n
      | Some (WRequest req) \<Rightarrow> handle_request wsize now peer req raw n
      | Some (WResponse resp) \<Rightarrow> handle_response wsize peer resp raw n
      | Some (WStreamOpen opn) \<Rightarrow> handle_stream_open wsize now peer opn raw n
      | Some (WStreamFrame frame) \<Rightarrow> handle_stream_frame wsize now peer frame raw n
      | Some (WStreamClose cl) \<Rightarrow> handle_stream_close wsize now peer cl raw n)"

definition do_sync_work :: "wsize \<Rightarrow> u64 \<Rightarrow> node \<Rightarrow> node \<times> node_effect list" where
  "do_sync_work wsize ms n = broadcast_snapshot_locked wsize ms n"

text \<open>Discovery through Redis: \<open>nodes\<close> is the answer to \<open>fetch_nodes\<close>, \<open>leaves_of\<close> the answers to
  \<open>fetch_leaves_for_node\<close>; \<open>None\<close> stands for an exception, which ends the work.\<close>

fun discover_nodes :: "(string \<times> string) list \<Rightarrow> node \<Rightarrow> node \<times> node_effect list" where
  "discover_nodes [] n = (n, [])"
| "discover_nodes ((i, a) # nodes) n =
     (if i = n_id n \<or> i \<in> set (n_known_node_peers n) then discover_nodes nodes n
      else case parse_address a of
             None \<Rightarrow> discover_nodes nodes n
           | Some addr \<Rightarrow>
               (case discover_nodes nodes (n\<lparr>n_known_node_peers := List.insert i (n_known_node_peers n)\<rparr>) of
                  (n, eff) \<Rightarrow> (n, NConnect i addr # eff)))"

fun discover_leaves :: "timepoint \<Rightarrow> (string \<times> string) list \<Rightarrow> node \<Rightarrow> node \<times> node_effect list" where
  "discover_leaves now [] n = (n, [])"
| "discover_leaves now ((i, a) # leaves) n =
     (if map_of (n_leaves n) i \<noteq> None then discover_leaves now leaves n
      else case parse_address a of
             None \<Rightarrow> discover_leaves now leaves n
           | Some addr \<Rightarrow>
               (case discover_leaves now leaves (n\<lparr>n_leaves := om_set i now (n_leaves n)\<rparr>) of
                  (n, eff) \<Rightarrow> (n, NConnect i addr # eff)))"

fun discover_all_leaves :: "timepoint \<Rightarrow> (string \<Rightarrow> (string \<times> string) list option) \<Rightarrow> string list \<Rightarrow> node \<Rightarrow> node \<times> node_effect list" where
  "discover_all_leaves now leaves_of [] n = (n, [])"
| "discover_all_leaves now leaves_of (i # ids) n =
     (if i = n_id n then discover_all_leaves now leaves_of ids n
      else case leaves_of i of
             None \<Rightarrow> (n, [])
           | Some leaves \<Rightarrow>
               (case discover_leaves now leaves n of
                  (n, eff) \<Rightarrow> (case discover_all_leaves now leaves_of ids n of (n, eff') \<Rightarrow> (n, eff @ eff'))))"

definition do_redis_sync_work :: "timepoint \<Rightarrow> (string \<times> string) list option \<Rightarrow> (string \<Rightarrow> (string \<times> string) list option) \<Rightarrow> node \<Rightarrow> node \<times> node_effect list" where
  "do_redis_sync_work now nodes leaves_of n =
     (case nodes of
        None \<Rightarrow> (n, [])
      | Some nodes \<Rightarrow>
          (case discover_nodes nodes n of
             (n, eff) \<Rightarrow> (case discover_all_leaves now leaves_of (map fst nodes) n of (n, eff') \<Rightarrow> (n, eff @ eff'))))"

definition node_stop :: "node \<Rightarrow> node" where
  "node_stop n = (if \<not> n_running n then n
     else n\<lparr>n_running := False, n_known_node_peers := [], n_leaves := [], n_leaf_endpoints := []\<rparr>)"

section \<open>Hops\<close>

fun sends :: "node_effect list \<Rightarrow> (string \<times> wire_message) list" where
  "sends [] = []"
| "sends (NSend d m # eff) = (d, m) # sends eff"
| "sends (_ # eff) = sends eff"

text \<open>The is_routed messages, all but the directory, and their hop limit.\<close>

fun is_routed :: "wire_message \<Rightarrow> bool" where
  "is_routed (WDirectory _) = False"
| "is_routed _ = True"

fun hops :: "wire_message \<Rightarrow> nat" where
  "hops (WDirectory _) = 0"
| "hops (WRequest m) = unat (rq_hop_limit m)"
| "hops (WResponse m) = unat (rs_hop_limit m)"
| "hops (WStreamOpen m) = unat (so_hop_limit m)"
| "hops (WStreamFrame m) = unat (sf_hop_limit m)"
| "hops (WStreamClose m) = unat (sc_hop_limit m)"

lemma sends_append [simp]: "sends (a @ b) = sends a @ sends b"
  by (induction a rule: sends.induct) simp_all

lemma sends_count [simp]: "sends (send_and_count ws d dir nm m md) = [(d, m)]" "sends [record_metric dir nm b md] = []"
  by (simp_all add: send_and_count_def record_metric_def)

lemma sends_mem: "NSend d m \<in> set eff \<longleftrightarrow> (d, m) \<in> set (sends eff)"
  by (induction eff rule: sends.induct) auto

lemma touch_leaf_same [simp]:
  "n_id (touch_leaf now p n) = n_id n" "n_known_node_peers (touch_leaf now p n) = n_known_node_peers n"
  "n_directory (touch_leaf now p n) = n_directory n" "n_version_counter (touch_leaf now p n) = n_version_counter n"
  "n_leaf_endpoints (touch_leaf now p n) = n_leaf_endpoints n"
  by (simp_all add: touch_leaf_def split: option.split)

lemma touch_leaf_leaves [simp]:
  "om_wf (n_leaves n) \<Longrightarrow> map_of (n_leaves (touch_leaf now p n)) l = None \<longleftrightarrow> map_of (n_leaves n) l = None"
  by (auto simp: touch_leaf_def om_set_map_of split: option.split)

lemma hop_less: "h \<noteq> 0 \<Longrightarrow> unat (h - 1 :: u32) < unat h" "h \<noteq> 0 \<Longrightarrow> unat (h - 1) \<le> unat h"
  by (simp_all add: unat_minus_one unat_gt_0)

text \<open>A hop: what a is_routed message may become when a node passes it on, to one of its leaves or, with a
  smaller hop limit, to a node it knows.\<close>

definition passes :: "node \<Rightarrow> wire_message \<Rightarrow> (string \<times> wire_message) list \<Rightarrow> bool" where
  "passes n m s \<longleftrightarrow> s = [] \<or> (\<exists>d m'. s = [(d, m')] \<and> is_routed m' \<and> hops m' \<le> hops m
     \<and> (map_of (n_leaves n) d = None \<longrightarrow> hops m' < hops m \<and> d \<in> set (n_known_node_peers n)))"

lemma passes_response: "passes n (WResponse r) (sends (route_response_locked ws n r))"
  by (auto simp: route_response_locked_def passes_def hop_less split: option.split)

lemma passes_close: "passes n (WStreamClose r) (sends (route_stream_close_locked ws n r))"
  by (auto simp: route_stream_close_locked_def passes_def hop_less split: option.split)

lemma passes_le: "passes n m s \<Longrightarrow> hops m \<le> hops m' \<Longrightarrow> passes n m' s"
  unfolding passes_def by fastforce

lemma hop_pred_le: "unat (if 0 < h then h - 1 else 0) \<le> unat (h :: u32)"
  by (simp add: word_gt_0 hop_less)

lemma passes_error: "passes n (WRequest r) (sends (send_error_response_locked ws n r e))"
  unfolding send_error_response_locked_def by (rule passes_le [OF passes_response]) (simp add: hop_pred_le del: word_gt_0)

lemma passes_stream_error: "passes n (WStreamOpen r) (sends (send_stream_close_locked ws n r e))"
  unfolding send_stream_close_locked_def by (rule passes_le [OF passes_close]) (simp add: hop_pred_le del: word_gt_0)

lemma passes_request: "passes n (WRequest r) (sends (route_request_locked ws n r))"
  unfolding route_request_locked_def
  by (auto simp: passes_error split: option.split) (auto simp: passes_def hop_less)

lemma passes_open: "passes n (WStreamOpen r) (sends (route_stream_open ws n r))"
  unfolding route_stream_open_def
  by (auto simp: passes_stream_error split: option.split) (auto simp: passes_def hop_less)

lemma passes_frame: "passes n (WStreamFrame r) (sends (route_stream_frame_locked ws n r))"
  by (auto simp: route_stream_frame_locked_def passes_def hop_less split: option.split)

lemma passes_touch: "om_wf (n_leaves n) \<Longrightarrow> passes (touch_leaf now p n) m s = passes n m s"
  by (simp add: passes_def)

lemmas passes_routes = passes_response passes_close passes_request passes_open passes_frame

lemma passes_message:
  assumes "is_routed m" "om_wf (n_leaves n)"
  shows "passes n m (sends (snd (node_on_message ws now ms p (Some m) raw n)))"
proof -
  note t = passes_routes [where n = "touch_leaf now p n", unfolded passes_touch [OF assms(2)]]
  show ?thesis
    using assms(1) by (cases m) (simp_all add: node_on_message_def handle_request_def handle_response_def handle_stream_open_def
      handle_stream_frame_def handle_stream_close_def Let_def t passes_response)
qed

text \<open>What forwarding with a hop limit promises, whatever the forwarders: every step of a good message lowers
  its limit, so chains of steps are no longer than the limit and there is no infinite one.\<close>

locale hop_limited =
  fixes step :: "'m \<Rightarrow> 'm \<Rightarrow> bool" and limit :: "'m \<Rightarrow> nat" and good :: "'m \<Rightarrow> bool"
  assumes step_limit: "good m \<Longrightarrow> step m m' \<Longrightarrow> good m' \<and> limit m' < limit m"
begin

lemma chain_limit: "(step ^^ k) m m' \<Longrightarrow> good m \<Longrightarrow> good m' \<and> k + limit m' \<le> limit m"
proof (induction k arbitrary: m')
  case (Suc k)
  then obtain x where "(step ^^ k) m x" "step x m'" by (auto elim: relpowp_Suc_E)
  then show ?case using Suc.IH [of x] Suc.prems(2) step_limit [of x m'] by force
qed simp

lemma no_loop: "wfp (\<lambda>m' m. good m \<and> step m m')"
  by (rule wfp_if_convertible_to_nat [where f = limit]) (use step_limit in blast)

end

text \<open>A step of a message between nodes, \<open>N\<close> being the names of the nodes: some node handles it and sends the
  result to a node. The node may be in any state, as long as its leaves do not carry the names of nodes,
  and so in another one at each step of a chain.\<close>

inductive mesh_step :: "(string \<Rightarrow> bool) \<Rightarrow> wire_message \<Rightarrow> wire_message \<Rightarrow> bool" for N where
  hop: "om_wf (n_leaves n) \<Longrightarrow> (\<forall>l \<in> fst ` set (n_leaves n). \<not> N l)
    \<Longrightarrow> NSend d m' \<in> set (snd (node_on_message ws now ms p (Some m) raw n)) \<Longrightarrow> N d \<Longrightarrow> mesh_step N m m'"

interpretation mesh: hop_limited "mesh_step N" hops is_routed for N
proof
  fix m m'
  assume r: "is_routed m" and "mesh_step N m m'"
  from this(2) show "is_routed m' \<and> hops m' < hops m"
  proof cases
    case (hop n d ws now ms p raw)
    have "(d, m') \<in> set (sends (snd (node_on_message ws now ms p (Some m) raw n)))" using hop(3) by (simp add: sends_mem)
    moreover have "map_of (n_leaves n) d = None" using hop(2,4) by (meson map_of_eq_None_iff)
    ultimately show ?thesis using passes_message [OF r hop(1), of ws now ms p raw] by (auto simp: passes_def)
  qed
qed

text \<open>C4. Routed messages cannot circulate: whatever the states of the nodes at each step, and so whatever
  loops their routing has, a request, response or stream message is transmitted between nodes at most as
  often as its hop limit says, counting the error responses it turns into, and every node that handles
  it passes on at most one message.\<close>

theorem hop_limit_ends:
  assumes "is_routed m" "(mesh_step N ^^ k) m m'"
  shows "k \<le> hops m \<and> (\<forall>ws now ms p raw n. om_wf (n_leaves n)
     \<longrightarrow> length (sends (snd (node_on_message ws now ms p (Some m') raw n))) \<le> 1)"
proof -
  have r: "is_routed m' \<and> k + hops m' \<le> hops m" using mesh.chain_limit assms by blast
  have "length (sends (snd (node_on_message ws now ms p (Some m') raw n))) \<le> 1" if "om_wf (n_leaves n)" for ws now ms p raw n
    using passes_message [of m' n ws now ms p raw] r that by (auto simp: passes_def)
  then show ?thesis using r by simp
qed

theorem hop_limit_ends_witness:
  "\<exists>req k m'. rq_hop_limit req = 2 \<and> (mesh_step (\<lambda>x. x = ''a'' \<or> x = ''b'') ^^ k) (WRequest req) m' \<and> k = 1 \<and> k \<le> hops (WRequest req)"
proof -
  define req where "req = \<lparr>rq_request_id = ''r'', rq_origin_leaf = ''l'', rq_origin_node = ''a'', rq_destination_leaf = ''s'',
    rq_destination_node = ''b'', rq_endpoint_id = [], rq_rpc_name = [], rq_metadata = [], rq_body = [1], rq_deadline_ms = 0, rq_hop_limit = 2\<rparr>"
  define n where "n = (new_node ''a'' [] 0)\<lparr>n_known_node_peers := [''b'']\<rparr>"
  have "NSend ''b'' (WRequest (req\<lparr>rq_hop_limit := 1\<rparr>)) \<in> set (snd (node_on_message (\<lambda>_. 0) 0 0 ''l'' (Some (WRequest req)) 0 n))"
    by (simp add: sends_mem node_on_message_def handle_request_def Let_def route_request_locked_def n_def req_def new_node_def touch_leaf_def)
  from hop [OF _ _ this] have "mesh_step (\<lambda>x. x = ''a'' \<or> x = ''b'') (WRequest req) (WRequest (req\<lparr>rq_hop_limit := 1\<rparr>))"
    by (simp add: n_def new_node_def)
  then have r: "(mesh_step (\<lambda>x. x = ''a'' \<or> x = ''b'') ^^ 1) (WRequest req) (WRequest (req\<lparr>rq_hop_limit := 1\<rparr>))"
    by (simp add: OO_def)
  have "is_routed (WRequest req)" by simp
  from hop_limit_ends [OF this r] r show ?thesis by (intro exI [of _ req] exI [of _ 1]) (auto simp: req_def)
qed

subsection \<open>Delivery\<close>

text \<open>The way of a message through a mesh whose nodes stay as they are: from node to node until one of them
  hands it to a leaf or drops it. The recursion ends because the hop limit falls.\<close>

function relay :: "wsize \<Rightarrow> (string \<Rightarrow> node option) \<Rightarrow> string \<Rightarrow> wire_message \<Rightarrow> (string \<times> wire_message) option" where
  "relay ws mesh x m =
     (case mesh x of
        None \<Rightarrow> None
      | Some n \<Rightarrow>
          if is_routed m \<and> om_wf (n_leaves n)
          then (case sends (snd (node_on_message ws 0 0 [] (Some m) 0 n)) of
                  [] \<Rightarrow> None
                | (d, m') # _ \<Rightarrow> if map_of (n_leaves n) d \<noteq> None then Some (d, m') else relay ws mesh d m')
          else None)"
  by pat_completeness auto
termination
proof (relation "measure (\<lambda>(ws, mesh, x, m). hops m)")
  fix ws :: wsize and mesh :: "string \<Rightarrow> node option" and x m n and s :: "string \<times> wire_message" and ss d m'
  assume "is_routed m \<and> om_wf (n_leaves n)" "sends (snd (node_on_message ws 0 0 [] (Some m) 0 n)) = s # ss" "(d, m') = s"
    "\<not> map_of (n_leaves n) d \<noteq> None"
  then show "((ws, mesh, d, m'), ws, mesh, x, m) \<in> measure (\<lambda>(ws, mesh, x, m). hops m)"
    using passes_message [of m n ws 0 0 "[]" 0] by (auto simp: passes_def)
qed simp

declare relay.simps [simp del]

lemma relay_step:
  assumes "mesh x = Some n" "is_routed m" "om_wf (n_leaves n)" "sends (snd (node_on_message ws 0 0 [] (Some m) 0 n)) = [(d, m')]"
  shows "relay ws mesh x m = (if map_of (n_leaves n) d \<noteq> None then Some (d, m') else relay ws mesh d m')"
  using assms by (subst relay.simps) simp

lemma relay_drop:
  assumes "mesh x = Some n" "sends (snd (node_on_message ws 0 0 [] (Some m) 0 n)) = []"
  shows "relay ws mesh x m = None"
  using assms by (subst relay.simps) simp

text \<open>What a node sends out for a request or a response, for every branch.\<close>

lemma sends_request:
  assumes "om_wf (n_leaves n)"
  shows "sends (snd (node_on_message ws now ms p (Some (WRequest req)) raw n)) =
    (if rq_destination_node req = [] \<or> rq_destination_node req = n_id n
     then if map_of (n_leaves n) (rq_destination_leaf req) = None then sends (send_error_response_locked ws (touch_leaf now p n) req ''leaf_not_found'')
          else [(rq_destination_leaf req, WRequest (req\<lparr>rq_destination_node := n_id n\<rparr>))]
     else if rq_hop_limit req = 0 then sends (send_error_response_locked ws (touch_leaf now p n) req ''hop_limit_exceeded'')
     else if rq_destination_node req \<notin> set (n_known_node_peers n) then sends (send_error_response_locked ws (touch_leaf now p n) req ''node_not_found'')
     else [(rq_destination_node req, WRequest (req\<lparr>rq_hop_limit := rq_hop_limit req - 1\<rparr>))])"
  using touch_leaf_leaves [OF assms, of now p "rq_destination_leaf req"]
  by (auto simp: node_on_message_def handle_request_def Let_def route_request_locked_def split: option.split)

lemma sends_route_response:
  "sends (route_response_locked ws n resp) =
    (if rs_destination_node resp = [] \<or> rs_destination_node resp = n_id n
     then if map_of (n_leaves n) (rs_destination_leaf resp) = None then []
          else [(rs_destination_leaf resp, WResponse (resp\<lparr>rs_destination_node := n_id n\<rparr>))]
     else if rs_hop_limit resp = 0 \<or> rs_destination_node resp \<notin> set (n_known_node_peers n) then []
     else [(rs_destination_node resp, WResponse (resp\<lparr>rs_hop_limit := rs_hop_limit resp - 1\<rparr>))])"
  by (auto simp: route_response_locked_def split: option.split)

lemma sends_response:
  "sends (snd (node_on_message ws now ms p (Some (WResponse resp)) raw n)) = sends (route_response_locked ws n resp)"
  by (simp add: node_on_message_def handle_response_def)

text \<open>The error response to a request, with the hop limit that is left when it has come from another node.\<close>

definition error_response :: "routed_request \<Rightarrow> string \<Rightarrow> u32 \<Rightarrow> routed_response" where
  "error_response req err h = \<lparr>rs_request_id = rq_request_id req, rs_origin_leaf = rq_destination_leaf req,
     rs_origin_node = rq_destination_node req, rs_destination_leaf = rq_origin_leaf req, rs_destination_node = rq_origin_node req,
     rs_body = [], rs_status = -1, rs_error = err, rs_hop_limit = h\<rparr>"

lemma send_error_response:
  "send_error_response_locked ws n req err
     = route_response_locked ws n (error_response req err (if 0 < rq_hop_limit req then rq_hop_limit req - 1 else 0))"
  by (simp add: send_error_response_locked_def error_response_def)

text \<open>Two nodes of a mesh that know each other.\<close>

definition adjacent :: "(string \<Rightarrow> node option) \<Rightarrow> node \<Rightarrow> node \<Rightarrow> bool" where
  "adjacent mesh a b \<longleftrightarrow> mesh (n_id a) = Some a \<and> mesh (n_id b) = Some b \<and> om_wf (n_leaves a) \<and> om_wf (n_leaves b)
     \<and> n_id a \<noteq> n_id b \<and> n_id a \<noteq> [] \<and> n_id b \<noteq> [] \<and> n_id b \<in> set (n_known_node_peers a) \<and> n_id a \<in> set (n_known_node_peers b)
     \<and> map_of (n_leaves a) (n_id b) = None \<and> map_of (n_leaves b) (n_id a) = None"

lemma adjacentD:
  assumes "adjacent mesh a b"
  shows "mesh (n_id a) = Some a" "mesh (n_id b) = Some b" "om_wf (n_leaves a)" "om_wf (n_leaves b)"
    and "n_id a \<noteq> n_id b" "n_id b \<noteq> n_id a" "n_id a \<noteq> []" "n_id b \<noteq> []" "n_id b \<in> set (n_known_node_peers a)"
    and "n_id a \<in> set (n_known_node_peers b)" "map_of (n_leaves a) (n_id b) = None" "map_of (n_leaves b) (n_id a) = None"
  using assms by (auto simp: adjacent_def)

text \<open>C11. A request between two nodes that know each other is never lost in the mesh: with a hop limit of
  at least three it reaches the destination leaf with its identity, addresses, metadata and body as they
  were, or, when the destination node does not know the leaf, the leaf that made it receives the error
  response for it.\<close>

theorem request_answered:
  assumes "adjacent mesh a b" "rq_origin_node req = n_id a" "map_of (n_leaves a) (rq_origin_leaf req) \<noteq> None"
    and "rq_destination_node req = n_id b" "3 \<le> rq_hop_limit req"
  shows "relay ws mesh (n_id a) (WRequest req) =
    (if map_of (n_leaves b) (rq_destination_leaf req) \<noteq> None
     then Some (rq_destination_leaf req, WRequest (req\<lparr>rq_hop_limit := rq_hop_limit req - 1\<rparr>))
     else Some (rq_origin_leaf req, WResponse (error_response req ''leaf_not_found'' (rq_hop_limit req - 3))))"
proof -
  note L = adjacentD [OF assms(1)]
  let ?h = "rq_hop_limit req"
  let ?fwd = "req\<lparr>rq_hop_limit := ?h - 1\<rparr>"
  have h: "?h \<noteq> 0" "?h - 1 \<noteq> 0" "?h - 1 - 1 \<noteq> 0" "?h - 1 - 1 - 1 = ?h - 3"
    using assms(5) by (auto simp: word_le_def)
  have h0: "0 < ?h - 1" using h(2) by (simp only: word_gt_0 not_False_eq_True)
  have "sends (snd (node_on_message ws 0 0 [] (Some (WRequest req)) 0 a)) = [(n_id b, WRequest ?fwd)]"
    using L assms(4) h by (simp add: sends_request)
  from relay_step [OF _ _ _ this, of mesh "n_id a"] have 1: "relay ws mesh (n_id a) (WRequest req) = relay ws mesh (n_id b) (WRequest ?fwd)"
    using L by simp
  show ?thesis
  proof (cases "map_of (n_leaves b) (rq_destination_leaf req)")
    case (Some t)
    have "sends (snd (node_on_message ws 0 0 [] (Some (WRequest ?fwd)) 0 b)) = [(rq_destination_leaf req, WRequest ?fwd)]"
      using L assms(4) Some by (simp add: sends_request)
    from relay_step [OF _ _ _ this, of mesh "n_id b"] show ?thesis using L Some 1 by simp
  next
    case None
    let ?r = "error_response req ''leaf_not_found'' (?h - 3)"
    have "sends (snd (node_on_message ws 0 0 [] (Some (WRequest ?fwd)) 0 b)) = [(n_id a, WResponse ?r)]"
      using L assms(2,4) None h h0 by (simp add: sends_request send_error_response sends_route_response) (simp add: error_response_def)
    from relay_step [OF _ _ _ this, of mesh "n_id b"] have 2: "relay ws mesh (n_id b) (WRequest ?fwd) = relay ws mesh (n_id a) (WResponse ?r)"
      using L by simp
    have "sends (snd (node_on_message ws 0 0 [] (Some (WResponse ?r)) 0 a)) = [(rq_origin_leaf req, WResponse ?r)]"
      using L assms(2,3) by (simp add: sends_response sends_route_response error_response_def)
    from relay_step [OF _ _ _ this, of mesh "n_id a"] show ?thesis using L assms(3) None 1 2 by simp
  qed
qed

theorem request_answered_witness:
  "\<exists>mesh (a :: node) (b :: node) req. map_of (n_leaves b) (rq_destination_leaf req) = None
     \<and> relay (\<lambda>_. 0) mesh (n_id a) (WRequest req) = Some (''cli'', WResponse (error_response req ''leaf_not_found'' 5))"
proof -
  define a where "a = (new_node ''a'' [] 0)\<lparr>n_known_node_peers := [''b''], n_leaves := [(''cli'', 0)]\<rparr>"
  define b where "b = (new_node ''b'' [] 0)\<lparr>n_known_node_peers := [''a''], n_leaves := [(''srv'', 0)]\<rparr>"
  define req where "req = \<lparr>rq_request_id = ''r'', rq_origin_leaf = ''cli'', rq_origin_node = ''a'', rq_destination_leaf = ''gone'',
    rq_destination_node = ''b'', rq_endpoint_id = [], rq_rpc_name = [], rq_metadata = [], rq_body = [1], rq_deadline_ms = 0, rq_hop_limit = 8\<rparr>"
  define mesh where "mesh = [''a'' \<mapsto> a, ''b'' \<mapsto> b]"
  have "adjacent mesh a b" by (simp add: adjacent_def mesh_def a_def b_def new_node_def)
  from request_answered [OF this, of req "\<lambda>_. 0"]
  have "map_of (n_leaves b) (rq_destination_leaf req) = None
     \<and> relay (\<lambda>_. 0) mesh (n_id a) (WRequest req) = Some (''cli'', WResponse (error_response req ''leaf_not_found'' 5))"
    by (simp add: a_def b_def req_def new_node_def)
  then show ?thesis by blast
qed

text \<open>Below that limit the answer is lost: the error response of a node takes the hop limit the request has
  left, so a request that arrives with no hops left, or whose limit runs out, fails without a word.\<close>

lemma error_response_lost:
  assumes "adjacent mesh a b" "rq_origin_node req = n_id a" "rq_destination_node req = n_id b" "rq_hop_limit req = 1"
    and "map_of (n_leaves b) (rq_destination_leaf req) = None"
  shows "relay ws mesh (n_id a) (WRequest req) = None"
proof -
  note L = adjacentD [OF assms(1)]
  let ?fwd = "req\<lparr>rq_hop_limit := 0\<rparr>"
  have "sends (snd (node_on_message ws 0 0 [] (Some (WRequest req)) 0 a)) = [(n_id b, WRequest ?fwd)]"
    using L assms(3,4) by (simp add: sends_request)
  from relay_step [OF _ _ _ this, of mesh "n_id a"] have 1: "relay ws mesh (n_id a) (WRequest req) = relay ws mesh (n_id b) (WRequest ?fwd)"
    using L by simp
  have "sends (snd (node_on_message ws 0 0 [] (Some (WRequest ?fwd)) 0 b)) = []"
    using L assms(2,3,5) by (simp add: sends_request send_error_response sends_route_response) (simp add: error_response_def)
  then show ?thesis using 1 relay_drop L by simp
qed

section \<open>The node's authority over its leaves\<close>

text \<open>Newest update wins, in the terms of \<^const>\<open>reflects\<close>.\<close>

lemma reflects_newest:
  assumes "reflects U d" "ep \<in> seen_endpoints U i" "\<forall>v \<in> seen_removals U i. v < ep_version ep"
    and "\<forall>e \<in> seen_endpoints U i. e \<noteq> ep \<longrightarrow> ep_version e < ep_version ep"
  shows "find_endpoint i d = Some ep"
proof (cases "map_of (d_endpoints d) i")
  case None
  then show ?thesis using reflectsD [OF assms(1), of i] assms(2,3) by (fastforce simp: name_ok_def)
next
  case (Some e)
  then have "e \<in> seen_endpoints U i" "older_eq ep e" using reflectsD [OF assms(1), of i] assms(2) by (auto simp: name_ok_def)
  then have "e = ep" using assms(4) by (fastforce simp: older_eq_def)
  then show ?thesis using Some by (simp add: find_endpoint_def)
qed

lemma reflects_removed:
  assumes "reflects U d" "v \<in> seen_removals U i" "\<forall>e \<in> seen_endpoints U i. ep_version e \<le> v"
  shows "find_endpoint i d = None"
proof (cases "map_of (d_endpoints d) i")
  case (Some e)
  then have "e \<in> seen_endpoints U i" "v < ep_version e" using reflectsD [OF assms(1), of i] assms(2) by (simp_all add: name_ok_def)
  then show ?thesis using assms(3) by fastforce
qed (simp add: find_endpoint_def)

lemma broadcast_endpoints [simp]:
  "d_endpoints (n_directory (fst (broadcast_snapshot_locked ws ms n))) = d_endpoints (n_directory n)"
  "n_leaves (fst (broadcast_snapshot_locked ws ms n)) = n_leaves n"
  by (simp_all add: broadcast_snapshot_locked_def snapshot_def Let_def)

text \<open>What a table has seen of one name.\<close>

lemma seen_updates_of:
  assumes "dir_ok d"
  shows "seen_endpoints (updates_of d) i = set_option (find_endpoint i d)"
    and "seen_removals (updates_of d) i = ts_version ` set_option (map_of (d_tombstones d) i)"
proof -
  note ok = dir_okD [OF assms]
  show "seen_endpoints (updates_of d) i = set_option (find_endpoint i d)"
  proof (intro set_eqI iffI)
    fix e assume "e \<in> seen_endpoints (updates_of d) i"
    then obtain k where k: "map_of (d_endpoints d) k = Some e" "endpoint_id e = i"
      unfolding om_mem_iff [OF ok(1), symmetric] by (auto simp: seen_endpoints_def updates_of_def)
    then show "e \<in> set_option (find_endpoint i d)" using ok(4) [OF k(1)] by (simp add: find_endpoint_def)
  next
    fix e assume "e \<in> set_option (find_endpoint i d)"
    then have e: "map_of (d_endpoints d) i = Some e" by (simp add: find_endpoint_def)
    then have "(i, e) \<in> set (d_endpoints d)" by (simp add: om_mem_iff [OF ok(1)])
    then show "e \<in> seen_endpoints (updates_of d) i" using ok(4) [OF e] by (force simp: seen_endpoints_def updates_of_def)
  qed
  have "v \<in> seen_removals (updates_of d) i \<longleftrightarrow> (\<exists>t. (i, t) \<in> set (d_tombstones d) \<and> v = ts_version t) \<and> i \<noteq> []" for v
    unfolding seen_removals_def updates_of_def by force
  then show "seen_removals (updates_of d) i = ts_version ` set_option (map_of (d_tombstones d) i)"
    unfolding om_mem_iff [OF ok(2)] using ok(3) by (cases "i = []") (auto simp: image_iff)
qed

lemma seen_Un:
  "seen_endpoints (U \<union> V) i = seen_endpoints U i \<union> seen_endpoints V i" "seen_removals (U \<union> V) i = seen_removals U i \<union> seen_removals V i"
  by (auto simp: seen_endpoints_def seen_removals_def)

lemma seen_snapshot:
  assumes "i \<noteq> []"
  shows "seen_endpoints (snd ` set (snapshot_updates t snap)) i = {ep \<in> set (sn_endpoints snap). endpoint_id ep = i}"
    and "seen_removals (snd ` set (snapshot_updates t snap)) i = ep_version ` {ep \<in> set (sn_removed snap). endpoint_id ep = i}"
  using assms by (force simp: seen_endpoints_def seen_removals_def snapshot_updates_def image_Un)+

lemma merge_reflects:
  assumes "dir_ok d"
  shows "reflects (updates_of d \<union> snd ` set (snapshot_updates t snap)) (snd (merge_snapshot t snap d))"
  unfolding merge_snapshot_updates by (rule reflects_run [OF dir_ok_reflects [OF assms]])

text \<open>The versions handed out from a counter that does not wrap are above it.\<close>

lemma counter_step: "unat (c :: u64) + 1 < 2 ^ 64 \<Longrightarrow> c < c + 1 \<and> unat (c + 1) = unat c + 1"
  by (simp add: word_less_nat_alt unat_word_ariths)

definition dead_of :: "string \<Rightarrow> u64 \<Rightarrow> u64 \<Rightarrow> endpoint \<Rightarrow> endpoint \<Rightarrow> bool" where
  "dead_of leaf ms c e e' \<longleftrightarrow>
     (if owner_leaf e = leaf then \<exists>v > c. e' = e\<lparr>ep_alive := False, ep_version := v, updated_ms := ms\<rparr> else e' = e)"

lemma mark_dead_spec:
  "unat c + length eps < 2 ^ 64 \<Longrightarrow> list_all2 (dead_of leaf ms c) eps (fst (mark_dead leaf ms c eps))"
proof (induction leaf ms c eps rule: mark_dead.induct)
  case (2 leaf ms c ep eps)
  have c: "c < c + 1 \<and> unat (c + 1) = unat c + 1" using 2(3) by (intro counter_step) simp
  have "list_all2 (dead_of leaf ms c) eps (fst (mark_dead leaf ms (c + 1) eps))" if "owner_leaf ep = leaf"
  proof (rule list_all2_mono)
    show "list_all2 (dead_of leaf ms (c + 1)) eps (fst (mark_dead leaf ms (c + 1) eps))" using 2(1) [OF that] 2(3) c by simp
    show "dead_of leaf ms (c + 1) e e' \<Longrightarrow> dead_of leaf ms c e e'" for e e'
      using c by (auto simp: dead_of_def split: if_splits intro: less_trans)
  qed
  moreover have "list_all2 (dead_of leaf ms c) eps (fst (mark_dead leaf ms c eps))" if "owner_leaf ep \<noteq> leaf"
    using 2(2) [OF that] 2(3) by simp
  moreover have "dead_of leaf ms c ep (if owner_leaf ep = leaf then ep\<lparr>ep_alive := False, ep_version := c + 1, updated_ms := ms\<rparr> else ep)"
    using c by (auto simp: dead_of_def)
  ultimately show ?case by (auto simp: case_prod_beta)
qed simp

lemma dead_of_id: "dead_of leaf ms c e e' \<Longrightarrow> endpoint_id e' = endpoint_id e"
  by (auto simp: dead_of_def split: if_splits)

lemma snapshot_parts:
  "sn_endpoints (fst (snapshot g t src d)) = map snd (d_endpoints d)" "d_endpoints (snd (snapshot g t src d)) = d_endpoints d"
  "sn_removed (fst (snapshot g t src d)) = map tombstone_shell (d_tombstones (snd (snapshot g t src d)))"
  by (simp_all add: snapshot_def Let_def)

lemma list_all2_mem:
  assumes "list_all2 P xs ys"
  shows "x \<in> set xs \<Longrightarrow> \<exists>y \<in> set ys. P x y" "y \<in> set ys \<Longrightarrow> \<exists>x \<in> set xs. P x y"
  using assms by (induction rule: list_all2_induct) auto

text \<open>Merging a node's own snapshot back with some endpoints renewed replaces exactly those.\<close>

lemma merge_renewed:
  assumes ok: "dir_ok d" and rel: "list_all2 (dead_of leaf ms c) (map snd (d_endpoints d)) eps"
    and ver: "\<forall>i e. find_endpoint i d = Some e \<and> owner_leaf e = leaf \<longrightarrow> ep_version e \<le> c"
    and snap: "sn_endpoints snap = eps" "sn_removed snap = map tombstone_shell (d_tombstones d)"
  shows "find_endpoint i d = None \<Longrightarrow> find_endpoint i (snd (merge_snapshot t snap d)) = None"
    and "find_endpoint i d = Some e \<Longrightarrow> \<exists>e'. dead_of leaf ms c e e' \<and> find_endpoint i (snd (merge_snapshot t snap d)) = Some e'"
proof -
  note k = dir_okD [OF ok]
  let ?U = "updates_of d \<union> snd ` set (snapshot_updates t snap)"
  have r: "reflects ?U (snd (merge_snapshot t snap d))" by (rule merge_reflects [OF ok])
  have img: "\<exists>e. find_endpoint (endpoint_id e') d = Some e \<and> dead_of leaf ms c e e'" if "e' \<in> set eps" for e'
  proof -
    obtain e where "e \<in> snd ` set (d_endpoints d)" "dead_of leaf ms c e e'" using list_all2_mem(2) [OF rel \<open>e' \<in> set eps\<close>] by auto
    moreover from this obtain j where "map_of (d_endpoints d) j = Some e" using om_mem_iff [OF k(1)] by auto
    ultimately show ?thesis using k(4) dead_of_id by (metis find_endpoint_def)
  qed
  have R: "seen_removals ?U i = ts_version ` set_option (map_of (d_tombstones d) i)" if "i \<noteq> []" for i
    using k(2) that by (auto simp: seen_Un seen_updates_of [OF ok] seen_snapshot snap tombstone_shell_def om_mem_iff image_iff)
  show "find_endpoint i (snd (merge_snapshot t snap d)) = None" if "find_endpoint i d = None"
  proof (rule ccontr)
    assume "find_endpoint i (snd (merge_snapshot t snap d)) \<noteq> None"
    then obtain e' where "map_of (d_endpoints (snd (merge_snapshot t snap d))) i = Some e'" by (auto simp: find_endpoint_def)
    then have "e' \<in> seen_endpoints ?U i" using reflectsD [OF r, of i] by (simp add: name_ok_def)
    then have "i \<noteq> []" "e' \<in> seen_endpoints ?U i" by (auto simp: seen_endpoints_def)
    then show False using img [of e'] that by (auto simp: seen_Un seen_updates_of [OF ok] seen_snapshot snap)
  qed
  show "\<exists>e'. dead_of leaf ms c e e' \<and> find_endpoint i (snd (merge_snapshot t snap d)) = Some e'" if e: "find_endpoint i d = Some e"
  proof -
    have i: "i \<noteq> []" "endpoint_id e = i" using k(4) [of i e] e by (auto simp: find_endpoint_def)
    have "e \<in> set (map snd (d_endpoints d))" using e om_mem_iff [OF k(1)] by (force simp: find_endpoint_def)
    then obtain e' where e': "e' \<in> set eps" "dead_of leaf ms c e e'"
      using list_all2_mem(1) [OF rel] by blast
    have v: "e' = e \<or> ep_version e < ep_version e'" using e'(2) ver e by (fastforce simp: dead_of_def split: if_splits)
    have ts: "\<forall>v \<in> seen_removals ?U i. v < ep_version e"
      using k(5) [of i e] e by (auto simp: R [OF i(1)] find_endpoint_def)
    have uniq: "f = e \<or> f \<in> set eps \<and> endpoint_id f = i" if "f \<in> seen_endpoints ?U i" for f
      using that e i by (auto simp: seen_Un seen_updates_of [OF ok] seen_snapshot snap)
    have E: "e \<in> seen_endpoints ?U i" "e' \<in> seen_endpoints ?U i"
      using e e' i dead_of_id [OF e'(2)] by (simp_all add: seen_Un seen_updates_of [OF ok] seen_snapshot snap)
    obtain g where g: "map_of (d_endpoints (snd (merge_snapshot t snap d))) i = Some g" "g \<in> seen_endpoints ?U i" "older_eq e' g"
      using reflectsD [OF r, of i] E ts by (cases "map_of (d_endpoints (snd (merge_snapshot t snap d))) i") (fastforce simp: name_ok_def)+
    have "dead_of leaf ms c e g"
    proof (cases "g = e")
      case True
      then have "e' = e" using v g(3) by (auto simp: older_eq_def)
      then show ?thesis using e'(2) True by simp
    qed (use uniq [OF g(2)] img [of g] e in auto)
    then show ?thesis using g(1) by (auto simp: find_endpoint_def)
  qed
qed

text \<open>A leaf that disconnects takes its services with it: afterwards the node no longer routes to the
  leaf, every endpoint of the leaf in the directory is marked dead, with a version above all the node has
  given out before so that the other nodes accept it, and no other endpoint has changed, provided the
  leaf's endpoints carry versions of this node's counter and the counter does not wrap.\<close>

theorem leaf_revoked:
  assumes "dir_ok (n_directory n)" "map_of (n_leaves n) leaf \<noteq> None"
    and "\<forall>i e. find_endpoint i (n_directory n) = Some e \<and> owner_leaf e = leaf \<longrightarrow> ep_version e \<le> n_version_counter n"
    and "unat (n_version_counter n) + length (d_endpoints (n_directory n)) < 2 ^ 64"
  shows "let n' = fst (on_peer_event ws now ms \<lparr>pe_id = leaf, pe_role = LR_Leaf, pe_state = LS_Closed, pe_client_id = cid\<rparr> n)
    in map_of (n_leaves n') leaf = None
     \<and> (case find_endpoint i (n_directory n) of
          None \<Rightarrow> find_endpoint i (n_directory n') = None
        | Some e \<Rightarrow> if owner_leaf e = leaf
            then \<exists>v > n_version_counter n. find_endpoint i (n_directory n') = Some (e\<lparr>ep_alive := False, ep_version := v, updated_ms := ms\<rparr>)
            else find_endpoint i (n_directory n') = Some e)"
proof -
  define d where "d = snd (snapshot ms ms (n_id n) (n_directory n))"
  define eps where "eps = fst (mark_dead leaf ms (n_version_counter n) (map snd (d_endpoints d)))"
  define snap where "snap = (fst (snapshot ms ms (n_id n) (n_directory n)))\<lparr>sn_endpoints := eps\<rparr>"
  let ?n = "fst (on_peer_event ws now ms \<lparr>pe_id = leaf, pe_role = LR_Leaf, pe_state = LS_Closed, pe_client_id = cid\<rparr> n)"
  have same: "d_endpoints d = d_endpoints (n_directory n)" by (simp add: d_def snapshot_parts)
  then have find: "find_endpoint j d = find_endpoint j (n_directory n)" for j by (simp add: find_endpoint_def)
  have ok: "dir_ok d" using dir_ok_snapshot assms(1) by (simp add: d_def)
  have rel: "list_all2 (dead_of leaf ms (n_version_counter n)) (map snd (d_endpoints d)) eps"
    unfolding eps_def by (rule mark_dead_spec) (use assms(4) same in simp)
  note m = merge_renewed [OF ok rel, where snap = snap and i = i and t = ms, unfolded find, OF assms(3)]
  obtain tp where tp: "map_of (n_leaves n) leaf = Some tp" using assms(2) by blast
  have leaves: "map_of (n_leaves ?n) leaf = None"
    using tp by (simp add: on_peer_event_def revoke_leaf_locked_def Let_def case_prod_beta om_erase_map_of)
  have dir: "d_endpoints (n_directory ?n) = (if \<exists>e \<in> snd ` set (d_endpoints d). owner_leaf e = leaf
      then d_endpoints (snd (merge_snapshot ms snap d)) else d_endpoints d)"
    using tp by (simp add: on_peer_event_def revoke_leaf_locked_def Let_def case_prod_beta d_def snap_def eps_def snapshot_parts)
  show ?thesis
  proof (cases "\<exists>e \<in> snd ` set (d_endpoints d). owner_leaf e = leaf")
    case True
    have "find_endpoint i (n_directory ?n) = find_endpoint i (snd (merge_snapshot ms snap d))"
      using dir True by (simp add: find_endpoint_def)
    then show ?thesis using leaves m by (auto simp: snap_def d_def snapshot_parts dead_of_def split: option.split)
  next
    case False
    have "find_endpoint i (n_directory ?n) = find_endpoint i (n_directory n)" using dir False same by (simp add: find_endpoint_def)
    moreover have "owner_leaf e \<noteq> leaf" if "find_endpoint i (n_directory n) = Some e" for e
      using that False same by (metis find_endpoint_def image_eqI map_of_SomeD snd_conv)
    ultimately show ?thesis using leaves by (auto split: option.split)
  qed
qed

theorem leaf_revoked_witness:
  "\<exists>n. \<exists>v > 9. find_endpoint ''x'' (n_directory (fst (on_peer_event (\<lambda>_. 0) 0 7 \<lparr>pe_id = ''l'', pe_role = LR_Leaf, pe_state = LS_Closed, pe_client_id = 0\<rparr> n)))
     = Some (empty_endpoint\<lparr>endpoint_id := ''x'', owner_leaf := ''l'', ep_version := v, updated_ms := 7\<rparr>)"
proof -
  define e where "e = empty_endpoint\<lparr>endpoint_id := ''x'', owner_leaf := ''l'', ep_version := 5, ep_alive := True\<rparr>"
  define n where "n = (new_node ''a'' [] 9)\<lparr>n_leaves := [(''l'', 0)], n_directory := new_directory\<lparr>d_endpoints := [(''x'', e)]\<rparr>\<rparr>"
  have f: "find_endpoint ''x'' (n_directory n) = Some e" "n_version_counter n = 9" "owner_leaf e = ''l''"
    by (simp_all add: n_def new_node_def find_endpoint_def e_def)
  have "dir_ok (n_directory n)" by (rule dir_okI) (auto simp: n_def new_node_def new_directory_def e_def empty_endpoint_def split: if_splits)
  moreover have "map_of (n_leaves n) ''l'' \<noteq> None" by (simp add: n_def)
  moreover have "\<forall>i e. find_endpoint i (n_directory n) = Some e \<and> owner_leaf e = ''l'' \<longrightarrow> ep_version e \<le> n_version_counter n"
    by (auto simp: n_def new_node_def find_endpoint_def e_def split: if_splits)
  moreover have "unat (n_version_counter n) + length (d_endpoints (n_directory n)) < 2 ^ 64" by (simp add: n_def new_node_def)
  ultimately have "\<exists>v > 9. find_endpoint ''x'' (n_directory (fst (on_peer_event (\<lambda>_. 0) 0 7 \<lparr>pe_id = ''l'', pe_role = LR_Leaf, pe_state = LS_Closed, pe_client_id = 0\<rparr> n)))
      = Some (e\<lparr>ep_alive := False, ep_version := v, updated_ms := 7\<rparr>)"
    using leaf_revoked [of n "''l''" "\<lambda>_. 0" 0 7 0 "''x''"] f by (simp add: Let_def)
  then show ?thesis by (simp add: e_def empty_endpoint_def) blast
qed

text \<open>Without that, the revocation can be lost: an endpoint of the leaf that another node has stamped with a
  version above this node's counter stays alive in the directory.\<close>

lemma revocation_lost:
  fixes e :: endpoint
  assumes "e = empty_endpoint\<lparr>endpoint_id := ''x'', owner_leaf := ''l'', ep_version := 12, ep_alive := True\<rparr>"
    and "n = (new_node ''a'' [] 9)\<lparr>n_leaves := [(''l'', 0)], n_directory := new_directory\<lparr>d_endpoints := [(''x'', e)]\<rparr>\<rparr>"
  shows "find_endpoint ''x'' (n_directory (fst (on_peer_event ws now ms \<lparr>pe_id = ''l'', pe_role = LR_Leaf, pe_state = LS_Closed, pe_client_id = cid\<rparr> n))) = Some e"
  using assms
  by (simp add: on_peer_event_def revoke_leaf_locked_def new_node_def new_directory_def snapshot_def Let_def find_endpoint_def
    broadcast_snapshot_locked_def merge_snapshot_def merge_endpoint_def)

text \<open>A leaf's snapshot, stamped.\<close>

definition stamp_of :: "string \<Rightarrow> u64 \<Rightarrow> u64 \<Rightarrow> endpoint \<Rightarrow> endpoint \<Rightarrow> bool" where
  "stamp_of self ms c e e' \<longleftrightarrow> (\<exists>v > c. e' = e\<lparr>owner_node := self, ep_version := v, updated_ms := ms\<rparr>)"

lemma stamp_of_mono: "stamp_of self ms c' e e' \<Longrightarrow> c \<le> c' \<Longrightarrow> stamp_of self ms c e e'"
  unfolding stamp_of_def using le_less_trans by blast

lemma stamp_endpoints_spec:
  assumes "unat c + length eps < 2 ^ 64" "\<forall>e \<in> set eps. owner_leaf e = leaf"
  shows "\<exists>eps' c'. stamp_endpoints self leaf ms c eps = (eps', map endpoint_id eps, c') \<and> list_all2 (stamp_of self ms c) eps eps'
    \<and> unat c' = unat c + length eps"
  using assms
proof (induction eps arbitrary: c)
  case (Cons ep eps)
  have c: "c < c + 1 \<and> unat (c + 1) = unat c + 1" using Cons.prems by (intro counter_step) simp
  then obtain eps' c' where i: "stamp_endpoints self leaf ms (c + 1) eps = (eps', map endpoint_id eps, c')"
      "list_all2 (stamp_of self ms (c + 1)) eps eps'" "unat c' = unat (c + 1) + length eps"
    using Cons.IH [of "c + 1"] Cons.prems by auto
  have "list_all2 (stamp_of self ms c) eps eps'" using i(2) by (rule list_all2_mono) (use c in \<open>auto intro: stamp_of_mono\<close>)
  moreover have "stamp_of self ms c ep (ep\<lparr>owner_node := self, ep_version := c + 1, updated_ms := ms\<rparr>)"
    unfolding stamp_of_def using c by blast
  ultimately show ?case using i c Cons.prems by auto
qed simp

lemma stamp_removals_spec:
  assumes "unat c + length ids < 2 ^ 64"
  shows "map endpoint_id (fst (stamp_removals ms c ids)) = ids \<and> (\<forall>r \<in> set (fst (stamp_removals ms c ids)). c < ep_version r)"
  using assms
proof (induction ids arbitrary: c)
  case (Cons i ids)
  have c: "c < c + 1 \<and> unat (c + 1) = unat c + 1" using Cons.prems by (intro counter_step) simp
  then show ?case using Cons.IH [of "c + 1"] Cons.prems by (auto simp: case_prod_beta intro: less_trans)
qed simp

lemma stamped_parts:
  assumes "list_all2 (stamp_of self ms c) eps eps'"
  shows "map endpoint_id eps' = map endpoint_id eps" "\<forall>e \<in> set eps'. c < ep_version e"
  using assms by (induction rule: list_all2_induct) (auto simp: stamp_of_def)

text \<open>What merging a batch of fresh endpoints and fresh removals, each name once, leaves in the directory.\<close>

lemma merge_fresh:
  assumes ok: "dir_ok d" and ids: "distinct (map endpoint_id (sn_endpoints snap))" "[] \<notin> set (map endpoint_id (sn_endpoints snap))"
    and apart: "set (map endpoint_id (sn_endpoints snap)) \<inter> set (map endpoint_id (sn_removed snap)) = {}"
    and new: "\<forall>e \<in> set (sn_endpoints snap) \<union> set (sn_removed snap). c < ep_version e"
    and old: "\<forall>i \<in> set (map endpoint_id (sn_endpoints snap @ sn_removed snap)).
        (\<forall>e. find_endpoint i d = Some e \<longrightarrow> ep_version e \<le> c) \<and> (\<forall>t. map_of (d_tombstones d) i = Some t \<longrightarrow> ts_version t \<le> c)"
  shows "e \<in> set (sn_endpoints snap) \<Longrightarrow> find_endpoint (endpoint_id e) (snd (merge_snapshot t snap d)) = Some e"
    and "i \<in> set (map endpoint_id (sn_removed snap)) \<Longrightarrow> find_endpoint i (snd (merge_snapshot t snap d)) = None"
    and "i \<notin> set (map endpoint_id (sn_endpoints snap @ sn_removed snap)) \<Longrightarrow> find_endpoint i (snd (merge_snapshot t snap d)) = find_endpoint i d"
proof -
  let ?U = "updates_of d \<union> snd ` set (snapshot_updates t snap)"
  let ?d = "snd (merge_snapshot t snap d)"
  have r: "reflects ?U ?d" by (rule merge_reflects [OF ok])
  have empty: "find_endpoint [] ?d = None" "find_endpoint [] d = None"
    using dir_okD(4) [OF reflects_dir_ok [OF r], of "[]"] dir_okD(4) [OF ok, of "[]"]
    by (fastforce simp: find_endpoint_def)+
  note S = seen_Un seen_updates_of [OF ok] seen_snapshot
  show "find_endpoint (endpoint_id e) ?d = Some e" if e: "e \<in> set (sn_endpoints snap)"
  proof (rule reflects_newest [OF r])
    have i: "endpoint_id e \<noteq> []" using ids(2) e by force
    then show "e \<in> seen_endpoints ?U (endpoint_id e)" using e by (simp add: S)
    have "endpoint_id e \<in> set (map endpoint_id (sn_endpoints snap @ sn_removed snap))" using e by simp
    note o = bspec [OF old this]
    have n: "c < ep_version e" using new e by blast
    have le: "ep_version f < ep_version e" if "find_endpoint (endpoint_id e) d = Some f" for f
      using o that n le_less_trans by blast
    have same: "f = e" if "f \<in> set (sn_endpoints snap)" "endpoint_id f = endpoint_id e" for f
      using that ids(1) e by (auto simp: distinct_map inj_on_def)
    show "\<forall>f \<in> seen_endpoints ?U (endpoint_id e). f \<noteq> e \<longrightarrow> ep_version f < ep_version e"
      using le same by (auto simp: S i)
    have "{ep \<in> set (sn_removed snap). endpoint_id ep = endpoint_id e} = {}" using apart e by force
    then show "\<forall>v \<in> seen_removals ?U (endpoint_id e). v < ep_version e"
      using o n by (auto simp: S i intro: le_less_trans)
  qed
  show "find_endpoint i ?d = None" if i: "i \<in> set (map endpoint_id (sn_removed snap))"
  proof (cases "i = []")
    case False
    obtain x where x: "x \<in> set (sn_removed snap)" "endpoint_id x = i" using i by auto
    have "i \<in> set (map endpoint_id (sn_endpoints snap @ sn_removed snap))" using i by simp
    note o = bspec [OF old this]
    have n: "c < ep_version x" using new x by blast
    show ?thesis
    proof (rule reflects_removed [OF r])
      show "ep_version x \<in> seen_removals ?U i" using x False by (auto simp: S)
      have "{ep \<in> set (sn_endpoints snap). endpoint_id ep = i} = {}" using apart i by force
      then show "\<forall>e \<in> seen_endpoints ?U i. ep_version e \<le> ep_version x"
        using o n False by (auto simp: S intro: order_trans less_imp_le)
    qed
  qed (use empty in simp)
  show "find_endpoint i ?d = find_endpoint i d" if i: "i \<notin> set (map endpoint_id (sn_endpoints snap @ sn_removed snap))"
  proof (cases "i = []")
    case False
    have "{ep \<in> set (sn_endpoints snap). endpoint_id ep = i} = {}" "{ep \<in> set (sn_removed snap). endpoint_id ep = i} = {}" using i by auto
    then have "seen_endpoints ?U i = set_option (find_endpoint i d)" "seen_removals ?U i = ts_version ` set_option (map_of (d_tombstones d) i)"
      by (auto simp: seen_Un seen_updates_of [OF ok] seen_snapshot [OF False])
    then show ?thesis
      using reflectsD [OF r, of i] reflectsD [OF dir_ok_reflects [OF ok], of i] seen_updates_of [OF ok, of i]
      by (cases "find_endpoint i d"; cases "find_endpoint i ?d") (force simp: name_ok_def find_endpoint_def)+
  qed (use empty in simp)
qed

text \<open>The directory after a leaf's snapshot is the old one merged with the stamped snapshot.\<close>

lemma leaf_snapshot_merged:
  assumes "map_of (n_leaves n) leaf \<noteq> None" "\<forall>e \<in> set (sn_endpoints snap). owner_leaf e = leaf" "sn_removed snap = []"
    and "prev = (case map_of (n_leaf_endpoints n) leaf of Some old \<Rightarrow> old | None \<Rightarrow> [])"
    and "unat (n_version_counter n) + length (sn_endpoints snap) + length prev < 2 ^ 64"
  shows "\<exists>snap'. d_endpoints (n_directory (fst (handle_directory ws now ms leaf snap raw n)))
        = d_endpoints (snd (merge_snapshot ms snap' (n_directory n)))
     \<and> list_all2 (stamp_of (n_id n) ms (n_version_counter n)) (sn_endpoints snap) (sn_endpoints snap')
     \<and> map endpoint_id (sn_removed snap') = filter (\<lambda>i. i \<notin> set (map endpoint_id (sn_endpoints snap))) prev
     \<and> (\<forall>r \<in> set (sn_removed snap'). n_version_counter n < ep_version r)"
proof -
  let ?c = "n_version_counter n"
  let ?eps = "sn_endpoints snap"
  let ?gone = "filter (\<lambda>i. i \<notin> set (map endpoint_id ?eps)) prev"
  obtain eps' c' where st: "stamp_endpoints (n_id n) leaf ms ?c ?eps = (eps', map endpoint_id ?eps, c')"
      "list_all2 (stamp_of (n_id n) ms ?c) ?eps eps'" "unat c' = unat ?c + length ?eps"
    using stamp_endpoints_spec [of ?c ?eps leaf "n_id n" ms] assms(2,5) by auto
  define rs where "rs = fst (stamp_removals ms c' ?gone)"
  have le: "?c \<le> c'" using st(3) by (simp add: word_le_nat_alt)
  have "unat c' + length ?gone < 2 ^ 64"
    using length_filter_le [of "\<lambda>i. i \<notin> set (map endpoint_id ?eps)" prev] st(3) assms(5) by linarith
  from stamp_removals_spec [OF this, of ms] have "map endpoint_id rs = ?gone" "\<forall>r \<in> set rs. ?c < ep_version r"
    using le unfolding rs_def by (auto intro: le_less_trans)
  moreover have "d_endpoints (n_directory (fst (handle_directory ws now ms leaf snap raw n)))
      = d_endpoints (snd (merge_snapshot ms (snap\<lparr>sn_endpoints := eps', sn_removed := rs\<rparr>) (n_directory n)))"
    using assms(1,3,4) st(1)
    by (simp add: handle_directory_def classify_source_def stamp_leaf_snapshot_def merge_and_publish_def Let_def case_prod_beta rs_def)
  ultimately show ?thesis using st(2) by (intro exI [of _ "snap\<lparr>sn_endpoints := eps', sn_removed := rs\<rparr>"]) simp
qed

text \<open>The snapshot of a leaf is authoritative for the leaf's endpoints: when a known leaf sends the list of
  its endpoints, each under a name of its own, the node's directory afterwards shows each of them, owned
  by this node and with a fresh version; the endpoints the leaf had listed before and lists no more are
  gone; and every other entry is as it was, provided what the directory knows of the leaf's endpoints
  carries versions of this node's counter and the counter does not wrap.\<close>

theorem leaf_snapshot_authoritative:
  assumes "dir_ok (n_directory n)" "map_of (n_leaves n) leaf \<noteq> None"
    and "\<forall>e \<in> set (sn_endpoints snap). owner_leaf e = leaf" "sn_removed snap = []"
    and "distinct (map endpoint_id (sn_endpoints snap))" "[] \<notin> set (map endpoint_id (sn_endpoints snap))"
    and "prev = (case map_of (n_leaf_endpoints n) leaf of Some old \<Rightarrow> old | None \<Rightarrow> [])"
    and "\<forall>i \<in> set (map endpoint_id (sn_endpoints snap) @ prev).
        (\<forall>e. find_endpoint i (n_directory n) = Some e \<longrightarrow> ep_version e \<le> n_version_counter n)
        \<and> (\<forall>t. map_of (d_tombstones (n_directory n)) i = Some t \<longrightarrow> ts_version t \<le> n_version_counter n)"
    and "unat (n_version_counter n) + length (sn_endpoints snap) + length prev < 2 ^ 64"
  shows "let d' = n_directory (fst (handle_directory ws now ms leaf snap raw n)); ids = set (map endpoint_id (sn_endpoints snap))
    in (\<forall>e \<in> set (sn_endpoints snap). \<exists>v > n_version_counter n.
          find_endpoint (endpoint_id e) d' = Some (e\<lparr>owner_node := n_id n, ep_version := v, updated_ms := ms\<rparr>))
     \<and> (\<forall>i \<in> set prev - ids. find_endpoint i d' = None)
     \<and> (\<forall>i. i \<notin> set prev \<union> ids \<longrightarrow> find_endpoint i d' = find_endpoint i (n_directory n))"
proof -
  let ?c = "n_version_counter n"
  let ?eps = "sn_endpoints snap"
  obtain snap' where dir: "d_endpoints (n_directory (fst (handle_directory ws now ms leaf snap raw n)))
        = d_endpoints (snd (merge_snapshot ms snap' (n_directory n)))"
      and st: "list_all2 (stamp_of (n_id n) ms ?c) ?eps (sn_endpoints snap')"
      and rs: "map endpoint_id (sn_removed snap') = filter (\<lambda>i. i \<notin> set (map endpoint_id ?eps)) prev" "\<forall>r \<in> set (sn_removed snap'). ?c < ep_version r"
    using leaf_snapshot_merged [OF assms(2-4,7,9)] by blast
  note ids = stamped_parts(1) [OF st] rs(1)
  have f1: "distinct (map endpoint_id (sn_endpoints snap'))" "[] \<notin> set (map endpoint_id (sn_endpoints snap'))"
    "set (map endpoint_id (sn_endpoints snap')) \<inter> set (map endpoint_id (sn_removed snap')) = {}"
    unfolding ids using assms(5,6) by auto
  have f2: "\<forall>e \<in> set (sn_endpoints snap') \<union> set (sn_removed snap'). ?c < ep_version e" using stamped_parts(2) [OF st] rs(2) by blast
  have f3: "\<forall>i \<in> set (map endpoint_id (sn_endpoints snap' @ sn_removed snap')).
        (\<forall>e. find_endpoint i (n_directory n) = Some e \<longrightarrow> ep_version e \<le> ?c)
        \<and> (\<forall>t. map_of (d_tombstones (n_directory n)) i = Some t \<longrightarrow> ts_version t \<le> ?c)"
    unfolding map_append ids by (rule ballI, rule bspec [OF assms(8)]) auto
  note m = merge_fresh [OF assms(1) f1 f2 f3, where t = ms]
  have find: "find_endpoint i (n_directory (fst (handle_directory ws now ms leaf snap raw n)))
      = find_endpoint i (snd (merge_snapshot ms snap' (n_directory n)))" for i using dir by (simp add: find_endpoint_def)
  have "\<exists>v > ?c. find_endpoint (endpoint_id e) (snd (merge_snapshot ms snap' (n_directory n)))
      = Some (e\<lparr>owner_node := n_id n, ep_version := v, updated_ms := ms\<rparr>)" if mem: "e \<in> set ?eps" for e
  proof -
    obtain e' where "e' \<in> set (sn_endpoints snap')" "stamp_of (n_id n) ms ?c e e'" using list_all2_mem(1) [OF st mem] by blast
    then show ?thesis using m(1) [of e'] by (auto simp: stamp_of_def)
  qed
  moreover have "find_endpoint i (snd (merge_snapshot ms snap' (n_directory n))) = None" if "i \<in> set prev - set (map endpoint_id ?eps)" for i
    using m(2) [of i, unfolded ids] that by simp
  moreover have "find_endpoint i (snd (merge_snapshot ms snap' (n_directory n))) = find_endpoint i (n_directory n)"
    if "i \<notin> set prev \<union> set (map endpoint_id ?eps)" for i
    using m(3) [of i, unfolded map_append ids] that by simp
  ultimately show ?thesis unfolding Let_def find by blast
qed

theorem leaf_snapshot_authoritative_witness:
  "\<exists>n snap. n_leaf_endpoints n = [(''l'', [''y''])] \<and> find_endpoint ''y'' (n_directory n) \<noteq> None
     \<and> find_endpoint ''y'' (n_directory (fst (handle_directory (\<lambda>_. 0) 0 7 ''l'' snap 0 n))) = None
     \<and> (\<exists>e. find_endpoint ''x'' (n_directory (fst (handle_directory (\<lambda>_. 0) 0 7 ''l'' snap 0 n))) = Some e \<and> owner_node e = ''a'')"
proof -
  define x where "x = empty_endpoint\<lparr>endpoint_id := ''x'', owner_leaf := ''l'', ep_alive := True\<rparr>"
  define y where "y = empty_endpoint\<lparr>endpoint_id := ''y'', owner_leaf := ''l'', ep_version := 5, ep_alive := True\<rparr>"
  define n where "n = (new_node ''a'' [] 9)\<lparr>n_leaves := [(''l'', 0)], n_leaf_endpoints := [(''l'', [''y''])],
     n_directory := new_directory\<lparr>d_endpoints := [(''y'', y)]\<rparr>\<rparr>"
  define snap where "snap = \<lparr>sn_source_id = ''l'', sn_version = 1, sn_generated_ms = 0, sn_endpoints = [x], sn_removed = []\<rparr>"
  have f: "find_endpoint ''y'' (n_directory n) = Some y" "n_version_counter n = 9" "n_leaf_endpoints n = [(''l'', [''y''])]" "n_id n = ''a''"
    "endpoint_id x = ''x''" "sn_endpoints snap = [x]" "sn_removed snap = []" "owner_leaf x = ''l''" "map_of (n_leaves n) ''l'' = Some 0"
    by (simp_all add: n_def new_node_def find_endpoint_def x_def snap_def)
  have ok: "dir_ok (n_directory n)" by (rule dir_okI) (auto simp: n_def new_node_def new_directory_def y_def empty_endpoint_def split: if_splits)
  have v: "\<forall>i \<in> set (map endpoint_id (sn_endpoints snap) @ [''y'']).
      (\<forall>e. find_endpoint i (n_directory n) = Some e \<longrightarrow> ep_version e \<le> n_version_counter n)
      \<and> (\<forall>t. map_of (d_tombstones (n_directory n)) i = Some t \<longrightarrow> ts_version t \<le> n_version_counter n)"
    by (simp add: f(5,6)) (simp add: n_def new_node_def new_directory_def find_endpoint_def y_def)
  let ?d = "n_directory (fst (handle_directory (\<lambda>_. 0) 0 7 ''l'' snap 0 n))"
  have "let d' = ?d; ids = set (map endpoint_id (sn_endpoints snap))
    in (\<forall>e \<in> set (sn_endpoints snap). \<exists>v > n_version_counter n.
          find_endpoint (endpoint_id e) d' = Some (e\<lparr>owner_node := n_id n, ep_version := v, updated_ms := 7\<rparr>))
     \<and> (\<forall>i \<in> set [''y''] - ids. find_endpoint i d' = None)
     \<and> (\<forall>i. i \<notin> set [''y''] \<union> ids \<longrightarrow> find_endpoint i d' = find_endpoint i (n_directory n))"
    by (rule leaf_snapshot_authoritative [OF ok _ _ _ _ _ _ v]) (simp_all add: f)
  then have "\<exists>v > 9. find_endpoint ''x'' ?d = Some (x\<lparr>owner_node := ''a'', ep_version := v, updated_ms := 7\<rparr>)" "find_endpoint ''y'' ?d = None"
    unfolding Let_def f(2,4,6) by (simp_all add: f(5))
  then show ?thesis using f by (intro exI [of _ n] exI [of _ snap]) auto
qed

end
