(* ===== verification/Framework.thy ===== *)
theory Framework
  imports Queue Timer "HOL-Library.List_Lexorder" "HOL-Library.Char_ord"
begin

text \<open>
  The reactor framework the runtimes are built on (\<open>src/framework/\<close>): worker pools fed by the timer, the
  blackboard with its set of changed keys, and the cycle of a heartbeat: drain the input channel, run the
  batch processor, run the evolvers on the changed keys, hand the resulting calls to the stage-four
  workers and feed the resulting messages back into the input.

  The batch processor, the evolvers, the tasks and the outgoing calls are functions of the application:
  the first two are parameters that may change the blackboard, the last two are opaque values. Channels are
  those of the queue theory, nodes and all; \<open>None\<close> stands for an access to a node that is not allocated.
  Data on the blackboard is a value with the name of its type. Sets of keys are lists without
  repetitions, whose order means nothing. Mutex-protected operations are functions,
  threads are the interleavings of a step relation.

  The lemmas show that a pool runs every task once and in order, that a cycle neither loses nor repeats nor
  reorders messages, and what the counter of pending calls means while calls are made and run.
\<close>

section \<open>Messages and changes\<close>

datatype message_kind = MK_UdpDatagram | MK_PeerEvent | MK_GrpcRequest | MK_JsonRpcRequest | MK_AdminCommand
  | MK_TimerTick | MK_ExternalCallResult | MK_SystemEvent | MK_Custom

record message =
  mg_id :: u64
  mg_kind :: message_kind
  mg_created_at :: timepoint
  mg_source :: string
  mg_payload :: bytes
  mg_service_name :: "string option"
  mg_rpc_name :: "string option"

definition next_message_id :: "u64 \<Rightarrow> u64 \<times> u64" where
  "next_message_id ctr = (ctr, ctr + 1)"

definition new_message :: "timepoint \<Rightarrow> message_kind \<Rightarrow> string \<Rightarrow> u64 \<Rightarrow> message \<times> u64" where
  "new_message now kind src ctr =
     (case next_message_id ctr of (i, ctr) \<Rightarrow>
        (\<lparr>mg_id = i, mg_kind = kind, mg_created_at = now, mg_source = src, mg_payload = [], mg_service_name = None, mg_rpc_name = None\<rparr>, ctr))"

record 'c change_set =
  cs_new_messages :: "message list"
  cs_external_calls :: "'c list"

definition empty_changes :: "'c change_set" where
  "empty_changes = \<lparr>cs_new_messages = [], cs_external_calls = []\<rparr>"

definition append_changes :: "'c change_set \<Rightarrow> 'c change_set \<Rightarrow> 'c change_set" where
  "append_changes a b = \<lparr>cs_new_messages = cs_new_messages a @ cs_new_messages b, cs_external_calls = cs_external_calls a @ cs_external_calls b\<rparr>"

section \<open>The blackboard\<close>

datatype data_policy = DP_ThreadOwned | DP_SharedLocked | DP_ValueCopy

record 'v bb_entry =
  bb_type :: string
  bb_policy :: data_policy
  bb_data :: 'v

record 'v blackboard =
  bb_registry :: "(string, 'v bb_entry) omap"
  bb_changed :: "string list"

definition new_blackboard :: "'v blackboard" where
  "new_blackboard = \<lparr>bb_registry = [], bb_changed = []\<rparr>"

definition register_value :: "string \<Rightarrow> string \<Rightarrow> 'v \<Rightarrow> data_policy \<Rightarrow> 'v blackboard \<Rightarrow> 'v blackboard" where
  "register_value ty key v policy bb =
     bb\<lparr>bb_registry := om_set key \<lparr>bb_type = ty, bb_policy = policy, bb_data = v\<rparr> (bb_registry bb)\<rparr>"

definition bb_get :: "string \<Rightarrow> string \<Rightarrow> 'v blackboard \<Rightarrow> 'v option" where
  "bb_get ty key bb =
     (case map_of (bb_registry bb) key of
        None \<Rightarrow> None
      | Some e \<Rightarrow> if bb_type e \<noteq> ty then None else Some (bb_data e))"

definition mark_changed :: "string \<Rightarrow> 'v blackboard \<Rightarrow> 'v blackboard" where
  "mark_changed key bb = bb\<lparr>bb_changed := List.insert key (bb_changed bb)\<rparr>"

definition clear_changed_keys :: "'v blackboard \<Rightarrow> 'v blackboard" where
  "clear_changed_keys bb = bb\<lparr>bb_changed := []\<rparr>"

definition swap_changed_keys :: "'v blackboard \<Rightarrow> string list \<times> 'v blackboard" where
  "swap_changed_keys bb = (bb_changed bb, bb\<lparr>bb_changed := []\<rparr>)"

definition bb_size :: "'v blackboard \<Rightarrow> nat" where "bb_size bb = length (bb_registry bb)"

definition bb_contains :: "string \<Rightarrow> 'v blackboard \<Rightarrow> bool" where
  "bb_contains key bb \<longleftrightarrow> map_of (bb_registry bb) key \<noteq> None"

definition bb_remove :: "string \<Rightarrow> 'v blackboard \<Rightarrow> 'v blackboard" where
  "bb_remove key bb = bb\<lparr>bb_registry := om_erase key (bb_registry bb)\<rparr>"

definition export_snapshot :: "'v blackboard \<Rightarrow> (string, string \<times> 'v) omap" where
  "export_snapshot bb = map (\<lambda>ke. (fst ke, bb_type (snd ke), bb_data (snd ke))) (bb_registry bb)"

section \<open>The evolvers\<close>

type_synonym ('v, 'c) evolve_fn = "'v blackboard \<Rightarrow> string list \<Rightarrow> 'c change_set \<times> 'v blackboard"

record ('v, 'c) evolver =
  ev_names :: "string list"
  ev_functions :: "('v, 'c) evolve_fn list"

definition new_evolver :: "('v, 'c) evolver" where
  "new_evolver = \<lparr>ev_names = [], ev_functions = []\<rparr>"

definition register_component :: "string \<Rightarrow> ('v, 'c) evolve_fn \<Rightarrow> ('v, 'c) evolver \<Rightarrow> ('v, 'c) evolver" where
  "register_component name f ev = \<lparr>ev_names = ev_names ev @ [name], ev_functions = ev_functions ev @ [f]\<rparr>"

fun index_of :: "'a \<Rightarrow> 'a list \<Rightarrow> nat option" where
  "index_of x [] = None"
| "index_of x (y # ys) = (if y = x then Some 0 else map_option Suc (index_of x ys))"

definition erase_at :: "nat \<Rightarrow> 'a list \<Rightarrow> 'a list" where
  "erase_at i xs = take i xs @ drop (Suc i) xs"

definition unregister_component :: "string \<Rightarrow> ('v, 'c) evolver \<Rightarrow> ('v, 'c) evolver" where
  "unregister_component name ev =
     (case index_of name (ev_names ev) of
        None \<Rightarrow> ev
      | Some i \<Rightarrow> \<lparr>ev_names = erase_at i (ev_names ev), ev_functions = erase_at i (ev_functions ev)\<rparr>)"

fun evolve_all :: "('v, 'c) evolve_fn list \<Rightarrow> string list \<Rightarrow> 'c change_set \<Rightarrow> 'v blackboard \<Rightarrow> 'c change_set \<times> 'v blackboard" where
  "evolve_all [] keys acc bb = (acc, bb)"
| "evolve_all (f # fs) keys acc bb = (case f bb keys of (cs, bb) \<Rightarrow> evolve_all fs keys (append_changes acc cs) bb)"

definition evolve_once :: "('v, 'c) evolver \<Rightarrow> 'v blackboard \<Rightarrow> 'c change_set \<times> 'v blackboard" where
  "evolve_once ev bb =
     (case swap_changed_keys bb of (keys, bb) \<Rightarrow>
        if keys = [] then (empty_changes, bb) else evolve_all (ev_functions ev) keys empty_changes bb)"

section \<open>The heartbeat\<close>

type_synonym ('v, 'c) batch_processor = "message list \<Rightarrow> 'v blackboard \<Rightarrow> 'c change_set \<times> 'v blackboard"

record ('v, 'c) heartbeat =
  hb_processor :: "('v, 'c) batch_processor option"
  hb_last_batch_size :: nat
  hb_generate_tick :: bool

definition new_heartbeat :: "('v, 'c) heartbeat" where
  "new_heartbeat = \<lparr>hb_processor = None, hb_last_batch_size = 0, hb_generate_tick = True\<rparr>"

definition set_processor :: "('v, 'c) batch_processor \<Rightarrow> ('v, 'c) heartbeat \<Rightarrow> ('v, 'c) heartbeat" where
  "set_processor p hb = hb\<lparr>hb_processor := Some p\<rparr>"

text \<open>The batch handed to the processor, the tick message included, is part of the result.\<close>

record ('v, 'c) beat_result =
  br_batch :: "message list"
  br_changes :: "'c change_set"
  br_heartbeat :: "('v, 'c) heartbeat"
  br_input :: "message cchannel"
  br_blackboard :: "'v blackboard"
  br_msg_ctr :: u64

definition beat :: "timepoint \<Rightarrow> ('v, 'c) heartbeat \<Rightarrow> message cchannel \<Rightarrow> 'v blackboard \<Rightarrow> u64 \<Rightarrow> ('v, 'c) beat_result option" where
  "beat now hb input bb ctr = do {
     let bb = clear_changed_keys bb;
     (count, batch, input) \<leftarrow> drain_all [] input;
     let hb = hb\<lparr>hb_last_batch_size := count\<rparr>;
     let (batch, ctr) = (if hb_generate_tick hb
                         then (case new_message now MK_TimerTick ''heartbeat'' ctr of (m, ctr) \<Rightarrow> (batch @ [m], ctr))
                         else (batch, ctr));
     let (cs, bb) = (case hb_processor hb of None \<Rightarrow> (empty_changes, bb) | Some p \<Rightarrow> p batch bb);
     Some \<lparr>br_batch = batch, br_changes = cs, br_heartbeat = hb, br_input = input, br_blackboard = bb, br_msg_ctr = ctr\<rparr> }"

section \<open>Stage four\<close>

record 'c stage4 =
  s4_work :: "'c cchannel"
  s4_pending :: u64
  s4_running :: bool

definition new_stage4 :: "nat \<Rightarrow> 'c stage4" where
  "new_stage4 cap = \<lparr>s4_work = new_channel cap, s4_pending = 0, s4_running = False\<rparr>"

fun send_all :: "'a list \<Rightarrow> 'a cchannel \<Rightarrow> 'a cchannel option" where
  "send_all [] c = Some c"
| "send_all (x # xs) c = do { c \<leftarrow> channel_send x c; send_all xs c }"

definition count_calls :: "nat \<Rightarrow> 'c stage4 \<Rightarrow> 'c stage4" where
  "count_calls n s = s\<lparr>s4_pending := s4_pending s + of_nat n\<rparr>"

definition execute :: "'c change_set \<Rightarrow> message cchannel \<Rightarrow> 'c stage4 \<Rightarrow> (message cchannel \<times> 'c stage4) option" where
  "execute cs out s = do {
     out \<leftarrow> send_all (cs_new_messages cs) out;
     work \<leftarrow> send_all (cs_external_calls cs) (s4_work s);
     Some (out, count_calls (length (cs_external_calls cs)) (s\<lparr>s4_work := work\<rparr>)) }"

definition stage4_start :: "'c stage4 \<Rightarrow> 'c stage4" where
  "stage4_start s = (if s4_running s then s else s\<lparr>s4_running := True\<rparr>)"

definition stage4_stop :: "'c stage4 \<Rightarrow> 'c stage4 option" where
  "stage4_stop s = do { work \<leftarrow> close_channel (s4_work s); Some (s\<lparr>s4_running := False, s4_work := work\<rparr>) }"

text \<open>One round of a worker: it ends when the executor has stopped, otherwise waits for a call; running the
  call, whether it returns or throws, is followed by \<open>worker_done\<close>.\<close>

definition worker_take :: "bool \<Rightarrow> 'c stage4 \<Rightarrow> ('c option waiting \<times> 'c stage4) option" where
  "worker_take timed_out s =
     (if \<not> s4_running s then Some (Ready None, s)
      else do { (r, work) \<leftarrow> recv_for timed_out (s4_work s); Some (r, s\<lparr>s4_work := work\<rparr>) })"

definition worker_done :: "'c stage4 \<Rightarrow> 'c stage4" where
  "worker_done s = s\<lparr>s4_pending := s4_pending s - 1\<rparr>"

section \<open>The reactor\<close>

record 'f pool =
  wp_queue :: "'f task list"
  wp_running :: bool

record 'f reactor =
  rx_timer :: "'f timer"
  rx_io :: "'f pool"
  rx_cpu :: "'f pool"
  rx_running :: bool
  rx_task_ctr :: u64

definition new_reactor :: "int \<Rightarrow> u64 \<Rightarrow> 'f reactor" where
  "new_reactor skip_ms ctr = \<lparr>rx_timer = new_timer skip_ms, rx_io = \<lparr>wp_queue = [], wp_running = False\<rparr>,
     rx_cpu = \<lparr>wp_queue = [], wp_running = False\<rparr>, rx_running = False, rx_task_ctr = ctr\<rparr>"

definition pool_submit :: "'f task \<Rightarrow> 'f pool \<Rightarrow> 'f pool" where
  "pool_submit t p = p\<lparr>wp_queue := wp_queue p @ [t]\<rparr>"

definition submit_io :: "'f task \<Rightarrow> 'f reactor \<Rightarrow> 'f reactor" where
  "submit_io t r = r\<lparr>rx_io := pool_submit t (rx_io r)\<rparr>"

definition submit_cpu :: "'f task \<Rightarrow> 'f reactor \<Rightarrow> 'f reactor" where
  "submit_cpu t r = r\<lparr>rx_cpu := pool_submit t (rx_cpu r)\<rparr>"

definition schedule_timer_at :: "'f task \<Rightarrow> timepoint \<Rightarrow> 'f reactor \<Rightarrow> 'f reactor" where
  "schedule_timer_at t deadline r = r\<lparr>rx_timer := schedule_at t deadline (rx_timer r)\<rparr>"

definition schedule_timer_in :: "timepoint \<Rightarrow> 'f task \<Rightarrow> duration \<Rightarrow> 'f reactor \<Rightarrow> 'f reactor" where
  "schedule_timer_in now t delay r = r\<lparr>rx_timer := schedule_in now t delay (rx_timer r)\<rparr>"

definition schedule_periodic :: "timepoint \<Rightarrow> string \<Rightarrow> 'f \<Rightarrow> duration \<Rightarrow> task_priority \<Rightarrow> bool \<Rightarrow> 'f reactor \<Rightarrow> u64 \<times> 'f reactor" where
  "schedule_periodic now name f period prio skippable r =
     (case next_id (rx_task_ctr r) of (pid, ctr) \<Rightarrow>
      case new_task name f prio skippable ctr of (t, ctr) \<Rightarrow>
        (pid, r\<lparr>rx_timer := schedule_periodic_entry now t period pid (rx_timer r), rx_task_ctr := ctr\<rparr>))"

definition reactor_cancel_periodic :: "u64 \<Rightarrow> 'f reactor \<Rightarrow> bool \<times> 'f reactor" where
  "reactor_cancel_periodic i r = (case cancel_periodic i (rx_timer r) of (found, tm) \<Rightarrow> (found, r\<lparr>rx_timer := tm\<rparr>))"

definition reactor_start :: "'f reactor \<Rightarrow> 'f reactor" where
  "reactor_start r = (if rx_running r then r
     else r\<lparr>rx_running := True, rx_io := (rx_io r)\<lparr>wp_running := True\<rparr>, rx_cpu := (rx_cpu r)\<lparr>wp_running := True\<rparr>\<rparr>)"

definition reactor_stop :: "'f reactor \<Rightarrow> 'f reactor" where
  "reactor_stop r = r\<lparr>rx_running := False, rx_io := (rx_io r)\<lparr>wp_running := False\<rparr>, rx_cpu := (rx_cpu r)\<lparr>wp_running := False\<rparr>\<rparr>"

text \<open>One round of the timer thread: each expired task goes to the pool of its priority.\<close>

definition for_cpu :: "'f task \<Rightarrow> bool" where
  "for_cpu t \<longleftrightarrow> t_priority t = TP_Critical \<or> t_priority t = TP_High"

definition timer_round :: "timepoint \<Rightarrow> 'f reactor \<Rightarrow> 'f reactor" where
  "timer_round now r =
     (if \<not> rx_running r then r
      else case get_expired_tasks now (rx_task_ctr r) (rx_timer r) of
        (ts, skipped, ctr, tm) \<Rightarrow>
          fold (\<lambda>t r. if for_cpu t then submit_cpu t r else submit_io t r) ts (r\<lparr>rx_timer := tm, rx_task_ctr := ctr\<rparr>))"

text \<open>One round of \<open>io_loop\<close> and \<open>cpu_loop\<close>: the loop ends, idles or has a task to run.\<close>

datatype 'f worker_step = WsEnd | WsIdle | WsRun "'f task"

definition pool_take :: "'f pool \<Rightarrow> 'f worker_step \<times> 'f pool" where
  "pool_take p =
     (if \<not> wp_running p then (WsEnd, p)
      else case wp_queue p of
             [] \<Rightarrow> (WsIdle, p)
           | t # q \<Rightarrow> (WsRun t, p\<lparr>wp_queue := q\<rparr>))"

definition io_loop :: "'f reactor \<Rightarrow> 'f worker_step \<times> 'f reactor" where
  "io_loop r = (case pool_take (rx_io r) of (s, p) \<Rightarrow> (s, r\<lparr>rx_io := p\<rparr>))"

definition cpu_loop :: "'f reactor \<Rightarrow> 'f worker_step \<times> 'f reactor" where
  "cpu_loop r = (case pool_take (rx_cpu r) of (s, p) \<Rightarrow> (s, r\<lparr>rx_cpu := p\<rparr>))"

definition io_queue_depth :: "'f reactor \<Rightarrow> nat" where "io_queue_depth r = length (wp_queue (rx_io r))"
definition cpu_queue_depth :: "'f reactor \<Rightarrow> nat" where "cpu_queue_depth r = length (wp_queue (rx_cpu r))"

text \<open>A task is reported as slow above one second in the pool for input and output, above ten milliseconds in
  the other.\<close>

definition slow_io :: "duration \<Rightarrow> bool" where "slow_io elapsed \<longleftrightarrow> 1000000 < count_us elapsed"
definition slow_cpu :: "duration \<Rightarrow> bool" where "slow_cpu elapsed \<longleftrightarrow> 10000 < count_us elapsed"

section \<open>Framework metrics\<close>

record framework_metrics =
  fm_processed :: u64
  fm_dropped :: u64
  fm_heartbeats :: u64
  fm_skipped :: u64
  fm_fired :: u64
  fm_io_depth :: int
  fm_cpu_depth :: int
  fm_duration_us :: u64
  fm_max_duration_us :: u64

definition record_heartbeat :: "u64 \<Rightarrow> framework_metrics \<Rightarrow> framework_metrics" where
  "record_heartbeat us m = m\<lparr>fm_heartbeats := fm_heartbeats m + 1, fm_duration_us := us,
     fm_max_duration_us := (if fm_max_duration_us m < us then us else fm_max_duration_us m)\<rparr>"

definition record_message_processed :: "framework_metrics \<Rightarrow> framework_metrics" where
  "record_message_processed m = m\<lparr>fm_processed := fm_processed m + 1\<rparr>"

definition record_message_dropped :: "framework_metrics \<Rightarrow> framework_metrics" where
  "record_message_dropped m = m\<lparr>fm_dropped := fm_dropped m + 1\<rparr>"

definition record_timer_task_skipped :: "framework_metrics \<Rightarrow> framework_metrics" where
  "record_timer_task_skipped m = m\<lparr>fm_skipped := fm_skipped m + 1\<rparr>"

definition record_timer_task_fired :: "framework_metrics \<Rightarrow> framework_metrics" where
  "record_timer_task_fired m = m\<lparr>fm_fired := fm_fired m + 1\<rparr>"

definition set_io_queue_depth :: "int \<Rightarrow> framework_metrics \<Rightarrow> framework_metrics" where
  "set_io_queue_depth d m = m\<lparr>fm_io_depth := d\<rparr>"

definition set_cpu_queue_depth :: "int \<Rightarrow> framework_metrics \<Rightarrow> framework_metrics" where
  "set_cpu_queue_depth d m = m\<lparr>fm_cpu_depth := d\<rparr>"

definition is_overloaded :: "framework_metrics \<Rightarrow> bool" where
  "is_overloaded m \<longleftrightarrow> 40000 < fm_duration_us m"

section \<open>The framework\<close>

record ('v, 'c, 'f) framework =
  fw_reactor :: "'f reactor"
  fw_blackboard :: "'v blackboard"
  fw_metrics :: framework_metrics
  fw_input_buffer :: "message cchannel"
  fw_registered :: "message cchannel option"
  fw_heartbeat :: "('v, 'c) heartbeat"
  fw_evolver :: "('v, 'c) evolver"
  fw_stage4 :: "'c stage4"
  fw_new_messages :: "message cchannel"
  fw_processor :: "('v, 'c) batch_processor option"
  fw_running :: bool
  fw_msg_ctr :: u64

text \<open>\<open>m_input_channel\<close> points to the framework's own buffer until another channel is registered.\<close>

definition input_channel :: "('v, 'c, 'f) framework \<Rightarrow> message cchannel" where
  "input_channel fw = (case fw_registered fw of None \<Rightarrow> fw_input_buffer fw | Some c \<Rightarrow> c)"

definition put_input :: "message cchannel \<Rightarrow> ('v, 'c, 'f) framework \<Rightarrow> ('v, 'c, 'f) framework" where
  "put_input c fw = (case fw_registered fw of None \<Rightarrow> fw\<lparr>fw_input_buffer := c\<rparr> | Some _ \<Rightarrow> fw\<lparr>fw_registered := Some c\<rparr>)"

definition register_input_channel :: "message cchannel \<Rightarrow> ('v, 'c, 'f) framework \<Rightarrow> ('v, 'c, 'f) framework" where
  "register_input_channel c fw =
     (let hb = new_heartbeat; hb = (case fw_processor fw of None \<Rightarrow> hb | Some p \<Rightarrow> set_processor p hb)
      in fw\<lparr>fw_registered := Some c, fw_heartbeat := hb\<rparr>)"

definition set_batch_processor :: "('v, 'c) batch_processor \<Rightarrow> ('v, 'c, 'f) framework \<Rightarrow> ('v, 'c, 'f) framework" where
  "set_batch_processor p fw = fw\<lparr>fw_processor := Some p, fw_heartbeat := set_processor p (fw_heartbeat fw)\<rparr>"

text \<open>The cycle, with the batch the processor has seen and the elapsed time as the clock measures it.\<close>

definition run_one_cycle :: "timepoint \<Rightarrow> u64 \<Rightarrow> ('v, 'c, 'f) framework \<Rightarrow> (message list \<times> ('v, 'c, 'f) framework) option" where
  "run_one_cycle now elapsed_us fw = do {
     b \<leftarrow> beat now (fw_heartbeat fw) (input_channel fw) (fw_blackboard fw) (fw_msg_ctr fw);
     let fw = put_input (br_input b) (fw\<lparr>fw_heartbeat := br_heartbeat b, fw_msg_ctr := br_msg_ctr b\<rparr>);
     let (evo, bb) = evolve_once (fw_evolver fw) (br_blackboard b);
     let cs = append_changes (br_changes b) evo;
     (out, s4) \<leftarrow> execute cs (fw_new_messages fw) (fw_stage4 fw);
     (count, recycled, out) \<leftarrow> drain_all [] out;
     buf \<leftarrow> send_all recycled (fw_input_buffer fw);
     let m = record_heartbeat elapsed_us (fw_metrics fw);
     let m = set_io_queue_depth (int (io_queue_depth (fw_reactor fw))) m;
     let m = set_cpu_queue_depth (int (cpu_queue_depth (fw_reactor fw))) m;
     Some (br_batch b, fw\<lparr>fw_blackboard := bb, fw_stage4 := s4, fw_new_messages := out, fw_input_buffer := buf, fw_metrics := m\<rparr>) }"

definition new_framework :: "int \<Rightarrow> nat \<Rightarrow> ('v, 'c, 'f) framework" where
  "new_framework skip_ms cap = \<lparr>fw_reactor = new_reactor skip_ms 1, fw_blackboard = new_blackboard,
     fw_metrics = \<lparr>fm_processed = 0, fm_dropped = 0, fm_heartbeats = 0, fm_skipped = 0, fm_fired = 0, fm_io_depth = 0, fm_cpu_depth = 0,
       fm_duration_us = 0, fm_max_duration_us = 0\<rparr>,
     fw_input_buffer = new_channel cap, fw_registered = None, fw_heartbeat = new_heartbeat, fw_evolver = new_evolver,
     fw_stage4 = new_stage4 cap, fw_new_messages = new_channel cap, fw_processor = None, fw_running = False, fw_msg_ctr = 1\<rparr>"

definition schedule_tick :: "timepoint \<Rightarrow> 'f \<Rightarrow> ('v, 'c, 'f) framework \<Rightarrow> ('v, 'c, 'f) framework" where
  "schedule_tick now tick fw =
     (case new_task ''heartbeat_tick'' tick TP_High False (rx_task_ctr (fw_reactor fw)) of
        (t, ctr) \<Rightarrow> fw\<lparr>fw_reactor := schedule_timer_in now t (msec 20) ((fw_reactor fw)\<lparr>rx_task_ctr := ctr\<rparr>)\<rparr>)"

definition on_heartbeat_timer :: "timepoint \<Rightarrow> u64 \<Rightarrow> 'f \<Rightarrow> ('v, 'c, 'f) framework \<Rightarrow> ('v, 'c, 'f) framework option" where
  "on_heartbeat_timer now elapsed_us tick fw =
     (if \<not> fw_running fw then Some fw
      else do { (batch, fw) \<leftarrow> run_one_cycle now elapsed_us fw; Some (schedule_tick now tick fw) })"

definition framework_start :: "timepoint \<Rightarrow> 'f \<Rightarrow> ('v, 'c, 'f) framework \<Rightarrow> ('v, 'c, 'f) framework" where
  "framework_start now tick fw =
     (if fw_running fw then fw
      else schedule_tick now tick (fw\<lparr>fw_running := True, fw_stage4 := stage4_start (fw_stage4 fw), fw_reactor := reactor_start (fw_reactor fw)\<rparr>))"

definition framework_stop :: "('v, 'c, 'f) framework \<Rightarrow> ('v, 'c, 'f) framework option" where
  "framework_stop fw = do {
     s4 \<leftarrow> stage4_stop (fw_stage4 fw);
     Some (fw\<lparr>fw_running := False, fw_reactor := reactor_stop (fw_reactor fw), fw_stage4 := s4\<rparr>) }"

section \<open>The pools run every task once\<close>

datatype 'f reactor_op = RSubmitIo "'f task" | RSubmitCpu "'f task" | RTimer timepoint | RIo | RCpu

text \<open>A run of submissions, timer rounds and worker rounds by any threads, in the order in which they hold the
  mutexes: the tasks that enter the two pools and those the workers get.\<close>

record 'f pool_log =
  pl_io_in :: "'f task list"
  pl_cpu_in :: "'f task list"
  pl_io_run :: "'f task list"
  pl_cpu_run :: "'f task list"

definition empty_log :: "'f pool_log" where
  "empty_log = \<lparr>pl_io_in = [], pl_cpu_in = [], pl_io_run = [], pl_cpu_run = []\<rparr>"

definition run_of :: "'f worker_step \<Rightarrow> 'f task list" where
  "run_of s = (case s of WsRun t \<Rightarrow> [t] | _ \<Rightarrow> [])"

definition expired_of :: "timepoint \<Rightarrow> 'f reactor \<Rightarrow> 'f task list" where
  "expired_of now r = (if rx_running r then fst (get_expired_tasks now (rx_task_ctr r) (rx_timer r)) else [])"

fun reactor_step :: "'f reactor_op \<Rightarrow> 'f pool_log \<times> 'f reactor \<Rightarrow> 'f pool_log \<times> 'f reactor" where
  "reactor_step (RSubmitIo t) (l, r) = (l\<lparr>pl_io_in := pl_io_in l @ [t]\<rparr>, submit_io t r)"
| "reactor_step (RSubmitCpu t) (l, r) = (l\<lparr>pl_cpu_in := pl_cpu_in l @ [t]\<rparr>, submit_cpu t r)"
| "reactor_step (RTimer now) (l, r) =
     (l\<lparr>pl_io_in := pl_io_in l @ filter (\<lambda>t. \<not> for_cpu t) (expired_of now r), pl_cpu_in := pl_cpu_in l @ filter for_cpu (expired_of now r)\<rparr>,
      timer_round now r)"
| "reactor_step RIo (l, r) = (case io_loop r of (s, r) \<Rightarrow> (l\<lparr>pl_io_run := pl_io_run l @ run_of s\<rparr>, r))"
| "reactor_step RCpu (l, r) = (case cpu_loop r of (s, r) \<Rightarrow> (l\<lparr>pl_cpu_run := pl_cpu_run l @ run_of s\<rparr>, r))"

lemma submit_fold:
  "wp_queue (rx_io (fold (\<lambda>t r. if for_cpu t then submit_cpu t r else submit_io t r) ts r)) = wp_queue (rx_io r) @ filter (\<lambda>t. \<not> for_cpu t) ts"
  "wp_queue (rx_cpu (fold (\<lambda>t r. if for_cpu t then submit_cpu t r else submit_io t r) ts r)) = wp_queue (rx_cpu r) @ filter for_cpu ts"
  by (induction ts arbitrary: r) (simp_all add: submit_cpu_def submit_io_def pool_submit_def)

lemma timer_round_queues:
  "wp_queue (rx_io (timer_round now r)) = wp_queue (rx_io r) @ filter (\<lambda>t. \<not> for_cpu t) (expired_of now r)"
  "wp_queue (rx_cpu (timer_round now r)) = wp_queue (rx_cpu r) @ filter for_cpu (expired_of now r)"
  by (simp_all add: timer_round_def expired_of_def submit_fold split: prod.split)

lemma pool_take_queue: "run_of (fst (pool_take p)) @ wp_queue (snd (pool_take p)) = wp_queue p"
  by (simp add: pool_take_def run_of_def split: list.split)

definition log_ok :: "'f task list \<Rightarrow> 'f task list \<Rightarrow> 'f pool_log \<times> 'f reactor \<Rightarrow> bool" where
  "log_ok io cpu lr \<longleftrightarrow> io @ pl_io_in (fst lr) = pl_io_run (fst lr) @ wp_queue (rx_io (snd lr))
     \<and> cpu @ pl_cpu_in (fst lr) = pl_cpu_run (fst lr) @ wp_queue (rx_cpu (snd lr))"

text \<open>A running pool is a queue in the sense of \<^const>\<open>fifo_queue\<close>, one that accepts every task.\<close>

definition pool_holds :: "'f pool \<Rightarrow> 'f task list \<Rightarrow> bool" where
  "pool_holds p ts \<longleftrightarrow> wp_running p \<and> wp_queue p = ts"

definition pool_poll :: "'f pool \<Rightarrow> ('f task option \<times> 'f pool) option" where
  "pool_poll p = (case pool_take p of (WsRun t, p) \<Rightarrow> Some (Some t, p) | (_, p) \<Rightarrow> Some (None, p))"

interpretation wp: fifo_queue pool_holds "\<lambda>t p. Some (True, pool_submit t p)" pool_poll
  by unfold_locales (auto simp: pool_holds_def pool_submit_def pool_poll_def pool_take_def split: list.split)

lemma pool_fifo:
  assumes "pool_holds p []"
  shows "\<exists>acc tkn p' ts. queue_run (\<lambda>t p. Some (True, pool_submit t p)) pool_poll ops p = Some (acc, tkn, p') \<and> pool_holds p' ts \<and> acc = tkn @ ts"
  using wp.run_fifo [OF assms, of ops] by simp

lemma log_ok_step: "log_ok io cpu lr \<Longrightarrow> log_ok io cpu (reactor_step opn lr)"
proof (cases lr)
  case (Pair l r)
  assume "log_ok io cpu lr"
  then have A: "(io @ pl_io_in l) @ xs = pl_io_run l @ wp_queue (rx_io r) @ xs"
    "(cpu @ pl_cpu_in l) @ xs = pl_cpu_run l @ wp_queue (rx_cpu r) @ xs" for xs
    by (simp_all add: log_ok_def Pair)
  show ?thesis
    using A [unfolded append_assoc] A(1) [of "[]"] A(2) [of "[]"] pool_take_queue [of "rx_io r"] pool_take_queue [of "rx_cpu r"]
    by (cases opn) (simp_all add: Pair log_ok_def submit_io_def submit_cpu_def pool_submit_def timer_round_queues io_loop_def cpu_loop_def case_prod_beta)
qed

text \<open>C32. The reactor runs each task exactly once and in order: in every interleaving of submissions, timer
  rounds and worker rounds, what a pool's workers have been given is a prefix of what has entered the
  pool, by submission or by expiry of its timer, and the rest is still queued.\<close>

theorem reactor_runs_once:
  "case fold reactor_step ops (empty_log, r) of
     (l, r') \<Rightarrow> wp_queue (rx_io r) @ pl_io_in l = pl_io_run l @ wp_queue (rx_io r')
       \<and> wp_queue (rx_cpu r) @ pl_cpu_in l = pl_cpu_run l @ wp_queue (rx_cpu r')"
proof -
  have "log_ok (wp_queue (rx_io r)) (wp_queue (rx_cpu r)) (fold reactor_step ops (empty_log, r))"
    by (rule fold_invariant [where Q = "\<lambda>_. True"]) (simp_all add: log_ok_step, simp add: log_ok_def empty_log_def)
  then show ?thesis by (simp add: log_ok_def case_prod_beta)
qed

section \<open>The cycle keeps the messages\<close>

lemma send_all_holds:
  "channel_holds c xs \<Longrightarrow> \<not> c_closed c \<Longrightarrow> \<exists>c'. send_all ys c = Some c' \<and> channel_holds c' (xs @ ys) \<and> \<not> c_closed c'"
proof (induction ys arbitrary: c xs)
  case (Cons y ys)
  obtain c' where c': "channel_link y c = Some c'" "channel_holds c' (xs @ [y])" "\<not> c_closed c'"
    using channel_link_holds [OF Cons.prems(1), of y] Cons.prems(2) by auto
  then show ?case using Cons.IH [OF c'(2,3)] Cons.prems(2) by (simp add: channel_send_def)
qed simp

text \<open>An open channel and its content.\<close>

definition open_channel :: "'a cchannel \<Rightarrow> 'a list \<Rightarrow> bool" where
  "open_channel c xs \<longleftrightarrow> channel_holds c xs \<and> \<not> c_closed c"

lemma send_all_open: "open_channel c xs \<Longrightarrow> \<exists>c'. send_all ys c = Some c' \<and> open_channel c' (xs @ ys)"
  using send_all_holds [of c xs ys] by (auto simp: open_channel_def)

lemma drain_all_open: "open_channel c xs \<Longrightarrow> \<exists>c'. drain_all out c = Some (length xs, out @ xs, c') \<and> open_channel c' []"
  using drain_all_holds [of c xs out] by (auto simp: open_channel_def)

lemma open_new: "open_channel (new_channel cap) []"
  using channel_holds_new [of cap] by (simp add: open_channel_def new_channel_def)

text \<open>What a cycle does with the messages \<open>xs\<close> it finds: the batch, and the changes of the processor and of
  the evolvers.\<close>

definition tick_of_cycle :: "timepoint \<Rightarrow> ('v, 'c, 'f) framework \<Rightarrow> message list" where
  "tick_of_cycle now fw = (if hb_generate_tick (fw_heartbeat fw) then [fst (new_message now MK_TimerTick ''heartbeat'' (fw_msg_ctr fw))] else [])"

definition cycle_changes :: "message list \<Rightarrow> ('v, 'c, 'f) framework \<Rightarrow> 'c change_set" where
  "cycle_changes batch fw =
     (let bb = clear_changed_keys (fw_blackboard fw);
          (cs, bb) = (case hb_processor (fw_heartbeat fw) of None \<Rightarrow> (empty_changes, bb) | Some p \<Rightarrow> p batch bb)
      in append_changes cs (fst (evolve_once (fw_evolver fw) bb)))"

lemma beat_spec:
  assumes "open_channel input xs"
  shows "\<exists>b. beat now (fw_heartbeat fw) input (fw_blackboard fw) (fw_msg_ctr fw) = Some b
    \<and> br_batch b = xs @ tick_of_cycle now fw \<and> open_channel (br_input b) []
    \<and> append_changes (br_changes b) (fst (evolve_once (fw_evolver fw) (br_blackboard b))) = cycle_changes (br_batch b) fw"
proof -
  obtain c n where "drain_all [] input = Some (n, xs, c)" "open_channel c []" using drain_all_open [OF assms, of "[]"] by auto
  then show ?thesis
    by (cases "hb_processor (fw_heartbeat fw)"; cases "hb_generate_tick (fw_heartbeat fw)")
      (simp_all add: beat_def Let_def tick_of_cycle_def cycle_changes_def case_prod_beta)
qed

lemma cycle_spec:
  assumes "open_channel (input_channel fw) xs" "open_channel (fw_new_messages fw) ys" "open_channel (s4_work (fw_stage4 fw)) zs"
    and "fw_registered fw \<noteq> None \<Longrightarrow> open_channel (fw_input_buffer fw) bs" "fw_registered fw = None \<Longrightarrow> bs = []"
  shows "\<exists>fw'. let batch = xs @ tick_of_cycle now fw; cs = cycle_changes batch fw in
      run_one_cycle now us fw = Some (batch, fw')
    \<and> open_channel (fw_input_buffer fw') (bs @ ys @ cs_new_messages cs) \<and> open_channel (fw_new_messages fw') []
    \<and> open_channel (s4_work (fw_stage4 fw')) (zs @ cs_external_calls cs)
    \<and> (fw_registered fw' = None \<longleftrightarrow> fw_registered fw = None) \<and> (fw_registered fw \<noteq> None \<longrightarrow> open_channel (input_channel fw') [])"
proof -
  obtain b where b: "beat now (fw_heartbeat fw) (input_channel fw) (fw_blackboard fw) (fw_msg_ctr fw) = Some b"
      "br_batch b = xs @ tick_of_cycle now fw" "open_channel (br_input b) []"
      "append_changes (br_changes b) (fst (evolve_once (fw_evolver fw) (br_blackboard b))) = cycle_changes (br_batch b) fw"
    using beat_spec [OF assms(1)] by blast
  let ?fw = "put_input (br_input b) (fw\<lparr>fw_heartbeat := br_heartbeat b, fw_msg_ctr := br_msg_ctr b\<rparr>)"
  let ?cs = "cycle_changes (br_batch b) fw"
  have same: "fw_new_messages ?fw = fw_new_messages fw" "fw_stage4 ?fw = fw_stage4 fw" "fw_evolver ?fw = fw_evolver fw"
    by (simp_all add: put_input_def split: option.split)
  have buf: "open_channel (fw_input_buffer ?fw) bs" using assms(4,5) b(3) by (cases "fw_registered fw") (simp_all add: put_input_def)
  obtain out where out: "send_all (cs_new_messages ?cs) (fw_new_messages fw) = Some out" "open_channel out (ys @ cs_new_messages ?cs)"
    using send_all_open [OF assms(2)] by blast
  obtain work where work: "send_all (cs_external_calls ?cs) (s4_work (fw_stage4 fw)) = Some work" "open_channel work (zs @ cs_external_calls ?cs)"
    using send_all_open [OF assms(3)] by blast
  obtain out' n where out': "drain_all [] out = Some (n, ys @ cs_new_messages ?cs, out')" "open_channel out' []"
    using drain_all_open [OF out(2), of "[]"] by auto
  obtain buf' where buf': "send_all (ys @ cs_new_messages ?cs) (fw_input_buffer ?fw) = Some buf'" "open_channel buf' (bs @ ys @ cs_new_messages ?cs)"
    using send_all_open [OF buf, of "ys @ cs_new_messages ?cs"] by auto
  show ?thesis
    using b out work out' buf' same
    by (cases "fw_registered fw")
      (simp_all add: run_one_cycle_def execute_def Let_def case_prod_beta count_calls_def put_input_def input_channel_def)
qed

text \<open>The application's sends interleaved with cycles: the messages that enter the input buffer, by sending or as
  results of a cycle, and those the processor gets, ticks apart.\<close>

datatype fw_op = FwSend message | FwCycle timepoint u64

fun fw_run :: "fw_op list \<Rightarrow> ('v, 'c, 'f) framework \<Rightarrow> (message list \<times> message list \<times> ('v, 'c, 'f) framework) option" where
  "fw_run [] fw = Some ([], [], fw)"
| "fw_run (FwSend m # ops) fw = do {
     c \<leftarrow> channel_send m (fw_input_buffer fw);
     (entered, processed, fw) \<leftarrow> fw_run ops (fw\<lparr>fw_input_buffer := c\<rparr>);
     Some (m # entered, processed, fw) }"
| "fw_run (FwCycle now us # ops) fw = do {
     (batch, fw') \<leftarrow> run_one_cycle now us fw;
     (entered, processed, fw'') \<leftarrow> fw_run ops fw';
     Some (cs_new_messages (cycle_changes batch fw) @ entered, take (length batch - length (tick_of_cycle now fw)) batch @ processed, fw'') }"

definition framework_ok :: "('v, 'c, 'f) framework \<Rightarrow> message list \<Rightarrow> bool" where
  "framework_ok fw xs \<longleftrightarrow> fw_registered fw = None \<and> open_channel (fw_input_buffer fw) xs \<and> open_channel (fw_new_messages fw) []
     \<and> (\<exists>zs. open_channel (s4_work (fw_stage4 fw)) zs)"

lemma cycle_ok:
  assumes "framework_ok fw xs"
  shows "\<exists>fw'. let batch = xs @ tick_of_cycle now fw in run_one_cycle now us fw = Some (batch, fw')
     \<and> framework_ok fw' (cs_new_messages (cycle_changes batch fw))"
proof -
  obtain zs where z: "open_channel (s4_work (fw_stage4 fw)) zs" using assms by (auto simp: framework_ok_def)
  have "open_channel (input_channel fw) xs" "open_channel (fw_new_messages fw) []" "fw_registered fw = None"
    using assms by (simp_all add: framework_ok_def input_channel_def)
  from cycle_spec [OF this(1,2) z, of "[]" now us] this(3) show ?thesis by (auto simp: framework_ok_def Let_def)
qed

text \<open>C21. The framework loses, repeats and reorders no message: over any sequence of sends and cycles, whatever
  the batch processor and the evolvers do, the messages sent to it and those its cycles produce reach the
  processor exactly once and in the order in which they entered, and what is left waits in the input
  channel.\<close>

theorem framework_conserves_messages:
  assumes "framework_ok fw xs"
  shows "\<exists>entered processed fw' rest. fw_run ops fw = Some (entered, processed, fw') \<and> framework_ok fw' rest
     \<and> xs @ entered = processed @ rest"
  using assms
proof (induction ops fw arbitrary: xs rule: fw_run.induct)
  case (2 m ops fw)
  obtain c where c: "channel_send m (fw_input_buffer fw) = Some c" "open_channel c (xs @ [m])"
    using send_all_open [of "fw_input_buffer fw" xs "[m]"] 2(2) by (auto simp: framework_ok_def split: bind_splits)
  then have "framework_ok (fw\<lparr>fw_input_buffer := c\<rparr>) (xs @ [m])" using 2(2) by (simp add: framework_ok_def)
  from 2(1) [OF c(1) this] show ?case using c(1) by auto
next
  case (3 now us ops fw)
  let ?b = "xs @ tick_of_cycle now fw"
  obtain fw' where c: "run_one_cycle now us fw = Some (?b, fw')" "framework_ok fw' (cs_new_messages (cycle_changes ?b fw))"
    using cycle_ok [OF 3(2), of now us] by (auto simp: Let_def)
  from 3(1) [OF c(1) refl c(2)] show ?case using c(1) by auto
qed simp

lemma new_framework_ok: "framework_ok (new_framework skip_ms cap) []"
  by (simp add: framework_ok_def new_framework_def new_stage4_def open_new) (rule exI, rule open_new)

theorem framework_conserves_messages_witness:
  "\<exists>entered processed fw' rest. fw_run [FwSend (fst (new_message 3 MK_Custom ''app'' 1)), FwCycle 20 5] (new_framework 100 4096) = Some (entered, processed, fw')
     \<and> framework_ok fw' rest \<and> [] @ entered = processed @ rest"
  by (rule framework_conserves_messages [OF new_framework_ok])

text \<open>Once another input channel is registered this fails: the messages a cycle produces go to the framework's own
  buffer, which no later cycle reads.\<close>

lemma recycled_lost:
  assumes "fw_registered fw \<noteq> None" "open_channel (input_channel fw) xs" "open_channel (fw_input_buffer fw) bs"
    and "open_channel (fw_new_messages fw) ys" "open_channel (s4_work (fw_stage4 fw)) zs"
  shows "\<exists>fw'. let batch = xs @ tick_of_cycle now fw in run_one_cycle now us fw = Some (batch, fw')
     \<and> fw_registered fw' \<noteq> None \<and> open_channel (input_channel fw') []
     \<and> open_channel (fw_input_buffer fw') (bs @ ys @ cs_new_messages (cycle_changes batch fw))"
  using cycle_spec [OF assms(2,4,5,3), of now us] assms(1) by (auto simp: Let_def)

text \<open>A key marked as changed outside the batch processor, by an evolver or by another thread between two cycles,
  never reaches the evolvers: the heartbeat clears the set first.\<close>

lemma marks_lost:
  "run_one_cycle now us (fw\<lparr>fw_blackboard := (fw_blackboard fw)\<lparr>bb_changed := keys\<rparr>\<rparr>) = run_one_cycle now us fw"
proof -
  have "beat now (fw_heartbeat fw) c ((fw_blackboard fw)\<lparr>bb_changed := keys\<rparr>) ctr = beat now (fw_heartbeat fw) c (fw_blackboard fw) ctr" for c ctr
    by (simp add: beat_def clear_changed_keys_def)
  then show ?thesis
    by (cases "fw_registered fw") (simp_all add: run_one_cycle_def input_channel_def put_input_def Let_def case_prod_beta)
qed

section \<open>The counter of pending calls\<close>

text \<open>Atomic steps of the threads: \<open>execute\<close> puts calls into the work queue one by one and adds their number to the
  counter afterwards, workers take calls, run them and subtract one. The state is the executor, the number
  of calls being run and the number of calls queued but not yet counted.\<close>

inductive s4_step :: "'c stage4 \<times> nat \<times> nat \<Rightarrow> 'c stage4 \<times> nat \<times> nat \<Rightarrow> bool" where
  s4_send: "channel_send x (s4_work s) = Some w \<Longrightarrow> s4_step (s, r, u) (s\<lparr>s4_work := w\<rparr>, r, Suc u)"
| s4_count: "n \<le> u \<Longrightarrow> s4_step (s, r, u) (count_calls n s, r, u - n)"
| s4_take: "worker_take timed_out s = Some (Ready (Some x), s') \<Longrightarrow> s4_step (s, r, u) (s', Suc r, u)"
| s4_done: "s4_step (s, Suc r, u) (worker_done s, r, u)"

definition s4_ok :: "'c stage4 \<times> nat \<times> nat \<Rightarrow> bool" where
  "s4_ok sru \<longleftrightarrow> (case sru of (s, r, u) \<Rightarrow> \<exists>zs. open_channel (s4_work s) zs \<and> s4_pending s + of_nat u = of_nat (length zs + r))"

lemma worker_take_open:
  assumes "worker_take timed_out s = Some (Ready (Some x), s')" "open_channel (s4_work s) zs"
  shows "\<exists>zs'. zs = x # zs' \<and> open_channel (s4_work s') zs' \<and> s4_pending s' = s4_pending s"
proof (cases zs)
  case Nil
  then show ?thesis using assms channel_holds_head [of "s4_work s" zs]
    by (auto simp: worker_take_def recv_for_def open_channel_def split: if_splits)
next
  case (Cons z zs')
  then show ?thesis using assms channel_holds_head [of "s4_work s" zs] channel_unlink_holds [of "s4_work s" z zs']
    by (auto simp: worker_take_def recv_for_def open_channel_def split: if_splits bind_splits)
qed

lemma s4_ok_step: "s4_step a b \<Longrightarrow> s4_ok a \<Longrightarrow> s4_ok b"
proof (induction rule: s4_step.induct)
  case (s4_send x s w r u)
  then obtain zs where z: "open_channel (s4_work s) zs" "s4_pending s + of_nat u = of_nat (length zs + r)" by (auto simp: s4_ok_def)
  then have "open_channel w (zs @ [x])" using s4_send send_all_open [of "s4_work s" zs "[x]"] by auto
  then show ?case using z(2) by (auto simp: s4_ok_def algebra_simps intro!: exI [of _ "zs @ [x]"])
next
  case (s4_count n u s r)
  then obtain zs where z: "open_channel (s4_work s) zs" "s4_pending s + of_nat u = of_nat (length zs + r)" by (auto simp: s4_ok_def)
  have "of_nat u = (of_nat n + of_nat (u - n) :: u64)" using s4_count(1) by (metis le_add_diff_inverse of_nat_add)
  then show ?case using z by (auto simp: s4_ok_def count_calls_def add.assoc)
next
  case (s4_take timed_out s x s' r u)
  then obtain zs where z: "open_channel (s4_work s) zs" "s4_pending s + of_nat u = of_nat (length zs + r)" by (auto simp: s4_ok_def)
  then obtain zs' where "zs = x # zs'" "open_channel (s4_work s') zs'" "s4_pending s' = s4_pending s"
    using worker_take_open [OF s4_take(1) z(1)] by blast
  then have "open_channel (s4_work s') zs'" "s4_pending s' + of_nat u = of_nat (length zs' + Suc r)" using z(2) by simp_all
  then show ?case unfolding s4_ok_def by blast
next
  case (s4_done s r u)
  then obtain zs where z: "open_channel (s4_work s) zs" "s4_pending s + of_nat u = of_nat (length zs + Suc r)" by (auto simp: s4_ok_def)
  then have "s4_pending s - 1 + of_nat u = of_nat (length zs + r)" by (simp add: algebra_simps)
  then show ?case using z(1) by (auto simp: s4_ok_def worker_done_def)
qed

lemma s4_ok_reachable: "s4_step\<^sup>*\<^sup>* (stage4_start (new_stage4 cap), 0, 0) b \<Longrightarrow> s4_ok b"
proof (induction rule: rtranclp_induct)
  case base
  show ?case using open_new [of cap] by (auto simp: s4_ok_def stage4_start_def new_stage4_def intro!: exI [of _ "[]"])
qed (use s4_ok_step in blast)

text \<open>The counter of pending calls is exact up to the calls still to be counted: in every interleaving of
  \<open>execute\<close> and the workers of an executor that has not been stopped, the counter plus the number of calls queued but not yet
  counted equals, modulo 2^64, the number of calls waiting in the work queue plus the number being run.\<close>

theorem pending_calls_exact:
  assumes "s4_step\<^sup>*\<^sup>* (stage4_start (new_stage4 cap), 0, 0) (s, running, uncounted)"
  shows "s4_pending s + of_nat uncounted = of_nat (channel_depth (s4_work s) + running)"
proof -
  obtain zs where "channel_holds (s4_work s) zs" "s4_pending s + of_nat uncounted = of_nat (length zs + running)"
    using s4_ok_reachable [OF assms] by (auto simp: s4_ok_def open_channel_def)
  then show ?thesis using channel_holds_size [of "s4_work s" zs] by (simp add: channel_depth_def)
qed

theorem pending_calls_exact_witness:
  "\<exists>s :: nat stage4. s4_step\<^sup>*\<^sup>* (stage4_start (new_stage4 4096), 0, 0) (s, 0, 1) \<and> s4_pending s + of_nat 1 = of_nat (channel_depth (s4_work s) + 0)"
proof -
  define s :: "nat stage4" where "s = stage4_start (new_stage4 4096)"
  obtain w where "channel_send 7 (s4_work s) = Some w"
    using send_all_open [OF open_new, of "[7]" 4096] by (auto simp: s_def stage4_start_def new_stage4_def split: bind_splits)
  then have r: "s4_step\<^sup>*\<^sup>* (s, 0, 0) (s\<lparr>s4_work := w\<rparr>, 0, 1)" using s4_send [of 7 s w 0 0] by auto
  from pending_calls_exact [OF r [unfolded s_def]] r show ?thesis unfolding s_def by blast
qed

text \<open>In between the counter may be too low, and wraps when a worker finishes before \<open>execute\<close> has counted; and
  stopping the executor discards the calls that wait but leaves them counted.\<close>

lemma pending_wraps:
  assumes "s4_step\<^sup>*\<^sup>* (stage4_start (new_stage4 cap), 0, 0) (s, 0, 1)" "channel_depth (s4_work s) = 0"
  shows "s4_pending s = - 1"
proof -
  obtain zs where "channel_holds (s4_work s) zs" "s4_pending s + 1 = of_nat (length zs)"
    using s4_ok_reachable [OF assms(1)] by (auto simp: s4_ok_def open_channel_def)
  then show ?thesis using channel_holds_size [of "s4_work s" zs] assms(2) by (simp add: channel_depth_def eq_neg_iff_add_eq_0)
qed

lemma stop_leaves_pending:
  assumes "open_channel (s4_work s) zs"
  shows "\<exists>s'. stage4_stop s = Some s' \<and> channel_depth (s4_work s') = 0 \<and> s4_pending s' = s4_pending s"
  using close_channel_holds [of "s4_work s" zs] assms channel_holds_size
  by (fastforce simp: stage4_stop_def open_channel_def channel_depth_def)

end
