(* ===== verification/Leaf.thy ===== *)
theory Leaf
  imports Node Breaker Queue
begin

text \<open>
  The leaf runtime (\<open>src/leaf/leaf_runtime.cpp\<close> and the helpers of \<open>src/leaf/leaf_generic.cpp\<close> it uses):
  registration and heartbeats of local endpoints, snapshots to the parent nodes, choice of the active
  parent, calls with one retry over balancer and circuit breaker, requests routed through the mesh with
  their table of pending responses, and inbound requests.

  Protobuf messages are values; parsing and serialising the application's messages, generated code, is the
  argument \<open>codec\<close>, and the calls of a backend are arguments as well. What the transport answers to a send is
  the argument \<open>tsend\<close>, what it knows of its peers the argument \<open>peers\<close>. The request and stream queues are the
  bounded queues that the blocking queue refines. Handlers that leave and re-enter the mutex are one function,
  except where the code waits in between: there the waiting is visible, as separate functions for the two
  halves or as an argument that may change the state arbitrarily. Tasks of the generic proxy are effects.

  The lemmas show that a call makes at most two attempts at distinct endpoints and succeeds exactly if one of
  them does, that endpoints whose heartbeats stop are marked dead, then removed and advertised as removed,
  that the leaf fails over to an online parent, and, together with the node runtime, that a call of an
  endpoint on another leaf comes back with the backend's reply.
\<close>

section \<open>Messages and state\<close>

record hello_request =
  hq_name :: string
  hq_sid :: string
  hq_sticky :: bool

record hello_reply =
  hp_message :: string
  hp_backend_id :: string

record codec =
  par_request :: "bytes \<Rightarrow> hello_request option"
  ser_request :: "hello_request \<Rightarrow> bytes"
  par_reply :: "bytes \<Rightarrow> hello_reply option"
  ser_reply :: "hello_reply \<Rightarrow> bytes"

record grpc_status =
  gs_code :: int
  gs_message :: string

definition status_ok :: grpc_status where "status_ok = \<lparr>gs_code = 0, gs_message = []\<rparr>"
definition unavailable :: "string \<Rightarrow> grpc_status" where "unavailable msg = \<lparr>gs_code = 14, gs_message = msg\<rparr>"

record local_endpoint =
  le_endpoint :: endpoint
  le_last_heartbeat :: timepoint

record pending_response =
  pr_done :: bool
  pr_response :: routed_response

record leaf_state =
  l_id :: string
  l_parents :: "string list"
  l_rpc_timeout_ms :: u64
  l_directory :: directory
  l_balancer :: balancer
  l_breaker :: circuit_breaker
  l_local_endpoints :: "(string, local_endpoint) omap"
  l_local_tombstones :: "(string, endpoint \<times> u64) omap"
  l_pending :: "(string, nat) omap"
  l_slots :: "(nat, pending_response) omap"
  l_next_slot :: nat
  l_peer_targets :: "(string, string) omap"
  l_known_leaves :: "(string, address) omap"
  l_parent_ids :: "string list"
  l_active_parent :: string
  l_all_parents_down :: bool
  l_wasm_ids :: "u32 list"
  l_version_counter :: u64
  l_request_queue :: "(routed_request \<times> u64) fifo"
  l_stream_queue :: "wire_message fifo"
  l_running :: bool

definition kEndpointDeadMs :: int where "kEndpointDeadMs = 3000"
definition kEndpointRemoveMs :: int where "kEndpointRemoveMs = 10000"
definition kLocalTombstoneTtlMs :: u64 where "kLocalTombstoneTtlMs = 60000"
definition kDefaultBackendHopLimit :: u32 where "kDefaultBackendHopLimit = 16"

definition new_leaf :: "string \<Rightarrow> string list \<Rightarrow> u64 \<Rightarrow> u64 \<Rightarrow> leaf_state" where
  "new_leaf i parents timeout_ms ms = \<lparr>l_id = i, l_parents = parents, l_rpc_timeout_ms = timeout_ms, l_directory = new_directory,
     l_balancer = new_balancer 4096 (msec 60000), l_breaker = new_breaker default_circuit_config, l_local_endpoints = [],
     l_local_tombstones = [], l_pending = [], l_slots = [], l_next_slot = 0, l_peer_targets = [], l_known_leaves = [],
     l_parent_ids = [], l_active_parent = [], l_all_parents_down = True, l_wasm_ids = [], l_version_counter = ms,
     l_request_queue = new_fifo 256, l_stream_queue = new_fifo 1024, l_running = False\<rparr>"

datatype leaf_effect = LSend string wire_message | LSendPriority string int wire_message | LConnect string address
  | LMetric metric_event | LGeneric routed_request

definition leaf_metric :: "string \<Rightarrow> string \<Rightarrow> u64 \<Rightarrow> u64 \<Rightarrow> bool \<Rightarrow> metadata \<Rightarrow> leaf_effect" where
  "leaf_metric direction rpc_name nbytes latency success md = LMetric \<lparr>ev_direction = direction, ev_rpc_name = rpc_name,
     ev_metadata = md, ev_bytes = nbytes, ev_latency_us = latency, ev_success = success\<rparr>"

definition current_node_id :: "leaf_state \<Rightarrow> string" where
  "current_node_id l = (if l_active_parent l = [] then (case l_parents l of [] \<Rightarrow> [] | p # _ \<Rightarrow> p) else l_active_parent l)"

section \<open>Sending into the mesh\<close>

type_synonym tsend = "string \<Rightarrow> bool"

definition send_one :: "string \<Rightarrow> int \<Rightarrow> wire_message \<Rightarrow> leaf_effect" where
  "send_one p prio msg = (if 0 < prio then LSendPriority p prio msg else LSend p msg)"

fun try_parents :: "tsend \<Rightarrow> int \<Rightarrow> wire_message \<Rightarrow> string list \<Rightarrow> bool \<times> leaf_effect list" where
  "try_parents tsend prio msg [] = (False, [])"
| "try_parents tsend prio msg (p # ps) = (if tsend p then (True, [send_one p prio msg]) else try_parents tsend prio msg ps)"

text \<open>The address a message is sent to when no parent takes it.\<close>

definition direct_target :: "string \<Rightarrow> string \<Rightarrow> leaf_state \<Rightarrow> string" where
  "direct_target dest_node dest_leaf l =
     (case map_of (l_peer_targets l) dest_node of
        Some a \<Rightarrow> a
      | None \<Rightarrow> (case map_of (l_known_leaves l) dest_leaf of Some a \<Rightarrow> format_address a | None \<Rightarrow> []))"

definition send_to_mesh :: "tsend \<Rightarrow> string \<Rightarrow> string \<Rightarrow> wire_message \<Rightarrow> int \<Rightarrow> leaf_state \<Rightarrow> bool \<times> leaf_effect list" where
  "send_to_mesh tsend dest_node dest_leaf msg prio l =
     (if l_active_parent l \<noteq> [] \<and> tsend (l_active_parent l) then (True, [send_one (l_active_parent l) prio msg])
      else case try_parents tsend prio msg (filter (\<lambda>p. p \<noteq> l_active_parent l) (l_parent_ids l)) of
             (True, eff) \<Rightarrow> (True, eff)
           | (False, _) \<Rightarrow>
               (let addr = direct_target dest_node dest_leaf l
                in if addr = [] then (False, [])
                   else case parse_address addr of
                          None \<Rightarrow> (False, [])
                        | Some a \<Rightarrow> (tsend dest_node, LConnect dest_node a # (if tsend dest_node then [send_one dest_node prio msg] else []))))"

definition send_response_to_parent :: "wsize \<Rightarrow> leaf_state \<Rightarrow> routed_response \<Rightarrow> leaf_effect list" where
  "send_response_to_parent wsize l resp =
     (if l_active_parent l \<noteq> [] then [LSend (l_active_parent l) (WResponse resp)] else [])
     @ [leaf_metric ''leaf_to_node'' ''RoutedResponse'' (wsize (WResponse resp)) 0 True []]"

definition hop_after :: "u32 \<Rightarrow> u32" where "hop_after h = (if 0 < h then h - 1 else 0)"

definition make_error_response :: "leaf_state \<Rightarrow> routed_request \<Rightarrow> string \<Rightarrow> routed_response" where
  "make_error_response l req err = \<lparr>rs_request_id = rq_request_id req, rs_origin_leaf = l_id l, rs_origin_node = current_node_id l,
     rs_destination_leaf = rq_origin_leaf req, rs_destination_node = rq_origin_node req, rs_body = [], rs_status = -1, rs_error = err,
     rs_hop_limit = hop_after (rq_hop_limit req)\<rparr>"

definition send_stream_close_to :: "tsend \<Rightarrow> string \<Rightarrow> string \<Rightarrow> string \<Rightarrow> bool \<Rightarrow> int \<Rightarrow> string \<Rightarrow> leaf_state \<Rightarrow> leaf_effect list" where
  "send_stream_close_to tsend rid dest_leaf dest_node from_origin st err l =
     snd (send_to_mesh tsend dest_node dest_leaf (WStreamClose \<lparr>sc_request_id = rid, sc_status = st, sc_error = err,
       sc_from_origin = from_origin, sc_origin_leaf = l_id l, sc_origin_node = current_node_id l,
       sc_destination_leaf = dest_leaf, sc_destination_node = dest_node, sc_hop_limit = kDefaultBackendHopLimit\<rparr>) 1 l)"

section \<open>Snapshots\<close>

definition live_tombstones :: "u64 \<Rightarrow> (string, endpoint \<times> u64) omap \<Rightarrow> (string, endpoint \<times> u64) omap" where
  "live_tombstones ms ts = filter (\<lambda>kt. \<not> kLocalTombstoneTtlMs \<le> ms - snd (snd kt)) ts"

definition leaf_snapshot :: "u64 \<Rightarrow> leaf_state \<Rightarrow> directory_snapshot" where
  "leaf_snapshot ms l = \<lparr>sn_source_id = l_id l, sn_version = 0, sn_generated_ms = ms,
     sn_endpoints = map (\<lambda>ke. le_endpoint (snd ke)) (l_local_endpoints l),
     sn_removed = map (\<lambda>kt. fst (snd kt)) (live_tombstones ms (l_local_tombstones l))\<rparr>"

definition send_snapshot_to_parent :: "wsize \<Rightarrow> u64 \<Rightarrow> leaf_state \<Rightarrow> leaf_state \<times> leaf_effect list" where
  "send_snapshot_to_parent wsize ms l =
     (let wm = WDirectory (leaf_snapshot ms l)
      in (l\<lparr>l_local_tombstones := live_tombstones ms (l_local_tombstones l)\<rparr>,
          map (\<lambda>p. LSend p wm) (l_parent_ids l) @ [leaf_metric ''leaf_to_node'' ''DirectorySnapshot'' (wsize wm) 0 True []]))"

section \<open>Parents\<close>

type_synonym peers = "(string \<times> link_state) list"

definition parent_online :: "peers \<Rightarrow> string \<Rightarrow> bool" where
  "parent_online peers p \<longleftrightarrow> (p, LS_Online) \<in> set peers"

definition leaf_on_peer_event :: "wsize \<Rightarrow> peers \<Rightarrow> u64 \<Rightarrow> peer_event \<Rightarrow> leaf_state \<Rightarrow> leaf_state \<times> leaf_effect list" where
  "leaf_on_peer_event wsize peers ms ev l =
     (if pe_id ev \<notin> set (l_parent_ids l) then (l, [])
      else if pe_state ev = LS_Online
      then if l_active_parent l = []
           then send_snapshot_to_parent wsize ms (l\<lparr>l_active_parent := pe_id ev, l_all_parents_down := False\<rparr>)
           else (l, [])
      else if pe_state ev = LS_Closed \<and> pe_id ev = l_active_parent l
      then (case find (\<lambda>p. p \<noteq> pe_id ev \<and> parent_online peers p) (l_parent_ids l) of
              Some p \<Rightarrow> (l\<lparr>l_active_parent := p\<rparr>, [])
            | None \<Rightarrow> (l\<lparr>l_active_parent := [], l_all_parents_down := True\<rparr>, []))
      else (l, []))"

definition leaf_do_sync_work :: "wsize \<Rightarrow> peers \<Rightarrow> u64 \<Rightarrow> leaf_state \<Rightarrow> leaf_state \<times> leaf_effect list" where
  "leaf_do_sync_work wsize peers ms l =
     (let l = (if l_active_parent l = []
               then (case find (parent_online peers) (l_parent_ids l) of
                       Some p \<Rightarrow> l\<lparr>l_active_parent := p, l_all_parents_down := False\<rparr>
                     | None \<Rightarrow> l)
               else l)
      in send_snapshot_to_parent wsize ms l)"

section \<open>Registration and heartbeats\<close>

datatype reply = Accepted | Refused string

text \<open>The endpoint of the request is \<open>None\<close> when the field is not set.\<close>

definition handle_register :: "wsize \<Rightarrow> timepoint \<Rightarrow> u64 \<Rightarrow> endpoint option \<Rightarrow> leaf_state \<Rightarrow> reply \<times> leaf_state \<times> leaf_effect list" where
  "handle_register wsize now ms req l =
     (case req of
        None \<Rightarrow> (Refused ''invalid_endpoint'', l, [])
      | Some ep \<Rightarrow>
          if endpoint_id ep = [] \<or> ep_service ep = [] \<or> ep_target ep = [] then (Refused ''invalid_endpoint'', l, [])
          else
            let ep = ep\<lparr>owner_leaf := l_id l, owner_node := current_node_id l\<rparr>;
                (ep, l) = (if ep_version ep = 0
                           then (ep\<lparr>ep_version := l_version_counter l + 1\<rparr>, l\<lparr>l_version_counter := l_version_counter l + 1\<rparr>)
                           else (ep, l));
                ep = ep\<lparr>ep_alive := True, updated_ms := ms\<rparr>;
                l = l\<lparr>l_directory := upsert_local ms ep (l_directory l),
                      l_local_endpoints := om_set (endpoint_id ep) \<lparr>le_endpoint = ep, le_last_heartbeat = now\<rparr> (l_local_endpoints l),
                      l_local_tombstones := om_erase (endpoint_id ep) (l_local_tombstones l)\<rparr>;
                (l, eff) = send_snapshot_to_parent wsize ms l
            in (Accepted, l, eff))"

text \<open>A local endpoint becomes alive or dead with a fresh version, in the table and in the directory.\<close>

definition restamp :: "u64 \<Rightarrow> bool \<Rightarrow> string \<Rightarrow> local_endpoint \<Rightarrow> leaf_state \<Rightarrow> leaf_state" where
  "restamp ms alive i le l =
     (let ep = (le_endpoint le)\<lparr>ep_alive := alive, ep_version := l_version_counter l + 1, updated_ms := ms\<rparr>
      in l\<lparr>l_version_counter := l_version_counter l + 1, l_directory := upsert_local ms ep (l_directory l),
           l_local_endpoints := om_set i (le\<lparr>le_endpoint := ep\<rparr>) (l_local_endpoints l)\<rparr>)"

definition leaf_handle_heartbeat :: "wsize \<Rightarrow> timepoint \<Rightarrow> u64 \<Rightarrow> string \<Rightarrow> leaf_state \<Rightarrow> reply \<times> leaf_state \<times> leaf_effect list" where
  "leaf_handle_heartbeat wsize now ms i l =
     (case map_of (l_local_endpoints l) i of
        None \<Rightarrow> (Refused [], l, [])
      | Some le \<Rightarrow>
          let le = le\<lparr>le_last_heartbeat := now\<rparr>
          in if ep_alive (le_endpoint le) then (Accepted, l\<lparr>l_local_endpoints := om_set i le (l_local_endpoints l)\<rparr>, [])
             else
               let l = restamp ms True i le l;
                   l = l\<lparr>l_local_tombstones := om_erase i (l_local_tombstones l)\<rparr>;
                   (l, eff) = send_snapshot_to_parent wsize ms l
               in (Accepted, l, eff))"

definition handle_deregister :: "wsize \<Rightarrow> u64 \<Rightarrow> string \<Rightarrow> leaf_state \<Rightarrow> reply \<times> leaf_state \<times> leaf_effect list" where
  "handle_deregister wsize ms i l =
     (case map_of (l_local_endpoints l) i of
        None \<Rightarrow> (Refused [], l, [])
      | Some le \<Rightarrow> (case send_snapshot_to_parent wsize ms (restamp ms False i le l) of (l, eff) \<Rightarrow> (Accepted, l, eff)))"

text \<open>The scan over the local endpoints: those past the grace period leave the table and the directory, the
  late ones are marked dead and collected.\<close>

definition heartbeat_age :: "timepoint \<Rightarrow> local_endpoint \<Rightarrow> int" where
  "heartbeat_age now le = count_ms (now - le_last_heartbeat le)"

definition removal_shell :: "endpoint \<Rightarrow> endpoint" where
  "removal_shell ep = empty_endpoint\<lparr>endpoint_id := endpoint_id ep, ep_version := ep_version ep, updated_ms := updated_ms ep\<rparr>"

record scan_state =
  sc_kept :: "(string, local_endpoint) omap"
  sc_dead :: "endpoint list"
  sc_removed_any :: bool
  sc_directory :: directory
  sc_tombstones :: "(string, endpoint \<times> u64) omap"
  sc_counter :: u64

definition scan_one :: "timepoint \<Rightarrow> u64 \<Rightarrow> string \<times> local_endpoint \<Rightarrow> scan_state \<Rightarrow> scan_state" where
  "scan_one now ms ke s =
     (case ke of (i, le) \<Rightarrow>
        if kEndpointRemoveMs \<le> heartbeat_age now le
        then (case remove_local ms i (sc_directory s) of
                (True, d) \<Rightarrow> s\<lparr>sc_directory := d, sc_removed_any := True,
                              sc_tombstones := om_set i (removal_shell (le_endpoint le), ms) (sc_tombstones s)\<rparr>
              | (False, d) \<Rightarrow> s)
        else if kEndpointDeadMs \<le> heartbeat_age now le \<and> ep_alive (le_endpoint le)
        then let ep = (le_endpoint le)\<lparr>ep_alive := False, ep_version := sc_counter s + 1, updated_ms := ms\<rparr>
             in s\<lparr>sc_counter := sc_counter s + 1, sc_dead := sc_dead s @ [ep], sc_kept := sc_kept s @ [(i, le\<lparr>le_endpoint := ep\<rparr>)]\<rparr>
        else s\<lparr>sc_kept := sc_kept s @ [(i, le)]\<rparr>)"

definition do_heartbeat_work :: "wsize \<Rightarrow> timepoint \<Rightarrow> u64 \<Rightarrow> leaf_state \<Rightarrow> leaf_state \<times> leaf_effect list" where
  "do_heartbeat_work wsize now ms l =
     (let s = fold (scan_one now ms) (l_local_endpoints l)
            \<lparr>sc_kept = [], sc_dead = [], sc_removed_any = False, sc_directory = l_directory l,
             sc_tombstones = l_local_tombstones l, sc_counter = l_version_counter l\<rparr>;
          l = l\<lparr>l_local_endpoints := sc_kept s, l_local_tombstones := sc_tombstones s, l_version_counter := sc_counter s,
                l_directory := fold (upsert_local ms) (sc_dead s) (sc_directory s)\<rparr>
      in if sc_dead s \<noteq> [] \<or> sc_removed_any s then send_snapshot_to_parent wsize ms l else (l, []))"

section \<open>Inbound messages\<close>

definition leaf_handle_directory :: "u64 \<Rightarrow> directory_snapshot \<Rightarrow> u64 \<Rightarrow> leaf_state \<Rightarrow> leaf_state \<times> leaf_effect list" where
  "leaf_handle_directory ms snap raw l =
     (l\<lparr>l_directory := snd (merge_snapshot ms snap (l_directory l))\<rparr>, [leaf_metric ''leaf_to_node'' ''DirectorySnapshot'' raw 0 True []])"

definition handle_inbound_request :: "wsize \<Rightarrow> routed_request \<Rightarrow> u64 \<Rightarrow> leaf_state \<Rightarrow> leaf_state \<times> leaf_effect list" where
  "handle_inbound_request wsize req raw l =
     (case fifo_try_push (req, raw) (l_request_queue l) of
        (True, q) \<Rightarrow> (l\<lparr>l_request_queue := q\<rparr>, [])
      | (False, q) \<Rightarrow> (l, send_response_to_parent wsize l (make_error_response l req ''overloaded'')))"

text \<open>\<open>backend\<close> is the answer of the backend's stub, \<open>latency\<close> the time it took.\<close>

type_synonym backend = "endpoint \<Rightarrow> hello_request \<Rightarrow> grpc_status \<times> hello_reply"

definition backend_response :: "codec \<Rightarrow> leaf_state \<Rightarrow> routed_request \<Rightarrow> endpoint \<Rightarrow> grpc_status \<times> hello_reply \<Rightarrow> routed_response" where
  "backend_response cd l req ep res =
     (case res of (st, reply) \<Rightarrow>
        let resp = \<lparr>rs_request_id = rq_request_id req, rs_origin_leaf = l_id l, rs_origin_node = current_node_id l,
              rs_destination_leaf = rq_origin_leaf req, rs_destination_node = rq_origin_node req, rs_body = [], rs_status = 0, rs_error = [],
              rs_hop_limit = hop_after (rq_hop_limit req)\<rparr>
        in if gs_code st = 0 then resp\<lparr>rs_body := ser_reply cd (reply\<lparr>hp_backend_id := endpoint_id ep\<rparr>)\<rparr>
           else resp\<lparr>rs_status := gs_code st, rs_error := gs_message st\<rparr>)"

definition process_inbound_request :: "wsize \<Rightarrow> codec \<Rightarrow> backend \<Rightarrow> u64 \<Rightarrow> routed_request \<Rightarrow> leaf_state \<Rightarrow> leaf_effect list" where
  "process_inbound_request wsize cd backend latency req l =
     (let refuse = (\<lambda>err. send_response_to_parent wsize l (make_error_response l req err))
      in if rq_destination_leaf req \<noteq> l_id l then refuse ''wrong_destination_leaf''
         else if rq_rpc_name req \<noteq> [] \<and> hd (rq_rpc_name req) = CHR ''/'' then [LGeneric req]
         else case par_request cd (rq_body req) of
                None \<Rightarrow> refuse ''bad_request_body''
              | Some hq \<Rightarrow>
                  (case find_endpoint (rq_endpoint_id req) (l_directory l) of
                     None \<Rightarrow> refuse ''endpoint_not_found''
                   | Some ep \<Rightarrow>
                       if \<not> ep_alive ep then refuse ''endpoint_not_found''
                       else
                         let res = backend ep hq
                         in leaf_metric ''leaf_to_backend'' (rq_rpc_name req) (of_nat (length (rq_body req))) latency (gs_code (fst res) = 0) (rq_metadata req)
                            # send_response_to_parent wsize l (backend_response cd l req ep res)))"

text \<open>One round of \<open>worker_loop\<close>.\<close>

definition leaf_worker_round :: "wsize \<Rightarrow> codec \<Rightarrow> backend \<Rightarrow> u64 \<Rightarrow> leaf_state \<Rightarrow> leaf_state \<times> leaf_effect list" where
  "leaf_worker_round wsize cd backend latency l =
     (case fifo_poll (l_request_queue l) of
        (None, q) \<Rightarrow> (l, [])
      | (Some (req, raw), q) \<Rightarrow> (l\<lparr>l_request_queue := q\<rparr>, process_inbound_request wsize cd backend latency req (l\<lparr>l_request_queue := q\<rparr>)))"

text \<open>The two critical sections of \<open>handle_inbound_response\<close>: the slot leaves the table, then it is filled.\<close>

definition take_slot :: "string \<Rightarrow> leaf_state \<Rightarrow> nat option \<times> leaf_state" where
  "take_slot rid l = (case map_of (l_pending l) rid of None \<Rightarrow> (None, l) | Some s \<Rightarrow> (Some s, l\<lparr>l_pending := om_erase rid (l_pending l)\<rparr>))"

definition fill_slot :: "nat \<Rightarrow> routed_response \<Rightarrow> leaf_state \<Rightarrow> leaf_state" where
  "fill_slot s resp l = l\<lparr>l_slots := om_set s \<lparr>pr_done = True, pr_response = resp\<rparr> (l_slots l)\<rparr>"

definition handle_inbound_response :: "routed_response \<Rightarrow> leaf_state \<Rightarrow> leaf_state" where
  "handle_inbound_response resp l = (case take_slot (rs_request_id resp) l of (None, l) \<Rightarrow> l | (Some s, l) \<Rightarrow> fill_slot s resp l)"

definition enqueue_stream :: "wire_message \<Rightarrow> leaf_state \<Rightarrow> bool \<times> leaf_state" where
  "enqueue_stream m l = (case fifo_try_push m (l_stream_queue l) of (ok, q) \<Rightarrow> (ok, l\<lparr>l_stream_queue := q\<rparr>))"

definition leaf_on_message :: "wsize \<Rightarrow> tsend \<Rightarrow> u64 \<Rightarrow> string \<Rightarrow> wire_message option \<Rightarrow> u64 \<Rightarrow> leaf_state \<Rightarrow> leaf_state \<times> leaf_effect list" where
  "leaf_on_message wsize tsend ms peer parsed raw l =
     (if peer \<notin> set (l_parent_ids l) then (l, [])
      else case parsed of
             None \<Rightarrow> (l, [])
           | Some (WDirectory snap) \<Rightarrow> leaf_handle_directory ms snap raw l
           | Some (WRequest req) \<Rightarrow> handle_inbound_request wsize req raw l
           | Some (WResponse resp) \<Rightarrow> (handle_inbound_response resp l, [])
           | Some (WStreamOpen opn) \<Rightarrow>
               (case enqueue_stream (WStreamOpen opn) l of
                  (True, l) \<Rightarrow> (l, [])
                | (False, l) \<Rightarrow> (l, send_stream_close_to tsend (so_request_id opn) (so_origin_leaf opn) (so_origin_node opn) False (-1) ''overloaded'' l))
           | Some m \<Rightarrow> (snd (enqueue_stream m l), []))"

section \<open>Outgoing calls\<close>

definition empty_response :: routed_response where
  "empty_response = \<lparr>rs_request_id = [], rs_origin_leaf = [], rs_origin_node = [], rs_destination_leaf = [], rs_destination_node = [],
     rs_body = [], rs_status = 0, rs_error = [], rs_hop_limit = 0\<rparr>"

definition routed_request_for :: "codec \<Rightarrow> string \<Rightarrow> u64 \<Rightarrow> endpoint \<Rightarrow> hello_request \<Rightarrow> metadata \<Rightarrow> leaf_state \<Rightarrow> routed_request" where
  "routed_request_for cd rid ms ep hq md l = \<lparr>rq_request_id = rid, rq_origin_leaf = l_id l, rq_origin_node = current_node_id l,
     rq_destination_leaf = owner_leaf ep, rq_destination_node = owner_node ep, rq_endpoint_id = endpoint_id ep, rq_rpc_name = ''SayHello'',
     rq_metadata = md, rq_body = ser_request cd hq, rq_deadline_ms = ms + l_rpc_timeout_ms l, rq_hop_limit = kDefaultBackendHopLimit\<rparr>"

text \<open>\<open>send_routed_request\<close> up to the wait: a slot is registered under the request's id, the request is sent. The
  slot is returned.\<close>

definition begin_routed_request :: "wsize \<Rightarrow> codec \<Rightarrow> tsend \<Rightarrow> string \<Rightarrow> u64 \<Rightarrow> endpoint \<Rightarrow> hello_request \<Rightarrow> metadata \<Rightarrow> leaf_state
    \<Rightarrow> nat \<times> leaf_state \<times> leaf_effect list" where
  "begin_routed_request wsize cd tsend rid ms ep hq md l =
     (let req = routed_request_for cd rid ms ep hq md l;
          s = l_next_slot l;
          l = l\<lparr>l_slots := om_set s \<lparr>pr_done = False, pr_response = empty_response\<rparr> (l_slots l), l_next_slot := s + 1,
                l_pending := om_set rid s (l_pending l)\<rparr>;
          eff = snd (send_to_mesh tsend (rq_destination_node req) (rq_destination_leaf req) (WRequest req) 1 l)
      in (s, l, eff @ [leaf_metric ''leaf_to_node'' ''RoutedRequest'' (wsize (WRequest req)) 0 True md]))"

definition status_of_response :: "codec \<Rightarrow> endpoint \<Rightarrow> routed_response \<Rightarrow> grpc_status \<times> hello_reply option" where
  "status_of_response cd ep resp =
     (if rs_status resp = 0
      then (case par_reply cd (rs_body resp) of
              None \<Rightarrow> (\<lparr>gs_code = 13, gs_message = ''bad_reply_body''\<rparr>, None)
            | Some reply \<Rightarrow> (status_ok, Some (reply\<lparr>hp_backend_id := endpoint_id ep\<rparr>)))
      else (\<lparr>gs_code = (if 0 < rs_status resp then rs_status resp else 14), gs_message = rs_error resp\<rparr>, None))"

text \<open>\<open>send_routed_request\<close> after the wait, which ends when the slot is done or the time is up.\<close>

definition end_routed_request :: "codec \<Rightarrow> string \<Rightarrow> nat \<Rightarrow> endpoint \<Rightarrow> leaf_state \<Rightarrow> (grpc_status \<times> hello_reply option) \<times> leaf_state" where
  "end_routed_request cd rid s ep l =
     (case map_of (l_slots l) s of
        Some slot \<Rightarrow>
          if pr_done slot then (status_of_response cd ep (pr_response slot), l)
          else ((\<lparr>gs_code = 4, gs_message = ''rpc_timeout''\<rparr>, None), l\<lparr>l_pending := om_erase rid (l_pending l)\<rparr>)
      | None \<Rightarrow> ((\<lparr>gs_code = 4, gs_message = ''rpc_timeout''\<rparr>, None), l\<lparr>l_pending := om_erase rid (l_pending l)\<rparr>))"

text \<open>A call of a backend of this leaf, with the time it takes and the size of the request.\<close>

definition call_backend :: "backend \<Rightarrow> u64 \<Rightarrow> u64 \<Rightarrow> endpoint \<Rightarrow> hello_request \<Rightarrow> metadata \<Rightarrow> (grpc_status \<times> hello_reply) \<times> leaf_effect list" where
  "call_backend backend latency reqsize ep hq md =
     (case backend ep hq of (st, reply) \<Rightarrow>
        ((st, reply\<lparr>hp_backend_id := endpoint_id ep\<rparr>), [leaf_metric ''leaf_to_backend'' ''SayHello'' reqsize latency (gs_code st = 0) md]))"

text \<open>A call of an endpoint by \<open>call_backend\<close> or \<open>send_routed_request\<close>, with what other threads do to the leaf
  meanwhile: its status, its latency and the state after it. The clock is read at the start of each attempt and
  at its end.\<close>

type_synonym call = "nat \<Rightarrow> endpoint \<Rightarrow> leaf_state \<Rightarrow> grpc_status \<times> u64 \<times> leaf_state"

definition counts_as_failure :: "grpc_status \<Rightarrow> bool" where
  "counts_as_failure st \<longleftrightarrow> gs_code st \<noteq> 14
     \<or> (gs_message st \<noteq> ''no_endpoint'' \<and> gs_message st \<noteq> ''no_backend'' \<and> gs_message st \<noteq> ''leaf_not_found'' \<and> gs_message st \<noteq> ''circuit_open'')"

definition after_failure :: "timepoint \<Rightarrow> string \<Rightarrow> grpc_status \<Rightarrow> leaf_state \<Rightarrow> leaf_state" where
  "after_failure now i st l =
     (let l = (if counts_as_failure st then l\<lparr>l_breaker := record_failure i now (l_breaker l)\<rparr> else l)
      in l\<lparr>l_balancer := invalidate i (l_balancer l)\<rparr>)"

text \<open>The loop of \<open>invoke_for_hello\<close>, with the calls it makes and their status.\<close>

fun invoke_loop :: "(string \<Rightarrow> nat) \<Rightarrow> (nat \<Rightarrow> timepoint) \<Rightarrow> (nat \<Rightarrow> timepoint) \<Rightarrow> call \<Rightarrow> string \<Rightarrow> metadata \<Rightarrow> endpoint list
    \<Rightarrow> nat \<Rightarrow> string list \<Rightarrow> grpc_status \<Rightarrow> leaf_state \<Rightarrow> grpc_status \<times> (endpoint \<times> grpc_status) list \<times> leaf_state" where
  "invoke_loop hash t0 t1 call service md eps 0 tried last_status l = (last_status, [], l)"
| "invoke_loop hash t0 t1 call service md eps (Suc n) tried last_status l =
     (case pick hash service md eps (t0 n) (l_balancer l) of
        (None, b) \<Rightarrow> (last_status, [], l\<lparr>l_balancer := b\<rparr>)
      | (Some ep, b) \<Rightarrow>
          let l = l\<lparr>l_balancer := b\<rparr>; i = endpoint_id ep
          in if i \<in> set tried then (last_status, [], l)
             else case allow i (t0 n) (l_breaker l) of
                    (False, br) \<Rightarrow> invoke_loop hash t0 t1 call service md eps n (i # tried) (unavailable ''circuit_open'') (l\<lparr>l_breaker := br\<rparr>)
                  | (True, br) \<Rightarrow>
                      (case call n ep (l\<lparr>l_breaker := br\<rparr>) of
                         (st, latency, l) \<Rightarrow>
                           if gs_code st = 0 then (st, [(ep, st)], l\<lparr>l_breaker := record_success i latency (l_breaker l)\<rparr>)
                           else (case invoke_loop hash t0 t1 call service md eps n (i # tried) st (after_failure (t1 n) i st l) of
                                   (st', calls, l) \<Rightarrow> (st', (ep, st) # calls, l))))"

definition invoke_for_hello :: "u64 \<Rightarrow> (string \<Rightarrow> nat) \<Rightarrow> (nat \<Rightarrow> timepoint) \<Rightarrow> (nat \<Rightarrow> timepoint) \<Rightarrow> call \<Rightarrow> string \<Rightarrow> metadata \<Rightarrow> leaf_state
    \<Rightarrow> grpc_status \<times> (endpoint \<times> grpc_status) list \<times> leaf_state \<times> leaf_effect list" where
  "invoke_for_hello reqsize hash t0 t1 call service md l =
     (let eps = service_endpoints service (l_directory l);
          (st, calls, l) = (if eps = [] then (unavailable ''no_endpoint'', [], l)
                            else invoke_loop hash t0 t1 call service md eps 2 [] (unavailable ''no_attempt'') l)
      in (st, calls, l, [leaf_metric ''client_to_leaf'' ''SayHello'' reqsize 0 (gs_code st = 0) md]))"

text \<open>The metadata of a call from the client's headers, the request and the trace context.\<close>

definition header_metadata :: "(string \<times> string) list \<Rightarrow> metadata" where
  "header_metadata headers =
     fold (\<lambda>(k, v) md. let md = om_set k v md
       in if k = ''x-creek-shard'' \<or> k = ''shard_key'' \<or> k = ''tenant_id'' then om_set ''shard_key'' v md else md) headers []"

definition header_of :: "string \<Rightarrow> metadata \<Rightarrow> string" where
  "header_of k md = (case map_of md k of None \<Rightarrow> [] | Some v \<Rightarrow> v)"

definition say_hello_metadata :: "u8 list \<Rightarrow> u8 list \<Rightarrow> (string \<times> string) list \<Rightarrow> hello_request \<Rightarrow> metadata" where
  "say_hello_metadata rs rs' headers hq =
     (let md = header_metadata headers;
          md = om_set ''sid'' (hq_sid hq) md;
          md = om_set ''sticky'' (if hq_sticky hq then ''true'' else ''false'') md;
          md = om_set ''x-sid'' (hq_sid hq) md;
          span = create_child rs' (extract_or_create rs (header_of ''traceparent'' md) (header_of ''tracestate'' md));
          md = om_set ''traceparent'' (traceparent_swapped span) md
      in if trace_state span \<noteq> [] then om_set ''tracestate'' (trace_state span) md else md)"

section \<open>Administration and shutdown\<close>

definition handle_set_sticky :: "int \<Rightarrow> leaf_state \<Rightarrow> leaf_state" where
  "handle_set_sticky ttl_ms l = (if 0 < ttl_ms then l\<lparr>l_balancer := set_ttl (msec ttl_ms) (l_balancer l)\<rparr> else l)"

definition handle_set_breaker :: "string \<Rightarrow> leaf_state \<Rightarrow> leaf_state" where
  "handle_set_breaker i l = l\<lparr>l_breaker := (if i \<noteq> [] then breaker_reset i (l_breaker l) else breaker_reset_all (l_breaker l))\<rparr>"

definition handle_directory_query :: "u64 \<Rightarrow> leaf_state \<Rightarrow> (string \<times> string \<times> endpoint list) \<times> leaf_state" where
  "handle_directory_query ms l =
     (case snapshot ms ms (l_id l) (l_directory l) of (snap, d) \<Rightarrow> ((l_id l, current_node_id l, sn_endpoints snap), l\<lparr>l_directory := d\<rparr>))"

text \<open>Loading a module is the WASM runtime's work: \<open>Inl\<close> is the text of its exception.\<close>

definition handle_push_wasm :: "string + u32 \<Rightarrow> leaf_state \<Rightarrow> (string + u32) \<times> leaf_state" where
  "handle_push_wasm loaded l = (case loaded of Inl e \<Rightarrow> (Inl e, l) | Inr i \<Rightarrow> (Inr i, l\<lparr>l_wasm_ids := l_wasm_ids l @ [i]\<rparr>))"

definition handle_list_wasm :: "leaf_state \<Rightarrow> (u32 \<times> string) list" where
  "handle_list_wasm l = map (\<lambda>i. (i, ''wasm_'' @ to_decimal (unat i))) (l_wasm_ids l)"

definition handle_unload_wasm :: "u32 \<Rightarrow> leaf_state \<Rightarrow> reply \<times> leaf_state" where
  "handle_unload_wasm i l =
     (if i \<in> set (l_wasm_ids l) then (Accepted, l\<lparr>l_wasm_ids := remove1 i (l_wasm_ids l)\<rparr>) else (Refused ''module not found'', l))"

fun leaf_known :: "(string \<times> string) list \<Rightarrow> leaf_state \<Rightarrow> leaf_state" where
  "leaf_known [] l = l"
| "leaf_known ((i, a) # leaves) l =
     leaf_known leaves (if map_of (l_known_leaves l) i \<noteq> None then l
       else case parse_address a of None \<Rightarrow> l | Some addr \<Rightarrow> l\<lparr>l_known_leaves := om_set i addr (l_known_leaves l)\<rparr>)"

fun leaf_discover :: "(string \<Rightarrow> (string \<times> string) list option) \<Rightarrow> string list \<Rightarrow> leaf_state \<Rightarrow> leaf_state" where
  "leaf_discover leaves_of [] l = l"
| "leaf_discover leaves_of (i # ids) l =
     (if i = l_id l then leaf_discover leaves_of ids l
      else case leaves_of i of None \<Rightarrow> l | Some leaves \<Rightarrow> leaf_discover leaves_of ids (leaf_known leaves l))"

definition leaf_do_redis_sync_work :: "(string \<times> string) list option \<Rightarrow> (string \<Rightarrow> (string \<times> string) list option) \<Rightarrow> leaf_state \<Rightarrow> leaf_state" where
  "leaf_do_redis_sync_work nodes leaves_of l = (case nodes of None \<Rightarrow> l | Some nodes \<Rightarrow> leaf_discover leaves_of (map fst nodes) l)"

definition finish_slot :: "nat \<Rightarrow> (nat, pending_response) omap \<Rightarrow> (nat, pending_response) omap" where
  "finish_slot s slots = (case map_of slots s of None \<Rightarrow> slots | Some p \<Rightarrow> om_set s (p\<lparr>pr_done := True\<rparr>) slots)"

definition leaf_stop :: "leaf_state \<Rightarrow> leaf_state" where
  "leaf_stop l =
     (if \<not> l_running l then l
      else l\<lparr>l_running := False, l_request_queue := fifo_close (l_request_queue l), l_stream_queue := fifo_close (l_stream_queue l),
             l_slots := fold (\<lambda>ks. finish_slot (snd ks)) (l_pending l) (l_slots l), l_pending := [],
             l_local_endpoints := [], l_local_tombstones := []\<rparr>)"

section \<open>Calls\<close>

lemma find_live_mem: "find_live_endpoint eps i = Some ep \<Longrightarrow> ep \<in> set eps"
  by (induction eps i rule: find_live_endpoint.induct) (auto split: if_splits)

lemma do_pick_mem: "eps \<noteq> [] \<Longrightarrow> fst (do_pick eps b) \<in> set eps"
  by (simp add: do_pick_def)

lemma pick_sticky_mem: "eps \<noteq> [] \<Longrightarrow> fst (pick_sticky key eps now b) \<in> set eps"
  using do_pick_mem [of eps b] by (auto simp: pick_sticky_def Let_def case_prod_beta find_live_mem split: option.splits)

lemma pick_mem: "pick hash service md eps now b = (Some ep, b') \<Longrightarrow> ep \<in> set eps"
proof -
  assume p: "pick hash service md eps now b = (Some ep, b')"
  then have "eps \<noteq> []" by (auto simp: pick_def)
  with p show ?thesis using do_pick_mem [of eps] pick_sticky_mem [of eps]
    by (auto simp: pick_def Let_def split: option.splits bool.splits prod.splits) (metis fst_conv)+
qed

text \<open>The calls of one invocation: at most \<open>n\<close>, of distinct endpoints not tried before, all but the last failed, and
  the result is a success exactly if the last one succeeded.\<close>

definition calls_ok :: "endpoint list \<Rightarrow> nat \<Rightarrow> string list \<Rightarrow> grpc_status \<Rightarrow> (endpoint \<times> grpc_status) list \<Rightarrow> bool" where
  "calls_ok eps n tried st calls \<longleftrightarrow>
     length calls \<le> n \<and> distinct (map (\<lambda>c. endpoint_id (fst c)) calls) \<and> (\<forall>c \<in> set calls. fst c \<in> set eps \<and> endpoint_id (fst c) \<notin> set tried)
     \<and> (\<forall>c \<in> set (butlast calls). gs_code (snd c) \<noteq> 0)
     \<and> (if gs_code st = 0 then calls \<noteq> [] \<and> snd (last calls) = st else \<forall>c \<in> set calls. gs_code (snd c) \<noteq> 0)"

lemma calls_ok_Nil: "gs_code st \<noteq> 0 \<Longrightarrow> calls_ok eps n tried st []"
  by (simp add: calls_ok_def)

lemma calls_ok_skip: "calls_ok eps n (i # tried) st calls \<Longrightarrow> calls_ok eps (Suc n) tried st calls"
  by (auto simp: calls_ok_def)

lemma calls_ok_Cons:
  assumes "calls_ok eps n (endpoint_id ep # tried) st' calls" "ep \<in> set eps" "endpoint_id ep \<notin> set tried" "gs_code st \<noteq> 0"
  shows "calls_ok eps (Suc n) tried st' ((ep, st) # calls)"
  using assms by (fastforce simp: calls_ok_def)

lemma invoke_loop_calls:
  "gs_code last_status \<noteq> 0 \<Longrightarrow> invoke_loop hash t0 t1 call service md eps n tried last_status l = (st, calls, l') \<Longrightarrow> calls_ok eps n tried st calls"
proof (induction n arbitrary: tried last_status l st calls l')
  case (Suc n)
  obtain q b where p: "pick hash service md eps (t0 n) (l_balancer l) = (q, b)" by force
  show ?case
  proof (cases "\<exists>ep. q = Some ep \<and> endpoint_id ep \<notin> set tried")
    case False
    then have "st = last_status" "calls = []" using Suc.prems(2) p by (auto simp: Let_def split: option.splits if_splits)
    then show ?thesis using Suc.prems(1) calls_ok_Nil by simp
  next
    case True
    then obtain ep where ep: "q = Some ep" "endpoint_id ep \<notin> set tried" "ep \<in> set eps" using p pick_mem by blast
    let ?i = "endpoint_id ep" and ?l = "l\<lparr>l_balancer := b\<rparr>"
    obtain ok br where a: "allow ?i (t0 n) (l_breaker ?l) = (ok, br)" by force
    obtain st1 latency l1 where c: "call n ep (?l\<lparr>l_breaker := br\<rparr>) = (st1, latency, l1)" using prod_cases3 by blast
    have u: "gs_code (unavailable ''circuit_open'') \<noteq> 0" by (simp add: unavailable_def)
    consider "\<not> ok" | "ok" "gs_code st1 = 0" | "ok" "gs_code st1 \<noteq> 0" by blast
    then show ?thesis
    proof cases
      case 1
      then have "invoke_loop hash t0 t1 call service md eps n (?i # tried) (unavailable ''circuit_open'') (?l\<lparr>l_breaker := br\<rparr>) = (st, calls, l')"
        using Suc.prems(2) p ep a by (simp add: Let_def)
      from Suc.IH [OF u this] show ?thesis by (rule calls_ok_skip)
    next
      case 2
      then have "st = st1" "calls = [(ep, st1)]" using Suc.prems(2) p ep a c by (auto simp: Let_def)
      then show ?thesis using 2 ep by (simp add: calls_ok_def)
    next
      case 3
      obtain calls' where r: "invoke_loop hash t0 t1 call service md eps n (?i # tried) st1 (after_failure (t1 n) ?i st1 l1) = (st, calls', l')"
          "calls = (ep, st1) # calls'"
        using Suc.prems(2) p ep a c 3 by (auto simp: Let_def split: prod.splits)
      from Suc.IH [OF 3(2) r(1)] show ?thesis unfolding r(2) by (rule calls_ok_Cons) (use ep 3 in auto)
    qed
  qed
qed (simp add: calls_ok_def)

text \<open>C17. A call with retry keeps to its bounds: whatever the backends answer, how long they take and what other
  threads do to the leaf meanwhile, a client's call makes at most two attempts, at two different endpoints
  that the directory lists for the service, goes on only after a failure, succeeds exactly if its last
  attempt succeeded, with that attempt's status, and records one metric saying so.\<close>

theorem call_attempts:
  assumes "invoke_for_hello reqsize hash t0 t1 call service md l = (st, calls, l', eff)"
  shows "calls_ok (service_endpoints service (l_directory l)) 2 [] st calls
     \<and> eff = [leaf_metric ''client_to_leaf'' ''SayHello'' reqsize 0 (calls \<noteq> [] \<and> gs_code (snd (last calls)) = 0) md]"
proof -
  let ?eps = "service_endpoints service (l_directory l)"
  have u: "gs_code (unavailable m) \<noteq> 0" for m by (simp add: unavailable_def)
  have c: "calls_ok ?eps 2 [] st calls"
    using assms invoke_loop_calls [OF u] calls_ok_Nil [OF u] by (fastforce simp: invoke_for_hello_def Let_def split: if_splits prod.splits)
  moreover have "gs_code st = 0 \<longleftrightarrow> calls \<noteq> [] \<and> gs_code (snd (last calls)) = 0"
    using c by (auto simp: calls_ok_def split: if_splits)
  moreover have "eff = [leaf_metric ''client_to_leaf'' ''SayHello'' reqsize 0 (gs_code st = 0) md]"
    using assms by (auto simp: invoke_for_hello_def Let_def split: if_splits prod.splits)
  ultimately show ?thesis by simp
qed

theorem call_attempts_witness:
  "\<exists>(l :: leaf_state) call. service_endpoints ''g'' (l_directory l) \<noteq> []
     \<and> (case invoke_for_hello 9 length (\<lambda>_. 0) (\<lambda>_. 0) call ''g'' [] l of
          (st, calls, l', eff) \<Rightarrow> calls_ok (service_endpoints ''g'' (l_directory l)) 2 [] st calls)"
proof -
  define l where "l = (new_leaf ''l'' [] 0 0)\<lparr>l_directory := new_directory\<lparr>d_endpoints := [(''x'', empty_endpoint\<lparr>endpoint_id := ''x'', ep_service := ''g''\<rparr>)]\<rparr>\<rparr>"
  define call :: call where "call = (\<lambda>n ep l. (unavailable ''leaf_not_found'', 0, l))"
  obtain st calls l' eff where "invoke_for_hello 9 length (\<lambda>_. 0) (\<lambda>_. 0) call ''g'' [] l = (st, calls, l', eff)" using prod_cases4 by blast
  from this call_attempts [OF this]
  have "case invoke_for_hello 9 length (\<lambda>_. 0) (\<lambda>_. 0) call ''g'' [] l of
          (st, calls, l', eff) \<Rightarrow> calls_ok (service_endpoints ''g'' (l_directory l)) 2 [] st calls" by simp
  moreover have "service_endpoints ''g'' (l_directory l) \<noteq> []" by (simp add: l_def service_endpoints_def)
  ultimately show ?thesis by (intro exI [of _ l] exI [of _ call] conjI)
qed

lemma pick_some: "eps \<noteq> [] \<Longrightarrow> \<exists>ep b'. pick hash service md eps now b = (Some ep, b')"
  by (auto simp: pick_def Let_def split: option.splits bool.splits prod.splits)

text \<open>A trial call of a half-open breaker that ends with a status that is not counted is never given back: the
  breaker stays as it was after admitting the call, so a breaker that admits one trial refuses from then on.\<close>

lemma trial_without_outcome:
  assumes "service_endpoints service (l_directory l) = [ep]" "\<And>n l. call n ep l = (unavailable ''leaf_not_found'', latency, l)"
    and "fst (allow (endpoint_id ep) (t0 1) (l_breaker l))"
    and "invoke_for_hello reqsize hash t0 t1 call service md l = (st, calls, l', eff)"
  shows "st = unavailable ''leaf_not_found'' \<and> l_breaker l' = snd (allow (endpoint_id ep) (t0 1) (l_breaker l))"
proof -
  have P: "\<exists>b'. pick hash service md [ep] t b = (Some ep, b')" for t b
    using pick_some [of "[ep]" hash service md t b] pick_mem [of hash service md "[ep]" t b] by force
  obtain b where b: "pick hash service md [ep] (t0 1) (l_balancer l) = (Some ep, b)" using P by blast
  obtain br where br: "allow (endpoint_id ep) (t0 1) (l_breaker l) = (True, br)" using assms(3) by (metis prod.collapse)
  have nc: "\<not> counts_as_failure (unavailable ''leaf_not_found'')" by (simp add: counts_as_failure_def unavailable_def)
  obtain b2 where b2: "pick hash service md [ep] (t0 0) (invalidate (endpoint_id ep) b) = (Some ep, b2)" using P by blast
  show ?thesis
    using assms(4) b br b2 nc assms(2)
    by (auto simp: invoke_for_hello_def assms(1) numeral_2_eq_2 Let_def after_failure_def unavailable_def)
qed

section \<open>Heartbeats\<close>

text \<open>The tables are sorted, each local endpoint is stored under its own id, which is not empty.\<close>

definition leaf_ok :: "leaf_state \<Rightarrow> bool" where
  "leaf_ok l \<longleftrightarrow> dir_ok (l_directory l) \<and> om_wf (l_local_endpoints l) \<and> om_wf (l_local_tombstones l)
     \<and> (\<forall>(i, le) \<in> set (l_local_endpoints l). endpoint_id (le_endpoint le) = i \<and> i \<noteq> [])"

definition expired :: "timepoint \<Rightarrow> local_endpoint \<Rightarrow> bool" where
  "expired now le \<longleftrightarrow> kEndpointRemoveMs \<le> heartbeat_age now le"

definition late :: "timepoint \<Rightarrow> local_endpoint \<Rightarrow> bool" where
  "late now le \<longleftrightarrow> \<not> expired now le \<and> kEndpointDeadMs \<le> heartbeat_age now le \<and> ep_alive (le_endpoint le)"

definition lapse :: "u64 \<Rightarrow> u64 \<Rightarrow> local_endpoint \<Rightarrow> local_endpoint" where
  "lapse ms v le = le\<lparr>le_endpoint := (le_endpoint le)\<lparr>ep_alive := False, ep_version := v, updated_ms := ms\<rparr>\<rparr>"

lemma scan_one_simps:
  "expired now le \<Longrightarrow> scan_one now ms (i, le) s =
     s\<lparr>sc_directory := snd (remove_local ms i (sc_directory s)),
       sc_removed_any := (find_endpoint i (sc_directory s) \<noteq> None \<or> sc_removed_any s),
       sc_tombstones := (if find_endpoint i (sc_directory s) \<noteq> None then om_set i (removal_shell (le_endpoint le), ms) (sc_tombstones s) else sc_tombstones s)\<rparr>"
  "late now le \<Longrightarrow> scan_one now ms (i, le) s =
     s\<lparr>sc_counter := sc_counter s + 1, sc_dead := sc_dead s @ [le_endpoint (lapse ms (sc_counter s + 1) le)],
       sc_kept := sc_kept s @ [(i, lapse ms (sc_counter s + 1) le)]\<rparr>"
  "\<not> expired now le \<Longrightarrow> \<not> late now le \<Longrightarrow> scan_one now ms (i, le) s = s\<lparr>sc_kept := sc_kept s @ [(i, le)]\<rparr>"
  by (auto simp: scan_one_def expired_def late_def lapse_def remove_local_def find_endpoint_def Let_def split: option.split)

lemma scan_cases [case_names expired late kept]:
  obtains "expired now le" | "late now le" | "\<not> expired now le" "\<not> late now le"
  by blast

lemma late_not_expired: "late now le \<Longrightarrow> \<not> expired now le" by (simp add: late_def)

lemma remove_local_find: "find_endpoint j (snd (remove_local ms i d)) = (if j = i then None else find_endpoint j d)"
  by (auto simp: remove_local_def find_endpoint_def om_erase_map_of split: option.split)

lemma scan_directory:
  "find_endpoint j (sc_directory (fold (scan_one now ms) es s))
     = (if \<exists>le. (j, le) \<in> set es \<and> expired now le then None else find_endpoint j (sc_directory s))"
proof (induction es arbitrary: s)
  case (Cons ke es)
  obtain i le where ke: "ke = (i, le)" by force
  show ?case
    by (cases rule: scan_cases [where now = now and le = le])
      (auto simp: ke Cons.IH scan_one_simps remove_local_find late_not_expired)
qed simp

lemma scan_directory_ok: "dir_ok (sc_directory s) \<Longrightarrow> dir_ok (sc_directory (fold (scan_one now ms) es s))"
proof (induction es arbitrary: s)
  case (Cons ke es)
  obtain i le where ke: "ke = (i, le)" by force
  show ?case using Cons.prems
    by (cases rule: scan_cases [where now = now and le = le])
      (auto simp: ke scan_one_simps dir_ok_remove intro!: Cons.IH)
qed simp

lemma scan_removed_any: "sc_removed_any s \<Longrightarrow> sc_removed_any (fold (scan_one now ms) es s)"
proof (induction es arbitrary: s)
  case (Cons ke es)
  obtain i le where ke: "ke = (i, le)" by force
  show ?case using Cons.prems
    by (cases rule: scan_cases [where now = now and le = le]) (auto simp: ke scan_one_simps intro!: Cons.IH)
qed simp

lemma scan_tombstones:
  "om_wf (sc_tombstones s) \<Longrightarrow> om_wf (sc_tombstones (fold (scan_one now ms) es s))"
  "om_wf (sc_tombstones s) \<Longrightarrow> j \<notin> fst ` set es
     \<Longrightarrow> map_of (sc_tombstones (fold (scan_one now ms) es s)) j = map_of (sc_tombstones s) j"
proof (induction es arbitrary: s)
  case (Cons ke es)
  obtain i le where ke: "ke = (i, le)" by force
  {
    case 1
    then show ?case
      by (cases rule: scan_cases [where now = now and le = le]) (auto simp: ke scan_one_simps intro!: Cons.IH(1))
  next
    case 2
    then show ?case
      by (cases rule: scan_cases [where now = now and le = le]) (auto simp: ke scan_one_simps Cons.IH(2) om_set_map_of)
  }
qed simp_all

lemma scan_expired:
  assumes "distinct (map fst es)" "(i, le) \<in> set es" "expired now le" "find_endpoint i (sc_directory s) \<noteq> None" "om_wf (sc_tombstones s)"
  shows "sc_removed_any (fold (scan_one now ms) es s)
     \<and> map_of (sc_tombstones (fold (scan_one now ms) es s)) i = Some (removal_shell (le_endpoint le), ms)"
  using assms
proof (induction es arbitrary: s)
  case (Cons ke es)
  obtain j le' where ke: "ke = (j, le')" by force
  show ?case
  proof (cases "j = i")
    case True
    then have "le' = le" "i \<notin> fst ` set es" using Cons.prems(1,2) ke by (auto simp: rev_image_eqI)
    then show ?thesis using Cons.prems True by (simp add: ke scan_one_simps scan_removed_any scan_tombstones(2) om_set_map_of)
  next
    case False
    have "find_endpoint i (sc_directory (scan_one now ms (j, le') s)) \<noteq> None \<and> om_wf (sc_tombstones (scan_one now ms (j, le') s))"
      using Cons.prems(4,5) False
      by (cases rule: scan_cases [where now = now and le = le']) (simp_all add: scan_one_simps remove_local_find)
    then show ?thesis using Cons.prems(1,2,3) Cons.IH [of "scan_one now ms (j, le') s"] ke False by simp
  qed
qed simp

text \<open>The endpoints the scan keeps, the late ones marked dead with the versions the counter gives.\<close>

fun scan_kept :: "timepoint \<Rightarrow> u64 \<Rightarrow> u64 \<Rightarrow> (string \<times> local_endpoint) list \<Rightarrow> (string \<times> local_endpoint) list" where
  "scan_kept now ms c [] = []"
| "scan_kept now ms c ((i, le) # es) =
     (if expired now le then scan_kept now ms c es
      else if late now le then (i, lapse ms (c + 1) le) # scan_kept now ms (c + 1) es
      else (i, le) # scan_kept now ms c es)"

fun scan_dead :: "timepoint \<Rightarrow> u64 \<Rightarrow> u64 \<Rightarrow> (string \<times> local_endpoint) list \<Rightarrow> endpoint list" where
  "scan_dead now ms c [] = []"
| "scan_dead now ms c ((i, le) # es) =
     (if late now le then le_endpoint (lapse ms (c + 1) le) # scan_dead now ms (c + 1) es else scan_dead now ms c es)"

lemma scan_kept_dead:
  "sc_kept (fold (scan_one now ms) es s) = sc_kept s @ scan_kept now ms (sc_counter s) es"
  "sc_dead (fold (scan_one now ms) es s) = sc_dead s @ scan_dead now ms (sc_counter s) es"
proof (induction es arbitrary: s)
  case (Cons ke es)
  obtain i le where ke: "ke = (i, le)" by force
  {
    case 1
    show ?case
      by (cases rule: scan_cases [where now = now and le = le]) (simp_all add: ke Cons.IH(1) scan_one_simps late_not_expired)
  next
    case 2
    show ?case
      by (cases rule: scan_cases [where now = now and le = le]) (auto simp: ke Cons.IH(2) scan_one_simps late_not_expired)
  }
qed simp_all

lemma scan_kept_keys: "map fst (scan_kept now ms c es) = map fst (filter (\<lambda>ke. \<not> expired now (snd ke)) es)"
  by (induction now ms c es rule: scan_kept.induct) auto

lemma scan_kept_mem:
  assumes "(i, le') \<in> set (scan_kept now ms c es)"
  shows "\<exists>le. (i, le) \<in> set es \<and> \<not> expired now le \<and> (le' = le \<and> \<not> late now le
     \<or> late now le \<and> (\<exists>k. 1 \<le> k \<and> k \<le> length es \<and> le' = lapse ms (c + of_nat k) le \<and> le_endpoint le' \<in> set (scan_dead now ms c es)))"
  using assms
proof (induction now ms c es rule: scan_kept.induct)
  case (2 now ms c j le0 es)
  consider (head) "(i, le') = (j, le0)" "\<not> expired now le0" "\<not> late now le0"
    | (dead) "(i, le') = (j, lapse ms (c + 1) le0)" "late now le0"
    | (skip) "expired now le0" "(i, le') \<in> set (scan_kept now ms c es)"
    | (tail) "\<not> expired now le0" "\<not> late now le0" "(i, le') \<in> set (scan_kept now ms c es)"
    | (late) "late now le0" "(i, le') \<in> set (scan_kept now ms (c + 1) es)"
    using "2.prems" by (auto simp: late_not_expired split: if_splits)
  then show ?case
  proof cases
    case head
    then show ?thesis by auto
  next
    case dead
    then show ?thesis by (intro exI [of _ le0]) (auto simp: late_not_expired intro!: exI [of _ 1])
  next
    case skip
    from "2.IH"(1) [OF this] obtain le where "(i, le) \<in> set es" "\<not> expired now le" "le' = le \<and> \<not> late now le
     \<or> late now le \<and> (\<exists>k. 1 \<le> k \<and> k \<le> length es \<and> le' = lapse ms (c + of_nat k) le \<and> le_endpoint le' \<in> set (scan_dead now ms c es))" by blast
    then show ?thesis using skip by (intro exI [of _ le]) (auto simp: late_not_expired)
  next
    case tail
    from "2.IH"(3) [OF this] obtain le where "(i, le) \<in> set es" "\<not> expired now le" "le' = le \<and> \<not> late now le
     \<or> late now le \<and> (\<exists>k. 1 \<le> k \<and> k \<le> length es \<and> le' = lapse ms (c + of_nat k) le \<and> le_endpoint le' \<in> set (scan_dead now ms c es))" by blast
    then show ?thesis using tail by (intro exI [of _ le]) auto
  next
    case late
    from "2.IH"(2) [OF late_not_expired [OF late(1)] late] obtain le where le: "(i, le) \<in> set es" "\<not> expired now le" "le' = le \<and> \<not> late now le
     \<or> late now le \<and> (\<exists>k. 1 \<le> k \<and> k \<le> length es \<and> le' = lapse ms (c + 1 + of_nat k) le \<and> le_endpoint le' \<in> set (scan_dead now ms (c + 1) es))" by blast
    have "\<exists>k. 1 \<le> k \<and> k \<le> length ((j, le0) # es) \<and> le' = lapse ms (c + of_nat k) le"
      if "1 \<le> k" "k \<le> length es" "le' = lapse ms (c + 1 + of_nat k) le" for k
      using that by (intro exI [of _ "Suc k"]) (simp add: add_ac)
    then show ?thesis using le late(1) by (intro exI [of _ le]) auto
  qed
qed simp

lemma scan_dead_ids:
  assumes "\<forall>(i, le) \<in> set es. endpoint_id (le_endpoint le) = i"
  shows "map endpoint_id (scan_dead now ms c es) = map fst (filter (\<lambda>ke. late now (snd ke)) es)"
  using assms by (induction now ms c es rule: scan_dead.induct) (auto simp: lapse_def)

lemma upsert_find:
  assumes "dir_ok d"
  shows "j \<noteq> endpoint_id ep \<Longrightarrow> find_endpoint j (upsert_local ms ep d) = find_endpoint j d"
    and "endpoint_id ep \<noteq> [] \<Longrightarrow> \<exists>v u. find_endpoint (endpoint_id ep) (upsert_local ms ep d) = Some (ep\<lparr>ep_version := v, updated_ms := u\<rparr>)"
proof -
  note wf = dir_okD(1) [OF assms]
  show "j \<noteq> endpoint_id ep \<Longrightarrow> find_endpoint j (upsert_local ms ep d) = find_endpoint j d"
    using wf by (simp add: find_endpoint_def upsert_local_def put_endpoint_def Let_def om_set_map_of)
  have "\<exists>v u. ep = ep\<lparr>ep_version := v, updated_ms := u\<rparr>"
    by (rule exI [of _ "ep_version ep"], rule exI [of _ "updated_ms ep"]) simp
  moreover have "\<exists>v u. ep\<lparr>ep_version := x\<rparr> = ep\<lparr>ep_version := v, updated_ms := u\<rparr>" for x
    by (rule exI [of _ x], rule exI [of _ "updated_ms ep"]) simp
  moreover have "\<exists>v u. ep\<lparr>updated_ms := x\<rparr> = ep\<lparr>ep_version := v, updated_ms := u\<rparr>" for x
    by (rule exI [of _ "ep_version ep"], rule exI [of _ x]) simp
  moreover have "\<exists>v u. ep\<lparr>ep_version := x, updated_ms := y\<rparr> = ep\<lparr>ep_version := v, updated_ms := u\<rparr>" for x y
    by blast
  ultimately show "endpoint_id ep \<noteq> [] \<Longrightarrow> \<exists>v u. find_endpoint (endpoint_id ep) (upsert_local ms ep d) = Some (ep\<lparr>ep_version := v, updated_ms := u\<rparr>)"
    using wf by (auto simp: find_endpoint_def upsert_local_def put_endpoint_def Let_def om_set_map_of split: option.split)
qed

lemma upserts_ok: "dir_ok d \<Longrightarrow> dir_ok (fold (upsert_local ms) eps d)"
  by (induction eps arbitrary: d) (simp_all add: dir_ok_upsert)

lemma upserts_skip:
  "dir_ok d \<Longrightarrow> j \<notin> endpoint_id ` set eps \<Longrightarrow> find_endpoint j (fold (upsert_local ms) eps d) = find_endpoint j d"
  by (induction eps arbitrary: d) (simp_all add: dir_ok_upsert upsert_find(1))

lemma upserts_find:
  assumes "dir_ok d" "distinct (map endpoint_id eps)" "ep \<in> set eps" "endpoint_id ep \<noteq> []"
  shows "\<exists>v u. find_endpoint (endpoint_id ep) (fold (upsert_local ms) eps d) = Some (ep\<lparr>ep_version := v, updated_ms := u\<rparr>)"
  using assms
proof (induction eps arbitrary: d)
  case (Cons e eps)
  show ?case
  proof (cases "ep = e")
    case True
    have "endpoint_id e \<notin> endpoint_id ` set eps" using Cons.prems(2) by simp
    then have "find_endpoint (endpoint_id e) (fold (upsert_local ms) eps (upsert_local ms e d)) = find_endpoint (endpoint_id e) (upsert_local ms e d)"
      by (rule upserts_skip [OF dir_ok_upsert [OF Cons.prems(1)]])
    then show ?thesis using upsert_find(2) [OF Cons.prems(1), of e ms] Cons.prems(4) True by simp
  next
    case False
    then show ?thesis using Cons.prems Cons.IH [of "upsert_local ms e d"] by (simp add: dir_ok_upsert)
  qed
qed simp

text \<open>What the heartbeat task makes of the leaf.\<close>

abbreviation heartbeat_scan :: "timepoint \<Rightarrow> u64 \<Rightarrow> leaf_state \<Rightarrow> scan_state" where
  "heartbeat_scan now ms l \<equiv> fold (scan_one now ms) (l_local_endpoints l)
     \<lparr>sc_kept = [], sc_dead = [], sc_removed_any = False, sc_directory = l_directory l,
      sc_tombstones = l_local_tombstones l, sc_counter = l_version_counter l\<rparr>"

lemma live_tombstones_idem [simp]: "live_tombstones ms (live_tombstones ms ts) = live_tombstones ms ts"
  by (simp add: live_tombstones_def)

lemma heartbeat_work_state:
  assumes "do_heartbeat_work wsize now ms l = (l', eff)"
  shows "l_local_endpoints l' = scan_kept now ms (l_version_counter l) (l_local_endpoints l)"
    and "l_directory l' = fold (upsert_local ms) (scan_dead now ms (l_version_counter l) (l_local_endpoints l)) (sc_directory (heartbeat_scan now ms l))"
    and "sc_removed_any (heartbeat_scan now ms l) \<or> scan_dead now ms (l_version_counter l) (l_local_endpoints l) \<noteq> []
      \<Longrightarrow> l_local_tombstones l' = live_tombstones ms (sc_tombstones (heartbeat_scan now ms l))
        \<and> (\<forall>p \<in> set (l_parent_ids l). LSend p (WDirectory (leaf_snapshot ms l')) \<in> set eff)"
proof -
  let ?k = "scan_kept now ms (l_version_counter l) (l_local_endpoints l)" and ?d = "scan_dead now ms (l_version_counter l) (l_local_endpoints l)"
  have kd: "sc_kept (heartbeat_scan now ms l) = ?k" "sc_dead (heartbeat_scan now ms l) = ?d" by (simp_all add: scan_kept_dead)
  define l1 where "l1 = l\<lparr>l_local_endpoints := ?k, l_local_tombstones := sc_tombstones (heartbeat_scan now ms l),
    l_version_counter := sc_counter (heartbeat_scan now ms l), l_directory := fold (upsert_local ms) ?d (sc_directory (heartbeat_scan now ms l))\<rparr>"
  have e: "(if ?d \<noteq> [] \<or> sc_removed_any (heartbeat_scan now ms l) then send_snapshot_to_parent wsize ms l1 else (l1, [])) = (l', eff)"
    using assms unfolding do_heartbeat_work_def Let_def l1_def kd .
  show "l_local_endpoints l' = ?k" "l_directory l' = fold (upsert_local ms) ?d (sc_directory (heartbeat_scan now ms l))"
    using e by (auto simp: send_snapshot_to_parent_def Let_def l1_def split: if_splits)
  assume "sc_removed_any (heartbeat_scan now ms l) \<or> ?d \<noteq> []"
  then have "send_snapshot_to_parent wsize ms l1 = (l', eff)" using e by (auto split: if_splits)
  then show "l_local_tombstones l' = live_tombstones ms (sc_tombstones (heartbeat_scan now ms l))
        \<and> (\<forall>p \<in> set (l_parent_ids l). LSend p (WDirectory (leaf_snapshot ms l')) \<in> set eff)"
    by (auto simp: send_snapshot_to_parent_def Let_def l1_def leaf_snapshot_def)
qed

lemma leaf_okD:
  assumes "leaf_ok l"
  shows "dir_ok (l_directory l)" "distinct (map fst (l_local_endpoints l))" "om_wf (l_local_tombstones l)"
    and "(i, le) \<in> set (l_local_endpoints l) \<Longrightarrow> endpoint_id (le_endpoint le) = i \<and> i \<noteq> []"
  using assms om_wf_distinct unfolding leaf_ok_def by blast+

lemma heartbeat_directory:
  assumes "leaf_ok l" "(i, le) \<in> set (l_local_endpoints l)" "do_heartbeat_work wsize now ms l = (l', eff)"
  shows "\<not> late now le \<Longrightarrow> find_endpoint i (l_directory l') = (if expired now le then None else find_endpoint i (l_directory l))"
    and "ep \<in> set (scan_dead now ms (l_version_counter l) (l_local_endpoints l)) \<Longrightarrow> endpoint_id ep = i
      \<Longrightarrow> \<exists>v u. find_endpoint i (l_directory l') = Some (ep\<lparr>ep_version := v, updated_ms := u\<rparr>)"
proof -
  let ?es = "l_local_endpoints l" and ?c = "l_version_counter l"
  note ok = leaf_okD [OF assms(1)]
  have only: "e = le" if "(i, e) \<in> set ?es" for e using ok(2) that assms(2) by (rule eq_key_imp_eq_value)
  have ex: "(\<exists>e. (i, e) \<in> set ?es \<and> expired now e) \<longleftrightarrow> expired now le" using assms(2) only by blast
  have dok: "dir_ok (sc_directory (heartbeat_scan now ms l))" by (rule scan_directory_ok) (simp add: ok)
  have ids: "\<forall>(j, e) \<in> set ?es. endpoint_id (le_endpoint e) = j" using ok(4) by blast
  note dead = scan_dead_ids [OF ids, of now ms ?c]
  have "i \<notin> endpoint_id ` set (scan_dead now ms ?c ?es)" if "\<not> late now le"
    using arg_cong [OF dead, of set] that only by force
  then show "\<not> late now le \<Longrightarrow> find_endpoint i (l_directory l') = (if expired now le then None else find_endpoint i (l_directory l))"
    unfolding heartbeat_work_state(2) [OF assms(3)] by (simp add: upserts_skip [OF dok] scan_directory ex)
  have "distinct (map endpoint_id (scan_dead now ms ?c ?es))" unfolding dead using ok(2) by (rule distinct_map_filter)
  then show "\<exists>v u. find_endpoint i (l_directory l') = Some (ep\<lparr>ep_version := v, updated_ms := u\<rparr>)"
    if "ep \<in> set (scan_dead now ms ?c ?es)" "endpoint_id ep = i"
    using upserts_find [OF dok _ that(1), of ms] ok(4) [OF assms(2)] that(2) unfolding heartbeat_work_state(2) [OF assms(3)] by simp
qed

lemma heartbeat_removed:
  assumes "leaf_ok l" "(i, le) \<in> set (l_local_endpoints l)" "do_heartbeat_work wsize now ms l = (l', eff)"
    and "expired now le" "find_endpoint i (l_directory l) \<noteq> None" "p \<in> set (l_parent_ids l)"
  shows "LSend p (WDirectory (leaf_snapshot ms l')) \<in> set eff \<and> removal_shell (le_endpoint le) \<in> set (sn_removed (leaf_snapshot ms l'))"
proof -
  note ok = leaf_okD [OF assms(1)]
  have s: "sc_removed_any (heartbeat_scan now ms l)" "map_of (sc_tombstones (heartbeat_scan now ms l)) i = Some (removal_shell (le_endpoint le), ms)"
    using scan_expired [OF ok(2) assms(2,4)] assms(5) ok(3) by auto
  have "(i, removal_shell (le_endpoint le), ms) \<in> set (live_tombstones ms (sc_tombstones (heartbeat_scan now ms l)))"
    using map_of_SomeD [OF s(2)] by (simp add: live_tombstones_def kLocalTombstoneTtlMs_def)
  then show ?thesis using heartbeat_work_state(3) [OF assms(3)] s(1) assms(6) by (force simp: leaf_snapshot_def)
qed

lemma scan_kept_ids:
  "\<forall>(i, le) \<in> set es. endpoint_id (le_endpoint le) = i \<Longrightarrow> \<forall>(i, le) \<in> set (scan_kept now ms c es). endpoint_id (le_endpoint le) = i"
  by (induction now ms c es rule: scan_kept.induct) (auto simp: lapse_def)

lemma scan_kept_find:
  assumes "distinct (map fst es)" "(i, le) \<in> set es"
  shows "expired now le \<Longrightarrow> i \<notin> fst ` set (scan_kept now ms c es)"
    and "\<not> expired now le \<Longrightarrow> \<exists>le'. map_of (scan_kept now ms c es) i = Some le'"
proof -
  have only: "e = le" if "(i, e) \<in> set es" for e using assms(1) that assms(2) by (rule eq_key_imp_eq_value)
  have keys: "fst ` set (scan_kept now ms c es) = fst ` set (filter (\<lambda>ke. \<not> expired now (snd ke)) es)"
    using arg_cong [OF scan_kept_keys [of now ms c es], of set] by simp
  show "expired now le \<Longrightarrow> i \<notin> fst ` set (scan_kept now ms c es)" unfolding keys using only by auto
  assume "\<not> expired now le"
  then have "i \<in> fst ` set (scan_kept now ms c es)" unfolding keys using assms(2) by force
  then show "\<exists>le'. map_of (scan_kept now ms c es) i = Some le'" by (simp add: map_of_eq_None_iff flip: not_None_eq)
qed

text \<open>C30. Silent backends leave the mesh: the heartbeat task of a well-formed leaf treats every local endpoint by
  the time since its last heartbeat. At ten seconds the endpoint is gone from the leaf's table and directory
  and, if the directory knew it, every parent is sent a snapshot that lists it as removed and no longer as an
  endpoint. From three seconds on an endpoint that is still marked alive is marked dead in both, under a
  version the counter has just issued, and every parent is sent a snapshot that says so. Below that nothing
  about it changes.\<close>

theorem endpoint_expiry:
  assumes "leaf_ok l" "map_of (l_local_endpoints l) i = Some le" "do_heartbeat_work wsize now ms l = (l', eff)"
  shows "if kEndpointRemoveMs \<le> heartbeat_age now le
      then map_of (l_local_endpoints l') i = None \<and> find_endpoint i (l_directory l') = None
        \<and> (find_endpoint i (l_directory l) \<noteq> None \<longrightarrow>
             (\<forall>p \<in> set (l_parent_ids l). \<exists>snap. LSend p (WDirectory snap) \<in> set eff
                \<and> removal_shell (le_endpoint le) \<in> set (sn_removed snap) \<and> (\<forall>e \<in> set (sn_endpoints snap). endpoint_id e \<noteq> i)))
      else if kEndpointDeadMs \<le> heartbeat_age now le \<and> ep_alive (le_endpoint le)
      then \<exists>k v u. 1 \<le> k \<and> k \<le> length (l_local_endpoints l)
        \<and> map_of (l_local_endpoints l') i = Some (lapse ms (l_version_counter l + of_nat k) le)
        \<and> find_endpoint i (l_directory l') = Some ((le_endpoint le)\<lparr>ep_alive := False, ep_version := v, updated_ms := u\<rparr>)
        \<and> (\<forall>p \<in> set (l_parent_ids l). \<exists>snap. LSend p (WDirectory snap) \<in> set eff
             \<and> le_endpoint (lapse ms (l_version_counter l + of_nat k) le) \<in> set (sn_endpoints snap))
      else map_of (l_local_endpoints l') i = Some le \<and> find_endpoint i (l_directory l') = find_endpoint i (l_directory l)"
proof -
  let ?es = "l_local_endpoints l" and ?c = "l_version_counter l"
  note ok = leaf_okD [OF assms(1)]
  have mem: "(i, le) \<in> set ?es" using map_of_SomeD [OF assms(2)] .
  note table = heartbeat_work_state(1) [OF assms(3)]
  note find = heartbeat_directory [OF assms(1) mem assms(3)]
  note kept = scan_kept_find [OF ok(2) mem, of now ms ?c, folded table]
  have split: "map_of (l_local_endpoints l') i = Some le \<and> \<not> late now le
      \<or> late now le \<and> (\<exists>k. 1 \<le> k \<and> k \<le> length ?es \<and> map_of (l_local_endpoints l') i = Some (lapse ms (?c + of_nat k) le)
          \<and> le_endpoint (lapse ms (?c + of_nat k) le) \<in> set (scan_dead now ms ?c ?es))" if ne: "\<not> expired now le"
  proof -
    obtain le' where le': "map_of (l_local_endpoints l') i = Some le'" using kept(2) [OF ne] by blast
    from scan_kept_mem [OF map_of_SomeD [OF this, unfolded table]] obtain e where e: "(i, e) \<in> set ?es" "le' = e \<and> \<not> late now e
        \<or> late now e \<and> (\<exists>k. 1 \<le> k \<and> k \<le> length ?es \<and> le' = lapse ms (?c + of_nat k) e \<and> le_endpoint le' \<in> set (scan_dead now ms ?c ?es))" by blast
    have "e = le" using ok(2) e(1) mem by (rule eq_key_imp_eq_value)
    with e(2) le' show ?thesis by blast
  qed
  consider (expired) "expired now le" | (late) "late now le" | (kept) "\<not> expired now le" "\<not> late now le" by (rule scan_cases)
  then show ?thesis
  proof cases
    case expired
    have gone: "\<forall>e \<in> set (sn_endpoints (leaf_snapshot ms l')). endpoint_id e \<noteq> i"
      using kept(1) [OF expired] scan_kept_ids [of ?es now ms ?c] ok(4) unfolding table [symmetric] by (force simp: leaf_snapshot_def)
    have "map_of (l_local_endpoints l') i = None" using kept(1) [OF expired] by (simp add: map_of_eq_None_iff)
    moreover have "find_endpoint i (l_directory l') = None" using find(1) expired late_not_expired by auto
    ultimately show ?thesis
      using expired heartbeat_removed [OF assms(1) mem assms(3) expired] gone unfolding expired_def by (auto 4 3)
  next
    case late
    then obtain k where k: "1 \<le> k" "k \<le> length ?es" "map_of (l_local_endpoints l') i = Some (lapse ms (?c + of_nat k) le)"
        "le_endpoint (lapse ms (?c + of_nat k) le) \<in> set (scan_dead now ms ?c ?es)" using split late_not_expired by blast
    have dead: "le_endpoint (lapse ms (?c + of_nat k) le) = (le_endpoint le)\<lparr>ep_alive := False, ep_version := ?c + of_nat k, updated_ms := ms\<rparr>"
      by (simp add: lapse_def)
    obtain v u where "find_endpoint i (l_directory l') = Some ((le_endpoint le)\<lparr>ep_alive := False, ep_version := v, updated_ms := u\<rparr>)"
      using find(2) [OF k(4)] ok(4) [OF mem] unfolding dead by auto
    moreover have "le_endpoint (lapse ms (?c + of_nat k) le) \<in> set (sn_endpoints (leaf_snapshot ms l'))"
      using map_of_SomeD [OF k(3)] by (force simp: leaf_snapshot_def)
    moreover have "LSend p (WDirectory (leaf_snapshot ms l')) \<in> set eff" if "p \<in> set (l_parent_ids l)" for p
    proof -
      have "scan_dead now ms ?c ?es \<noteq> []" using k(4) by force
      then show ?thesis using heartbeat_work_state(3) [OF assms(3)] that by blast
    qed
    ultimately show ?thesis using late k(1,2,3) by (auto simp: late_def expired_def)
  next
    case kept
    then show ?thesis using split find(1) by (auto simp: expired_def late_def)
  qed
qed

theorem endpoint_expiry_witness:
  "\<exists>l l' eff. map_of (l_local_endpoints (l :: leaf_state)) ''x'' \<noteq> None \<and> do_heartbeat_work (\<lambda>_. 0) (msec 12000) 7 l = (l', eff)
     \<and> map_of (l_local_endpoints l') ''x'' = None \<and> find_endpoint ''x'' (l_directory l') = None
     \<and> (\<exists>snap. LSend ''n'' (WDirectory snap) \<in> set eff \<and> sn_removed snap \<noteq> [])"
proof -
  define e where "e = empty_endpoint\<lparr>endpoint_id := ''x'', ep_service := ''g'', ep_version := 5, ep_alive := True\<rparr>"
  define l where "l = (new_leaf ''l'' [''n''] 0 0)\<lparr>l_parent_ids := [''n''], l_directory := new_directory\<lparr>d_endpoints := [(''x'', e)]\<rparr>,
    l_local_endpoints := [(''x'', \<lparr>le_endpoint = e, le_last_heartbeat = 0\<rparr>)]\<rparr>"
  have m: "map_of (l_local_endpoints l) ''x'' = Some \<lparr>le_endpoint = e, le_last_heartbeat = 0\<rparr>" by (simp add: l_def)
  have "dir_ok (l_directory l)" by (rule dir_okI) (auto simp: l_def new_directory_def e_def empty_endpoint_def split: if_splits)
  then have ok: "leaf_ok l" by (simp add: leaf_ok_def l_def e_def new_leaf_def)
  obtain l' eff where w: "do_heartbeat_work (\<lambda>_. 0) (msec 12000) 7 l = (l', eff)" by force
  have age: "kEndpointRemoveMs \<le> heartbeat_age (msec 12000) \<lparr>le_endpoint = e, le_last_heartbeat = 0\<rparr>"
    by (simp add: heartbeat_age_def kEndpointRemoveMs_def msec_def count_ms_def trunc_div_def)
  have "find_endpoint ''x'' (l_directory l) \<noteq> None" "l_parent_ids l = [''n'']" by (simp_all add: l_def find_endpoint_def)
  with endpoint_expiry [OF ok m w] age have "map_of (l_local_endpoints l') ''x'' = None \<and> find_endpoint ''x'' (l_directory l') = None
     \<and> (\<exists>snap. LSend ''n'' (WDirectory snap) \<in> set eff \<and> sn_removed snap \<noteq> [])" by force
  with m w show ?thesis by blast
qed

text \<open>A heartbeat brings back an endpoint that was deregistered, since deregistering only marks it dead.\<close>

lemma deregister_revived:
  assumes "leaf_ok l" "map_of (l_local_endpoints l) i = Some le"
    and "handle_deregister wsize ms i l = (r, l1, eff1)" "leaf_handle_heartbeat wsize now ms' i l1 = (r', l2, eff2)"
  shows "r = Accepted \<and> r' = Accepted \<and> (\<exists>le'. map_of (l_local_endpoints l2) i = Some le' \<and> ep_alive (le_endpoint le'))"
  using assms
  by (auto simp: handle_deregister_def leaf_handle_heartbeat_def restamp_def send_snapshot_to_parent_def Let_def leaf_ok_def om_set_map_of
      split: option.splits if_splits)

text \<open>An endpoint that registers with a version of its own above the leaf's counter is advertised as dead with a lower
  version than it was advertised alive with.\<close>

lemma own_version_outlives:
  assumes "ep_version ep = v" "l_version_counter l + 1 < v" "endpoint_id ep \<noteq> []" "ep_service ep \<noteq> []" "ep_target ep \<noteq> []" "leaf_ok l"
    and "handle_register wsize now ms (Some ep) l = (r, l1, eff1)" "handle_deregister wsize ms' (endpoint_id ep) l1 = (r', l2, eff2)"
  shows "\<exists>a d. map_of (l_local_endpoints l1) (endpoint_id ep) = Some a \<and> map_of (l_local_endpoints l2) (endpoint_id ep) = Some d
     \<and> ep_alive (le_endpoint a) \<and> \<not> ep_alive (le_endpoint d) \<and> ep_version (le_endpoint d) < ep_version (le_endpoint a)"
proof -
  have "ep_version ep \<noteq> 0" using assms(1,2) by auto
  then show ?thesis using assms
    by (auto simp: handle_register_def handle_deregister_def restamp_def send_snapshot_to_parent_def Let_def leaf_ok_def om_set_map_of
      split: option.splits if_splits)
qed

lemma finish_slots:
  assumes "om_wf slots"
  shows "map_of (fold (\<lambda>ks. finish_slot (snd ks)) ps slots) s
     = map_option (\<lambda>p. if s \<in> snd ` set ps then p\<lparr>pr_done := True\<rparr> else p) (map_of slots s)"
  using assms
proof (induction ps arbitrary: slots)
  case (Cons q ps)
  then show ?case
    by (cases "s = snd q") (auto simp: finish_slot_def om_set_map_of split: option.splits)
qed (simp add: option.map_ident)

text \<open>Calls that are waiting when the leaf stops return success with whatever an empty body parses to.\<close>

lemma stop_reports_success:
  assumes "begin_routed_request wsize cd tsend rid ms ep hq md l = (s, l1, eff)" "l_running l" "om_wf (l_slots l)" "om_wf (l_pending l)"
    and "par_reply cd [] = Some reply"
  shows "fst (end_routed_request cd rid s ep (leaf_stop l1)) = (status_ok, Some (reply\<lparr>hp_backend_id := endpoint_id ep\<rparr>))"
proof -
  have l1: "l_running l1" "l_slots l1 = om_set s \<lparr>pr_done = False, pr_response = empty_response\<rparr> (l_slots l)" "l_pending l1 = om_set rid s (l_pending l)"
    using assms(1,2) by (auto simp: begin_routed_request_def Let_def)
  have "map_of (l_pending l1) rid = Some s" using assms(4) by (simp add: l1 om_set_map_of)
  then have "s \<in> snd ` set (l_pending l1)" by (force dest: map_of_SomeD)
  then have "map_of (l_slots (leaf_stop l1)) s = Some \<lparr>pr_done = True, pr_response = empty_response\<rparr>"
    using l1 assms(3) by (simp add: leaf_stop_def finish_slots om_set_map_of)
  then show ?thesis using assms(5) by (simp add: end_routed_request_def status_of_response_def empty_response_def)
qed

section \<open>Runs of a leaf\<close>

text \<open>The handlers that touch the directory or the tables of local endpoints, in any order.\<close>

inductive leaf_step :: "leaf_state \<Rightarrow> leaf_state \<Rightarrow> bool" where
  Register: "handle_register wsize now ms req l = (r, l', eff) \<Longrightarrow> leaf_step l l'"
| Heartbeat: "leaf_handle_heartbeat wsize now ms i l = (r, l', eff) \<Longrightarrow> leaf_step l l'"
| Deregister: "handle_deregister wsize ms i l = (r, l', eff) \<Longrightarrow> leaf_step l l'"
| HeartbeatWork: "do_heartbeat_work wsize now ms l = (l', eff) \<Longrightarrow> leaf_step l l'"
| SyncWork: "leaf_do_sync_work wsize peers ms l = (l', eff) \<Longrightarrow> leaf_step l l'"
| RedisSync: "leaf_step l (leaf_do_redis_sync_work nodes leaves_of l)"
| PeerEvent: "leaf_on_peer_event wsize peers ms ev l = (l', eff) \<Longrightarrow> leaf_step l l'"
| Message: "leaf_on_message wsize tsend ms peer parsed raw l = (l', eff) \<Longrightarrow> leaf_step l l'"
| Worker: "leaf_worker_round wsize cd backend latency l = (l', eff) \<Longrightarrow> leaf_step l l'"
| Query: "handle_directory_query ms l = (answer, l') \<Longrightarrow> leaf_step l l'"
| CallBegin: "begin_routed_request wsize cd tsend rid ms ep hq md l = (s, l', eff) \<Longrightarrow> leaf_step l l'"
| CallEnd: "end_routed_request cd rid s ep l = (res, l') \<Longrightarrow> leaf_step l l'"
| Stop: "leaf_step l (leaf_stop l)"

lemma leaf_ok_new: "leaf_ok (new_leaf i ps t ms)"
  using reflects_dir_ok [OF reflects_new] by (simp add: leaf_ok_def new_leaf_def)

lemma leaf_ok_snapshot: "leaf_ok l \<Longrightarrow> leaf_ok (fst (send_snapshot_to_parent wsize ms l))"
  by (simp add: send_snapshot_to_parent_def Let_def leaf_ok_def live_tombstones_def)

lemma leaf_ok_frame [simp]:
  "leaf_ok (l_request_queue_update f1 l) \<longleftrightarrow> leaf_ok l"
  "leaf_ok (l_stream_queue_update f2 l) \<longleftrightarrow> leaf_ok l"
  "leaf_ok (l_slots_update f3 l) \<longleftrightarrow> leaf_ok l"
  "leaf_ok (l_next_slot_update f4 l) \<longleftrightarrow> leaf_ok l"
  "leaf_ok (l_pending_update f5 l) \<longleftrightarrow> leaf_ok l"
  "leaf_ok (l_active_parent_update f6 l) \<longleftrightarrow> leaf_ok l"
  "leaf_ok (l_all_parents_down_update f7 l) \<longleftrightarrow> leaf_ok l"
  "leaf_ok (l_known_leaves_update f8 l) \<longleftrightarrow> leaf_ok l"
  "leaf_ok (l_version_counter_update f9 l) \<longleftrightarrow> leaf_ok l"
  "leaf_ok (l_running_update f10 l) \<longleftrightarrow> leaf_ok l"
  by (simp_all add: leaf_ok_def)

lemma om_set_mem_subset: "set (om_set k v m) \<subseteq> insert (k, v) (set m)"
  by (induction k v m rule: om_set.induct) auto

lemma leaf_ok_put:
  assumes "leaf_ok l" "endpoint_id (le_endpoint le) = i" "i \<noteq> []"
  shows "leaf_ok (l\<lparr>l_local_endpoints := om_set i le (l_local_endpoints l)\<rparr>)"
  using assms om_set_mem_subset [of i le "l_local_endpoints l"] unfolding leaf_ok_def by auto

lemma leaf_ok_dir: "leaf_ok l \<Longrightarrow> dir_ok d \<Longrightarrow> leaf_ok (l\<lparr>l_directory := d\<rparr>)"
  by (simp add: leaf_ok_def)

lemma leaf_ok_tombs: "leaf_ok l \<Longrightarrow> leaf_ok (l\<lparr>l_local_tombstones := om_erase i (l_local_tombstones l)\<rparr>)"
  by (simp add: leaf_ok_def)

lemma leaf_ok_restamp:
  assumes "leaf_ok l" "endpoint_id (le_endpoint le) = i" "i \<noteq> []"
  shows "leaf_ok (restamp ms alive i le l)"
proof -
  let ?ep = "(le_endpoint le)\<lparr>ep_alive := alive, ep_version := l_version_counter l + 1, updated_ms := ms\<rparr>"
  have "leaf_ok (l\<lparr>l_directory := upsert_local ms ?ep (l_directory l)\<rparr>)"
    using assms(1) by (rule leaf_ok_dir) (rule dir_ok_upsert [OF leaf_okD(1) [OF assms(1)]])
  from leaf_ok_put [OF this, of "le\<lparr>le_endpoint := ?ep\<rparr>" i] assms(2,3)
  show ?thesis by (simp add: restamp_def Let_def leaf_ok_def)
qed

lemma leaf_ok_sends: "leaf_ok l \<Longrightarrow> send_snapshot_to_parent wsize ms l = (l', eff) \<Longrightarrow> leaf_ok l'"
  using leaf_ok_snapshot [of l wsize ms] by simp

lemma leaf_ok_insert:
  assumes "leaf_ok l" "endpoint_id e = i" "i \<noteq> []"
  shows "leaf_ok (l\<lparr>l_directory := upsert_local ms e (l_directory l),
     l_local_endpoints := om_set i \<lparr>le_endpoint = e, le_last_heartbeat = now\<rparr> (l_local_endpoints l),
     l_local_tombstones := om_erase i (l_local_tombstones l)\<rparr>)"
proof -
  have "leaf_ok (l\<lparr>l_directory := upsert_local ms e (l_directory l)\<rparr>)"
    using assms(1) by (rule leaf_ok_dir) (rule dir_ok_upsert [OF leaf_okD(1) [OF assms(1)]])
  from leaf_ok_tombs [OF leaf_ok_put [OF this, of "\<lparr>le_endpoint = e, le_last_heartbeat = now\<rparr>" i], of i] assms(2,3)
  show ?thesis by simp
qed

lemma leaf_ok_register:
  assumes "leaf_ok l" "handle_register wsize now ms req l = (r, l', eff)"
  shows "leaf_ok l'"
proof (cases "l' = l")
  case False
  then obtain ep where ep: "req = Some ep" "endpoint_id ep \<noteq> []"
    using assms(2) by (auto simp: handle_register_def split: option.splits if_splits)
  have c: "leaf_ok (l\<lparr>l_version_counter := l_version_counter l + 1\<rparr>)" using assms(1) by simp
  show ?thesis
  proof (cases "ep_version ep = 0")
    case True
    then show ?thesis using assms ep leaf_ok_sends [OF leaf_ok_insert [OF c _ ep(2),
        where e = "ep\<lparr>owner_leaf := l_id l, owner_node := current_node_id l, ep_version := l_version_counter l + 1, ep_alive := True, updated_ms := ms\<rparr>"]]
      by (auto simp: handle_register_def Let_def split: if_splits prod.splits)
  next
    case False
    then show ?thesis using assms ep leaf_ok_sends [OF leaf_ok_insert [OF assms(1) _ ep(2),
        where e = "ep\<lparr>owner_leaf := l_id l, owner_node := current_node_id l, ep_alive := True, updated_ms := ms\<rparr>"]]
      by (auto simp: handle_register_def Let_def split: if_splits prod.splits)
  qed
qed (use assms in simp)

lemma leaf_ok_heartbeat_work:
  assumes "leaf_ok l" "do_heartbeat_work wsize now ms l = (l', eff)"
  shows "leaf_ok l'"
proof -
  let ?es = "l_local_endpoints l"
  note ok = leaf_okD [OF assms(1)]
  have "om_wf ?es" using assms(1) unfolding leaf_ok_def by blast
  then have "om_wf (scan_kept now ms (l_version_counter l) ?es)"
    using om_wf_filter [of ?es] unfolding om_wf_def scan_kept_keys by blast
  moreover have "dir_ok (l_directory l')"
    unfolding heartbeat_work_state(2) [OF assms(2)] by (intro upserts_ok scan_directory_ok) (simp add: ok)
  moreover have "om_wf (l_local_tombstones l')"
  proof -
    have "om_wf (sc_tombstones (heartbeat_scan now ms l))" by (rule scan_tombstones(1)) (simp add: ok)
    then show ?thesis using assms(2) by (auto simp: do_heartbeat_work_def Let_def send_snapshot_to_parent_def live_tombstones_def split: if_splits)
  qed
  moreover have "endpoint_id (le_endpoint le) = i \<and> i \<noteq> []" if "(i, le) \<in> set (scan_kept now ms (l_version_counter l) ?es)" for i le
    using scan_kept_mem [OF that] ok(4) scan_kept_ids [of ?es now ms "l_version_counter l"] that by blast
  ultimately show ?thesis unfolding leaf_ok_def heartbeat_work_state(1) [OF assms(2)] by blast
qed

lemma leaf_ok_known: "leaf_ok l \<Longrightarrow> leaf_ok (leaf_known leaves l)"
  by (induction leaves l rule: leaf_known.induct) (auto split: option.split)

lemma leaf_ok_discover: "leaf_ok l \<Longrightarrow> leaf_ok (leaf_discover leaves_of ids l)"
  by (induction leaves_of ids l rule: leaf_discover.induct) (auto simp: leaf_ok_known split: option.split)

lemma leaf_ok_merge: "leaf_ok l \<Longrightarrow> leaf_ok (l\<lparr>l_directory := snd (merge_snapshot ms snap (l_directory l))\<rparr>)"
  by (intro leaf_ok_dir dir_ok_step [OF step_snapshot_in]) (simp_all add: leaf_okD)

lemma leaf_ok_local:
  assumes "leaf_ok l" "map_of (l_local_endpoints l) i = Some le"
  shows "endpoint_id (le_endpoint le) = i" "i \<noteq> []"
  using leaf_okD(4) [OF assms(1) map_of_SomeD [OF assms(2)]] by blast+

lemma leaf_ok_step: "leaf_step l l' \<Longrightarrow> leaf_ok l \<Longrightarrow> leaf_ok l'"
proof (induction rule: leaf_step.induct)
  case (Register wsize now ms req l r l' eff)
  then show ?case by (rule leaf_ok_register [rotated])
next
  case (Heartbeat wsize now ms i l r l' eff)
  show ?case
  proof (cases "map_of (l_local_endpoints l) i")
    case (Some le)
    note loc = leaf_ok_local [OF Heartbeat(2) Some]
    have id': "endpoint_id (le_endpoint (le\<lparr>le_last_heartbeat := now\<rparr>)) = i" using loc by simp
    from Heartbeat(1) Some show ?thesis
      using leaf_ok_put [OF Heartbeat(2) id' loc(2)] leaf_ok_sends [OF leaf_ok_tombs [OF leaf_ok_restamp [OF Heartbeat(2) id' loc(2)]]]
      by (auto simp: leaf_handle_heartbeat_def Let_def split: if_splits prod.splits)
  qed (use Heartbeat in \<open>simp add: leaf_handle_heartbeat_def\<close>)
next
  case (Deregister wsize ms i l r l' eff)
  show ?case
  proof (cases "map_of (l_local_endpoints l) i")
    case (Some le)
    with Deregister(1) show ?thesis
      using leaf_ok_sends [OF leaf_ok_restamp [OF Deregister(2) leaf_ok_local [OF Deregister(2) Some]]]
      by (auto simp: handle_deregister_def split: prod.splits)
  qed (use Deregister in \<open>simp add: handle_deregister_def\<close>)
next
  case (HeartbeatWork wsize now ms l l' eff)
  then show ?case by (rule leaf_ok_heartbeat_work [rotated])
next
  case (SyncWork wsize peers ms l l' eff)
  then show ?case by (auto simp: leaf_do_sync_work_def Let_def split: option.splits if_splits intro: leaf_ok_sends [rotated])
next
  case (RedisSync l nodes leaves_of)
  then show ?case by (auto simp: leaf_do_redis_sync_work_def leaf_ok_discover split: option.split)
next
  case (PeerEvent wsize peers ms ev l l' eff)
  then show ?case by (auto simp: leaf_on_peer_event_def split: option.splits if_splits intro: leaf_ok_sends [rotated])
next
  case (Message wsize tsend ms peer parsed raw l l' eff)
  then show ?case using leaf_ok_merge [OF Message(2)]
    by (auto simp: leaf_on_message_def leaf_handle_directory_def handle_inbound_request_def handle_inbound_response_def take_slot_def
        fill_slot_def enqueue_stream_def split: option.splits wire_message.splits if_splits prod.splits bool.splits)
next
  case (Query ms l answer l')
  then show ?case using leaf_ok_dir [OF Query(2) dir_ok_snapshot [OF leaf_okD(1) [OF Query(2)], of ms ms "l_id l"]]
    by (auto simp: handle_directory_query_def split: prod.splits)
next
  case (Stop l)
  then show ?case by (simp add: leaf_stop_def leaf_ok_def)
qed (auto simp: leaf_worker_round_def begin_routed_request_def end_routed_request_def Let_def split: option.splits prod.splits if_splits)

lemma leaf_ok_reachable: "leaf_step\<^sup>*\<^sup>* (new_leaf i ps t ms) l \<Longrightarrow> leaf_ok l"
  by (induction rule: rtranclp_induct) (auto intro: leaf_ok_step leaf_ok_new)

text \<open>When the link to the active parent closes the leaf turns to the first of its other parents that is online; without
  one it has no active parent until a link comes up or the sync task finds one.\<close>

lemma parent_failover:
  assumes "leaf_on_peer_event wsize peers ms ev l = (l', eff)"
    and "pe_id ev = l_active_parent l" "pe_state ev = LS_Closed" "l_active_parent l \<in> set (l_parent_ids l)"
  shows "if \<exists>p \<in> set (l_parent_ids l). p \<noteq> l_active_parent l \<and> parent_online peers p
     then l_active_parent l' \<in> set (l_parent_ids l) \<and> l_active_parent l' \<noteq> l_active_parent l \<and> parent_online peers (l_active_parent l')
     else l_active_parent l' = [] \<and> l_all_parents_down l'"
proof (cases "find (\<lambda>p. p \<noteq> pe_id ev \<and> parent_online peers p) (l_parent_ids l)")
  case None
  then have "\<not> (\<exists>p \<in> set (l_parent_ids l). p \<noteq> l_active_parent l \<and> parent_online peers p)" using assms(2) by (auto simp: find_None_iff)
  then show ?thesis using assms None by (auto simp: leaf_on_peer_event_def)
next
  case (Some p)
  then have "p \<in> set (l_parent_ids l)" "p \<noteq> l_active_parent l" "parent_online peers p"
    using assms(2) by (auto simp: find_Some_iff)
  then show ?thesis using assms Some by (auto simp: leaf_on_peer_event_def)
qed

section \<open>A call across the mesh\<close>

lemma relay_request:
  assumes "adjacent mesh a b" "rq_destination_node req = n_id b" "rq_hop_limit req \<noteq> 0" "map_of (n_leaves b) (rq_destination_leaf req) \<noteq> None"
  shows "relay ws mesh (n_id a) (WRequest req) = Some (rq_destination_leaf req, WRequest (req\<lparr>rq_hop_limit := rq_hop_limit req - 1\<rparr>))"
proof -
  note L = adjacentD [OF assms(1)]
  let ?fwd = "req\<lparr>rq_hop_limit := rq_hop_limit req - 1\<rparr>"
  have "sends (snd (node_on_message ws 0 0 [] (Some (WRequest req)) 0 a)) = [(n_id b, WRequest ?fwd)]"
    using L assms(2,3) by (simp add: sends_request)
  from relay_step [OF _ _ _ this, of mesh "n_id a"] have 1: "relay ws mesh (n_id a) (WRequest req) = relay ws mesh (n_id b) (WRequest ?fwd)"
    using L by simp
  have "sends (snd (node_on_message ws 0 0 [] (Some (WRequest ?fwd)) 0 b)) = [(rq_destination_leaf req, WRequest ?fwd)]"
    using L assms(2,4) by (auto simp: sends_request)
  from relay_step [OF _ _ _ this, of mesh "n_id b"] show ?thesis using L assms(4) 1 by simp
qed

lemma relay_response:
  assumes "adjacent mesh a b" "rs_destination_node resp = n_id a" "rs_hop_limit resp \<noteq> 0" "map_of (n_leaves a) (rs_destination_leaf resp) \<noteq> None"
  shows "relay ws mesh (n_id b) (WResponse resp) = Some (rs_destination_leaf resp, WResponse (resp\<lparr>rs_hop_limit := rs_hop_limit resp - 1\<rparr>))"
proof -
  note L = adjacentD [OF assms(1)]
  let ?fwd = "resp\<lparr>rs_hop_limit := rs_hop_limit resp - 1\<rparr>"
  have "sends (snd (node_on_message ws 0 0 [] (Some (WResponse resp)) 0 b)) = [(n_id a, WResponse ?fwd)]"
    using L assms(2,3) by (simp add: sends_response sends_route_response)
  from relay_step [OF _ _ _ this, of mesh "n_id b"] have 1: "relay ws mesh (n_id b) (WResponse resp) = relay ws mesh (n_id a) (WResponse ?fwd)"
    using L by simp
  have "sends (snd (node_on_message ws 0 0 [] (Some (WResponse ?fwd)) 0 a)) = [(rs_destination_leaf resp, WResponse ?fwd)]"
    using L assms(2,4) by (auto simp: sends_response sends_route_response)
  from relay_step [OF _ _ _ this, of mesh "n_id a"] show ?thesis using L assms(4) 1 by simp
qed

text \<open>The leaf that serves: a request addressed to it goes through its queue to the worker and is answered.\<close>

lemma served:
  assumes "l_request_queue l = new_fifo 256" "p \<in> set (l_parent_ids l)" "l_active_parent l \<noteq> []" "rq_destination_leaf req = l_id l"
    and "rq_rpc_name req = ''SayHello''" "par_request cd (rq_body req) = Some hq" "find_endpoint (rq_endpoint_id req) (l_directory l) = Some ep"
    and "ep_alive ep" "leaf_on_message ws tsend ms p (Some (WRequest req)) raw l = (l1, eff1)" "leaf_worker_round ws cd backend latency l1 = (l2, eff2)"
  shows "LSend (l_active_parent l) (WResponse (backend_response cd l req ep (backend ep hq))) \<in> set eff2"
proof -
  have l1: "l1 = l\<lparr>l_request_queue := snd (fifo_try_push (req, raw) (new_fifo 256))\<rparr>"
    using assms(1,2,9) by (auto simp: leaf_on_message_def handle_inbound_request_def new_fifo_def fifo_try_push_def split: prod.splits bool.splits)
  have "fifo_poll (l_request_queue l1) = (Some (req, raw), new_fifo 256)" by (simp add: l1 new_fifo_def fifo_try_push_def fifo_poll_def)
  then have "eff2 = process_inbound_request ws cd backend latency req (l1\<lparr>l_request_queue := new_fifo 256\<rparr>)"
    using assms(10) by (auto simp: leaf_worker_round_def)
  then show ?thesis using assms(3-8)
    by (simp add: process_inbound_request_def l1 send_response_to_parent_def backend_response_def current_node_id_def Let_def case_prod_beta)
qed

text \<open>The leaf that calls: the response with the id of its request fills the slot it is waiting for.\<close>

lemma slot_answered:
  assumes "map_of (l_pending l) (rs_request_id resp) = Some s" "om_wf (l_slots l)"
  shows "fst (end_routed_request cd rid s ep (handle_inbound_response resp l)) = status_of_response cd ep resp"
  using assms by (simp add: handle_inbound_response_def take_slot_def fill_slot_def end_routed_request_def om_set_map_of)

text \<open>C6. A call of an endpoint on another leaf comes back. The caller's leaf hangs on one node, the endpoint's leaf
  on another that the first knows, and the backend answers. The request the caller sends, with the hop limit
  leaves give their requests, is relayed to the endpoint's leaf, whose worker sends the response, and that is
  relayed to the caller's leaf; whatever else has happened there meanwhile, as long as the call is still
  waiting, it then ends with success and the backend's reply. The codec is only assumed to parse what it wrote.\<close>

theorem rpc_roundtrip:
  fixes la lb :: leaf_state
  assumes "adjacent mesh a b"
    and caller: "l_active_parent la = n_id a" "tsend (n_id a)" "map_of (n_leaves a) (l_id la) \<noteq> None" "om_wf (l_pending la)"
    and callee: "l_active_parent lb = n_id b" "n_id b \<in> set (l_parent_ids lb)" "map_of (n_leaves b) (l_id lb) \<noteq> None" "l_request_queue lb = new_fifo 256"
    and endpoint: "owner_leaf ep = l_id lb" "owner_node ep = n_id b" "find_endpoint (endpoint_id ep) (l_directory lb) = Some ep'" "ep_alive ep'"
    and codec: "\<forall>q. par_request cd (ser_request cd q) = Some q" "\<forall>r. par_reply cd (ser_reply cd r) = Some r"
    and backend: "backend ep' hq = (status_ok, reply)"
    and call: "begin_routed_request ws cd tsend rid ms ep hq md la = (s, la1, eff)"
  shows "\<exists>req req' resp resp'.
     LSendPriority (n_id a) 1 (WRequest req) \<in> set eff
     \<and> relay ws mesh (n_id a) (WRequest req) = Some (l_id lb, WRequest req')
     \<and> (\<forall>tsend' ms' raw latency lb1 eff1 lb2 eff2. leaf_on_message ws tsend' ms' (n_id b) (Some (WRequest req')) raw lb = (lb1, eff1)
          \<longrightarrow> leaf_worker_round ws cd backend latency lb1 = (lb2, eff2) \<longrightarrow> LSend (n_id b) (WResponse resp) \<in> set eff2)
     \<and> relay ws mesh (n_id b) (WResponse resp) = Some (l_id la, WResponse resp')
     \<and> map_of (l_pending la1) rid = Some s
     \<and> (\<forall>la2. map_of (l_pending la2) rid = Some s \<longrightarrow> om_wf (l_slots la2)
          \<longrightarrow> fst (end_routed_request cd rid s ep (handle_inbound_response resp' la2)) = (status_ok, Some (reply\<lparr>hp_backend_id := endpoint_id ep\<rparr>)))"
proof -
  note L = adjacentD [OF assms(1)]
  define req where "req = routed_request_for cd rid ms ep hq md la"
  define req' where "req' = req\<lparr>rq_hop_limit := rq_hop_limit req - 1\<rparr>"
  define resp where "resp = backend_response cd lb req' ep' (backend ep' hq)"
  define resp' where "resp' = resp\<lparr>rs_hop_limit := rs_hop_limit resp - 1\<rparr>"
  have req: "rq_destination_node req = n_id b" "rq_destination_leaf req = l_id lb" "rq_hop_limit req = 16" "rq_request_id req = rid"
    "rq_origin_leaf req = l_id la" "rq_origin_node req = n_id a" "rq_rpc_name req = ''SayHello''" "rq_body req = ser_request cd hq"
    "rq_endpoint_id req = endpoint_id ep"
    using caller(1) endpoint L by (simp_all add: req_def routed_request_for_def current_node_id_def kDefaultBackendHopLimit_def)
  have resp: "rs_destination_node resp = n_id a" "rs_destination_leaf resp = l_id la" "rs_hop_limit resp = 14" "rs_request_id resp = rid"
    "rs_status resp = 0" "rs_body resp = ser_reply cd (reply\<lparr>hp_backend_id := endpoint_id ep'\<rparr>)"
    using req by (simp_all add: resp_def req'_def backend_response_def backend status_ok_def hop_after_def Let_def)
  have "LSendPriority (n_id a) 1 (WRequest req) \<in> set eff" "map_of (l_pending la1) rid = Some s"
    using call caller L by (auto simp: begin_routed_request_def Let_def req_def [symmetric] send_to_mesh_def send_one_def om_set_map_of)
  moreover have "relay ws mesh (n_id a) (WRequest req) = Some (l_id lb, WRequest req')"
    using relay_request [OF assms(1) req(1)] req callee(3) by (simp add: req'_def)
  moreover have "relay ws mesh (n_id b) (WResponse resp) = Some (l_id la, WResponse resp')"
    using relay_response [OF assms(1) resp(1)] resp caller(3) by (simp add: resp'_def)
  moreover have "LSend (n_id b) (WResponse resp) \<in> set eff2"
    if "leaf_on_message ws tsend' ms' (n_id b) (Some (WRequest req')) raw lb = (lb1, eff1)" "leaf_worker_round ws cd backend latency lb1 = (lb2, eff2)"
    for tsend' ms' raw latency lb1 eff1 lb2 eff2
    unfolding resp_def callee(1) [symmetric]
    by (rule served [OF callee(4,2) _ _ _ _ _ endpoint(4) that]) (use req callee(1) L(8) codec(1) endpoint(3) in \<open>simp_all add: req'_def\<close>)
  moreover have "fst (end_routed_request cd rid s ep (handle_inbound_response resp' la2)) = (status_ok, Some (reply\<lparr>hp_backend_id := endpoint_id ep\<rparr>))"
    if "map_of (l_pending la2) rid = Some s" "om_wf (l_slots la2)" for la2
    using slot_answered [of la2 resp' s cd rid ep] that resp codec(2) by (simp add: resp'_def status_of_response_def)
  ultimately show ?thesis by blast
qed

text \<open>A codec that satisfies the assumption: each character is announced by a one, each string ended by a zero.\<close>

fun put_string :: "string \<Rightarrow> bytes" where
  "put_string [] = [0]"
| "put_string (c # s) = 1 # of_nat (of_char c) # put_string s"

fun get_string :: "bytes \<Rightarrow> (string \<times> bytes) option" where
  "get_string (t # bs) = (if t = 0 then Some ([], bs)
     else case bs of [] \<Rightarrow> None | b # bs \<Rightarrow> map_option (\<lambda>(s, r). (char_of (unat b) # s, r)) (get_string bs))"
| "get_string [] = None"

definition get_strings :: "bytes \<Rightarrow> (string \<times> string \<times> bytes) option" where
  "get_strings bs = (case get_string bs of None \<Rightarrow> None | Some (s, r) \<Rightarrow> map_option (\<lambda>(s', r). (s, s', r)) (get_string r))"

definition sample_codec :: codec where
  "sample_codec = \<lparr>par_request = (\<lambda>bs. map_option (\<lambda>(n, i, r). \<lparr>hq_name = n, hq_sid = i, hq_sticky = (r \<noteq> [])\<rparr>) (get_strings bs)),
     ser_request = (\<lambda>q. put_string (hq_name q) @ put_string (hq_sid q) @ (if hq_sticky q then [1] else [])),
     par_reply = (\<lambda>bs. map_option (\<lambda>(m, i, r). \<lparr>hp_message = m, hp_backend_id = i\<rparr>) (get_strings bs)),
     ser_reply = (\<lambda>r. put_string (hp_message r) @ put_string (hp_backend_id r))\<rparr>"

lemma get_put_string [simp]: "get_string (put_string s @ r) = Some (s, r)"
proof (induction s)
  case (Cons c s)
  have "(of_char c :: nat) < 256" by (metis char_of_char of_char_of mod_less_divisor zero_less_numeral)
  then have "unat (of_nat (of_char c) :: u8) = of_char c" by (simp add: unat_of_nat)
  with Cons show ?case by simp
qed simp

lemma sample_codec_laws:
  "par_request sample_codec (ser_request sample_codec q) = Some q" "par_reply sample_codec (ser_reply sample_codec p) = Some p"
  using get_put_string [of "hp_backend_id p" "[]"] by (simp_all add: sample_codec_def get_strings_def)

theorem rpc_roundtrip_witness:
  "\<exists>(la :: leaf_state) (la1 :: leaf_state) ep eff s req resp'.
     begin_routed_request (\<lambda>_. 0) sample_codec (\<lambda>_. True) ''r'' 0 ep \<lparr>hq_name = ''joe'', hq_sid = [], hq_sticky = False\<rparr> [] la = (s, la1, eff)
     \<and> LSendPriority ''a'' 1 (WRequest req) \<in> set eff
     \<and> fst (end_routed_request sample_codec ''r'' s ep (handle_inbound_response resp' la1))
         = (status_ok, Some \<lparr>hp_message = ''hello'', hp_backend_id = ''x''\<rparr>)"
proof -
  define a where "a = (new_node ''a'' [] 0)\<lparr>n_known_node_peers := [''b''], n_leaves := [(''cli'', 0)]\<rparr>"
  define b where "b = (new_node ''b'' [] 0)\<lparr>n_known_node_peers := [''a''], n_leaves := [(''srv'', 0)]\<rparr>"
  define mesh where "mesh = [''a'' \<mapsto> a, ''b'' \<mapsto> b]"
  define ep where "ep = empty_endpoint\<lparr>endpoint_id := ''x'', ep_service := ''g'', owner_leaf := ''srv'', owner_node := ''b'', ep_alive := True\<rparr>"
  define la where "la = (new_leaf ''cli'' [''a''] 0 0)\<lparr>l_active_parent := ''a'', l_parent_ids := [''a'']\<rparr>"
  define lb where "lb = (new_leaf ''srv'' [''b''] 0 0)\<lparr>l_active_parent := ''b'', l_parent_ids := [''b''], l_directory := new_directory\<lparr>d_endpoints := [(''x'', ep)]\<rparr>\<rparr>"
  define hq where "hq = \<lparr>hq_name = ''joe'', hq_sid = [], hq_sticky = False\<rparr>"
  obtain s la1 eff where call: "begin_routed_request (\<lambda>_. 0) sample_codec (\<lambda>_. True) ''r'' 0 ep hq [] la = (s, la1, eff)" using prod_cases3 by blast
  have adj: "adjacent mesh a b" by (simp add: adjacent_def mesh_def a_def b_def new_node_def)
  have fin: "find_endpoint (endpoint_id ep) (l_directory lb) = Some ep" by (simp add: lb_def ep_def find_endpoint_def)
  have slots: "om_wf (l_slots la1)" using call by (auto simp: begin_routed_request_def Let_def la_def new_leaf_def)
  obtain req resp' where "LSendPriority (n_id a) 1 (WRequest req) \<in> set eff" "map_of (l_pending la1) ''r'' = Some s"
    "\<forall>la2 :: leaf_state. map_of (l_pending la2) ''r'' = Some s \<longrightarrow> om_wf (l_slots la2)
       \<longrightarrow> fst (end_routed_request sample_codec ''r'' s ep (handle_inbound_response resp' la2))
         = (status_ok, Some (\<lparr>hp_message = ''hello'', hp_backend_id = []\<rparr>\<lparr>hp_backend_id := endpoint_id ep\<rparr>))"
    using rpc_roundtrip [OF adj, of la "\<lambda>_. True" lb ep ep sample_codec "\<lambda>_ _. (status_ok, \<lparr>hp_message = ''hello'', hp_backend_id = []\<rparr>)" hq
        "\<lparr>hp_message = ''hello'', hp_backend_id = []\<rparr>" "\<lambda>_. 0" "''r''" 0 "[]" s la1 eff] call fin sample_codec_laws
    by (simp add: a_def b_def la_def lb_def new_node_def new_leaf_def ep_def) blast
  with call slots show ?thesis by (intro exI [of _ la] exI [of _ la1] exI [of _ ep] exI [of _ eff] exI [of _ s] exI [of _ req] exI [of _ resp'])
     (simp add: hq_def ep_def a_def new_node_def)
qed

end
