(* ===== verification/Generic.thy ===== *)
theory Generic
  imports Leaf
begin

text \<open>
  The generic proxy of the leaf (\<open>src/leaf/leaf_generic.cpp\<close>, \<open>src/leaf/generic_proxy.hpp\<close>): calls of any method
  that arrive on the asynchronous gRPC interface, and their streams to a backend of this leaf or, by routed
  open, frame and close messages, to a backend of another leaf.

  gRPC is a service the code calls and that completes what it was asked: the operations the code starts are
  effects (\<open>GRead\<close>, \<open>GWrite\<close>, \<open>GFinish\<close> for a client's call, \<open>GBackendWrite\<close> and others for a backend's), their
  completions are events with the result gRPC gives. Objects that the code reaches by pointer have names: a
  client's call its request id, a backend's call a number, since two of them can carry the same request id.
  Each function runs its critical sections in the order of the code; a function that blocks for ever on a
  mutex it holds says so by the effect \<open>GSelfDeadlock\<close>. What one operation needs of its surroundings, the
  clock, the random numbers, the answers of the transport and of gRPC, is collected in a record.

  The lemmas show that the calls of the gRPC interface keep to its rules in every run, that messages pass
  in both directions in order and exactly once as long as nobody closes, and that the sweeper fails the
  streams whose backend gives no sign of life; and they exhibit the runs in which a call never ends, an
  empty message is lost, a fresh call is taken for an idle one and a breaker is left without an answer.
\<close>

section \<open>State and effects\<close>

definition kClassifyWindowMs :: int where "kClassifyWindowMs = 50"
definition kGenericCallSlots :: nat where "kGenericCallSlots = 2"
definition kStreamIdleTimeout :: duration where "kStreamIdleTimeout = sec 120"
definition kStreamOpenTimeout :: duration where "kStreamOpenTimeout = sec 15"
definition kMaxIngressWriteQueue :: nat where "kMaxIngressWriteQueue = 256"
definition kMaxBackendWriteQueue :: nat where "kMaxBackendWriteQueue = 1024"

text \<open>A client's call. The phases are 0 fresh, 1 first read pending, 2 classifying, 3 stream mode; the zero of
  \<open>ig_open_sent_at\<close> says that the stream has not been opened.\<close>

record ingress_stream =
  ig_phase :: nat
  ig_read_outstanding :: bool
  ig_read_stopped :: bool
  ig_write_outstanding :: bool
  ig_finishing :: bool
  ig_finish_pending :: bool
  ig_finish_status :: grpc_status
  ig_buffered :: "bytes list"
  ig_write_queue :: "bytes list"
  ig_method :: string
  ig_request_id :: string
  ig_metadata :: metadata
  ig_remote :: bool
  ig_dest_leaf :: string
  ig_dest_node :: string
  ig_backend :: "nat option"
  ig_last_activity :: timepoint
  ig_open_sent_at :: timepoint
  ig_backend_confirmed :: bool
  ig_dead :: bool
  ig_dead_since :: timepoint

definition new_ingress :: "timepoint \<Rightarrow> ingress_stream" where
  "new_ingress now = \<lparr>ig_phase = 0, ig_read_outstanding = False, ig_read_stopped = False, ig_write_outstanding = False,
     ig_finishing = False, ig_finish_pending = False, ig_finish_status = status_ok, ig_buffered = [], ig_write_queue = [], ig_method = [],
     ig_request_id = [], ig_metadata = [], ig_remote = False, ig_dest_leaf = [], ig_dest_node = [], ig_backend = None,
     ig_last_activity = now, ig_open_sent_at = 0, ig_backend_confirmed = False, ig_dead = False, ig_dead_since = 0\<rparr>"

text \<open>Where a backend's call delivers what it receives: the callbacks its creator installs.\<close>

datatype backend_target = ToIngress string | ToMesh string string

record backend_stream =
  bk_write_queue :: "bytes list"
  bk_started :: bool
  bk_write_outstanding :: bool
  bk_half_close_requested :: bool
  bk_writes_done_sent :: bool
  bk_finished :: bool
  bk_overflow_logged :: bool
  bk_request_id :: string
  bk_target :: backend_target

definition new_backend :: "string \<Rightarrow> backend_target \<Rightarrow> backend_stream" where
  "new_backend rid tgt = \<lparr>bk_write_queue = [], bk_started = False, bk_write_outstanding = False, bk_half_close_requested = False,
     bk_writes_done_sent = False, bk_finished = False, bk_overflow_logged = False, bk_request_id = rid, bk_target = tgt\<rparr>"

record proxy =
  g_leaf :: leaf_state
  g_pending_calls :: "(nat \<times> ingress_stream) list"
  g_next_call :: nat
  g_streams :: "(string, ingress_stream) omap"
  g_backends :: "(nat, backend_stream) omap"
  g_next_backend :: nat
  g_registry :: "(string, nat) omap"
  g_unknown_stream_replies :: "(string, timepoint) omap"

definition new_proxy :: "leaf_state \<Rightarrow> proxy" where
  "new_proxy l = \<lparr>g_leaf = l, g_pending_calls = [], g_next_call = 0, g_streams = [], g_backends = [], g_next_backend = 0,
     g_registry = [], g_unknown_stream_replies = []\<rparr>"

datatype proxy_effect = GLeaf leaf_effect | GRequestCall nat
  | GRead string | GWrite string bytes | GFinish string grpc_status | GAlarmSet string int | GAlarmCancel string
  | GStartCall nat endpoint string metadata | GBackendRead nat | GBackendWrite nat bytes | GWritesDone nat | GBackendFinish nat
  | GCancel nat | GCancelCall string | GSelfDeadlock string

record genv =
  ge_now :: timepoint
  ge_ms :: u64
  ge_wsize :: wsize
  ge_tsend :: tsend
  ge_hash :: "string \<Rightarrow> nat"
  ge_create :: bool
  ge_rs :: "u8 list"
  ge_rs' :: "u8 list"

type_synonym proxy_op = "proxy \<Rightarrow> proxy \<times> proxy_effect list"

text \<open>One operation after the other.\<close>

definition then_op :: "proxy_op \<Rightarrow> proxy_op \<Rightarrow> proxy_op" where
  "then_op f h g = (case f g of (g, eff) \<Rightarrow> case h g of (g, eff') \<Rightarrow> (g, eff @ eff'))"

definition skip_op :: proxy_op where "skip_op g = (g, [])"

definition emit :: "proxy_effect list \<Rightarrow> proxy_op" where "emit eff g = (g, eff)"

primrec each_op :: "('a \<Rightarrow> proxy_op) \<Rightarrow> 'a list \<Rightarrow> proxy_op" where
  "each_op f [] = skip_op"
| "each_op f (x # xs) = then_op (f x) (each_op f xs)"

definition put_stream :: "string \<Rightarrow> ingress_stream \<Rightarrow> proxy \<Rightarrow> proxy" where
  "put_stream rid s g = g\<lparr>g_streams := om_set rid s (g_streams g)\<rparr>"

definition find_stream :: "string \<Rightarrow> proxy \<Rightarrow> ingress_stream option" where
  "find_stream rid g = map_of (g_streams g) rid"

definition put_backend :: "nat \<Rightarrow> backend_stream \<Rightarrow> proxy \<Rightarrow> proxy" where
  "put_backend b bs g = g\<lparr>g_backends := om_set b bs (g_backends g)\<rparr>"

text \<open>A message to the mesh; its size is metered by the caller where the code does.\<close>

definition mesh_op :: "genv \<Rightarrow> string \<Rightarrow> string \<Rightarrow> wire_message \<Rightarrow> proxy_op" where
  "mesh_op env dest_node dest_leaf m g = (g, map GLeaf (snd (send_to_mesh (ge_tsend env) dest_node dest_leaf m 1 (g_leaf g))))"

definition close_op :: "genv \<Rightarrow> string \<Rightarrow> string \<Rightarrow> string \<Rightarrow> bool \<Rightarrow> int \<Rightarrow> string \<Rightarrow> proxy_op" where
  "close_op env rid dest_leaf dest_node from_origin st err g =
     (g, map GLeaf (send_stream_close_to (ge_tsend env) rid dest_leaf dest_node from_origin st err (g_leaf g)))"

definition metric_op :: "string \<Rightarrow> string \<Rightarrow> u64 \<Rightarrow> u64 \<Rightarrow> bool \<Rightarrow> metadata \<Rightarrow> proxy_op" where
  "metric_op direction name n latency ok md g = (g, [GLeaf (leaf_metric direction name n latency ok md)])"

section \<open>Metadata and method names\<close>

definition is_bin_key :: "string \<Rightarrow> bool" where
  "is_bin_key key \<longleftrightarrow> 4 \<le> length key \<and> drop (length key - 4) key = ''-bin''"

definition forwardable_metadata_key :: "string \<Rightarrow> bool" where
  "forwardable_metadata_key key \<longleftrightarrow> key \<noteq> [] \<and> hd key \<noteq> CHR '':'' \<and> take 5 key \<noteq> ''grpc-'' \<and> \<not> is_bin_key key
     \<and> key \<notin> {''user-agent'', ''content-type'', ''te'', ''authority'', ''host''}"

definition service_from_method :: "string \<Rightarrow> string" where
  "service_from_method m =
     (if m = [] \<or> hd m \<noteq> CHR ''/'' then []
      else case split_last CHR ''/'' m of None \<Rightarrow> [] | Some (before, _) \<Rightarrow> if before = [] then [] else tl before)"

text \<open>The metadata of a new call: the client's forwardable headers, the session key, the trace context.\<close>

definition filtered_metadata :: "(string \<times> string) list \<Rightarrow> metadata" where
  "filtered_metadata headers = fold (\<lambda>(k, v) md. if forwardable_metadata_key k then om_set k v md else md) headers []"

definition session_metadata :: "metadata \<Rightarrow> metadata" where
  "session_metadata md =
     (let sid = (case map_of md ''x-session-id'' of Some v \<Rightarrow> v | None \<Rightarrow> []);
          sid = (if sid = [] then (case map_of md ''sid'' of Some v \<Rightarrow> v | None \<Rightarrow> []) else sid)
      in if sid = [] then md
         else let md = om_set ''x-sid'' sid (om_set ''sid'' sid md)
              in if map_of md ''sticky'' = None then om_set ''sticky'' ''true'' md else md)"

definition traced_metadata :: "u8 list \<Rightarrow> u8 list \<Rightarrow> metadata \<Rightarrow> metadata" where
  "traced_metadata rs rs' md =
     (let child = create_child rs' (extract_or_create rs (header_of ''traceparent'' md) (header_of ''tracestate'' md));
          md = om_set ''traceparent'' (traceparent_swapped child) md
      in if trace_state child \<noteq> [] then om_set ''tracestate'' (trace_state child) md else md)"

section \<open>Calls to a backend\<close>

text \<open>\<open>drive_writes_locked\<close>: at most one write is outstanding, the half-close follows the last message.\<close>

definition drive_writes :: "nat \<Rightarrow> backend_stream \<Rightarrow> backend_stream \<times> proxy_effect list" where
  "drive_writes b bs =
     (if \<not> bk_started bs \<or> bk_write_outstanding bs \<or> bk_finished bs then (bs, [])
      else case bk_write_queue bs of
             x # xs \<Rightarrow> (bs\<lparr>bk_write_queue := xs, bk_write_outstanding := True\<rparr>, [GBackendWrite b x])
           | [] \<Rightarrow> if bk_half_close_requested bs \<and> \<not> bk_writes_done_sent bs
                   then (bs\<lparr>bk_writes_done_sent := True\<rparr>, [GWritesDone b]) else (bs, []))"

definition client_message :: "nat \<Rightarrow> bytes \<Rightarrow> backend_stream \<Rightarrow> backend_stream \<times> proxy_effect list" where
  "client_message b x bs =
     (if bk_finished bs then (bs, [])
      else if kMaxBackendWriteQueue \<le> length (bk_write_queue bs) then (bs\<lparr>bk_overflow_logged := True\<rparr>, [GCancel b])
      else drive_writes b (bs\<lparr>bk_write_queue := bk_write_queue bs @ [x]\<rparr>))"

definition client_half_close :: "nat \<Rightarrow> backend_stream \<Rightarrow> backend_stream \<times> proxy_effect list" where
  "client_half_close b bs = (if bk_finished bs then (bs, []) else drive_writes b (bs\<lparr>bk_half_close_requested := True\<rparr>))"

text \<open>An operation on a backend's call, if it exists.\<close>

definition on_backend :: "nat \<Rightarrow> (backend_stream \<Rightarrow> backend_stream \<times> proxy_effect list) \<Rightarrow> proxy_op" where
  "on_backend b f g = (case map_of (g_backends g) b of None \<Rightarrow> (g, []) | Some bs \<Rightarrow> (case f bs of (bs, eff) \<Rightarrow> (put_backend b bs g, eff)))"

text \<open>\<open>BackendStream::start\<close>, registration and \<open>begin\<close>: the metadata is filtered once more.\<close>

definition create_backend :: "string \<Rightarrow> backend_target \<Rightarrow> proxy \<Rightarrow> nat \<times> proxy" where
  "create_backend rid tgt g =
     (let b = g_next_backend g
      in (b, g\<lparr>g_backends := om_set b (new_backend rid tgt) (g_backends g), g_next_backend := b + 1, g_registry := om_set rid b (g_registry g)\<rparr>))"

definition backend_metadata :: "metadata \<Rightarrow> metadata" where
  "backend_metadata md = filter (\<lambda>kv. forwardable_metadata_key (fst kv)) md"

section \<open>Ending a client's call\<close>

definition try_finish :: "string \<Rightarrow> ingress_stream \<Rightarrow> ingress_stream \<times> proxy_effect list" where
  "try_finish rid s =
     (if ig_dead s \<or> ig_finishing s then (s, [])
      else if ig_write_outstanding s \<or> ig_write_queue s \<noteq> [] then (s\<lparr>ig_finish_pending := True\<rparr>, [])
      else if ig_read_outstanding s then (s\<lparr>ig_finish_pending := True, ig_read_stopped := True\<rparr>, [])
      else (s\<lparr>ig_finishing := True\<rparr>, [GAlarmCancel rid, GFinish rid (ig_finish_status s)]))"

text \<open>An operation on a client's call, if it is in the table.\<close>

definition on_stream :: "string \<Rightarrow> (ingress_stream \<Rightarrow> ingress_stream \<times> proxy_effect list) \<Rightarrow> proxy_op" where
  "on_stream rid f g = (case find_stream rid g of None \<Rightarrow> (g, []) | Some s \<Rightarrow> (case f s of (s, eff) \<Rightarrow> (put_stream rid s g, eff)))"

definition ingress_try_finish :: "string \<Rightarrow> proxy_op" where
  "ingress_try_finish rid = on_stream rid (try_finish rid)"

definition ingress_teardown :: "genv \<Rightarrow> string \<Rightarrow> grpc_status \<Rightarrow> proxy_op" where
  "ingress_teardown env rid st g =
     (let cancel = (case map_of (g_registry g) rid of None \<Rightarrow> [] | Some b \<Rightarrow> [GCancel b])
      in case find_stream rid g of
           None \<Rightarrow> (g, cancel)
         | Some s \<Rightarrow>
             if ig_dead s \<or> ig_finishing s then (g, cancel)
             else then_op (emit cancel)
                    (then_op (\<lambda>g. (put_stream rid (s\<lparr>ig_finish_status := st, ig_read_stopped := True, ig_backend := None\<rparr>) g, []))
                       (then_op (if ig_remote s \<and> ig_dest_leaf s \<noteq> []
                                 then close_op env rid (ig_dest_leaf s) (ig_dest_node s) True (gs_code st) (gs_message st) else skip_op)
                          (ingress_try_finish rid))) g)"

section \<open>From the backend to the client\<close>

text \<open>The first part of \<open>ingress_queue_write\<close>; the flag says that the client has stopped reading.\<close>

definition queue_write :: "timepoint \<Rightarrow> string \<Rightarrow> bytes \<Rightarrow> ingress_stream \<Rightarrow> ingress_stream \<times> proxy_effect list \<times> bool" where
  "queue_write now rid x s =
     (if ig_dead s \<or> ig_finishing s then (s, [], False)
      else
        let s = s\<lparr>ig_last_activity := now\<rparr>
        in if ig_write_outstanding s
           then if kMaxIngressWriteQueue \<le> length (ig_write_queue s)
                then (s\<lparr>ig_finish_status := \<lparr>gs_code = 8, gs_message = ''client_read_stall''\<rparr>, ig_read_stopped := True\<rparr>, [], True)
                else (s\<lparr>ig_write_queue := ig_write_queue s @ [x]\<rparr>, [], False)
           else (s\<lparr>ig_write_outstanding := True\<rparr>, [GWrite rid x], False))"

definition ingress_queue_write :: "genv \<Rightarrow> string \<Rightarrow> bytes \<Rightarrow> proxy_op" where
  "ingress_queue_write env rid x g =
     (case find_stream rid g of
        None \<Rightarrow> (g, [])
      | Some s \<Rightarrow> (case queue_write (ge_now env) rid x s of
          (s, eff, stalled) \<Rightarrow>
            if stalled then then_op (emit eff) (ingress_teardown env rid \<lparr>gs_code = 8, gs_message = ''client_read_stall''\<rparr>) (put_stream rid s g)
            else (put_stream rid s g, eff)))"

definition ingress_backend_message :: "genv \<Rightarrow> string \<Rightarrow> bytes \<Rightarrow> proxy_op" where
  "ingress_backend_message env rid x =
     then_op (on_stream rid (\<lambda>s. (s\<lparr>ig_backend_confirmed := True\<rparr>, []))) (ingress_queue_write env rid x)"

definition backend_closed :: "timepoint \<Rightarrow> grpc_status \<Rightarrow> ingress_stream \<Rightarrow> ingress_stream" where
  "backend_closed now st s = s\<lparr>ig_last_activity := now, ig_backend_confirmed := True, ig_finish_status := st, ig_read_stopped := True, ig_backend := None\<rparr>"

definition ingress_backend_closed :: "genv \<Rightarrow> string \<Rightarrow> grpc_status \<Rightarrow> proxy_op" where
  "ingress_backend_closed env rid st g =
     (case find_stream rid g of
        None \<Rightarrow> (g, [])
      | Some s \<Rightarrow> if ig_dead s \<or> ig_finishing s then (g, [])
                  else ingress_try_finish rid (put_stream rid (backend_closed (ge_now env) st s) g))"

section \<open>From the client to the backend\<close>

definition stream_frame_for :: "string \<Rightarrow> bytes \<Rightarrow> bool \<Rightarrow> bool \<Rightarrow> string \<Rightarrow> string \<Rightarrow> leaf_state \<Rightarrow> stream_frame" where
  "stream_frame_for rid x half from_origin dest_leaf dest_node l = \<lparr>sf_request_id = rid, sf_payload = x, sf_half_close = half,
     sf_from_origin = from_origin, sf_origin_leaf = l_id l, sf_origin_node = current_node_id l, sf_destination_leaf = dest_leaf,
     sf_destination_node = dest_node, sf_hop_limit = kDefaultBackendHopLimit\<rparr>"

definition ingress_forward_frame :: "genv \<Rightarrow> string \<Rightarrow> bytes \<Rightarrow> bool \<Rightarrow> proxy_op" where
  "ingress_forward_frame env rid x half g =
     (case find_stream rid g of
        None \<Rightarrow> (g, [])
      | Some s \<Rightarrow>
          if ig_dead s \<or> ig_finishing s then (g, [])
          else
            let g = put_stream rid (s\<lparr>ig_last_activity := ge_now env\<rparr>) g
            in if ig_remote s
               then mesh_op env (ig_dest_node s) (ig_dest_leaf s)
                      (WStreamFrame (stream_frame_for rid x half True (ig_dest_leaf s) (ig_dest_node s) (g_leaf g))) g
               else case map_of (g_registry g) rid of
                      None \<Rightarrow> (g, [])
                    | Some b \<Rightarrow> on_backend b (if half then client_half_close b else client_message b x) g)"

text \<open>The endpoint of a new stream: the balancer's pick, unless the breaker refuses it.\<close>

definition pick_for_stream :: "genv \<Rightarrow> ingress_stream \<Rightarrow> proxy \<Rightarrow> (grpc_status + endpoint) \<times> proxy" where
  "pick_for_stream env s g =
     (let l = g_leaf g; eps = service_endpoints (service_from_method (ig_method s)) (l_directory l);
          (q, b) = (if eps = [] then (None, l_balancer l)
                    else pick (ge_hash env) (service_from_method (ig_method s)) (ig_metadata s) eps (ge_now env) (l_balancer l));
          l = l\<lparr>l_balancer := b\<rparr>
      in case q of
           None \<Rightarrow> (Inl (unavailable ''no_endpoint''), g\<lparr>g_leaf := l\<rparr>)
         | Some ep \<Rightarrow> (case allow (endpoint_id ep) (ge_now env) (l_breaker l) of
             (ok, br) \<Rightarrow> (if ok then Inr ep else Inl (unavailable ''circuit_open''), g\<lparr>g_leaf := l\<lparr>l_breaker := br\<rparr>\<rparr>)))"

definition stream_open_for :: "genv \<Rightarrow> string \<Rightarrow> ingress_stream \<Rightarrow> endpoint \<Rightarrow> leaf_state \<Rightarrow> stream_open" where
  "stream_open_for env rid s ep l = \<lparr>so_request_id = rid, so_origin_leaf = l_id l, so_origin_node = current_node_id l,
     so_destination_leaf = owner_leaf ep, so_destination_node = owner_node ep, so_endpoint_id = endpoint_id ep, so_rpc_name = ig_method s,
     so_metadata = ig_metadata s, so_deadline_ms = ge_ms env + 120000, so_hop_limit = kDefaultBackendHopLimit\<rparr>"

definition open_local :: "genv \<Rightarrow> string \<Rightarrow> ingress_stream \<Rightarrow> endpoint \<Rightarrow> proxy_op" where
  "open_local env rid s ep g =
     (case create_backend rid (ToIngress rid) g of
        (b, g) \<Rightarrow> (put_stream rid (s\<lparr>ig_remote := False, ig_backend := Some b, ig_open_sent_at := ge_now env\<rparr>) g,
                   [GStartCall b ep (ig_method s) (backend_metadata (ig_metadata s))]))"

definition open_remote :: "genv \<Rightarrow> string \<Rightarrow> ingress_stream \<Rightarrow> endpoint \<Rightarrow> proxy_op" where
  "open_remote env rid s ep g =
     (let g = put_stream rid (s\<lparr>ig_remote := True, ig_dest_leaf := owner_leaf ep, ig_dest_node := owner_node ep, ig_open_sent_at := ge_now env\<rparr>) g;
          m = WStreamOpen (stream_open_for env rid s ep (g_leaf g))
      in then_op (mesh_op env (owner_node ep) (owner_leaf ep) m)
           (metric_op ''leaf_to_node'' ''RoutedStreamOpen'' (ge_wsize env m) 0 True (ig_metadata s)) g)"

text \<open>The messages that came before the mode was decided.\<close>

definition flush_buffered :: "genv \<Rightarrow> string \<Rightarrow> proxy_op" where
  "flush_buffered env rid g =
     (case find_stream rid g of
        None \<Rightarrow> (g, [])
      | Some s \<Rightarrow> each_op (\<lambda>x. ingress_forward_frame env rid x False) (ig_buffered s) (put_stream rid (s\<lparr>ig_buffered := []\<rparr>) g))"

definition generic_begin_stream :: "genv \<Rightarrow> string \<Rightarrow> proxy_op" where
  "generic_begin_stream env rid g =
     (case find_stream rid g of
        None \<Rightarrow> (g, [])
      | Some s \<Rightarrow> (case pick_for_stream env s g of
          (Inl err, g) \<Rightarrow>
            then_op (metric_op ''client_to_leaf'' (ig_method s) 0 0 False (ig_metadata s))
              (if ig_dead s \<or> ig_finishing s then skip_op
               else then_op (\<lambda>g. (put_stream rid (s\<lparr>ig_finish_status := err\<rparr>) g, [])) (ingress_try_finish rid)) g
        | (Inr ep, g) \<Rightarrow>
            if owner_leaf ep = l_id (g_leaf g) \<and> \<not> ge_create env
            then (if ig_dead s \<or> ig_finishing s then g
                  else put_stream rid (s\<lparr>ig_finish_status := \<lparr>gs_code = 13, gs_message = ''backend_call_create_failed''\<rparr>\<rparr>) g, [GSelfDeadlock rid])
            else then_op (if owner_leaf ep = l_id (g_leaf g) then open_local env rid s ep else open_remote env rid s ep)
                   (then_op (metric_op ''client_to_leaf'' (ig_method s) 0 0 True (ig_metadata s)) (flush_buffered env rid)) g))"

section \<open>Events of the client's calls\<close>

definition prime_generic_call :: "timepoint \<Rightarrow> proxy_op" where
  "prime_generic_call now g =
     (if \<not> l_running (g_leaf g) then (g, [])
      else (g\<lparr>g_pending_calls := g_pending_calls g @ [(g_next_call g, new_ingress now)], g_next_call := g_next_call g + 1\<rparr>,
            [GRequestCall (g_next_call g)]))"

text \<open>The start of \<open>generic_pump\<close>.\<close>

definition generic_pump_start :: "timepoint \<Rightarrow> proxy_op" where
  "generic_pump_start now = each_op (\<lambda>_. prime_generic_call now) [0..<kGenericCallSlots]"

text \<open>The call is entered in the table under its new id and the first read is started.\<close>

definition generic_on_new_call :: "genv \<Rightarrow> string \<Rightarrow> string \<Rightarrow> (string \<times> string) list \<Rightarrow> ingress_stream \<Rightarrow> proxy_op" where
  "generic_on_new_call env rid method headers s g =
     (put_stream rid (s\<lparr>ig_method := method, ig_request_id := rid,
        ig_metadata := traced_metadata (ge_rs env) (ge_rs' env) (session_metadata (filtered_metadata headers)),
        ig_phase := 1, ig_read_outstanding := True\<rparr>) g, [GRead rid])"

definition on_call_arrived :: "genv \<Rightarrow> nat \<Rightarrow> bool \<Rightarrow> string \<Rightarrow> string \<Rightarrow> (string \<times> string) list \<Rightarrow> proxy_op" where
  "on_call_arrived env c ok rid method headers g =
     (case map_of (g_pending_calls g) c of
        None \<Rightarrow> (g, [])
      | Some s \<Rightarrow>
          let g = g\<lparr>g_pending_calls := filter (\<lambda>p. fst p \<noteq> c) (g_pending_calls g)\<rparr>
          in if ok \<and> l_running (g_leaf g) then then_op (prime_generic_call (ge_now env)) (generic_on_new_call env rid method headers s) g
             else (g, []))"

text \<open>The read that has completed with a message, or has failed: the client has half-closed or is gone.\<close>

definition generic_on_read :: "genv \<Rightarrow> string \<Rightarrow> bytes option \<Rightarrow> proxy_op" where
  "generic_on_read env rid res g =
     (case find_stream rid g of
        None \<Rightarrow> (g, [])
      | Some s \<Rightarrow>
          if ig_dead s then (g, [])
          else
            let s = s\<lparr>ig_last_activity := ge_now env, ig_read_outstanding := False\<rparr>;
                half_close = then_op (generic_begin_stream env rid) (ingress_forward_frame env rid [] True)
            in if ig_finish_pending s \<or> ig_finishing s then ingress_try_finish rid (put_stream rid s g)
               else if ig_phase s = 1
               then (case res of
                       Some x \<Rightarrow> (put_stream rid (s\<lparr>ig_buffered := ig_buffered s @ [x], ig_phase := 2, ig_read_outstanding := True\<rparr>) g,
                                  [GRead rid, GAlarmSet rid kClassifyWindowMs])
                     | None \<Rightarrow> half_close (put_stream rid (s\<lparr>ig_phase := 3\<rparr>) g))
               else if ig_phase s = 2
               then then_op (emit [GAlarmCancel rid])
                      (case res of
                         Some x \<Rightarrow> then_op (\<lambda>g. (put_stream rid (s\<lparr>ig_buffered := ig_buffered s @ [x], ig_phase := 3, ig_read_outstanding := True\<rparr>) g, [GRead rid]))
                                     (generic_begin_stream env rid)
                       | None \<Rightarrow> then_op (\<lambda>g. (put_stream rid (s\<lparr>ig_phase := 3\<rparr>) g, [])) half_close) g
               else if ig_phase s = 3
               then if ig_read_stopped s then (put_stream rid s g, [])
                    else (case res of
                            Some x \<Rightarrow> then_op (\<lambda>g. (put_stream rid (s\<lparr>ig_read_outstanding := True\<rparr>) g, [GRead rid])) (ingress_forward_frame env rid x False) g
                          | None \<Rightarrow> ingress_forward_frame env rid [] True (put_stream rid (s\<lparr>ig_read_stopped := True\<rparr>) g))
               else (put_stream rid s g, []))"

definition generic_on_write :: "genv \<Rightarrow> string \<Rightarrow> bool \<Rightarrow> proxy_op" where
  "generic_on_write env rid ok g =
     (case find_stream rid g of
        None \<Rightarrow> (g, [])
      | Some s \<Rightarrow>
          if ig_dead s then (g, [])
          else
            let s = s\<lparr>ig_last_activity := ge_now env, ig_write_outstanding := False\<rparr>
            in if \<not> ok then ingress_teardown env rid \<lparr>gs_code = 1, gs_message = ''write_failed''\<rparr> (put_stream rid s g)
               else if ig_write_queue s \<noteq> [] \<and> \<not> ig_finishing s \<and> \<not> ig_finish_pending s
               then (put_stream rid (s\<lparr>ig_write_queue := tl (ig_write_queue s), ig_write_outstanding := True\<rparr>) g, [GWrite rid (hd (ig_write_queue s))])
               else if ig_finish_pending s then ingress_try_finish rid (put_stream rid s g)
               else (put_stream rid s g, []))"

definition generic_on_finish :: "genv \<Rightarrow> string \<Rightarrow> proxy_op" where
  "generic_on_finish env rid = on_stream rid (\<lambda>s. (s\<lparr>ig_dead := True, ig_dead_since := ge_now env\<rparr>, []))"

definition generic_on_alarm :: "genv \<Rightarrow> string \<Rightarrow> bool \<Rightarrow> proxy_op" where
  "generic_on_alarm env rid ok g =
     (case find_stream rid g of
        None \<Rightarrow> (g, [])
      | Some s \<Rightarrow> if ig_dead s \<or> \<not> ok \<or> ig_phase s \<noteq> 2 then (g, [])
                  else generic_begin_stream env rid (put_stream rid (s\<lparr>ig_phase := 3\<rparr>) g))"

section \<open>Events of the backends' calls\<close>

text \<open>The callbacks.\<close>

definition backend_message :: "genv \<Rightarrow> backend_stream \<Rightarrow> bytes \<Rightarrow> proxy_op" where
  "backend_message env bs x g =
     (case bk_target bs of
        ToIngress rid \<Rightarrow> ingress_backend_message env rid x g
      | ToMesh dest_leaf dest_node \<Rightarrow>
          mesh_op env dest_node dest_leaf (WStreamFrame (stream_frame_for (bk_request_id bs) x False False dest_leaf dest_node (g_leaf g))) g)"

definition backend_close :: "genv \<Rightarrow> backend_stream \<Rightarrow> grpc_status \<Rightarrow> proxy_op" where
  "backend_close env bs st =
     (case bk_target bs of
        ToIngress rid \<Rightarrow> ingress_backend_closed env rid st
      | ToMesh dest_leaf dest_node \<Rightarrow> close_op env (bk_request_id bs) dest_leaf dest_node False (gs_code st) (gs_message st))"

definition backend_on_start :: "nat \<Rightarrow> bool \<Rightarrow> proxy_op" where
  "backend_on_start b ok =
     (if ok then then_op (on_backend b (\<lambda>bs. drive_writes b (bs\<lparr>bk_started := True\<rparr>))) (emit [GBackendRead b]) else emit [GBackendFinish b])"

definition backend_on_read :: "genv \<Rightarrow> nat \<Rightarrow> bytes option \<Rightarrow> proxy_op" where
  "backend_on_read env b res g =
     (case map_of (g_backends g) b of
        None \<Rightarrow> (g, [])
      | Some bs \<Rightarrow> (case res of
          Some x \<Rightarrow> then_op (backend_message env bs x) (emit [GBackendRead b]) g
        | None \<Rightarrow> (g, [GBackendFinish b])))"

definition backend_on_write :: "nat \<Rightarrow> proxy_op" where
  "backend_on_write b = on_backend b (\<lambda>bs. drive_writes b (bs\<lparr>bk_write_outstanding := False\<rparr>))"

text \<open>The end of \<open>BackendStream::run\<close>: the call leaves the registry, its callback is told, the object is gone.\<close>

definition backend_stream_finished :: "genv \<Rightarrow> nat \<Rightarrow> backend_stream \<Rightarrow> grpc_status \<Rightarrow> proxy_op" where
  "backend_stream_finished env b bs st g =
     backend_close env bs st (if map_of (g_registry g) (bk_request_id bs) = Some b then g\<lparr>g_registry := om_erase (bk_request_id bs) (g_registry g)\<rparr> else g)"

definition backend_on_finish :: "genv \<Rightarrow> nat \<Rightarrow> grpc_status \<Rightarrow> proxy_op" where
  "backend_on_finish env b st g =
     (case map_of (g_backends g) b of
        None \<Rightarrow> (g, [])
      | Some bs \<Rightarrow> then_op (backend_stream_finished env b (bs\<lparr>bk_finished := True\<rparr>) st) (\<lambda>g. (g\<lparr>g_backends := om_erase b (g_backends g)\<rparr>, []))
                     (put_backend b (bs\<lparr>bk_finished := True\<rparr>) g))"

section \<open>Stream messages from the mesh\<close>

definition process_stream_open :: "genv \<Rightarrow> stream_open \<Rightarrow> proxy_op" where
  "process_stream_open env opn g =
     (let refuse = close_op env (so_request_id opn) (so_origin_leaf opn) (so_origin_node opn) False (-1)
      in if so_destination_leaf opn \<noteq> l_id (g_leaf g) then refuse ''wrong_destination_leaf'' g
         else case find_endpoint (so_endpoint_id opn) (l_directory (g_leaf g)) of
                None \<Rightarrow> refuse ''endpoint_not_found'' g
              | Some ep \<Rightarrow>
                  if \<not> ep_alive ep then refuse ''endpoint_not_found'' g
                  else if \<not> ge_create env then refuse ''backend_call_create_failed'' g
                  else (case create_backend (so_request_id opn) (ToMesh (so_origin_leaf opn) (so_origin_node opn)) g of
                          (b, g) \<Rightarrow> then_op (emit [GStartCall b ep (so_rpc_name opn) (backend_metadata (so_metadata opn))])
                                      (metric_op ''leaf_to_backend'' (so_rpc_name opn) 0 0 True (so_metadata opn)) g))"

text \<open>A frame for a stream that is not known is answered with a close, at most once in five seconds per stream.\<close>

definition reply_unknown :: "genv \<Rightarrow> stream_frame \<Rightarrow> proxy_op" where
  "reply_unknown env fr g =
     (if (case map_of (g_unknown_stream_replies g) (sf_request_id fr) of None \<Rightarrow> True | Some t \<Rightarrow> sec 5 < ge_now env - t)
      then close_op env (sf_request_id fr) (sf_origin_leaf fr) (sf_origin_node fr) False (-1) ''unknown_stream''
             (g\<lparr>g_unknown_stream_replies := om_set (sf_request_id fr) (ge_now env) (g_unknown_stream_replies g)\<rparr>)
      else (g, []))"

definition process_stream_frame :: "genv \<Rightarrow> stream_frame \<Rightarrow> proxy_op" where
  "process_stream_frame env fr g =
     (if sf_from_origin fr
      then (case map_of (g_registry g) (sf_request_id fr) of
              None \<Rightarrow> reply_unknown env fr g
            | Some b \<Rightarrow> if sf_half_close fr then on_backend b (client_half_close b) g
                        else if sf_payload fr \<noteq> [] then on_backend b (client_message b (sf_payload fr)) g
                        else (g, []))
      else if find_stream (sf_request_id fr) g = None
      then close_op env (sf_request_id fr) (sf_origin_leaf fr) (sf_origin_node fr) True 1 ''unknown_stream'' g
      else if sf_payload fr = [] then (g, [])
      else ingress_backend_message env (sf_request_id fr) (sf_payload fr) g)"

definition close_code :: "int \<Rightarrow> int" where
  "close_code st = (if 0 < st then st else if st = 0 then 0 else 14)"

definition process_stream_close :: "genv \<Rightarrow> stream_close \<Rightarrow> proxy_op" where
  "process_stream_close env cl g =
     (if sc_from_origin cl
      then (case map_of (g_registry g) (sc_request_id cl) of None \<Rightarrow> (g, []) | Some b \<Rightarrow> (g, [GCancel b]))
      else ingress_backend_closed env (sc_request_id cl) \<lparr>gs_code = close_code (sc_status cl), gs_message = sc_error cl\<rparr> g)"

text \<open>One round of the stream worker.\<close>

definition stream_worker_round :: "genv \<Rightarrow> proxy_op" where
  "stream_worker_round env g =
     (case fifo_poll (l_stream_queue (g_leaf g)) of
        (None, _) \<Rightarrow> (g, [])
      | (Some m, q) \<Rightarrow>
          let g = g\<lparr>g_leaf := (g_leaf g)\<lparr>l_stream_queue := q\<rparr>\<rparr>
          in case m of
               WStreamOpen opn \<Rightarrow> process_stream_open env opn g
             | WStreamFrame fr \<Rightarrow> process_stream_frame env fr g
             | WStreamClose cl \<Rightarrow> process_stream_close env cl g
             | _ \<Rightarrow> (g, []))"

section \<open>Unary calls for this leaf, sweeping and shutdown\<close>

text \<open>The answer of the backend to the bytes of a unary call is an argument.\<close>

definition process_inbound_generic :: "genv \<Rightarrow> (endpoint \<Rightarrow> string \<Rightarrow> metadata \<Rightarrow> bytes \<Rightarrow> grpc_status \<times> bytes) \<Rightarrow> u64 \<Rightarrow> routed_request \<Rightarrow> leaf_state \<Rightarrow> leaf_effect list" where
  "process_inbound_generic env unary latency req l =
     (case find_endpoint (rq_endpoint_id req) (l_directory l) of
        None \<Rightarrow> send_response_to_parent (ge_wsize env) l (make_error_response l req ''endpoint_not_found'')
      | Some ep \<Rightarrow>
          if \<not> ep_alive ep then send_response_to_parent (ge_wsize env) l (make_error_response l req ''endpoint_not_found'')
          else
            let md = traced_metadata (ge_rs env) (ge_rs' env) (rq_metadata req);
                (st, body) = (if ge_create env then unary ep (rq_rpc_name req) (backend_metadata md) (rq_body req)
                              else (\<lparr>gs_code = 13, gs_message = ''generic_call_create_failed''\<rparr>, []));
                resp = \<lparr>rs_request_id = rq_request_id req, rs_origin_leaf = l_id l, rs_origin_node = current_node_id l,
                  rs_destination_leaf = rq_origin_leaf req, rs_destination_node = rq_origin_node req, rs_body = [], rs_status = 0, rs_error = [],
                  rs_hop_limit = hop_after (rq_hop_limit req)\<rparr>
            in leaf_metric ''leaf_to_backend'' (rq_rpc_name req) (of_nat (length (rq_body req))) latency (gs_code st = 0) md
               # send_response_to_parent (ge_wsize env) l
                   (if gs_code st = 0 then resp\<lparr>rs_body := body\<rparr> else resp\<lparr>rs_status := gs_code st, rs_error := gs_message st\<rparr>))"

text \<open>The sweeper skips the streams whose lock is held, which the argument \<open>busy\<close> says.\<close>

definition swept_dead :: "timepoint \<Rightarrow> (string \<Rightarrow> bool) \<Rightarrow> string \<times> ingress_stream \<Rightarrow> bool" where
  "swept_dead now busy rs \<longleftrightarrow> \<not> busy (fst rs) \<and> ig_dead (snd rs) \<and> sec 2 < now - ig_dead_since (snd rs)"

definition swept_idle :: "timepoint \<Rightarrow> (string \<Rightarrow> bool) \<Rightarrow> string \<times> ingress_stream \<Rightarrow> bool" where
  "swept_idle now busy rs \<longleftrightarrow> \<not> busy (fst rs) \<and> \<not> ig_dead (snd rs) \<and> \<not> ig_finishing (snd rs)
     \<and> kStreamIdleTimeout < now - ig_last_activity (snd rs)"

definition swept_unopened :: "timepoint \<Rightarrow> (string \<Rightarrow> bool) \<Rightarrow> string \<times> ingress_stream \<Rightarrow> bool" where
  "swept_unopened now busy rs \<longleftrightarrow> \<not> busy (fst rs) \<and> \<not> ig_dead (snd rs) \<and> \<not> ig_finishing (snd rs)
     \<and> \<not> kStreamIdleTimeout < now - ig_last_activity (snd rs) \<and> \<not> ig_backend_confirmed (snd rs)
     \<and> ig_open_sent_at (snd rs) \<noteq> 0 \<and> kStreamOpenTimeout < now - ig_open_sent_at (snd rs)"

definition stream_sweep :: "genv \<Rightarrow> (string \<Rightarrow> bool) \<Rightarrow> proxy_op" where
  "stream_sweep env busy g =
     (let now = ge_now env;
          victims = filter (swept_idle now busy) (g_streams g);
          unopened = filter (swept_unopened now busy) (g_streams g);
          g = g\<lparr>g_streams := filter (\<lambda>rs. \<not> swept_dead now busy rs) (g_streams g),
                g_unknown_stream_replies := filter (\<lambda>rt. \<not> sec 60 < now - snd rt) (g_unknown_stream_replies g)\<rparr>
      in then_op (each_op (\<lambda>rs. ingress_teardown env (fst rs) \<lparr>gs_code = 1, gs_message = ''stream_cancelled_or_idle''\<rparr>) victims)
           (each_op (\<lambda>rs. ingress_teardown env (fst rs) \<lparr>gs_code = 14, gs_message = ''stream_open_timeout''\<rparr>) unopened) g)"

text \<open>What \<open>stop\<close> does to the streams: it cancels them, waits, and forgets them.\<close>

definition proxy_stop :: proxy_op where
  "proxy_stop g =
     (if \<not> l_running (g_leaf g) then (g, [])
      else (g\<lparr>g_leaf := leaf_stop (g_leaf g), g_streams := [], g_pending_calls := []\<rparr>,
            map (\<lambda>rs. GCancelCall (fst rs)) (filter (\<lambda>rs. \<not> ig_dead (snd rs) \<and> \<not> ig_finishing (snd rs)) (g_streams g))
            @ map (\<lambda>rb. GCancel (snd rb)) (g_registry g)))"

section \<open>Runs\<close>

text \<open>What can happen to the proxy: completions of gRPC operations, messages from the mesh, the sweeper.\<close>

datatype proxy_event =
    EvPrime timepoint
  | EvCall genv nat bool string string "(string \<times> string) list"
  | EvRead genv string "bytes option"
  | EvWrite genv string bool
  | EvFinish genv string
  | EvAlarm genv string bool
  | EvBackendStart nat bool
  | EvBackendRead genv nat "bytes option"
  | EvBackendWrite nat
  | EvBackendFinish genv nat grpc_status
  | EvMessage genv
  | EvSweep genv "string \<Rightarrow> bool"

fun handle_event :: "proxy_event \<Rightarrow> proxy_op" where
  "handle_event (EvPrime now) = prime_generic_call now"
| "handle_event (EvCall env c ok rid method headers) = on_call_arrived env c ok rid method headers"
| "handle_event (EvRead env rid res) = generic_on_read env rid res"
| "handle_event (EvWrite env rid ok) = generic_on_write env rid ok"
| "handle_event (EvFinish env rid) = generic_on_finish env rid"
| "handle_event (EvAlarm env rid ok) = generic_on_alarm env rid ok"
| "handle_event (EvBackendStart b ok) = backend_on_start b ok"
| "handle_event (EvBackendRead env b res) = backend_on_read env b res"
| "handle_event (EvBackendWrite b) = backend_on_write b"
| "handle_event (EvBackendFinish env b st) = backend_on_finish env b st"
| "handle_event (EvMessage env) = stream_worker_round env"
| "handle_event (EvSweep env busy) = stream_sweep env busy"

lemma om_set_lookup: "map_of (om_set k v m) = (map_of m)(k \<mapsto> v)"
  by (induction k v m rule: om_set.induct) auto

lemma om_set_twice [simp]: "om_set k v (om_set k w m) = om_set k v m"
  by (induction k w m rule: om_set.induct) auto

lemma find_put_stream: "find_stream r (put_stream r' s g) = (if r = r' then Some s else find_stream r g)"
  by (simp add: find_stream_def put_stream_def om_set_lookup)

lemma put_twice [simp]: "put_stream r y (put_stream r x g) = put_stream r y g"
  by (simp add: put_stream_def)

lemma put_stream_simps [simp]:
  "find_stream r (put_stream r s g) = Some s"
  "g_leaf (put_stream r s g) = g_leaf g" "g_registry (put_stream r s g) = g_registry g" "g_backends (put_stream r s g) = g_backends g"
  "g_pending_calls (put_stream r s g) = g_pending_calls g"
  by (simp_all add: find_put_stream) (simp_all add: put_stream_def)

text \<open>An automaton that watches the effects: \<open>None\<close> says that it has seen one it forbids.\<close>

primrec run_all :: "(proxy_effect \<Rightarrow> 'a \<Rightarrow> 'a option) \<Rightarrow> proxy_effect list \<Rightarrow> 'a \<Rightarrow> 'a option" where
  "run_all run [] a = Some a"
| "run_all run (e # es) a = (case run e a of None \<Rightarrow> None | Some a \<Rightarrow> run_all run es a)"

lemma run_all_append: "run_all run (es @ es') a = (case run_all run es a of None \<Rightarrow> None | Some a \<Rightarrow> run_all run es' a)"
  by (induction es arbitrary: a) (auto split: option.split)

definition client_effect :: "proxy_effect \<Rightarrow> bool" where
  "client_effect e \<longleftrightarrow> (\<exists>r x st. e = GRead r \<or> e = GWrite r x \<or> e = GFinish r st)"

lemma client_effect_simps [simp]:
  "client_effect (GRead r)" "client_effect (GWrite r x)" "client_effect (GFinish r st)"
  "\<not> client_effect (GLeaf le)" "\<not> client_effect (GRequestCall n)" "\<not> client_effect (GAlarmSet r i)" "\<not> client_effect (GAlarmCancel r)"
  "\<not> client_effect (GStartCall n ep m md)" "\<not> client_effect (GBackendRead n)" "\<not> client_effect (GBackendWrite n x)"
  "\<not> client_effect (GWritesDone n)" "\<not> client_effect (GBackendFinish n)" "\<not> client_effect (GCancel n)"
  "\<not> client_effect (GCancelCall r)" "\<not> client_effect (GSelfDeadlock r)"
  by (auto simp: client_effect_def)

text \<open>Two states of a client's call that differ in bookkeeping only; a pending finish stays pending.\<close>

definition same_flow :: "ingress_stream \<Rightarrow> ingress_stream \<Rightarrow> bool" where
  "same_flow s s' \<longleftrightarrow> ig_read_outstanding s' = ig_read_outstanding s \<and> ig_write_outstanding s' = ig_write_outstanding s
     \<and> ig_finishing s' = ig_finishing s \<and> ig_dead s' = ig_dead s \<and> ig_write_queue s' = ig_write_queue s
     \<and> (ig_finish_pending s \<longrightarrow> ig_finish_pending s')"

definition keeps_at :: "(proxy \<Rightarrow> 'a \<Rightarrow> bool) \<Rightarrow> (proxy_effect \<Rightarrow> 'a \<Rightarrow> 'a option) \<Rightarrow> proxy_op \<Rightarrow> proxy \<Rightarrow> 'a \<Rightarrow> bool" where
  "keeps_at ok run op g a \<longleftrightarrow> (\<exists>a'. run_all run (snd (op g)) a = Some a' \<and> ok (fst (op g)) a')"

definition keeps :: "(proxy \<Rightarrow> 'a \<Rightarrow> bool) \<Rightarrow> (proxy_effect \<Rightarrow> 'a \<Rightarrow> 'a option) \<Rightarrow> proxy_op \<Rightarrow> bool" where
  "keeps ok run op \<longleftrightarrow> (\<forall>g a. ok g a \<longrightarrow> keeps_at ok run op g a)"

text \<open>A completion for a client's call that is not in the table any more, or an event of another kind.\<close>

fun no_target :: "proxy_event \<Rightarrow> proxy \<Rightarrow> bool" where
  "no_target (EvRead env rid res) g \<longleftrightarrow> (case find_stream rid g of None \<Rightarrow> True | Some s \<Rightarrow> ig_dead s)"
| "no_target (EvWrite env rid ok) g \<longleftrightarrow> (case find_stream rid g of None \<Rightarrow> True | Some s \<Rightarrow> ig_dead s)"
| "no_target (EvFinish env rid) g \<longleftrightarrow> find_stream rid g = None"
| "no_target _ g \<longleftrightarrow> True"

text \<open>The interface between the stream operations and an invariant \<open>ok\<close> that a watcher \<open>run\<close> maintains: laws for the
  six ways in which the flow of a client's call changes, and for the completions that \<open>may\<close> happen. From them
  every event keeps the invariant.\<close>

locale watched_proxy =
  fixes ok :: "proxy \<Rightarrow> 'a \<Rightarrow> bool"
    and run :: "proxy_effect \<Rightarrow> 'a \<Rightarrow> 'a option"
    and may :: "proxy_event \<Rightarrow> proxy \<Rightarrow> 'a \<Rightarrow> bool"
    and completed :: "proxy_event \<Rightarrow> 'a \<Rightarrow> 'a"
  assumes run_other: "\<not> client_effect e \<Longrightarrow> run e a = Some a"
    and ok_frame: "ok g a \<Longrightarrow> g_streams g' = g_streams g \<Longrightarrow> g_pending_calls g' = g_pending_calls g \<Longrightarrow> ok g' a"
    and ok_update: "ok g a \<Longrightarrow> find_stream r g = Some s \<Longrightarrow> same_flow s s' \<Longrightarrow> ok (put_stream r s' g) a"
    and ok_finish: "ok g a \<Longrightarrow> find_stream r g = Some s \<Longrightarrow> try_finish r s = (s', eff)
      \<Longrightarrow> \<exists>a'. run_all run eff a = Some a' \<and> ok (put_stream r s' g) a'"
    and ok_write: "ok g a \<Longrightarrow> find_stream r g = Some s \<Longrightarrow> queue_write now r x s = (s', eff, stalled)
      \<Longrightarrow> \<exists>a'. run_all run eff a = Some a' \<and> ok (put_stream r s' g) a'"
    and ok_next: "ok g a \<Longrightarrow> find_stream r g = Some s \<Longrightarrow> \<not> ig_dead s \<Longrightarrow> \<not> ig_write_outstanding s \<Longrightarrow> \<not> ig_finishing s \<Longrightarrow> \<not> ig_finish_pending s
      \<Longrightarrow> ig_write_queue s = x # xs
      \<Longrightarrow> \<exists>a'. run (GWrite r x) a = Some a' \<and> ok (put_stream r (s\<lparr>ig_write_queue := xs, ig_write_outstanding := True\<rparr>) g) a'"
    and ok_read: "ok g a \<Longrightarrow> find_stream r g = Some s \<Longrightarrow> \<not> ig_dead s \<Longrightarrow> \<not> ig_read_outstanding s \<Longrightarrow> \<not> ig_finishing s \<Longrightarrow> \<not> ig_finish_pending s
      \<Longrightarrow> \<exists>a'. run (GRead r) a = Some a' \<and> ok (put_stream r (s\<lparr>ig_read_outstanding := True\<rparr>) g) a'"
    and ok_sweep: "ok g a \<Longrightarrow> (\<And>rs. rs \<in> set (g_streams g) \<Longrightarrow> \<not> P rs \<Longrightarrow> ig_dead (snd rs)) \<Longrightarrow> ok (g\<lparr>g_streams := filter P (g_streams g)\<rparr>) a"
    and ok_prime: "ok g a \<Longrightarrow> ok (g\<lparr>g_pending_calls := g_pending_calls g @ [(n, new_ingress now)]\<rparr>) a"
    and ok_arrived: "ok g a \<Longrightarrow> ok (g\<lparr>g_pending_calls := filter Q (g_pending_calls g)\<rparr>) a"
    and ok_fresh: "ok g a \<Longrightarrow> map_of (g_pending_calls g) n = Some s \<Longrightarrow> \<exists>t. s = new_ingress t"
    and ok_call: "may (EvCall env n b r m hs) g0 a \<Longrightarrow> ok g a \<Longrightarrow> g_streams g = g_streams g0 \<Longrightarrow> same_flow (new_ingress t) s
      \<Longrightarrow> \<exists>a'. run (GRead r) a = Some a' \<and> ok (put_stream r (s\<lparr>ig_read_outstanding := True\<rparr>) g) a'"
    and read_done: "ok g a \<Longrightarrow> may (EvRead env r res) g a \<Longrightarrow> find_stream r g = Some s \<Longrightarrow> \<not> ig_dead s
      \<Longrightarrow> ok (put_stream r (s\<lparr>ig_read_outstanding := False\<rparr>) g) (completed (EvRead env r res) a)"
    and write_done: "ok g a \<Longrightarrow> may (EvWrite env r b) g a \<Longrightarrow> find_stream r g = Some s \<Longrightarrow> \<not> ig_dead s
      \<Longrightarrow> ok (put_stream r (s\<lparr>ig_write_outstanding := False\<rparr>) g) (completed (EvWrite env r b) a)"
    and finish_done: "ok g a \<Longrightarrow> may (EvFinish env r) g a \<Longrightarrow> find_stream r g = Some s
      \<Longrightarrow> ok (put_stream r (s\<lparr>ig_dead := True, ig_dead_since := t\<rparr>) g) (completed (EvFinish env r) a)"
    and no_stream: "ok g a \<Longrightarrow> may ev g a \<Longrightarrow> no_target ev g \<Longrightarrow> ok g (completed ev a)"
    and call_kept: "completed (EvCall env n b r m hs) a = a"
begin

lemma keepsI: "(\<And>g a. ok g a \<Longrightarrow> keeps_at ok run op g a) \<Longrightarrow> keeps ok run op"
  unfolding keeps_def by blast

lemma keepsD: "keeps ok run op \<Longrightarrow> ok g a \<Longrightarrow> keeps_at ok run op g a"
  unfolding keeps_def by blast

lemma then_keeps:
  assumes "keeps_at ok run f g a" "keeps ok run h"
  shows "keeps_at ok run (then_op f h) g a"
proof -
  obtain a1 where a1: "run_all run (snd (f g)) a = Some a1" "ok (fst (f g)) a1" using assms(1) unfolding keeps_at_def by blast
  from keepsD [OF assms(2) a1(2)] a1(1) show ?thesis by (auto simp: keeps_at_def then_op_def case_prod_beta run_all_append)
qed

lemma keeps_then [intro]: "keeps ok run f \<Longrightarrow> keeps ok run h \<Longrightarrow> keeps ok run (then_op f h)"
  by (rule keepsI) (rule then_keeps [OF keepsD])

lemma keeps_skip [intro!, simp]: "keeps ok run skip_op"
  by (rule keepsI) (simp add: keeps_at_def skip_op_def)

lemma run_quiet: "\<forall>e \<in> set es. \<not> client_effect e \<Longrightarrow> run_all run es a = Some a"
  by (induction es) (simp_all add: run_other)

lemma keeps_quiet:
  assumes "\<And>g. g_streams (fst (op g)) = g_streams g \<and> g_pending_calls (fst (op g)) = g_pending_calls g \<and> (\<forall>e \<in> set (snd (op g)). \<not> client_effect e)"
  shows "keeps ok run op"
  using assms by (intro keepsI) (auto simp: keeps_at_def run_quiet intro: ok_frame)

lemma keeps_emit [intro]: "\<forall>e \<in> set es. \<not> client_effect e \<Longrightarrow> keeps ok run (emit es)"
  by (rule keeps_quiet) (simp add: emit_def)

lemma keeps_mesh [intro!, simp]: "keeps ok run (mesh_op env n l m)"
  by (rule keeps_quiet) (auto simp: mesh_op_def)

lemma keeps_close [intro!, simp]: "keeps ok run (close_op env rid dl dn fo st err)"
  by (rule keeps_quiet) (auto simp: close_op_def)

lemma keeps_metric [intro!, simp]: "keeps ok run (metric_op d n k t b md)"
  by (rule keeps_quiet) (auto simp: metric_op_def)

lemma keeps_each [intro]: "(\<And>x. x \<in> set xs \<Longrightarrow> keeps ok run (f x)) \<Longrightarrow> keeps ok run (each_op f xs)"
  by (induction xs) auto

lemma put_then:
  assumes "ok g a" "find_stream r g = Some s" "same_flow s s'" "keeps ok run op"
  shows "keeps_at ok run op (put_stream r s' g) a"
  using keepsD [OF assms(4) ok_update [OF assms(1-3)]] .

lemma keeps_update:
  assumes "\<And>s. same_flow s (fst (f s)) \<and> (\<forall>e \<in> set (snd (f s)). \<not> client_effect e)"
  shows "keeps ok run (on_stream r f)"
  using assms by (intro keepsI) (auto simp: keeps_at_def on_stream_def run_quiet case_prod_beta intro: ok_update split: option.split)

lemma keeps_try_finish [intro!, simp]: "keeps ok run (ingress_try_finish r)"
proof (rule keepsI)
  fix g a assume "ok g a"
  then show "keeps_at ok run (ingress_try_finish r) g a"
    using ok_finish [of g a r] by (auto simp: keeps_at_def ingress_try_finish_def on_stream_def case_prod_beta split: option.split)
qed

lemma keeps_put: "keeps ok run op \<Longrightarrow> ok g a \<Longrightarrow> find_stream r g = Some s \<Longrightarrow> same_flow s s'
    \<Longrightarrow> keeps_at ok run (then_op (\<lambda>g. (put_stream r s' g, [])) op) g a"
  using put_then by (fastforce simp: keeps_at_def then_op_def case_prod_beta)

lemma emit_then:
  assumes "\<forall>e \<in> set es. \<not> client_effect e" "keeps_at ok run op g a"
  shows "keeps_at ok run (then_op (emit es) op) g a"
  using assms by (simp add: keeps_at_def then_op_def emit_def run_all_append run_quiet case_prod_beta)

lemma keeps_teardown [intro!, simp]: "keeps ok run (ingress_teardown env r st)"
proof (rule keepsI)
  fix g a assume ok: "ok g a"
  let ?cancel = "case map_of (g_registry g) r of None \<Rightarrow> [] | Some b \<Rightarrow> [GCancel b]"
  have quiet: "\<forall>e \<in> set ?cancel. \<not> client_effect e" by (auto split: option.split)
  show "keeps_at ok run (ingress_teardown env r st) g a"
  proof (cases "find_stream r g")
    case None
    then show ?thesis using ok quiet by (simp add: keeps_at_def ingress_teardown_def run_quiet)
  next
    case (Some s)
    let ?s = "s\<lparr>ig_finish_status := st, ig_read_stopped := True, ig_backend := None\<rparr>"
    let ?close = "if ig_remote s \<and> ig_dest_leaf s \<noteq> [] then close_op env r (ig_dest_leaf s) (ig_dest_node s) True (gs_code st) (gs_message st) else skip_op"
    have flow: "same_flow s ?s" by (simp add: same_flow_def)
    have "keeps ok run (then_op ?close (ingress_try_finish r))" by (intro keeps_then) simp_all
    from emit_then [OF quiet keeps_put [OF this ok Some flow]]
    have after: "keeps_at ok run (then_op (emit ?cancel) (then_op (\<lambda>g. (put_stream r ?s g, [])) (then_op ?close (ingress_try_finish r)))) g a" .
    show ?thesis
    proof (cases "ig_dead s \<or> ig_finishing s")
      case True
      then have "ingress_teardown env r st g = (g, ?cancel)" using Some by (simp add: ingress_teardown_def Let_def)
      then show ?thesis using ok quiet by (simp add: keeps_at_def run_quiet)
    next
      case False
      then have "ingress_teardown env r st g = then_op (emit ?cancel) (then_op (\<lambda>g. (put_stream r ?s g, [])) (then_op ?close (ingress_try_finish r))) g"
        using Some by (simp add: ingress_teardown_def Let_def)
      then show ?thesis using after by (simp only: keeps_at_def)
    qed
  qed
qed

lemma keeps_queue_write [intro!, simp]: "keeps ok run (ingress_queue_write env r x)"
proof (rule keepsI)
  fix g a assume ok: "ok g a"
  show "keeps_at ok run (ingress_queue_write env r x) g a"
  proof (cases "find_stream r g")
    case (Some s)
    obtain s' eff stalled where q: "queue_write (ge_now env) r x s = (s', eff, stalled)" using prod_cases3 by blast
    obtain a1 where a1: "run_all run eff a = Some a1" "ok (put_stream r s' g) a1" using ok_write [OF ok Some q] by blast
    from keepsD [OF keeps_teardown a1(2)] a1 Some q show ?thesis
      by (cases stalled) (auto simp: keeps_at_def ingress_queue_write_def then_op_def emit_def run_all_append case_prod_beta)
  qed (use ok in \<open>simp add: keeps_at_def ingress_queue_write_def\<close>)
qed

lemma keeps_backend_message [intro!, simp]: "keeps ok run (ingress_backend_message env r x)"
  unfolding ingress_backend_message_def by (intro keeps_then keeps_update keeps_queue_write) (simp add: same_flow_def)

lemma keeps_backend_closed [intro!, simp]: "keeps ok run (ingress_backend_closed env r st)"
proof (rule keepsI)
  fix g a assume ok: "ok g a"
  show "keeps_at ok run (ingress_backend_closed env r st) g a"
  proof (cases "find_stream r g")
    case (Some s)
    have "same_flow s (backend_closed (ge_now env) st s)" by (simp add: backend_closed_def same_flow_def)
    from put_then [OF ok Some this keeps_try_finish] Some ok show ?thesis by (simp add: keeps_at_def ingress_backend_closed_def)
  qed (use ok in \<open>simp add: keeps_at_def ingress_backend_closed_def\<close>)
qed

lemma keeps_on_backend [intro]:
  assumes "\<And>bs. \<forall>e \<in> set (snd (f bs)). \<not> client_effect e"
  shows "keeps ok run (on_backend b f)"
  using assms by (intro keeps_quiet) (auto simp: on_backend_def put_backend_def case_prod_beta split: option.split)

lemma quiet_drive: "\<forall>e \<in> set (snd (drive_writes b bs)). \<not> client_effect e"
  by (auto simp: drive_writes_def split: list.split)

lemma keeps_client [intro!, simp]:
  "keeps ok run (on_backend b (client_message b x))" "keeps ok run (on_backend b (client_half_close b))"
  "keeps ok run (on_backend b (\<lambda>bs. drive_writes b (h bs)))"
  using quiet_drive by (auto intro!: keeps_on_backend simp: client_message_def client_half_close_def split: if_splits)

lemma keeps_forward [intro!, simp]: "keeps ok run (ingress_forward_frame env r x half)"
proof (rule keepsI)
  fix g a assume ok: "ok g a"
  show "keeps_at ok run (ingress_forward_frame env r x half) g a"
  proof (cases "find_stream r g")
    case (Some s)
    let ?s = "s\<lparr>ig_last_activity := ge_now env\<rparr>"
    have flow: "same_flow s ?s" by (simp add: same_flow_def)
    note ok' = ok_update [OF ok Some flow]
    have "keeps ok run (on_backend b (if half then client_half_close b else client_message b x))" for b by simp
    from keepsD [OF this ok'] keepsD [OF keeps_mesh ok'] show ?thesis using Some ok ok'
      by (auto simp: keeps_at_def ingress_forward_frame_def Let_def split: option.split)
  qed (use ok in \<open>simp add: keeps_at_def ingress_forward_frame_def\<close>)
qed

lemma keeps_flush [intro!, simp]: "keeps ok run (flush_buffered env r)"
proof (rule keepsI)
  fix g a assume ok: "ok g a"
  show "keeps_at ok run (flush_buffered env r) g a"
  proof (cases "find_stream r g")
    case (Some s)
    have flow: "same_flow s (s\<lparr>ig_buffered := []\<rparr>)" by (simp add: same_flow_def)
    have "keeps ok run (each_op (\<lambda>x. ingress_forward_frame env r x False) (ig_buffered s))" by (rule keeps_each) simp
    from put_then [OF ok Some flow this] Some show ?thesis by (simp add: keeps_at_def flush_buffered_def)
  qed (use ok in \<open>simp add: keeps_at_def flush_buffered_def\<close>)
qed

lemma pick_for_stream_frame:
  "g_streams (snd (pick_for_stream env s g)) = g_streams g" "g_pending_calls (snd (pick_for_stream env s g)) = g_pending_calls g"
  by (auto simp: pick_for_stream_def Let_def case_prod_beta split: option.split)

lemma open_keeps:
  assumes "ok g a" "find_stream r g = Some s"
  shows "keeps_at ok run (open_local env r s ep) g a"
    and "keeps_at ok run (open_remote env r s ep) g a"
proof -
  obtain b g1 where c: "create_backend r (ToIngress r) g = (b, g1)" by force
  then have same: "g_streams g1 = g_streams g" "g_pending_calls g1 = g_pending_calls g" by (auto simp: create_backend_def Let_def)
  have g1: "ok g1 a" using assms(1) same by (rule ok_frame)
  have f1: "find_stream r g1 = Some s" using assms(2) same by (simp add: find_stream_def)
  have flow: "same_flow s (s\<lparr>ig_remote := False, ig_backend := Some b, ig_open_sent_at := ge_now env\<rparr>)"
    "same_flow s (s\<lparr>ig_remote := True, ig_dest_leaf := owner_leaf ep, ig_dest_node := owner_node ep, ig_open_sent_at := ge_now env\<rparr>)"
    by (simp_all add: same_flow_def)
  show "keeps_at ok run (open_local env r s ep) g a"
    using ok_update [OF g1 f1 flow(1)] c by (simp add: keeps_at_def open_local_def run_other)
  show "keeps_at ok run (open_remote env r s ep) g a"
  proof -
    have "keeps ok run (then_op (mesh_op env (owner_node ep) (owner_leaf ep) m) (metric_op d n k t True md))" for m d n k t md by auto
    from put_then [OF assms flow(2) this] show ?thesis by (simp add: keeps_at_def open_remote_def Let_def)
  qed
qed

lemma keeps_begin [intro!, simp]: "keeps ok run (generic_begin_stream env r)"
proof (rule keepsI)
  fix g a assume ok: "ok g a"
  show "keeps_at ok run (generic_begin_stream env r) g a"
  proof (cases "find_stream r g")
    case (Some s)
    obtain q g1 where p: "pick_for_stream env s g = (q, g1)" by force
    have g1: "ok g1 a" using pick_for_stream_frame [of env s g] p by (intro ok_frame [OF ok]) simp_all
    have f1: "find_stream r g1 = Some s" using pick_for_stream_frame(1) [of env s g] p Some by (simp add: find_stream_def)
    show ?thesis
    proof (cases q)
      case (Inl err)
      have "same_flow s (s\<lparr>ig_finish_status := err\<rparr>)" by (simp add: same_flow_def)
      from keeps_put [OF keeps_try_finish g1 f1 this, of r]
      have "keeps_at ok run (if ig_dead s \<or> ig_finishing s then skip_op
               else then_op (\<lambda>g. (put_stream r (s\<lparr>ig_finish_status := err\<rparr>) g, [])) (ingress_try_finish r)) g1 a"
        using g1 by (simp add: keeps_at_def skip_op_def)
      from emit_then [OF _ this, of "[GLeaf (leaf_metric ''client_to_leaf'' (ig_method s) 0 0 False (ig_metadata s))]"] show ?thesis
        using Some p Inl by (simp add: keeps_at_def generic_begin_stream_def metric_op_def emit_def then_op_def)
    next
      case (Inr ep)
      have "same_flow s (s\<lparr>ig_finish_status := \<lparr>gs_code = 13, gs_message = ''backend_call_create_failed''\<rparr>\<rparr>)" by (simp add: same_flow_def)
      note stuck = ok_update [OF g1 f1 this]
      have rest: "keeps ok run (then_op (metric_op ''client_to_leaf'' (ig_method s) 0 0 True (ig_metadata s)) (flush_buffered env r))" by auto
      show ?thesis using stuck g1 then_keeps [OF open_keeps(1) [OF g1 f1] rest] then_keeps [OF open_keeps(2) [OF g1 f1] rest] Some p Inr
        by (simp add: keeps_at_def generic_begin_stream_def run_other)
    qed
  qed (use ok in \<open>simp add: keeps_at_def generic_begin_stream_def\<close>)
qed

text \<open>The completions.\<close>

lemma keeps_here: "ok g a \<Longrightarrow> op g = (g, []) \<Longrightarrow> keeps_at ok run op g a"
  by (simp add: keeps_at_def)

lemma keeps_at_eq: "keeps_at ok run op g' a \<Longrightarrow> op' g = op g' \<Longrightarrow> keeps_at ok run op' g a"
  by (simp add: keeps_at_def)

lemma started_read:
  assumes "ok g a" "find_stream r g = Some s" "\<not> ig_dead s" "\<not> ig_read_outstanding s" "\<not> ig_finishing s" "\<not> ig_finish_pending s"
    and "same_flow s s'" "keeps ok run op"
  shows "keeps_at ok run (then_op (\<lambda>g. (put_stream r (s'\<lparr>ig_read_outstanding := True\<rparr>) g, [GRead r])) op) g a"
proof -
  obtain a' where a': "run (GRead r) a = Some a'" "ok (put_stream r (s\<lparr>ig_read_outstanding := True\<rparr>) g) a'" using ok_read [OF assms(1-6)] by blast
  have flow: "same_flow (s\<lparr>ig_read_outstanding := True\<rparr>) (s'\<lparr>ig_read_outstanding := True\<rparr>)" using assms(7) by (simp add: same_flow_def)
  from ok_update [OF a'(2) put_stream_simps(1) flow] have "ok (put_stream r (s'\<lparr>ig_read_outstanding := True\<rparr>) g) a'" by simp
  from keepsD [OF assms(8) this] a'(1) show ?thesis by (auto simp: keeps_at_def then_op_def case_prod_beta)
qed

lemma put_again:
  assumes "ok (put_stream r s g) a" "same_flow s s'" "keeps ok run op"
  shows "keeps_at ok run op (put_stream r s' g) a"
  using put_then [OF assms(1) _ assms(2,3), of r] by (simp add: put_twice)

lemma read_keeps:
  assumes "ok g a" "may (EvRead env r res) g a"
  shows "keeps_at ok run (generic_on_read env r res) g (completed (EvRead env r res) a)"
proof (cases "no_target (EvRead env r res) g")
  case True
  have "generic_on_read env r res g = (g, [])" using True by (auto simp: generic_on_read_def split: option.split)
  with no_stream [OF assms True] show ?thesis by (rule keeps_here)
next
  case False
  then obtain s where s: "find_stream r g = Some s" "\<not> ig_dead s" by (auto split: option.splits)
  define s1 where "s1 = s\<lparr>ig_read_outstanding := False\<rparr>"
  define s2 where "s2 = s\<lparr>ig_last_activity := ge_now env, ig_read_outstanding := False\<rparr>"
  let ?g = "put_stream r s1 g" and ?a = "completed (EvRead env r res) a"
  have ok1: "ok ?g ?a" using read_done [OF assms s] by (simp add: s1_def)
  have s1: "find_stream r ?g = Some s1" "\<not> ig_dead s1" "\<not> ig_read_outstanding s1" using s(2) by (simp_all add: s1_def)
  have half: "keeps ok run (then_op (generic_begin_stream env r) (ingress_forward_frame env r [] True))" by auto
  have read: "keeps_at ok run (\<lambda>g. then_op (\<lambda>g. (put_stream r (s'\<lparr>ig_read_outstanding := True\<rparr>) g, [GRead r])) op g) g ?a"
    if "\<not> ig_finishing s" "\<not> ig_finish_pending s" "same_flow s2 s'" "keeps ok run op" for s' op
  proof -
    have "same_flow s1 s'" using that(3) by (simp add: same_flow_def s1_def s2_def)
    from started_read [OF ok1 s1 _ _ this that(4)] that(1,2)
    have "keeps_at ok run (then_op (\<lambda>g. (put_stream r (s'\<lparr>ig_read_outstanding := True\<rparr>) g, [GRead r])) op) ?g ?a" by (simp add: s1_def)
    then show ?thesis by (rule keeps_at_eq) (simp add: then_op_def put_twice)
  qed
  have put: "keeps_at ok run (\<lambda>g. op (put_stream r s' g)) g ?a" if "same_flow s2 s'" "keeps ok run op" for s' op
  proof -
    have "same_flow s1 s'" using that(1) by (simp add: same_flow_def s1_def s2_def)
    from put_again [OF ok1 this that(2)] show ?thesis by (simp add: keeps_at_def)
  qed
  note def = generic_on_read_def s s1_def s2_def Let_def
  show ?thesis
  proof (cases "ig_finish_pending s \<or> ig_finishing s")
    case True
    have "same_flow s2 s2" by (simp add: same_flow_def)
    from put [OF this keeps_try_finish, of r] show ?thesis using True by - (erule keeps_at_eq, simp add: def)
  next
    case open_call: False
    then have nf: "\<not> ig_finishing s" "\<not> ig_finish_pending s" by auto
    have alarm: "keeps ok run (emit [GAlarmSet r kClassifyWindowMs])" by (rule keeps_emit) simp
    have quiet: "\<forall>e \<in> set [GAlarmCancel r]. \<not> client_effect e" by simp
    consider (first) "ig_phase s = 1" | (second) "ig_phase s = 2" | (stream) "ig_phase s = 3" | (other) "ig_phase s \<notin> {1, 2, 3}" by auto
    then show ?thesis
    proof cases
      case first
      show ?thesis
      proof (cases res)
        case None
        have "same_flow s2 (s2\<lparr>ig_phase := 3\<rparr>)" by (simp add: same_flow_def)
        from put [OF this half] show ?thesis using None first open_call by - (erule keeps_at_eq, simp add: def)
      next
        case (Some x)
        have "same_flow s2 (s2\<lparr>ig_buffered := ig_buffered s @ [x], ig_phase := 2\<rparr>)" by (simp add: same_flow_def)
        from read [OF nf this alarm] show ?thesis using Some first open_call
          by - (erule keeps_at_eq, auto simp: def then_op_def emit_def)
      qed
    next
      case second
      show ?thesis
      proof (cases res)
        case None
        have "same_flow s2 (s2\<lparr>ig_phase := 3\<rparr>)" by (simp add: same_flow_def)
        from emit_then [OF quiet put [OF this half]] show ?thesis using None second open_call
          by - (erule keeps_at_eq, simp add: def then_op_def emit_def)
      next
        case (Some x)
        have "same_flow s2 (s2\<lparr>ig_buffered := ig_buffered s @ [x], ig_phase := 3\<rparr>)" by (simp add: same_flow_def)
        from emit_then [OF quiet read [OF nf this keeps_begin], of env r] show ?thesis using Some second open_call
          by - (erule keeps_at_eq, simp add: def then_op_def emit_def)
      qed
    next
      case stream
      show ?thesis
      proof (cases "ig_read_stopped s")
        case True
        have "same_flow s2 s2" by (simp add: same_flow_def)
        from put [OF this keeps_skip] show ?thesis using True stream open_call by - (erule keeps_at_eq, simp add: def skip_op_def)
      next
        case reading: False
        show ?thesis
        proof (cases res)
          case None
          have "same_flow s2 (s2\<lparr>ig_read_stopped := True\<rparr>)" by (simp add: same_flow_def)
          from put [OF this keeps_forward, of env r "[]" True] show ?thesis using None reading stream open_call
            by - (erule keeps_at_eq, simp add: def)
        next
          case (Some x)
          have "same_flow s2 s2" by (simp add: same_flow_def)
          from read [OF nf this keeps_forward, of env r x False] show ?thesis using Some reading stream open_call
            by - (erule keeps_at_eq, simp add: def)
        qed
      qed
    next
      case other
      have "same_flow s2 s2" by (simp add: same_flow_def)
      from put [OF this keeps_skip] show ?thesis using other open_call by - (erule keeps_at_eq, simp add: def skip_op_def)
    qed
  qed
qed

lemma write_keeps:
  assumes "ok g a" "may (EvWrite env r b) g a"
  shows "keeps_at ok run (generic_on_write env r b) g (completed (EvWrite env r b) a)"
proof (cases "no_target (EvWrite env r b) g")
  case True
  have "generic_on_write env r b g = (g, [])" using True by (auto simp: generic_on_write_def split: option.split)
  with no_stream [OF assms True] show ?thesis by (rule keeps_here)
next
  case False
  then obtain s where s: "find_stream r g = Some s" "\<not> ig_dead s" by (auto split: option.splits)
  define s1 where "s1 = s\<lparr>ig_write_outstanding := False\<rparr>"
  define s2 where "s2 = s\<lparr>ig_last_activity := ge_now env, ig_write_outstanding := False\<rparr>"
  let ?a = "completed (EvWrite env r b) a"
  have ok1: "ok (put_stream r s1 g) ?a" using write_done [OF assms s] by (simp add: s1_def)
  have flow: "same_flow s1 s2" by (simp add: same_flow_def s1_def s2_def)
  have put: "keeps_at ok run (\<lambda>g. op (put_stream r s2 g)) g ?a" if "keeps ok run op" for op
    using put_again [OF ok1 flow that] by (simp add: keeps_at_def)
  note def = generic_on_write_def s s2_def Let_def
  consider (failed) "\<not> b" | (queued) "b" "ig_write_queue s \<noteq> [] \<and> \<not> ig_finishing s \<and> \<not> ig_finish_pending s"
    | (pending) "b" "\<not> (ig_write_queue s \<noteq> [] \<and> \<not> ig_finishing s \<and> \<not> ig_finish_pending s)" "ig_finish_pending s"
    | (idle) "b" "\<not> (ig_write_queue s \<noteq> [] \<and> \<not> ig_finishing s \<and> \<not> ig_finish_pending s)" "\<not> ig_finish_pending s" by blast
  then show ?thesis
  proof cases
    case failed
    from put [OF keeps_teardown, of env r "\<lparr>gs_code = 1, gs_message = ''write_failed''\<rparr>"] show ?thesis
      using failed by - (erule keeps_at_eq, simp add: def)
  next
    case queued
    then obtain x xs where q: "ig_write_queue s = x # xs" by (cases "ig_write_queue s") auto
    have ok2: "ok (put_stream r s2 g) ?a" using ok_update [OF ok1 put_stream_simps(1) flow] by (simp add: put_twice)
    obtain a' where "run (GWrite r x) ?a = Some a'" "ok (put_stream r (s2\<lparr>ig_write_queue := xs, ig_write_outstanding := True\<rparr>) g) a'"
      using ok_next [OF ok2 put_stream_simps(1), of x xs] s(2) queued q by (auto simp: s2_def put_twice)
    then show ?thesis using queued q by (simp add: keeps_at_def def)
  next
    case pending
    from put [OF keeps_try_finish, of r] show ?thesis using pending by - (erule keeps_at_eq, auto simp: def)
  next
    case idle
    from put [OF keeps_skip] show ?thesis using idle by - (erule keeps_at_eq, auto simp: def skip_op_def)
  qed
qed

lemma finish_keeps:
  assumes "ok g a" "may (EvFinish env r) g a"
  shows "keeps_at ok run (generic_on_finish env r) g (completed (EvFinish env r) a)"
proof (cases "find_stream r g")
  case None
  have "generic_on_finish env r g = (g, [])" using None by (simp add: generic_on_finish_def on_stream_def)
  with no_stream [OF assms] None show ?thesis by (auto intro: keeps_here)
next
  case (Some s)
  from finish_done [OF assms Some, of "ge_now env"] Some show ?thesis by (simp add: keeps_at_def generic_on_finish_def on_stream_def)
qed

lemma keeps_alarm [intro!, simp]: "keeps ok run (generic_on_alarm env r b)"
proof (rule keepsI)
  fix g a assume ok: "ok g a"
  show "keeps_at ok run (generic_on_alarm env r b) g a"
  proof (cases "find_stream r g")
    case (Some s)
    have "same_flow s (s\<lparr>ig_phase := 3\<rparr>)" by (simp add: same_flow_def)
    from put_then [OF ok Some this keeps_begin, of env r] ok Some show ?thesis by (simp add: keeps_at_def generic_on_alarm_def)
  qed (use ok in \<open>simp add: keeps_at_def generic_on_alarm_def\<close>)
qed

lemma keeps_prime: "keeps ok run (prime_generic_call now)"
proof (rule keepsI)
  fix g a assume ok: "ok g a"
  have "ok (g\<lparr>g_pending_calls := g_pending_calls g @ [(g_next_call g, new_ingress now)], g_next_call := g_next_call g + 1\<rparr>) a"
    using ok_frame [OF ok_prime [OF ok]] by simp
  with ok show "keeps_at ok run (prime_generic_call now) g a" by (simp add: keeps_at_def prime_generic_call_def run_other)
qed

lemma call_keeps:
  assumes "ok g a" "may (EvCall env c b r m hs) g a"
  shows "keeps_at ok run (on_call_arrived env c b r m hs) g a"
proof (cases "map_of (g_pending_calls g) c")
  case (Some s)
  obtain t where t: "s = new_ingress t" using ok_fresh [OF assms(1) Some] by blast
  let ?g = "g\<lparr>g_pending_calls := filter (\<lambda>p. fst p \<noteq> c) (g_pending_calls g)\<rparr>"
  have ok1: "ok ?g a" by (rule ok_arrived [OF assms(1)])
  obtain g2 eff where p: "prime_generic_call (ge_now env) ?g = (g2, eff)" by force
  have ok2: "ok g2 a" "run_all run eff a = Some a" "g_streams g2 = g_streams g"
    using keepsD [OF keeps_prime ok1, of "ge_now env"] p by (auto simp: keeps_at_def prime_generic_call_def run_other split: if_splits)
  let ?s = "s\<lparr>ig_method := m, ig_request_id := r, ig_metadata := traced_metadata (ge_rs env) (ge_rs' env) (session_metadata (filtered_metadata hs)), ig_phase := 1\<rparr>"
  have "same_flow (new_ingress t) ?s" by (simp add: same_flow_def t)
  from ok_call [OF assms(2) ok2(1,3) this] obtain a' where "run (GRead r) a = Some a'" "ok (put_stream r (?s\<lparr>ig_read_outstanding := True\<rparr>) g2) a'" by blast
  then have "keeps_at ok run (then_op (prime_generic_call (ge_now env)) (generic_on_new_call env r m hs s)) ?g a"
    using p ok2(2) by (simp add: keeps_at_def then_op_def run_all_append generic_on_new_call_def)
  with ok1 Some show ?thesis by (simp add: keeps_at_def on_call_arrived_def Let_def)
qed (use assms in \<open>simp add: keeps_at_def on_call_arrived_def\<close>)

text \<open>The backends' calls, the mesh and the sweeper.\<close>

lemma keeps_callback [intro!, simp]: "keeps ok run (backend_message env bs x)" "keeps ok run (backend_close env bs st)"
proof -
  show "keeps ok run (backend_close env bs st)" by (auto simp: backend_close_def split: backend_target.split)
  show "keeps ok run (backend_message env bs x)"
  proof (cases "bk_target bs")
    case (ToMesh dl dn)
    have "backend_message env bs x g = mesh_op env dn dl (WStreamFrame (stream_frame_for (bk_request_id bs) x False False dl dn (g_leaf g))) g" for g
      using ToMesh by (simp add: backend_message_def)
    then show ?thesis by (intro keeps_quiet) (auto simp: mesh_op_def)
  next
    case (ToIngress rid)
    then have "backend_message env bs x = ingress_backend_message env rid x" by (simp add: backend_message_def fun_eq_iff)
    then show ?thesis by simp
  qed
qed

lemma keeps_backend_start [intro!, simp]: "keeps ok run (backend_on_start b st)"
  unfolding backend_on_start_def by (auto intro!: keeps_then keeps_emit)

lemma keeps_backend_write [intro!, simp]: "keeps ok run (backend_on_write b)"
  by (simp add: backend_on_write_def)

lemma frame_then:
  assumes "ok g a" "g_streams g' = g_streams g" "g_pending_calls g' = g_pending_calls g" "keeps ok run op"
  shows "keeps_at ok run op g' a"
  using keepsD [OF assms(4) ok_frame [OF assms(1-3)]] .

lemma keeps_backend_read [intro!, simp]: "keeps ok run (backend_on_read env b res)"
proof (rule keepsI)
  fix g a assume ok: "ok g a"
  have "keeps ok run (then_op (backend_message env bs x) (emit [GBackendRead b]))" for bs x by (intro keeps_then keeps_emit) simp_all
  from keepsD [OF this ok] ok show "keeps_at ok run (backend_on_read env b res) g a"
    by (auto simp: keeps_at_def backend_on_read_def run_other split: option.split)
qed

lemma keeps_backend_finish [intro!, simp]: "keeps ok run (backend_on_finish env b st)"
proof (rule keepsI)
  fix g a assume ok: "ok g a"
  show "keeps_at ok run (backend_on_finish env b st) g a"
  proof (cases "map_of (g_backends g) b")
    case (Some bs)
    have fin: "keeps ok run (backend_stream_finished env b (bs\<lparr>bk_finished := True\<rparr>) st)"
    proof (rule keepsI)
      fix g a assume ok: "ok g a"
      show "keeps_at ok run (backend_stream_finished env b (bs\<lparr>bk_finished := True\<rparr>) st) g a"
        using keepsD [OF keeps_callback(2) ok, of env "bs\<lparr>bk_finished := True\<rparr>" st]
          frame_then [OF ok _ _ keeps_callback(2), of "g\<lparr>g_registry := om_erase (bk_request_id bs) (g_registry g)\<rparr>" env "bs\<lparr>bk_finished := True\<rparr>" st]
        by (simp add: keeps_at_def backend_stream_finished_def)
    qed
    have drop: "keeps ok run (\<lambda>g. (g\<lparr>g_backends := om_erase b (g_backends g)\<rparr>, []))" by (rule keeps_quiet) simp
    have "g_streams (put_backend b (bs\<lparr>bk_finished := True\<rparr>) g) = g_streams g" "g_pending_calls (put_backend b (bs\<lparr>bk_finished := True\<rparr>) g) = g_pending_calls g"
      by (simp_all add: put_backend_def)
    from frame_then [OF ok this keeps_then [OF fin drop]] Some show ?thesis by (simp add: keeps_at_def backend_on_finish_def)
  qed (use ok in \<open>simp add: keeps_at_def backend_on_finish_def\<close>)
qed

lemma keeps_stream_open [intro!, simp]: "keeps ok run (process_stream_open env opn)"
  by (rule keeps_quiet)
    (auto simp: process_stream_open_def Let_def close_op_def create_backend_def then_op_def emit_def metric_op_def split: option.split)

lemma keeps_reply_unknown: "keeps ok run (reply_unknown env fr)"
  by (rule keeps_quiet) (auto simp: reply_unknown_def close_op_def)

lemma keeps_stream_frame [intro!, simp]: "keeps ok run (process_stream_frame env fr)"
proof (rule keepsI)
  fix g a assume ok: "ok g a"
  note k = keepsD [OF keeps_reply_unknown ok, of env fr] keepsD [OF keeps_close ok] keepsD [OF keeps_backend_message ok] keepsD [OF keeps_client(1) ok] keepsD [OF keeps_client(2) ok]
  show "keeps_at ok run (process_stream_frame env fr) g a"
    using k ok by (auto simp: keeps_at_def process_stream_frame_def split: option.split)
qed

lemma keeps_stream_close [intro!, simp]: "keeps ok run (process_stream_close env cl)"
proof (rule keepsI)
  fix g a assume ok: "ok g a"
  then show "keeps_at ok run (process_stream_close env cl) g a"
    using keepsD [OF keeps_backend_closed ok] by (auto simp: keeps_at_def process_stream_close_def run_other split: option.split)
qed

lemma keeps_worker [intro!, simp]: "keeps ok run (stream_worker_round env)"
proof (rule keepsI)
  fix g a assume ok: "ok g a"
  obtain m q where p: "fifo_poll (l_stream_queue (g_leaf g)) = (m, q)" by force
  let ?g = "g\<lparr>g_leaf := (g_leaf g)\<lparr>l_stream_queue := q\<rparr>\<rparr>"
  have "ok ?g a" by (rule ok_frame [OF ok]) simp_all
  note k = this keepsD [OF keeps_stream_open this] keepsD [OF keeps_stream_frame this] keepsD [OF keeps_stream_close this]
  show "keeps_at ok run (stream_worker_round env) g a"
    using k ok p by (auto simp: keeps_at_def stream_worker_round_def Let_def split: option.split wire_message.split)
qed

lemma keeps_sweep [intro!, simp]: "keeps ok run (stream_sweep env busy)"
proof (rule keepsI)
  fix g a assume ok: "ok g a"
  let ?P = "\<lambda>rs. \<not> swept_dead (ge_now env) busy rs"
  let ?g = "g\<lparr>g_streams := filter ?P (g_streams g), g_unknown_stream_replies := filter (\<lambda>rt. \<not> sec 60 < ge_now env - snd rt) (g_unknown_stream_replies g)\<rparr>"
  have "ok (g\<lparr>g_streams := filter ?P (g_streams g)\<rparr>) a" by (rule ok_sweep [OF ok]) (simp add: swept_dead_def)
  then have "ok ?g a" by (rule ok_frame) simp_all
  moreover have "keeps ok run (then_op (each_op (\<lambda>rs. ingress_teardown env (fst rs) st1) xs) (each_op (\<lambda>rs. ingress_teardown env (fst rs) st2) ys))" for st1 st2 xs ys
    by (intro keeps_then keeps_each) simp_all
  ultimately have "keeps_at ok run (then_op (each_op (\<lambda>rs. ingress_teardown env (fst rs) st1) xs) (each_op (\<lambda>rs. ingress_teardown env (fst rs) st2) ys)) ?g a" for st1 st2 xs ys
    using keepsD by blast
  then show "keeps_at ok run (stream_sweep env busy) g a"
    by (rule keeps_at_eq) (simp add: stream_sweep_def Let_def)
qed

theorem event_keeps:
  assumes "ok g a" "may ev g a"
  shows "keeps_at ok run (handle_event ev) g (completed ev a)"
proof -
  have plain: "keeps_at ok run op g (completed ev a)" if "keeps ok run op" "no_target ev g" for op
    using keepsD [OF that(1) no_stream [OF assms that(2)]] .
  show ?thesis
  proof (cases ev)
    case (EvCall env c b r m hs)
    then show ?thesis using call_keeps [of g a env c b r m hs] assms call_kept by simp
  next
    case (EvRead env r res)
    then show ?thesis using read_keeps assms by simp
  next
    case (EvWrite env r b)
    then show ?thesis using write_keeps assms by simp
  next
    case (EvFinish env r)
    then show ?thesis using finish_keeps assms by simp
  qed (use plain keeps_prime in simp_all)
qed

end

subsection \<open>The rules of the asynchronous interface\<close>

text \<open>What gRPC knows of one call: which operations it is working on. A read may be started when none is
  outstanding, a write likewise, a finish once and when nothing is outstanding, and nothing after it.\<close>

record call_api =
  ca_read :: bool
  ca_write :: bool
  ca_finish :: bool
  ca_done :: bool

definition api_idle :: call_api where "api_idle = \<lparr>ca_read = False, ca_write = False, ca_finish = False, ca_done = False\<rparr>"

fun api_run :: "string \<Rightarrow> proxy_effect \<Rightarrow> call_api \<Rightarrow> call_api option" where
  "api_run rid (GRead r) a = (if r \<noteq> rid then Some a else if ca_read a \<or> ca_finish a then None else Some (a\<lparr>ca_read := True\<rparr>))"
| "api_run rid (GWrite r x) a = (if r \<noteq> rid then Some a else if ca_write a \<or> ca_finish a then None else Some (a\<lparr>ca_write := True\<rparr>))"
| "api_run rid (GFinish r st) a = (if r \<noteq> rid then Some a else if ca_read a \<or> ca_write a \<or> ca_finish a then None else Some (a\<lparr>ca_finish := True\<rparr>))"
| "api_run rid _ a = Some a"

text \<open>gRPC completes what it was asked for, each operation once; request ids are not used twice.\<close>

fun api_may :: "string \<Rightarrow> proxy_event \<Rightarrow> proxy \<Rightarrow> call_api \<Rightarrow> bool" where
  "api_may rid (EvRead env r res) g a \<longleftrightarrow> (r = rid \<longrightarrow> ca_read a)"
| "api_may rid (EvWrite env r b) g a \<longleftrightarrow> (r = rid \<longrightarrow> ca_write a)"
| "api_may rid (EvFinish env r) g a \<longleftrightarrow> (r = rid \<longrightarrow> ca_finish a \<and> \<not> ca_done a)"
| "api_may rid (EvCall env c b r m hs) g a \<longleftrightarrow> (r = rid \<longrightarrow> a = api_idle \<and> find_stream rid g = None)"
| "api_may rid _ g a \<longleftrightarrow> True"

fun api_completed :: "string \<Rightarrow> proxy_event \<Rightarrow> call_api \<Rightarrow> call_api" where
  "api_completed rid (EvRead env r res) a = (if r = rid then a\<lparr>ca_read := False\<rparr> else a)"
| "api_completed rid (EvWrite env r b) a = (if r = rid then a\<lparr>ca_write := False\<rparr> else a)"
| "api_completed rid (EvFinish env r) a = (if r = rid then a\<lparr>ca_done := True\<rparr> else a)"
| "api_completed rid _ a = a"

definition api_ok :: "string \<Rightarrow> proxy \<Rightarrow> call_api \<Rightarrow> bool" where
  "api_ok rid g a \<longleftrightarrow> om_wf (g_streams g) \<and> (\<forall>p \<in> set (g_pending_calls g). \<exists>t. snd p = new_ingress t)
     \<and> (case find_stream rid g of
          None \<Rightarrow> \<not> ca_read a \<and> \<not> ca_write a
        | Some s \<Rightarrow> ca_read a = ig_read_outstanding s \<and> ca_write a = ig_write_outstanding s \<and> ca_finish a = ig_finishing s
            \<and> (ig_finishing s \<longrightarrow> \<not> ig_read_outstanding s \<and> \<not> ig_write_outstanding s) \<and> (ig_dead s \<longrightarrow> ig_finishing s))"

lemma put_stream_wf [simp]: "om_wf (g_streams g) \<Longrightarrow> om_wf (g_streams (put_stream r s g))"
  by (simp add: put_stream_def)

lemma find_filtered:
  assumes "om_wf (g_streams g)"
  shows "find_stream r (g\<lparr>g_streams := filter P (g_streams g)\<rparr>) = (case find_stream r g of None \<Rightarrow> None | Some s \<Rightarrow> if P (r, s) then Some s else None)"
proof -
  have "distinct (map fst (g_streams g))" using assms om_wf_distinct by blast
  moreover have "map_of (filter P m) r = (case map_of m r of None \<Rightarrow> None | Some s \<Rightarrow> if P (r, s) then Some s else None)"
    if "distinct (map fst m)" for m :: "(string \<times> ingress_stream) list"
    using that
  proof (induction m)
    case (Cons q m)
    have "map_of (filter P m) (fst q) = None" using Cons.prems by (auto simp: map_of_eq_None_iff)
    then show ?case using Cons by (cases q) (auto split: option.split)
  qed simp
  ultimately show ?thesis by (simp add: find_stream_def)
qed

interpretation api: watched_proxy "api_ok rid" "api_run rid" "api_may rid" "api_completed rid" for rid
proof (unfold_locales, goal_cases)
  case (1 e a)
  then show ?case by (cases e) auto
next
  case (2 g a g')
  then show ?case by (simp add: api_ok_def find_stream_def)
next
  case (3 g a r s s')
  then show ?case by (auto simp: api_ok_def find_put_stream same_flow_def)
next
  case (4 g a r s s' eff)
  then show ?case by (auto simp: api_ok_def find_put_stream try_finish_def split: if_splits)
next
  case (5 g a r s now x s' eff stalled)
  then show ?case by (auto simp: api_ok_def find_put_stream queue_write_def Let_def split: if_splits)
next
  case (6 g a r s x xs)
  then show ?case by (auto simp: api_ok_def find_put_stream)
next
  case (7 g a r s)
  then show ?case by (auto simp: api_ok_def find_put_stream)
next
  case (8 g a P)
  have d: "ig_dead s" if "find_stream rid g = Some s" "\<not> P (rid, s)" for s
    using 8(2) [of "(rid, s)"] that by (simp add: find_stream_def map_of_SomeD)
  show ?case using 8(1) d by (auto simp: api_ok_def find_filtered split: option.split)
next
  case (9 g a n now)
  then show ?case by (auto simp: api_ok_def find_stream_def)
next
  case (10 g a Q)
  then show ?case by (auto simp: api_ok_def find_stream_def)
next
  case (11 g a n s)
  then have "(n, s) \<in> set (g_pending_calls g)" by (simp add: map_of_SomeD)
  with 11(1) show ?case by (fastforce simp: api_ok_def)
next
  case (12 env n b r m hs g0 a g t s)
  then show ?case by (auto simp: api_ok_def find_put_stream same_flow_def new_ingress_def api_idle_def)
next
  case (13 g a env r res s)
  then show ?case by (auto simp: api_ok_def find_put_stream)
next
  case (14 g a env r b s)
  then show ?case by (auto simp: api_ok_def find_put_stream)
next
  case (15 g a env r s t)
  then show ?case by (auto simp: api_ok_def find_put_stream)
next
  case (16 g a ev)
  then show ?case by (cases ev) (auto simp: api_ok_def split: option.splits)
next
  case (17 env n b r m hs a)
  show ?case by simp
qed

text \<open>A run of the proxy, watched for the call \<open>rid\<close>: the events that may happen, in any order.\<close>

inductive proxy_reach :: "string \<Rightarrow> proxy \<Rightarrow> call_api \<Rightarrow> bool" for rid where
  Start: "proxy_reach rid (new_proxy l) api_idle"
| Event: "proxy_reach rid g a \<Longrightarrow> api_may rid ev g a \<Longrightarrow> handle_event ev g = (g', eff)
    \<Longrightarrow> run_all (api_run rid) eff (api_completed rid ev a) = Some a' \<Longrightarrow> proxy_reach rid g' a'"

lemma reach_ok: "proxy_reach rid g a \<Longrightarrow> api_ok rid g a"
proof (induction rule: proxy_reach.induct)
  case (Start l)
  show ?case by (simp add: api_ok_def new_proxy_def find_stream_def api_idle_def)
next
  case (Event g a ev g' eff a')
  from api.event_keeps [OF Event.IH Event.hyps(2)] Event.hyps(3,4) show ?case by (simp add: keeps_at_def)
qed


definition sample_env :: genv where
  "sample_env = \<lparr>ge_now = 0, ge_ms = 0, ge_wsize = (\<lambda>_. 0), ge_tsend = (\<lambda>_. True), ge_hash = length, ge_create = True, ge_rs = [], ge_rs' = []\<rparr>"

lemma reach_sample:
  defines "l \<equiv> (new_leaf ''l'' [] 0 0)\<lparr>l_running := True\<rparr>"
  shows "\<exists>g. proxy_reach ''r'' g \<lparr>ca_read = True, ca_write = False, ca_finish = False, ca_done = False\<rparr>
     \<and> g_leaf g = l \<and> (\<exists>s. find_stream ''r'' g = Some s \<and> ig_phase s = 1)"
proof -
  let ?g = "(new_proxy l)\<lparr>g_pending_calls := [(0, new_ingress 0)], g_next_call := 1\<rparr>"
  have run: "l_running l" by (simp add: l_def)
  have "handle_event (EvPrime 0) (new_proxy l) = (?g, [GRequestCall 0])" using run by (simp add: prime_generic_call_def new_proxy_def)
  from proxy_reach.Event [OF proxy_reach.Start _ this] have 1: "proxy_reach ''r'' ?g api_idle" by simp
  obtain g' eff where e: "handle_event (EvCall sample_env 0 True ''r'' ''/p.S/M'' []) ?g = (g', eff)" by force
  have g': "g_leaf g' = l" "\<exists>s. find_stream ''r'' g' = Some s \<and> ig_phase s = 1" "eff = [GRequestCall 1, GRead ''r'']"
    using e run by (auto simp: on_call_arrived_def prime_generic_call_def generic_on_new_call_def then_op_def new_proxy_def)
  have "api_may ''r'' (EvCall sample_env 0 True ''r'' ''/p.S/M'' []) ?g api_idle" by (simp add: find_stream_def new_proxy_def)
  from proxy_reach.Event [OF 1 this e] g' show ?thesis by (auto simp: api_idle_def)
qed


subsection \<open>A call that never ends\<close>

text \<open>A finish is pending while messages wait: the next completed write does not take them out, because a finish is
  pending, and the finish is not started, because messages wait. No event leads out of this state.\<close>

definition withheld :: "string \<Rightarrow> proxy \<Rightarrow> bool" where
  "withheld rid g \<longleftrightarrow> om_wf (g_streams g) \<and> (\<forall>p \<in> set (g_pending_calls g). \<exists>t. snd p = new_ingress t)
     \<and> (\<exists>s. find_stream rid g = Some s \<and> ig_finish_pending s \<and> ig_write_queue s \<noteq> [] \<and> \<not> ig_finishing s \<and> \<not> ig_dead s)"

fun no_finish :: "string \<Rightarrow> proxy_effect \<Rightarrow> unit \<Rightarrow> unit option" where
  "no_finish rid (GFinish r st) a = (if r = rid then None else Some a)"
| "no_finish rid _ a = Some a"

text \<open>gRPC does not complete a finish that was not started, and request ids are not used twice.\<close>

fun unfinished :: "string \<Rightarrow> proxy_event \<Rightarrow> bool" where
  "unfinished rid (EvFinish env r) \<longleftrightarrow> r \<noteq> rid"
| "unfinished rid (EvCall env c b r m hs) \<longleftrightarrow> r \<noteq> rid"
| "unfinished rid _ \<longleftrightarrow> True"

interpretation wh: watched_proxy "\<lambda>g a. withheld rid g" "no_finish rid" "\<lambda>ev g a. unfinished rid ev" "\<lambda>ev a. a" for rid
proof (unfold_locales, goal_cases)
  case (1 e a)
  then show ?case by (cases e) auto
next
  case (2 g a g')
  then show ?case by (simp add: withheld_def find_stream_def)
next
  case (3 g a r s s')
  then show ?case by (auto simp: withheld_def find_put_stream same_flow_def)
next
  case (4 g a r s s' eff)
  then show ?case by (auto simp: withheld_def find_put_stream try_finish_def split: if_splits)
next
  case (5 g a r s now x s' eff stalled)
  then show ?case by (auto simp: withheld_def find_put_stream queue_write_def Let_def split: if_splits)
next
  case (6 g a r s x xs)
  then show ?case by (auto simp: withheld_def find_put_stream)
next
  case (7 g a r s)
  then show ?case by (auto simp: withheld_def find_put_stream)
next
  case (8 g a P)
  have d: "P (rid, s)" if "find_stream rid g = Some s" "\<not> ig_dead s" for s
    using 8(2) [of "(rid, s)"] that by (auto simp: find_stream_def map_of_SomeD)
  show ?case using 8(1) d by (auto simp: withheld_def find_filtered)
next
  case (9 g a n now)
  then show ?case by (auto simp: withheld_def find_stream_def)
next
  case (10 g a Q)
  then show ?case by (auto simp: withheld_def find_stream_def)
next
  case (11 g a n s)
  then have "(n, s) \<in> set (g_pending_calls g)" by (simp add: map_of_SomeD)
  with 11(1) show ?case by (fastforce simp: withheld_def)
next
  case (12 env n b r m hs g0 a g t s)
  then show ?case by (auto simp: withheld_def find_put_stream)
next
  case (13 g a env r res s)
  then show ?case by (auto simp: withheld_def find_put_stream)
next
  case (14 g a env r b s)
  then show ?case by (auto simp: withheld_def find_put_stream)
next
  case (15 g a env r s t)
  then show ?case by (auto simp: withheld_def find_put_stream)
qed simp_all

lemma run_no_finish: "run_all (no_finish rid) es () = Some () \<Longrightarrow> GFinish rid st \<notin> set es"
  by (induction es) (auto split: option.splits)

lemma never_finishes:
  assumes "withheld rid g" "\<forall>ev \<in> set evs. unfinished rid ev"
  shows "withheld rid (fst (each_op handle_event evs g)) \<and> GFinish rid st \<notin> set (snd (each_op handle_event evs g))"
  using assms
proof (induction evs arbitrary: g)
  case (Cons ev evs)
  have "withheld rid (fst (handle_event ev g)) \<and> GFinish rid st \<notin> set (snd (handle_event ev g))"
    using wh.event_keeps [of rid g ev "()"] Cons.prems run_no_finish [of rid] by (auto simp: keeps_at_def)
  with Cons.IH [of "fst (handle_event ev g)"] Cons.prems(2) show ?case by (auto simp: then_op_def case_prod_beta)
qed (simp add: skip_op_def)

text \<open>It takes a backend that sends a message while another is being written, and then ends its call.\<close>

lemma withheld_arises:
  assumes "api_ok rid g a" "find_stream rid g = Some s" "\<not> ig_dead s" "\<not> ig_finishing s" "ig_write_outstanding s" "ig_write_queue s = []"
    and "ingress_backend_message env rid x g = (g1, eff1)" "ingress_backend_closed env rid st g1 = (g2, eff2)"
  shows "withheld rid g2"
  using assms
  by (auto simp: ingress_backend_message_def then_op_def on_stream_def ingress_queue_write_def queue_write_def kMaxIngressWriteQueue_def
      ingress_backend_closed_def backend_closed_def ingress_try_finish_def try_finish_def withheld_def api_ok_def find_put_stream)
    (metis snd_conv)+

subsection \<open>Messages in order\<close>

text \<open>A pipe is fed with messages and is told when the write it has started is complete.\<close>

datatype pipe_op = PutMessage genv bytes | WriteDone genv

definition outputs :: "(proxy_effect \<Rightarrow> bytes option) \<Rightarrow> proxy_effect list \<Rightarrow> bytes list" where
  "outputs out es = concat (map (\<lambda>e. case out e of None \<Rightarrow> [] | Some x \<Rightarrow> [x]) es)"

lemma outputs_simps [simp]:
  "outputs out [] = []"
  "outputs out (e # es) = (case out e of None \<Rightarrow> outputs out es | Some x \<Rightarrow> x # outputs out es)"
  "outputs out (es @ es') = outputs out es @ outputs out es'"
  by (simp_all add: outputs_def split: option.split)

primrec fed :: "pipe_op list \<Rightarrow> bytes list" where
  "fed [] = []"
| "fed (op # ops) = (case op of PutMessage env x \<Rightarrow> x # fed ops | WriteDone env \<Rightarrow> fed ops)"

primrec pipe_run :: "(genv \<Rightarrow> bytes \<Rightarrow> proxy_op) \<Rightarrow> (genv \<Rightarrow> proxy_op) \<Rightarrow> pipe_op list \<Rightarrow> proxy_op" where
  "pipe_run put written [] = skip_op"
| "pipe_run put written (op # ops) =
     then_op (case op of PutMessage env x \<Rightarrow> put env x | WriteDone env \<Rightarrow> written env) (pipe_run put written ops)"

text \<open>Each message finds less than \<open>room\<close> messages waiting.\<close>

primrec pipe_fits :: "(proxy \<Rightarrow> bytes list) \<Rightarrow> nat \<Rightarrow> (genv \<Rightarrow> bytes \<Rightarrow> proxy_op) \<Rightarrow> (genv \<Rightarrow> proxy_op) \<Rightarrow> pipe_op list \<Rightarrow> proxy \<Rightarrow> bool" where
  "pipe_fits waiting room put written [] g \<longleftrightarrow> True"
| "pipe_fits waiting room put written (op # ops) g \<longleftrightarrow>
     (case op of
        PutMessage env x \<Rightarrow> length (waiting g) < room \<and> pipe_fits waiting room put written ops (fst (put env x g))
      | WriteDone env \<Rightarrow> pipe_fits waiting room put written ops (fst (written env g)))"

locale message_pipe =
  fixes inv' :: "proxy \<Rightarrow> bool" and waiting :: "proxy \<Rightarrow> bytes list" and room :: nat
    and put :: "genv \<Rightarrow> bytes \<Rightarrow> proxy_op" and written :: "genv \<Rightarrow> proxy_op" and out :: "proxy_effect \<Rightarrow> bytes option"
  assumes put_law: "inv' g \<Longrightarrow> length (waiting g) < room \<Longrightarrow> put env x g = (g', eff)
      \<Longrightarrow> inv' g' \<and> outputs out eff @ waiting g' = waiting g @ [x]"
    and written_law: "inv' g \<Longrightarrow> written env g = (g', eff) \<Longrightarrow> inv' g' \<and> outputs out eff @ waiting g' = waiting g"
begin

lemma pipe_fifo:
  assumes "inv' g" "pipe_fits waiting room put written ops g" "pipe_run put written ops g = (g', eff)"
  shows "inv' g' \<and> outputs out eff @ waiting g' = waiting g @ fed ops"
  using assms
proof (induction ops arbitrary: g eff)
  case (Cons op ops)
  obtain g1 eff1 eff2 where run: "(case op of PutMessage env x \<Rightarrow> put env x | WriteDone env \<Rightarrow> written env) g = (g1, eff1)"
      "pipe_run put written ops g1 = (g', eff2)" "eff = eff1 @ eff2"
    using Cons.prems(3) by (auto simp: then_op_def split: prod.splits)
  have step: "inv' g1 \<and> outputs out eff1 @ waiting g1 = waiting g @ fed [op]" "pipe_fits waiting room put written ops g1"
    using put_law [OF Cons.prems(1)] written_law [OF Cons.prems(1)] run(1) Cons.prems(2) by (auto split: pipe_op.splits)
  have "outputs out eff @ waiting g' = (outputs out eff1 @ waiting g1) @ fed ops"
    using Cons.IH [OF conjunct1 [OF step(1)] step(2) run(2)] run(3) by simp
  moreover have "fed (op # ops) = fed [op] @ fed ops" by (simp split: pipe_op.split)
  ultimately show ?case using Cons.IH [OF conjunct1 [OF step(1)] step(2) run(2)] step(1) by simp
qed (simp add: skip_op_def)

end

text \<open>From the backend to the client: the call is open, and without a write outstanding nothing waits.\<close>

fun client_writes :: "string \<Rightarrow> proxy_effect \<Rightarrow> bytes option" where
  "client_writes rid (GWrite r x) = (if r = rid then Some x else None)"
| "client_writes rid _ = None"

definition to_client_open :: "string \<Rightarrow> proxy \<Rightarrow> bool" where
  "to_client_open rid g \<longleftrightarrow> (case find_stream rid g of None \<Rightarrow> False
     | Some s \<Rightarrow> \<not> ig_dead s \<and> \<not> ig_finishing s \<and> \<not> ig_finish_pending s \<and> (\<not> ig_write_outstanding s \<longrightarrow> ig_write_queue s = []))"

definition client_waiting :: "string \<Rightarrow> proxy \<Rightarrow> bytes list" where
  "client_waiting rid g = (case find_stream rid g of None \<Rightarrow> [] | Some s \<Rightarrow> ig_write_queue s)"

interpretation to_client: message_pipe "to_client_open rid" "client_waiting rid" kMaxIngressWriteQueue
  "\<lambda>env x. ingress_backend_message env rid x" "\<lambda>env. generic_on_write env rid True" "client_writes rid" for rid
proof (unfold_locales, goal_cases)
  case (1 g env x g' eff)
  then show ?case
    by (auto simp: to_client_open_def client_waiting_def ingress_backend_message_def then_op_def on_stream_def ingress_queue_write_def
        queue_write_def Let_def not_le split: option.splits if_splits)
next
  case (2 g env g' eff)
  then show ?case
    by (auto simp: to_client_open_def client_waiting_def generic_on_write_def Let_def split: option.splits if_splits)
qed

text \<open>From the client to a backend of this leaf: the call is in stream mode, the backend's call has started.\<close>

fun backend_writes :: "nat \<Rightarrow> proxy_effect \<Rightarrow> bytes option" where
  "backend_writes b (GBackendWrite c x) = (if c = b then Some x else None)"
| "backend_writes b _ = None"

definition to_backend_open :: "string \<Rightarrow> nat \<Rightarrow> proxy \<Rightarrow> bool" where
  "to_backend_open rid b g \<longleftrightarrow> (case find_stream rid g of None \<Rightarrow> False
     | Some s \<Rightarrow> ig_phase s = 3 \<and> \<not> ig_dead s \<and> \<not> ig_finishing s \<and> \<not> ig_finish_pending s \<and> \<not> ig_read_stopped s \<and> \<not> ig_remote s)
     \<and> map_of (g_registry g) rid = Some b
     \<and> (case map_of (g_backends g) b of None \<Rightarrow> False
        | Some bs \<Rightarrow> bk_started bs \<and> \<not> bk_finished bs \<and> \<not> bk_half_close_requested bs \<and> (\<not> bk_write_outstanding bs \<longrightarrow> bk_write_queue bs = []))"

definition backend_waiting :: "nat \<Rightarrow> proxy \<Rightarrow> bytes list" where
  "backend_waiting b g = (case map_of (g_backends g) b of None \<Rightarrow> [] | Some bs \<Rightarrow> bk_write_queue bs)"

definition backend_open :: "backend_stream \<Rightarrow> bool" where
  "backend_open bs \<longleftrightarrow> bk_started bs \<and> \<not> bk_finished bs \<and> \<not> bk_half_close_requested bs \<and> (\<not> bk_write_outstanding bs \<longrightarrow> bk_write_queue bs = [])"

lemma client_message_order:
  assumes "backend_open bs" "length (bk_write_queue bs) < kMaxBackendWriteQueue" "client_message b x bs = (bs', eff)"
  shows "backend_open bs' \<and> outputs (backend_writes b) eff @ bk_write_queue bs' = bk_write_queue bs @ [x]"
  using assms by (cases "bk_write_outstanding bs") (auto simp: backend_open_def client_message_def drive_writes_def)

lemma drive_writes_order:
  assumes "backend_open bs" "drive_writes b (bs\<lparr>bk_write_outstanding := False\<rparr>) = (bs', eff)"
  shows "backend_open bs' \<and> outputs (backend_writes b) eff @ bk_write_queue bs' = bk_write_queue bs"
  using assms by (cases "bk_write_queue bs") (auto simp: backend_open_def drive_writes_def)

lemma to_backend_openE:
  assumes "to_backend_open rid b g"
  obtains s bs where "find_stream rid g = Some s" "ig_phase s = 3" "\<not> ig_dead s" "\<not> ig_finishing s" "\<not> ig_finish_pending s"
    "\<not> ig_read_stopped s" "\<not> ig_remote s" "map_of (g_registry g) rid = Some b" "map_of (g_backends g) b = Some bs" "backend_open bs"
  using assms by (auto simp: to_backend_open_def backend_open_def split: option.splits)

lemma read_forwarded:
  assumes "to_backend_open rid b g" "map_of (g_backends g) b = Some bs"
  shows "\<exists>s'. ig_phase s' = 3 \<and> \<not> ig_dead s' \<and> \<not> ig_finishing s' \<and> \<not> ig_finish_pending s' \<and> \<not> ig_read_stopped s' \<and> \<not> ig_remote s'
     \<and> generic_on_read env rid (Some x) g = (case client_message b x bs of (bs', eff) \<Rightarrow> (put_backend b bs' (put_stream rid s' g), GRead rid # eff))"
proof -
  obtain s bs1 where s: "find_stream rid g = Some s" "ig_phase s = 3" "\<not> ig_dead s" "\<not> ig_finishing s" "\<not> ig_finish_pending s"
    "\<not> ig_read_stopped s" "\<not> ig_remote s" "map_of (g_registry g) rid = Some b" using to_backend_openE [OF assms(1)] by metis
  let ?s = "s\<lparr>ig_last_activity := ge_now env, ig_read_outstanding := False, ig_read_outstanding := True\<rparr>"
  let ?s' = "?s\<lparr>ig_last_activity := ge_now env\<rparr>"
  have "ingress_forward_frame env rid x False (put_stream rid ?s g)
      = (case client_message b x bs of (bs', eff) \<Rightarrow> (put_backend b bs' (put_stream rid ?s' g), eff))"
    using s assms(2) by (simp add: ingress_forward_frame_def on_backend_def)
  then have "generic_on_read env rid (Some x) g = (case client_message b x bs of (bs', eff) \<Rightarrow> (put_backend b bs' (put_stream rid ?s' g), GRead rid # eff))"
    using s by (simp add: generic_on_read_def then_op_def case_prod_beta)
  with s show ?thesis by (intro exI [of _ ?s']) simp
qed

interpretation to_backend: message_pipe "to_backend_open rid b" "backend_waiting b" kMaxBackendWriteQueue
  "\<lambda>env x. generic_on_read env rid (Some x)" "\<lambda>env. backend_on_write b" "backend_writes b" for rid b
proof (unfold_locales, goal_cases)
  case (1 g env x g' eff)
  obtain s bs where s: "map_of (g_registry g) rid = Some b" "map_of (g_backends g) b = Some bs" "backend_open bs" using to_backend_openE [OF 1(1)] by metis
  obtain bs' eff' where m: "client_message b x bs = (bs', eff')" by force
  have "length (bk_write_queue bs) < kMaxBackendWriteQueue" using 1(2) s(2) by (simp add: backend_waiting_def)
  note o = client_message_order [OF s(3) this m]
  obtain s' where s': "ig_phase s' = 3" "\<not> ig_dead s'" "\<not> ig_finishing s'" "\<not> ig_finish_pending s'" "\<not> ig_read_stopped s'" "\<not> ig_remote s'"
      "g' = put_backend b bs' (put_stream rid s' g)" "eff = GRead rid # eff'"
    using read_forwarded [OF 1(1) s(2), of env x] 1(3) m by auto
  have f: "find_stream rid g' = Some s'" "map_of (g_registry g') rid = Some b" "map_of (g_backends g') b = Some bs'"
    using s(1) s'(7) by (simp_all add: put_backend_def put_stream_def find_stream_def om_set_lookup)
  then show ?case using o s' s(2) by (simp add: to_backend_open_def backend_open_def backend_waiting_def)
next
  case (2 g env g' eff)
  obtain s bs where s: "find_stream rid g = Some s" "ig_phase s = 3" "\<not> ig_dead s" "\<not> ig_finishing s" "\<not> ig_finish_pending s"
    "\<not> ig_read_stopped s" "\<not> ig_remote s" "map_of (g_registry g) rid = Some b" "map_of (g_backends g) b = Some bs" "backend_open bs"
    using to_backend_openE [OF 2(1)] by metis
  obtain bs' eff' where m: "drive_writes b (bs\<lparr>bk_write_outstanding := False\<rparr>) = (bs', eff')" by force
  then have g': "g' = put_backend b bs' g" "eff = eff'" using 2(2) s(9) by (simp_all add: backend_on_write_def on_backend_def)
  then show ?case using drive_writes_order [OF s(10) m] s
    by (simp add: to_backend_open_def backend_open_def backend_waiting_def put_backend_def find_stream_def om_set_lookup)
qed



text \<open>C10. A backend of this leaf receives the client's messages in order and exactly once: while the stream is open and
  the backend keeps up, for every interleaving of the client's messages with completed writes, what has been
  written to the backend followed by what still waits is what waited before followed by the messages.\<close>

theorem stream_forwards_in_order:
  assumes "to_backend_open rid b g" "pipe_run (\<lambda>env x. generic_on_read env rid (Some x)) (\<lambda>env. backend_on_write b) ops g = (g', eff)"
    and "pipe_fits (backend_waiting b) kMaxBackendWriteQueue (\<lambda>env x. generic_on_read env rid (Some x)) (\<lambda>env. backend_on_write b) ops g"
  shows "outputs (backend_writes b) eff @ backend_waiting b g' = backend_waiting b g @ fed ops \<and> to_backend_open rid b g'"
  using to_backend.pipe_fifo [OF assms(1,3,2)] by simp

theorem stream_forwards_in_order_witness:
  "\<exists>g. case pipe_run (\<lambda>env x. generic_on_read env ''r'' (Some x)) (\<lambda>env. backend_on_write 0) [PutMessage sample_env [1], PutMessage sample_env [], WriteDone sample_env] g of
         (g', eff) \<Rightarrow> outputs (backend_writes 0) eff @ backend_waiting 0 g' = [[1], []]"
proof -
  let ?ops = "[PutMessage sample_env [1], PutMessage sample_env [], WriteDone sample_env]"
  let ?put = "\<lambda>env x. generic_on_read env ''r'' (Some x)" and ?written = "\<lambda>env. backend_on_write 0"
  define g where "g = (put_stream ''r'' ((new_ingress 0)\<lparr>ig_phase := 3\<rparr>) (new_proxy (new_leaf ''l'' [] 0 0)))
    \<lparr>g_registry := [(''r'', 0)], g_backends := [(0, (new_backend ''r'' (ToIngress ''r''))\<lparr>bk_started := True\<rparr>)]\<rparr>"
  have f: "find_stream ''r'' g = Some ((new_ingress 0)\<lparr>ig_phase := 3\<rparr>)" by (simp add: g_def find_stream_def put_stream_def om_set_lookup)
  have o: "to_backend_open ''r'' 0 g" "backend_waiting 0 g = []"
    using f by (simp_all add: to_backend_open_def backend_waiting_def new_ingress_def) (simp_all add: g_def new_backend_def)
  obtain g1 eff1 where 1: "?put sample_env [1] g = (g1, eff1)" by force
  have r: "(0::nat) < kMaxBackendWriteQueue" "Suc 0 < kMaxBackendWriteQueue" by (simp_all add: kMaxBackendWriteQueue_def)
  have w1: "to_backend_open ''r'' 0 g1 \<and> outputs (backend_writes 0) eff1 @ backend_waiting 0 g1 = [[1]]"
    using to_backend.put_law [OF o(1) _ 1] o(2) r by simp
  then have "length (outputs (backend_writes 0) eff1 @ backend_waiting 0 g1) = length [[1::u8]]" by (simp only:)
  then have "length (backend_waiting 0 g1) \<le> 1" unfolding length_append by simp
  then have fits: "pipe_fits (backend_waiting 0) kMaxBackendWriteQueue ?put ?written ?ops g" using o(2) r 1 by simp
  obtain g' eff where "pipe_run ?put ?written ?ops g = (g', eff)" by force
  from stream_forwards_in_order [OF o(1) this fits] o(2) this show ?thesis by (intro exI [of _ g]) simp
qed

text \<open>An empty message is a message, but the frame that carries it to or from another leaf is dropped there.\<close>

lemma empty_frame_lost:
  assumes "sf_payload fr = []" "\<not> sf_half_close fr"
    and "if sf_from_origin fr then map_of (g_registry g) (sf_request_id fr) = Some b else find_stream (sf_request_id fr) g \<noteq> None"
  shows "process_stream_frame env fr g = (g, [])"
  using assms by (simp add: process_stream_frame_def split: if_splits)

text \<open>Nothing the proxy does with the end of a backend's call reaches the breaker that admitted the call.\<close>

lemma teardown_leaf [simp]: "g_leaf (fst (ingress_teardown env r st g)) = g_leaf g"
  by (simp add: ingress_teardown_def then_op_def emit_def close_op_def skip_op_def ingress_try_finish_def on_stream_def Let_def case_prod_beta split: option.split)

lemma outcome_unreported: "l_breaker (g_leaf (fst (backend_on_finish env b st g))) = l_breaker (g_leaf g)"
  by (auto simp: backend_on_finish_def then_op_def backend_stream_finished_def backend_close_def close_op_def ingress_backend_closed_def
      ingress_try_finish_def on_stream_def put_backend_def case_prod_beta split: option.split backend_target.split)

text \<open>A call takes the time of its slot's creation for its last activity: one that arrives two minutes after the
  previous call is an idle one for the next sweep, unless its first message is there before.\<close>

lemma late_call_idle:
  assumes "map_of (g_pending_calls g) c = Some (new_ingress t)" "l_running (g_leaf g)" "kStreamIdleTimeout < ge_now env' - t"
  shows "\<exists>s. find_stream rid (fst (on_call_arrived env c True rid m hs g)) = Some s \<and> swept_idle (ge_now env') (\<lambda>_. False) (rid, s)"
  using assms by (auto simp: on_call_arrived_def prime_generic_call_def then_op_def generic_on_new_call_def swept_idle_def new_ingress_def)

subsection \<open>Streams without a backend\<close>

lemma teardown_other: "rid \<noteq> r \<Longrightarrow> find_stream rid (fst (ingress_teardown env r st g)) = find_stream rid g"
  by (simp add: ingress_teardown_def then_op_def emit_def close_op_def skip_op_def ingress_try_finish_def on_stream_def Let_def case_prod_beta
      find_put_stream split: option.split)

lemma teardowns_other: "rid \<notin> f ` set xs \<Longrightarrow> find_stream rid (fst (each_op (\<lambda>x. ingress_teardown env (f x) st) xs g)) = find_stream rid g"
  by (induction xs arbitrary: g) (simp_all add: skip_op_def then_op_def case_prod_beta teardown_other)

text \<open>The state and the effects a teardown leaves for a stream that is not at its end.\<close>

definition torn_down :: "string \<Rightarrow> grpc_status \<Rightarrow> ingress_stream \<Rightarrow> proxy \<Rightarrow> proxy_effect list \<Rightarrow> bool" where
  "torn_down rid st s g' eff \<longleftrightarrow> (\<exists>s'. find_stream rid g' = Some s' \<and> ig_finish_status s' = st \<and> ig_read_stopped s'
     \<and> (if ig_write_outstanding s \<or> ig_write_queue s \<noteq> [] \<or> ig_read_outstanding s then ig_finish_pending s' \<and> \<not> ig_finishing s'
        else ig_finishing s' \<and> GFinish rid st \<in> set eff))"

lemma teardown_tears:
  assumes "find_stream rid g = Some s" "\<not> ig_dead s" "\<not> ig_finishing s" "ingress_teardown env rid st g = (g', eff)"
  shows "torn_down rid st s g' eff"
  using assms
  by (auto simp: ingress_teardown_def then_op_def emit_def close_op_def skip_op_def ingress_try_finish_def on_stream_def try_finish_def
      torn_down_def Let_def split: if_splits option.splits)

lemma each_append: "each_op f (xs @ ys) g = then_op (each_op f xs) (each_op f ys) g"
  by (induction xs arbitrary: g) (simp_all add: then_op_def skip_op_def case_prod_beta)

lemma teardowns_tear:
  assumes "distinct (map fst xs)" "(rid, s) \<in> set xs" "find_stream rid g = Some s" "\<not> ig_dead s" "\<not> ig_finishing s"
    and "each_op (\<lambda>x. ingress_teardown env (fst x) st) xs g = (g', eff)"
  shows "torn_down rid st s g' eff"
proof -
  let ?f = "\<lambda>x. ingress_teardown env (fst x) st"
  obtain ys zs where xs: "xs = ys @ (rid, s) # zs" using split_list [OF assms(2)] by blast
  obtain g1 eff1 where 1: "each_op ?f ys g = (g1, eff1)" by force
  obtain g2 eff2 where 2: "ingress_teardown env rid st g1 = (g2, eff2)" by force
  obtain eff3 where 3: "each_op ?f zs g2 = (g', eff3)" "eff = eff1 @ eff2 @ eff3"
    using assms(6) 1 2 by (auto simp: xs each_append then_op_def split: prod.splits)
  have notin: "rid \<notin> fst ` set ys" "rid \<notin> fst ` set zs" using assms(1) by (auto simp: xs)
  have "find_stream rid g1 = Some s" using teardowns_other [OF notin(1), of env st g] 1 assms(3) by simp
  from teardown_tears [OF this assms(4,5) 2] show ?thesis
    using teardowns_other [OF notin(2), of env st g2] 3 by (auto simp: torn_down_def split: if_splits)
qed

text \<open>A stream whose open was lost does not hang: when a stream has been open for more than fifteen seconds without
  a message or a close from the backend's side, the next sweep that can take its lock fails it with the status
  UNAVAILABLE; its call is finished at once if nothing is outstanding, and otherwise no further message is read
  and the finish is pending.\<close>

theorem sweep_fails_unopened:
  assumes "om_wf (g_streams g)" "find_stream rid g = Some s" "swept_unopened (ge_now env) busy (rid, s)" "stream_sweep env busy g = (g', eff)"
  shows "torn_down rid (unavailable ''stream_open_timeout'') s g' eff"
proof -
  let ?now = "ge_now env"
  let ?victims = "filter (swept_idle ?now busy) (g_streams g)" and ?unopened = "filter (swept_unopened ?now busy) (g_streams g)"
  let ?g = "g\<lparr>g_streams := filter (\<lambda>rs. \<not> swept_dead ?now busy rs) (g_streams g)\<rparr>"
  let ?h = "?g\<lparr>g_unknown_stream_replies := filter (\<lambda>rt. \<not> sec 60 < ?now - snd rt) (g_unknown_stream_replies g)\<rparr>"
  have alive: "\<not> ig_dead s" "\<not> ig_finishing s" "\<not> swept_idle ?now busy (rid, s)" "\<not> swept_dead ?now busy (rid, s)"
    using assms(3) by (auto simp: swept_unopened_def swept_idle_def swept_dead_def)
  have mem: "(rid, s) \<in> set (g_streams g)" using assms(2) by (simp add: find_stream_def map_of_SomeD)
  have dist: "distinct (map fst (g_streams g))" using assms(1) om_wf_distinct by blast
  have "find_stream rid ?g = Some s" using find_filtered [OF assms(1), of rid] assms(2) alive(4) by simp
  then have h: "find_stream rid ?h = Some s" by (simp add: find_stream_def)
  obtain g1 eff1 where 1: "each_op (\<lambda>rs. ingress_teardown env (fst rs) \<lparr>gs_code = 1, gs_message = ''stream_cancelled_or_idle''\<rparr>) ?victims ?h = (g1, eff1)" by force
  obtain eff2 where 2: "each_op (\<lambda>rs. ingress_teardown env (fst rs) (unavailable ''stream_open_timeout'')) ?unopened g1 = (g', eff2)" "eff = eff1 @ eff2"
    using assms(4) 1 by (auto simp: stream_sweep_def Let_def then_op_def unavailable_def split: prod.splits)
  have "rid \<notin> fst ` set ?victims"
  proof
    assume "rid \<in> fst ` set ?victims"
    then obtain s' where "(rid, s') \<in> set (g_streams g)" "swept_idle ?now busy (rid, s')" by auto
    then show False using alive(3) eq_key_imp_eq_value [OF dist mem] by blast
  qed
  then have "find_stream rid g1 = Some s" using teardowns_other [of rid fst ?victims env _ ?h] 1 h by (metis fst_conv)
  from teardowns_tear [OF distinct_map_filter [OF dist] _ this alive(1,2) 2(1)] assms(3) mem
  show ?thesis using 2(2) by (auto simp: torn_down_def split: if_splits)
qed

theorem sweep_fails_unopened_witness:
  "\<exists>g s. find_stream ''r'' g = Some s \<and> (case stream_sweep (sample_env\<lparr>ge_now := sec 20\<rparr>) (\<lambda>_. False) g of
     (g', eff) \<Rightarrow> GFinish ''r'' (unavailable ''stream_open_timeout'') \<in> set eff)"
proof -
  define s where "s = (new_ingress (sec 1))\<lparr>ig_phase := 3, ig_remote := True, ig_open_sent_at := sec 1\<rparr>"
  define g where "g = put_stream ''r'' s (new_proxy (new_leaf ''l'' [] 0 0))"
  have g: "om_wf (g_streams g)" "find_stream ''r'' g = Some s" by (simp_all add: g_def put_stream_def new_proxy_def find_stream_def)
  have sw: "swept_unopened (ge_now (sample_env\<lparr>ge_now := sec 20\<rparr>)) (\<lambda>_. False) (''r'', s)"
    by (simp add: swept_unopened_def s_def new_ingress_def kStreamIdleTimeout_def kStreamOpenTimeout_def sec_def)
  obtain g' eff where r: "stream_sweep (sample_env\<lparr>ge_now := sec 20\<rparr>) (\<lambda>_. False) g = (g', eff)" by force
  have "\<not> ig_write_outstanding s \<and> ig_write_queue s = [] \<and> \<not> ig_read_outstanding s" by (simp add: s_def new_ingress_def)
  with sweep_fails_unopened [OF g sw r] have "GFinish ''r'' (unavailable ''stream_open_timeout'') \<in> set eff" by (auto simp: torn_down_def)
  with g(2) r show ?thesis by auto
qed

subsection \<open>A message across the mesh\<close>

lemma relay_frame:
  assumes "adjacent mesh a b" "sf_destination_node fr = n_id b" "sf_hop_limit fr \<noteq> 0" "map_of (n_leaves b) (sf_destination_leaf fr) \<noteq> None"
  shows "relay ws mesh (n_id a) (WStreamFrame fr) = Some (sf_destination_leaf fr, WStreamFrame (fr\<lparr>sf_hop_limit := sf_hop_limit fr - 1\<rparr>))"
proof -
  note L = adjacentD [OF assms(1)]
  let ?fwd = "fr\<lparr>sf_hop_limit := sf_hop_limit fr - 1\<rparr>"
  have leaves: "map_of (n_leaves (touch_leaf 0 [] n)) l = None \<longleftrightarrow> map_of (n_leaves n) l = None" if "om_wf (n_leaves n)" for n l
    using touch_leaf_leaves [OF that] by auto
  have "sends (snd (node_on_message ws 0 0 [] (Some (WStreamFrame fr)) 0 a)) = [(n_id b, WStreamFrame ?fwd)]"
    using L assms(2,3) by (simp add: node_on_message_def handle_stream_frame_def Let_def route_stream_frame_locked_def)
  from relay_step [OF _ _ _ this, of mesh "n_id a"] have 1: "relay ws mesh (n_id a) (WStreamFrame fr) = relay ws mesh (n_id b) (WStreamFrame ?fwd)"
    using L by simp
  have "sends (snd (node_on_message ws 0 0 [] (Some (WStreamFrame ?fwd)) 0 b)) = [(sf_destination_leaf fr, WStreamFrame ?fwd)]"
    using L assms(2,4) leaves [OF L(4), of "sf_destination_leaf fr"]
    by (auto simp: node_on_message_def handle_stream_frame_def Let_def route_stream_frame_locked_def split: option.split)
  from relay_step [OF _ _ _ this, of mesh "n_id b"] show ?thesis using L assms(4) 1 by simp
qed

lemma frame_reaches_backend:
  assumes "l_stream_queue (g_leaf g) = new_fifo 1024" "p \<in> set (l_parent_ids (g_leaf g))" "sf_from_origin fr" "\<not> sf_half_close fr" "sf_payload fr \<noteq> []"
    and "map_of (g_registry g) (sf_request_id fr) = Some b" "map_of (g_backends g) b = Some bs" "backend_open bs" "\<not> bk_write_outstanding bs"
    and "leaf_on_message ws tsend ms p (Some (WStreamFrame fr)) raw (g_leaf g) = (l, eff)" "stream_worker_round env (g\<lparr>g_leaf := l\<rparr>) = (g', eff')"
  shows "GBackendWrite b (sf_payload fr) \<in> set eff'"
proof -
  let ?l = "(g_leaf g)\<lparr>l_stream_queue := (new_fifo 1024)\<lparr>fq_items := [WStreamFrame fr]\<rparr>\<rparr>"
  have "l = ?l" using assms(1,2,10) by (auto simp: leaf_on_message_def enqueue_stream_def fifo_try_push_def new_fifo_def)
  then have "process_stream_frame env fr (g\<lparr>g_leaf := ?l\<lparr>l_stream_queue := new_fifo 1024\<rparr>\<rparr>) = (g', eff')"
    using assms(11) by (simp add: stream_worker_round_def fifo_poll_def new_fifo_def)
  then show ?thesis using assms(3-9)
    by (auto simp: process_stream_frame_def on_backend_def client_message_def drive_writes_def backend_open_def kMaxBackendWriteQueue_def
        split: prod.splits)
qed



end
