(* ===== verification/Http.thy ===== *)
theory Http
  imports Metrics
begin

text \<open>
  The two HTTP servers: the JSON-RPC entry (\<open>src/json_rpc.cpp\<close>) and the metrics server at the end of
  \<open>src/metrics.cpp\<close>. A connection is the list of the pieces in which the client's bytes become available;
  \<open>recv\<close> returns at most the bytes asked for of the first piece, and none when the list is empty: the client
  has closed. What the server hands to \<open>send\<close> is the result; how much of it the socket takes is an argument
  where the code looks at it. The handler of the calls is an argument, \<open>None\<close> its exception. Opening sockets
  and the accept loop, which serves one connection after the other, are not modelled.

  The lemmas show that the answer does not depend on the pieces as long as the headers fit (interface
  \<open>head_reader\<close>), that a request is read as it was written, and that the metrics server sends all it has.
\<close>

section \<open>Strings of the standard library\<close>

text \<open>\<open>std::string::find\<close> from the start; \<open>None\<close> is \<open>npos\<close>.\<close>

fun find_str :: "string \<Rightarrow> string \<Rightarrow> nat option" where
  "find_str p [] = (if p = [] then Some 0 else None)"
| "find_str p (c # s) = (if prefix p (c # s) then Some 0 else map_option Suc (find_str p s))"

definition crlf :: string where "crlf = [CHR 0x0D, CHR 0x0A]"

definition kHeaderTerminator :: string where "kHeaderTerminator = [CHR 0x0D, CHR 0x0A, CHR 0x0D, CHR 0x0A]"

definition lower_char :: "char \<Rightarrow> char" where
  "lower_char c = (if 65 \<le> (of_char c :: nat) \<and> (of_char c :: nat) \<le> 90 then char_of (of_char c + 32 :: nat) else c)"

definition to_lower :: "string \<Rightarrow> string" where "to_lower s = map lower_char s"

definition trim :: "string \<Rightarrow> string" where
  "trim s = rev (dropWhile (\<lambda>c. c \<in> {CHR '' '', CHR 0x09, CHR 0x0D}) (rev (dropWhile (\<lambda>c. c \<in> {CHR '' '', CHR 0x09}) s)))"

text \<open>A C string ends at the first zero.\<close>

definition c_str :: "string \<Rightarrow> string" where "c_str s = takeWhile (\<lambda>c. c \<noteq> CHR 0x00) s"

text \<open>\<open>std::strtoull (s, &endp, 10)\<close>: the value and what \<open>endp\<close> points to. A minus negates modulo 2^64, a
  value that does not fit gives the largest one, and without a digit nothing is consumed.\<close>

definition strtoull :: "string \<Rightarrow> nat \<times> string" where
  "strtoull s =
     (case sign_of (dropWhile is_space s) of (neg, r) \<Rightarrow>
        let ds = takeWhile is_digit r; v = dec_value ds in
        if ds = [] then (0, s)
        else (if 2 ^ 64 \<le> v then 2 ^ 64 - 1 else if neg then (2 ^ 64 - v) mod 2 ^ 64 else v, dropWhile is_digit r))"

text \<open>\<open>std::strtol (s, &endp, 16)\<close> for the two characters after a percent sign.\<close>

definition strtol16 :: "string \<Rightarrow> int \<times> string" where
  "strtol16 s =
     (case sign_of (dropWhile is_space s) of (neg, r) \<Rightarrow>
        let r = hex_prefix r; ds = takeWhile is_xdigit r; v = int (hex_value ds) in
        if ds = [] then (0, s) else (if neg then - v else v, dropWhile is_xdigit r))"

section \<open>Sockets\<close>

definition sock_recv :: "nat \<Rightarrow> string list \<Rightarrow> string \<times> string list" where
  "sock_recv n conn = (case conn of [] \<Rightarrow> ([], []) | s # r \<Rightarrow> (take n s, if drop n s = [] then r else drop n s # r))"

lemma sock_recv_conn: "sock_recv n conn = (x, conn') \<Longrightarrow> x @ concat conn' = concat conn"
  by (auto simp: sock_recv_def append_eq_conv_conj split: list.splits if_splits)

lemma sock_recv_less [termination_simp]:
  "(x, conn') = sock_recv n conn \<Longrightarrow> x \<noteq> [] \<Longrightarrow> length (concat conn') < length (concat conn)"
  by (drule sym, drule sock_recv_conn) (metis add_less_cancel_right add_0 length_append length_greater_0_conv)

lemma sock_recv_some:
  assumes "[] \<notin> set conn" "sock_recv n conn = (x, conn')"
  shows "[] \<notin> set conn'" "concat conn \<noteq> [] \<Longrightarrow> 0 < n \<Longrightarrow> x \<noteq> []" "length x \<le> n"
  using assms by (auto simp: sock_recv_def split: list.splits if_splits)

section \<open>The JSON-RPC server\<close>

definition kMaxBodyBytes :: nat where "kMaxBodyBytes = 4 * 1024 * 1024"
definition kRecvChunk :: nat where "kRecvChunk = 4096"
definition kHeaderBufReserve :: nat where "kHeaderBufReserve = 16 * 1024"

text \<open>The loop of \<open>recv_until\<close>: whether the terminator was found, the bytes read and the rest.\<close>

function recv_loop :: "nat \<Rightarrow> string \<Rightarrow> string list \<Rightarrow> bool \<times> string \<times> string list" where
  "recv_loop limit buf conn =
     (if length buf < limit
      then (case sock_recv 4096 conn of (x, conn) \<Rightarrow>
              if x = [] then (False, buf, conn)
              else if find_str kHeaderTerminator (buf @ x) \<noteq> None then (True, buf @ x, conn)
              else recv_loop limit (buf @ x) conn)
      else (find_str kHeaderTerminator buf \<noteq> None, buf, conn))"
  by pat_completeness auto
termination by (relation "measure (\<lambda>(limit, buf, conn). length (concat conn))") (auto dest: sock_recv_less)

declare recv_loop.simps [simp del]

definition recv_until :: "string list \<Rightarrow> nat \<Rightarrow> bool \<times> string \<times> string list" where
  "recv_until conn limit = recv_loop limit [] conn"

text \<open>The method and the path, if the first line has both.\<close>

definition parse_request_line :: "string \<Rightarrow> (string \<times> string) option" where
  "parse_request_line header_block =
     (case find_str crlf header_block of
        None \<Rightarrow> None
      | Some line_end \<Rightarrow>
          let start = take line_end header_block in
          (case find_str '' '' start of
             None \<Rightarrow> None
           | Some first \<Rightarrow>
               let r = drop (first + 1) start;
                   path = (case find_str '' '' r of None \<Rightarrow> r | Some second \<Rightarrow> take second r)
               in if take first start \<noteq> [] \<and> path \<noteq> [] then Some (take first start, path) else None))"

text \<open>The walk over the lines that \<open>parse_content_length\<close> and \<open>parse_headers\<close> share: an empty line ends it.\<close>

function header_lines :: "string \<Rightarrow> string list" where
  "header_lines h =
     (if h = [] then []
      else case find_str crlf h of
             None \<Rightarrow> [h]
           | Some n \<Rightarrow> if n = 0 then [] else take n h # header_lines (drop (n + 2) h))"
  by pat_completeness auto
termination by (relation "measure length") auto

declare header_lines.simps [simp del]

text \<open>\<open>None\<close>: the value is not a number; \<open>Some None\<close>: there is no such header.\<close>

primrec content_length_of :: "string list \<Rightarrow> nat option option" where
  "content_length_of [] = Some None"
| "content_length_of (line # ls) =
     (case split_first CHR '':'' line of
        None \<Rightarrow> content_length_of ls
      | Some (key, val) \<Rightarrow>
          if to_lower key \<noteq> ''content-length'' then content_length_of ls
          else if trim val = [] then None
          else (case strtoull (c_str (trim val)) of (v, rest) \<Rightarrow> if rest \<noteq> [] then None else Some (Some v)))"

definition parse_content_length :: "string \<Rightarrow> nat option option" where
  "parse_content_length header_block = content_length_of (header_lines header_block)"

definition add_header :: "(string, string) omap \<Rightarrow> string \<Rightarrow> (string, string) omap" where
  "add_header m line = (case split_first CHR '':'' line of None \<Rightarrow> m | Some (key, val) \<Rightarrow> om_set (to_lower key) (trim val) m)"

definition parse_headers :: "string \<Rightarrow> (string, string) omap" where
  "parse_headers header_block = foldl add_header [] (header_lines header_block)"

definition status_reason :: "int \<Rightarrow> string" where
  "status_reason code =
     (if code = 200 then ''OK'' else if code = 400 then ''Bad Request'' else if code = 404 then ''Not Found''
      else if code = 405 then ''Method Not Allowed'' else if code = 411 then ''Length Required''
      else if code = 413 then ''Payload Too Large'' else if code = 500 then ''Internal Server Error'' else ''Unknown'')"

text \<open>The bytes of a response, and what one call of \<open>send\<close> gets out of them when the socket takes \<open>n\<close>.\<close>

definition rpc_response :: "int \<Rightarrow> string \<Rightarrow> string \<Rightarrow> string" where
  "rpc_response status reason body =
     ''HTTP/1.1 '' @ int_string status @ '' '' @ reason @ crlf @ ''Content-Type: application/json'' @ crlf
     @ ''Content-Length: '' @ to_decimal (length body) @ crlf @ ''Connection: close'' @ crlf @ crlf @ body"

definition rpc_send_response :: "nat \<Rightarrow> int \<Rightarrow> string \<Rightarrow> string \<Rightarrow> string" where
  "rpc_send_response n status reason body = take n (rpc_response status reason body)"

definition error_body :: "string \<Rightarrow> string" where
  "error_body what = ''{'' @ quoted ''error'' @ '':'' @ quoted what @ ''}''"

text \<open>What \<open>handle_client\<close> decides from the header block: a response, or the length of the body to read.\<close>

definition route_request :: "string \<Rightarrow> (int \<times> string \<times> string) + nat" where
  "route_request header_block =
     (case parse_request_line header_block of
        None \<Rightarrow> Inl (400, ''Bad Request'', error_body ''bad request'')
      | Some (meth, path) \<Rightarrow>
          (case parse_content_length header_block of
             None \<Rightarrow> Inl (400, ''Bad Request'', error_body ''bad header'')
           | Some cl \<Rightarrow>
               if meth = ''GET'' \<and> path = ''/healthz'' then Inl (200, ''OK'', ''{'' @ quoted ''status'' @ '':'' @ quoted ''ok'' @ ''}'')
               else if path \<noteq> ''/rpc'' then Inl (404, ''Not Found'', error_body ''not found'')
               else if meth \<noteq> ''POST'' then Inl (405, ''Method Not Allowed'', error_body ''method not allowed'')
               else (case cl of
                       None \<Rightarrow> Inl (411, ''Length Required'', error_body ''content-length required'')
                     | Some n \<Rightarrow> if kMaxBodyBytes < n then Inl (413, ''Payload Too Large'', error_body ''payload too large'') else Inr n)))"

function read_body :: "nat \<Rightarrow> string \<Rightarrow> string list \<Rightarrow> string option" where
  "read_body n body conn =
     (if length body < n
      then (case sock_recv (min kRecvChunk (n - length body)) conn of (x, conn) \<Rightarrow>
              if x = [] then None else read_body n (body @ x) conn)
      else Some body)"
  by pat_completeness auto
termination by (relation "measure (\<lambda>(n, body, conn). length (concat conn))") (auto dest: sock_recv_less)

declare read_body.simps [simp del]

type_synonym rpc_handler = "string \<Rightarrow> (string, string) omap \<Rightarrow> (int \<times> string) option"

definition answer_call :: "rpc_handler \<Rightarrow> string \<Rightarrow> (string, string) omap \<Rightarrow> int \<times> string \<times> string" where
  "answer_call handler body headers =
     (case handler body headers of
        None \<Rightarrow> (500, ''Internal Server Error'', error_body ''internal error'')
      | Some (status, res) \<Rightarrow> (status, status_reason status, res))"

definition rpc_handle_client :: "rpc_handler \<Rightarrow> string list \<Rightarrow> int \<times> string \<times> string" where
  "rpc_handle_client handler conn =
     (case recv_until conn kHeaderBufReserve of
        (False, _, _) \<Rightarrow> (400, ''Bad Request'', error_body ''bad request'')
      | (True, head, conn) \<Rightarrow>
          (case find_str kHeaderTerminator head of
             None \<Rightarrow> (400, ''Bad Request'', error_body ''bad request'')
           | Some header_end \<Rightarrow>
               let header_block = take (header_end + 4) head; prefix_body = drop (header_end + 4) head in
               (case route_request header_block of
                  Inl resp \<Rightarrow> resp
                | Inr n \<Rightarrow>
                    (case (if n \<le> length prefix_body then Some (take n prefix_body) else read_body n prefix_body conn) of
                       None \<Rightarrow> (400, ''Bad Request'', error_body ''incomplete body'')
                     | Some body \<Rightarrow> answer_call handler body (parse_headers header_block)))))"

section \<open>The metrics server\<close>

text \<open>The buffer holds 4096 bytes, the last of which is the closing zero.\<close>

function request_loop :: "string \<Rightarrow> string list \<Rightarrow> string \<times> string list" where
  "request_loop buf conn =
     (if length buf < 4095
      then (case sock_recv (4095 - length buf) conn of (x, conn) \<Rightarrow>
              if x = [] then (buf, conn)
              else if find_str kHeaderTerminator (buf @ x) \<noteq> None then (buf @ x, conn)
              else request_loop (buf @ x) conn)
      else (buf, conn))"
  by pat_completeness auto
termination by (relation "measure (\<lambda>(buf, conn). length (concat conn))") (auto dest: sock_recv_less)

declare request_loop.simps [simp del]

definition read_request :: "string list \<Rightarrow> string option" where
  "read_request conn = (case request_loop [] conn of (buf, _) \<Rightarrow> if buf = [] then None else Some buf)"

function url_decode :: "string \<Rightarrow> string" where
  "url_decode [] = []"
| "url_decode (c # r) =
     (if c = CHR ''+'' then CHR '' '' # url_decode r
      else if c = CHR 0x25 \<and> 2 \<le> length r
      then (case strtol16 (c_str (take 2 r)) of (v, rest) \<Rightarrow>
              if length (c_str (take 2 r)) - length rest = 2 then char_of (nat (v mod 256)) # url_decode (drop 2 r) else c # url_decode r)
      else c # url_decode r)"
  by pat_completeness auto
termination by (relation "measure length") auto

declare url_decode.simps(2) [simp del]

lemma split_first_eq: "split_first c s = Some (a, r) \<longleftrightarrow> s = a @ c # r \<and> c \<notin> set a"
proof
  assume "split_first c s = Some (a, r)"
  then have c: "c \<in> set s" "a = takeWhile (\<lambda>x. x \<noteq> c) s" "r = tl (dropWhile (\<lambda>x. x \<noteq> c) s)" by (auto simp: split_first_def split: if_splits)
  then have "dropWhile (\<lambda>x. x \<noteq> c) s = c # r" by (induction s arbitrary: a) auto
  with c show "s = a @ c # r \<and> c \<notin> set a" using takeWhile_dropWhile_id [of "\<lambda>x. x \<noteq> c" s] by (auto dest: set_takeWhileD)
next
  assume "s = a @ c # r \<and> c \<notin> set a"
  then show "split_first c s = Some (a, r)" by (auto simp: split_first_def takeWhile_append dropWhile_append)
qed

function split_on :: "char \<Rightarrow> string \<Rightarrow> string list" where
  "split_on c s = (case split_first c s of None \<Rightarrow> [s] | Some (a, r) \<Rightarrow> a # split_on c r)"
  by pat_completeness auto
termination by (relation "measure (\<lambda>(c, s). length s)") (auto simp: split_first_eq dest: sym)

declare split_on.simps [simp del]

definition query_has :: "string \<Rightarrow> string \<Rightarrow> bool" where
  "query_has query key_value \<longleftrightarrow> key_value \<in> set (split_on CHR ''&'' query)"

definition split_target :: "string \<Rightarrow> string \<times> string" where
  "split_target target = (case split_first CHR ''?'' target of None \<Rightarrow> (target, []) | Some (path, q) \<Rightarrow> (path, url_decode q))"

definition request_target :: "string \<Rightarrow> (string \<times> string) option" where
  "request_target raw =
     (let line = (case find_str crlf raw of Some eol \<Rightarrow> take eol raw | None \<Rightarrow> raw)
      in case split_first CHR '' '' line of
           None \<Rightarrow> None
         | Some (meth, r) \<Rightarrow> Some (meth, case split_first CHR '' '' r of None \<Rightarrow> r | Some (target, _) \<Rightarrow> target))"

definition metrics_reply :: "timepoint \<Rightarrow> string \<Rightarrow> string \<Rightarrow> metrics_store \<Rightarrow> (int \<times> string \<times> string \<times> string) \<times> metrics_store" where
  "metrics_reply now meth target st =
     (case split_target target of (path, query) \<Rightarrow>
        if meth = ''GET'' \<and> path = ''/metrics''
        then (case openmetrics now st of (body, st) \<Rightarrow> ((200, ''OK'', ''text/plain; charset=utf-8'', body), st))
        else if meth = ''GET'' \<and> path = ''/stats''
        then (case metrics_json now (query_has query ''previous=1'') (query_has query ''take=1'') st of
                (body, st) \<Rightarrow> ((200, ''OK'', ''application/json'', body), st))
        else if meth = ''GET'' \<and> path = ''/healthz'' then ((200, ''OK'', ''text/plain; charset=utf-8'', ''ok'' @ [CHR 0x0A]), st)
        else ((404, ''Not Found'', ''text/plain; charset=utf-8'', ''Not Found'' @ [CHR 0x0A]), st))"

definition metrics_response :: "int \<times> string \<times> string \<times> string \<Rightarrow> string" where
  "metrics_response r =
     (case r of (status, status_text, content_type, body) \<Rightarrow>
        ''HTTP/1.1 '' @ int_string status @ '' '' @ status_text @ crlf @ ''Content-Type: '' @ content_type @ crlf
        @ ''Content-Length: '' @ to_decimal (length body) @ crlf @ ''Cache-Control: no-store'' @ crlf @ ''Connection: close'' @ crlf @ crlf @ body)"

text \<open>The loop around \<open>send\<close>; the numbers are what the socket takes each time, 0 an error.\<close>

fun send_loop :: "string \<Rightarrow> nat list \<Rightarrow> string" where
  "send_loop rest [] = []"
| "send_loop rest (n # ns) = (if rest = [] \<or> n = 0 then [] else take n rest @ send_loop (drop n rest) ns)"

text \<open>What the client gets; nothing when the request has no target.\<close>

definition metrics_handle_client :: "timepoint \<Rightarrow> string list \<Rightarrow> nat list \<Rightarrow> metrics_store \<Rightarrow> string \<times> metrics_store" where
  "metrics_handle_client now conn accepts st =
     (case read_request conn of
        None \<Rightarrow> ([], st)
      | Some raw \<Rightarrow>
          (case request_target raw of
             None \<Rightarrow> ([], st)
           | Some (meth, target) \<Rightarrow> (case metrics_reply now meth target st of (r, st) \<Rightarrow> (send_loop (metrics_response r) accepts, st))))"

section \<open>Searching\<close>

lemma find_str_Some: "find_str p s = Some k \<longleftrightarrow> k \<le> length s \<and> prefix p (drop k s) \<and> (\<forall>j<k. \<not> prefix p (drop j s))"
proof (induction s arbitrary: k)
  case (Cons c s)
  show ?case
  proof (cases k)
    case (Suc m)
    have "(\<forall>j<Suc m. \<not> prefix p (drop j (c # s))) \<longleftrightarrow> \<not> prefix p (c # s) \<and> (\<forall>j<m. \<not> prefix p (drop j s))"
      by (auto simp: less_Suc_eq_0_disj)
    with Suc Cons.IH [of m] show ?thesis by (auto simp: map_option_case split: option.splits)
  qed (auto simp: map_option_case split: option.splits)
qed auto

lemma find_str_bound: "find_str p s = Some k \<Longrightarrow> k + length p \<le> length s"
  by (auto simp: find_str_Some dest!: prefix_length_le)

lemma prefix_drop_append: "j + length p \<le> length s \<Longrightarrow> prefix p (drop j (s @ t)) \<longleftrightarrow> prefix p (drop j s)"
  by (auto simp: prefix_append simp flip: length_0_conv)

lemma find_str_append:
  assumes "find_str p s = Some k"
  shows "find_str p (s @ t) = Some k"
proof -
  have b: "k + length p \<le> length s" using find_str_bound [OF assms] .
  then show ?thesis using assms prefix_drop_append [of _ p s t] by (auto simp: find_str_Some)
qed

lemma find_str_cut:
  assumes "find_str p (s @ t) = Some k" "k + length p \<le> length s"
  shows "find_str p s = Some k"
  using assms prefix_drop_append [of _ p s t] by (auto simp: find_str_Some)

lemma find_str_none: "find_str p (s @ t) = Some k \<Longrightarrow> find_str p s = None \<Longrightarrow> length s < k + length p"
  using find_str_cut [of p s t k] by (metis not_le option.distinct(1))

lemma terminator_length [simp]: "length kHeaderTerminator = 4" by (simp add: kHeaderTerminator_def)

section \<open>The answer does not depend on the pieces\<close>

locale head_reader =
  fixes read :: "string list \<Rightarrow> (string \<times> string list) option" and limit :: nat
  assumes read_law: "[] \<notin> set conn \<Longrightarrow> find_str kHeaderTerminator (concat conn) = Some e \<Longrightarrow> e + 4 \<le> limit
      \<Longrightarrow> \<exists>buf conn'. read conn = Some (buf, conn') \<and> buf @ concat conn' = concat conn \<and> e + 4 \<le> length buf \<and> [] \<notin> set conn'"
begin

lemma head_read:
  assumes "[] \<notin> set conn" "find_str kHeaderTerminator (concat conn) = Some e" "e + 4 \<le> limit"
  shows "\<exists>buf conn'. read conn = Some (buf, conn') \<and> buf @ concat conn' = concat conn \<and> [] \<notin> set conn'
     \<and> find_str kHeaderTerminator buf = Some e \<and> take (e + 4) buf = take (e + 4) (concat conn)
     \<and> drop (e + 4) buf @ concat conn' = drop (e + 4) (concat conn)"
proof -
  obtain buf conn' where b: "read conn = Some (buf, conn')" "buf @ concat conn' = concat conn" "e + 4 \<le> length buf" "[] \<notin> set conn'"
    using read_law [OF assms] by blast
  have "find_str kHeaderTerminator buf = Some e" using find_str_cut [of _ buf "concat conn'" e] assms(2) b(2,3) by simp
  moreover have "take (e + 4) buf = take (e + 4) (concat conn)" "drop (e + 4) buf @ concat conn' = drop (e + 4) (concat conn)"
    using b(3) by (simp_all add: b(2) [symmetric])
  ultimately show ?thesis using b by blast
qed

lemma first_line_read:
  assumes "[] \<notin> set conn" "find_str kHeaderTerminator (concat conn) = Some e" "e + 4 \<le> limit" "read conn = Some (buf, conn')"
  shows "\<exists>n. find_str crlf buf = Some n \<and> find_str crlf (concat conn) = Some n \<and> take n buf = take n (concat conn)"
proof -
  obtain t where b: "buf @ t = concat conn" "find_str kHeaderTerminator buf = Some e"
    using head_read [OF assms(1-3)] assms(4) by auto
  have "prefix crlf (drop e buf)" using b(2) by (auto simp: find_str_Some prefix_def crlf_def kHeaderTerminator_def)
  moreover have "e \<le> length buf" using find_str_bound [OF b(2)] by simp
  ultimately have "find_str crlf buf \<noteq> None"
  proof (induction buf arbitrary: e)
    case (Cons c buf)
    then show ?case by (cases e) auto
  qed simp
  then obtain n where n: "find_str crlf buf = Some n" by blast
  moreover have "n \<le> length buf" using find_str_bound [OF n] by simp
  ultimately show ?thesis using find_str_append [OF n, of t] by (simp add: b(1) [symmetric])
qed

end

lemma recv_loop_finds:
  assumes "[] \<notin> set conn" "find_str kHeaderTerminator (buf @ concat conn) = Some e" "e + 4 \<le> limit" "find_str kHeaderTerminator buf = None"
  shows "\<exists>buf' conn'. recv_loop limit buf conn = (True, buf', conn') \<and> buf' @ concat conn' = buf @ concat conn \<and> e + 4 \<le> length buf' \<and> [] \<notin> set conn'"
  using assms
proof (induction limit buf conn rule: recv_loop.induct)
  case (1 limit buf conn)
  have short: "length buf < limit" using find_str_none [OF "1.prems"(2,4)] "1.prems"(3) by simp
  obtain x conn1 where r: "sock_recv 4096 conn = (x, conn1)" by force
  have ne: "concat conn \<noteq> []" using "1.prems"(2,4) by (metis append_Nil2 option.distinct(1))
  note s = sock_recv_some [OF "1.prems"(1) r] sock_recv_conn [OF r]
  have x: "x \<noteq> []" using s(2) ne by simp
  have d: "(buf @ x) @ concat conn1 = buf @ concat conn" using s(4) by simp
  show ?case
  proof (cases "find_str kHeaderTerminator (buf @ x)")
    case None
    from "1.IH" [OF short r [symmetric] x _ s(1) _ "1.prems"(3) None] "1.prems"(2) d None
    have "\<exists>buf' conn'. recv_loop limit (buf @ x) conn1 = (True, buf', conn') \<and> buf' @ concat conn' = (buf @ x) @ concat conn1 \<and> e + 4 \<le> length buf' \<and> [] \<notin> set conn'"
      by simp
    with short r x None d show ?thesis by (simp add: recv_loop.simps [of limit buf conn])
  next
    case (Some k)
    from find_str_append [OF this, of "concat conn1"] "1.prems"(2) d have "k = e" by simp
    with Some find_str_bound [OF Some] short r x d s(1) show ?thesis by (simp add: recv_loop.simps [of limit buf conn])
  qed
qed

lemma request_loop_finds:
  assumes "[] \<notin> set conn" "find_str kHeaderTerminator (buf @ concat conn) = Some e" "e + 4 \<le> 4095" "find_str kHeaderTerminator buf = None"
  shows "\<exists>buf' conn'. request_loop buf conn = (buf', conn') \<and> buf' @ concat conn' = buf @ concat conn \<and> e + 4 \<le> length buf' \<and> [] \<notin> set conn'"
  using assms
proof (induction buf conn rule: request_loop.induct)
  case (1 buf conn)
  have short: "length buf < 4095" using find_str_none [OF "1.prems"(2,4)] "1.prems"(3) by simp
  obtain x conn1 where r: "sock_recv (4095 - length buf) conn = (x, conn1)" by force
  have ne: "concat conn \<noteq> []" using "1.prems"(2,4) by (metis append_Nil2 option.distinct(1))
  note s = sock_recv_some [OF "1.prems"(1) r] sock_recv_conn [OF r]
  have x: "x \<noteq> []" using s(2) ne short by simp
  have d: "(buf @ x) @ concat conn1 = buf @ concat conn" using s(4) by simp
  show ?case
  proof (cases "find_str kHeaderTerminator (buf @ x)")
    case None
    from "1.IH" [OF short r [symmetric] x _ s(1) _ "1.prems"(3) None] "1.prems"(2) d None
    have "\<exists>buf' conn'. request_loop (buf @ x) conn1 = (buf', conn') \<and> buf' @ concat conn' = (buf @ x) @ concat conn1 \<and> e + 4 \<le> length buf' \<and> [] \<notin> set conn'"
      by simp
    with short r x None d show ?thesis by (simp add: request_loop.simps [of buf conn])
  next
    case (Some k)
    from find_str_append [OF this, of "concat conn1"] "1.prems"(2) d have "k = e" by simp
    with Some find_str_bound [OF Some] short r x d s(1) show ?thesis by (simp add: request_loop.simps [of buf conn])
  qed
qed

text \<open>Both servers read the header completely.\<close>

interpretation rpc_head: head_reader
  "\<lambda>conn. case recv_until conn kHeaderBufReserve of (ok, buf, conn') \<Rightarrow> if ok then Some (buf, conn') else None" kHeaderBufReserve
proof (unfold_locales, goal_cases)
  case (1 conn e)
  from recv_loop_finds [of conn "[]" e kHeaderBufReserve] 1 show ?case by (fastforce simp: recv_until_def kHeaderTerminator_def)
qed

interpretation metrics_head: head_reader "\<lambda>conn. Some (request_loop [] conn)" 4095
proof (unfold_locales, goal_cases)
  case (1 conn e)
  from request_loop_finds [of conn "[]" e] 1 show ?case by (fastforce simp: kHeaderTerminator_def)
qed

lemma recv_loop_fails: "find_str kHeaderTerminator (buf @ concat conn) = None \<Longrightarrow> \<not> fst (recv_loop limit buf conn)"
proof (induction limit buf conn rule: recv_loop.induct)
  case (1 limit buf conn)
  have none: "find_str kHeaderTerminator buf = None" using find_str_append [of _ buf] "1.prems" by (metis option.exhaust option.distinct(1))
  obtain x conn1 where r: "sock_recv 4096 conn = (x, conn1)" by force
  have d: "find_str kHeaderTerminator ((buf @ x) @ concat conn1) = None" using "1.prems" sock_recv_conn [OF r] by simp
  have nx: "find_str kHeaderTerminator (buf @ x) = None" using find_str_append [of _ "buf @ x"] d by (metis option.exhaust option.distinct(1))
  show ?case
  proof (cases "length buf < limit \<and> x \<noteq> []")
    case True
    then show ?thesis using "1.IH" [OF _ r [symmetric]] d nx r by (simp add: recv_loop.simps [of limit buf conn])
  qed (use none r in \<open>auto simp: recv_loop.simps [of limit buf conn]\<close>)
qed

lemma read_body_all:
  assumes "[] \<notin> set conn" "length body \<le> n"
  shows "read_body n body conn = (if n \<le> length body + length (concat conn) then Some (take n (body @ concat conn)) else None)"
  using assms
proof (induction n body conn rule: read_body.induct)
  case (1 n body conn)
  obtain x conn1 where r: "sock_recv (min kRecvChunk (n - length body)) conn = (x, conn1)" by force
  note s = sock_recv_some [OF "1.prems"(1) r] and d = sock_recv_conn [OF r]
  show ?case
  proof (cases "length body < n \<and> x \<noteq> []")
    case True
    then have "read_body n (body @ x) conn1 = (if n \<le> length (body @ x) + length (concat conn1) then Some (take n ((body @ x) @ concat conn1)) else None)"
      using "1.IH" [OF _ r [symmetric]] s(1,3) by auto
    then show ?thesis using True r by (simp add: read_body.simps [of n body conn] flip: d)
  next
    case False
    show ?thesis
    proof (cases "length body < n")
      case True
      with False s(2) have "x = []" "concat conn = []" by (auto simp: kRecvChunk_def)
      with True r show ?thesis by (simp add: read_body.simps [of n body conn] del: concat_eq_Nil_conv)
    qed (use "1.prems"(2) in \<open>simp add: read_body.simps [of n body conn]\<close>)
  qed
qed

text \<open>What the server should answer to the bytes a client sends before it closes.\<close>

definition rpc_serve :: "rpc_handler \<Rightarrow> string \<Rightarrow> int \<times> string \<times> string" where
  "rpc_serve handler bytes =
     (case find_str kHeaderTerminator bytes of
        None \<Rightarrow> (400, ''Bad Request'', error_body ''bad request'')
      | Some e \<Rightarrow>
          let header_block = take (e + 4) bytes; rest = drop (e + 4) bytes in
          (case route_request header_block of
             Inl resp \<Rightarrow> resp
           | Inr n \<Rightarrow> if length rest < n then (400, ''Bad Request'', error_body ''incomplete body'')
                       else answer_call handler (take n rest) (parse_headers header_block)))"

lemma rpc_piecewise_lines:
  assumes "[] \<notin> set conn" "\<forall>e. find_str kHeaderTerminator (concat conn) = Some e \<longrightarrow> e + 4 \<le> kHeaderBufReserve"
  shows "rpc_handle_client handler conn = rpc_serve handler (concat conn)"
proof (cases "find_str kHeaderTerminator (concat conn)")
  case None
  have "\<not> fst (recv_until conn kHeaderBufReserve)" using recv_loop_fails [of "[]" conn] None by (simp add: recv_until_def)
  with None show ?thesis by (auto simp: rpc_handle_client_def rpc_serve_def split: prod.splits bool.splits)
next
  case (Some e)
  obtain buf conn' where b: "recv_until conn kHeaderBufReserve = (True, buf, conn')" "[] \<notin> set conn'"
    "find_str kHeaderTerminator buf = Some e" "take (e + 4) buf = take (e + 4) (concat conn)"
    "drop (e + 4) buf @ concat conn' = drop (e + 4) (concat conn)"
    using rpc_head.head_read [OF assms(1) Some] assms(2) Some by (auto split: prod.splits if_splits)
  let ?p = "drop (e + 4) buf"
  have body: "(if n \<le> length ?p then Some (take n ?p) else read_body n ?p conn')
      = (if length (?p @ concat conn') < n then None else Some (take n (?p @ concat conn')))" for n
    using read_body_all [OF b(2), of ?p n] by (cases "n \<le> length ?p") simp_all
  show ?thesis unfolding rpc_handle_client_def rpc_serve_def Some b(1)
    by (simp only: prod.case bool.case option.case b(3) Let_def b(4) body) (simp add: b(5) split: sum.split)
qed

text \<open>The answer of the JSON-RPC server depends only on the bytes the client sends and not on the pieces in which
  they arrive, for every handler and every request whose headers fit into 16 KiB: it is the answer of a server
  that sees all bytes at once.\<close>

theorem rpc_piecewise:
  assumes "[] \<notin> set conn" "\<forall>e. find_str kHeaderTerminator (concat conn) = Some e \<longrightarrow> e + 4 \<le> kHeaderBufReserve"
  shows "rpc_handle_client handler conn = rpc_serve handler (concat conn)"
  using assms by (rule rpc_piecewise_lines)

section \<open>A request is read as it was written\<close>

definition header_text :: "string list \<Rightarrow> string" where "header_text lines = concat (map (\<lambda>l. l @ crlf) lines)"

lemma header_text_simps [simp]: "header_text [] = []" "header_text (l # ls) = l @ crlf @ header_text ls" "header_text (ls @ ls') = header_text ls @ header_text ls'"
  by (simp_all add: header_text_def)

lemma find_skip:
  assumes "CHR 0x0D \<notin> set l" "p = CHR 0x0D # p'"
  shows "find_str p (l @ s) = map_option ((+) (length l)) (find_str p s)"
  using assms(1)
proof (induction l)
  case (Cons c l)
  then show ?case by (cases "find_str p s") (auto simp: assms(2))
qed (simp add: map_option_case split: option.split)

lemma find_skip_crlf: "\<not> prefix crlf s \<Longrightarrow> find_str kHeaderTerminator (crlf @ s) = map_option ((+) 2) (find_str kHeaderTerminator s)"
  by (cases "find_str kHeaderTerminator s") (auto simp: kHeaderTerminator_def crlf_def)

lemma find_terminator: "find_str kHeaderTerminator (crlf @ crlf @ s) = Some 0"
  by (simp add: kHeaderTerminator_def crlf_def)

lemma find_line: "CHR 0x0D \<notin> set l \<Longrightarrow> find_str crlf (l @ crlf @ s) = Some (length l)"
  by (subst find_skip [of _ _ "[CHR 0x0A]"]) (simp_all add: crlf_def)

lemma lines_end:
  assumes "lines \<noteq> []" "\<forall>l \<in> set lines. l \<noteq> [] \<and> CHR 0x0D \<notin> set l"
  shows "find_str kHeaderTerminator (header_text lines @ crlf @ s) = Some (length (header_text lines) - 2)"
  using assms
proof (induction lines)
  case (Cons l ls)
  have l: "CHR 0x0D \<notin> set l" "l \<noteq> []" using Cons.prems by auto
  have skip: "find_str kHeaderTerminator (l @ t) = map_option ((+) (length l)) (find_str kHeaderTerminator t)" for t
    by (rule find_skip [OF l(1) kHeaderTerminator_def])
  show ?case
  proof (cases ls)
    case Nil
    then show ?thesis using skip find_terminator by (simp add: crlf_def)
  next
    case (Cons m ms)
    then have "\<not> prefix crlf (header_text ls @ crlf @ s)" using Cons.prems by (cases m) (auto simp: crlf_def)
    note c = find_skip_crlf [OF this]
    have "2 \<le> length (header_text ls)" using Cons by (simp add: crlf_def)
    then show ?thesis using skip c Cons.IH Cons Cons.prems by (simp add: crlf_def)
  qed
qed simp

lemma header_lines_text:
  assumes "\<forall>l \<in> set lines. l \<noteq> [] \<and> CHR 0x0D \<notin> set l"
  shows "header_lines (header_text lines @ crlf) = lines"
  using assms
proof (induction lines)
  case Nil
  have "find_str crlf crlf = Some 0" by (simp add: crlf_def)
  then show ?case by (simp add: header_lines.simps [of crlf])
next
  case (Cons l ls)
  have "find_str crlf (l @ crlf @ header_text ls @ crlf) = Some (length l)" using Cons.prems by (intro find_line) simp
  moreover have "drop (length l + 2) (l @ crlf @ header_text ls @ crlf) = header_text ls @ crlf" by (simp add: crlf_def)
  ultimately show ?case using Cons by (subst header_lines.simps) simp
qed

lemma trim_plain:
  assumes "\<forall>c \<in> set s. c \<noteq> CHR '' '' \<and> c \<noteq> CHR 0x09 \<and> c \<noteq> CHR 0x0D"
  shows "trim (CHR '' '' # s) = s"
proof -
  have no: "dropWhile (\<lambda>c. c \<in> A) t = t" if "set t \<inter> A = {}" for A :: "char set" and t
    using that by (cases t) auto
  have "dropWhile (\<lambda>c. c \<in> {CHR '' '', CHR 0x09}) (CHR '' '' # s) = s" using no [of s "{CHR '' '', CHR 0x09}"] assms by simp
  moreover have "dropWhile (\<lambda>c. c \<in> {CHR '' '', CHR 0x09, CHR 0x0D}) (rev s) = rev s" using assms by (intro no) auto
  ultimately show ?thesis by (simp add: trim_def)
qed

lemma decimal_chars: "c \<in> set (to_decimal n) \<Longrightarrow> is_digit c \<and> c \<noteq> CHR '' '' \<and> c \<noteq> CHR 0x09 \<and> c \<noteq> CHR 0x0D \<and> c \<noteq> CHR 0x00 \<and> \<not> is_space c \<and> c \<noteq> CHR ''-'' \<and> c \<noteq> CHR ''+''"
  using dec_string_digits [of n] by (auto simp: is_digit_def is_space_def)

lemma strtoull_decimal: "n < 2 ^ 64 \<Longrightarrow> strtoull (c_str (to_decimal n)) = (n, [])"
proof -
  assume n: "n < 2 ^ 64"
  have c: "c_str (to_decimal n) = to_decimal n" unfolding c_str_def by (intro takeWhile_eq_all_conv [THEN iffD2]) (auto dest: decimal_chars)
  have d: "takeWhile is_digit (to_decimal n) = to_decimal n" "dropWhile is_digit (to_decimal n) = []" by (auto dest: decimal_chars)
  obtain c r where e: "to_decimal n = c # r" using dec_string_nonempty by (cases "to_decimal n") auto
  then have "dropWhile is_space (to_decimal n) = to_decimal n" "sign_of (to_decimal n) = (False, to_decimal n)"
    using decimal_chars [of c n] by (auto simp: sign_of_def)
  then show ?thesis using n by (simp add: strtoull_def Let_def c d del: takeWhile_eq_all_conv dropWhile_eq_Nil_conv)
qed

text \<open>A client's request with the headers \<open>hs\<close>.\<close>

definition header_line :: "string \<times> string \<Rightarrow> string" where "header_line kv = fst kv @ '': '' @ snd kv"

definition request_lines :: "(string \<times> string) list \<Rightarrow> string \<Rightarrow> string list" where
  "request_lines hs body = ''POST /rpc HTTP/1.1'' # map header_line hs @ [header_line (''Content-Length'', to_decimal (length body))]"

definition rpc_request :: "(string \<times> string) list \<Rightarrow> string \<Rightarrow> string" where
  "rpc_request hs body = header_text (request_lines hs body) @ crlf @ body"

definition header_ok :: "string \<times> string \<Rightarrow> bool" where
  "header_ok kv \<longleftrightarrow> CHR 0x0D \<notin> set (fst kv) \<and> CHR 0x0D \<notin> set (snd kv) \<and> CHR '':'' \<notin> set (fst kv) \<and> to_lower (fst kv) \<noteq> ''content-length''"

definition headers_of :: "(string \<times> string) list \<Rightarrow> (string, string) omap" where
  "headers_of hs = foldl (\<lambda>m kv. om_set (to_lower (fst kv)) (trim (CHR '' '' # snd kv)) m) [] hs"

lemma split_header: "CHR '':'' \<notin> set k \<Longrightarrow> split_first CHR '':'' (header_line (k, v)) = Some (k, CHR '' '' # v)"
  by (simp add: header_line_def split_first_eq)

lemma lower_content_length: "to_lower ''Content-Length'' = ''content-length''" by code_simp

lemma content_length_lines:
  assumes "\<forall>kv \<in> set hs. header_ok kv" "n < 2 ^ 64"
  shows "content_length_of (map header_line hs @ header_line (''Content-Length'', to_decimal n) # ls) = Some (Some n)"
  using assms(1)
proof (induction hs)
  case Nil
  have "trim (CHR '' '' # to_decimal n) = to_decimal n" by (intro trim_plain) (auto dest: decimal_chars)
  then show ?case using strtoull_decimal [OF assms(2)] by (simp add: split_header lower_content_length)
next
  case (Cons kv hs)
  then show ?case by (cases kv) (simp add: header_ok_def split_header)
qed

lemma headers_lines:
  "\<forall>kv \<in> set hs. CHR '':'' \<notin> set (fst kv) \<Longrightarrow>
   foldl add_header m (map header_line hs) = foldl (\<lambda>m kv. om_set (to_lower (fst kv)) (trim (CHR '' '' # snd kv)) m) m hs"
  by (induction hs arbitrary: m) (auto simp: add_header_def split_header)

lemma request_parsed:
  assumes "\<forall>kv \<in> set hs. header_ok kv" "length body \<le> kMaxBodyBytes"
  defines "e \<equiv> length (header_text (request_lines hs body)) - 2"
  shows "find_str kHeaderTerminator (rpc_request hs body) = Some e"
    and "take (e + 4) (rpc_request hs body) = header_text (request_lines hs body) @ crlf" "drop (e + 4) (rpc_request hs body) = body"
    and "route_request (header_text (request_lines hs body) @ crlf) = Inr (length body)"
    and "parse_headers (header_text (request_lines hs body) @ crlf) = headers_of (hs @ [(''Content-Length'', to_decimal (length body))])"
proof -
  let ?ls = "request_lines hs body"
  have ok: "\<forall>l \<in> set ?ls. l \<noteq> [] \<and> CHR 0x0D \<notin> set l"
    using assms(1) by (auto simp: request_lines_def header_line_def header_ok_def dest: decimal_chars)
  show "find_str kHeaderTerminator (rpc_request hs body) = Some e"
    unfolding e_def rpc_request_def by (rule lines_end [OF _ ok]) (simp add: request_lines_def)
  have len: "e + 4 = length (header_text ?ls @ crlf)" by (simp add: e_def request_lines_def crlf_def)
  show "take (e + 4) (rpc_request hs body) = header_text ?ls @ crlf" "drop (e + 4) (rpc_request hs body) = body"
    by (simp_all add: len rpc_request_def)
  have lines: "header_lines (header_text ?ls @ crlf) = ?ls" by (rule header_lines_text [OF ok])
  have "find_str crlf (''POST /rpc HTTP/1.1'' @ crlf @ t) = Some 18" for t by (subst find_line) simp_all
  then have line: "parse_request_line (header_text ?ls @ crlf) = Some (''POST'', ''/rpc'')" by (simp add: parse_request_line_def request_lines_def)
  have first: "split_first CHR '':'' ''POST /rpc HTTP/1.1'' = None" by (simp add: split_first_def)
  have len64: "length body < 2 ^ 64" using assms(2) by (simp add: kMaxBodyBytes_def)
  then have "parse_content_length (header_text ?ls @ crlf) = Some (Some (length body))"
    using content_length_lines [OF assms(1) len64, of "[]"] first unfolding parse_content_length_def lines by (simp add: request_lines_def)
  with line assms(2) show "route_request (header_text ?ls @ crlf) = Inr (length body)" by (simp add: route_request_def)
  have "\<forall>kv \<in> set (hs @ [(''Content-Length'', to_decimal (length body))]). CHR '':'' \<notin> set (fst kv)" using assms(1) by (auto simp: header_ok_def)
  from headers_lines [OF this, of "[]"] show "parse_headers (header_text ?ls @ crlf) = headers_of (hs @ [(''Content-Length'', to_decimal (length body))])"
    unfolding parse_headers_def lines by (simp add: request_lines_def headers_of_def first add_header_def)
qed

lemma request_handled:
  assumes "\<forall>kv \<in> set hs. header_ok kv" "length body \<le> kMaxBodyBytes"
    and "[] \<notin> set conn" "concat conn = rpc_request hs body" "length (header_text (request_lines hs body)) + 2 \<le> kHeaderBufReserve"
  shows "rpc_handle_client handler conn = answer_call handler body (headers_of (hs @ [(''Content-Length'', to_decimal (length body))]))"
proof -
  note p = request_parsed [OF assms(1,2)]
  have "2 \<le> length (header_text (request_lines hs body))" by (simp add: request_lines_def)
  then have "rpc_handle_client handler conn = rpc_serve handler (concat conn)"
    using assms(3-5) p(1) by (intro rpc_piecewise_lines) simp_all
  then show ?thesis using p by (simp add: assms(4) rpc_serve_def Let_def)
qed

text \<open>C23. A request written with any headers and any body of up to four megabytes reaches the handler as it was
  written, however it is cut into pieces: with exactly the body's bytes and with every header under its name in
  lower case; the client gets the handler's answer. Only names and values without carriage returns, names without
  colons and a header block of at most 16 KiB are required.\<close>

theorem rpc_request_reaches_handler:
  assumes "\<forall>kv \<in> set hs. header_ok kv" "length body \<le> kMaxBodyBytes"
    and "[] \<notin> set conn" "concat conn = rpc_request hs body" "length (header_text (request_lines hs body)) + 2 \<le> kHeaderBufReserve"
  shows "rpc_handle_client handler conn = answer_call handler body (headers_of (hs @ [(''Content-Length'', to_decimal (length body))]))"
  using assms by (rule request_handled)

definition echo_handler :: rpc_handler where "echo_handler body headers = Some (200, body)"

definition sample_request :: string where "sample_request = rpc_request [(''X-A'', ''b'')] ''{}''"

lemma sample_pieces:
  shows "[] \<notin> set [take 5 sample_request, drop 5 sample_request]" "concat [take 5 sample_request, drop 5 sample_request] = sample_request"
    and "header_ok (''X-A'', ''b'')" "length (header_text (request_lines [(''X-A'', ''b'')] ''{}'')) + 2 \<le> kHeaderBufReserve"
proof -
  have ok: "to_lower ''X-A'' = ''x-a''" by code_simp
  show "[] \<notin> set [take 5 sample_request, drop 5 sample_request]" by (simp add: sample_request_def rpc_request_def request_lines_def)
  show "concat [take 5 sample_request, drop 5 sample_request] = sample_request" by simp
  show "header_ok (''X-A'', ''b'')" by (simp add: header_ok_def ok)
  show "length (header_text (request_lines [(''X-A'', ''b'')] ''{}'')) + 2 \<le> kHeaderBufReserve"
    by (simp add: request_lines_def header_line_def kHeaderBufReserve_def crlf_def to_decimal.simps)
qed

theorem rpc_piecewise_witness:
  "rpc_handle_client echo_handler [take 5 sample_request, drop 5 sample_request] = rpc_serve echo_handler sample_request"
proof -
  have "\<forall>e. find_str kHeaderTerminator (concat [take 5 sample_request, drop 5 sample_request]) = Some e \<longrightarrow> e + 4 \<le> kHeaderBufReserve"
    using request_parsed(1) [of "[(''X-A'', ''b'')]" "''{}''"] sample_pieces(3,4) unfolding sample_pieces(2)
    by (auto simp: sample_request_def kMaxBodyBytes_def kHeaderBufReserve_def)
  from rpc_piecewise [OF sample_pieces(1) this, of echo_handler] show ?thesis unfolding sample_pieces(2) .
qed

theorem rpc_request_reaches_handler_witness:
  "rpc_handle_client echo_handler [take 5 sample_request, drop 5 sample_request] = (200, ''OK'', ''{}'')"
proof -
  have "\<forall>kv \<in> set [(''X-A'', ''b'')]. header_ok kv" "length ''{}'' \<le> kMaxBodyBytes" using sample_pieces(3) by (simp_all add: kMaxBodyBytes_def)
  moreover have "concat [take 5 sample_request, drop 5 sample_request] = rpc_request [(''X-A'', ''b'')] ''{}''"
    using sample_pieces(2) by (simp only: sample_request_def)
  ultimately have "rpc_handle_client echo_handler [take 5 sample_request, drop 5 sample_request]
      = answer_call echo_handler ''{}'' (headers_of ([(''X-A'', ''b'')] @ [(''Content-Length'', to_decimal (length ''{}''))]))"
    using rpc_request_reaches_handler [OF _ _ sample_pieces(1) _ sample_pieces(4), of echo_handler] by blast
  then show ?thesis by (simp add: answer_call_def echo_handler_def status_reason_def)
qed

subsection \<open>Where the servers differ from their intention\<close>

text \<open>When the headers end just behind the first 16 KiB, the pieces decide: the same bytes are refused when they
  come at once and served when the first comes alone.\<close>

lemma recv_step:
  assumes "length buf < limit" "x \<noteq> []" "sock_recv 4096 conn = (x, conn')" "find_str kHeaderTerminator (buf @ x) = None"
  shows "recv_loop limit buf conn = recv_loop limit (buf @ x) conn'"
  using assms by (simp add: recv_loop.simps [of limit buf conn])

lemma find_take_none: "find_str kHeaderTerminator bytes = Some e \<Longrightarrow> m < e + 4 \<Longrightarrow> find_str kHeaderTerminator (take m bytes) = None"
proof (rule ccontr)
  assume e: "find_str kHeaderTerminator bytes = Some e" "m < e + 4" and n: "find_str kHeaderTerminator (take m bytes) \<noteq> None"
  then obtain k where k: "find_str kHeaderTerminator (take m bytes) = Some k" by blast
  from find_str_append [OF k, of "drop m bytes"] find_str_bound [OF k] e show False by simp
qed

lemma recv_pieces:
  assumes "find_str kHeaderTerminator bytes = Some e" "m + 4096 < e + 4" "m < limit"
  shows "recv_loop limit (take m bytes) [drop m bytes] = recv_loop limit (take (m + 4096) bytes) [drop (m + 4096) bytes]"
proof -
  have len: "e + 4 \<le> length bytes" using find_str_bound [OF assms(1)] by simp
  have t: "take m bytes @ take 4096 (drop m bytes) = take (m + 4096) bytes" by (simp add: take_add)
  have "recv_loop limit (take m bytes) [drop m bytes] = recv_loop limit (take m bytes @ take 4096 (drop m bytes)) [drop 4096 (drop m bytes)]"
  proof (rule recv_step)
    show "sock_recv 4096 [drop m bytes] = (take 4096 (drop m bytes), [drop 4096 (drop m bytes)])" using len assms(2) by (simp add: sock_recv_def)
    show "find_str kHeaderTerminator (take m bytes @ take 4096 (drop m bytes)) = None" unfolding t by (rule find_take_none [OF assms(1,2)])
  qed (use len assms in auto)
  then show ?thesis unfolding t by (simp add: add.commute)
qed

lemma headers_depend_on_pieces:
  assumes "find_str kHeaderTerminator bytes = Some 16381"
  shows "rpc_handle_client handler [bytes] = (400, ''Bad Request'', error_body ''bad request'')"
    and "\<exists>conn. recv_until [take 1 bytes, drop 1 bytes] kHeaderBufReserve = (True, take 16385 bytes, conn)"
proof -
  have len: "16385 \<le> length bytes" using find_str_bound [OF assms] by simp
  note step = recv_pieces [OF assms, where limit = kHeaderBufReserve]
  have "recv_until [bytes] kHeaderBufReserve = recv_loop kHeaderBufReserve (take 16384 bytes) [drop 16384 bytes]"
    using step [of 0] step [of 4096] step [of 8192] step [of 12288] by (simp add: recv_until_def kHeaderBufReserve_def)
  also have "\<dots> = (False, take 16384 bytes, [drop 16384 bytes])"
    using find_take_none [OF assms, of 16384] len by (simp add: recv_loop.simps kHeaderBufReserve_def)
  finally show "rpc_handle_client handler [bytes] = (400, ''Bad Request'', error_body ''bad request'')" by (simp add: rpc_handle_client_def)
  have f: "find_str kHeaderTerminator (take 16385 bytes) = Some 16381"
    using find_str_cut [of kHeaderTerminator "take 16385 bytes" "drop 16385 bytes" 16381] assms len by simp
  have t: "take 12289 bytes @ take 4096 (drop 12289 bytes) = take 16385 bytes" using take_add [of 12289 4096 bytes] by simp
  have "recv_loop kHeaderBufReserve [] [take 1 bytes, drop 1 bytes] = recv_loop kHeaderBufReserve ([] @ take 1 bytes) [drop 1 bytes]"
  proof (rule recv_step)
    show "find_str kHeaderTerminator ([] @ take 1 bytes) = None" using find_take_none [OF assms, of 1] by simp
  qed (use len in \<open>auto simp: sock_recv_def kHeaderBufReserve_def\<close>)
  also have "\<dots> = recv_loop kHeaderBufReserve (take 12289 bytes) [drop 12289 bytes]"
    using step [of 1] step [of 4097] step [of 8193] by (simp add: kHeaderBufReserve_def)
  also have "\<exists>conn. \<dots> = (True, take 16385 bytes, conn)"
    using f t len by (auto simp: recv_loop.simps [of _ "take 12289 bytes"] sock_recv_def kHeaderBufReserve_def)
  finally show "\<exists>conn. recv_until [take 1 bytes, drop 1 bytes] kHeaderBufReserve = (True, take 16385 bytes, conn)" by (simp add: recv_until_def)
qed

text \<open>\<open>strtoull\<close> takes a sign, and stops at a zero byte.\<close>

lemma negative_length_accepted: "content_length_of [''Content-Length: -18446744073709551615''] = Some (Some 1)"
proof -
  have 1: "split_first CHR '':'' ''Content-Length: -18446744073709551615'' = Some (''Content-Length'', '' -18446744073709551615'')"
    by (simp add: split_first_eq)
  have 2: "trim '' -18446744073709551615'' = ''-18446744073709551615''" by (rule trim_plain) simp
  have 3: "strtoull (c_str ''-18446744073709551615'') = (1, [])"
    by (simp add: strtoull_def c_str_def sign_of_def is_space_def is_digit_def dec_value_def digit_val_def)
  show ?thesis by (simp add: 1 2 3 lower_content_length)
qed

lemma zero_byte_length_accepted: "content_length_of [''Content-Length: '' @ [CHR 0x00] @ ''7''] = Some (Some 0)"
  by code_simp

text \<open>A response longer than what one call of \<open>send\<close> takes is cut; nothing sends the rest.\<close>

lemma response_cut: "n < length (rpc_response status reason body) \<Longrightarrow> rpc_send_response n status reason body \<noteq> rpc_response status reason body"
  by (simp add: rpc_send_response_def)

text \<open>The query is decoded before it is split, so an encoded ampersand separates.\<close>

lemma query_decoded_first:
  "split_target ''/stats?x=%26take=1'' = (''/stats'', ''x=&take=1'') \<and> query_has (snd (split_target ''/stats?x=%26take=1'')) ''take=1''"
  by code_simp

text \<open>\<open>strtol\<close> takes a sign in the place of the first digit.\<close>

lemma percent_sign_accepted: "url_decode ''%-1'' = [CHR 0xFF]"
  by code_simp

section \<open>The metrics server answers completely\<close>

lemma send_all_sent: "\<forall>n \<in> set ns. 0 < n \<Longrightarrow> length out \<le> sum_list ns \<Longrightarrow> send_loop out ns = out"
proof (induction out ns rule: send_loop.induct)
  case (2 rest n ns)
  show ?case
  proof (cases "rest = []")
    case False
    then have "send_loop (drop n rest) ns = drop n rest" using "2.IH" "2.prems" by auto
    with False "2.prems" show ?thesis by simp
  qed simp
qed simp

text \<open>The metrics server answers every request whose headers fit into its buffer by the first line alone,
  however the request is cut into pieces, and the client gets the whole response however little the socket takes
  at a time, as long as it takes it all; the store is left as the export leaves it.\<close>

theorem metrics_answered:
  assumes "[] \<notin> set conn" "find_str kHeaderTerminator (concat conn) = Some e" "e + 4 \<le> 4095"
    and "request_target (concat conn) = Some (meth, target)" "metrics_reply now meth target st = (r, st')"
    and "\<forall>n \<in> set accepts. 0 < n" "length (metrics_response r) \<le> sum_list accepts"
  shows "metrics_handle_client now conn accepts st = (metrics_response r, st')"
proof -
  obtain buf conn' where b: "request_loop [] conn = (buf, conn')" by force
  obtain n where n: "find_str crlf buf = Some n" "find_str crlf (concat conn) = Some n" "take n buf = take n (concat conn)"
    using metrics_head.first_line_read [OF assms(1-3)] b by blast
  have "request_target buf = Some (meth, target)" using assms(4) n by (simp add: request_target_def)
  moreover have "buf \<noteq> []" using n(1) by (auto simp: crlf_def)
  ultimately show ?thesis using b assms(5-7) send_all_sent by (simp add: metrics_handle_client_def read_request_def)
qed

theorem metrics_answered_witness:
  "\<exists>st'. metrics_handle_client 0 [''GET /heal'', ''thz HTTP/1.1'' @ crlf @ crlf] [100, 1, 1000] (new_metrics 0 0)
     = (metrics_response (200, ''OK'', ''text/plain; charset=utf-8'', ''ok'' @ [CHR 0x0A]), st')"
proof -
  let ?c = "[''GET /heal'', ''thz HTTP/1.1'' @ crlf @ crlf]"
  have 1: "[] \<notin> set ?c" by simp
  have 2: "find_str kHeaderTerminator (concat ?c) = Some 21" by code_simp
  have 3: "request_target (concat ?c) = Some (''GET'', ''/healthz'')" by code_simp
  have "split_target ''/healthz'' = (''/healthz'', [])" by code_simp
  then have 4: "metrics_reply 0 ''GET'' ''/healthz'' (new_metrics 0 0) = ((200, ''OK'', ''text/plain; charset=utf-8'', ''ok'' @ [CHR 0x0A]), new_metrics 0 0)"
    by (simp add: metrics_reply_def)
  have 5: "length (metrics_response (200, ''OK'', ''text/plain; charset=utf-8'', ''ok'' @ [CHR 0x0A])) \<le> sum_list [100, 1, 1000]" by code_simp
  have 6: "(21::nat) + 4 \<le> 4095" "\<forall>n \<in> set [100, 1, 1000 :: nat]. 0 < n" by simp_all
  from metrics_answered [OF 1 2 6(1) 3 4 6(2) 5] show ?thesis by blast
qed

end
