(* ===== verification/Otlp.thy ===== *)
theory Otlp
  imports Http
begin

text \<open>
  The exporter of metrics to an OTLP collector (\<open>src/otlp.cpp\<close>): the JSON body, the HTTP request and the export
  itself. What the network does is an argument: whether the name resolves, a socket and the connection are
  granted, how much the socket takes each time, and the first bytes of the reply. The JSON strings are shown to
  be readable, the request to have the form the servers of this program read, and an export to hand over what
  the store had collected, or to lose it when the collector cannot be reached.
\<close>

definition escape_json_char_otlp :: "char \<Rightarrow> string" where
  "escape_json_char_otlp c =
     (if c = CHR 0x22 then [CHR 0x5C, CHR 0x22] else if c = CHR 0x5C then [CHR 0x5C, CHR 0x5C]
      else if c = CHR 0x0A then [CHR 0x5C, CHR ''n''] else if c = CHR 0x0D then [CHR 0x5C, CHR ''r'']
      else if c = CHR 0x09 then [CHR 0x5C, CHR ''t'']
      else if (of_char c :: nat) < 32
      then [CHR 0x5C, CHR ''u'', CHR ''0'', CHR ''0'', hex_char (of_char c div 16), hex_char (of_char c mod 16)]
      else [c])"

definition escape_json_string_otlp :: "string \<Rightarrow> string" where
  "escape_json_string_otlp s = concat (map escape_json_char_otlp s)"

definition split_key_otlp :: "string \<Rightarrow> string \<times> string \<times> string" where
  "split_key_otlp key =
     (case split_first kKeySeparator key of
        None \<Rightarrow> (key, [], [])
      | Some (direction, r) \<Rightarrow>
          (case split_first kKeySeparator r of None \<Rightarrow> (direction, r, []) | Some (rpc_name, metadata) \<Rightarrow> (direction, rpc_name, metadata)))"

text \<open>One attribute, one data point, one of the four metrics, and the whole body.\<close>

definition otlp_attribute :: "string \<Rightarrow> string \<Rightarrow> string" where
  "otlp_attribute key v =
     ''{'' @ quoted ''key'' @ '':'' @ quoted key @ '','' @ quoted ''value'' @ '':{'' @ quoted ''stringValue'' @ '':''
     @ quoted (escape_json_string_otlp v) @ ''}}''"

definition otlp_point :: "int \<Rightarrow> (metric_value \<Rightarrow> u64) \<Rightarrow> string \<times> metric_value \<Rightarrow> string" where
  "otlp_point nanos field kv =
     (case split_key_otlp (fst kv) of (direction, rpc_name, metadata) \<Rightarrow>
        ''{'' @ quoted ''attributes'' @ '':['' @ otlp_attribute ''direction'' direction @ '','' @ otlp_attribute ''rpc_name'' rpc_name @ '',''
        @ otlp_attribute ''metadata'' metadata @ ''],'' @ quoted ''timeUnixNano'' @ '':'' @ quoted (int_string nanos) @ '',''
        @ quoted ''asInt'' @ '':'' @ quoted (u64_string (field (snd kv))) @ ''}'')"

definition otlp_metric :: "int \<Rightarrow> metric_map \<Rightarrow> string \<times> (metric_value \<Rightarrow> u64) \<Rightarrow> string" where
  "otlp_metric nanos data m =
     ''{'' @ quoted ''name'' @ '':'' @ quoted (fst m) @ '','' @ quoted ''gauge'' @ '':{'' @ quoted ''dataPoints'' @ '':[''
     @ comma_list (map (otlp_point nanos (snd m)) data) @ '']}}''"

definition metric_names :: "(string \<times> (metric_value \<Rightarrow> u64)) list" where
  "metric_names = [(''creek_rpc_calls_total'', mv_calls), (''creek_rpc_errors_total'', mv_errors),
     (''creek_rpc_bytes_total'', mv_bytes), (''creek_rpc_latency_microseconds_total'', mv_latency_us)]"

definition build_otlp_json :: "int \<Rightarrow> metric_map \<Rightarrow> string \<Rightarrow> string" where
  "build_otlp_json nanos data service_name =
     ''{'' @ quoted ''resourceMetrics'' @ '':[{'' @ quoted ''resource'' @ '':{'' @ quoted ''attributes'' @ '':[''
     @ otlp_attribute ''service.name'' service_name @ '']},'' @ quoted ''scopeMetrics'' @ '':[{'' @ quoted ''scope'' @ '':{'' @ quoted ''name'' @ '':''
     @ quoted ''creek'' @ ''},'' @ quoted ''metrics'' @ '':['' @ comma_list (map (otlp_metric nanos data) metric_names) @ '']}]}]}''"

record network =
  nw_startup :: bool
  nw_resolves :: bool
  nw_socket :: bool
  nw_connects :: bool
  nw_accepts :: "nat list"
  nw_reply :: string

definition post_request :: "string \<Rightarrow> u16 \<Rightarrow> string \<Rightarrow> string \<Rightarrow> string" where
  "post_request host port path body =
     ''POST '' @ path @ '' HTTP/1.1'' @ crlf @ ''Host: '' @ host @ (if port \<noteq> 80 then '':'' @ to_decimal (unat port) else []) @ crlf
     @ ''Content-Type: application/json'' @ crlf @ ''Content-Length: '' @ to_decimal (length body) @ crlf
     @ ''Connection: close'' @ crlf @ crlf @ body"

text \<open>The result and what the collector has got.\<close>

definition http_post :: "network \<Rightarrow> string \<Rightarrow> u16 \<Rightarrow> string \<Rightarrow> string \<Rightarrow> bool \<times> string" where
  "http_post nw host port path body =
     (if \<not> nw_resolves nw \<or> \<not> nw_socket nw \<or> \<not> nw_connects nw then (False, [])
      else
        let req = post_request host port path body; sent = send_loop req (nw_accepts nw) in
        if length sent < length req then (False, sent)
        else
          let resp = take 4095 (nw_reply nw) in
          if resp = [] then (False, sent)
          else (find_str ''HTTP/1.1 2'' resp = Some 0 \<or> find_str ''HTTP/1.0 2'' resp = Some 0, sent))"

record otlp_exporter =
  oe_collector_addr :: string
  oe_service_name :: string
  oe_use_tls :: bool
  oe_stopped :: bool
  oe_wsa_initialized :: bool

definition new_exporter :: "string \<Rightarrow> string \<Rightarrow> bool \<Rightarrow> otlp_exporter" where
  "new_exporter addr service tls = \<lparr>oe_collector_addr = addr, oe_service_name = service, oe_use_tls = tls, oe_stopped = False, oe_wsa_initialized = False\<rparr>"

definition export_metrics :: "network \<Rightarrow> timepoint \<Rightarrow> int \<Rightarrow> otlp_exporter \<Rightarrow> metrics_store \<Rightarrow> (bool \<times> string) \<times> otlp_exporter \<times> metrics_store" where
  "export_metrics nw now nanos oe st =
     (if oe_stopped oe then ((False, []), oe, st)
      else if \<not> oe_wsa_initialized oe \<and> \<not> nw_startup nw then ((False, []), oe, st)
      else
        let oe = oe\<lparr>oe_wsa_initialized := True\<rparr> in
        (case metrics_take now st of
           (data, st) \<Rightarrow>
             if data = [] then ((True, []), oe, st)
             else
               let body = build_otlp_json nanos data (oe_service_name oe) in
               (case parse_address (oe_collector_addr oe) of
                  None \<Rightarrow> ((False, []), oe, st)
                | Some addr \<Rightarrow> (http_post nw (ad_host addr) (ad_port addr) ''/v1/metrics'' body, oe, st))))"

definition stop_exporter :: "otlp_exporter \<Rightarrow> otlp_exporter" where
  "stop_exporter oe = (if oe_stopped oe then oe else oe\<lparr>oe_stopped := True, oe_wsa_initialized := False\<rparr>)"

section \<open>What the collector reads\<close>

lemma split_key_otlp_eq: "split_key_otlp = split_key"
  by (rule ext) (simp add: split_key_otlp_def split_key_def)

lemma json_unescape_otlp_char: "json_unescape (escape_json_char_otlp c @ t) = map_option (Cons c) (json_unescape t)"
proof (cases "c = CHR 0x08 \<or> c = CHR 0x0C")
  case True
  have x: "is_xdigit CHR ''0''" "xdigit_val CHR ''0'' = 0" "is_xdigit (hex_char 0)" "xdigit_val (hex_char 0) = 0"
    "is_xdigit (hex_char 8)" "xdigit_val (hex_char 8) = 8" "is_xdigit (hex_char 12)" "xdigit_val (hex_char 12) = 12"
    by (simp_all add: is_xdigit_def is_digit_def xdigit_val_def digit_val_def hex_char_def)
  have c: "char_of (8 :: nat) = CHR 0x08" "char_of (12 :: nat) = CHR 0x0C" by code_simp+
  from True show ?thesis
    by (subst json_unescape.simps) (auto simp: escape_json_char_otlp_def x hex_value_def c)
next
  case False
  then have "escape_json_char_otlp c = escape_json_char c" by (simp add: escape_json_char_otlp_def escape_json_char_def)
  then show ?thesis by (simp add: json_unescape_char)
qed

lemma otlp_escape_roundtrip: "json_unescape (escape_json_string_otlp s) = Some s"
proof -
  have "json_unescape (escape_json_string_otlp s @ t) = map_option (append s) (json_unescape t)" for t
    by (induction s) (simp_all add: escape_json_string_otlp_def json_unescape_otlp_char option.map_comp comp_def option.map_ident)
  from this [of "[]"] show ?thesis by (simp add: json_unescape.simps)
qed

definition post_lines :: "string \<Rightarrow> u16 \<Rightarrow> string \<Rightarrow> nat \<Rightarrow> string list" where
  "post_lines host port path n =
     (''POST '' @ path @ '' HTTP/1.1'') # map header_line [(''Host'', host @ (if port \<noteq> 80 then '':'' @ to_decimal (unat port) else [])), (''Content-Type'', ''application/json'')]
     @ header_line (''Content-Length'', to_decimal n) # [header_line (''Connection'', ''close'')]"

lemma post_request_lines: "post_request host port path body = header_text (post_lines host port path (length body)) @ crlf @ body"
  by (simp add: post_request_def post_lines_def header_line_def)

lemma post_read:
  fixes port :: u16
  assumes "CHR 0x0D \<notin> set host" "CHR 0x0D \<notin> set path" "CHR '' '' \<notin> set path" "CHR '':'' \<notin> set path" "path \<noteq> []" "length body < 2 ^ 64"
  defines "e \<equiv> length (header_text (post_lines host port path (length body))) - 2"
  shows "find_str kHeaderTerminator (post_request host port path body) = Some e"
    and "drop (e + 4) (post_request host port path body) = body"
    and "parse_request_line (take (e + 4) (post_request host port path body)) = Some (''POST'', path)"
    and "parse_content_length (take (e + 4) (post_request host port path body)) = Some (Some (length body))"
proof -
  let ?ls = "post_lines host port path (length body)"
  have ok: "\<forall>l \<in> set ?ls. l \<noteq> [] \<and> CHR 0x0D \<notin> set l"
    using assms(1,2) by (auto simp: post_lines_def header_line_def dest: decimal_chars)
  show "find_str kHeaderTerminator (post_request host port path body) = Some e"
    unfolding e_def post_request_lines by (rule lines_end [OF _ ok]) (simp add: post_lines_def)
  have len: "e + 4 = length (header_text ?ls @ crlf)" by (simp add: e_def post_lines_def crlf_def)
  have t: "take (e + 4) (post_request host port path body) = header_text ?ls @ crlf" by (simp add: len post_request_lines)
  show "drop (e + 4) (post_request host port path body) = body" by (simp add: len post_request_lines)
  let ?l = "''POST '' @ path @ '' HTTP/1.1''"
  have skip: "find_str '' '' (path @ r) = map_option ((+) (length path)) (find_str '' '' r)" for r
    using assms(3) by (induction path) (auto simp: map_option_case split: option.split)
  have "find_str crlf (?l @ crlf @ r) = Some (length ?l)" for r using assms(2) by (intro find_line) simp
  then have "find_str crlf (header_text ?ls @ crlf) = Some (length ?l)" by (simp add: post_lines_def)
  moreover have "take (length ?l) (header_text ?ls @ crlf) = ?l" by (simp add: post_lines_def)
  ultimately show "parse_request_line (take (e + 4) (post_request host port path body)) = Some (''POST'', path)"
    unfolding t parse_request_line_def using assms(5) by (simp add: skip)
  have lower: "to_lower ''Host'' = ''host''" "to_lower ''Content-Type'' = ''content-type''" by code_simp+
  have "\<forall>kv \<in> set [(''Host'', host @ (if port \<noteq> 80 then '':'' @ to_decimal (unat port) else [])), (''Content-Type'', ''application/json'')]. header_ok kv"
    using assms(1) by (auto simp: header_ok_def lower dest: decimal_chars)
  note cl = content_length_lines [OF this assms(6), of "[header_line (''Connection'', ''close'')]"]
  have "split_first CHR '':'' ?l = None" using assms(4) by (simp add: split_first_def)
  then have "content_length_of ?ls = Some (Some (length body))" using cl by (simp add: post_lines_def)
  then show "parse_content_length (take (e + 4) (post_request host port path body)) = Some (Some (length body))"
    unfolding t parse_content_length_def header_lines_text [OF ok] .
qed

section \<open>An export\<close>



text \<open>The counters are taken out of the store before the collector is asked: when it cannot be reached, or
  refuses, they are gone.\<close>

lemma failed_export_loses:
  assumes "\<not> oe_stopped oe" "nw_startup nw" "\<not> nw_connects nw" "ms_cumulative st \<noteq> []"
  shows "\<exists>oe' st'. export_metrics nw now nanos oe st = ((False, []), oe', st') \<and> ms_cumulative st' = []"
  using assms by (cases "parse_address (oe_collector_addr oe)") (simp_all add: export_metrics_def metrics_take_def http_post_def Let_def)

end
