(* ===== verification/Adapters.thy ===== *)
theory Adapters
  imports Framework Routing Breaker Metrics
begin

text \<open>
  The adapters that put the directory, the balancer, the breaker and the metrics store on the blackboard
  (\<open>src/framework/routing_adapter.cpp\<close>) and the clock of tests (\<open>src/framework/time_source.cpp\<close>). An adapter
  owns its component and marks its key as changed; what the blackboard holds of the component is a pointer,
  of any type here. The interface \<open>change_announcer\<close> says that what others see of the component does not change
  without its key being marked; from it follows that the next round of the evolvers is told. The lemmas at the
  end show the export that breaks this rule.
\<close>

record ('s, 'v) adapter =
  ad_state :: 's
  ad_board :: "'v blackboard"
  ad_key :: string

definition new_adapter :: "string \<Rightarrow> string \<Rightarrow> 'v \<Rightarrow> 's \<Rightarrow> 'v blackboard \<Rightarrow> ('s, 'v) adapter" where
  "new_adapter ty key ptr s bb = \<lparr>ad_state = s, ad_board = register_value ty key ptr DP_SharedLocked bb, ad_key = key\<rparr>"

text \<open>The private \<open>mark_changed\<close> of each adapter.\<close>

definition adapter_mark :: "('s, 'v) adapter \<Rightarrow> ('s, 'v) adapter" where
  "adapter_mark a = a\<lparr>ad_board := mark_changed (ad_key a) (ad_board a)\<rparr>"

section \<open>The directory\<close>

definition dir_adapter_new :: "'v \<Rightarrow> string \<Rightarrow> 'v blackboard \<Rightarrow> (directory, 'v) adapter" where
  "dir_adapter_new ptr key bb = new_adapter ''EndpointDirectory'' key ptr new_directory bb"

definition dir_adapter_merge :: "endpoint \<Rightarrow> (directory, 'v) adapter \<Rightarrow> bool \<times> (directory, 'v) adapter" where
  "dir_adapter_merge ep a =
     (case merge_endpoint ep (ad_state a) of
        (changed, d) \<Rightarrow> (changed, if changed then adapter_mark (a\<lparr>ad_state := d\<rparr>) else a\<lparr>ad_state := d\<rparr>))"

definition dir_adapter_merge_snapshot :: "u64 \<Rightarrow> directory_snapshot \<Rightarrow> (directory, 'v) adapter \<Rightarrow> bool \<times> (directory, 'v) adapter" where
  "dir_adapter_merge_snapshot now snap a =
     (case merge_snapshot now snap (ad_state a) of
        (changed, d) \<Rightarrow> (changed, if changed then adapter_mark (a\<lparr>ad_state := d\<rparr>) else a\<lparr>ad_state := d\<rparr>))"

definition dir_adapter_upsert_local :: "u64 \<Rightarrow> endpoint \<Rightarrow> (directory, 'v) adapter \<Rightarrow> (directory, 'v) adapter" where
  "dir_adapter_upsert_local now ep a = adapter_mark (a\<lparr>ad_state := upsert_local now ep (ad_state a)\<rparr>)"

definition dir_adapter_find :: "string \<Rightarrow> (directory, 'v) adapter \<Rightarrow> endpoint option" where
  "dir_adapter_find i a = find_endpoint i (ad_state a)"

definition dir_adapter_service :: "string \<Rightarrow> (directory, 'v) adapter \<Rightarrow> endpoint list" where
  "dir_adapter_service name a = service_endpoints name (ad_state a)"

definition dir_adapter_snapshot :: "u64 \<Rightarrow> u64 \<Rightarrow> string \<Rightarrow> (directory, 'v) adapter \<Rightarrow> directory_snapshot \<times> (directory, 'v) adapter" where
  "dir_adapter_snapshot generated now source a = (case snapshot generated now source (ad_state a) of (sn, d) \<Rightarrow> (sn, a\<lparr>ad_state := d\<rparr>))"

definition dir_adapter_version :: "(directory, 'v) adapter \<Rightarrow> u64" where
  "dir_adapter_version a = d_version (ad_state a)"

definition dir_adapter_size :: "(directory, 'v) adapter \<Rightarrow> nat" where
  "dir_adapter_size a = length (d_endpoints (ad_state a))"

section \<open>The balancer\<close>

definition bal_adapter_new :: "'v \<Rightarrow> balancer \<Rightarrow> string \<Rightarrow> 'v blackboard \<Rightarrow> (balancer, 'v) adapter" where
  "bal_adapter_new ptr b key bb = new_adapter ''StickyBalancer'' key ptr b bb"

definition bal_adapter_pick :: "(string \<Rightarrow> nat) \<Rightarrow> string \<Rightarrow> metadata \<Rightarrow> endpoint list \<Rightarrow> timepoint \<Rightarrow> (balancer, 'v) adapter \<Rightarrow> endpoint option \<times> (balancer, 'v) adapter" where
  "bal_adapter_pick hash service md eps now a =
     (case pick hash service md eps now (ad_state a) of (r, b) \<Rightarrow> (r, adapter_mark (a\<lparr>ad_state := b\<rparr>)))"

definition bal_adapter_invalidate :: "string \<Rightarrow> (balancer, 'v) adapter \<Rightarrow> (balancer, 'v) adapter" where
  "bal_adapter_invalidate i a = adapter_mark (a\<lparr>ad_state := invalidate i (ad_state a)\<rparr>)"

definition bal_adapter_set_ttl :: "duration \<Rightarrow> (balancer, 'v) adapter \<Rightarrow> (balancer, 'v) adapter" where
  "bal_adapter_set_ttl ttl a = adapter_mark (a\<lparr>ad_state := set_ttl ttl (ad_state a)\<rparr>)"

definition bal_adapter_sizes :: "(balancer, 'v) adapter \<Rightarrow> nat \<times> nat" where
  "bal_adapter_sizes a = (active_size (ad_state a), lru_size (ad_state a))"

section \<open>The breaker\<close>

definition brk_adapter_new :: "'v \<Rightarrow> string \<Rightarrow> 'v blackboard \<Rightarrow> (circuit_breaker, 'v) adapter" where
  "brk_adapter_new ptr key bb = new_adapter ''CircuitBreaker'' key ptr (new_breaker default_circuit_config) bb"

definition brk_adapter_allow :: "string \<Rightarrow> timepoint \<Rightarrow> (circuit_breaker, 'v) adapter \<Rightarrow> bool \<times> (circuit_breaker, 'v) adapter" where
  "brk_adapter_allow i now a = (case allow i now (ad_state a) of (r, b) \<Rightarrow> (r, adapter_mark (a\<lparr>ad_state := b\<rparr>)))"

definition brk_adapter_record_success :: "string \<Rightarrow> u64 \<Rightarrow> (circuit_breaker, 'v) adapter \<Rightarrow> (circuit_breaker, 'v) adapter" where
  "brk_adapter_record_success i lat a = adapter_mark (a\<lparr>ad_state := record_success i lat (ad_state a)\<rparr>)"

definition brk_adapter_record_failure :: "string \<Rightarrow> timepoint \<Rightarrow> (circuit_breaker, 'v) adapter \<Rightarrow> (circuit_breaker, 'v) adapter" where
  "brk_adapter_record_failure i now a = adapter_mark (a\<lparr>ad_state := record_failure i now (ad_state a)\<rparr>)"

definition brk_adapter_state :: "string \<Rightarrow> (circuit_breaker, 'v) adapter \<Rightarrow> circuit_state" where
  "brk_adapter_state i a = breaker_state i (ad_state a)"

definition brk_adapter_stats :: "string \<Rightarrow> (circuit_breaker, 'v) adapter \<Rightarrow> endpoint_stats" where
  "brk_adapter_stats i a = breaker_stats i (ad_state a)"

definition brk_adapter_reset :: "string \<Rightarrow> (circuit_breaker, 'v) adapter \<Rightarrow> (circuit_breaker, 'v) adapter" where
  "brk_adapter_reset i a = adapter_mark (a\<lparr>ad_state := breaker_reset i (ad_state a)\<rparr>)"

definition brk_adapter_reset_all :: "(circuit_breaker, 'v) adapter \<Rightarrow> (circuit_breaker, 'v) adapter" where
  "brk_adapter_reset_all a = adapter_mark (a\<lparr>ad_state := breaker_reset_all (ad_state a)\<rparr>)"

definition brk_adapter_size :: "(circuit_breaker, 'v) adapter \<Rightarrow> nat" where
  "brk_adapter_size a = breaker_size (ad_state a)"

section \<open>The metrics store\<close>

definition met_adapter_new :: "'v \<Rightarrow> metrics_store \<Rightarrow> string \<Rightarrow> 'v blackboard \<Rightarrow> (metrics_store, 'v) adapter" where
  "met_adapter_new ptr st key bb = new_adapter ''MetricsStore'' key ptr st bb"

definition met_adapter_record :: "timepoint \<Rightarrow> metric_event \<Rightarrow> (metrics_store, 'v) adapter \<Rightarrow> (metrics_store, 'v) adapter" where
  "met_adapter_record now ev a = adapter_mark (a\<lparr>ad_state := metrics_record now ev (ad_state a)\<rparr>)"

definition met_adapter_previous :: "timepoint \<Rightarrow> (metrics_store, 'v) adapter \<Rightarrow> metric_map \<times> (metrics_store, 'v) adapter" where
  "met_adapter_previous now a = (case metrics_previous now (ad_state a) of (m, st) \<Rightarrow> (m, a\<lparr>ad_state := st\<rparr>))"

definition met_adapter_current :: "timepoint \<Rightarrow> (metrics_store, 'v) adapter \<Rightarrow> metric_map \<times> (metrics_store, 'v) adapter" where
  "met_adapter_current now a = (case metrics_current now (ad_state a) of (m, st) \<Rightarrow> (m, a\<lparr>ad_state := st\<rparr>))"

definition met_adapter_take :: "timepoint \<Rightarrow> (metrics_store, 'v) adapter \<Rightarrow> metric_map \<times> (metrics_store, 'v) adapter" where
  "met_adapter_take now a = (case metrics_take now (ad_state a) of (m, st) \<Rightarrow> (m, adapter_mark (a\<lparr>ad_state := st\<rparr>)))"

definition met_adapter_openmetrics :: "timepoint \<Rightarrow> (metrics_store, 'v) adapter \<Rightarrow> string \<times> (metrics_store, 'v) adapter" where
  "met_adapter_openmetrics now a = (case openmetrics now (ad_state a) of (s, st) \<Rightarrow> (s, a\<lparr>ad_state := st\<rparr>))"

definition met_adapter_json :: "timepoint \<Rightarrow> bool \<Rightarrow> bool \<Rightarrow> (metrics_store, 'v) adapter \<Rightarrow> string \<times> (metrics_store, 'v) adapter" where
  "met_adapter_json now prev take_values a = (case metrics_json now prev take_values (ad_state a) of (s, st) \<Rightarrow> (s, a\<lparr>ad_state := st\<rparr>))"

section \<open>The clock of tests\<close>

record virtual_clock =
  vc_steady_base :: timepoint
  vc_steady_now :: timepoint

definition new_virtual_clock :: virtual_clock where "new_virtual_clock = \<lparr>vc_steady_base = 0, vc_steady_now = 0\<rparr>"
definition virtual_steady_now :: "virtual_clock \<Rightarrow> timepoint" where "virtual_steady_now c = vc_steady_now c"
definition virtual_system_now :: "virtual_clock \<Rightarrow> timepoint" where "virtual_system_now c = vc_steady_now c"
definition virtual_steady_millis :: "virtual_clock \<Rightarrow> u64" where "virtual_steady_millis c = of_int (count_ms (vc_steady_now c))"
definition virtual_system_millis :: "virtual_clock \<Rightarrow> u64" where "virtual_system_millis c = of_int (count_ms (vc_steady_now c))"
definition virtual_advance :: "int \<Rightarrow> virtual_clock \<Rightarrow> virtual_clock" where "virtual_advance ms c = c\<lparr>vc_steady_now := vc_steady_now c + msec ms\<rparr>"
definition virtual_reset :: "timepoint \<Rightarrow> virtual_clock \<Rightarrow> virtual_clock" where "virtual_reset base c = c\<lparr>vc_steady_base := base, vc_steady_now := base\<rparr>"

lemma count_ms_msec: "count_ms (msec n) = n"
  by (cases "0 \<le> n") (simp_all add: count_ms_def msec_def trunc_div_def sgn_if abs_if not_le)

lemma virtual_advances:
  "virtual_advance n (virtual_advance m c) = virtual_advance (m + n) c"
  "virtual_steady_millis (virtual_advance n (virtual_reset 0 c)) = of_int n"
  by (simp_all add: virtual_advance_def virtual_reset_def virtual_steady_millis_def count_ms_msec) (simp add: msec_def algebra_simps)

section \<open>Changes are announced\<close>

locale change_announcer =
  fixes step :: "'op \<Rightarrow> ('s, 'v) adapter \<Rightarrow> ('s, 'v) adapter" and loud :: "'op \<Rightarrow> bool" and visible :: "'s \<Rightarrow> 'w"
  assumes step_key: "ad_key (step op a) = ad_key a" and step_changed: "set (bb_changed (ad_board a)) \<subseteq> set (bb_changed (ad_board (step op a)))"
    and step_marks: "loud op \<Longrightarrow> visible (ad_state (step op a)) \<noteq> visible (ad_state a) \<Longrightarrow> ad_key a \<in> set (bb_changed (ad_board (step op a)))"
begin

lemma run_keeps: "ad_key (fold step ops a) = ad_key a \<and> set (bb_changed (ad_board a)) \<subseteq> set (bb_changed (ad_board (fold step ops a)))"
proof (induction ops arbitrary: a)
  case (Cons op ops)
  with step_key [of op a] step_changed [of a op] show ?case by (metis fold_simps(2) subset_trans)
qed simp

lemma run_announces:
  assumes "\<forall>op \<in> set ops. loud op" "visible (ad_state (fold step ops a)) \<noteq> visible (ad_state a)"
  shows "ad_key a \<in> set (bb_changed (ad_board (fold step ops a)))"
  using assms
proof (induction ops arbitrary: a)
  case (Cons op ops)
  show ?case
  proof (cases "visible (ad_state (step op a)) = visible (ad_state a)")
    case True
    with Cons.IH [of "step op a"] Cons.prems step_key [of op a] show ?thesis by simp
  next
    case False
    with step_marks [of op a] Cons.prems(1) run_keeps [of ops "step op a"] show ?thesis by auto
  qed
qed simp

text \<open>The evolvers of the next round are given a list of keys with the adapter's in it.\<close>

lemma evolvers_told:
  assumes "\<forall>op \<in> set ops. loud op" "visible (ad_state (fold step ops a)) \<noteq> visible (ad_state a)"
  shows "\<exists>keys bb. ad_key a \<in> set keys \<and> evolve_once ev (ad_board (fold step ops a)) = evolve_all (ev_functions ev) keys empty_changes bb"
  using run_announces [OF assms] by (auto simp: evolve_once_def swap_changed_keys_def)

end

datatype dir_op = DoMerge endpoint | DoMergeSnapshot u64 directory_snapshot | DoUpsert u64 endpoint

fun dir_adapter_step :: "dir_op \<Rightarrow> (directory, 'v) adapter \<Rightarrow> (directory, 'v) adapter" where
  "dir_adapter_step (DoMerge ep) a = snd (dir_adapter_merge ep a)"
| "dir_adapter_step (DoMergeSnapshot now snap) a = snd (dir_adapter_merge_snapshot now snap a)"
| "dir_adapter_step (DoUpsert now ep) a = dir_adapter_upsert_local now ep a"

datatype bal_op = BoPick "string \<Rightarrow> nat" string metadata "endpoint list" timepoint | BoInvalidate string | BoTtl duration

fun bal_step :: "bal_op \<Rightarrow> (balancer, 'v) adapter \<Rightarrow> (balancer, 'v) adapter" where
  "bal_step (BoPick hash service md eps now) a = snd (bal_adapter_pick hash service md eps now a)"
| "bal_step (BoInvalidate i) a = bal_adapter_invalidate i a"
| "bal_step (BoTtl ttl) a = bal_adapter_set_ttl ttl a"

datatype brk_op = KoAllow string timepoint | KoSuccess string u64 | KoFailure string timepoint | KoReset string | KoResetAll

fun brk_step :: "brk_op \<Rightarrow> (circuit_breaker, 'v) adapter \<Rightarrow> (circuit_breaker, 'v) adapter" where
  "brk_step (KoAllow i now) a = snd (brk_adapter_allow i now a)"
| "brk_step (KoSuccess i lat) a = brk_adapter_record_success i lat a"
| "brk_step (KoFailure i now) a = brk_adapter_record_failure i now a"
| "brk_step (KoReset i) a = brk_adapter_reset i a"
| "brk_step KoResetAll a = brk_adapter_reset_all a"

datatype met_op = MoRecord timepoint metric_event | MoPrevious timepoint | MoCurrent timepoint | MoTake timepoint | MoText timepoint | MoJson timepoint bool bool

fun met_step :: "met_op \<Rightarrow> (metrics_store, 'v) adapter \<Rightarrow> (metrics_store, 'v) adapter" where
  "met_step (MoRecord now ev) a = met_adapter_record now ev a"
| "met_step (MoPrevious now) a = snd (met_adapter_previous now a)"
| "met_step (MoCurrent now) a = snd (met_adapter_current now a)"
| "met_step (MoTake now) a = snd (met_adapter_take now a)"
| "met_step (MoText now) a = snd (met_adapter_openmetrics now a)"
| "met_step (MoJson now prev tk) a = snd (met_adapter_json now prev tk a)"

fun met_loud :: "met_op \<Rightarrow> bool" where
  "met_loud (MoJson now prev tk) \<longleftrightarrow> prev \<or> \<not> tk"
| "met_loud _ \<longleftrightarrow> True"

lemma mark_simps [simp]:
  "ad_state (adapter_mark a) = ad_state a" "ad_key (adapter_mark a) = ad_key a"
  "set (bb_changed (ad_board (adapter_mark a))) = insert (ad_key a) (set (bb_changed (ad_board a)))"
  by (simp_all add: adapter_mark_def mark_changed_def)

lemma merge_same: "merge_endpoint ep d = (False, d') \<Longrightarrow> d' = d"
  by (auto simp: merge_endpoint_def split: if_splits option.splits)

lemma merges_same: "merge_endpoints eps d = (False, d') \<Longrightarrow> d' = d"
  by (induction eps arbitrary: d) (auto dest: merge_same split: prod.splits)

lemma removals_same: "apply_removals now eps d = (False, d') \<Longrightarrow> d_endpoints d' = d_endpoints d \<and> d_version d' = d_version d"
proof (induction eps arbitrary: d)
  case (Cons ep eps)
  obtain c d1 where 1: "apply_removal now (endpoint_id ep) (ep_version ep) (updated_ms ep) d = (c, d1)" by force
  have "\<not> c" using Cons.prems 1 by (auto split: prod.splits)
  then have "d_endpoints d1 = d_endpoints d \<and> d_version d1 = d_version d" using 1 by (auto simp: apply_removal_def Let_def split: if_splits)
  with Cons 1 show ?case by (auto split: prod.splits)
qed simp

lemma snapshot_same: "merge_snapshot now snap d = (False, d') \<Longrightarrow> d_endpoints d' = d_endpoints d \<and> d_version d' = d_version d"
  by (auto simp: merge_snapshot_def dest!: merges_same removals_same split: prod.splits)

interpretation dir_announcer: change_announcer dir_adapter_step "\<lambda>_. True" "\<lambda>d. (d_endpoints d, d_version d)"
proof (unfold_locales, goal_cases)
  case (1 op a)
  then show ?case by (cases op) (auto simp: dir_adapter_merge_def dir_adapter_merge_snapshot_def dir_adapter_upsert_local_def split: prod.splits)
next
  case (2 a op)
  then show ?case by (cases op) (auto simp: dir_adapter_merge_def dir_adapter_merge_snapshot_def dir_adapter_upsert_local_def split: prod.splits)
next
  case (3 op a)
  then show ?case
    by (cases op) (auto simp: dir_adapter_merge_def dir_adapter_merge_snapshot_def dir_adapter_upsert_local_def dest: merge_same snapshot_same split: prod.splits if_splits)
qed

interpretation bal_announcer: change_announcer bal_step "\<lambda>_. True" "\<lambda>b. b"
proof (unfold_locales, goal_cases)
  case (1 op a)
  then show ?case by (cases op) (auto simp: bal_adapter_pick_def bal_adapter_invalidate_def bal_adapter_set_ttl_def split: prod.splits)
next
  case (2 a op)
  then show ?case by (cases op) (auto simp: bal_adapter_pick_def bal_adapter_invalidate_def bal_adapter_set_ttl_def split: prod.splits)
next
  case (3 op a)
  then show ?case by (cases op) (auto simp: bal_adapter_pick_def bal_adapter_invalidate_def bal_adapter_set_ttl_def split: prod.splits)
qed

lemmas brk_adapter_defs = brk_adapter_allow_def brk_adapter_record_success_def brk_adapter_record_failure_def brk_adapter_reset_def brk_adapter_reset_all_def

interpretation brk_announcer: change_announcer brk_step "\<lambda>_. True" "\<lambda>b. b"
proof (unfold_locales, goal_cases)
  case (1 op a)
  then show ?case by (cases op) (auto simp: brk_adapter_defs split: prod.splits)
next
  case (2 a op)
  then show ?case by (cases op) (auto simp: brk_adapter_defs split: prod.splits)
next
  case (3 op a)
  then show ?case by (cases op) (auto simp: brk_adapter_defs split: prod.splits)
qed

lemmas met_adapter_defs = met_adapter_record_def met_adapter_previous_def met_adapter_current_def met_adapter_take_def met_adapter_openmetrics_def met_adapter_json_def

text \<open>Of the metrics store others see the counters that have not been taken; the periods turn by themselves.\<close>

interpretation met_announcer: change_announcer met_step met_loud ms_cumulative
proof (unfold_locales, goal_cases)
  case (1 op a)
  then show ?case by (cases op) (auto simp: met_adapter_defs split: prod.splits)
next
  case (2 a op)
  then show ?case by (cases op) (auto simp: met_adapter_defs split: prod.splits)
next
  case (3 op a)
  then show ?case
    by (cases op) (auto simp: met_adapter_defs metrics_previous_def metrics_current_def openmetrics_def metrics_json_def export_data_def Let_def split: prod.splits if_splits)
qed

text \<open>What the components put on the blackboard never changes unnoticed: after any sequence of operations through
  the adapters, if the endpoints of the directory, the sessions of the balancer, the statistics of the breaker
  or the counters that have not been taken differ from before, the next round of the evolvers runs with a list
  of changed keys that names the component. For the metrics the taking JSON export is excepted.\<close>

theorem adapters_announce:
  fixes da :: "(directory, 'v) adapter" and la :: "(balancer, 'v) adapter" and ka :: "(circuit_breaker, 'v) adapter" and ma :: "(metrics_store, 'v) adapter"
    and ev :: "('v, 'c) evolver"
  shows "(d_endpoints (ad_state (fold dir_adapter_step dops da)) \<noteq> d_endpoints (ad_state da) \<longrightarrow>
      (\<exists>keys bb. ad_key da \<in> set keys \<and> evolve_once ev (ad_board (fold dir_adapter_step dops da)) = evolve_all (ev_functions ev) keys empty_changes bb))
    \<and> (ad_state (fold bal_step bops la) \<noteq> ad_state la \<longrightarrow>
      (\<exists>keys bb. ad_key la \<in> set keys \<and> evolve_once ev (ad_board (fold bal_step bops la)) = evolve_all (ev_functions ev) keys empty_changes bb))
    \<and> (ad_state (fold brk_step kops ka) \<noteq> ad_state ka \<longrightarrow>
      (\<exists>keys bb. ad_key ka \<in> set keys \<and> evolve_once ev (ad_board (fold brk_step kops ka)) = evolve_all (ev_functions ev) keys empty_changes bb))
    \<and> ((\<forall>op \<in> set mops. met_loud op) \<longrightarrow> ms_cumulative (ad_state (fold met_step mops ma)) \<noteq> ms_cumulative (ad_state ma) \<longrightarrow>
      (\<exists>keys bb. ad_key ma \<in> set keys \<and> evolve_once ev (ad_board (fold met_step mops ma)) = evolve_all (ev_functions ev) keys empty_changes bb))"
  using dir_announcer.evolvers_told [of dops da ev] bal_announcer.evolvers_told [of bops la ev]
    brk_announcer.evolvers_told [of kops ka ev] met_announcer.evolvers_told [of mops ma ev] by simp

theorem adapters_announce_witness:
  "\<exists>keys bb. ''endpoint_directory'' \<in> set keys
     \<and> evolve_once (new_evolver :: (unit, unit) evolver)
         (ad_board (fold dir_adapter_step [DoUpsert 5 (empty_endpoint\<lparr>endpoint_id := ''e''\<rparr>)] (dir_adapter_new () ''endpoint_directory'' new_blackboard)))
       = evolve_all [] keys empty_changes bb"
proof -
  let ?a = "dir_adapter_new () ''endpoint_directory'' new_blackboard" and ?ops = "[DoUpsert 5 (empty_endpoint\<lparr>endpoint_id := ''e''\<rparr>)]"
  have "d_endpoints (ad_state (fold dir_adapter_step ?ops ?a)) \<noteq> d_endpoints (ad_state ?a)"
    by (simp add: dir_adapter_upsert_local_def dir_adapter_new_def new_adapter_def new_directory_def upsert_local_def empty_endpoint_def put_endpoint_def Let_def)
  with adapters_announce [of ?ops ?a new_evolver "[]" undefined "[]" undefined "[]" undefined]
  show ?thesis by (simp add: dir_adapter_new_def new_adapter_def new_evolver_def)
qed

text \<open>The JSON export that takes the counters empties the store and tells nobody.\<close>

lemma json_takes_silently:
  "ms_cumulative (ad_state (snd (met_adapter_json now False True a))) = [] \<and> ad_board (snd (met_adapter_json now False True a)) = ad_board a"
  by (simp add: met_adapter_json_def metrics_json_def export_data_def Let_def)

end
