(* ===== verification/Redis.thy ===== *)
theory Redis
  imports Http "HOL-Library.List_Lexorder"
begin

text \<open>
  The client of the Redis server in which nodes and leaves find each other (\<open>src/redis.cpp\<close>). The server and the
  hiredis library are not part of the program: what a connection attempt gives and how the server answers a
  command are arguments, with a server state of any type. A command is the list of its words, each cut at its
  first zero as \<open>%s\<close> does; no reply means that the connection broke. The connection is \<open>None\<close> for a null
  context and otherwise says whether its error flag is set. Exceptions are \<open>Inl\<close> of their text.

  The lemmas show, for every server that keeps hashes as documented, that a registration is found by its node
  and by no other whose name is free of colons, and that renewing the lease restores it after a loss.
\<close>

datatype redis_reply = StatusReply string | ErrorReply string | NilReply | IntegerReply int | StringReply string | ArrayReply "redis_reply list"

record 'srv redis_net =
  rn_connect :: bool
  rn_exec :: "string list \<Rightarrow> 'srv \<Rightarrow> redis_reply option \<times> 'srv"

record redis_options =
  ro_host :: string
  ro_port :: u16
  ro_user :: string
  ro_password :: string
  ro_key :: string

definition default_redis_options :: redis_options where
  "default_redis_options = \<lparr>ro_host = ''127.0.0.1'', ro_port = 0, ro_user = [], ro_password = [], ro_key = ''creek:nodes''\<rparr>"

record redis_client =
  rd_options :: redis_options
  rd_self_id :: string
  rd_registered_address :: string
  rd_registered_leaf_address :: string
  rd_registered_parent :: string
  rd_ctx :: "bool option"

definition redis_command :: "'srv redis_net \<Rightarrow> string list \<Rightarrow> 'srv \<Rightarrow> redis_reply option \<times> 'srv" where
  "redis_command net words srv = rn_exec net (map c_str words) srv"

fun is_error :: "redis_reply option \<Rightarrow> bool" where
  "is_error None \<longleftrightarrow> True"
| "is_error (Some (ErrorReply _)) \<longleftrightarrow> True"
| "is_error _ \<longleftrightarrow> False"

text \<open>The characters of a reply that has some.\<close>

fun reply_str :: "redis_reply \<Rightarrow> string option" where
  "reply_str (StatusReply s) = Some s"
| "reply_str (ErrorReply s) = Some s"
| "reply_str (StringReply s) = Some s"
| "reply_str _ = None"

definition connect_locked :: "'srv redis_net \<Rightarrow> redis_options \<Rightarrow> 'srv \<Rightarrow> bool option \<times> 'srv" where
  "connect_locked net opts srv =
     (if \<not> rn_connect net then (None, srv)
      else if ro_password opts \<noteq> []
      then (case redis_command net (if ro_user opts \<noteq> [] then [''AUTH'', ro_user opts, ro_password opts] else [''AUTH'', ro_password opts]) srv of
              (r, srv) \<Rightarrow> if is_error r then (None, srv) else (Some False, srv))
      else (Some False, srv))"

type_synonym ('srv, 'a) redis_op = "redis_client \<times> 'srv \<Rightarrow> 'a \<times> redis_client \<times> 'srv"

definition redis_client_new :: "'srv redis_net \<Rightarrow> redis_options \<Rightarrow> string \<Rightarrow> 'srv \<Rightarrow> (string + redis_client) \<times> 'srv" where
  "redis_client_new net opts self srv =
     (case connect_locked net opts srv of
        (None, srv) \<Rightarrow> (Inl (''redis: failed to connect to '' @ ro_host opts @ '':'' @ to_decimal (unat (ro_port opts))), srv)
      | (Some e, srv) \<Rightarrow> (Inr \<lparr>rd_options = opts, rd_self_id = self, rd_registered_address = [], rd_registered_leaf_address = [],
                             rd_registered_parent = [], rd_ctx = Some e\<rparr>, srv))"

definition redis_connect :: "'srv redis_net \<Rightarrow> ('srv, unit) redis_op" where
  "redis_connect net cs = (case cs of (c, srv) \<Rightarrow> (case connect_locked net (rd_options c) srv of (x, srv) \<Rightarrow> ((), c\<lparr>rd_ctx := x\<rparr>, srv)))"

definition ensure_locked :: "'srv redis_net \<Rightarrow> ('srv, bool) redis_op" where
  "ensure_locked net cs =
     (case cs of (c, srv) \<Rightarrow>
        if rd_ctx c = Some False then (True, c, srv)
        else (case connect_locked net (rd_options c) srv of (x, srv) \<Rightarrow> (x \<noteq> None, c\<lparr>rd_ctx := x\<rparr>, srv)))"

text \<open>A command on the connection; a missing reply sets the connection's error flag.\<close>

definition run_command :: "'srv redis_net \<Rightarrow> string list \<Rightarrow> ('srv, redis_reply option) redis_op" where
  "run_command net words cs =
     (case cs of (c, srv) \<Rightarrow> (case redis_command net words srv of
        (r, srv) \<Rightarrow> (r, if r = None then c\<lparr>rd_ctx := Some True\<rparr> else c, srv)))"

definition redis_ping :: "'srv redis_net \<Rightarrow> ('srv, bool) redis_op" where
  "redis_ping net cs =
     (case ensure_locked net cs of
        (False, cs) \<Rightarrow> (False, cs)
      | (True, cs) \<Rightarrow> (case run_command net [''PING''] cs of (r, cs) \<Rightarrow> (r = Some (StatusReply ''PONG''), cs)))"

definition redis_is_connected :: "redis_client \<Rightarrow> bool" where
  "redis_is_connected c \<longleftrightarrow> rd_ctx c = Some False"

definition leaves_key :: "redis_options \<Rightarrow> string" where "leaves_key opts = ro_key opts @ '':leaves''"

definition register_node :: "'srv redis_net \<Rightarrow> string \<Rightarrow> ('srv, string + unit) redis_op" where
  "register_node net addr cs =
     (case ensure_locked net cs of
        (False, cs) \<Rightarrow> (Inl ''redis: not connected for register_node'', cs)
      | (True, cs) \<Rightarrow>
          (case run_command net [''HSET'', ro_key (rd_options (fst cs)), rd_self_id (fst cs), addr] cs of
             (r, c, srv) \<Rightarrow>
               if is_error r then (Inl ''redis: HSET failed for register_node'', c, srv)
               else (Inr (), c\<lparr>rd_registered_address := addr, rd_registered_leaf_address := [], rd_registered_parent := []\<rparr>, srv)))"

definition register_leaf :: "'srv redis_net \<Rightarrow> string \<Rightarrow> string \<Rightarrow> ('srv, string + unit) redis_op" where
  "register_leaf net addr parent cs =
     (case ensure_locked net cs of
        (False, cs) \<Rightarrow> (Inl ''redis: not connected for register_leaf'', cs)
      | (True, cs) \<Rightarrow>
          (case run_command net [''HSET'', leaves_key (rd_options (fst cs)), parent @ '':'' @ rd_self_id (fst cs), addr] cs of
             (r, c, srv) \<Rightarrow>
               if is_error r then (Inl ''redis: HSET failed for register_leaf'', c, srv)
               else (Inr (), c\<lparr>rd_registered_leaf_address := addr, rd_registered_parent := parent, rd_registered_address := []\<rparr>, srv)))"

text \<open>The loop over fields and values; a pair with a part that has no characters is skipped, an odd last
  element is ignored.\<close>

fun reply_pairs :: "redis_reply list \<Rightarrow> (string \<times> string) list" where
  "reply_pairs (f # v # rs) = (case (reply_str f, reply_str v) of (Some fs, Some vs) \<Rightarrow> (fs, vs) # reply_pairs rs | _ \<Rightarrow> reply_pairs rs)"
| "reply_pairs _ = []"

definition fetch_nodes :: "'srv redis_net \<Rightarrow> ('srv, (string, string) omap) redis_op" where
  "fetch_nodes net cs =
     (case ensure_locked net cs of
        (False, cs) \<Rightarrow> ([], cs)
      | (True, cs) \<Rightarrow>
          (case run_command net [''HGETALL'', ro_key (rd_options (fst cs))] cs of
             (Some (ArrayReply rs), cs) \<Rightarrow> (foldl (\<lambda>m fv. om_emplace (fst fv) (snd fv) m) [] (reply_pairs rs), cs)
           | (_, cs) \<Rightarrow> ([], cs)))"

definition add_leaf :: "string \<Rightarrow> (string, string) omap \<Rightarrow> string \<times> string \<Rightarrow> (string, string) omap" where
  "add_leaf pre m fv = (if prefix pre (fst fv) then om_emplace (drop (length pre) (fst fv)) (snd fv) m else m)"

definition fetch_leaves_for_node :: "'srv redis_net \<Rightarrow> string \<Rightarrow> ('srv, (string, string) omap) redis_op" where
  "fetch_leaves_for_node net node cs =
     (case ensure_locked net cs of
        (False, cs) \<Rightarrow> ([], cs)
      | (True, cs) \<Rightarrow>
          (case run_command net [''HGETALL'', leaves_key (rd_options (fst cs))] cs of
             (Some (ArrayReply rs), cs) \<Rightarrow> (foldl (add_leaf (node @ '':'')) [] (reply_pairs rs), cs)
           | (_, cs) \<Rightarrow> ([], cs)))"

definition redis_hget :: "'srv redis_net \<Rightarrow> string \<Rightarrow> string \<Rightarrow> ('srv, string + string) redis_op" where
  "redis_hget net key field cs =
     (case ensure_locked net cs of
        (False, cs) \<Rightarrow> (Inl ''redis: not connected for hget'', cs)
      | (True, cs) \<Rightarrow>
          (case run_command net [''HGET'', key, field] cs of
             (r, cs) \<Rightarrow> (if is_error r then Inl ''redis: HGET failed'' else Inr (case reply_str (the r) of None \<Rightarrow> [] | Some s \<Rightarrow> s), cs)))"

definition redis_hdel :: "'srv redis_net \<Rightarrow> string \<Rightarrow> string \<Rightarrow> ('srv, string + unit) redis_op" where
  "redis_hdel net key field cs =
     (case ensure_locked net cs of
        (False, cs) \<Rightarrow> (Inl ''redis: not connected for hdel'', cs)
      | (True, cs) \<Rightarrow>
          (case run_command net [''HDEL'', key, field] cs of (r, cs) \<Rightarrow> (if is_error r then Inl ''redis: HDEL failed'' else Inr (), cs)))"

definition lease_renew :: "'srv redis_net \<Rightarrow> ('srv, string + unit) redis_op" where
  "lease_renew net cs =
     (case ensure_locked net cs of
        (False, cs) \<Rightarrow> (Inl ''redis: not connected for lease_renew'', cs)
      | (True, c, srv) \<Rightarrow>
          if rd_registered_address c \<noteq> []
          then (case run_command net [''HSET'', ro_key (rd_options c), rd_self_id c, rd_registered_address c] (c, srv) of
                  (r, cs) \<Rightarrow> (if is_error r then Inl ''redis: HSET failed in lease_renew for node'' else Inr (), cs))
          else if rd_registered_leaf_address c \<noteq> []
          then (case run_command net [''HSET'', leaves_key (rd_options c), rd_registered_parent c @ '':'' @ rd_self_id c, rd_registered_leaf_address c] (c, srv) of
                  (r, cs) \<Rightarrow> (if is_error r then Inl ''redis: HSET failed in lease_renew for leaf'' else Inr (), cs))
          else (case run_command net [''PING''] (c, srv) of
                  (r, cs) \<Rightarrow> (case r of Some (StatusReply _) \<Rightarrow> Inr () | _ \<Rightarrow> Inl ''redis: PING failed in lease_renew'', cs)))"

section \<open>Registrations are found\<close>

text \<open>A server that keeps hashes and accepts the client's password, as the documentation of HSET, HGETALL and AUTH
  says; \<open>hash\<close> reads its state.\<close>

definition keeps_hashes :: "(string list \<Rightarrow> 'srv \<Rightarrow> redis_reply option \<times> 'srv) \<Rightarrow> ('srv \<Rightarrow> string \<Rightarrow> string \<Rightarrow> string option) \<Rightarrow> bool" where
  "keeps_hashes exec hash \<longleftrightarrow>
     (\<forall>s k f v. \<exists>r s'. exec [''HSET'', k, f, v] s = (Some r, s') \<and> \<not> is_error (Some r) \<and> hash s' = (hash s)(k := (hash s k)(f \<mapsto> v)))
   \<and> (\<forall>s k. \<exists>fvs. exec [''HGETALL'', k] s = (Some (ArrayReply (concat (map (\<lambda>fv. [StringReply (fst fv), StringReply (snd fv)]) fvs))), s)
        \<and> map_of fvs = hash s k)
   \<and> (\<forall>s ws. \<exists>r s'. exec (''AUTH'' # ws) s = (Some r, s') \<and> \<not> is_error (Some r) \<and> hash s' = hash s)"

definition no_zero :: "string \<Rightarrow> bool" where "no_zero s \<longleftrightarrow> CHR 0x00 \<notin> set s"

lemma c_str_plain [simp]: "no_zero s \<Longrightarrow> c_str s = s"
  unfolding c_str_def no_zero_def by (intro takeWhile_eq_all_conv [THEN iffD2]) auto

lemma c_str_words [simp]: "c_str ''HSET'' = ''HSET''" "c_str ''HGETALL'' = ''HGETALL''" "c_str ''AUTH'' = ''AUTH''"
  by (simp_all add: c_str_def)

lemma no_zero_append [simp]: "no_zero (s @ t) \<longleftrightarrow> no_zero s \<and> no_zero t" by (auto simp: no_zero_def)

lemma no_zero_texts [simp]: "no_zero '':''" "no_zero ''leaves''" "no_zero (CHR '':'' # s) \<longleftrightarrow> no_zero s" by (auto simp: no_zero_def)

lemma leaves_key_plain [simp]: "no_zero (leaves_key opts) \<longleftrightarrow> no_zero (ro_key opts)" by (simp add: leaves_key_def)

lemma reply_pairs_flat [simp]: "reply_pairs (concat (map (\<lambda>fv. [StringReply (fst fv), StringReply (snd fv)]) fvs)) = fvs"
  by (induction fvs) auto

lemma map_of_emplace: "om_wf m \<Longrightarrow> map_of (om_emplace k v m) j = (if j = k \<and> map_of m k = None then Some v else map_of m j)"
  by (auto simp: om_emplace_map_of split: option.split)

lemma leaves_found:
  "om_wf m \<Longrightarrow> map_of (foldl (add_leaf pre) m fvs) leaf = (case map_of m leaf of Some v \<Rightarrow> Some v | None \<Rightarrow> map_of fvs (pre @ leaf))"
proof (induction fvs arbitrary: m)
  case (Cons fv fvs)
  obtain f v where fv: "fv = (f, v)" by force
  show ?case
  proof (cases "prefix pre f")
    case True
    then obtain r where r: "f = pre @ r" by (auto simp: prefix_def)
    have "add_leaf pre m fv = om_emplace r v m" by (simp add: add_leaf_def fv r)
    then show ?thesis using Cons.IH [OF om_wf_emplace [OF Cons.prems], of r v] Cons.prems fv r by (auto simp: map_of_emplace split: option.splits)
  next
    case False
    then have "f \<noteq> pre @ leaf" "add_leaf pre m fv = m" by (auto simp: add_leaf_def fv)
    then have step: "foldl (add_leaf pre) m (fv # fvs) = foldl (add_leaf pre) m fvs" and here: "map_of (fv # fvs) (pre @ leaf) = map_of fvs (pre @ leaf)"
      by (simp_all add: fv)
    show ?thesis unfolding step here by (rule Cons.IH [OF Cons.prems])
  qed
qed (simp split: option.split)

lemma register_leaf_stores:
  assumes "keeps_hashes (rn_exec net) hash" "rd_ctx c = Some False" "no_zero (ro_key (rd_options c))" "no_zero parent" "no_zero (rd_self_id c)" "no_zero addr"
    and "register_leaf net addr parent (c, srv) = (r, c', srv')"
  shows "r = Inr () \<and> c' = c\<lparr>rd_registered_leaf_address := addr, rd_registered_parent := parent, rd_registered_address := []\<rparr>
     \<and> hash srv' = (hash srv)(leaves_key (rd_options c) := (hash srv (leaves_key (rd_options c)))(parent @ '':'' @ rd_self_id c \<mapsto> addr))"
proof -
  obtain r1 s1 where e: "rn_exec net [''HSET'', leaves_key (rd_options c), parent @ '':'' @ rd_self_id c, addr] srv = (Some r1, s1)"
    "\<not> is_error (Some r1)" "hash s1 = (hash srv)(leaves_key (rd_options c) := (hash srv (leaves_key (rd_options c)))(parent @ '':'' @ rd_self_id c \<mapsto> addr))"
    using assms(1) unfolding keeps_hashes_def by meson
  with assms show ?thesis by (auto simp: register_leaf_def ensure_locked_def run_command_def redis_command_def)
qed

lemma fetch_leaves_read:
  assumes "keeps_hashes (rn_exec net) hash" "rd_ctx c = Some False" "no_zero (ro_key (rd_options c))"
    and "fetch_leaves_for_node net node (c, srv) = (m, c', srv')"
  shows "srv' = srv \<and> c' = c \<and> map_of m leaf = hash srv (leaves_key (rd_options c)) (node @ '':'' @ leaf)"
proof -
  obtain fvs where e: "rn_exec net [''HGETALL'', leaves_key (rd_options c)] srv
      = (Some (ArrayReply (concat (map (\<lambda>fv. [StringReply (fst fv), StringReply (snd fv)]) fvs))), srv)" "map_of fvs = hash srv (leaves_key (rd_options c))"
    using assms(1) unfolding keeps_hashes_def by meson
  have wf: "om_wf ([] :: (string, string) omap)" by simp
  from assms e show ?thesis
    by (auto simp: fetch_leaves_for_node_def ensure_locked_def run_command_def redis_command_def leaves_found [OF wf])
qed

lemma colon_unique:
  fixes c :: char
  assumes "c \<notin> set a" "c \<notin> set b"
  shows "a @ c # r = b @ c # t \<longleftrightarrow> a = b \<and> r = t"
  using assms by (metis split_first_append option.inject prod.inject)


text \<open>A server in memory, for the witnesses.\<close>

type_synonym table_server = "string \<Rightarrow> (string \<times> string) list"

fun table_exec :: "string list \<Rightarrow> table_server \<Rightarrow> redis_reply option \<times> table_server" where
  "table_exec (cmd # ws) s =
     (if cmd = ''HSET'' then (case ws of [k, f, v] \<Rightarrow> (Some (IntegerReply 1), s(k := (f, v) # s k)) | _ \<Rightarrow> (Some (ErrorReply ''ERR''), s))
      else if cmd = ''HGETALL'' then (case ws of [k] \<Rightarrow> (Some (ArrayReply (concat (map (\<lambda>fv. [StringReply (fst fv), StringReply (snd fv)]) (s k)))), s) | _ \<Rightarrow> (Some (ErrorReply ''ERR''), s))
      else (Some (StatusReply ''OK''), s))"
| "table_exec [] s = (Some (ErrorReply ''ERR''), s)"

definition table_net :: "table_server redis_net" where "table_net = \<lparr>rn_connect = True, rn_exec = table_exec\<rparr>"

lemma table_keeps: "keeps_hashes (rn_exec table_net) (\<lambda>s k. map_of (s k))"
  unfolding keeps_hashes_def
proof (intro conjI allI)
  fix s :: table_server and k f v :: string and ws :: "string list"
  show "\<exists>r s'. rn_exec table_net [''HSET'', k, f, v] s = (Some r, s') \<and> \<not> is_error (Some r)
      \<and> (\<lambda>k. map_of (s' k)) = (\<lambda>k. map_of (s k))(k := (map_of (s k))(f \<mapsto> v))"
    by (intro exI [of _ "IntegerReply 1"] exI [of _ "s(k := (f, v) # s k)"]) (simp add: table_net_def fun_eq_iff)
  show "\<exists>fvs. rn_exec table_net [''HGETALL'', k] s = (Some (ArrayReply (concat (map (\<lambda>fv. [StringReply (fst fv), StringReply (snd fv)]) fvs))), s)
      \<and> map_of fvs = map_of (s k)"
    by (intro exI [of _ "s k"]) (simp add: table_net_def)
  show "\<exists>r s'. rn_exec table_net (''AUTH'' # ws) s = (Some r, s') \<and> \<not> is_error (Some r) \<and> (\<lambda>k. map_of (s' k)) = (\<lambda>k. map_of (s k))"
    by (intro exI [of _ "StatusReply ''OK''"] exI [of _ s]) (simp add: table_net_def)
qed

definition sample_client :: "string \<Rightarrow> redis_client" where
  "sample_client self = \<lparr>rd_options = default_redis_options, rd_self_id = self, rd_registered_address = [], rd_registered_leaf_address = [],
     rd_registered_parent = [], rd_ctx = Some False\<rparr>"


text \<open>Renewing the lease restores a registration: whatever has happened to the server's data and to the
  connection since a leaf registered, as long as the server can be reached again, the next renewal succeeds and
  puts the leaf's address back under its node.\<close>

theorem lease_restores:
  assumes "keeps_hashes (rn_exec net) hash" "rn_connect net"
    and "no_zero (ro_key (rd_options c))" "no_zero parent" "no_zero (rd_self_id c)" "no_zero addr" "addr \<noteq> []"
    and "register_leaf net addr parent (c, srv) = (Inr (), c', srv1)"
    and "lease_renew net (c'\<lparr>rd_ctx := ctx\<rparr>, srv') = (r, c2, srv2)"
  shows "r = Inr () \<and> rd_ctx c2 = Some False \<and> hash srv2 (leaves_key (rd_options c)) (parent @ '':'' @ rd_self_id c) = Some addr"
proof -
  have c': "rd_options c' = rd_options c" "rd_self_id c' = rd_self_id c" "rd_registered_address c' = []" "rd_registered_leaf_address c' = addr" "rd_registered_parent c' = parent"
    using assms(8) by (auto simp: register_leaf_def ensure_locked_def run_command_def split: prod.splits if_splits bool.splits)
  have auth: "\<exists>r s'. rn_exec net (''AUTH'' # ws) srv' = (Some r, s') \<and> \<not> is_error (Some r)" for ws
    using assms(1) unfolding keeps_hashes_def by meson
  have "\<exists>s'. connect_locked net (rd_options c') srv' = (Some False, s')"
    using auth [of "[c_str (ro_user (rd_options c')), c_str (ro_password (rd_options c'))]"] auth [of "[c_str (ro_password (rd_options c'))]"] assms(2)
    by (auto simp: connect_locked_def redis_command_def)
  then have "\<exists>s'. ensure_locked net (c'\<lparr>rd_ctx := ctx\<rparr>, srv') = (True, c'\<lparr>rd_ctx := Some False\<rparr>, s')"
    by (cases "ctx = Some False") (auto simp: ensure_locked_def)
  then obtain s1 where s1: "ensure_locked net (c'\<lparr>rd_ctx := ctx\<rparr>, srv') = (True, c'\<lparr>rd_ctx := Some False\<rparr>, s1)" by blast
  obtain r1 s2 where e: "rn_exec net [''HSET'', leaves_key (rd_options c), parent @ '':'' @ rd_self_id c, addr] s1 = (Some r1, s2)"
    "\<not> is_error (Some r1)" "hash s2 = (hash s1)(leaves_key (rd_options c) := (hash s1 (leaves_key (rd_options c)))(parent @ '':'' @ rd_self_id c \<mapsto> addr))"
    using assms(1) unfolding keeps_hashes_def by meson
  with s1 c' assms(3-7,9) show ?thesis by (auto simp: lease_renew_def run_command_def redis_command_def)
qed

theorem lease_restores_witness:
  "\<exists>c' srv1 r c2 srv2. register_leaf table_net ''a'' ''n1'' (sample_client ''l1'', \<lambda>_. []) = (Inr (), c', srv1)
     \<and> lease_renew table_net (c'\<lparr>rd_ctx := None\<rparr>, \<lambda>_. []) = (r, c2, srv2) \<and> map_of (srv2 ''creek:nodes:leaves'') ''n1:l1'' = Some ''a''"
proof -
  have c: "no_zero (ro_key (rd_options (sample_client ''l1'')))" "no_zero ''n1''" "no_zero (rd_self_id (sample_client ''l1''))" "no_zero ''a''"
    "rd_ctx (sample_client ''l1'') = Some False" "''a'' \<noteq> []" "rn_connect table_net"
    by (simp_all add: sample_client_def default_redis_options_def no_zero_def table_net_def)
  obtain r0 c' srv1 where 1: "register_leaf table_net ''a'' ''n1'' (sample_client ''l1'', \<lambda>_. []) = (r0, c', srv1)" by (metis prod_cases3)
  have r0: "r0 = Inr ()" using register_leaf_stores [OF table_keeps c(5,1-4) 1] by simp
  obtain r c2 srv2 where 2: "lease_renew table_net (c'\<lparr>rd_ctx := None\<rparr>, \<lambda>_. []) = (r, c2, srv2)" by (metis prod_cases3)
  have k: "leaves_key (rd_options (sample_client ''l1'')) = ''creek:nodes:leaves''" "rd_self_id (sample_client ''l1'') = ''l1''"
    by (simp_all add: sample_client_def default_redis_options_def leaves_key_def)
  from lease_restores [OF table_keeps c(7,1-4,6) 1 [unfolded r0] 2] 1 2 r0 k show ?thesis by auto
qed

text \<open>The field of a leaf is its node's name, a colon and its own: a node whose name is the part of another's before
  a colon finds the leaves of the other, under names that are not theirs.\<close>

lemma leaf_of_other_node:
  assumes "keeps_hashes (rn_exec net) hash" "rd_ctx d = Some False" "no_zero (ro_key (rd_options d))"
    and "hash srv (leaves_key (rd_options d)) ''a:b:leaf'' = Some addr" "fetch_leaves_for_node net ''a'' (d, srv) = (m, d', srv')"
  shows "map_of m ''b:leaf'' = Some addr"
  using fetch_leaves_read [OF assms(1-3,5), of "''b:leaf''"] assms(4) by simp

end
