(* ===== verification/Filters.thy ===== *)
theory Filters
  imports Complex_Main Http Routing
begin

text \<open>
  Filters of calls: the chain (\<open>src/filter_chain.cpp\<close>), the built-in filters (\<open>src/filter_builtin.cpp\<close>), the JSON
  rules and the host of WebAssembly modules (\<open>src/wasm_runtime.cpp\<close>). The interpreter (wasm3) and the JSON
  library are not part of the program. Loading, linking and compiling are arguments that give the library's
  error text; the run of a guest function is a tree of what it does to its memory and of the host functions it
  calls, which the interpreter builds and the host functions of the program interpret. Random draws are
  arguments.

  The host keeps a pointer to the guest's memory and one to the context of the current call. Both can become
  invalid: the memory carries a generation that grows when the interpreter moves it, and the context is null,
  live or dangling. An access that C++ leaves undefined is the fault \<open>Undefined\<close>, an exception is \<open>Thrown\<close>.
\<close>

section \<open>Contexts and built-in filters\<close>

record rpc_context =
  rc_service :: string
  rc_method :: string
  rc_metadata :: metadata
  rc_is_response :: bool
  rc_status_code :: int

text \<open>What the random engine of a filter gives to one call.\<close>

record draws =
  dr_bernoulli :: "real \<Rightarrow> bool"
  dr_percent :: int
  dr_unit :: real

datatype builtin_filter = DelayFilter int real | MirrorFilter string | CanaryFilter string int

text \<open>The context and how long the filter sleeps, in milliseconds.\<close>

fun builtin_on_request :: "draws \<Rightarrow> builtin_filter \<Rightarrow> rpc_context \<Rightarrow> rpc_context \<times> int list" where
  "builtin_on_request dr (DelayFilter ms p) ctx = (ctx, if dr_bernoulli dr p then [ms] else [])"
| "builtin_on_request dr (MirrorFilter target) ctx = (ctx\<lparr>rc_metadata := om_set ''mirror_destination'' target (rc_metadata ctx)\<rparr>, [])"
| "builtin_on_request dr (CanaryFilter ep pct) ctx =
     (if dr_percent dr < pct then ctx\<lparr>rc_metadata := om_set ''endpoint_override'' ep (rc_metadata ctx)\<rparr> else ctx, [])"

fun builtin_on_response :: "draws \<Rightarrow> builtin_filter \<Rightarrow> rpc_context \<Rightarrow> rpc_context \<times> int list" where
  "builtin_on_response dr (DelayFilter ms p) ctx = (ctx, if dr_bernoulli dr p then [ms] else [])"
| "builtin_on_response dr (MirrorFilter target) ctx = (ctx, [])"
| "builtin_on_response dr (CanaryFilter ep pct) ctx = (ctx, [])"

fun builtin_name :: "builtin_filter \<Rightarrow> string" where
  "builtin_name (DelayFilter _ _) = ''DelayFilter''"
| "builtin_name (MirrorFilter _) = ''MirrorFilter''"
| "builtin_name (CanaryFilter _ _) = ''CanaryFilter''"

section \<open>JSON rules\<close>

record wasm_config =
  wc_type :: string
  wc_probability :: real
  wc_delay_ms :: int
  wc_mirror_target :: string
  wc_canary_endpoint :: string
  wc_canary_percentage :: int

datatype rule_action = RA_Passthrough | RA_Delay | RA_Mirror | RA_Reroute | RA_Reject

record rule_result =
  rr_action :: rule_action
  rr_delay_ms :: int
  rr_mirror_target :: string
  rr_route_override :: string
  rr_status_code :: int

definition plain_result :: rule_result where
  "plain_result = \<lparr>rr_action = RA_Passthrough, rr_delay_ms = 0, rr_mirror_target = [], rr_route_override = [], rr_status_code = 200\<rparr>"

definition do_request :: "draws \<Rightarrow> wasm_config \<Rightarrow> metadata \<Rightarrow> rule_result \<times> metadata" where
  "do_request dr cfg md =
     (if wc_type cfg = ''delay''
      then (if dr_unit dr < wc_probability cfg then plain_result\<lparr>rr_action := RA_Delay, rr_delay_ms := wc_delay_ms cfg\<rparr> else plain_result, md)
      else if wc_type cfg = ''mirror''
      then (plain_result\<lparr>rr_action := RA_Mirror, rr_mirror_target := wc_mirror_target cfg\<rparr>, om_set ''creek_mirror'' (wc_mirror_target cfg) md)
      else if wc_type cfg = ''canary''
      then (if dr_percent dr < wc_canary_percentage cfg
            then (plain_result\<lparr>rr_action := RA_Reroute, rr_route_override := wc_canary_endpoint cfg\<rparr>, om_set ''creek_canary'' (wc_canary_endpoint cfg) md)
            else (plain_result, md))
      else if wc_type cfg = ''reject''
      then (if dr_unit dr < wc_probability cfg then plain_result\<lparr>rr_action := RA_Reject, rr_status_code := 503\<rparr> else plain_result, md)
      else (plain_result, md))"

definition do_response :: "wasm_config \<Rightarrow> int \<Rightarrow> metadata \<Rightarrow> rule_result \<times> metadata" where
  "do_response cfg status md = (plain_result, md)"

text \<open>The update of the final result with the result of one rule.\<close>

definition combine_result :: "rule_result \<Rightarrow> rule_result \<Rightarrow> rule_result" where
  "combine_result fin r =
     (let fin = (if rr_action r = RA_Delay then fin\<lparr>rr_action := RA_Delay, rr_delay_ms := rr_delay_ms r\<rparr> else fin);
          fin = (if rr_mirror_target r \<noteq> [] then fin\<lparr>rr_mirror_target := rr_mirror_target r\<rparr> else fin);
          fin = (if rr_route_override r \<noteq> [] then fin\<lparr>rr_route_override := rr_route_override r\<rparr> else fin)
      in if rr_action r \<noteq> RA_Passthrough \<and> rr_action fin = RA_Passthrough then fin\<lparr>rr_action := rr_action r\<rparr> else fin)"

fun rules_request :: "(wasm_config \<times> draws) list \<Rightarrow> rule_result \<Rightarrow> metadata \<Rightarrow> rule_result \<times> metadata" where
  "rules_request [] fin md = (fin, md)"
| "rules_request ((cfg, dr) # fs) fin md =
     (case do_request dr cfg md of
        (r, md) \<Rightarrow> if rr_action r = RA_Reject then (r, md) else rules_request fs (combine_result fin r) md)"

definition rule_chain_request :: "(wasm_config \<times> draws) list \<Rightarrow> metadata \<Rightarrow> rule_result \<times> metadata" where
  "rule_chain_request fs md = rules_request fs plain_result md"

fun rules_response :: "wasm_config list \<Rightarrow> int \<Rightarrow> rule_result \<Rightarrow> metadata \<Rightarrow> rule_result \<times> metadata" where
  "rules_response [] status fin md = (fin, md)"
| "rules_response (cfg # fs) status fin md =
     (case do_response cfg status md of
        (r, md) \<Rightarrow>
          let fin = (if rr_mirror_target r \<noteq> [] then fin\<lparr>rr_mirror_target := rr_mirror_target r\<rparr> else fin);
              fin = (if rr_route_override r \<noteq> [] then fin\<lparr>rr_route_override := rr_route_override r\<rparr> else fin)
          in rules_response fs status fin md)"

definition rule_chain_response :: "wasm_config list \<Rightarrow> int \<Rightarrow> metadata \<Rightarrow> rule_result \<times> metadata" where
  "rule_chain_response fs status md = rules_response (rev fs) status plain_result md"

section \<open>The host of WebAssembly modules\<close>

definition kScratchBase :: u32 where "kScratchBase = 65536"
definition kResultBufSize :: u32 where "kResultBufSize = 4096"

definition host_bytes :: "string \<Rightarrow> bytes" where "host_bytes s = map (\<lambda>c. of_nat (of_char c)) s"
definition guest_text :: "bytes \<Rightarrow> string" where "guest_text b = map (\<lambda>x. char_of (unat x)) b"

datatype wasm_fault = Thrown string | Undefined string

datatype host_call = HGetMetadata u32 u32 | HSetMetadata u32 u32 u32 u32 | HSleep u32 | HRandom | HLog u32 u32

datatype guest = GReturn "string option" | GHost host_call "u32 \<Rightarrow> guest" | GStore nat bytes guest | GLoad nat nat "bytes \<Rightarrow> guest" | GGrow nat guest

record ('m, 'f) wasm_lib =
  wl_parse :: "bytes \<Rightarrow> string + 'm"
  wl_load :: "'m list \<Rightarrow> 'm \<Rightarrow> bytes \<Rightarrow> string + bytes"
  wl_link :: "'m \<Rightarrow> string \<Rightarrow> string option"
  wl_compile :: "'m \<Rightarrow> string option"
  wl_start :: "'m \<Rightarrow> guest"
  wl_find :: "'m list \<Rightarrow> string \<Rightarrow> 'f option"
  wl_call :: "'f \<Rightarrow> u32 list \<Rightarrow> guest"
  wl_resize :: "nat \<Rightarrow> bytes \<Rightarrow> string + bytes"
  wl_dump :: "metadata \<Rightarrow> string option"
  wl_json :: "string \<Rightarrow> (string \<times> string option) list option"
  wl_random :: "nat \<Rightarrow> u32"

datatype ctx_ptr = NullCtx | LiveCtx rpc_context | DanglingCtx

record 'm module_info =
  mi_id :: u32
  mi_wasm_bytes :: bytes
  mi_module :: 'm

text \<open>The memory and the list of loaded modules belong to the interpreter; \<open>ws_mem_base\<close> is the generation of the
  memory the host's pointer was taken from.\<close>

record 'm wasm_state =
  ws_modules :: "'m module_info list"
  ws_next_id :: u32
  ws_mem_base :: "nat option"
  ws_mem_size :: u32
  ws_scratch_head :: u32
  ws_current_ctx :: ctx_ptr
  ws_loaded :: "'m list"
  ws_memory :: bytes
  ws_generation :: nat
  ws_draws :: nat

definition new_wasm :: "'m wasm_state" where
  "new_wasm = \<lparr>ws_modules = [], ws_next_id = 1, ws_mem_base = None, ws_mem_size = 0, ws_scratch_head = 0, ws_current_ctx = NullCtx,
     ws_loaded = [], ws_memory = [], ws_generation = 0, ws_draws = 0\<rparr>"

type_synonym ('m, 'a) wasm_op = "'m wasm_state \<Rightarrow> (wasm_fault + 'a) \<times> 'm wasm_state"

definition wthen :: "('m, 'a) wasm_op \<Rightarrow> ('a \<Rightarrow> ('m, 'b) wasm_op) \<Rightarrow> ('m, 'b) wasm_op" where
  "wthen op f st = (case op st of (Inl e, st) \<Rightarrow> (Inl e, st) | (Inr x, st) \<Rightarrow> f x st)"

definition wfail :: "wasm_fault \<Rightarrow> ('m, 'a) wasm_op" where "wfail e st = (Inl e, st)"
definition wreturn :: "'a \<Rightarrow> ('m, 'a) wasm_op" where "wreturn x st = (Inr x, st)"

text \<open>A library call with an error text.\<close>

definition wcheck :: "string \<Rightarrow> string option \<Rightarrow> ('m, unit) wasm_op" where
  "wcheck what r = (case r of None \<Rightarrow> wreturn () | Some e \<Rightarrow> wfail (Thrown (''WasmRuntime: '' @ what @ '' failed: '' @ e)))"

text \<open>The host's pointer is usable for \<open>n\<close> bytes from \<open>off\<close>.\<close>

definition host_range :: "'m wasm_state \<Rightarrow> nat \<Rightarrow> nat \<Rightarrow> bool" where
  "host_range st off n \<longleftrightarrow> ws_mem_base st = Some (ws_generation st) \<and> off + n \<le> length (ws_memory st)"

definition find_module :: "u32 \<Rightarrow> 'm wasm_state \<Rightarrow> 'm module_info option" where
  "find_module i st = List.find (\<lambda>mi. mi_id mi = i) (ws_modules st)"

definition reset_scratch :: "('m, unit) wasm_op" where
  "reset_scratch st = (Inr (), st\<lparr>ws_scratch_head := kScratchBase\<rparr>)"

definition ensure_memory :: "('m, 'f) wasm_lib \<Rightarrow> u32 \<Rightarrow> ('m, unit) wasm_op" where
  "ensure_memory lib min_pages st =
     (let sz = of_nat (length (ws_memory st));
          st = st\<lparr>ws_mem_base := Some (ws_generation st), ws_mem_size := sz\<rparr>
      in if sz < min_pages * 65536
         then (case wl_resize lib (unat min_pages) (ws_memory st) of
                 Inl e \<Rightarrow> (Inl (Thrown (''WasmRuntime: memory resize failed: '' @ e)), st)
               | Inr m \<Rightarrow> (Inr (), st\<lparr>ws_memory := m, ws_generation := ws_generation st + 1,
                                     ws_mem_base := Some (ws_generation st + 1), ws_mem_size := of_nat (length m)\<rparr>))
         else (Inr (), st))"

definition write_null_str :: "string \<Rightarrow> ('m, u32) wasm_op" where
  "write_null_str s st =
     (let offset = ws_scratch_head st; len = of_nat (length s) + 1 :: u32 in
      if ws_mem_size st < offset + len then (Inl (Thrown ''WasmRuntime: scratch buffer overflow''), st)
      else if \<not> host_range st (unat offset) (unat len) then (Inl (Undefined ''write outside the memory''), st)
      else (Inr offset, st\<lparr>ws_memory := write_at (ws_memory st) (unat offset) (take (unat len) (host_bytes s @ [0])),
                           ws_scratch_head := offset + len\<rparr>))"

definition read_null_str :: "u32 \<Rightarrow> ('m, string) wasm_op" where
  "read_null_str offset st =
     (if ws_mem_size st \<le> offset then (Inr [], st)
      else if \<not> host_range st (unat offset) (unat (ws_mem_size st - offset)) then (Inl (Undefined ''read outside the memory''), st)
      else (Inr (guest_text (takeWhile (\<lambda>b. b \<noteq> 0) (take (unat (ws_mem_size st - offset)) (drop (unat offset) (ws_memory st))))), st))"

text \<open>The space of the result: the scratch head moves on and the bytes are cleared, unchecked.\<close>

definition reserve_result :: "('m, u32) wasm_op" where
  "reserve_result st =
     (let p = ws_scratch_head st; st = st\<lparr>ws_scratch_head := p + kResultBufSize\<rparr>
      in if \<not> host_range st (unat p) (unat kResultBufSize) then (Inl (Undefined ''clearing outside the memory''), st)
         else (Inr p, st\<lparr>ws_memory := write_at (ws_memory st) (unat p) (replicate (unat kResultBufSize) 0)\<rparr>))"

section \<open>Host functions\<close>

text \<open>A string out of the guest's memory, at the addresses the guest gives.\<close>

definition guest_string :: "u32 \<Rightarrow> u32 \<Rightarrow> ('m, string) wasm_op" where
  "guest_string p n st =
     (if length (ws_memory st) < unat p + unat n then (Inl (Undefined ''host function reads outside the memory''), st)
      else (Inr (guest_text (take (unat n) (drop (unat p) (ws_memory st)))), st))"

fun host_function :: "('m, 'f) wasm_lib \<Rightarrow> host_call \<Rightarrow> ('m, u32) wasm_op" where
  "host_function lib (HGetMetadata kp kn) =
     wthen (guest_string kp kn) (\<lambda>key st. case ws_current_ctx st of
         NullCtx \<Rightarrow> write_null_str [] st
       | LiveCtx ctx \<Rightarrow> write_null_str (case map_of (rc_metadata ctx) key of None \<Rightarrow> [] | Some v \<Rightarrow> v) st
       | DanglingCtx \<Rightarrow> (Inl (Undefined ''context of a call that is over''), st))"
| "host_function lib (HSetMetadata kp kn vp vn) =
     wthen (guest_string kp kn) (\<lambda>key. wthen (guest_string vp vn) (\<lambda>val st. case ws_current_ctx st of
         NullCtx \<Rightarrow> (Inr 0, st)
       | LiveCtx ctx \<Rightarrow> (Inr 0, st\<lparr>ws_current_ctx := LiveCtx (ctx\<lparr>rc_metadata := om_set key val (rc_metadata ctx)\<rparr>)\<rparr>)
       | DanglingCtx \<Rightarrow> (Inl (Undefined ''context of a call that is over''), st)))"
| "host_function lib (HSleep ms) = wreturn 0"
| "host_function lib HRandom = (\<lambda>st. (Inr (wl_random lib (ws_draws st)), st\<lparr>ws_draws := ws_draws st + 1\<rparr>))"
| "host_function lib (HLog p n) = wthen (guest_string p n) (\<lambda>_. wreturn 0)"

text \<open>The interpreter checks the guest's own accesses and moves the memory when it grows.\<close>

primrec run_guest :: "('m, 'f) wasm_lib \<Rightarrow> guest \<Rightarrow> ('m, string option) wasm_op" where
  "run_guest lib (GReturn e) = wreturn e"
| "run_guest lib (GHost hc k) = wthen (host_function lib hc) (\<lambda>r. run_guest lib (k r))"
| "run_guest lib (GStore off bs k) = (\<lambda>st.
     if off + length bs \<le> length (ws_memory st) then run_guest lib k (st\<lparr>ws_memory := write_at (ws_memory st) off bs\<rparr>)
     else (Inr (Some ''[trap] out of bounds memory access''), st))"
| "run_guest lib (GLoad off n k) = (\<lambda>st.
     if off + n \<le> length (ws_memory st) then run_guest lib (k (take n (drop off (ws_memory st)))) st
     else (Inr (Some ''[trap] out of bounds memory access''), st))"
| "run_guest lib (GGrow n k) = (\<lambda>st. run_guest lib k
     (st\<lparr>ws_memory := ws_memory st @ replicate (n * 65536) 0, ws_generation := ws_generation st + 1\<rparr>))"

section \<open>Modules\<close>

definition link_host_function :: "('m, 'f) wasm_lib \<Rightarrow> u32 \<Rightarrow> string \<Rightarrow> ('m, unit) wasm_op" where
  "link_host_function lib i function_name st =
     (case find_module i st of
        None \<Rightarrow> (Inl (Thrown (''WasmRuntime: module not found: '' @ to_decimal (unat i))), st)
      | Some mi \<Rightarrow> wcheck ''link'' (wl_link lib (mi_module mi) function_name) st)"

definition host_imports :: "string list" where
  "host_imports = [''creek_get_metadata'', ''creek_set_metadata'', ''creek_sleep'', ''creek_random'', ''creek_log'']"

primrec link_all :: "('m, 'f) wasm_lib \<Rightarrow> u32 \<Rightarrow> string list \<Rightarrow> ('m, unit) wasm_op" where
  "link_all lib i [] = wreturn ()"
| "link_all lib i (f # fs) = wthen (link_host_function lib i f) (\<lambda>_. link_all lib i fs)"

definition register_host_imports :: "('m, 'f) wasm_lib \<Rightarrow> u32 \<Rightarrow> ('m, unit) wasm_op" where
  "register_host_imports lib i = link_all lib i host_imports"

definition run_start :: "('m, 'f) wasm_lib \<Rightarrow> 'm \<Rightarrow> ('m, unit) wasm_op" where
  "run_start lib m = wthen (run_guest lib (wl_start lib m))
     (\<lambda>r. if r = Some ''function lookup failed'' then wreturn () else wcheck ''start'' r)"

definition load_module :: "('m, 'f) wasm_lib \<Rightarrow> bytes \<Rightarrow> ('m, u32) wasm_op" where
  "load_module lib wasm st =
     (let i = ws_next_id st; st = st\<lparr>ws_next_id := i + 1\<rparr> in
      case wl_parse lib wasm of
        Inl e \<Rightarrow> (Inl (Thrown (''WasmRuntime: parse failed: '' @ e)), st)
      | Inr m \<Rightarrow>
          (case wl_load lib (ws_loaded st) m (ws_memory st) of
             Inl e \<Rightarrow> (Inl (Thrown (''WasmRuntime: load failed: '' @ e)), st)
           | Inr mem \<Rightarrow>
               wthen (register_host_imports lib i) (\<lambda>_.
               wthen (wcheck ''compile'' (wl_compile lib m)) (\<lambda>_.
               wthen (run_start lib m) (\<lambda>_.
               wthen (ensure_memory lib 2) (\<lambda>_. wreturn i))))
                 (st\<lparr>ws_modules := ws_modules st @ [\<lparr>mi_id = i, mi_wasm_bytes = wasm, mi_module = m\<rparr>],
                     ws_loaded := m # ws_loaded st, ws_memory := mem, ws_generation := ws_generation st + 1\<rparr>)))"

definition module_count :: "'m wasm_state \<Rightarrow> nat" where "module_count st = length (ws_modules st)"

section \<open>Calls\<close>

text \<open>The call's context is current while \<open>op\<close> runs; an exception out of it leaves the pointer behind.\<close>

definition in_ctx :: "rpc_context \<Rightarrow> ('m, 'a) wasm_op \<Rightarrow> ('m, 'a \<times> rpc_context) wasm_op" where
  "in_ctx ctx op st =
     (case op (st\<lparr>ws_current_ctx := LiveCtx ctx\<rparr>) of
        (Inl e, st) \<Rightarrow> (Inl e, st\<lparr>ws_current_ctx := DanglingCtx\<rparr>)
      | (Inr x, st) \<Rightarrow> (Inr (x, case ws_current_ctx st of LiveCtx c \<Rightarrow> c | _ \<Rightarrow> ctx), st\<lparr>ws_current_ctx := NullCtx\<rparr>))"

definition dump_metadata :: "('m, 'f) wasm_lib \<Rightarrow> metadata \<Rightarrow> ('m, string) wasm_op" where
  "dump_metadata lib md = (case wl_dump lib md of None \<Rightarrow> wfail (Thrown ''invalid UTF-8'') | Some js \<Rightarrow> wreturn js)"

text \<open>The arguments in the guest's memory and the call; the pointer to the result and the interpreter's error.\<close>

definition run_request :: "('m, 'f) wasm_lib \<Rightarrow> 'f \<Rightarrow> rpc_context \<Rightarrow> ('m, u32 \<times> string option) wasm_op" where
  "run_request lib func ctx =
     wthen (dump_metadata lib (rc_metadata ctx)) (\<lambda>js.
     wthen (write_null_str (rc_service ctx)) (\<lambda>svc_ptr.
     wthen (write_null_str (rc_method ctx)) (\<lambda>method_ptr.
     wthen (write_null_str js) (\<lambda>meta_ptr.
     wthen reserve_result (\<lambda>result_ptr.
     wthen (run_guest lib (wl_call lib func [svc_ptr, method_ptr, meta_ptr, result_ptr])) (\<lambda>e. wreturn (result_ptr, e)))))))"

definition run_response :: "('m, 'f) wasm_lib \<Rightarrow> 'f \<Rightarrow> rpc_context \<Rightarrow> ('m, u32 \<times> string option) wasm_op" where
  "run_response lib func ctx =
     wthen (dump_metadata lib (rc_metadata ctx)) (\<lambda>js.
     wthen (write_null_str js) (\<lambda>meta_ptr.
     wthen reserve_result (\<lambda>result_ptr.
     wthen (run_guest lib (wl_call lib func [of_int (rc_status_code ctx), meta_ptr, result_ptr])) (\<lambda>e. wreturn (result_ptr, e)))))"

text \<open>The members of the result's object are set until one is not a string.\<close>

fun set_members :: "(string \<times> string option) list \<Rightarrow> metadata \<Rightarrow> metadata" where
  "set_members ((k, Some v) # r) md = set_members r (om_set k v md)"
| "set_members _ md = md"

definition apply_result :: "('m, 'f) wasm_lib \<Rightarrow> string \<Rightarrow> rpc_context \<Rightarrow> rpc_context" where
  "apply_result lib js ctx =
     (if js = [] then ctx
      else case wl_json lib js of None \<Rightarrow> ctx | Some items \<Rightarrow> ctx\<lparr>rc_metadata := set_members items (rc_metadata ctx)\<rparr>)"

text \<open>What \<open>call_on_request\<close> and \<open>call_on_response\<close> share: the module must exist, the function is looked up among
  all loaded modules.\<close>

definition call_on :: "('m, 'f) wasm_lib \<Rightarrow> string \<Rightarrow> ('f \<Rightarrow> ('m, u32 \<times> string option) wasm_op) \<Rightarrow> u32 \<Rightarrow> rpc_context \<Rightarrow> ('m, rpc_context) wasm_op" where
  "call_on lib name run i ctx st =
     (case find_module i st of
        None \<Rightarrow> (Inl (Thrown (''WasmRuntime: module not found: '' @ to_decimal (unat i))), st)
      | Some _ \<Rightarrow>
          (case wl_find lib (ws_loaded st) name of
             None \<Rightarrow> (Inr ctx, st)
           | Some func \<Rightarrow>
               wthen reset_scratch (\<lambda>_.
               wthen (ensure_memory lib 2) (\<lambda>_.
               wthen (in_ctx ctx (run func)) (\<lambda>((result_ptr, e), ctx).
               wthen (wcheck (''call '' @ name) e) (\<lambda>_.
               wthen (read_null_str result_ptr) (\<lambda>js. wreturn (apply_result lib js ctx)))))) st))"

definition call_on_request :: "('m, 'f) wasm_lib \<Rightarrow> u32 \<Rightarrow> rpc_context \<Rightarrow> ('m, rpc_context) wasm_op" where
  "call_on_request lib i ctx = call_on lib ''on_request'' (\<lambda>func. run_request lib func ctx) i ctx"

definition call_on_response :: "('m, 'f) wasm_lib \<Rightarrow> u32 \<Rightarrow> rpc_context \<Rightarrow> ('m, rpc_context) wasm_op" where
  "call_on_response lib i ctx = call_on lib ''on_response'' (\<lambda>func. run_response lib func ctx) i ctx"

section \<open>The chain\<close>

datatype chain_filter = BuiltinFilter builtin_filter | WasmFilter u32 string

fun filter_on_request :: "('m, 'f) wasm_lib \<Rightarrow> chain_filter \<times> draws \<Rightarrow> rpc_context \<Rightarrow> ('m, rpc_context) wasm_op" where
  "filter_on_request lib (BuiltinFilter f, dr) ctx = wreturn (fst (builtin_on_request dr f ctx))"
| "filter_on_request lib (WasmFilter i path, dr) ctx = call_on_request lib i ctx"

fun filter_on_response :: "('m, 'f) wasm_lib \<Rightarrow> chain_filter \<times> draws \<Rightarrow> rpc_context \<Rightarrow> ('m, rpc_context) wasm_op" where
  "filter_on_response lib (BuiltinFilter f, dr) ctx = wreturn (fst (builtin_on_response dr f ctx))"
| "filter_on_response lib (WasmFilter i path, dr) ctx = call_on_response lib i ctx"

fun filter_name :: "chain_filter \<Rightarrow> string" where
  "filter_name (BuiltinFilter f) = builtin_name f"
| "filter_name (WasmFilter i path) = ''WasmFilter['' @ path @ '']''"

primrec chain_request :: "('m, 'f) wasm_lib \<Rightarrow> (chain_filter \<times> draws) list \<Rightarrow> rpc_context \<Rightarrow> ('m, rpc_context) wasm_op" where
  "chain_request lib [] ctx = wreturn ctx"
| "chain_request lib (f # fs) ctx = wthen (filter_on_request lib f ctx) (chain_request lib fs)"

primrec run_responses :: "('m, 'f) wasm_lib \<Rightarrow> (chain_filter \<times> draws) list \<Rightarrow> rpc_context \<Rightarrow> ('m, rpc_context) wasm_op" where
  "run_responses lib [] ctx = wreturn ctx"
| "run_responses lib (f # fs) ctx = wthen (filter_on_response lib f ctx) (run_responses lib fs)"

definition chain_response :: "('m, 'f) wasm_lib \<Rightarrow> (chain_filter \<times> draws) list \<Rightarrow> rpc_context \<Rightarrow> ('m, rpc_context) wasm_op" where
  "chain_response lib fs ctx = run_responses lib (rev fs) ctx"

section \<open>Strings in the guest's memory\<close>

lemma guest_text_bytes [simp]: "guest_text (host_bytes s) = s"
proof -
  have "char_of (unat (of_nat (of_char c) :: u8)) = c" for c
    using unat_of_nat_u8 [of "of_char c"] of_char_of [where 'a = nat] by simp
  then show ?thesis by (simp add: guest_text_def host_bytes_def comp_def map_idI)
qed

lemma host_bytes_zero: "0 \<in> set (host_bytes s) \<longleftrightarrow> CHR 0x00 \<in> set s"
proof -
  have zero: "char_of (0 :: nat) = CHR 0x00" by code_simp
  have "(of_nat (of_char c) :: u8) = 0 \<longleftrightarrow> c = CHR 0x00" for c
  proof
    assume "(of_nat (of_char c) :: u8) = 0"
    then have "unat (of_nat (of_char c) :: u8) = 0" by simp
    then have "(of_char c :: nat) = 0" using unat_of_nat_u8 [of "of_char c"] by simp
    then have "char_of (of_char c :: nat) = char_of (0 :: nat)" by simp
    then show "c = CHR 0x00" using zero by simp
  qed simp
  then show ?thesis by (auto simp: host_bytes_def image_iff)
qed

lemma length_host_bytes [simp]: "length (host_bytes s) = length s" by (simp add: host_bytes_def)

lemma unat_len: "length s + 1 < 2 ^ 32 \<Longrightarrow> unat (of_nat (length s) + 1 :: u32) = length s + 1"
  using unat_of_nat_u32 [of "length s + 1"] by (simp add: add.commute)

lemma scratch_roundtrip:
  assumes "write_null_str s st = (Inr p, st')" "CHR 0x00 \<notin> set s" "length s + 1 < 2 ^ 32"
    and "ws_mem_size st = of_nat (length (ws_memory st))" "length (ws_memory st) < 2 ^ 32"
  shows "read_null_str p st' = (Inr s, st')"
proof -
  let ?off = "unat (ws_scratch_head st)" and ?n = "length (ws_memory st)"
  note len = unat_len [OF assms(3)]
  have r: "host_range st ?off (length s + 1)" "p = ws_scratch_head st"
    "st' = st\<lparr>ws_memory := write_at (ws_memory st) ?off (host_bytes s @ [0]), ws_scratch_head := p + (of_nat (length s) + 1)\<rparr>"
    using assms(1) len by (auto simp: write_null_str_def Let_def split: if_splits)
  have fits: "?off + (length s + 1) \<le> ?n" and base: "ws_mem_base st = Some (ws_generation st)" using r(1) by (auto simp: host_range_def)
  have size: "unat (ws_mem_size st) = ?n" using assms(4,5) unat_of_nat_u32 by simp
  have less: "ws_scratch_head st < ws_mem_size st" using fits size by (simp add: word_less_nat_alt)
  then have diff: "unat (ws_mem_size st - p) = ?n - ?off" using size r(2) by (simp add: unat_sub word_le_nat_alt word_less_nat_alt)
  have len': "length (write_at (ws_memory st) ?off (host_bytes s @ [0])) = ?n" using fits by simp
  have "?n - ?off = length s + Suc (?n - ?off - (length s + 1))" using fits by simp
  then obtain k where k: "?n - ?off = length s + Suc k" by blast
  have "drop ?off (write_at (ws_memory st) ?off (host_bytes s @ [0])) = host_bytes s @ 0 # drop (?off + (length s + 1)) (ws_memory st)"
    using fits by (simp add: write_at_def)
  then have "takeWhile (\<lambda>b. b \<noteq> 0) (take (?n - ?off) (drop ?off (write_at (ws_memory st) ?off (host_bytes s @ [0])))) = host_bytes s"
    using assms(2) host_bytes_zero [of s] by (simp add: k takeWhile_append)
  moreover have "host_range st' ?off (?n - ?off)" using base fits len' by (simp add: host_range_def r(3))
  moreover have "\<not> ws_mem_size st' \<le> p" using less r(2,3) by simp
  ultimately show ?thesis using diff r(2) unfolding read_null_str_def by (simp add: r(3))
qed

section \<open>Calls stay inside the memory\<close>

definition small_ctx :: "ctx_ptr \<Rightarrow> bool" where
  "small_ctx p \<longleftrightarrow> (case p of NullCtx \<Rightarrow> True | LiveCtx c \<Rightarrow> \<forall>kv \<in> set (rc_metadata c). length (snd kv) < 2 ^ 31 | DanglingCtx \<Rightarrow> False)"

definition mem_ok :: "nat \<Rightarrow> 'm wasm_state \<Rightarrow> bool" where
  "mem_ok n st \<longleftrightarrow> ws_mem_base st = Some (ws_generation st) \<and> length (ws_memory st) = n \<and> ws_mem_size st = of_nat n
     \<and> unat (ws_scratch_head st) \<le> n \<and> small_ctx (ws_current_ctx st)"

definition safe :: "nat \<Rightarrow> (wasm_fault + 'a) \<times> 'm wasm_state \<Rightarrow> bool" where
  "safe n rs \<longleftrightarrow> (case fst rs of Inl (Undefined e) \<Rightarrow> False | Inl (Thrown e) \<Rightarrow> True | Inr x \<Rightarrow> mem_ok n (snd rs))"

lemma safe_then:
  assumes "safe n (op st)" "\<And>x st'. op st = (Inr x, st') \<Longrightarrow> mem_ok n st' \<Longrightarrow> safe n (f x st')"
  shows "safe n (wthen op f st)"
  using assms by (auto simp: wthen_def safe_def split: prod.splits sum.splits wasm_fault.splits)

text \<open>What a guest must respect: the ranges it gives to host functions lie in its memory, and it does not grow it.\<close>

fun host_ok :: "nat \<Rightarrow> host_call \<Rightarrow> bool" where
  "host_ok n (HGetMetadata kp kn) \<longleftrightarrow> unat kp + unat kn \<le> n"
| "host_ok n (HSetMetadata kp kn vp vn) \<longleftrightarrow> unat kp + unat kn \<le> n \<and> unat vp + unat vn \<le> n"
| "host_ok n (HLog p k) \<longleftrightarrow> unat p + unat k \<le> n"
| "host_ok n _ \<longleftrightarrow> True"

primrec guest_ok :: "nat \<Rightarrow> guest \<Rightarrow> bool" where
  "guest_ok n (GReturn e) \<longleftrightarrow> True"
| "guest_ok n (GHost hc k) \<longleftrightarrow> host_ok n hc \<and> (\<forall>r. guest_ok n (k r))"
| "guest_ok n (GStore off bs k) \<longleftrightarrow> guest_ok n k"
| "guest_ok n (GLoad off m k) \<longleftrightarrow> (\<forall>b. guest_ok n (k b))"
| "guest_ok n (GGrow m k) \<longleftrightarrow> False"

lemma write_range:
  assumes "mem_ok n st" "n < 2 ^ 31" "length s < 2 ^ 31" "\<not> ws_mem_size st < ws_scratch_head st + (of_nat (length s) + 1)"
  shows "host_range st (unat (ws_scratch_head st)) (length s + 1)" "unat (ws_scratch_head st + (of_nat (length s) + 1)) = unat (ws_scratch_head st) + (length s + 1)"
proof -
  have len: "unat (of_nat (length s) + 1 :: u32) = length s + 1" using assms(3) by (intro unat_len) simp
  have size: "unat (ws_mem_size st) = n" using assms(1,2) unat_of_nat_u32 [of n] by (simp add: mem_ok_def)
  have "unat (ws_scratch_head st) + unat (of_nat (length s) + 1 :: u32) < 2 ^ LENGTH(32)"
    using assms(1-3) len by (simp add: mem_ok_def)
  then show sum: "unat (ws_scratch_head st + (of_nat (length s) + 1)) = unat (ws_scratch_head st) + (length s + 1)"
    using len by (subst unat_plus_simple [THEN iffD1]) (simp_all add: no_olen_add_nat)
  show "host_range st (unat (ws_scratch_head st)) (length s + 1)"
    using assms(1,4) size sum by (simp add: host_range_def mem_ok_def word_less_nat_alt)
qed

lemma write_safe:
  assumes "mem_ok n st" "n < 2 ^ 31" "length s < 2 ^ 31"
  shows "safe n (write_null_str s st)"
proof (cases "ws_mem_size st < ws_scratch_head st + (of_nat (length s) + 1)")
  case False
  note r = write_range [OF assms False]
  have len: "unat (of_nat (length s) + 1 :: u32) = length s + 1" using assms(3) by (intro unat_len) simp
  have "unat (ws_scratch_head st) + (length s + 1) \<le> n" using r(1) assms(1) by (simp add: host_range_def mem_ok_def)
  then show ?thesis using False r len assms(1) by (simp add: write_null_str_def Let_def safe_def mem_ok_def)
qed (simp add: write_null_str_def Let_def safe_def)

lemma set_om_set_subset: "set (om_set k v m) \<subseteq> insert (k, v) (set m)"
  by (induction k v m rule: om_set.induct) auto

lemma guest_string_safe:
  assumes "mem_ok n st" "unat p + unat k \<le> n"
  shows "guest_string p k st = (Inr (guest_text (take (unat k) (drop (unat p) (ws_memory st)))), st)"
  using assms by (simp add: guest_string_def mem_ok_def)

lemma host_safe:
  assumes "mem_ok n st" "n < 2 ^ 31" "host_ok n hc"
  shows "safe n (host_function lib hc st)"
proof (cases hc)
  case (HGetMetadata kp kn)
  have "length (case map_of (rc_metadata c) key of None \<Rightarrow> [] | Some v \<Rightarrow> v) < 2 ^ 31" if "ws_current_ctx st = LiveCtx c" for c key
    using assms(1) that by (auto simp: mem_ok_def small_ctx_def split: option.split dest!: map_of_SomeD)
  moreover have "ws_current_ctx st \<noteq> DanglingCtx" using assms(1) by (auto simp: mem_ok_def small_ctx_def)
  ultimately show ?thesis using HGetMetadata assms guest_string_safe [OF assms(1), of kp kn] write_safe [OF assms(1,2)]
    by (auto simp: wthen_def split: ctx_ptr.split)
next
  case (HSetMetadata kp kn vp vn)
  have "length (guest_text (take (unat vn) (drop (unat vp) (ws_memory st)))) < 2 ^ 31"
    using HSetMetadata assms by (simp add: guest_text_def mem_ok_def)
  then have "mem_ok n (st\<lparr>ws_current_ctx := LiveCtx (c\<lparr>rc_metadata := om_set key (guest_text (take (unat vn) (drop (unat vp) (ws_memory st)))) (rc_metadata c)\<rparr>)\<rparr>)"
    if "ws_current_ctx st = LiveCtx c" for c key
    using assms(1) that set_om_set_subset [of key _ "rc_metadata c"] by (fastforce simp: mem_ok_def small_ctx_def)
  moreover have "ws_current_ctx st \<noteq> DanglingCtx" using assms(1) by (auto simp: mem_ok_def small_ctx_def)
  ultimately show ?thesis using HSetMetadata assms guest_string_safe [OF assms(1), of kp kn] guest_string_safe [OF assms(1), of vp vn]
    by (auto simp: wthen_def safe_def split: ctx_ptr.split)
qed (use assms in \<open>auto simp: wreturn_def safe_def wthen_def guest_string_safe [OF assms(1)] mem_ok_def\<close>)

lemma guest_safe: "guest_ok n g \<Longrightarrow> n < 2 ^ 31 \<Longrightarrow> mem_ok n st \<Longrightarrow> safe n (run_guest lib g st)"
proof (induction g arbitrary: st)
  case (GHost hc k)
  then show ?case by (auto intro!: safe_then host_safe)
next
  case (GStore off bs k)
  then show ?case by (auto simp: mem_ok_def safe_def)
next
  case (GLoad off m k)
  then show ?case by (auto simp: safe_def)
qed (auto simp: wreturn_def safe_def)

text \<open>The head of the scratch space after the arguments.\<close>

lemma write_head:
  assumes "mem_ok n st" "n < 2 ^ 31" "length s < 2 ^ 31" "write_null_str s st = (Inr p, st')"
  shows "mem_ok n st'" "unat (ws_scratch_head st') = unat (ws_scratch_head st) + (length s + 1)"
proof -
  show "mem_ok n st'" using write_safe [OF assms(1-3)] assms(4) by (simp add: safe_def)
  show "unat (ws_scratch_head st') = unat (ws_scratch_head st) + (length s + 1)"
    using assms(4) write_range(2) [OF assms(1-3)] by (auto simp: write_null_str_def Let_def split: if_splits)
qed

lemma reserve_safe:
  assumes "mem_ok n st" "n < 2 ^ 31" "unat (ws_scratch_head st) + 4096 \<le> n"
  shows "safe n (reserve_result st)"
proof -
  have k: "unat kResultBufSize = 4096" by (simp add: kResultBufSize_def)
  have "unat (ws_scratch_head st + kResultBufSize) = unat (ws_scratch_head st) + 4096"
    using assms(2,3) k by (subst unat_plus_simple [THEN iffD1]) (simp_all add: no_olen_add_nat)
  then show ?thesis using assms k by (simp add: reserve_result_def Let_def safe_def mem_ok_def host_range_def)
qed

definition args_length :: "rpc_context \<Rightarrow> string \<Rightarrow> nat" where
  "args_length ctx js = length (rc_service ctx) + length (rc_method ctx) + length js"

lemma request_safe:
  assumes "mem_ok n st" "131072 \<le> n" "n < 2 ^ 31" "ws_scratch_head st = kScratchBase"
    and "wl_dump lib (rc_metadata ctx) = Some js" "args_length ctx js + 4099 \<le> 65536" "\<And>args. guest_ok n (wl_call lib func args)"
  shows "safe n (run_request lib func ctx st)"
proof -
  have l: "length (rc_service ctx) < 2 ^ 31" "length (rc_method ctx) < 2 ^ 31" "length js < 2 ^ 31" using assms(6) by (simp_all add: args_length_def)
  have h: "unat (ws_scratch_head st) = 65536" using assms(4) by (simp add: kScratchBase_def)
  show ?thesis unfolding run_request_def dump_metadata_def assms(5)
  proof (intro safe_then)
    show "safe n ((case Some js of None \<Rightarrow> wfail (Thrown ''invalid UTF-8'') | Some js \<Rightarrow> wreturn js) st)"
      using assms(1) by (simp add: wreturn_def safe_def)
  next
    fix x1 st1 assume 1: "(case Some js of None \<Rightarrow> wfail (Thrown ''invalid UTF-8'') | Some js \<Rightarrow> wreturn js) st = (Inr x1, st1)" "mem_ok n st1"
    then show "safe n (write_null_str (rc_service ctx) st1)" using write_safe assms(3) l by blast
    fix x2 st2 assume 2: "write_null_str (rc_service ctx) st1 = (Inr x2, st2)" "mem_ok n st2"
    then show "safe n (write_null_str (rc_method ctx) st2)" using write_safe assms(3) l by blast
    fix x3 st3 assume 3: "write_null_str (rc_method ctx) st2 = (Inr x3, st3)" "mem_ok n st3"
    have x1: "x1 = js" "st1 = st" using 1 by (simp_all add: wreturn_def)
    then show "safe n (write_null_str x1 st3)" using write_safe 3 assms(3) l by blast
    fix x4 st4 assume 4: "write_null_str x1 st3 = (Inr x4, st4)" "mem_ok n st4"
    have "unat (ws_scratch_head st4) = 65536 + args_length ctx js + 3"
      using write_head(2) [OF 1(2) assms(3) l(1) 2(1)] write_head(2) [OF 2(2) assms(3) l(2) 3(1)] write_head(2) [OF 3(2) assms(3) _ 4(1)] l(3) x1 h
      by (simp add: args_length_def)
    then show "safe n (reserve_result st4)" using reserve_safe [OF 4(2) assms(3)] assms(2,6) by simp
    fix x5 st5 assume 5: "reserve_result st4 = (Inr x5, st5)" "mem_ok n st5"
    then show "safe n (run_guest lib (wl_call lib func [x2, x3, x4, x5]) st5)" using guest_safe assms(3,7) by blast
    fix x6 st6 assume "mem_ok n st6"
    then show "safe n (wreturn (x5, x6) st6)" by (simp add: wreturn_def safe_def)
  qed
qed

lemma read_safe: "mem_ok n st \<Longrightarrow> n < 2 ^ 31 \<Longrightarrow> safe n (read_null_str p st)"
proof -
  assume ok: "mem_ok n st" "n < 2 ^ 31"
  then have "unat (ws_mem_size st) = n" using unat_of_nat_u32 [of n] by (simp add: mem_ok_def)
  then have "host_range st (unat p) (unat (ws_mem_size st - p))" if "p < ws_mem_size st"
    using ok(1) that by (simp add: host_range_def mem_ok_def unat_sub word_le_nat_alt word_less_nat_alt)
  then show ?thesis using ok(1) by (auto simp: read_null_str_def safe_def not_le)
qed

lemma in_ctx_safe:
  assumes "safe n (op (st\<lparr>ws_current_ctx := LiveCtx ctx\<rparr>))"
  shows "safe n (in_ctx ctx op st)" "in_ctx ctx op st = (Inr x, st') \<Longrightarrow> ws_current_ctx st' = NullCtx"
  using assms by (auto simp: in_ctx_def safe_def mem_ok_def small_ctx_def split: prod.splits sum.splits wasm_fault.splits)

lemma ensure_keeps:
  assumes "131072 \<le> length (ws_memory st)" "length (ws_memory st) < 2 ^ 31"
  shows "ensure_memory lib 2 st = (Inr (), st\<lparr>ws_mem_base := Some (ws_generation st), ws_mem_size := of_nat (length (ws_memory st))\<rparr>)"
proof -
  have "unat (of_nat (length (ws_memory st)) :: u32) = length (ws_memory st)" using assms(2) by (intro unat_of_nat_u32) simp
  then have "\<not> (of_nat (length (ws_memory st)) :: u32) < 2 * 65536" using assms(1) by (simp add: word_less_nat_alt)
  then show ?thesis by (simp add: ensure_memory_def Let_def)
qed


section \<open>The answer of a module is applied\<close>

lemma write_fits:
  assumes "mem_ok n st" "n < 2 ^ 31" "unat (ws_scratch_head st) + (length s + 1) \<le> n"
  shows "\<exists>p st'. write_null_str s st = (Inr p, st') \<and> mem_ok n st' \<and> ws_current_ctx st' = ws_current_ctx st
     \<and> unat (ws_scratch_head st') = unat (ws_scratch_head st) + (length s + 1)"
proof -
  have l: "length s < 2 ^ 31" using assms(2,3) by simp
  have len: "unat (of_nat (length s) + 1 :: u32) = length s + 1" using l by (intro unat_len) simp
  have size: "unat (ws_mem_size st) = n" using assms(1,2) unat_of_nat_u32 [of n] by (simp add: mem_ok_def)
  have "unat (ws_scratch_head st + (of_nat (length s) + 1)) = unat (ws_scratch_head st) + (length s + 1)"
    using len assms(2,3) by (subst unat_plus_simple [THEN iffD1]) (simp_all add: no_olen_add_nat)
  then have b: "\<not> ws_mem_size st < ws_scratch_head st + (of_nat (length s) + 1)" using size assms(3) by (simp add: word_less_nat_alt)
  then obtain p st' where w: "write_null_str s st = (Inr p, st')" and c: "ws_current_ctx st' = ws_current_ctx st"
    using write_range(1) [OF assms(1,2) l b] len by (auto simp: write_null_str_def Let_def)
  with write_head [OF assms(1,2) l w] show ?thesis by blast
qed

lemma reserve_fits:
  assumes "mem_ok n st" "n < 2 ^ 31" "unat (ws_scratch_head st) + 4096 \<le> n"
  shows "\<exists>st'. reserve_result st = (Inr (ws_scratch_head st), st') \<and> mem_ok n st' \<and> ws_current_ctx st' = ws_current_ctx st
     \<and> ws_memory st' = write_at (ws_memory st) (unat (ws_scratch_head st)) (replicate 4096 0)"
proof -
  have k: "unat kResultBufSize = 4096" by (simp add: kResultBufSize_def)
  then have "host_range st (unat (ws_scratch_head st)) (unat kResultBufSize)" using assms(1,3) by (simp add: host_range_def mem_ok_def)
  then obtain st' where r: "reserve_result st = (Inr (ws_scratch_head st), st')" "ws_current_ctx st' = ws_current_ctx st"
    "ws_memory st' = write_at (ws_memory st) (unat (ws_scratch_head st)) (replicate 4096 0)"
    by (simp add: reserve_result_def Let_def host_range_def k)
  with reserve_safe [OF assms] show ?thesis by (simp add: safe_def)
qed

text \<open>A module that stores the characters of a text, and no terminator, where the host reads its result.\<close>

definition answers :: "('m, 'f) wasm_lib \<Rightarrow> 'f \<Rightarrow> string \<Rightarrow> bool" where
  "answers lib func res \<longleftrightarrow> (\<forall>a b c p. wl_call lib func [a, b, c, p] = GStore (unat p) (host_bytes res) (GReturn None))"

lemma stored_in_cleared:
  fixes m bs :: bytes
  assumes "off + 4096 \<le> length m" "length bs < 4096"
  shows "\<exists>rest. drop off (write_at (write_at m off (replicate 4096 0)) off bs) = bs @ 0 # rest"
proof -
  let ?m = "write_at m off (replicate 4096 (0 :: u8))"
  have l: "length ?m = length m" "?m ! (off + length bs) = 0" using assms by (simp_all add: write_at_def nth_append)
  have "drop off (write_at ?m off bs) = bs @ drop (off + length bs) ?m" using l(1) assms by (simp add: write_at_def)
  moreover have "0 # drop (Suc (off + length bs)) ?m = drop (off + length bs) ?m"
    using Cons_nth_drop_Suc [of "off + length bs" ?m] l assms by simp
  ultimately show ?thesis by metis
qed

lemma answer_read:
  assumes "mem_ok n st" "n < 2 ^ 31" "unat p + 4096 \<le> n" "length res < 4096" "CHR 0x00 \<notin> set res"
    and "ws_memory st = write_at m (unat p) (replicate 4096 0)" "length m = n"
    and "st' = st\<lparr>ws_memory := write_at (ws_memory st) (unat p) (host_bytes res), ws_current_ctx := NullCtx\<rparr>"
  shows "read_null_str p st' = (Inr res, st')"
proof -
  have size: "unat (ws_mem_size st) = n" "length (ws_memory st) = n" using assms(1,2) unat_of_nat_u32 [of n] by (simp_all add: mem_ok_def)
  then have less: "p < ws_mem_size st" using assms(3) by (simp add: word_less_nat_alt)
  then have diff: "unat (ws_mem_size st - p) = n - unat p" using size by (simp add: unat_sub word_le_nat_alt word_less_nat_alt)
  have len: "length (write_at (ws_memory st) (unat p) (host_bytes res)) = n" using size assms(3,4) by simp
  have "n - unat p = length res + Suc (n - unat p - (length res + 1))" using assms(3,4) by simp
  then obtain k where k: "n - unat p = length res + Suc k" by blast
  obtain rest where "drop (unat p) (write_at (ws_memory st) (unat p) (host_bytes res)) = host_bytes res @ 0 # rest"
    using stored_in_cleared [of "unat p" m "host_bytes res"] assms(3,4,6,7) by auto
  then have "takeWhile (\<lambda>b. b \<noteq> 0) (take (n - unat p) (drop (unat p) (write_at (ws_memory st) (unat p) (host_bytes res)))) = host_bytes res"
    using assms(5) host_bytes_zero [of res] by (simp add: k takeWhile_append)
  moreover have "host_range st' (unat p) (n - unat p)" using assms(1,3) len by (simp add: host_range_def mem_ok_def assms(8))
  moreover have "\<not> ws_mem_size st \<le> p" using less by simp
  ultimately show ?thesis using diff unfolding read_null_str_def by (simp add: assms(8))
qed

text \<open>C28. What a module answers is applied to the context of the call: a module that stores a text of less than 4096
  characters where it is told to, without a terminator, has this text read back exactly and its members set in the
  metadata; everything else of the context stays as it was. The call does not throw.\<close>

theorem wasm_answer_applied:
  assumes "length (ws_memory st) = n" "131072 \<le> n" "n < 2 ^ 31"
    and "wl_dump lib (rc_metadata ctx) = Some js" "args_length ctx js + 4099 \<le> 65536"
    and "\<forall>kv \<in> set (rc_metadata ctx). length (snd kv) < 2 ^ 31" "find_module i st \<noteq> None" "wl_find lib (ws_loaded st) ''on_request'' = Some func"
    and "answers lib func res" "length res < 4096" "CHR 0x00 \<notin> set res"
  shows "fst (call_on_request lib i ctx st) = Inr (apply_result lib res ctx)"
proof -
  let ?st = "st\<lparr>ws_scratch_head := kScratchBase, ws_mem_base := Some (ws_generation st), ws_mem_size := of_nat n\<rparr>"
  let ?s0 = "?st\<lparr>ws_current_ctx := LiveCtx ctx\<rparr>"
  obtain mi where mi: "find_module i st = Some mi" using assms(7) by auto
  have start: "ensure_memory lib 2 (st\<lparr>ws_scratch_head := kScratchBase\<rparr>) = (Inr (), ?st)"
    using ensure_keeps [of "st\<lparr>ws_scratch_head := kScratchBase\<rparr>" lib] assms(1-3) by simp
  have ok: "mem_ok n ?s0" using assms(1,2,6) by (simp add: mem_ok_def small_ctx_def kScratchBase_def)
  have h: "unat (ws_scratch_head ?s0) = 65536" by (simp add: kScratchBase_def)
  have a: "length (rc_service ctx) + length (rc_method ctx) + length js + 4099 \<le> 65536" using assms(5) by (simp add: args_length_def)
  obtain p1 s1 where 1: "write_null_str (rc_service ctx) ?s0 = (Inr p1, s1)" "mem_ok n s1" "ws_current_ctx s1 = LiveCtx ctx"
    "unat (ws_scratch_head s1) = 65536 + (length (rc_service ctx) + 1)" using write_fits [OF ok assms(3), of "rc_service ctx"] h a assms(2) by auto
  obtain p2 s2 where 2: "write_null_str (rc_method ctx) s1 = (Inr p2, s2)" "mem_ok n s2" "ws_current_ctx s2 = LiveCtx ctx"
    "unat (ws_scratch_head s2) = 65536 + (length (rc_service ctx) + 1) + (length (rc_method ctx) + 1)"
    using write_fits [OF 1(2) assms(3), of "rc_method ctx"] 1(3,4) a assms(2) by auto
  obtain p3 s3 where 3: "write_null_str js s2 = (Inr p3, s3)" "mem_ok n s3" "ws_current_ctx s3 = LiveCtx ctx"
    "unat (ws_scratch_head s3) = 65536 + (length (rc_service ctx) + 1) + (length (rc_method ctx) + 1) + (length js + 1)"
    using write_fits [OF 2(2) assms(3), of js] 2(3,4) a assms(2) by auto
  define p where "p = ws_scratch_head s3"
  have room: "unat p + 4096 \<le> n" using 3(4) a assms(2) by (simp add: p_def)
  obtain s4 where 4: "reserve_result s3 = (Inr p, s4)" "mem_ok n s4" "ws_current_ctx s4 = LiveCtx ctx"
    "ws_memory s4 = write_at (ws_memory s3) (unat p) (replicate 4096 0)"
    using reserve_fits [OF 3(2) assms(3)] room 3(3) by (auto simp: p_def)
  let ?s5 = "s4\<lparr>ws_memory := write_at (ws_memory s4) (unat p) (host_bytes res)\<rparr>"
  have "run_guest lib (wl_call lib func [p1, p2, p3, p]) s4 = (Inr None, ?s5)"
    using assms(9,10) 4(2) room by (simp add: answers_def mem_ok_def wreturn_def)
  then have "run_request lib func ctx ?s0 = (Inr (p, None), ?s5)"
    using 1(1) 2(1) 3(1) 4(1) assms(4) by (simp add: run_request_def dump_metadata_def wthen_def wreturn_def)
  then have "in_ctx ctx (run_request lib func ctx) ?st = (Inr ((p, None), ctx), ?s5\<lparr>ws_current_ctx := NullCtx\<rparr>)"
    using 4(3) by (simp add: in_ctx_def)
  moreover have "read_null_str p (?s5\<lparr>ws_current_ctx := NullCtx\<rparr>) = (Inr res, ?s5\<lparr>ws_current_ctx := NullCtx\<rparr>)"
    using answer_read [OF 4(2) assms(3) room assms(10,11) 4(4)] 3(2) by (simp add: mem_ok_def)
  ultimately show ?thesis using mi assms(8) start
    by (simp add: call_on_request_def call_on_def wthen_def reset_scratch_def wcheck_def wreturn_def)
qed

text \<open>A library with one module that answers with an empty object.\<close>

definition sample_lib :: "(unit, unit) wasm_lib" where
  "sample_lib = \<lparr>wl_parse = (\<lambda>_. Inr ()), wl_load = (\<lambda>_ _ m. Inr m), wl_link = (\<lambda>_ _. None), wl_compile = (\<lambda>_. None), wl_start = (\<lambda>_. GReturn None),
     wl_find = (\<lambda>_ _. Some ()), wl_call = (\<lambda>_ args. GStore (unat (last args)) (host_bytes ''{a}'') (GReturn None)), wl_resize = (\<lambda>n _. Inr (replicate (n * 65536) 0)),
     wl_dump = (\<lambda>_. Some ''{}''), wl_json = (\<lambda>_. Some [(''a'', Some ''b'')]), wl_random = (\<lambda>_. 4)\<rparr>"

definition sample_ctx :: rpc_context where
  "sample_ctx = \<lparr>rc_service = ''S'', rc_method = ''M'', rc_metadata = [], rc_is_response = False, rc_status_code = 0\<rparr>"

definition sample_wasm :: "unit wasm_state" where
  "sample_wasm = new_wasm\<lparr>ws_modules := [\<lparr>mi_id = 1, mi_wasm_bytes = [], mi_module = ()\<rparr>], ws_memory := replicate 131072 0\<rparr>"

lemma sample_call:
  shows "length (ws_memory sample_wasm) = 131072" "guest_ok 131072 (wl_call sample_lib func args)" "wl_dump sample_lib (rc_metadata sample_ctx) = Some ''{}''"
    "args_length sample_ctx ''{}'' + 4099 \<le> 65536" "\<forall>kv \<in> set (rc_metadata sample_ctx). length (snd kv) < 2 ^ 31" "find_module 1 sample_wasm \<noteq> None"
    "wl_find sample_lib (ws_loaded sample_wasm) ''on_request'' = Some ()" "answers sample_lib () ''{a}''" "CHR 0x00 \<notin> set ''{a}''"
  by (simp_all add: sample_wasm_def sample_lib_def sample_ctx_def args_length_def find_module_def answers_def)


theorem wasm_answer_applied_witness:
  "fst (call_on_request sample_lib 1 sample_ctx sample_wasm) = Inr (sample_ctx\<lparr>rc_metadata := [(''a'', ''b'')]\<rparr>)"
proof -
  have "131072 \<le> (131072 :: nat)" "(131072 :: nat) < 2 ^ 31" "length ''{a}'' < 4096" by simp_all
  note wasm_answer_applied [OF sample_call(1) this(1,2) sample_call(3-8) this(3) sample_call(9)]
  then show ?thesis by (simp add: apply_result_def sample_lib_def sample_ctx_def)
qed

section \<open>Rules\<close>

lemma request_result: "fst (do_request dr cfg md) = fst (do_request dr cfg [])"
  by (simp add: do_request_def)

lemma rejected_status: "rr_action (fst (do_request dr cfg md)) = RA_Reject \<Longrightarrow> rr_status_code (fst (do_request dr cfg md)) = 503"
  by (auto simp: do_request_def plain_result_def split: if_splits)

definition rule_actions :: "(wasm_config \<times> draws) list \<Rightarrow> rule_action list" where
  "rule_actions fs = map (\<lambda>(cfg, dr). rr_action (fst (do_request dr cfg []))) fs"

lemma combine_simps:
  "rr_action (combine_result fin r) = (if rr_action r = RA_Delay then RA_Delay else if rr_action fin \<noteq> RA_Passthrough then rr_action fin else rr_action r)"
  "rr_status_code (combine_result fin r) = rr_status_code fin"
  by (simp_all add: combine_result_def Let_def)

lemma rules_request_result:
  "rr_action fin \<noteq> RA_Reject \<Longrightarrow>
   rr_action (fst (rules_request fs fin md)) =
     (if RA_Reject \<in> set (rule_actions fs) then RA_Reject else if RA_Delay \<in> set (rr_action fin # rule_actions fs) then RA_Delay
      else case filter (\<lambda>a. a \<noteq> RA_Passthrough) (rr_action fin # rule_actions fs) of [] \<Rightarrow> RA_Passthrough | a # _ \<Rightarrow> a)
   \<and> rr_status_code (fst (rules_request fs fin md)) = (if RA_Reject \<in> set (rule_actions fs) then 503 else rr_status_code fin)"
proof (induction fs fin md rule: rules_request.induct)
  case (2 cfg dr fs fin md)
  obtain r md' where r: "do_request dr cfg md = (r, md')" by force
  have a: "rule_actions ((cfg, dr) # fs) = rr_action r # rule_actions fs" using request_result [of dr cfg md] r by (simp add: rule_actions_def)
  show ?case
  proof (cases "rr_action r = RA_Reject")
    case True
    then show ?thesis using r a rejected_status [of dr cfg md] by simp
  next
    case False
    have n: "rr_action (combine_result fin r) \<noteq> RA_Reject" using False "2.prems" by (simp add: combine_simps)
    note ih = "2.IH" [OF r [symmetric] False n]
    show ?thesis using r a False ih "2.prems" by (auto simp: combine_simps)
  qed
qed (simp add: rule_actions_def)

text \<open>A chain of JSON rules decides by fixed precedence, whatever the metadata: if any rule rejects, the call is
  rejected with status 503; otherwise, if any rule delays, the action is to delay; otherwise it is the action of the
  first rule that has one; and without any it passes. Rejection is the only way to another status than 200.\<close>

theorem rule_chain_precedence:
  "rr_action (fst (rule_chain_request fs md)) =
     (if RA_Reject \<in> set (rule_actions fs) then RA_Reject else if RA_Delay \<in> set (rule_actions fs) then RA_Delay
      else case filter (\<lambda>a. a \<noteq> RA_Passthrough) (rule_actions fs) of [] \<Rightarrow> RA_Passthrough | a # _ \<Rightarrow> a)
   \<and> rr_status_code (fst (rule_chain_request fs md)) = (if RA_Reject \<in> set (rule_actions fs) then 503 else 200)"
  using rules_request_result [of plain_result fs md] by (simp add: rule_chain_request_def plain_result_def)

section \<open>Where the host leaves its memory\<close>

text \<open>The host functions take the guest's addresses as they are.\<close>

lemma guest_reads_host: "length (ws_memory st) < unat p + unat k \<Longrightarrow> \<exists>e. fst (host_function lib (HLog p k) st) = Inl (Undefined e)"
  by (simp add: wthen_def guest_string_def)

text \<open>The space for the result is cleared without a check: when the arguments fit but the result does not, the bytes
  behind the memory are overwritten.\<close>

lemma result_space_unchecked:
  assumes "mem_ok n st" "n < 2 ^ 31" "n < unat (ws_scratch_head st) + 4096"
  shows "\<exists>e. fst (reserve_result st) = Inl (Undefined e)"
  using assms by (simp add: reserve_result_def Let_def host_range_def mem_ok_def kResultBufSize_def)

text \<open>When the guest grows its memory, the host's pointer stays behind: a metadata lookup and the reading of the
  result go through it.\<close>

lemma grown_memory_stale:
  assumes "mem_ok n st" "unat p < n" "n < 2 ^ 31" "run_guest lib (GGrow m (GReturn None)) st = (r, st')"
  shows "\<exists>e. fst (read_null_str p st') = Inl (Undefined e)"
proof -
  have "unat (ws_mem_size st) = n" using assms(1,3) unat_of_nat_u32 [of n] by (simp add: mem_ok_def)
  then have "\<not> ws_mem_size st \<le> p" using assms(2) by (simp add: word_le_nat_alt)
  then show ?thesis using assms(1,4) by (auto simp: read_null_str_def host_range_def mem_ok_def wreturn_def)
qed

text \<open>A call that throws, here because the arguments do not fit, leaves the pointer to its context; the start function
  of a module loaded later uses it.\<close>

lemma thrown_leaves_context: "op (st\<lparr>ws_current_ctx := LiveCtx ctx\<rparr>) = (Inl e, st') \<Longrightarrow> ws_current_ctx (snd (in_ctx ctx op st)) = DanglingCtx"
  by (simp add: in_ctx_def)

lemma start_uses_context:
  assumes "ws_current_ctx st = DanglingCtx" "wl_start lib m = GHost (HGetMetadata 0 0) k"
  shows "\<exists>e. fst (run_start lib m st) = Inl (Undefined e)"
  using assms by (simp add: run_start_def wthen_def guest_string_def)

text \<open>The number of the module is checked and then ignored: the filters of all modules call the same function.\<close>

lemma module_number_ignored:
  "find_module i st \<noteq> None \<Longrightarrow> find_module j st \<noteq> None \<Longrightarrow> call_on_request lib i ctx st = call_on_request lib j ctx st"
  by (auto simp: call_on_request_def call_on_def)

text \<open>Linking fails for a host function the module does not import, so a module must import all five; one that is
  refused for this stays in the list and among the loaded modules.\<close>

lemma find_snoc: "List.find P xs = None \<Longrightarrow> P x \<Longrightarrow> List.find P (xs @ [x]) = Some x"
  by (induction xs) (auto split: if_splits)

lemma refused_module_stays:
  assumes "wl_parse lib wasm = Inr m" "wl_load lib (ws_loaded st) m (ws_memory st) = Inr mem" "wl_link lib m ''creek_get_metadata'' = Some e"
    and "find_module (ws_next_id st) st = None"
  shows "\<exists>t st'. load_module lib wasm st = (Inl (Thrown t), st') \<and> module_count st' = module_count st + 1 \<and> ws_loaded st' = m # ws_loaded st"
proof -
  have "List.find (\<lambda>mi. mi_id mi = ws_next_id st) (ws_modules st @ [\<lparr>mi_id = ws_next_id st, mi_wasm_bytes = wasm, mi_module = m\<rparr>])
      = Some \<lparr>mi_id = ws_next_id st, mi_wasm_bytes = wasm, mi_module = m\<rparr>"
    using assms(4) by (intro find_snoc) (simp_all add: find_module_def)
  then show ?thesis using assms(1-3)
    by (simp add: load_module_def Let_def register_host_imports_def host_imports_def link_host_function_def find_module_def wthen_def wcheck_def wfail_def module_count_def)
qed

end
