(* ===== verification/Pool.thy ===== *)
theory Pool
  imports Prelude
begin

text \<open>
  The allocator of packet buffers (\<open>tight/src/buffer_pool.hpp\<close>): blocks of 2048 bytes kept in a free list per
  thread, at most sixteen each; larger requests go to the heap. A block is a number that \<open>operator new\<close> has
  not given out before, with its size in bytes; blocks may be freed by another thread than the one that
  allocated them. The lemmas show, for every interleaving of threads that free what they have allocated and
  with the size they gave, that a block in use is never handed out again and is always large enough.
\<close>

definition kPoolBlockSize :: nat where "kPoolBlockSize = 2048"
definition kPoolMaxFreePerThread :: nat where "kPoolMaxFreePerThread = 16"

record block_pool =
  bp_free :: "nat \<Rightarrow> nat list"
  bp_size :: "nat \<Rightarrow> nat"
  bp_next :: nat

definition new_pool :: block_pool where
  "new_pool = \<lparr>bp_free = (\<lambda>_. []), bp_size = (\<lambda>_. 0), bp_next = 0\<rparr>"

definition operator_new :: "nat \<Rightarrow> block_pool \<Rightarrow> nat \<times> block_pool" where
  "operator_new bytes p = (bp_next p, p\<lparr>bp_size := (bp_size p)(bp_next p := bytes), bp_next := bp_next p + 1\<rparr>)"

text \<open>Thread \<open>t\<close> wants \<open>n\<close> elements of \<open>sz\<close> bytes.\<close>

definition pool_allocate :: "nat \<Rightarrow> nat \<Rightarrow> nat \<Rightarrow> block_pool \<Rightarrow> nat \<times> block_pool" where
  "pool_allocate t sz n p =
     (if n \<le> kPoolBlockSize div sz
      then if bp_free p t \<noteq> [] then (last (bp_free p t), p\<lparr>bp_free := (bp_free p)(t := butlast (bp_free p t))\<rparr>)
           else operator_new kPoolBlockSize p
      else operator_new (n * sz) p)"

definition pool_deallocate :: "nat \<Rightarrow> nat \<Rightarrow> nat \<Rightarrow> nat \<Rightarrow> block_pool \<Rightarrow> block_pool" where
  "pool_deallocate t sz n b p =
     (if n \<le> kPoolBlockSize div sz \<and> length (bp_free p t) < kPoolMaxFreePerThread
      then p\<lparr>bp_free := (bp_free p)(t := bp_free p t @ [b])\<rparr> else p)"

section \<open>Runs\<close>

text \<open>The blocks in use, with the sizes they were asked for.\<close>

inductive pool_run :: "block_pool \<Rightarrow> (nat \<Rightarrow> (nat \<times> nat) option) \<Rightarrow> bool" where
  PoolStart: "pool_run new_pool Map.empty"
| PoolAlloc: "pool_run p live \<Longrightarrow> 0 < sz \<Longrightarrow> pool_allocate t sz n p = (b, p') \<Longrightarrow> pool_run p' (live(b \<mapsto> (sz, n)))"
| PoolFree: "pool_run p live \<Longrightarrow> live b = Some (sz, n) \<Longrightarrow> pool_run (pool_deallocate t sz n b p) (live(b := None))"

definition pool_ok :: "block_pool \<Rightarrow> (nat \<Rightarrow> (nat \<times> nat) option) \<Rightarrow> bool" where
  "pool_ok p live \<longleftrightarrow> (\<forall>t. distinct (bp_free p t) \<and> length (bp_free p t) \<le> kPoolMaxFreePerThread)
     \<and> (\<forall>t u. t \<noteq> u \<longrightarrow> set (bp_free p t) \<inter> set (bp_free p u) = {})
     \<and> (\<forall>t. \<forall>b \<in> set (bp_free p t). live b = None \<and> b < bp_next p \<and> bp_size p b = kPoolBlockSize)
     \<and> (\<forall>b sz n. live b = Some (sz, n) \<longrightarrow> b < bp_next p \<and> 0 < sz \<and> n * sz \<le> bp_size p b \<and> (n \<le> kPoolBlockSize div sz \<longrightarrow> bp_size p b = kPoolBlockSize))"

lemma block_fits: "0 < sz \<Longrightarrow> n \<le> kPoolBlockSize div sz \<Longrightarrow> n * sz \<le> kPoolBlockSize"
  by (metis div_times_less_eq_dividend le_trans mult_le_mono1)

lemma pool_okI:
  assumes "\<And>t. distinct (bp_free p t) \<and> length (bp_free p t) \<le> kPoolMaxFreePerThread"
    and "\<And>t u b. t \<noteq> u \<Longrightarrow> b \<in> set (bp_free p t) \<Longrightarrow> b \<notin> set (bp_free p u)"
    and "\<And>t b. b \<in> set (bp_free p t) \<Longrightarrow> live b = None \<and> b < bp_next p \<and> bp_size p b = kPoolBlockSize"
    and "\<And>b sz n. live b = Some (sz, n) \<Longrightarrow> b < bp_next p \<and> 0 < sz \<and> n * sz \<le> bp_size p b \<and> (n \<le> kPoolBlockSize div sz \<longrightarrow> bp_size p b = kPoolBlockSize)"
  shows "pool_ok p live"
  unfolding pool_ok_def using assms by blast

lemma pool_okD:
  assumes "pool_ok p live"
  shows "distinct (bp_free p t)" "length (bp_free p t) \<le> kPoolMaxFreePerThread"
    and "t \<noteq> u \<Longrightarrow> b \<in> set (bp_free p t) \<Longrightarrow> b \<notin> set (bp_free p u)"
    and "b \<in> set (bp_free p t) \<Longrightarrow> live b = None" "b \<in> set (bp_free p t) \<Longrightarrow> b < bp_next p" "b \<in> set (bp_free p t) \<Longrightarrow> bp_size p b = kPoolBlockSize"
    and "live b = Some (sz, n) \<Longrightarrow> b < bp_next p" "live b = Some (sz, n) \<Longrightarrow> 0 < sz" "live b = Some (sz, n) \<Longrightarrow> n * sz \<le> bp_size p b"
    and "live b = Some (sz, n) \<Longrightarrow> n \<le> kPoolBlockSize div sz \<Longrightarrow> bp_size p b = kPoolBlockSize"
  using assms unfolding pool_ok_def by blast+

lemma alloc_fresh:
  assumes "pool_ok p live" "0 < sz" "pool_allocate t sz n p = (b, p')"
  shows "live b = None" "n * sz \<le> bp_size p' b"
proof -
  have last: "bp_free p t \<noteq> [] \<Longrightarrow> last (bp_free p t) \<in> set (bp_free p t)" by simp
  have new: "live (bp_next p) = None" using pool_okD(7) [OF assms(1), of "bp_next p"] by (cases "live (bp_next p)") auto
  show "live b = None" using assms(3) pool_okD(4) [OF assms(1) last] new by (auto simp: pool_allocate_def operator_new_def split: if_splits)
  show "n * sz \<le> bp_size p' b"
    using assms(3) pool_okD(6) [OF assms(1) last] block_fits [OF assms(2), of n] by (auto simp: pool_allocate_def operator_new_def split: if_splits)
qed

lemma last_not_butlast: "distinct xs \<Longrightarrow> xs \<noteq> [] \<Longrightarrow> last xs \<notin> set (butlast xs)"
  by (induction xs) (auto dest: in_set_butlastD)

lemma alloc_ok:
  assumes "pool_ok p live" "0 < sz" "pool_allocate t sz n p = (b, p')"
  shows "pool_ok p' (live(b \<mapsto> (sz, n)))"
proof (cases "n \<le> kPoolBlockSize div sz \<and> bp_free p t \<noteq> []")
  case True
  let ?f = "bp_free p t"
  have b: "b = last ?f" "p' = p\<lparr>bp_free := (bp_free p)(t := butlast ?f)\<rparr>" using True assms(3) by (auto simp: pool_allocate_def)
  have mem: "b \<in> set ?f" "b \<notin> set (butlast ?f)" using True b(1) last_not_butlast [OF pool_okD(1) [OF assms(1)]] by auto
  have sub: "c \<in> set (bp_free p u)" if "c \<in> set (bp_free p' u)" for c u using that by (auto simp: b(2) dest: in_set_butlastD split: if_splits)
  have out: "b \<notin> set (bp_free p' u)" for u
    using mem pool_okD(3) [OF assms(1), of t u b] by (auto simp: b(2))
  show ?thesis
  proof (rule pool_okI)
    show "distinct (bp_free p' u) \<and> length (bp_free p' u) \<le> kPoolMaxFreePerThread" for u
      using pool_okD(1,2) [OF assms(1), of u] by (auto simp: b(2) distinct_butlast)
    show "c \<notin> set (bp_free p' v)" if "u \<noteq> v" "c \<in> set (bp_free p' u)" for u v c
      using sub pool_okD(3) [OF assms(1) that(1) sub [OF that(2)]] by blast
    show "(live(b \<mapsto> (sz, n))) c = None \<and> c < bp_next p' \<and> bp_size p' c = kPoolBlockSize" if "c \<in> set (bp_free p' u)" for u c
      using pool_okD(4-6) [OF assms(1) sub [OF that]] out [of u] that by (auto simp: b(2))
    show "c < bp_next p' \<and> 0 < sz' \<and> m * sz' \<le> bp_size p' c \<and> (m \<le> kPoolBlockSize div sz' \<longrightarrow> bp_size p' c = kPoolBlockSize)"
      if "(live(b \<mapsto> (sz, n))) c = Some (sz', m)" for c sz' m
      using that pool_okD(7-10) [OF assms(1), of c sz' m] pool_okD(5,6) [OF assms(1) mem(1)] assms(2) True block_fits [OF assms(2), of n]
      by (auto simp: b(2) split: if_splits)
  qed
next
  case False
  then obtain k where k: "operator_new k p = (b, p')" "n * sz \<le> k" "n \<le> kPoolBlockSize div sz \<longrightarrow> k = kPoolBlockSize"
    using assms(2,3) block_fits [OF assms(2), of n] by (auto simp: pool_allocate_def split: if_splits)
  have b: "b = bp_next p" "p' = p\<lparr>bp_size := (bp_size p)(b := k), bp_next := b + 1\<rparr>" using k(1) by (auto simp: operator_new_def)
  have out: "c \<noteq> b" if "c \<in> set (bp_free p u)" for c u using pool_okD(5) [OF assms(1) that] b(1) by auto
  have out': "c \<noteq> b" if "live c = Some (sz', m)" for c sz' m using pool_okD(7) [OF assms(1) that] b(1) by auto
  show ?thesis
  proof (rule pool_okI)
    show "distinct (bp_free p' u) \<and> length (bp_free p' u) \<le> kPoolMaxFreePerThread" for u using pool_okD(1,2) [OF assms(1), of u] by (simp add: b(2))
    show "c \<notin> set (bp_free p' v)" if "u \<noteq> v" "c \<in> set (bp_free p' u)" for u v c
      using pool_okD(3) [OF assms(1), of u v c] that by (simp add: b(2))
    show "(live(b \<mapsto> (sz, n))) c = None \<and> c < bp_next p' \<and> bp_size p' c = kPoolBlockSize" if "c \<in> set (bp_free p' u)" for u c
      using that pool_okD(4-6) [OF assms(1), of c u] out [of c u] b by auto
    show "c < bp_next p' \<and> 0 < sz' \<and> m * sz' \<le> bp_size p' c \<and> (m \<le> kPoolBlockSize div sz' \<longrightarrow> bp_size p' c = kPoolBlockSize)"
      if "(live(b \<mapsto> (sz, n))) c = Some (sz', m)" for c sz' m
      using that pool_okD(7-10) [OF assms(1), of c sz' m] out' [of c sz' m] k(2,3) assms(2) b by (auto split: if_splits)
  qed
qed

lemma free_ok:
  assumes "pool_ok p live" "live b = Some (sz, n)"
  shows "pool_ok (pool_deallocate t sz n b p) (live(b := None))"
proof -
  let ?p = "pool_deallocate t sz n b p"
  have out: "b \<notin> set (bp_free p u)" for u using pool_okD(4) [OF assms(1), of b u] assms(2) by auto
  have mem: "c \<in> set (bp_free ?p u) \<longleftrightarrow> c \<in> set (bp_free p u) \<or> c = b \<and> u = t \<and> n \<le> kPoolBlockSize div sz \<and> length (bp_free p t) < kPoolMaxFreePerThread" for c u
    by (auto simp: pool_deallocate_def)
  have same: "bp_next ?p = bp_next p" "bp_size ?p = bp_size p" by (simp_all add: pool_deallocate_def)
  show ?thesis
  proof (rule pool_okI)
    show "distinct (bp_free ?p u) \<and> length (bp_free ?p u) \<le> kPoolMaxFreePerThread" for u
      using pool_okD(1,2) [OF assms(1), of u] out [of u] by (auto simp: pool_deallocate_def)
    show "c \<notin> set (bp_free ?p v)" if "u \<noteq> v" "c \<in> set (bp_free ?p u)" for u v c
      using that pool_okD(3) [OF assms(1), of u v c] out by (auto simp: mem)
    show "(live(b := None)) c = None \<and> c < bp_next ?p \<and> bp_size ?p c = kPoolBlockSize" if "c \<in> set (bp_free ?p u)" for u c
      using that pool_okD(4-6) [OF assms(1), of c u] pool_okD(7,10) [OF assms] by (auto simp: mem same)
    show "c < bp_next ?p \<and> 0 < sz' \<and> m * sz' \<le> bp_size ?p c \<and> (m \<le> kPoolBlockSize div sz' \<longrightarrow> bp_size ?p c = kPoolBlockSize)"
      if "(live(b := None)) c = Some (sz', m)" for c sz' m
      using that pool_okD(7-10) [OF assms(1), of c sz' m] by (auto simp: same split: if_splits)
  qed
qed

lemma pool_run_ok: "pool_run p live \<Longrightarrow> pool_ok p live"
proof (induction rule: pool_run.induct)
  case PoolStart
  show ?case by (simp add: pool_ok_def new_pool_def)
next
  case (PoolAlloc p live sz t n b p')
  then show ?case using alloc_ok by blast
next
  case (PoolFree p live b sz n t)
  then show ?case using free_ok by blast
qed

text \<open>A buffer is never shared and never too small: in every interleaving of threads, the block an allocation
  returns is not in use, holds at least the bytes asked for, and the free list of each thread keeps at most
  sixteen blocks.\<close>

theorem pool_blocks_exclusive:
  assumes "pool_run p live" "0 < sz" "pool_allocate t sz n p = (b, p')"
  shows "live b = None \<and> n * sz \<le> bp_size p' b \<and> (\<forall>u. length (bp_free p' u) \<le> kPoolMaxFreePerThread)"
  using alloc_fresh [OF pool_run_ok [OF assms(1)] assms(2,3)] alloc_ok [OF pool_run_ok [OF assms(1)] assms(2,3)] by (simp add: pool_ok_def)

theorem pool_blocks_exclusive_witness:
  "\<exists>p live b p'. pool_run p live \<and> live 0 = None \<and> pool_allocate 7 1 1500 p = (b, p') \<and> b = 0 \<and> 1500 * 1 \<le> bp_size p' b"
proof -
  obtain p1 where 1: "pool_allocate 3 1 2000 new_pool = (0, p1)" "bp_free p1 = (\<lambda>_. [])"
    by (simp add: pool_allocate_def operator_new_def new_pool_def kPoolBlockSize_def)
  have r1: "pool_run p1 [0 \<mapsto> (1, 2000)]" using PoolAlloc [OF PoolStart _ 1(1)] by simp
  let ?p = "pool_deallocate 7 1 2000 0 p1"
  have r2: "pool_run ?p ([0 \<mapsto> (1, 2000)](0 := None))" by (rule PoolFree [OF r1]) simp
  have f: "bp_free ?p 7 = [0]" using 1(2) by (simp add: pool_deallocate_def kPoolBlockSize_def kPoolMaxFreePerThread_def)
  then obtain p' where a: "pool_allocate 7 1 1500 ?p = (0, p')" by (simp add: pool_allocate_def kPoolBlockSize_def)
  from pool_blocks_exclusive [OF r2 _ a] r2 a show ?thesis by (metis fun_upd_same zero_less_one)
qed

end
