(* ===== verification/JsonRpc.thy ===== *)
theory JsonRpc
  imports Http Leaf
begin

text \<open>
  The JSON-RPC entry of the leaf: \<open>handle_json_rpc\<close> in \<open>src/leaf/leaf_runtime.cpp\<close>, which the server of theory Http
  calls. Parsing and printing of JSON texts are the third-party library's and arguments; its values are a
  datatype here, objects sorted by key as in the library, and the access functions the code uses are written
  out with their exceptions. An exception leaves the handler as \<open>None\<close>. The call itself is the argument
  \<open>invoke\<close>: the model of \<open>invoke_for_hello\<close> with the backend's reply.

  The lemmas show that a request sent over HTTP in any pieces ends in one call with the session the client's
  headers ask for, and how the identifier of the request is changed in the answer.
\<close>

section \<open>JSON values\<close>

datatype json = JNull | JBool bool | JInt int | JFloat real | JString string | JArray "json list" | JObject "(string \<times> json) list"

record json_lib =
  jl_parse :: "string \<Rightarrow> string + json"
  jl_dump :: "json \<Rightarrow> string option"

text \<open>\<open>contains\<close> and \<open>operator[]\<close>: only objects have members.\<close>

fun json_member :: "json \<Rightarrow> string \<Rightarrow> json option" where
  "json_member (JObject ms) k = map_of ms k"
| "json_member _ k = None"

fun json_string :: "json \<Rightarrow> string option" where
  "json_string (JString s) = Some s"
| "json_string _ = None"

text \<open>\<open>value (key, default)\<close> for strings: an exception when the value is no object or the member no string.\<close>

fun json_value :: "json \<Rightarrow> string \<Rightarrow> string \<Rightarrow> string option" where
  "json_value (JObject ms) k d = (case map_of ms k of None \<Rightarrow> Some d | Some v \<Rightarrow> json_string v)"
| "json_value _ k d = None"

section \<open>The request\<close>

record rpc_args =
  ra_sid :: string
  ra_sticky :: bool
  ra_metadata :: metadata

definition truth :: "string \<Rightarrow> bool" where "truth v \<longleftrightarrow> v = ''true'' \<or> v = ''1''"

text \<open>One member of the request's \<open>metadata\<close>.\<close>

definition metadata_member :: "string \<times> json \<Rightarrow> rpc_args \<Rightarrow> rpc_args" where
  "metadata_member kv a =
     (case json_string (snd kv) of
        None \<Rightarrow> a
      | Some v \<Rightarrow>
          if fst kv = ''sticky'' then a\<lparr>ra_sticky := truth v\<rparr>
          else if fst kv = ''sid'' then a\<lparr>ra_sid := v\<rparr>
          else if fst kv = ''shard_key'' \<or> fst kv = ''tenant_id'' then a\<lparr>ra_metadata := om_set ''shard_key'' v (ra_metadata a)\<rparr>
          else a)"

text \<open>What the HTTP headers override, in the order of the code.\<close>

definition header_sticky :: "string \<Rightarrow> (string, string) omap \<Rightarrow> rpc_args \<Rightarrow> rpc_args" where
  "header_sticky name headers a = (case map_of headers name of None \<Rightarrow> a | Some v \<Rightarrow> a\<lparr>ra_sticky := truth v\<rparr>)"

definition header_sid :: "string \<Rightarrow> (string, string) omap \<Rightarrow> rpc_args \<Rightarrow> rpc_args" where
  "header_sid name headers a = (case map_of headers name of None \<Rightarrow> a | Some v \<Rightarrow> if v \<noteq> [] then a\<lparr>ra_sid := v\<rparr> else a)"

definition header_shard :: "(string, string) omap \<Rightarrow> rpc_args \<Rightarrow> rpc_args" where
  "header_shard headers a =
     (let hit = (case map_of headers ''x-creek-shard'' of Some v \<Rightarrow> Some v
                 | None \<Rightarrow> (case map_of headers ''shard_key'' of Some v \<Rightarrow> Some v | None \<Rightarrow> map_of headers ''tenant_id''))
      in case hit of None \<Rightarrow> a | Some v \<Rightarrow> if v \<noteq> [] then a\<lparr>ra_metadata := om_set ''shard_key'' v (ra_metadata a)\<rparr> else a)"

definition header_args :: "(string, string) omap \<Rightarrow> rpc_args \<Rightarrow> rpc_args" where
  "header_args headers a = header_shard headers (header_sid ''sid'' headers (header_sticky ''sticky'' headers
     (header_sid ''x-creek-sid'' headers (header_sticky ''x-creek-sticky'' headers a))))"

definition trace_args :: "u8 list \<Rightarrow> u8 list \<Rightarrow> (string, string) omap \<Rightarrow> rpc_args \<Rightarrow> metadata" where
  "trace_args rs rs' headers a =
     (let md = om_set ''sid'' (ra_sid a) (ra_metadata a);
          md = om_set ''sticky'' (if ra_sticky a then ''true'' else ''false'') md;
          md = om_set ''x-sid'' (ra_sid a) md;
          child = create_child rs' (extract_or_create rs (header_of ''traceparent'' headers) (header_of ''tracestate'' headers));
          md = om_set ''traceparent'' (traceparent_swapped child) md
      in if trace_state child \<noteq> [] then om_set ''tracestate'' (trace_state child) md else md)"

definition rpc_error_body :: "(string \<times> json) list \<Rightarrow> int \<Rightarrow> string \<Rightarrow> json" where
  "rpc_error_body ident code msg =
     JObject ([(''error'', JObject [(''code'', JInt code), (''message'', JString msg)])] @ ident @ [(''jsonrpc'', JString ''2.0'')])"

text \<open>Up to the call: an exception, an early answer, or the identifier, the request and the metadata.\<close>

datatype rpc_plan = PlanThrow | PlanReply json | PlanCall string hello_request metadata

definition body_args :: "json \<Rightarrow> json \<Rightarrow> string \<Rightarrow> rpc_args" where
  "body_args request params sid =
     (let a = \<lparr>ra_sid = sid, ra_sticky = (case json_member params ''sticky'' of Some (JBool b) \<Rightarrow> b | _ \<Rightarrow> True), ra_metadata = []\<rparr>
      in case json_member request ''metadata'' of Some (JObject ms) \<Rightarrow> fold metadata_member ms a | _ \<Rightarrow> a)"

definition plan_call :: "u8 list \<Rightarrow> u8 list \<Rightarrow> (string, string) omap \<Rightarrow> string \<Rightarrow> json \<Rightarrow> rpc_plan" where
  "plan_call rs rs' headers ident request =
     (let params = (case json_member request ''params'' of None \<Rightarrow> JObject [] | Some p \<Rightarrow> p) in
      case (json_value params ''name'' [], json_value params ''sid'' []) of
        (Some name, Some sid) \<Rightarrow>
          let a = header_args headers (body_args request params sid)
          in PlanCall ident \<lparr>hq_name = name, hq_sid = ra_sid a, hq_sticky = ra_sticky a\<rparr> (trace_args rs rs' headers a)
      | _ \<Rightarrow> PlanThrow)"

definition plan_request :: "json_lib \<Rightarrow> u8 list \<Rightarrow> u8 list \<Rightarrow> string \<Rightarrow> (string, string) omap \<Rightarrow> rpc_plan" where
  "plan_request lib rs rs' body headers =
     (case jl_parse lib body of
        Inl e \<Rightarrow> PlanReply (rpc_error_body [] (-32700) (''parse error: '' @ e))
      | Inr request \<Rightarrow>
          (case (case json_member request ''id'' of None \<Rightarrow> Some ''null'' | Some i \<Rightarrow> jl_dump lib i) of
             None \<Rightarrow> PlanThrow
           | Some ident \<Rightarrow>
               (case json_member request ''method'' of
                  Some (JString m) \<Rightarrow>
                    if m \<noteq> ''SayHello'' \<and> m \<noteq> ''creek.SayHello''
                    then PlanReply (rpc_error_body [(''id'', JString ident)] (-32601) ''method not found'')
                    else plan_call rs rs' headers ident request
                | _ \<Rightarrow> PlanReply (rpc_error_body [(''id'', JString ident)] (-32600) ''invalid request''))))"

definition rpc_response_body :: "string \<Rightarrow> grpc_status \<Rightarrow> hello_reply \<Rightarrow> json" where
  "rpc_response_body ident st reply =
     (if gs_code st = 0
      then JObject [(''id'', JString ident), (''jsonrpc'', JString ''2.0''),
             (''result'', JObject [(''backend_id'', JString (hp_backend_id reply)), (''message'', JString (hp_message reply))])]
      else rpc_error_body [(''id'', JString ident)] (gs_code st) (gs_message st))"

type_synonym hello_call = "hello_request \<Rightarrow> metadata \<Rightarrow> leaf_state \<Rightarrow> grpc_status \<times> hello_reply \<times> leaf_state \<times> leaf_effect list"

definition handle_json_rpc :: "json_lib \<Rightarrow> u8 list \<Rightarrow> u8 list \<Rightarrow> hello_call \<Rightarrow> string \<Rightarrow> (string, string) omap \<Rightarrow> leaf_state
    \<Rightarrow> (int \<times> string) option \<times> leaf_state \<times> leaf_effect list" where
  "handle_json_rpc lib rs rs' invoke body headers l =
     (case plan_request lib rs rs' body headers of
        PlanThrow \<Rightarrow> (None, l, [])
      | PlanReply j \<Rightarrow> (map_option (Pair 200) (jl_dump lib j), l, [])
      | PlanCall ident hq md \<Rightarrow>
          (case invoke hq md l of (st, reply, l, eff) \<Rightarrow> (map_option (Pair 200) (jl_dump lib (rpc_response_body ident st reply)), l, eff)))"

text \<open>\<open>invoke_for_hello\<close> as such a call; the reply is what the backend that answered has filled in.\<close>

definition hello_invoke :: "(hello_request \<Rightarrow> u64) \<Rightarrow> (string \<Rightarrow> nat) \<Rightarrow> (nat \<Rightarrow> timepoint) \<Rightarrow> (nat \<Rightarrow> timepoint)
    \<Rightarrow> (hello_request \<Rightarrow> call) \<Rightarrow> string \<Rightarrow> hello_reply \<Rightarrow> hello_call" where
  "hello_invoke reqsize hash t0 t1 call service reply hq md l =
     (case invoke_for_hello (reqsize hq) hash t0 t1 (call hq) service md l of (st, calls, l, eff) \<Rightarrow> (st, reply, l, eff))"

section \<open>From the client's bytes to the call\<close>

lemma header_args_sid:
  "map_of headers ''sid'' = Some v \<Longrightarrow> v \<noteq> [] \<Longrightarrow> ra_sid (header_args headers a) = v"
  "map_of headers ''sid'' = None \<Longrightarrow> map_of headers ''x-creek-sid'' = Some v \<Longrightarrow> v \<noteq> [] \<Longrightarrow> ra_sid (header_args headers a) = v"
  by (simp_all add: header_args_def header_shard_def header_sid_def header_sticky_def Let_def split: option.split)

lemma om_set_wf_lookup: "map_of (om_set k v m) k = Some v"
  by (induction k v m rule: om_set.induct) auto

lemma om_set_other: "j \<noteq> k \<Longrightarrow> map_of (om_set k v m) j = map_of m j"
  by (induction k v m rule: om_set.induct) auto

lemma trace_args_sid:
  "map_of (trace_args rs rs' headers a) ''sid'' = Some (ra_sid a)" "map_of (trace_args rs rs' headers a) ''x-sid'' = Some (ra_sid a)"
  "map_of (trace_args rs rs' headers a) ''sticky'' = Some (if ra_sticky a then ''true'' else ''false'')"
  by (simp_all add: trace_args_def Let_def om_set_wf_lookup om_set_other)

text \<open>C18. The session a client names in its HTTP headers reaches the call: a JSON-RPC request for SayHello with a \<open>sid\<close>
  header, written in any case and sent in any pieces, ends in exactly one call, whose request and metadata carry
  that session whatever the body says, and the client gets the answer of that call with status 200.\<close>

theorem json_rpc_session:
  assumes "\<forall>kv \<in> set hs. header_ok kv" "length body \<le> kMaxBodyBytes" "[] \<notin> set conn" "concat conn = rpc_request hs body"
    and "length (header_text (request_lines hs body)) + 2 \<le> kHeaderBufReserve"
    and sid: "map_of (headers_of (hs @ [(''Content-Length'', to_decimal (length body))])) ''sid'' = Some v" "v \<noteq> []"
    and body: "jl_parse lib body = Inr (JObject req)" "map_of req ''id'' = Some i" "jl_dump lib i = Some ident"
      "map_of req ''method'' = Some (JString ''SayHello'')" "map_of req ''params'' = Some (JObject params)"
      "json_value (JObject params) ''name'' [] = Some name" "json_value (JObject params) ''sid'' [] = Some other"
  shows "\<exists>hq md. hq_name hq = name \<and> hq_sid hq = v \<and> map_of md ''sid'' = Some v \<and> map_of md ''x-sid'' = Some v
     \<and> (\<forall>invoke l st reply l' eff out. invoke hq md l = (st, reply, l', eff) \<longrightarrow> jl_dump lib (rpc_response_body ident st reply) = Some out
          \<longrightarrow> handle_json_rpc lib rs rs' invoke body (headers_of (hs @ [(''Content-Length'', to_decimal (length body))])) l = (Some (200, out), l', eff)
            \<and> rpc_handle_client (\<lambda>b h. fst (handle_json_rpc lib rs rs' invoke b h l)) conn = (200, ''OK'', out))"
proof -
  let ?h = "headers_of (hs @ [(''Content-Length'', to_decimal (length body))])"
  define a where "a = header_args ?h (body_args (JObject req) (JObject params) other)"
  let ?hq = "\<lparr>hq_name = name, hq_sid = ra_sid a, hq_sticky = ra_sticky a\<rparr>" and ?md = "trace_args rs rs' ?h a"
  have plan: "plan_request lib rs rs' body ?h = PlanCall ident ?hq ?md"
    using body by (simp add: plan_request_def plan_call_def a_def Let_def)
  have v: "ra_sid a = v" unfolding a_def by (rule header_args_sid(1) [OF sid])
  have handled: "handle_json_rpc lib rs rs' invoke body ?h l = (Some (200, out), l', eff)"
    if "invoke ?hq ?md l = (st, reply, l', eff)" "jl_dump lib (rpc_response_body ident st reply) = Some out" for invoke l st reply l' eff out
    using plan that by (simp add: handle_json_rpc_def)
  have "rpc_handle_client (\<lambda>b h. fst (handle_json_rpc lib rs rs' invoke b h l)) conn = (200, ''OK'', out)"
    if "invoke ?hq ?md l = (st, reply, l', eff)" "jl_dump lib (rpc_response_body ident st reply) = Some out" for invoke l st reply l' eff out
    using request_handled [OF assms(1-5), of "\<lambda>b h. fst (handle_json_rpc lib rs rs' invoke b h l)"] handled [of invoke l, OF that]
    by (simp add: answer_call_def status_reason_def)
  with handled v trace_args_sid [of rs rs' ?h a] show ?thesis
    by (intro exI [of _ ?hq] exI [of _ ?md]) simp
qed

definition sample_json_lib :: json_lib where
  "sample_json_lib = \<lparr>jl_parse = (\<lambda>_. Inr (JObject [(''id'', JInt 7), (''method'', JString ''SayHello''), (''params'', JObject [(''name'', JString ''n''), (''sid'', JString ''body'')])])),
     jl_dump = (\<lambda>_. Some ''7'')\<rparr>"

theorem json_rpc_session_witness:
  "\<exists>(hq :: hello_request) conn. conn = [take 5 (rpc_request [(''Sid'', ''s1'')] ''{}''), drop 5 (rpc_request [(''Sid'', ''s1'')] ''{}'')] \<and> hq_sid hq = ''s1''
     \<and> (\<forall>l. rpc_handle_client (\<lambda>b h. fst (handle_json_rpc sample_json_lib [] [] (\<lambda>hq md l. (status_ok, \<lparr>hp_message = hq_sid hq, hp_backend_id = []\<rparr>, l, [])) b h l)) conn
          = (200, ''OK'', ''7''))"
proof -
  let ?hs = "[(''Sid'', ''s1'')]" and ?params = "[(''name'', JString ''n''), (''sid'', JString ''body'')]"
  let ?req = "rpc_request ?hs ''{}''" and ?inv = "\<lambda>hq md l. (status_ok, \<lparr>hp_message = hq_sid hq, hp_backend_id = []\<rparr>, l, [])"
  have lower: "to_lower ''Sid'' = ''sid''" by code_simp
  have ok: "\<forall>kv \<in> set ?hs. header_ok kv" by (simp add: header_ok_def lower)
  have conn: "length ''{}'' \<le> kMaxBodyBytes" "[] \<notin> set [take 5 ?req, drop 5 ?req]" "concat [take 5 ?req, drop 5 ?req] = ?req"
    by (simp_all add: kMaxBodyBytes_def) (simp_all add: rpc_request_def request_lines_def)
  have len: "length (header_text (request_lines ?hs ''{}'')) + 2 \<le> kHeaderBufReserve"
    by (simp add: request_lines_def header_line_def kHeaderBufReserve_def crlf_def to_decimal.simps)
  have "trim (CHR '' '' # ''s1'') = ''s1''" by (rule trim_plain) simp
  then have sid: "map_of (headers_of (?hs @ [(''Content-Length'', to_decimal (length ''{}''))])) ''sid'' = Some ''s1''" "''s1'' \<noteq> []"
    by (simp_all add: headers_of_def lower lower_content_length om_set_other)
  have b: "jl_parse sample_json_lib ''{}'' = Inr (JObject [(''id'', JInt 7), (''method'', JString ''SayHello''), (''params'', JObject ?params)])"
    "map_of [(''id'', JInt 7), (''method'', JString ''SayHello''), (''params'', JObject ?params)] ''id'' = Some (JInt 7)" "jl_dump sample_json_lib (JInt 7) = Some ''7''"
    "map_of [(''id'', JInt 7), (''method'', JString ''SayHello''), (''params'', JObject ?params)] ''method'' = Some (JString ''SayHello'')"
    "map_of [(''id'', JInt 7), (''method'', JString ''SayHello''), (''params'', JObject ?params)] ''params'' = Some (JObject ?params)"
    "json_value (JObject ?params) ''name'' [] = Some ''n''" "json_value (JObject ?params) ''sid'' [] = Some ''body''"
    by (simp_all add: sample_json_lib_def)
  obtain hq :: hello_request and md where r: "hq_sid hq = ''s1''"
    "\<And>invoke l st reply l' eff out. invoke hq md l = (st, reply, l', eff) \<Longrightarrow> jl_dump sample_json_lib (rpc_response_body ''7'' st reply) = Some out
       \<Longrightarrow> rpc_handle_client (\<lambda>b h. fst (handle_json_rpc sample_json_lib [] [] invoke b h l)) [take 5 ?req, drop 5 ?req] = (200, ''OK'', out)"
    using json_rpc_session [OF ok conn len sid b, of "[]" "[]"] by blast
  have "jl_dump sample_json_lib j = Some ''7''" for j by (simp add: sample_json_lib_def)
  then have "rpc_handle_client (\<lambda>b h. fst (handle_json_rpc sample_json_lib [] [] ?inv b h l)) [take 5 ?req, drop 5 ?req] = (200, ''OK'', ''7'')" for l
    using r(2) [of ?inv l] by blast
  with r(1) have "hq_sid hq = ''s1'' \<and> (\<forall>l. rpc_handle_client (\<lambda>b h. fst (handle_json_rpc sample_json_lib [] [] ?inv b h l)) [take 5 ?req, drop 5 ?req] = (200, ''OK'', ''7''))"
    by simp
  then show ?thesis by (intro exI [of _ hq] exI [of _ "[take 5 ?req, drop 5 ?req]"]) simp
qed

text \<open>The answer carries the printed identifier as a string, not the identifier: a number comes back as a string, a
  string with its quotes, and a request without one gets the string \<open>null\<close>.\<close>

lemma identifier_printed:
  "rpc_response_body ident st reply = JObject ms \<Longrightarrow> map_of ms ''id'' = Some (JString ident)"
  by (auto simp: rpc_response_body_def rpc_error_body_def split: if_splits)

lemma missing_identifier:
  assumes "jl_parse lib body = Inr (JObject req)" "map_of req ''id'' = None" "map_of req ''method'' = Some (JString ''SayHello'')"
    and "plan_request lib rs rs' body headers = PlanCall ident hq md"
  shows "ident = ''null''"
  using assms by (auto simp: plan_request_def plan_call_def Let_def split: option.splits)

end
