(* ===== verification/Inbox.thy ===== *)
theory Inbox
  imports Queue
begin

text \<open>
  The blocking queue of creek (\<open>include/creek/blocking_queue.hpp\<close>), in which the leaf keeps requests and stream
  messages for its workers: a \<open>std::queue\<close> with a capacity and a closed flag. Every operation holds the mutex; one
  that waits is \<open>Blocked\<close> while its condition does not hold.

  The lemmas show that it meets the interface \<open>fifo_queue\<close> of theory Queue and, for a positive capacity, behaves as
  the view of the tight queue that the models of the runtimes use; a capacity of zero means unbounded there and
  always full here.
\<close>

definition inbox_push :: "'a \<Rightarrow> 'a fifo \<Rightarrow> unit waiting \<times> 'a fifo" where
  "inbox_push x q =
     (if \<not> (length (fq_items q) < fq_capacity q \<or> fq_closed q) then (Blocked, q)
      else if fq_closed q then (Ready (), q)
      else (Ready (), q\<lparr>fq_items := fq_items q @ [x]\<rparr>))"

definition inbox_try_push :: "'a \<Rightarrow> 'a fifo \<Rightarrow> bool \<times> 'a fifo" where
  "inbox_try_push x q =
     (if fq_closed q \<or> fq_capacity q \<le> length (fq_items q) then (False, q) else (True, q\<lparr>fq_items := fq_items q @ [x]\<rparr>))"

definition inbox_pop :: "'a fifo \<Rightarrow> 'a option \<times> 'a fifo" where
  "inbox_pop q = (Some (hd (fq_items q)), q\<lparr>fq_items := tl (fq_items q)\<rparr>)"

definition inbox_take :: "'a fifo \<Rightarrow> 'a option waiting \<times> 'a fifo" where
  "inbox_take q =
     (if \<not> (fq_items q \<noteq> [] \<or> fq_closed q) then (Blocked, q)
      else if fq_closed q \<and> fq_items q = [] then (Ready None, q)
      else case inbox_pop q of (x, q) \<Rightarrow> (Ready x, q))"

definition inbox_take_for :: "bool \<Rightarrow> 'a fifo \<Rightarrow> 'a option waiting \<times> 'a fifo" where
  "inbox_take_for timed_out q =
     (let ok = (fq_items q \<noteq> [] \<or> fq_closed q) in
      if \<not> ok \<and> \<not> timed_out then (Blocked, q)
      else if \<not> ok \<or> (fq_closed q \<and> fq_items q = []) then (Ready None, q)
      else case inbox_pop q of (x, q) \<Rightarrow> (Ready x, q))"

definition inbox_poll :: "'a fifo \<Rightarrow> 'a option \<times> 'a fifo" where
  "inbox_poll q = (if fq_items q = [] then (None, q) else inbox_pop q)"

definition inbox_close :: "'a fifo \<Rightarrow> 'a fifo" where "inbox_close q = q\<lparr>fq_closed := True\<rparr>"

definition inbox_size :: "'a fifo \<Rightarrow> nat" where "inbox_size q = length (fq_items q)"

interpretation ibq: fifo_queue "\<lambda>q xs. fq_items q = xs" "\<lambda>x q. Some (inbox_try_push x q)" "\<lambda>q. Some (inbox_poll q)"
  by unfold_locales (auto simp: inbox_try_push_def inbox_poll_def inbox_pop_def)

text \<open>In every interleaving the queue delivers what it accepted, in order.\<close>

theorem inbox_delivers:
  "\<exists>acc tkn q. queue_run (\<lambda>x q. Some (inbox_try_push x q)) (\<lambda>q. Some (inbox_poll q)) ops (new_fifo n) = Some (acc, tkn, q) \<and> acc = tkn @ fq_items q"
  using ibq.run_fifo [of "new_fifo n" "[]" ops] by (auto simp: new_fifo_def)

text \<open>It never holds more than its capacity.\<close>

lemma inbox_bounded:
  assumes "length (fq_items q) \<le> fq_capacity q"
  shows "length (fq_items (snd (inbox_try_push x q))) \<le> fq_capacity q" "length (fq_items (snd (inbox_push x q))) \<le> fq_capacity q"
  using assms by (simp_all add: inbox_try_push_def inbox_push_def)

text \<open>The view the models of the runtimes use; a worker that waits gets what polling gives.\<close>

lemma inbox_is_fifo:
  "0 < fq_capacity q \<Longrightarrow> inbox_try_push x q = fifo_try_push x q"
  "inbox_poll q = fifo_poll q" "inbox_close q = fifo_close q"
  by (auto simp: inbox_try_push_def fifo_try_push_def inbox_poll_def fifo_poll_def inbox_pop_def inbox_close_def fifo_close_def split: list.split)

lemma inbox_take_polls: "inbox_take_for True q = (Ready (fst (inbox_poll q)), snd (inbox_poll q))"
  by (simp add: inbox_take_for_def inbox_poll_def inbox_pop_def Let_def)

end
