(* ===== verification/Aead.thy ===== *)
theory Aead
  imports Sha256 Aes
begin

text \<open>
  Key agreement and packets of \<open>src/crypto.cpp\<close>: \<open>ECDHKeyExchange\<close>, the HKDF and \<open>AeadCipher\<close>. The primitives are
  OpenSSL's and arguments: which of its calls succeed, HMAC, the points of the curve, Diffie-Hellman and AES-256-GCM.
  The code's own part is the order of the calls with the exception each failure throws, the expansion of the
  HKDF block by block, and the layout of a packet. A private key is a value of type \<open>'k\<close>. Sizes are cast to \<open>int\<close>
  for OpenSSL; the model is that of inputs below 2 GiB.

  The lemmas show that the expansion is that of RFC 5869 and agrees with the one-block HKDF of tight, and that
  two parties accept exactly each other's packets; what is asked of the cipher is the interface \<open>aead_cipher\<close>,
  which the AES-256-GCM of tight (theory Aes) meets.
\<close>

section \<open>OpenSSL\<close>

datatype evp_call = PkeyCtxNewId | KeygenInit | SetCurve | Keygen | GetEcKey | PointSize | PointToOct
  | EcKeyNew | PointNew | SetPublicKey | PkeyNew | SetEcKey | PkeyCtxNew | DeriveInit | SetPeer | DeriveSize | Derive
  | CipherCtxNew | RandBytes | CipherInit | SetIvLen | InitWithKey | AadUpdate | CipherUpdate | EncryptFinal | GetTag | SetTag

record 'k openssl =
  os_ok :: "evp_call \<Rightarrow> bool"
  os_hmac :: "bytes \<Rightarrow> bytes \<Rightarrow> bytes option"
  os_public :: "'k \<Rightarrow> bytes"
  os_on_curve :: "bytes \<Rightarrow> bool"
  os_derive :: "'k \<Rightarrow> bytes \<Rightarrow> bytes"
  os_seal :: "bytes \<Rightarrow> bytes \<Rightarrow> bytes \<Rightarrow> bytes \<Rightarrow> bytes \<times> bytes"
  os_open :: "bytes \<Rightarrow> bytes \<Rightarrow> bytes \<Rightarrow> bytes \<Rightarrow> bytes \<Rightarrow> bytes option"

text \<open>A call that throws a message when it fails.\<close>

definition evp :: "'k openssl \<Rightarrow> evp_call \<Rightarrow> string \<Rightarrow> string + 'a \<Rightarrow> string + 'a" where
  "evp lib c msg k = (if os_ok lib c then k else Inl msg)"

lemma evp_ok [simp]: "os_ok lib c \<Longrightarrow> evp lib c msg k = k"
  by (simp add: evp_def)

section \<open>Key agreement\<close>

definition ecdh_new :: "'k openssl \<Rightarrow> 'k \<Rightarrow> string + 'k" where
  "ecdh_new lib key =
     evp lib PkeyCtxNewId ''EVP_PKEY_CTX_new_id failed'' (
     evp lib KeygenInit ''EVP_PKEY_keygen_init failed'' (
     evp lib SetCurve ''set curve failed'' (
     evp lib Keygen ''keygen failed'' (
     evp lib GetEcKey ''get EC_KEY failed'' (Inr key)))))"

definition public_key_sec1 :: "'k openssl \<Rightarrow> 'k \<Rightarrow> string + bytes" where
  "public_key_sec1 lib key =
     evp lib PointSize ''point2oct size failed'' (
     evp lib PointToOct ''point2oct failed'' (Inr (os_public lib key)))"

definition compute_shared_secret :: "'k openssl \<Rightarrow> 'k \<Rightarrow> bytes \<Rightarrow> string + bytes" where
  "compute_shared_secret lib key peer_pubkey =
     evp lib EcKeyNew ''EC_KEY_new_by_curve_name failed'' (
     evp lib PointNew ''EC_POINT_new failed'' (
     if \<not> os_on_curve lib peer_pubkey then Inl ''oct2point failed'' else
     evp lib SetPublicKey ''set_public_key failed'' (
     evp lib PkeyNew ''EVP_PKEY_new failed'' (
     evp lib SetEcKey ''set1 EC_KEY failed'' (
     evp lib PkeyCtxNew ''EVP_PKEY_CTX_new failed'' (
     evp lib DeriveInit ''derive init failed'' (
     evp lib SetPeer ''set peer failed'' (
     evp lib DeriveSize ''get secret len failed'' (
     evp lib Derive ''derive failed'' (Inr (os_derive lib key peer_pubkey)))))))))))"

section \<open>The key\<close>

definition kAesKeySize :: nat where "kAesKeySize = 32"
definition kNonceSize :: nat where "kNonceSize = 12"
definition kTagSize :: nat where "kTagSize = 16"

text \<open>The result of \<open>HMAC\<close> is not looked at: when it fails the zeros of the buffer are used.\<close>

definition hmac_of :: "'k openssl \<Rightarrow> bytes \<Rightarrow> bytes \<Rightarrow> bytes" where
  "hmac_of lib key data = write_at (replicate 32 0) 0 (case os_hmac lib key data of None \<Rightarrow> [] | Some m \<Rightarrow> take 32 m)"

lemma length_hmac_of [simp]: "length (hmac_of lib key data) = 32"
  by (simp add: hmac_of_def split: option.split)

function hkdf_loop :: "'k openssl \<Rightarrow> bytes \<Rightarrow> bytes \<Rightarrow> nat \<Rightarrow> bytes \<Rightarrow> bytes \<Rightarrow> u8 \<Rightarrow> bytes" where
  "hkdf_loop lib prk info out_len out prev counter =
     (if length out < out_len
      then let prev = hmac_of lib prk (prev @ info @ [counter]) in hkdf_loop lib prk info out_len (out @ prev) prev (counter + 1)
      else take out_len out)"
  by pat_completeness auto
termination by (relation "measure (\<lambda>(lib, prk, info, n, out, prev, counter). n - length out)") auto

declare hkdf_loop.simps [simp del]

definition hkdf_expand :: "'k openssl \<Rightarrow> bytes \<Rightarrow> bytes \<Rightarrow> bytes \<Rightarrow> nat \<Rightarrow> bytes" where
  "hkdf_expand lib ikm salt info out_len =
     (let prk = (if salt = [] then hmac_of lib (replicate 32 0) ikm else hmac_of lib salt ikm)
      in hkdf_loop lib prk info out_len [] [] 1)"

definition derive_aes_key :: "'k openssl \<Rightarrow> bytes \<Rightarrow> bytes" where
  "derive_aes_key lib shared_secret = hkdf_expand lib shared_secret [] (string_bytes ''aes-256-gcm-creek'') kAesKeySize"

section \<open>Packets\<close>

text \<open>The state of an \<open>AeadCipher\<close> is its key. The nonce of a packet is what \<open>RAND_bytes\<close> has drawn.\<close>

definition aead_encrypt :: "'k openssl \<Rightarrow> bytes \<Rightarrow> bytes \<Rightarrow> bytes \<Rightarrow> bytes \<Rightarrow> string + bytes" where
  "aead_encrypt lib aes_key nonce plaintext aad =
     evp lib CipherCtxNew ''EVP_CIPHER_CTX_new failed'' (
     evp lib RandBytes ''RAND_bytes failed'' (
     evp lib CipherInit ''EncryptInit failed'' (
     evp lib SetIvLen ''set IV len failed'' (
     evp lib InitWithKey ''EncryptInit with key failed'' (
     if aad \<noteq> [] \<and> \<not> os_ok lib AadUpdate then Inl ''AAD update failed'' else
     evp lib CipherUpdate ''EncryptUpdate failed'' (
     evp lib EncryptFinal ''EncryptFinal failed'' (
     evp lib GetTag ''get tag failed'' (
       case os_seal lib aes_key nonce aad plaintext of (ciphertext, tag) \<Rightarrow> Inr (nonce @ ciphertext @ tag)))))))))"

definition aead_decrypt :: "'k openssl \<Rightarrow> bytes \<Rightarrow> bytes \<Rightarrow> bytes \<Rightarrow> string + bytes" where
  "aead_decrypt lib aes_key packet aad =
     (if length packet < kNonceSize + kTagSize then Inl ''packet too short''
      else
        let nonce = take kNonceSize packet;
            ciphertext = take (length packet - kNonceSize - kTagSize) (drop kNonceSize packet);
            tag = drop (length packet - kTagSize) packet
        in evp lib CipherCtxNew ''EVP_CIPHER_CTX_new failed'' (
           evp lib CipherInit ''DecryptInit failed'' (
           evp lib SetIvLen ''set IV len failed'' (
           evp lib InitWithKey ''DecryptInit with key failed'' (
           if aad \<noteq> [] \<and> \<not> os_ok lib AadUpdate then Inl ''AAD update failed'' else
           evp lib CipherUpdate ''DecryptUpdate failed'' (
           evp lib SetTag ''set tag failed'' (
             case os_open lib aes_key nonce aad ciphertext tag of None \<Rightarrow> Inl ''authentication failed'' | Some plaintext \<Rightarrow> Inr plaintext)))))))"

section \<open>The expansion\<close>

text \<open>The blocks T(1), T(2), ... of RFC 5869.\<close>

fun hkdf_block :: "'k openssl \<Rightarrow> bytes \<Rightarrow> bytes \<Rightarrow> nat \<Rightarrow> bytes" where
  "hkdf_block lib prk info 0 = []"
| "hkdf_block lib prk info (Suc i) = hmac_of lib prk (hkdf_block lib prk info i @ info @ [of_nat (Suc i)])"

definition hkdf_blocks :: "'k openssl \<Rightarrow> bytes \<Rightarrow> bytes \<Rightarrow> nat \<Rightarrow> bytes" where
  "hkdf_blocks lib prk info m = concat (map (hkdf_block lib prk info) [1..<Suc m])"

lemma hkdf_blocks_Suc: "hkdf_blocks lib prk info (Suc i) = hkdf_blocks lib prk info i @ hkdf_block lib prk info (Suc i)"
  by (simp add: hkdf_blocks_def)

lemma length_hkdf_blocks [simp]: "length (hkdf_blocks lib prk info m) = 32 * m"
  by (induction m) (simp_all add: hkdf_blocks_Suc, simp add: hkdf_blocks_def)

lemma take_hkdf_blocks: "n \<le> 32 * i \<Longrightarrow> i \<le> m \<Longrightarrow> take n (hkdf_blocks lib prk info m) = take n (hkdf_blocks lib prk info i)"
proof (induction m)
  case (Suc m)
  then show ?case by (cases "i = Suc m") (simp_all add: hkdf_blocks_Suc)
qed simp

lemma hkdf_loop_blocks:
  "i \<le> m \<Longrightarrow> n \<le> 32 * m \<Longrightarrow>
     hkdf_loop lib prk info n (hkdf_blocks lib prk info i) (hkdf_block lib prk info i) (of_nat (Suc i)) = take n (hkdf_blocks lib prk info m)"
proof (induction "m - i" arbitrary: i)
  case 0
  then show ?case by (subst hkdf_loop.simps) simp
next
  case (Suc d)
  show ?case
  proof (cases "n \<le> 32 * i")
    case True
    then show ?thesis using Suc.prems take_hkdf_blocks [of n i m lib prk info] by (subst hkdf_loop.simps) simp
  next
    case False
    have "hkdf_loop lib prk info n (hkdf_blocks lib prk info (Suc i)) (hkdf_block lib prk info (Suc i)) (of_nat (Suc (Suc i)))
        = take n (hkdf_blocks lib prk info m)" using Suc.hyps(2) Suc.prems by (intro Suc.hyps(1)) simp_all
    with False show ?thesis by (subst hkdf_loop.simps) (simp add: hkdf_blocks_Suc Let_def add.commute)
  qed
qed

text \<open>The loop computes HKDF-Expand of RFC 5869 for every length up to 255 blocks; its counter is a byte and wraps
  beyond, where the RFC allows no output.\<close>

theorem hkdf_is_rfc5869:
  assumes "n \<le> 32 * m"
  shows "hkdf_loop lib prk info n [] [] 1 = take n (concat (map (hkdf_block lib prk info) [1..<Suc m]))"
  using hkdf_loop_blocks [of 0 m n lib prk info] assms by (simp add: hkdf_blocks_def)

text \<open>With the HMAC of tight the key is that of tight's one-block HKDF.\<close>

theorem derive_agrees_with_tight:
  assumes "\<And>k d. os_hmac lib k d = Some (hmac_sha256 k d)"
  shows "derive_aes_key lib s = hkdf_sha256 s [] ''aes-256-gcm-creek''"
proof -
  have l: "length (hmac_sha256 k d) = 32" for k d using hmac_is_rfc2104 by blast
  then have h: "hmac_of lib k d = hmac_sha256 k d" for k d by (simp add: hmac_of_def assms write_at_def)
  have "derive_aes_key lib s = take 32 (hkdf_block lib (hmac_sha256 (replicate 32 0) s) (string_bytes ''aes-256-gcm-creek'') 1)"
    by (simp add: derive_aes_key_def hkdf_expand_def kAesKeySize_def h hkdf_is_rfc5869 [where m = 1])
  then show ?thesis using l by (simp add: h hkdf_sha256_def)
qed

text \<open>When \<open>HMAC\<close> fails, the key is known to everyone.\<close>

lemma failed_hmac_zero_key:
  assumes "\<And>k d. os_hmac lib k d = None"
  shows "derive_aes_key lib s = replicate 32 0"
proof -
  have h: "hmac_of lib k d = replicate 32 0" for k d by (simp add: hmac_of_def assms write_at_def)
  show ?thesis by (simp add: derive_aes_key_def hkdf_expand_def kAesKeySize_def h hkdf_is_rfc5869 [where m = 1])
qed

section \<open>What is asked of the cipher\<close>

locale aead_cipher =
  fixes seal :: "bytes \<Rightarrow> bytes \<Rightarrow> bytes \<Rightarrow> bytes \<Rightarrow> bytes \<times> bytes"
    and opens :: "bytes \<Rightarrow> bytes \<Rightarrow> bytes \<Rightarrow> bytes \<Rightarrow> bytes \<Rightarrow> bytes option"
  assumes open_seal: "seal key nonce aad pt = (ct, tag) \<Longrightarrow> opens key nonce aad ct tag = Some pt \<and> length tag = kTagSize"
    and open_sound: "length tag = kTagSize \<Longrightarrow> opens key nonce aad ct tag = Some pt \<Longrightarrow> seal key nonce aad pt = (ct, tag)"
begin

lemma packet_exact:
  assumes "os_seal lib = seal" "os_open lib = opens" "\<And>c. os_ok lib c"
  shows "aead_decrypt lib key p aad = Inr pt \<longleftrightarrow> (\<exists>nonce. length nonce = kNonceSize \<and> aead_encrypt lib key nonce pt aad = Inr p)"
proof
  assume d: "aead_decrypt lib key p aad = Inr pt"
  let ?n = "take kNonceSize p" and ?ct = "take (length p - kNonceSize - kTagSize) (drop kNonceSize p)" and ?t = "drop (length p - kTagSize) p"
  have l: "kNonceSize + kTagSize \<le> length p" "opens key ?n aad ?ct ?t = Some pt"
    using d assms by (auto simp: aead_decrypt_def Let_def split: if_splits option.splits)
  then have "seal key ?n aad pt = (?ct, ?t)" by (intro open_sound) simp_all
  moreover have "?n @ ?ct @ ?t = p"
  proof -
    have "?t = drop (length p - kNonceSize - kTagSize) (drop kNonceSize p)" using l(1) by simp
    then have "?ct @ ?t = drop kNonceSize p" by (metis append_take_drop_id)
    then show ?thesis by (metis append_take_drop_id)
  qed
  ultimately have "aead_encrypt lib key ?n pt aad = Inr p" using assms by (simp add: aead_encrypt_def)
  moreover have "length ?n = kNonceSize" using l(1) by simp
  ultimately show "\<exists>nonce. length nonce = kNonceSize \<and> aead_encrypt lib key nonce pt aad = Inr p" by blast
next
  assume "\<exists>nonce. length nonce = kNonceSize \<and> aead_encrypt lib key nonce pt aad = Inr p"
  then obtain nonce where n: "length nonce = kNonceSize" "aead_encrypt lib key nonce pt aad = Inr p" by blast
  obtain ct tag where c: "seal key nonce aad pt = (ct, tag)" by force
  with n assms have e: "length nonce = kNonceSize" "seal key nonce aad pt = (ct, tag)" "p = nonce @ ct @ tag"
    by (simp_all add: aead_encrypt_def)
  with open_seal [OF e(2)] assms show "aead_decrypt lib key p aad = Inr pt" by (simp add: aead_decrypt_def Let_def)
qed

end

text \<open>The cipher of tight meets it.\<close>

interpretation tight_gcm: aead_cipher aes256_gcm_encrypt aes256_gcm_decrypt
proof
  fix key nonce aad pt ct tag :: bytes
  have inv: "aes256_gcm_crypt (aes256_key key) (gcm_j0 nonce) (aes256_gcm_crypt (aes256_key key) (gcm_j0 nonce) x) = x" for x
    by (simp add: aes256_gcm_crypt_def gcm_crypt_involution)
  have k: "kTagSize = kGcmTagSize" by (simp add: kTagSize_def kGcmTagSize_def)
  show "aes256_gcm_decrypt key nonce aad ct tag = Some pt \<and> length tag = kTagSize" if "aes256_gcm_encrypt key nonce aad pt = (ct, tag)"
  proof -
    have e: "ct = aes256_gcm_crypt (aes256_key key) (gcm_j0 nonce) pt" "tag = gcm_compute_tag (aes256_key key) (gcm_j0 nonce) aad ct"
      using that by (auto simp: aes256_gcm_encrypt_def Let_def)
    have "length tag = kGcmTagSize" by (simp add: e(2) kGcmTagSize_def)
    with gcm_decrypt_iff [OF this, of key nonce aad ct] e inv k show ?thesis by simp
  qed
  show "aes256_gcm_encrypt key nonce aad pt = (ct, tag)" if "length tag = kTagSize" "aes256_gcm_decrypt key nonce aad ct tag = Some pt"
  proof -
    have "tag = gcm_compute_tag (aes256_key key) (gcm_j0 nonce) aad ct" "pt = aes256_gcm_crypt (aes256_key key) (gcm_j0 nonce) ct"
      using gcm_decrypt_iff [of tag key nonce aad ct] that k by (auto split: if_splits)
    then show ?thesis by (simp add: aes256_gcm_encrypt_def Let_def inv)
  qed
qed

section \<open>A session\<close>


text \<open>For the witness: the primitives of tight and a small Diffie-Hellman group.\<close>

definition sample_ssl :: "u8 openssl" where
  "sample_ssl = \<lparr>os_ok = (\<lambda>_. True), os_hmac = (\<lambda>k d. Some (hmac_sha256 k d)), os_public = (\<lambda>k. [4, k * 3]), os_on_curve = (\<lambda>p. hd p = 4),
     os_derive = (\<lambda>k p. [k * last p]), os_seal = aes256_gcm_encrypt, os_open = aes256_gcm_decrypt\<rparr>"


end
