(* ===== verification/Sidecar.thy ===== *)
theory Sidecar
  imports Redis
begin

text \<open>
  The program \<open>creek_sidecar\<close> (\<open>apps/sidecar_main.cpp\<close>): its command line, the configuration it makes of it, and
  its exit status. The words of the command line are a list; exceptions are \<open>Inl\<close> of their text; durations are
  counts of milliseconds, as the options give them. Whether a runtime starts with a configuration is an argument,
  where an exception is \<open>None\<close>; the program then runs until a signal comes.

  The lemmas show that the command line written for a configuration gives exactly that configuration, and which
  options have no effect.
\<close>

section \<open>Values\<close>

text \<open>\<open>std::stoll (s, &pos)\<close>: the value and the number of characters read, or an exception.\<close>

definition stoll :: "string \<Rightarrow> (int \<times> nat) option" where
  "stoll s =
     (case sign_of (dropWhile is_space s) of (neg, r) \<Rightarrow>
        let ds = takeWhile is_digit r; v = (if neg then - int (dec_value ds) else int (dec_value ds)) in
        if ds = [] then None
        else if v < - (2 ^ 63) \<or> 2 ^ 63 \<le> v then None
        else Some (v, length s - length (dropWhile is_digit r)))"

definition duration_value :: "string \<Rightarrow> string \<Rightarrow> string + int" where
  "duration_value v option =
     (case stoll v of
        None \<Rightarrow> Inl (''invalid value for '' @ option)
      | Some (parsed, consumed) \<Rightarrow> if consumed \<noteq> length v \<or> parsed \<le> 0 then Inl (''invalid value for '' @ option) else Inr parsed)"

definition port_value :: "string \<Rightarrow> string \<Rightarrow> string + u16" where
  "port_value v option =
     (case stoll v of
        None \<Rightarrow> Inl (''invalid value for '' @ option)
      | Some (parsed, consumed) \<Rightarrow>
          if consumed \<noteq> length v \<or> parsed \<le> 0 \<or> 65535 < parsed then Inl (''invalid value for '' @ option) else Inr (of_int parsed))"

definition address_value :: "string \<Rightarrow> string \<Rightarrow> string + address" where
  "address_value v option =
     (case parse_address v of None \<Rightarrow> Inl (''invalid address for '' @ option @ '': '' @ v) | Some a \<Rightarrow> Inr a)"

definition remote_value :: "string \<Rightarrow> string \<Rightarrow> string + remote_peer" where
  "remote_value v option =
     (case parse_remote v of None \<Rightarrow> Inl (''invalid remote for '' @ option @ '': '' @ v) | Some r \<Rightarrow> Inr r)"

section \<open>The command line\<close>

record sidecar_options =
  so_mode :: string
  so_id :: string
  so_udp :: string
  so_peers :: "string list"
  so_parents :: "string list"
  so_grpc :: string
  so_json :: string
  so_metrics :: string
  so_token :: string
  so_redis_host :: string
  so_redis_port :: u16
  so_redis_user :: string
  so_redis_password :: string
  so_redis_key :: string
  so_heartbeat :: int
  so_dead_timeout :: int
  so_sync :: int
  so_metric_period :: int
  so_backend_timeout :: int
  so_rpc_timeout :: int

definition default_options :: "string \<Rightarrow> sidecar_options" where
  "default_options mode =
     \<lparr>so_mode = mode, so_id = [], so_udp = [], so_peers = [], so_parents = [], so_grpc = [], so_json = [], so_metrics = [], so_token = [],
      so_redis_host = [], so_redis_port = 0, so_redis_user = [], so_redis_password = [], so_redis_key = [],
      so_heartbeat = 100, so_dead_timeout = 3000, so_sync = 15000, so_metric_period = 60000, so_backend_timeout = 3000, so_rpc_timeout = 15000\<rparr>"

text \<open>What an option does with its value; \<open>None\<close> for an unknown option.\<close>

definition set_option :: "string \<Rightarrow> (string \<Rightarrow> sidecar_options \<Rightarrow> string + sidecar_options) option" where
  "set_option option =
     (if option = ''--id'' then Some (\<lambda>v s. Inr (s\<lparr>so_id := v\<rparr>))
      else if option = ''--udp'' then Some (\<lambda>v s. Inr (s\<lparr>so_udp := v\<rparr>))
      else if option = ''--peer'' then Some (\<lambda>v s. Inr (s\<lparr>so_peers := so_peers s @ [v]\<rparr>))
      else if option = ''--parent'' then Some (\<lambda>v s. Inr (s\<lparr>so_parents := so_parents s @ [v]\<rparr>))
      else if option = ''--grpc'' then Some (\<lambda>v s. Inr (s\<lparr>so_grpc := v\<rparr>))
      else if option = ''--json'' then Some (\<lambda>v s. Inr (s\<lparr>so_json := v\<rparr>))
      else if option = ''--metrics'' then Some (\<lambda>v s. Inr (s\<lparr>so_metrics := v\<rparr>))
      else if option = ''--token'' then Some (\<lambda>v s. Inr (s\<lparr>so_token := v\<rparr>))
      else if option = ''--redis-host'' then Some (\<lambda>v s. Inr (s\<lparr>so_redis_host := v\<rparr>))
      else if option = ''--redis-port'' then Some (\<lambda>v s. case port_value v option of Inl e \<Rightarrow> Inl e | Inr p \<Rightarrow> Inr (s\<lparr>so_redis_port := p\<rparr>))
      else if option = ''--redis-user'' then Some (\<lambda>v s. Inr (s\<lparr>so_redis_user := v\<rparr>))
      else if option = ''--redis-password'' then Some (\<lambda>v s. Inr (s\<lparr>so_redis_password := v\<rparr>))
      else if option = ''--redis-key'' then Some (\<lambda>v s. Inr (s\<lparr>so_redis_key := v\<rparr>))
      else if option = ''--heartbeat-ms'' then Some (\<lambda>v s. case duration_value v option of Inl e \<Rightarrow> Inl e | Inr d \<Rightarrow> Inr (s\<lparr>so_heartbeat := d\<rparr>))
      else if option = ''--dead-timeout-ms'' then Some (\<lambda>v s. case duration_value v option of Inl e \<Rightarrow> Inl e | Inr d \<Rightarrow> Inr (s\<lparr>so_dead_timeout := d\<rparr>))
      else if option = ''--sync-ms'' then Some (\<lambda>v s. case duration_value v option of Inl e \<Rightarrow> Inl e | Inr d \<Rightarrow> Inr (s\<lparr>so_sync := d\<rparr>))
      else if option = ''--metric-period-ms'' then Some (\<lambda>v s. case duration_value v option of Inl e \<Rightarrow> Inl e | Inr d \<Rightarrow> Inr (s\<lparr>so_metric_period := d\<rparr>))
      else if option = ''--backend-timeout-ms'' then Some (\<lambda>v s. case duration_value v option of Inl e \<Rightarrow> Inl e | Inr d \<Rightarrow> Inr (s\<lparr>so_backend_timeout := d\<rparr>))
      else if option = ''--rpc-timeout-ms'' then Some (\<lambda>v s. case duration_value v option of Inl e \<Rightarrow> Inl e | Inr d \<Rightarrow> Inr (s\<lparr>so_rpc_timeout := d\<rparr>))
      else None)"

fun parse_loop :: "string list \<Rightarrow> sidecar_options \<Rightarrow> string + sidecar_options" where
  "parse_loop [] s = Inr s"
| "parse_loop [option] s = (case set_option option of None \<Rightarrow> Inl (''unknown option: '' @ option) | Some f \<Rightarrow> Inl (''missing value for '' @ option))"
| "parse_loop (option # v # argv) s =
     (case set_option option of
        None \<Rightarrow> Inl (''unknown option: '' @ option)
      | Some f \<Rightarrow> (case f v s of Inl e \<Rightarrow> Inl e | Inr s \<Rightarrow> parse_loop argv s))"

definition check_options :: "sidecar_options \<Rightarrow> string + sidecar_options" where
  "check_options s =
     (if so_mode s \<noteq> ''node'' \<and> so_mode s \<noteq> ''leaf'' then Inl ''mode must be node or leaf''
      else if so_id s = [] \<or> so_udp s = [] then Inl ''--id and --udp are required''
      else if so_mode s = ''node'' \<and> (so_parents s \<noteq> [] \<or> so_grpc s \<noteq> []) then Inl ''--parent and --grpc are only valid for leaf mode''
      else if so_mode s = ''leaf'' \<and> (so_parents s = [] \<or> so_grpc s = []) then Inl ''leaf mode requires --parent and --grpc''
      else if so_mode s = ''leaf'' \<and> so_peers s \<noteq> [] then Inl ''--peer is only valid for node mode''
      else Inr s)"

definition parse_options :: "string list \<Rightarrow> string + sidecar_options" where
  "parse_options argv =
     (if length argv < 2 then Inl ''missing mode''
      else case parse_loop (drop 2 argv) (default_options (argv ! 1)) of Inl e \<Rightarrow> Inl e | Inr s \<Rightarrow> check_options s)"

section \<open>The configuration\<close>

record node_config =
  nc_id :: string
  nc_udp_bind :: address
  nc_metrics_bind :: address
  nc_token :: string
  nc_peers :: "remote_peer list"
  nc_sync_interval :: int
  nc_metric_period :: int
  nc_redis :: redis_options

record leaf_config =
  lc_id :: string
  lc_udp_bind :: address
  lc_grpc_bind :: address
  lc_json_bind :: address
  lc_metrics_bind :: address
  lc_token :: string
  lc_parents :: "remote_peer list"
  lc_sync_interval :: int
  lc_backend_timeout :: int
  lc_rpc_timeout :: int
  lc_metric_period :: int
  lc_redis :: redis_options

datatype sidecar_config = NodeConfig node_config | LeafConfig leaf_config

definition has_redis_options :: "sidecar_options \<Rightarrow> bool" where
  "has_redis_options s \<longleftrightarrow> so_redis_host s \<noteq> [] \<and> so_redis_port s \<noteq> 0 \<and> so_redis_key s \<noteq> []"

definition redis_config :: "sidecar_options \<Rightarrow> redis_options" where
  "redis_config s =
     (if has_redis_options s
      then \<lparr>ro_host = so_redis_host s, ro_port = so_redis_port s, ro_user = so_redis_user s, ro_password = so_redis_password s, ro_key = so_redis_key s\<rparr>
      else default_redis_options)"

definition local_address :: address where "local_address = \<lparr>ad_host = ''127.0.0.1'', ad_port = 0\<rparr>"

definition address_or_local :: "string \<Rightarrow> string \<Rightarrow> string + address" where
  "address_or_local v option = (if v = [] then Inr local_address else address_value v option)"

fun remote_values :: "string \<Rightarrow> string list \<Rightarrow> string + remote_peer list" where
  "remote_values option [] = Inr []"
| "remote_values option (v # vs) =
     (case remote_value v option of
        Inl e \<Rightarrow> Inl e
      | Inr r \<Rightarrow> (case remote_values option vs of Inl e \<Rightarrow> Inl e | Inr rs \<Rightarrow> Inr (r # rs)))"

definition make_node :: "sidecar_options \<Rightarrow> address \<Rightarrow> address \<Rightarrow> string + sidecar_config" where
  "make_node s udp metrics =
     (case remote_values ''--peer'' (so_peers s) of
        Inl e \<Rightarrow> Inl e
      | Inr peers \<Rightarrow> Inr (NodeConfig \<lparr>nc_id = so_id s, nc_udp_bind = udp, nc_metrics_bind = metrics, nc_token = so_token s, nc_peers = peers,
          nc_sync_interval = so_sync s, nc_metric_period = so_metric_period s, nc_redis = redis_config s\<rparr>))"

definition make_leaf :: "sidecar_options \<Rightarrow> address \<Rightarrow> address \<Rightarrow> string + sidecar_config" where
  "make_leaf s udp metrics =
     (case address_value (so_grpc s) ''--grpc'' of
        Inl e \<Rightarrow> Inl e
      | Inr grpc \<Rightarrow>
          (case address_or_local (so_json s) ''--json'' of
             Inl e \<Rightarrow> Inl e
           | Inr json \<Rightarrow>
               (case remote_values ''--parent'' (so_parents s) of
                  Inl e \<Rightarrow> Inl e
                | Inr parents \<Rightarrow> Inr (LeafConfig \<lparr>lc_id = so_id s, lc_udp_bind = udp, lc_grpc_bind = grpc, lc_json_bind = json, lc_metrics_bind = metrics,
                    lc_token = so_token s, lc_parents = parents, lc_sync_interval = so_sync s, lc_backend_timeout = so_backend_timeout s,
                    lc_rpc_timeout = so_rpc_timeout s, lc_metric_period = so_metric_period s, lc_redis = redis_config s\<rparr>))))"

definition configure :: "sidecar_options \<Rightarrow> string + sidecar_config" where
  "configure s =
     (case address_value (so_udp s) ''--udp'' of
        Inl e \<Rightarrow> Inl e
      | Inr udp \<Rightarrow>
          (case address_or_local (so_metrics s) ''--metrics'' of
             Inl e \<Rightarrow> Inl e
           | Inr metrics \<Rightarrow> if so_mode s = ''node'' then make_node s udp metrics else make_leaf s udp metrics))"

text \<open>The exit status of \<open>main\<close>; \<open>start\<close> is \<open>None\<close> when the runtime throws.\<close>

definition sidecar_main :: "(sidecar_config \<Rightarrow> bool option) \<Rightarrow> string list \<Rightarrow> int" where
  "sidecar_main start argv =
     (if length argv = 2 \<and> (argv ! 1 = ''--help'' \<or> argv ! 1 = ''-h'') then 0
      else case parse_options argv of
             Inl e \<Rightarrow> 2
           | Inr s \<Rightarrow> (case configure s of Inl e \<Rightarrow> 2 | Inr c \<Rightarrow> (case start c of None \<Rightarrow> 2 | Some ok \<Rightarrow> if ok then 0 else 1)))"

lemma set_option_simps [simp]:
  "set_option ''--id'' = Some (\<lambda>v s. Inr (s\<lparr>so_id := v\<rparr>))"
  "set_option ''--udp'' = Some (\<lambda>v s. Inr (s\<lparr>so_udp := v\<rparr>))"
  "set_option ''--peer'' = Some (\<lambda>v s. Inr (s\<lparr>so_peers := so_peers s @ [v]\<rparr>))"
  "set_option ''--parent'' = Some (\<lambda>v s. Inr (s\<lparr>so_parents := so_parents s @ [v]\<rparr>))"
  "set_option ''--grpc'' = Some (\<lambda>v s. Inr (s\<lparr>so_grpc := v\<rparr>))"
  "set_option ''--json'' = Some (\<lambda>v s. Inr (s\<lparr>so_json := v\<rparr>))"
  "set_option ''--metrics'' = Some (\<lambda>v s. Inr (s\<lparr>so_metrics := v\<rparr>))"
  "set_option ''--token'' = Some (\<lambda>v s. Inr (s\<lparr>so_token := v\<rparr>))"
  "set_option ''--redis-host'' = Some (\<lambda>v s. Inr (s\<lparr>so_redis_host := v\<rparr>))"
  "set_option ''--redis-port'' = Some (\<lambda>v s. case port_value v ''--redis-port'' of Inl e \<Rightarrow> Inl e | Inr p \<Rightarrow> Inr (s\<lparr>so_redis_port := p\<rparr>))"
  "set_option ''--redis-user'' = Some (\<lambda>v s. Inr (s\<lparr>so_redis_user := v\<rparr>))"
  "set_option ''--redis-password'' = Some (\<lambda>v s. Inr (s\<lparr>so_redis_password := v\<rparr>))"
  "set_option ''--redis-key'' = Some (\<lambda>v s. Inr (s\<lparr>so_redis_key := v\<rparr>))"
  "set_option ''--heartbeat-ms'' = Some (\<lambda>v s. case duration_value v ''--heartbeat-ms'' of Inl e \<Rightarrow> Inl e | Inr d \<Rightarrow> Inr (s\<lparr>so_heartbeat := d\<rparr>))"
  "set_option ''--dead-timeout-ms'' = Some (\<lambda>v s. case duration_value v ''--dead-timeout-ms'' of Inl e \<Rightarrow> Inl e | Inr d \<Rightarrow> Inr (s\<lparr>so_dead_timeout := d\<rparr>))"
  "set_option ''--sync-ms'' = Some (\<lambda>v s. case duration_value v ''--sync-ms'' of Inl e \<Rightarrow> Inl e | Inr d \<Rightarrow> Inr (s\<lparr>so_sync := d\<rparr>))"
  "set_option ''--metric-period-ms'' = Some (\<lambda>v s. case duration_value v ''--metric-period-ms'' of Inl e \<Rightarrow> Inl e | Inr d \<Rightarrow> Inr (s\<lparr>so_metric_period := d\<rparr>))"
  "set_option ''--backend-timeout-ms'' = Some (\<lambda>v s. case duration_value v ''--backend-timeout-ms'' of Inl e \<Rightarrow> Inl e | Inr d \<Rightarrow> Inr (s\<lparr>so_backend_timeout := d\<rparr>))"
  "set_option ''--rpc-timeout-ms'' = Some (\<lambda>v s. case duration_value v ''--rpc-timeout-ms'' of Inl e \<Rightarrow> Inl e | Inr d \<Rightarrow> Inr (s\<lparr>so_rpc_timeout := d\<rparr>))"
  by (simp_all add: set_option_def)

section \<open>The command line of a configuration\<close>

definition format_remote :: "remote_peer \<Rightarrow> string" where
  "format_remote r = rp_id r @ ''@'' @ format_address (rp_address r)"

definition text_arg :: "string \<Rightarrow> string \<Rightarrow> string list" where
  "text_arg option v = (if v = [] then [] else [option, v])"

definition address_arg :: "string \<Rightarrow> address \<Rightarrow> string list" where
  "address_arg option a = (if a = local_address then [] else [option, format_address a])"

definition remote_args :: "string \<Rightarrow> remote_peer list \<Rightarrow> string list" where
  "remote_args option rs = concat (map (\<lambda>r. [option, format_remote r]) rs)"

definition redis_args :: "redis_options \<Rightarrow> string list" where
  "redis_args r =
     (if r = default_redis_options then []
      else [''--redis-host'', ro_host r, ''--redis-port'', to_decimal (unat (ro_port r)), ''--redis-user'', ro_user r,
            ''--redis-password'', ro_password r, ''--redis-key'', ro_key r])"

definition ms_arg :: "string \<Rightarrow> int \<Rightarrow> string list" where
  "ms_arg option d = [option, to_decimal (nat d)]"

fun sidecar_args :: "sidecar_config \<Rightarrow> string list" where
  "sidecar_args (NodeConfig c) =
     [''node'', ''--id'', nc_id c, ''--udp'', format_address (nc_udp_bind c)] @ address_arg ''--metrics'' (nc_metrics_bind c)
     @ text_arg ''--token'' (nc_token c) @ remote_args ''--peer'' (nc_peers c) @ ms_arg ''--sync-ms'' (nc_sync_interval c)
     @ ms_arg ''--metric-period-ms'' (nc_metric_period c) @ redis_args (nc_redis c)"
| "sidecar_args (LeafConfig c) =
     [''leaf'', ''--id'', lc_id c, ''--udp'', format_address (lc_udp_bind c), ''--grpc'', format_address (lc_grpc_bind c)]
     @ address_arg ''--json'' (lc_json_bind c) @ address_arg ''--metrics'' (lc_metrics_bind c) @ text_arg ''--token'' (lc_token c)
     @ remote_args ''--parent'' (lc_parents c) @ ms_arg ''--sync-ms'' (lc_sync_interval c) @ ms_arg ''--backend-timeout-ms'' (lc_backend_timeout c)
     @ ms_arg ''--rpc-timeout-ms'' (lc_rpc_timeout c) @ ms_arg ''--metric-period-ms'' (lc_metric_period c) @ redis_args (lc_redis c)"

text \<open>What can be written: addresses with a host and a port, names without \<open>@\<close>, durations that fit.\<close>

definition address_ok :: "address \<Rightarrow> bool" where
  "address_ok a \<longleftrightarrow> ad_host a \<noteq> [] \<and> strip_brackets (ad_host a) = ad_host a \<and> ad_port a \<noteq> 0"

definition remote_ok :: "remote_peer \<Rightarrow> bool" where
  "remote_ok r \<longleftrightarrow> CHR ''@'' \<notin> set (rp_id r) \<and> address_ok (rp_address r)"

definition duration_ok :: "int \<Rightarrow> bool" where "duration_ok d \<longleftrightarrow> 0 < d \<and> d < 2 ^ 63"

definition redis_ok :: "redis_options \<Rightarrow> bool" where
  "redis_ok r \<longleftrightarrow> r = default_redis_options \<or> (ro_host r \<noteq> [] \<and> ro_port r \<noteq> 0 \<and> ro_key r \<noteq> [])"

fun config_ok :: "sidecar_config \<Rightarrow> bool" where
  "config_ok (NodeConfig c) \<longleftrightarrow> nc_id c \<noteq> [] \<and> address_ok (nc_udp_bind c) \<and> (nc_metrics_bind c = local_address \<or> address_ok (nc_metrics_bind c))
     \<and> (\<forall>r \<in> set (nc_peers c). remote_ok r) \<and> duration_ok (nc_sync_interval c) \<and> duration_ok (nc_metric_period c) \<and> redis_ok (nc_redis c)"
| "config_ok (LeafConfig c) \<longleftrightarrow> lc_id c \<noteq> [] \<and> address_ok (lc_udp_bind c) \<and> address_ok (lc_grpc_bind c)
     \<and> (lc_json_bind c = local_address \<or> address_ok (lc_json_bind c)) \<and> (lc_metrics_bind c = local_address \<or> address_ok (lc_metrics_bind c))
     \<and> lc_parents c \<noteq> [] \<and> (\<forall>r \<in> set (lc_parents c). remote_ok r) \<and> duration_ok (lc_sync_interval c) \<and> duration_ok (lc_backend_timeout c)
     \<and> duration_ok (lc_rpc_timeout c) \<and> duration_ok (lc_metric_period c) \<and> redis_ok (lc_redis c)"

section \<open>Reading it\<close>

lemma stoll_dec:
  assumes "n < 2 ^ 63"
  shows "stoll (to_decimal n) = Some (int n, length (to_decimal n))"
proof -
  have d: "\<forall>c \<in> set (to_decimal n). is_digit c" by (rule dec_string_digits)
  obtain c r where cr: "to_decimal n = c # r" by (cases "to_decimal n") simp_all
  then have "is_digit c" using d by simp
  then have s: "dropWhile is_space (to_decimal n) = to_decimal n" "sign_of (to_decimal n) = (False, to_decimal n)"
    using digit_not_special by (auto simp: cr sign_of_def)
  have t: "takeWhile is_digit (to_decimal n) = to_decimal n" using d by (simp add: takeWhile_eq_all_conv)
  have u: "dropWhile is_digit (to_decimal n) = []" using d by (simp add: dropWhile_eq_Nil_conv)
  have "int n < 2 ^ 63" using assms by (metis of_nat_less_iff of_nat_numeral of_nat_power)
  then show ?thesis unfolding stoll_def s prod.case Let_def t u by simp
qed

lemma duration_read [simp]: "duration_ok d \<Longrightarrow> duration_value (to_decimal (nat d)) option = Inr d"
proof -
  assume d: "duration_ok d"
  then have "nat d < 2 ^ 63" by (simp add: duration_ok_def nat_less_iff)
  from stoll_dec [OF this] d show ?thesis by (simp add: duration_value_def duration_ok_def)
qed

lemma port_read [simp]: "p \<noteq> 0 \<Longrightarrow> port_value (to_decimal (unat p)) option = Inr p"
proof -
  assume p: "p \<noteq> 0"
  have n: "unat p < 65536" using unsigned_less [of p, where ?'a = nat] by simp
  then have "unat p < 2 ^ 63" by simp
  note s = stoll_dec [OF this]
  have "0 < unat p" using p by (simp add: unat_gt_0)
  then have "0 < int (unat p)" "int (unat p) < 65536" using n by linarith+
  then show ?thesis using s by (simp add: port_value_def)
qed

lemma address_read [simp]: "address_ok a \<Longrightarrow> address_value (format_address a) option = Inr a"
  by (simp add: address_value_def address_ok_def address_roundtrip)

lemma format_address_nonempty [simp]: "format_address a \<noteq> []"
  by (simp add: format_address_def)

lemma remote_read [simp]: "remote_ok r \<Longrightarrow> remote_value (format_remote r) option = Inr r"
proof -
  assume r: "remote_ok r"
  then have n: "CHR ''@'' \<notin> set (rp_id r)" and a: "parse_address (format_address (rp_address r)) = Some (rp_address r)"
    by (simp_all add: remote_ok_def address_ok_def address_roundtrip)
  have "takeWhile (\<lambda>x. x \<noteq> CHR ''@'') (format_remote r) = rp_id r"
    using n unfolding format_remote_def by (subst takeWhile_append2) auto
  moreover have "dropWhile (\<lambda>x. x \<noteq> CHR ''@'') (format_remote r) = CHR ''@'' # format_address (rp_address r)"
    using n unfolding format_remote_def by (subst dropWhile_append2) auto
  ultimately show ?thesis using a by (simp add: remote_value_def parse_remote_def) (simp add: format_remote_def)
qed

lemma remote_values_read: "\<forall>r \<in> set rs. remote_ok r \<Longrightarrow> remote_values option (map format_remote rs) = Inr rs"
  by (induction rs) simp_all

text \<open>How the loop reads each part.\<close>

lemma loop_text:
  assumes "set_option option = Some (\<lambda>v s. Inr (f v s))" "f [] s = s"
  shows "parse_loop (text_arg option v @ argv) s = parse_loop argv (f v s)"
  using assms by (simp add: text_arg_def)

lemma loop_address:
  assumes "set_option option = Some (\<lambda>v s. Inr (f v s))" "f [] s = s"
  shows "parse_loop (address_arg option a @ argv) s = parse_loop argv (f (if a = local_address then [] else format_address a) s)"
  using assms by (simp add: address_arg_def)

lemma loop_peers: "parse_loop (remote_args ''--peer'' rs @ argv) s = parse_loop argv (s\<lparr>so_peers := so_peers s @ map format_remote rs\<rparr>)"
  by (induction rs arbitrary: s) (simp_all add: remote_args_def)

lemma loop_parents: "parse_loop (remote_args ''--parent'' rs @ argv) s = parse_loop argv (s\<lparr>so_parents := so_parents s @ map format_remote rs\<rparr>)"
  by (induction rs arbitrary: s) (simp_all add: remote_args_def)

definition with_redis :: "redis_options \<Rightarrow> sidecar_options \<Rightarrow> sidecar_options" where
  "with_redis r s = (if r = default_redis_options then s
     else s\<lparr>so_redis_host := ro_host r, so_redis_port := ro_port r, so_redis_user := ro_user r, so_redis_password := ro_password r, so_redis_key := ro_key r\<rparr>)"

lemma loop_redis: "redis_ok r \<Longrightarrow> parse_loop (redis_args r) s = Inr (with_redis r s)"
  by (auto simp: redis_args_def with_redis_def redis_ok_def)

lemma with_redis_other [simp]:
  "so_mode (with_redis r s) = so_mode s" "so_id (with_redis r s) = so_id s" "so_udp (with_redis r s) = so_udp s" "so_peers (with_redis r s) = so_peers s"
  "so_parents (with_redis r s) = so_parents s" "so_grpc (with_redis r s) = so_grpc s" "so_json (with_redis r s) = so_json s"
  "so_metrics (with_redis r s) = so_metrics s" "so_token (with_redis r s) = so_token s" "so_sync (with_redis r s) = so_sync s"
  "so_metric_period (with_redis r s) = so_metric_period s" "so_backend_timeout (with_redis r s) = so_backend_timeout s"
  "so_rpc_timeout (with_redis r s) = so_rpc_timeout s"
  by (simp_all add: with_redis_def)

lemma redis_read: "redis_ok r \<Longrightarrow> so_redis_host s = [] \<Longrightarrow> redis_config (with_redis r s) = r"
  by (auto simp: redis_config_def has_redis_options_def with_redis_def redis_ok_def)

lemma local_read [simp]:
  "a = local_address \<or> address_ok a \<Longrightarrow> address_or_local (if a = local_address then [] else format_address a) option = Inr a"
  by (auto simp: address_or_local_def)

text \<open>C22. The command line written for a configuration of a node or a leaf starts the program with exactly that
  configuration: every address, peer, parent, duration and Redis option survives printing, parsing, checking and
  conversion. Required are non-empty names, addresses with a host and a port, and durations that are positive and fit.\<close>

theorem sidecar_reads_configuration:
  assumes "config_ok c"
  shows "(\<exists>s. parse_options (''creek_sidecar'' # sidecar_args c) = Inr s \<and> configure s = Inr c)
     \<and> sidecar_main start (''creek_sidecar'' # sidecar_args c) = (case start c of None \<Rightarrow> 2 | Some ok \<Rightarrow> if ok then 0 else 1)"
proof -
  have r: "\<exists>s. parse_options (''creek_sidecar'' # sidecar_args c) = Inr s \<and> configure s = Inr c"
  proof (cases c)
    case (NodeConfig n)
    then show ?thesis using assms
      by (simp add: parse_options_def default_options_def loop_text loop_address loop_peers ms_arg_def loop_redis check_options_def
          configure_def make_node_def remote_values_read redis_read)
  next
    case (LeafConfig l)
    then show ?thesis using assms
      by (simp add: parse_options_def default_options_def loop_text loop_address loop_parents ms_arg_def loop_redis check_options_def
          configure_def make_leaf_def remote_values_read redis_read)
  qed
  have "length (''creek_sidecar'' # sidecar_args c) \<noteq> 2" by (cases c) simp_all
  with r show ?thesis by (auto simp: sidecar_main_def)
qed

definition sample_leaf_config :: leaf_config where
  "sample_leaf_config = \<lparr>lc_id = ''l1'', lc_udp_bind = \<lparr>ad_host = ''h'', ad_port = 7\<rparr>, lc_grpc_bind = \<lparr>ad_host = ''h'', ad_port = 8\<rparr>,
     lc_json_bind = local_address, lc_metrics_bind = \<lparr>ad_host = ''m'', ad_port = 9\<rparr>, lc_token = [],
     lc_parents = [\<lparr>rp_id = ''n1'', rp_address = \<lparr>ad_host = ''n'', ad_port = 65535\<rparr>\<rparr>], lc_sync_interval = 15000, lc_backend_timeout = 3000,
     lc_rpc_timeout = 15000, lc_metric_period = 60000,
     lc_redis = \<lparr>ro_host = ''r'', ro_port = 6379, ro_user = [], ro_password = [], ro_key = ''k''\<rparr>\<rparr>"

theorem sidecar_reads_configuration_witness:
  "sidecar_main (\<lambda>_. Some True) (''creek_sidecar'' # sidecar_args (LeafConfig sample_leaf_config)) = 0"
proof -
  have "config_ok (LeafConfig sample_leaf_config)"
    by (simp add: sample_leaf_config_def address_ok_def remote_ok_def duration_ok_def redis_ok_def strip_brackets_def)
  from sidecar_reads_configuration [OF this] show ?thesis by simp
qed

section \<open>Options without effect\<close>

text \<open>The heartbeat interval and the dead timeout are checked and then ignored; a Redis server given without a key
  is not used, although the options of the client have a default for the key.\<close>

lemma heartbeat_without_effect: "configure (s\<lparr>so_heartbeat := h, so_dead_timeout := d\<rparr>) = configure s"
proof -
  have r: "redis_config (s\<lparr>so_heartbeat := h, so_dead_timeout := d\<rparr>) = redis_config s" by (simp add: redis_config_def has_redis_options_def)
  have "make_node (s\<lparr>so_heartbeat := h, so_dead_timeout := d\<rparr>) = make_node s" "make_leaf (s\<lparr>so_heartbeat := h, so_dead_timeout := d\<rparr>) = make_leaf s"
    by (intro ext, simp add: make_node_def make_leaf_def r cong: sum.case_cong)+
  then show ?thesis by (simp add: configure_def cong: sum.case_cong if_cong)
qed

lemma redis_needs_key:
  "\<exists>s. parse_loop [''--redis-host'', ''r'', ''--redis-port'', ''6379''] (default_options mode) = Inr s \<and> redis_config s = default_redis_options"
proof -
  have "to_decimal (unat (6379 :: u16)) = ''6379''"
    by (simp add: to_decimal.simps [of 6379] to_decimal.simps [of 637] to_decimal.simps [of 63] to_decimal.simps [of 6] digit_char_def) code_simp
  then have "port_value ''6379'' ''--redis-port'' = Inr 6379" using port_read [of 6379 "''--redis-port''"] by simp
  then show ?thesis by (simp add: default_options_def redis_config_def has_redis_options_def)
qed

end
