(* ===== verification/Registrar.thy ===== *)
theory Registrar
  imports Leaf
begin

text \<open>
  The program \<open>creek_registrar\<close> (\<open>apps/registrar.cpp\<close>): it registers a backend with a leaf under its services,
  sends heartbeats until a signal comes and deregisters. The leaf's control service, the clocks, sleeping and the
  signal are the argument \<open>control\<close>, over a world of any type; a call that fails has a status other than zero and
  leaves the reply as it was created. Its two waiting loops are partial functions. The threads of the program are
  the registration, then the heartbeats while the main thread waits for the signal, then the deregistration.

  The lemmas show that registration ends within its deadline, and that nothing is left registered: the interface
  \<open>control_service\<close> states what that needs of the service, and the handlers of the leaf (theory Leaf) meet it.
\<close>

section \<open>The command line\<close>

record registrar_options =
  rg_leaf :: string
  rg_target :: string
  rg_id :: string
  rg_services :: "string list"
  rg_heartbeat_ms :: int

definition default_registrar_options :: registrar_options where
  "default_registrar_options = \<lparr>rg_leaf = [], rg_target = [], rg_id = [], rg_services = [], rg_heartbeat_ms = 500\<rparr>"

text \<open>\<open>std::stoi (s)\<close>: what follows the digits is ignored; an exception carries the name of the function.\<close>

definition stoi :: "string \<Rightarrow> string + int" where
  "stoi s =
     (case sign_of (dropWhile is_space s) of (neg, r) \<Rightarrow>
        let ds = takeWhile is_digit r; v = (if neg then - int (dec_value ds) else int (dec_value ds)) in
        if ds = [] \<or> v < - (2 ^ 31) \<or> 2 ^ 31 \<le> v then Inl ''stoi'' else Inr v)"

definition registrar_option :: "string \<Rightarrow> (string \<Rightarrow> registrar_options \<Rightarrow> string + registrar_options) option" where
  "registrar_option option =
     (if option = ''--leaf'' then Some (\<lambda>v s. Inr (s\<lparr>rg_leaf := v\<rparr>))
      else if option = ''--target'' then Some (\<lambda>v s. Inr (s\<lparr>rg_target := v\<rparr>))
      else if option = ''--id'' then Some (\<lambda>v s. Inr (s\<lparr>rg_id := v\<rparr>))
      else if option = ''--service'' then Some (\<lambda>v s. Inr (s\<lparr>rg_services := rg_services s @ [v]\<rparr>))
      else if option = ''--heartbeat-ms'' then Some (\<lambda>v s. case stoi v of Inl e \<Rightarrow> Inl e | Inr n \<Rightarrow> Inr (s\<lparr>rg_heartbeat_ms := n\<rparr>))
      else None)"

fun registrar_loop :: "string list \<Rightarrow> registrar_options \<Rightarrow> string + registrar_options" where
  "registrar_loop [] s = Inr s"
| "registrar_loop [option] s =
     (case registrar_option option of None \<Rightarrow> Inl (''unknown option: '' @ option) | Some f \<Rightarrow> Inl (''missing value for '' @ option))"
| "registrar_loop (option # v # argv) s =
     (case registrar_option option of
        None \<Rightarrow> Inl (''unknown option: '' @ option)
      | Some f \<Rightarrow> (case f v s of Inl e \<Rightarrow> Inl e | Inr s \<Rightarrow> registrar_loop argv s))"

definition registrar_parse :: "string list \<Rightarrow> string + registrar_options" where
  "registrar_parse argv =
     (case registrar_loop (drop 1 argv) default_registrar_options of
        Inl e \<Rightarrow> Inl e
      | Inr s \<Rightarrow>
          if rg_leaf s = [] \<or> rg_target s = [] \<or> rg_id s = [] \<or> rg_services s = []
          then Inl ''--leaf, --target, --id and at least one --service are required''
          else if rg_heartbeat_ms s \<le> 0 then Inl ''--heartbeat-ms must be positive''
          else Inr s)"

section \<open>The control service\<close>

record 'w control =
  ct_register :: "endpoint \<Rightarrow> 'w \<Rightarrow> grpc_status \<times> reply \<times> 'w"
  ct_heartbeat :: "string \<Rightarrow> 'w \<Rightarrow> reply \<times> 'w"
  ct_deregister :: "string \<Rightarrow> 'w \<Rightarrow> 'w"
  ct_millis :: "'w \<Rightarrow> u64 \<times> 'w"
  ct_sleep :: "int \<Rightarrow> 'w \<Rightarrow> 'w"
  ct_steady :: "'w \<Rightarrow> timepoint"
  ct_stopped :: "'w \<Rightarrow> bool"

definition endpoint_id_for :: "registrar_options \<Rightarrow> string \<Rightarrow> string" where
  "endpoint_id_for opts service = (if length (rg_services opts) = 1 then rg_id opts else rg_id opts @ ''#'' @ service)"

definition register_service :: "'w control \<Rightarrow> registrar_options \<Rightarrow> string \<Rightarrow> string \<Rightarrow> 'w \<Rightarrow> grpc_status \<times> 'w" where
  "register_service ctl opts service i w =
     (case ct_millis ctl w of (ver, w) \<Rightarrow>
      case ct_millis ctl w of (updated, w) \<Rightarrow>
      case ct_register ctl (empty_endpoint\<lparr>endpoint_id := i, ep_service := service, ep_target := rg_target opts, ep_version := ver,
             updated_ms := updated, ep_alive := True\<rparr>) w of (status, reply, w) \<Rightarrow>
        (case reply of
           Accepted \<Rightarrow> (status, w)
         | Refused err \<Rightarrow> if gs_code status = 0 then (\<lparr>gs_code = 9, gs_message = err\<rparr>, w) else (status, w)))"

partial_function (option) try_register ::
    "'w control \<Rightarrow> registrar_options \<Rightarrow> timepoint \<Rightarrow> string \<Rightarrow> string \<Rightarrow> 'w \<Rightarrow> (grpc_status \<times> 'w) option" where
  "try_register ctl opts deadline service i w =
     (case register_service ctl opts service i w of (status, w) \<Rightarrow>
        if gs_code status = 0 then Some (status, w)
        else
          let w = ct_sleep ctl 100 w
          in if \<not> ct_stopped ctl w \<and> ct_steady ctl w < deadline then try_register ctl opts deadline service i w
             else Some (status, w))"

definition deregister_all :: "'w control \<Rightarrow> string list \<Rightarrow> 'w \<Rightarrow> 'w" where
  "deregister_all ctl ids w = fold (ct_deregister ctl) ids w"

text \<open>The services in order, after those already registered with their identifiers.\<close>

fun register_all :: "'w control \<Rightarrow> registrar_options \<Rightarrow> timepoint \<Rightarrow> string list \<Rightarrow> (string \<times> string) list \<Rightarrow> 'w
    \<Rightarrow> ((grpc_status + (string \<times> string) list) \<times> 'w) option" where
  "register_all ctl opts deadline [] regs w = Some (Inr regs, w)"
| "register_all ctl opts deadline (service # services) regs w =
     (case try_register ctl opts deadline service (endpoint_id_for opts service) w of
        None \<Rightarrow> None
      | Some (status, w) \<Rightarrow>
          if gs_code status \<noteq> 0 \<or> ct_stopped ctl w then Some (Inl status, deregister_all ctl (map snd regs) w)
          else register_all ctl opts deadline services (regs @ [(service, endpoint_id_for opts service)]) w)"

fun registrar_heartbeat :: "'w control \<Rightarrow> registrar_options \<Rightarrow> string \<times> string \<Rightarrow> 'w \<Rightarrow> 'w" where
  "registrar_heartbeat ctl opts (service, i) w =
     (case ct_heartbeat ctl i w of (reply, w) \<Rightarrow>
        if reply \<noteq> Accepted then snd (register_service ctl opts service i w) else w)"

partial_function (option) heartbeat_loop :: "'w control \<Rightarrow> registrar_options \<Rightarrow> (string \<times> string) list \<Rightarrow> 'w \<Rightarrow> 'w option" where
  "heartbeat_loop ctl opts regs w =
     (if ct_stopped ctl w then Some w
      else
        let w = ct_sleep ctl (rg_heartbeat_ms opts) w
        in if ct_stopped ctl w then Some w else heartbeat_loop ctl opts regs (fold (registrar_heartbeat ctl opts) regs w))"

definition registrar_execute :: "'w control \<Rightarrow> registrar_options \<Rightarrow> 'w \<Rightarrow> (int \<times> 'w) option" where
  "registrar_execute ctl opts w =
     (case register_all ctl opts (ct_steady ctl w + sec 10) (rg_services opts) [] w of
        None \<Rightarrow> None
      | Some (Inl status, w) \<Rightarrow> Some (1, w)
      | Some (Inr regs, w) \<Rightarrow>
          (case heartbeat_loop ctl opts regs w of None \<Rightarrow> None | Some w \<Rightarrow> Some (0, deregister_all ctl (map snd regs) w)))"

definition registrar_main :: "'w control \<Rightarrow> string list \<Rightarrow> 'w \<Rightarrow> (int \<times> 'w) option" where
  "registrar_main ctl argv w =
     (if length argv = 2 \<and> (argv ! 1 = ''--help'' \<or> argv ! 1 = ''-h'') then Some (0, w)
      else case registrar_parse argv of Inl e \<Rightarrow> Some (2, w) | Inr opts \<Rightarrow> registrar_execute ctl opts w)"

section \<open>Registration ends\<close>

text \<open>What the loop needs of the clock: sleeping takes time and calls do not take it back.\<close>

definition clock_advances :: "'w control \<Rightarrow> bool" where
  "clock_advances ctl \<longleftrightarrow>
     (\<forall>n w. 0 < n \<longrightarrow> ct_steady ctl w + msec n \<le> ct_steady ctl (ct_sleep ctl n w))
     \<and> (\<forall>opts service i w. ct_steady ctl w \<le> ct_steady ctl (snd (register_service ctl opts service i w)))"

lemma try_register_ends:
  assumes "clock_advances ctl"
  shows "\<exists>r. try_register ctl opts deadline service i w = Some r"
proof (induction "nat (deadline - ct_steady ctl w)" arbitrary: w rule: less_induct)
  case less
  obtain st w1 where r: "register_service ctl opts service i w = (st, w1)" by force
  let ?w2 = "ct_sleep ctl 100 w1"
  have "ct_steady ctl w \<le> ct_steady ctl w1" "ct_steady ctl w1 + msec 100 \<le> ct_steady ctl ?w2"
    using assms r unfolding clock_advances_def by (metis snd_conv, simp)
  then have "ct_steady ctl ?w2 < deadline \<Longrightarrow> nat (deadline - ct_steady ctl ?w2) < nat (deadline - ct_steady ctl w)"
    by (simp add: msec_def)
  then show ?case using less by (subst try_register.simps) (simp add: r Let_def)
qed

text \<open>Whatever the service answers, the registration of all services ends.\<close>

theorem register_all_ends:
  assumes "clock_advances ctl"
  shows "\<exists>r. register_all ctl opts deadline services regs w = Some r"
proof (induction services arbitrary: regs w)
  case (Cons s ss)
  obtain st w1 where "try_register ctl opts deadline s (endpoint_id_for opts s) w = Some (st, w1)"
    using try_register_ends [OF assms] by fastforce
  then show ?case using Cons by simp
qed simp

section \<open>Nothing is left registered\<close>

text \<open>\<open>live\<close> is the set of the endpoints the service offers. A call may add the endpoint it names and no other;
  deregistering removes it; a registration with status zero and a refusal, or with another status, adds nothing.\<close>

locale control_service =
  fixes ctl :: "'w control" and ok :: "'w \<Rightarrow> bool" and live :: "'w \<Rightarrow> string set"
  assumes register: "ok w \<Longrightarrow> ct_register ctl ep w = (st, rep, w')
      \<Longrightarrow> ok w' \<and> live w' \<subseteq> (if gs_code st = 0 \<and> rep = Accepted then insert (endpoint_id ep) (live w) else live w)"
    and heartbeat: "ok w \<Longrightarrow> ct_heartbeat ctl i w = (rep, w') \<Longrightarrow> ok w' \<and> live w' \<subseteq> insert i (live w)"
    and deregister: "ok w \<Longrightarrow> ok (ct_deregister ctl i w) \<and> live (ct_deregister ctl i w) \<subseteq> live w - {i}"
    and millis: "ok w \<Longrightarrow> ct_millis ctl w = (ms, w') \<Longrightarrow> ok w' \<and> live w' \<subseteq> live w"
    and sleep: "ok w \<Longrightarrow> ok (ct_sleep ctl n w) \<and> live (ct_sleep ctl n w) \<subseteq> live w"
begin

lemma register_service_live:
  assumes "ok w" "register_service ctl opts s i w = (st, w')"
  shows "ok w' \<and> live w' \<subseteq> (if gs_code st = 0 then insert i (live w) else live w)"
proof -
  obtain v w1 where 1: "ct_millis ctl w = (v, w1)" by force
  obtain u w2 where 2: "ct_millis ctl w1 = (u, w2)" by force
  let ?ep = "empty_endpoint\<lparr>endpoint_id := i, ep_service := s, ep_target := rg_target opts, ep_version := v, updated_ms := u, ep_alive := True\<rparr>"
  obtain st3 rep w3 where 3: "ct_register ctl ?ep w2 = (st3, rep, w3)" by (metis prod_cases3)
  have ok2: "ok w2" "live w2 \<subseteq> live w" using millis [OF assms(1) 1] millis [OF _ 2] by blast+
  have "w' = w3 \<and> st = (if gs_code st3 = 0 then (case rep of Accepted \<Rightarrow> st3 | Refused e \<Rightarrow> \<lparr>gs_code = 9, gs_message = e\<rparr>) else st3)"
    using assms(2) by (auto simp: register_service_def 1 2 3 split: reply.splits if_splits)
  with register [OF ok2(1) 3] ok2(2) show ?thesis by (auto split: if_splits reply.splits)
qed

lemma try_register_live:
  assumes "try_register ctl opts deadline s i w = Some (st, w')" "ok w"
  shows "ok w' \<and> live w' \<subseteq> (if gs_code st = 0 then insert i (live w) else live w)"
proof -
  have "c = ctl \<longrightarrow> ok w \<longrightarrow> ok (snd r) \<and> live (snd r) \<subseteq> (if gs_code (fst r) = 0 then insert i (live w) else live w)"
    if "try_register c opts deadline s i w = Some r" for c opts deadline s i w r
    using that
  proof (induct rule: try_register.raw_induct [rotated 1, consumes 1, case_names step])
    case (step f c opts deadline s i w r)
    obtain st1 w1 where 2: "register_service c opts s i w = (st1, w1)" by force
    show ?case
    proof (intro impI)
      assume c: "c = ctl" "ok w"
      then have 3: "ok w1 \<and> live w1 \<subseteq> (if gs_code st1 = 0 then insert i (live w) else live w)"
        using register_service_live [OF _ 2 [unfolded c(1)]] by blast
      show "ok (snd r) \<and> live (snd r) \<subseteq> (if gs_code (fst r) = 0 then insert i (live w) else live w)"
      proof (cases "gs_code st1 = 0")
        case True
        then have "r = (st1, w1)" using step(2) 2 by simp
        with 3 True show ?thesis by simp
      next
        case False
        let ?w2 = "ct_sleep ctl 100 w1"
        have s: "ok ?w2" "live ?w2 \<subseteq> live w" using sleep [of w1 100] 3 False by auto
        show ?thesis
        proof (cases "\<not> ct_stopped ctl ?w2 \<and> ct_steady ctl ?w2 < deadline")
          case True
          then have "f c opts deadline s i ?w2 = Some r" using step(2) 2 False c(1) by (simp add: Let_def)
          from step(1) [OF this] c(1) s show ?thesis by (auto split: if_splits)
        next
          case stop: False
          then have "r = (st1, ?w2)" using step(2) 2 False c(1) by (simp add: Let_def split: if_splits)
          with s False show ?thesis by simp
        qed
      qed
    qed
  qed
  with assms show ?thesis by fastforce
qed

lemma deregister_all_live:
  assumes "ok w"
  shows "ok (deregister_all ctl ids w) \<and> live (deregister_all ctl ids w) \<subseteq> live w - set ids"
  using assms
proof (induction ids arbitrary: w)
  case (Cons i ids)
  from deregister [OF Cons.prems, of i] Cons.IH [of "ct_deregister ctl i w"] show ?case by (auto simp: deregister_all_def)
qed (simp add: deregister_all_def)

lemma heartbeats_live:
  assumes "ok w"
  shows "ok (fold (registrar_heartbeat ctl opts) regs w) \<and> live (fold (registrar_heartbeat ctl opts) regs w) \<subseteq> live w \<union> snd ` set regs"
  using assms
proof (induction regs arbitrary: w)
  case (Cons r regs)
  obtain s i where r: "r = (s, i)" by force
  obtain rep w1 where 1: "ct_heartbeat ctl i w = (rep, w1)" by force
  obtain st w2 where 2: "register_service ctl opts s i w1 = (st, w2)" by force
  have "ok (registrar_heartbeat ctl opts r w) \<and> live (registrar_heartbeat ctl opts r w) \<subseteq> insert i (live w)"
    using heartbeat [OF Cons.prems 1] register_service_live [OF _ 2] by (auto simp: r 1 2 split: if_splits)
  with Cons.IH [of "registrar_heartbeat ctl opts r w"] show ?case by (auto simp: r)
qed simp

lemma heartbeat_loop_live:
  assumes "heartbeat_loop ctl opts regs w = Some w'" "ok w"
  shows "ok w' \<and> live w' \<subseteq> live w \<union> snd ` set regs"
proof -
  have "c = ctl \<longrightarrow> ok w \<longrightarrow> ok w' \<and> live w' \<subseteq> live w \<union> snd ` set regs"
    if "heartbeat_loop c opts regs w = Some w'" for c opts regs w w'
    using that
  proof (induct rule: heartbeat_loop.raw_induct [rotated 1, consumes 1, case_names step])
    case (step f c opts regs w w')
    show ?case
    proof (intro impI)
      assume c: "c = ctl" "ok w"
      let ?w1 = "ct_sleep ctl (rg_heartbeat_ms opts) w"
      have s: "ok ?w1" "live ?w1 \<subseteq> live w" using sleep [OF c(2)] by blast+
      show "ok w' \<and> live w' \<subseteq> live w \<union> snd ` set regs"
      proof (cases "ct_stopped ctl w \<or> ct_stopped ctl ?w1")
        case True
        then have "w' = w \<or> w' = ?w1" using step(2) c(1) by (auto simp: Let_def split: if_splits)
        with s c show ?thesis by auto
      next
        case False
        then have "f c opts regs (fold (registrar_heartbeat ctl opts) regs ?w1) = Some w'" using step(2) c(1) by (simp add: Let_def)
        from step(1) [OF this] c(1) heartbeats_live [OF s(1), of opts regs] s show ?thesis by blast
      qed
    qed
  qed
  with assms show ?thesis by blast
qed

lemma register_all_live:
  assumes "register_all ctl opts deadline services regs w = Some (r, w')" "ok w"
  shows "ok w' \<and> (case r of
      Inr all \<Rightarrow> all = regs @ map (\<lambda>s. (s, endpoint_id_for opts s)) services \<and> live w' \<subseteq> live w \<union> endpoint_id_for opts ` set services
    | Inl st \<Rightarrow> \<exists>i \<in> endpoint_id_for opts ` set services. live w' \<subseteq> live w - snd ` set regs \<union> (if gs_code st = 0 then {i} else {}))"
  using assms
proof (induction services arbitrary: regs w)
  case Nil
  then show ?case by auto
next
  case (Cons s ss)
  obtain st w1 where t: "try_register ctl opts deadline s (endpoint_id_for opts s) w = Some (st, w1)"
    using Cons.prems(1) by (cases "try_register ctl opts deadline s (endpoint_id_for opts s) w") auto
  note l = try_register_live [OF t Cons.prems(2)]
  show ?case
  proof (cases "gs_code st \<noteq> 0 \<or> ct_stopped ctl w1")
    case True
    then have "r = Inl st \<and> w' = deregister_all ctl (map snd regs) w1" using Cons.prems(1) t by auto
    with deregister_all_live [of w1 "map snd regs"] l show ?thesis by (auto split: if_splits)
  next
    case False
    then have "register_all ctl opts deadline ss (regs @ [(s, endpoint_id_for opts s)]) w1 = Some (r, w')" using Cons.prems(1) t by auto
    from Cons.IH [OF this] l False have ih: "ok w' \<and> (case r of
        Inr all \<Rightarrow> all = (regs @ [(s, endpoint_id_for opts s)]) @ map (\<lambda>s. (s, endpoint_id_for opts s)) ss \<and> live w' \<subseteq> live w1 \<union> endpoint_id_for opts ` set ss
      | Inl st \<Rightarrow> \<exists>i \<in> endpoint_id_for opts ` set ss. live w' \<subseteq> live w1 - snd ` set (regs @ [(s, endpoint_id_for opts s)]) \<union> (if gs_code st = 0 then {i} else {}))"
      by simp
    have w1: "live w1 \<subseteq> insert (endpoint_id_for opts s) (live w)" using l False by simp
    show ?thesis
    proof (cases r)
      case (Inl a)
      let ?X = "\<lambda>i. if gs_code a = 0 then {i} else {}"
      obtain i where i: "i \<in> endpoint_id_for opts ` set ss" "live w' \<subseteq> live w1 - snd ` set (regs @ [(s, endpoint_id_for opts s)]) \<union> ?X i"
        using ih Inl by auto
      have "live w1 - snd ` set (regs @ [(s, endpoint_id_for opts s)]) \<subseteq> live w - snd ` set regs" using w1 by auto
      with i have "live w' \<subseteq> live w - snd ` set regs \<union> ?X i" by blast
      moreover have "i \<in> endpoint_id_for opts ` set (s # ss)" using i(1) by simp
      ultimately show ?thesis using ih Inl by auto
    next
      case (Inr all)
      with ih w1 show ?thesis by auto
    qed
  qed
qed

text \<open>A run that ends with status 0 leaves none of its endpoints, one that ends with 1 at most one.\<close>

lemma execute_live:
  assumes "registrar_execute ctl opts w = Some (code, w')" "ok w"
  shows "ok w' \<and> (code = 0 \<and> live w' \<subseteq> live w - endpoint_id_for opts ` set (rg_services opts) \<or> code = 1 \<and> (\<exists>i. live w' \<subseteq> insert i (live w)))"
proof -
  let ?ids = "endpoint_id_for opts ` set (rg_services opts)"
  obtain r w1 where r: "register_all ctl opts (ct_steady ctl w + sec 10) (rg_services opts) [] w = Some (r, w1)"
    using assms(1) by (auto simp: registrar_execute_def split: option.splits sum.splits)
  note l = register_all_live [OF r assms(2)]
  show ?thesis
  proof (cases r)
    case (Inl st)
    then show ?thesis using assms(1) l r by (fastforce simp: registrar_execute_def split: if_splits)
  next
    case (Inr regs)
    then obtain w2 where h: "heartbeat_loop ctl opts regs w1 = Some w2" "code = 0" "w' = deregister_all ctl (map snd regs) w2"
      using assms(1) r by (auto simp: registrar_execute_def split: option.splits)
    have g: "ok w1" "snd ` set regs = ?ids" "live w1 \<subseteq> live w \<union> ?ids" using l Inr by (auto simp: image_comp)
    have "ok w2" "live w2 \<subseteq> live w1 \<union> ?ids" using heartbeat_loop_live [OF h(1) g(1)] g(2) by simp_all
    moreover have "ok w'" "live w' \<subseteq> live w2 - ?ids" using deregister_all_live [OF calculation(1), of "map snd regs"] g(2) h(3) by simp_all
    ultimately show ?thesis using g(3) h(2) by blast
  qed
qed

end

section \<open>A leaf as the service\<close>

text \<open>The leaf that answers at once, its periodic work done while the registrar sleeps; the signal comes after a
  number of sleeps.\<close>

record leaf_world =
  lw_leaf :: leaf_state
  lw_now :: timepoint
  lw_millis :: u64
  lw_sleeps :: nat

definition leaf_control :: "wsize \<Rightarrow> leaf_world control" where
  "leaf_control wsize =
     \<lparr>ct_register = (\<lambda>ep w. case handle_register wsize (lw_now w) (lw_millis w) (Some ep) (lw_leaf w) of
         (rep, l, eff) \<Rightarrow> (status_ok, rep, w\<lparr>lw_leaf := l\<rparr>)),
      ct_heartbeat = (\<lambda>i w. case leaf_handle_heartbeat wsize (lw_now w) (lw_millis w) i (lw_leaf w) of (rep, l, eff) \<Rightarrow> (rep, w\<lparr>lw_leaf := l\<rparr>)),
      ct_deregister = (\<lambda>i w. case handle_deregister wsize (lw_millis w) i (lw_leaf w) of (rep, l, eff) \<Rightarrow> w\<lparr>lw_leaf := l\<rparr>),
      ct_millis = (\<lambda>w. (lw_millis w, w)),
      ct_sleep = (\<lambda>n w. case do_heartbeat_work wsize (lw_now w + msec n) (lw_millis w + of_int n) (lw_leaf w) of
         (l, eff) \<Rightarrow> w\<lparr>lw_leaf := l, lw_now := lw_now w + msec n, lw_millis := lw_millis w + of_int n, lw_sleeps := lw_sleeps w - 1\<rparr>),
      ct_steady = lw_now,
      ct_stopped = (\<lambda>w. lw_sleeps w = 0)\<rparr>"

definition alive_endpoints :: "leaf_world \<Rightarrow> string set" where
  "alive_endpoints w = {i. \<exists>le. (i, le) \<in> set (l_local_endpoints (lw_leaf w)) \<and> ep_alive (le_endpoint le)}"

lemma alive_map_of:
  assumes "leaf_ok (lw_leaf w)"
  shows "alive_endpoints w = {i. \<exists>le. map_of (l_local_endpoints (lw_leaf w)) i = Some le \<and> ep_alive (le_endpoint le)}"
  using leaf_okD(2) [OF assms] by (auto simp: alive_endpoints_def)

definition revives :: "string \<Rightarrow> leaf_state \<Rightarrow> leaf_state \<Rightarrow> bool" where
  "revives i l l' \<longleftrightarrow> (case map_of (l_local_endpoints l') i of None \<Rightarrow> False | Some le \<Rightarrow> ep_alive (le_endpoint le))
     \<and> (\<forall>j. j \<noteq> i \<longrightarrow> map_of (l_local_endpoints l') j = map_of (l_local_endpoints l) j)"

lemma register_state:
  assumes "leaf_ok l" "handle_register wsize now ms (Some ep) l = (rep, l', eff)"
  shows "if endpoint_id ep \<noteq> [] \<and> ep_service ep \<noteq> [] \<and> ep_target ep \<noteq> [] then rep = Accepted \<and> revives (endpoint_id ep) l l'
    else rep \<noteq> Accepted \<and> l' = l"
proof -
  have "om_wf (l_local_endpoints l)" using assms(1) by (simp add: leaf_ok_def)
  then show ?thesis using assms(2) unfolding revives_def
    by (auto simp: handle_register_def Let_def send_snapshot_to_parent_def om_set_map_of split: if_splits)
qed

lemma heartbeat_state:
  assumes "leaf_ok l" "leaf_handle_heartbeat wsize now ms i l = (rep, l', eff)"
  shows "l' = l \<or> revives i l l'"
proof -
  have "om_wf (l_local_endpoints l)" using assms(1) by (simp add: leaf_ok_def)
  then show ?thesis using assms(2) unfolding revives_def
    by (auto simp: leaf_handle_heartbeat_def restamp_def Let_def send_snapshot_to_parent_def om_set_map_of split: option.splits if_splits)
qed

lemma deregister_state:
  assumes "leaf_ok l" "handle_deregister wsize ms i l = (rep, l', eff)"
  shows "(map_of (l_local_endpoints l) i = None \<and> l' = l)
    \<or> (\<exists>le. \<not> ep_alive (le_endpoint le) \<and> map_of (l_local_endpoints l') = (map_of (l_local_endpoints l))(i \<mapsto> le))"
proof (cases "map_of (l_local_endpoints l) i")
  case (Some le)
  let ?le = "le\<lparr>le_endpoint := (le_endpoint le)\<lparr>ep_alive := False, ep_version := l_version_counter l + 1, updated_ms := ms\<rparr>\<rparr>"
  have "om_wf (l_local_endpoints l)" using assms(1) by (simp add: leaf_ok_def)
  then have "map_of (l_local_endpoints l') = (map_of (l_local_endpoints l))(i \<mapsto> ?le)"
    using assms(2) Some by (auto simp: handle_deregister_def restamp_def Let_def send_snapshot_to_parent_def om_set_map_of)
  moreover have "\<not> ep_alive (le_endpoint ?le)" by simp
  ultimately show ?thesis by blast
qed (use assms(2) in \<open>simp add: handle_deregister_def\<close>)

lemma revives_alive:
  assumes "leaf_ok (lw_leaf w)" "leaf_ok l'" "revives i (lw_leaf w) l'"
  shows "alive_endpoints (w\<lparr>lw_leaf := l'\<rparr>) = insert i (alive_endpoints w)"
proof -
  have "leaf_ok (lw_leaf (w\<lparr>lw_leaf := l'\<rparr>))" using assms(2) by simp
  then show ?thesis using assms(1,3) by (auto simp: alive_map_of revives_def split: option.splits)
qed

lemma scan_alive:
  assumes "do_heartbeat_work wsize now ms l = (l', eff)" "(i, le') \<in> set (l_local_endpoints l')" "ep_alive (le_endpoint le')"
  shows "\<exists>le. (i, le) \<in> set (l_local_endpoints l) \<and> ep_alive (le_endpoint le)"
proof -
  have "(i, le') \<in> set (scan_kept now ms (l_version_counter l) (l_local_endpoints l))"
    using assms(2) by (simp add: heartbeat_work_state(1) [OF assms(1)])
  from scan_kept_mem [OF this] assms(3) show ?thesis by (auto simp: lapse_def)
qed

interpretation leaf_service: control_service "leaf_control wsize" "\<lambda>w. leaf_ok (lw_leaf w)" alive_endpoints for wsize
proof
  fix w w' :: leaf_world and ep st rep
  assume ok: "leaf_ok (lw_leaf w)" and c: "ct_register (leaf_control wsize) ep w = (st, rep, w')"
  obtain r l' eff where h: "handle_register wsize (lw_now w) (lw_millis w) (Some ep) (lw_leaf w) = (r, l', eff)" by (metis prod_cases3)
  have w: "st = status_ok" "rep = r" "w' = w\<lparr>lw_leaf := l'\<rparr>" using c h by (simp_all add: leaf_control_def)
  have "leaf_ok l'" using leaf_ok_step [OF leaf_step.Register [OF h] ok] .
  with register_state [OF ok h] revives_alive [OF ok] w
  show "leaf_ok (lw_leaf w') \<and> alive_endpoints w' \<subseteq> (if gs_code st = 0 \<and> rep = Accepted then insert (endpoint_id ep) (alive_endpoints w) else alive_endpoints w)"
    by (auto simp: status_ok_def split: if_splits)
next
  fix w w' :: leaf_world and i rep
  assume ok: "leaf_ok (lw_leaf w)" and c: "ct_heartbeat (leaf_control wsize) i w = (rep, w')"
  obtain r l' eff where h: "leaf_handle_heartbeat wsize (lw_now w) (lw_millis w) i (lw_leaf w) = (r, l', eff)" by (metis prod_cases3)
  have w: "w' = w\<lparr>lw_leaf := l'\<rparr>" using c h by (simp add: leaf_control_def)
  have "leaf_ok l'" using leaf_ok_step [OF leaf_step.Heartbeat [OF h] ok] .
  with heartbeat_state [OF ok h] revives_alive [OF ok] w
  show "leaf_ok (lw_leaf w') \<and> alive_endpoints w' \<subseteq> insert i (alive_endpoints w)" by auto
next
  fix w :: leaf_world and i
  assume ok: "leaf_ok (lw_leaf w)"
  obtain r l' eff where h: "handle_deregister wsize (lw_millis w) i (lw_leaf w) = (r, l', eff)" by (metis prod_cases3)
  have w: "ct_deregister (leaf_control wsize) i w = w\<lparr>lw_leaf := l'\<rparr>" using h by (simp add: leaf_control_def)
  have "leaf_ok l'" using leaf_ok_step [OF leaf_step.Deregister [OF h] ok] .
  with deregister_state [OF ok h] ok w
  show "leaf_ok (lw_leaf (ct_deregister (leaf_control wsize) i w))
     \<and> alive_endpoints (ct_deregister (leaf_control wsize) i w) \<subseteq> alive_endpoints w - {i}"
    by (auto simp: alive_map_of split: if_splits)
next
  fix w w' :: leaf_world and ms
  assume "leaf_ok (lw_leaf w)" "ct_millis (leaf_control wsize) w = (ms, w')"
  then show "leaf_ok (lw_leaf w') \<and> alive_endpoints w' \<subseteq> alive_endpoints w" by (simp add: leaf_control_def)
next
  fix w :: leaf_world and n
  assume ok: "leaf_ok (lw_leaf w)"
  obtain l' eff where h: "do_heartbeat_work wsize (lw_now w + msec n) (lw_millis w + of_int n) (lw_leaf w) = (l', eff)" by force
  show "leaf_ok (lw_leaf (ct_sleep (leaf_control wsize) n w)) \<and> alive_endpoints (ct_sleep (leaf_control wsize) n w) \<subseteq> alive_endpoints w"
    using leaf_ok_heartbeat_work [OF ok h] scan_alive [OF h] h by (auto simp: leaf_control_def alive_endpoints_def)
qed

lemma leaf_registers:
  assumes "leaf_ok (lw_leaf w)" "i \<noteq> []" "service \<noteq> []" "rg_target opts \<noteq> []"
  shows "\<exists>w'. register_service (leaf_control wsize) opts service i w = (status_ok, w') \<and> leaf_ok (lw_leaf w')
     \<and> alive_endpoints w' = insert i (alive_endpoints w) \<and> lw_sleeps w' = lw_sleeps w"
proof -
  let ?ep = "empty_endpoint\<lparr>endpoint_id := i, ep_service := service, ep_target := rg_target opts, ep_version := lw_millis w,
    updated_ms := lw_millis w, ep_alive := True\<rparr>"
  obtain r l' eff where h: "handle_register wsize (lw_now w) (lw_millis w) (Some ?ep) (lw_leaf w) = (r, l', eff)" by (metis prod_cases3)
  have ok: "leaf_ok l'" using leaf_ok_step [OF leaf_step.Register [OF h] assms(1)] .
  have "r = Accepted" "revives i (lw_leaf w) l'" using register_state [OF assms(1) h] assms(2-4) by simp_all
  with h ok revives_alive [OF assms(1) ok] show ?thesis by (simp add: register_service_def leaf_control_def)
qed

lemma leaf_registers_all:
  assumes "leaf_ok (lw_leaf w)" "rg_id opts \<noteq> []" "[] \<notin> set services" "rg_target opts \<noteq> []" "0 < lw_sleeps w"
  shows "\<exists>w'. register_all (leaf_control wsize) opts deadline services regs w = Some (Inr (regs @ map (\<lambda>s. (s, endpoint_id_for opts s)) services), w')
     \<and> leaf_ok (lw_leaf w') \<and> alive_endpoints w' = alive_endpoints w \<union> endpoint_id_for opts ` set services"
  using assms(1,3,5)
proof (induction services arbitrary: regs w)
  case (Cons s ss)
  have ne: "s \<noteq> []" using Cons.prems(2) by auto
  have i: "endpoint_id_for opts s \<noteq> []" using assms(2) by (simp add: endpoint_id_for_def)
  obtain w1 where 1: "register_service (leaf_control wsize) opts s (endpoint_id_for opts s) w = (status_ok, w1)" "leaf_ok (lw_leaf w1)"
    "alive_endpoints w1 = insert (endpoint_id_for opts s) (alive_endpoints w)" "lw_sleeps w1 = lw_sleeps w"
    using leaf_registers [OF Cons.prems(1) i ne assms(4), of wsize] by blast
  then have t: "try_register (leaf_control wsize) opts deadline s (endpoint_id_for opts s) w = Some (status_ok, w1)"
    by (subst try_register.simps) (simp add: status_ok_def)
  have "\<not> ct_stopped (leaf_control wsize) w1" using 1(4) Cons.prems(3) by (simp add: leaf_control_def)
  moreover have "gs_code status_ok = 0" by (simp add: status_ok_def)
  ultimately have "register_all (leaf_control wsize) opts deadline (s # ss) regs w
      = register_all (leaf_control wsize) opts deadline ss (regs @ [(s, endpoint_id_for opts s)]) w1" using t by simp
  moreover have "[] \<notin> set ss" "0 < lw_sleeps w1" using Cons.prems 1(4) by simp_all
  ultimately show ?case using Cons.IH [OF 1(2), of "regs @ [(s, endpoint_id_for opts s)]"] 1(3) by simp
qed simp

lemma register_sleeps: "lw_sleeps (snd (register_service (leaf_control wsize) opts s i w)) = lw_sleeps w"
proof -
  obtain st rep w1 where h: "ct_register (leaf_control wsize) (empty_endpoint\<lparr>endpoint_id := i, ep_service := s, ep_target := rg_target opts,
      ep_version := lw_millis w, updated_ms := lw_millis w, ep_alive := True\<rparr>) w = (st, rep, w1)" by (metis prod_cases3)
  then have "lw_sleeps w1 = lw_sleeps w" by (auto simp: leaf_control_def split: prod.splits)
  moreover have "ct_millis (leaf_control wsize) w = (lw_millis w, w)" by (simp add: leaf_control_def)
  ultimately show ?thesis using h by (simp add: register_service_def split: reply.split)
qed

lemma leaf_round_sleeps: "lw_sleeps (fold (registrar_heartbeat (leaf_control wsize) opts) regs w) = lw_sleeps w"
proof (induction regs arbitrary: w)
  case (Cons r regs)
  obtain s i where r: "r = (s, i)" by force
  obtain rep w1 where h: "ct_heartbeat (leaf_control wsize) i w = (rep, w1)" by force
  then have "lw_sleeps w1 = lw_sleeps w" by (auto simp: leaf_control_def split: prod.splits)
  moreover have "lw_sleeps (snd (register_service (leaf_control wsize) opts s i w1)) = lw_sleeps w1" by (rule register_sleeps)
  ultimately have "lw_sleeps (registrar_heartbeat (leaf_control wsize) opts r w) = lw_sleeps w" by (simp add: r h)
  with Cons show ?case by simp
qed simp

lemma leaf_heartbeats_end: "\<exists>w'. heartbeat_loop (leaf_control wsize) opts regs w = Some w'"
proof (induction "lw_sleeps w" arbitrary: w rule: less_induct)
  case less
  let ?w1 = "ct_sleep (leaf_control wsize) (rg_heartbeat_ms opts) w"
  have "lw_sleeps ?w1 = lw_sleeps w - 1" by (simp add: leaf_control_def split: prod.split)
  then have "lw_sleeps w \<noteq> 0 \<Longrightarrow> lw_sleeps (fold (registrar_heartbeat (leaf_control wsize) opts) regs ?w1) < lw_sleeps w"
    by (simp add: leaf_round_sleeps)
  then show ?case using less by (subst heartbeat_loop.simps) (auto simp: Let_def leaf_control_def)
qed

text \<open>C20. A registrar that finds its leaf makes all its services available and leaves nothing behind: before the
  first heartbeat all its endpoints are alive at the leaf besides those that were; after the signal, however
  late, the program ends with status 0, and none of its endpoints is alive and no other has come.\<close>

theorem registrar_cleans_up:
  assumes "leaf_ok (lw_leaf w)" "rg_id opts \<noteq> []" "[] \<notin> set (rg_services opts)" "rg_target opts \<noteq> []" "0 < lw_sleeps w"
  shows "\<exists>w1 w'. register_all (leaf_control wsize) opts (ct_steady (leaf_control wsize) w + sec 10) (rg_services opts) [] w
       = Some (Inr (map (\<lambda>s. (s, endpoint_id_for opts s)) (rg_services opts)), w1)
     \<and> alive_endpoints w1 = alive_endpoints w \<union> endpoint_id_for opts ` set (rg_services opts)
     \<and> registrar_execute (leaf_control wsize) opts w = Some (0, w')
     \<and> alive_endpoints w' \<subseteq> alive_endpoints w - endpoint_id_for opts ` set (rg_services opts)"
proof -
  obtain w1 where 1: "register_all (leaf_control wsize) opts (ct_steady (leaf_control wsize) w + sec 10) (rg_services opts) [] w
       = Some (Inr (map (\<lambda>s. (s, endpoint_id_for opts s)) (rg_services opts)), w1)"
    "alive_endpoints w1 = alive_endpoints w \<union> endpoint_id_for opts ` set (rg_services opts)"
    using leaf_registers_all [OF assms(1-5), where regs = "[]"] by fastforce
  obtain w2 where "heartbeat_loop (leaf_control wsize) opts (map (\<lambda>s. (s, endpoint_id_for opts s)) (rg_services opts)) w1 = Some w2"
    using leaf_heartbeats_end by blast
  then obtain w' where e: "registrar_execute (leaf_control wsize) opts w = Some (0, w')" using 1(1) by (simp add: registrar_execute_def)
  with leaf_service.execute_live [OF this assms(1)] 1 show ?thesis by auto
qed

theorem registrar_cleans_up_witness:
  "\<exists>w'. registrar_execute (leaf_control (\<lambda>_. 0)) \<lparr>rg_leaf = ''l:1'', rg_target = ''t:2'', rg_id = ''b'', rg_services = [''S'', ''T''], rg_heartbeat_ms = 500\<rparr>
      \<lparr>lw_leaf = new_leaf ''l'' [] 0 0, lw_now = 0, lw_millis = 5, lw_sleeps = 3\<rparr> = Some (0, w') \<and> ''b#S'' \<notin> alive_endpoints w'"
proof -
  let ?o = "\<lparr>rg_leaf = ''l:1'', rg_target = ''t:2'', rg_id = ''b'', rg_services = [''S'', ''T''], rg_heartbeat_ms = 500\<rparr>"
  have "endpoint_id_for ?o ''S'' = ''b#S''" by (simp add: endpoint_id_for_def)
  with registrar_cleans_up [of "\<lparr>lw_leaf = new_leaf ''l'' [] 0 0, lw_now = 0, lw_millis = 5, lw_sleeps = 3\<rparr>" ?o "\<lambda>_. 0"] leaf_ok_new
  show ?thesis by fastforce
qed

text \<open>A signal that comes while a registration is under way leaves its endpoint alive: it is not among those that
  are deregistered.\<close>

lemma stop_leaves_registered:
  assumes "leaf_ok (lw_leaf w)" "rg_id opts \<noteq> []" "rg_services opts = s # ss" "s \<noteq> []" "rg_target opts \<noteq> []" "lw_sleeps w = 0"
  shows "\<exists>w'. registrar_execute (leaf_control wsize) opts w = Some (1, w') \<and> endpoint_id_for opts s \<in> alive_endpoints w'"
proof -
  have i: "endpoint_id_for opts s \<noteq> []" using assms(2) by (simp add: endpoint_id_for_def)
  obtain w1 where 1: "register_service (leaf_control wsize) opts s (endpoint_id_for opts s) w = (status_ok, w1)"
    "alive_endpoints w1 = insert (endpoint_id_for opts s) (alive_endpoints w)" "lw_sleeps w1 = 0"
    using leaf_registers [OF assms(1) i assms(4,5), of wsize] assms(6) by auto
  then have "try_register (leaf_control wsize) opts d s (endpoint_id_for opts s) w = Some (status_ok, w1)" for d
    by (subst try_register.simps) (simp add: status_ok_def)
  moreover have "ct_stopped (leaf_control wsize) w1" using 1(3) by (simp add: leaf_control_def)
  ultimately show ?thesis using assms(3) 1(2) by (simp add: registrar_execute_def deregister_all_def)
qed

text \<open>What follows the digits of the heartbeat interval is ignored.\<close>

lemma interval_with_rest: "stoi ''5seconds'' = Inr 5"
  by (simp add: stoi_def sign_of_def is_space_def is_digit_def dec_value_def digit_val_def)

end
