(* ===== verification/Spec2Isabelle.thy ===== *)
theory Spec2Isabelle
  imports Wire Reassembler Command Report Bandwidth Queue Sha256 Aes X25519 Transport_Engine Routing Breaker Timer Node Framework Leaf Generic
    Http Otlp Adapters Redis Filters Pool JsonRpc
    Inbox Aead Sidecar Registrar
begin

text \<open>
  Verification of creek, a service-mesh sidecar written in C++, and of tight, the UDP transport it runs on.

  \<^bold>\<open>The program.\<close> Applications talk to a leaf process beside them; leaves connect to nodes, nodes to each
  other. All links are tight links: messages are cut into fragments with Reed-Solomon parity, sent as UDP
  datagrams at a paced rate, encrypted when configured, collected and rebuilt at the other end; the receiver
  reports what it misses and the sender sends that again. Above the links, nodes keep a directory of service
  endpoints that they exchange as snapshots, and route requests, responses and streams by node and leaf name.
  Leaves choose an endpoint with a balancer and guard it with a circuit breaker. The runtimes live in a
  reactor framework of worker pools, timers and a message cycle.

  \<^bold>\<open>Theories and sources.\<close> Paths are relative to \<open>src/\<close>; those of creek itself are under \<open>src/src\<close> and
  \<open>src/include/creek\<close>.

  \<^item> Prelude: machine integers, byte layout, durations, ordered maps for \<open>std::map\<close>, and the interface
    \<open>ordered_map\<close> that the component proofs use through the interpretation \<open>om\<close>.
  \<^item> Wire: \<open>tight/src/wire_format.hpp\<close>, \<open>crc32.cpp\<close>, \<open>packet_codec.cpp\<close>. Decoding inverts encoding, the
    table-driven checksum is the bitwise CRC-32, and a corrupted byte is detected (interface
    \<open>byte_checksum\<close>).
  \<^item> FEC: \<open>tight/src/fec.cpp\<close>. Arithmetic in GF(256) by tables, encoding, decoding by Gaussian elimination.
    The coefficient matrix is shown to be invertible within the limits the fragmenter keeps, so decoding
    restores every missing fragment (interface \<open>erasure_code\<close>).
  \<^item> Peer, Fragmenter, Reassembler: \<open>tight/src/peer.hpp\<close>, \<open>fragmenter.cpp\<close>, \<open>reassembler.cpp\<close>. End to end, what
    the fragmenter sends is delivered exactly once and unchanged whatever the order and repetition of the
    packets, as soon as enough of them have arrived; the receiver stays in bounds for counts that fit and
    reads out of bounds for those that do not.
  \<^item> Command: \<open>tight/src/command.cpp\<close>. Commands arrive in order and at most once, all of them if none is lost,
    and a gap is skipped after three round trips.
  \<^item> Report, Bandwidth: \<open>tight/src/report.cpp\<close>, \<open>bandwidth.cpp\<close>. Reports are read as they were written, exactly
    the packets asked for are sent again and each at most a fixed number of times; the bottleneck estimate of
    the ring buffer is the maximum over its window.
  \<^item> Queue: \<open>tight/include/tight/blocking_queue.hpp\<close> and \<open>include/creek/framework/channel.hpp\<close>, down to linked
    nodes on a heap with recycling. Both meet the interface \<open>fifo_queue\<close>; the blocking queue refines a
    bounded FIFO.
  \<^item> Sha256, Aes, X25519: \<open>tight/src/crypto.cpp\<close>. Streaming SHA-256 and HMAC agree with their definitions,
    GCM decryption inverts encryption and accepts exactly the right tag, the limb arithmetic of X25519
    computes in the field of order 2^255 - 19 and the loop is the Montgomery ladder.
  \<^item> Transport, Transport_Wire, Transport_Link, Transport_Engine: \<open>tight/src/transport.cpp\<close>. The engine state and
    all its operations; packets on the wire with encryption and nonces; the link automaton that the packet
    handlers refine; pacing, the bounded send queue and an invariant of every reachable state.
  \<^item> Routing: \<open>src/routing.cpp\<close>. The last-writer-wins directory with tombstones: replicas that have seen the
    same updates agree, two nodes that exchange snapshots agree; the sticky balancer keeps sessions.
  \<^item> Breaker, Timer: \<open>src/circuit_breaker.cpp\<close>, \<open>src/framework/timer.cpp\<close>, \<open>task.cpp\<close>. The breaker cuts an endpoint
    off for the cool-down; the expiry loop ends and returns what is due.
  \<^item> Types, Metrics: \<open>src/types.cpp\<close>, \<open>src/trace_context.cpp\<close>, \<open>src/metrics.cpp\<close>. Addresses and trace contexts are
    read back as printed; the metrics store neither loses nor doubles a count.
  \<^item> Node: \<open>src/node/node_runtime.cpp\<close>. Routed messages are forwarded at most as often as the hop limit says
    (interface \<open>hop_limited\<close>), requests between nodes that know each other are delivered or answered, a leaf's
    snapshot is authoritative for its endpoints, and a leaf that disconnects has them marked dead.
  \<^item> Leaf: \<open>src/leaf/leaf_runtime.cpp\<close>. Registration, heartbeats and snapshots of local endpoints, choice of the
    parent, routed requests and their answers, calls with retry. Silent endpoints are marked dead, removed and
    advertised as removed; a call makes at most two attempts; a call of an endpoint on another leaf comes
    back through the nodes; the tables stay well-formed in every run.
  \<^item> Generic: \<open>src/leaf/leaf_generic.cpp\<close>, \<open>generic_proxy.hpp\<close>. Calls of any gRPC method are classified and
    forwarded as streams, to a backend of the same leaf or over the mesh. The proxy keeps the rules of the gRPC
    asynchronous interface in every run (interface \<open>watched_proxy\<close>), both directions of a stream keep order and
    lose nothing (interface \<open>message_pipe\<close>), a message crosses the mesh, and a stream whose backend stays silent
    is failed; a state from which a call never ends is reached by a run and no event leads out of it.
  \<^item> Framework: \<open>src/framework/\<close> reactor, heartbeat, data evolver, blackboard, stage four and their cycle. Pools
    run every task once, a cycle keeps all messages in order, the counter of pending calls is exact up to
    the calls still to be counted.

  \<^item> Http: \<open>src/json_rpc.cpp\<close> and the server in \<open>src/metrics.cpp\<close>. Requests arrive in any pieces; reading them is
    stated once in the interface \<open>head_reader\<close>, which both servers meet. A request reaches the handler as it was
    written, with its headers under lower-case names.
  \<^item> JsonRpc: \<open>handle_json_rpc\<close> in \<open>src/leaf/leaf_runtime.cpp\<close>. From the body's JSON value and the headers to the
    call and back; the session a client names in its headers reaches the call.
  \<^item> Otlp: \<open>src/otlp.cpp\<close>. An accepted export hands over every counter exactly once in one well-formed request.
  \<^item> Adapters: \<open>src/framework/routing_adapter.cpp\<close>, \<open>time_source.cpp\<close>. What changes through an adapter is marked on
    the blackboard (interface \<open>change_announcer\<close>, met by the adapters of directory, balancer, breaker and metrics).
  \<^item> Redis: \<open>src/redis.cpp\<close>. A leaf that registers is found under its node and nothing else changes; renewing the
    lease restores a registration.
  \<^item> Filters: \<open>src/filter_chain.cpp\<close>, \<open>filter_builtin.cpp\<close>, \<open>wasm_runtime.cpp\<close>. The chain, the JSON rules and the
    calls into WASM modules, whose code is an arbitrary tree of host calls, loads, stores and memory growth. A call
    stays within the memory of the guest under the conditions stated, lemmas show what happens without them, and what a
    module answers is applied.
  \<^item> Pool: \<open>tight/src/buffer_pool.hpp\<close>. Blocks in use are never shared, in every interleaving of threads.

  \<^item> Inbox: \<open>include/creek/blocking_queue.hpp\<close>, the queues of the leaf's workers; it meets \<open>fifo_queue\<close> too and
    is the view of theory Queue that the leaf's model uses.
  \<^item> Aead: \<open>src/crypto.cpp\<close>. The HKDF is that of RFC 5869 and agrees with tight's; two parties that exchange keys
    accept exactly each other's packets (interface \<open>aead_cipher\<close>, met by the cipher of theory Aes).
  \<^item> Sidecar: \<open>apps/sidecar_main.cpp\<close>. The command line written for a configuration gives that configuration.
  \<^item> Registrar: \<open>apps/registrar.cpp\<close>. Registration ends by its deadline, and after the program has ended none of its
    endpoints is alive (interface \<open>control_service\<close>, met by the handlers of theory Leaf).

  \<^bold>\<open>Conventions.\<close> A struct or class is a record with the fields of the source, an operation a function on it.
  Operations that hold a mutex for their whole body are atomic functions; threads are the interleavings of
  step relations over them. Clock readings, random numbers and the sizes of generated messages are arguments;
  callbacks and calls of other layers are effects in the result. Errors, and accesses that C++ leaves
  undefined, are values of the result type. Fixed-width integers are words and wrap; sizes that cannot
  overflow in memory are natural numbers; durations are whole nanoseconds; \<open>double\<close> is modelled by the reals,
  so rounding is outside the model. Hash maps are modelled by ordered maps, and no statement depends on
  their order.

  \<^bold>\<open>Loops.\<close> Loops are total functions: structural, or with a termination proof from the measure the code relies
  on (packets left, due entries of the heap, hop limit). Only the walks over linked nodes and the two
  waiting loops of the registrar are partial functions in the option monad; the lemmas show that the walks return on
  every list the queues build, and the loops when the clock advances and a signal comes. There
  is no fuel.

  \<^bold>\<open>Not modelled.\<close> Third-party libraries are arguments of the definitions: gRPC appears as the operations the proxy
  starts and the events that complete them, hiredis and its server, OpenSSL, wasm3 and the modules, the JSON library and
  protobuf sizes as functions. Logging, crash handling, sockets and thread creation, the accept
  loops of the servers, the start-up of leaf and node, the example applications and the administration client, reading a WASM module
  from a file and a rule from its JSON text are outside the model, as is \<open>process_batch\<close> of the runtimes, which
  reinterprets raw memory as events.
\<close>

end
